(* ===== verification/Ares_Prelude.thy ===== *)
theory Ares_Prelude
  imports Main "HOL-Library.Word" "HOL-Library.Monad_Syntax"
begin

unbundle bit_operations_syntax

text \<open>
  Shared vocabulary of the development: names for the C integer types, C pointers as optional
  indices, the loop the kernel uses to find the lowest set bit of a bitmap word, and the lemmas
  on words and lists that the components have in common.
\<close>

section \<open>Types\<close>

type_synonym u8 = "8 word"
type_synonym u16 = "16 word"
type_synonym u32 = "32 word"
type_synonym u64 = "64 word"

text \<open>Collections of rewrite rules: \<open>word_nat\<close> moves word arithmetic to \<open>nat\<close>.\<close>

named_theorems word_nat \<open>rules that read word operations through unat\<close>
named_theorems frame_simps \<open>what an operation leaves unchanged\<close>

section \<open>Words\<close>

lemma unat_u64: "unat (x :: u64) < 2 ^ 64"
  using unsigned_less[of x, where 'a = nat] by simp

lemma unat_Suc_less:
  fixes a b :: "'a :: len word"
  assumes "a < b"
  shows "unat (a + 1) = Suc (unat a)"
proof -
  have "1 + a \<noteq> 0"
  proof
    assume "1 + a = 0"
    then have "a = - 1" by (simp add: eq_neg_iff_add_eq_0 add.commute)
    with assms show False using word_n1_ge[of b] by (simp add: not_less)
  qed
  then show ?thesis using unatSuc[of a] by (simp add: add.commute)
qed

lemma unat_less_of_nat [word_nat]: "n < 2 ^ LENGTH('a) \<Longrightarrow> unat (of_nat n :: 'a :: len word) = n"
  by (simp add: unat_of_nat take_bit_nat_eq_self)

lemma sint_small:
  assumes "unat (x :: u32) < 2 ^ 31"
  shows "sint x = int (unat x)"
proof -
  have u: "uint x = int (unat x)" by (rule uint_nat)
  have "int (unat x) < int (2 ^ 31)" using assms by (simp only: of_nat_less_iff)
  then have lt: "int (unat x) < 2 ^ 31" by (simp only: of_nat_power of_nat_numeral)
  have "- (2 ^ 31) \<le> int (unat x)" by (rule order_trans[of _ 0]) simp_all
  then have "signed_take_bit 31 (int (unat x)) = int (unat x)" using lt by (rule signed_take_bit_int_eq_self)
  moreover have "sint x = signed_take_bit 31 (uint x)" by (simp add: sint_uint)
  ultimately show ?thesis by (simp only: u)
qed

lemma unat_of_nat_u64: "n < 2 ^ 64 \<Longrightarrow> unat (of_nat n :: u64) = n"
  by (rule unat_less_of_nat) simp

lemma unat_eqD: "unat a = unat b \<Longrightarrow> a = (b :: 'a :: len word)"
  by (simp add: word_unat_eq_iff)

lemma of_nat_eq_iff_small:
  "m < 2 ^ LENGTH('a) \<Longrightarrow> n < 2 ^ LENGTH('a) \<Longrightarrow> (of_nat m = (of_nat n :: 'a :: len word)) = (m = n)"
  by (metis unat_less_of_nat)

lemma and_1_eq_0_iff: "(w AND 1 = (0 :: 'a :: len word)) = (\<not> bit w 0)"
  by (simp add: and_one_eq bit_0 even_iff_mod_2_eq_zero)

lemma word_neq_0_bit: "(w :: 'a :: len word) \<noteq> 0 \<Longrightarrow> \<exists>k. bit w k"
  by (metis bit_eqI bit_0_eq bot_apply bot_bool_def)

text \<open>
  The loop \<open>while ((m & 1) == 0) { m >>= 1; idx++; }\<close>, used by the page allocator and by the
  process table. It runs forever on 0, so it is a partial function; on every other word it returns
  the index of the lowest set bit.
\<close>

partial_function (option) lowest_set_bit :: "u64 \<Rightarrow> u64 \<Rightarrow> u64 option" where
  "lowest_set_bit m idx =
     (if m AND 1 = 0 then lowest_set_bit (drop_bit 1 m) (idx + 1) else Some idx)"

lemma lowest_set_bit_at:
  assumes "bit m k" and "\<And>j. j < k \<Longrightarrow> \<not> bit m j"
  shows "lowest_set_bit m idx = Some (idx + of_nat k)"
  using assms
proof (induction k arbitrary: m idx)
  case 0
  then show ?case by (subst lowest_set_bit.simps) (simp add: and_1_eq_0_iff)
next
  case (Suc k)
  have e: "\<not> bit m 0" using Suc.prems(2)[of 0] by simp
  have "lowest_set_bit (drop_bit 1 m) (idx + 1) = Some (idx + 1 + of_nat k)"
    using Suc.prems by (intro Suc.IH) (auto simp: bit_drop_bit_eq)
  then show ?case using e
    by (subst lowest_set_bit.simps) (simp add: and_1_eq_0_iff algebra_simps)
qed

lemma lowest_set_bit_Some:
  assumes "m \<noteq> 0"
  obtains k where "lowest_set_bit m idx = Some (idx + of_nat k)"
    and "k < 64" and "bit m k" and "\<And>j. j < k \<Longrightarrow> \<not> bit m j"
proof -
  define k where "k = (LEAST j. bit m j)"
  have b: "bit m k" unfolding k_def using word_neq_0_bit[OF assms] by (rule LeastI_ex)
  have l: "\<And>j. j < k \<Longrightarrow> \<not> bit m j" unfolding k_def by (rule not_less_Least)
  have "k < 64" using bit_imp_le_length[OF b] by simp
  with b l lowest_set_bit_at[OF b l] show thesis by (intro that)
qed

section \<open>Bytes and characters\<close>

definition char8 :: "u8 \<Rightarrow> char" where
  "char8 b = char_of (unat b)"

text \<open>A C string literal: its bytes without the terminating NUL.\<close>

definition ascii :: "string \<Rightarrow> u8 list" where
  "ascii = map of_char"

lemma unat_of_char [simp]: "unat (of_char c :: u8) = of_char c"
proof -
  have "unat (of_nat (of_char c) :: u8) = of_char c" by (rule unat_less_of_nat) simp
  then show ?thesis by (simp only: of_nat_of_char)
qed

lemma char8_of_char [simp]: "char8 (of_char c) = c"
  by (simp add: char8_def)

lemma of_char_char8 [simp]: "of_char (char8 b) = b"
proof (rule unat_eqD)
  have "unat b < 256" using unsigned_less[of b, where 'a = nat] by simp
  then show "unat (of_char (char8 b) :: u8) = unat b" by (simp add: char8_def of_char_of)
qed

lemma of_char_u8_eq [simp]: "(of_char c :: u8) = of_char d \<longleftrightarrow> c = d"
  by (metis char8_of_char)

end
