(* ===== verification/Pmm.thy ===== *)
theory Pmm
  imports Ares_Prelude
begin

text \<open>
  The physical memory manager, \<^verbatim>\<open>memory/pmm.c\<close>: a bitmap of 16384 page frames in 256 words of
  64 bits, a set bit meaning a free page. The static variables of the file are the fields of the
  record \<open>pmm\<close>. The linker symbols \<^verbatim>\<open>_kernel_start\<close> and \<^verbatim>\<open>_kernel_end\<close> are arguments of
  \<open>pmm_init\<close>. The theory shows that the bitmap implements a set of free page numbers
  (\<open>free_set\<close>), that allocation is lowest address first, that the counters agree with the
  bitmap, and states the allocator's contract as the locale \<open>page_allocator\<close>.
\<close>

section \<open>State\<close>

abbreviation (input) PAGE_SIZE :: u64 where "PAGE_SIZE \<equiv> 4096"
abbreviation (input) KERNEL_HEAP_START :: u64 where "KERNEL_HEAP_START \<equiv> 0x200000"
abbreviation (input) KERNEL_HEAP_INITIAL_SIZE :: u64 where "KERNEL_HEAP_INITIAL_SIZE \<equiv> 0x400000"
abbreviation (input) MEM_PHYSICAL_END :: u64 where "MEM_PHYSICAL_END \<equiv> 0x4000000"
abbreviation (input) PMM_TOTAL_PAGES :: u64 where "PMM_TOTAL_PAGES \<equiv> MEM_PHYSICAL_END div PAGE_SIZE"
abbreviation (input) PMM_BITMAP_WORDS :: nat where "PMM_BITMAP_WORDS \<equiv> 256"

record pmm =
  pmm_bitmap :: "u64 list"
  pmm_total_pages :: u64
  pmm_free_pages :: u64
  pmm_reserved_pages :: u64

section \<open>Bitmap primitives\<close>

definition bitmap_set_free :: "u64 \<Rightarrow> pmm \<Rightarrow> pmm" where
  "bitmap_set_free page_idx s =
     (let w = unat (drop_bit 6 page_idx)
      in s\<lparr>pmm_bitmap := (pmm_bitmap s)
             [w := pmm_bitmap s ! w OR push_bit (unat (page_idx AND 63)) 1]\<rparr>)"

definition bitmap_set_used :: "u64 \<Rightarrow> pmm \<Rightarrow> pmm" where
  "bitmap_set_used page_idx s =
     (let w = unat (drop_bit 6 page_idx)
      in s\<lparr>pmm_bitmap := (pmm_bitmap s)
             [w := pmm_bitmap s ! w AND NOT (push_bit (unat (page_idx AND 63)) 1)]\<rparr>)"

definition bitmap_is_free :: "u64 \<Rightarrow> pmm \<Rightarrow> bool" where
  "bitmap_is_free page_idx s \<longleftrightarrow>
     drop_bit (unat (page_idx AND 63)) (pmm_bitmap s ! unat (drop_bit 6 page_idx)) AND 1 \<noteq> 0"

section \<open>Reserving ranges and initialisation\<close>

definition mark_page_used :: "u64 \<Rightarrow> pmm \<Rightarrow> pmm" where
  "mark_page_used i s =
     (if bitmap_is_free i s
      then (bitmap_set_used i s)\<lparr>pmm_free_pages := pmm_free_pages s - 1,
                                 pmm_reserved_pages := pmm_reserved_pages s + 1\<rparr>
      else s)"

lemma mark_page_used_total [simp]: "pmm_total_pages (mark_page_used i s) = pmm_total_pages s"
  by (simp add: mark_page_used_def bitmap_set_used_def Let_def)

function mark_range_loop :: "u64 \<Rightarrow> u64 \<Rightarrow> pmm \<Rightarrow> pmm" where
  "mark_range_loop i e s =
     (if i < e \<and> i < pmm_total_pages s then mark_range_loop (i + 1) e (mark_page_used i s) else s)"
  by pat_completeness auto
termination
  by (relation "measure (\<lambda>(i, e, s). unat e - unat i)")
     (auto simp: unat_Suc_less word_less_nat_alt)

declare mark_range_loop.simps [simp del]

definition mark_range_used :: "u64 \<Rightarrow> u64 \<Rightarrow> pmm \<Rightarrow> pmm" where
  "mark_range_used start end' s =
     mark_range_loop (start div PAGE_SIZE) ((end' + PAGE_SIZE - 1) div PAGE_SIZE) s"

definition set_free_counted :: "u64 \<Rightarrow> pmm \<Rightarrow> pmm" where
  "set_free_counted i s = (bitmap_set_free i s)\<lparr>pmm_free_pages := pmm_free_pages s + 1\<rparr>"

lemma set_free_counted_total [simp]: "pmm_total_pages (set_free_counted i s) = pmm_total_pages s"
  by (simp add: set_free_counted_def bitmap_set_free_def Let_def)

function init_free_loop :: "u64 \<Rightarrow> pmm \<Rightarrow> pmm" where
  "init_free_loop i s =
     (if i < pmm_total_pages s then init_free_loop (i + 1) (set_free_counted i s) else s)"
  by pat_completeness auto
termination
  by (relation "measure (\<lambda>(i, s). unat (pmm_total_pages s) - unat i)")
     (auto simp: unat_Suc_less word_less_nat_alt)

declare init_free_loop.simps [simp del]

definition pmm_init :: "u64 \<Rightarrow> u64 \<Rightarrow> u64 \<Rightarrow> pmm" where
  "pmm_init kernel_start kernel_end mem_top =
     (let total = mem_top div PAGE_SIZE;
          total = (if total > PMM_TOTAL_PAGES then PMM_TOTAL_PAGES else total);
          s = \<lparr>pmm_bitmap = replicate PMM_BITMAP_WORDS 0, pmm_total_pages = total,
               pmm_free_pages = 0, pmm_reserved_pages = 0\<rparr>;
          s = init_free_loop 0 s;
          s = mark_range_used 0 0x100000 s;
          s = mark_range_used 0xB8000 0xC0000 s;
          s = mark_range_used kernel_start kernel_end s
      in mark_range_used KERNEL_HEAP_START (KERNEL_HEAP_START + KERNEL_HEAP_INITIAL_SIZE) s)"

section \<open>Allocation and release\<close>

text \<open>
  \<^verbatim>\<open>pmm_alloc_page\<close>: the outer loop over the bitmap words, with the inner search for the lowest
  set bit. The pointer returned is an address, 0 for \<^verbatim>\<open>NULL\<close>; the outer \<open>option\<close> is
  \<open>None\<close> if the inner loop never ends.
\<close>

function alloc_scan :: "nat \<Rightarrow> pmm \<Rightarrow> (u64 \<times> pmm) option" where
  "alloc_scan w s =
     (if w < PMM_BITMAP_WORDS then
        (if pmm_bitmap s ! w = 0 then alloc_scan (Suc w) s
         else do {
           bit \<leftarrow> lowest_set_bit (pmm_bitmap s ! w) 0;
           let page_idx = push_bit 6 (of_nat w) + bit;
           (if page_idx \<ge> pmm_total_pages s then Some (0, s)
            else Some (page_idx * PAGE_SIZE,
                       (bitmap_set_used page_idx s)\<lparr>pmm_free_pages := pmm_free_pages s - 1\<rparr>))
         })
      else Some (0, s))"
  by pat_completeness auto
termination
  by (relation "measure (\<lambda>(w, s). PMM_BITMAP_WORDS - w)") auto

declare alloc_scan.simps [simp del]

definition pmm_alloc_page :: "pmm \<Rightarrow> (u64 \<times> pmm) option" where
  "pmm_alloc_page s = alloc_scan 0 s"

definition pmm_free_page :: "u64 \<Rightarrow> pmm \<Rightarrow> pmm" where
  "pmm_free_page addr s =
     (if addr = 0 then s
      else if addr AND (PAGE_SIZE - 1) \<noteq> 0 then s
      else let page_idx = addr div PAGE_SIZE
           in if page_idx \<ge> pmm_total_pages s then s
              else if bitmap_is_free page_idx s then s
              else (bitmap_set_free page_idx s)\<lparr>pmm_free_pages := pmm_free_pages s + 1\<rparr>)"

definition pmm_get_free_count :: "pmm \<Rightarrow> u64" where
  "pmm_get_free_count s = pmm_free_pages s"

definition pmm_get_used_count :: "pmm \<Rightarrow> u64" where
  "pmm_get_used_count s = pmm_total_pages s - pmm_free_pages s - pmm_reserved_pages s"

section \<open>The bitmap as a set of page numbers\<close>

definition page_free :: "pmm \<Rightarrow> nat \<Rightarrow> bool" where
  "page_free s n \<longleftrightarrow> bit (pmm_bitmap s ! (n div 64)) (n mod 64)"

definition free_set :: "pmm \<Rightarrow> nat set" where
  "free_set s = {n. n < 16384 \<and> page_free s n}"

lemma unat_drop_bit_6 [word_nat]: "unat (drop_bit 6 (x :: u64)) = unat x div 64"
  by (simp add: drop_bit_eq_div unat_div)

lemma unat_and_63 [word_nat]: "unat ((x :: u64) AND 63) = unat x mod 64"
proof -
  have "x AND 63 = take_bit 6 x" by (simp add: take_bit_eq_mask mask_eq_exp_minus_1)
  then show ?thesis by (simp add: take_bit_eq_mod unat_mod)
qed

lemma bitmap_is_free_iff: "bitmap_is_free i s \<longleftrightarrow> page_free s (unat i)"
  by (simp add: bitmap_is_free_def page_free_def word_nat and_1_eq_0_iff bit_drop_bit_eq)

lemma div_mod_64_eq: "(m div 64 = n div 64 \<and> m mod 64 = n mod 64) = (m = (n::nat))"
  by (metis div_mult_mod_eq)

lemma page_free_set_free:
  assumes "length (pmm_bitmap s) = 256" and "unat i < 16384" and "n < 16384"
  shows "page_free (bitmap_set_free i s) n \<longleftrightarrow> n = unat i \<or> page_free s n"
proof -
  have "unat i div 64 < 256" using assms(2) by simp
  then show ?thesis using assms(1) div_mod_64_eq[of n "unat i"]
    by (auto simp: page_free_def bitmap_set_free_def Let_def word_nat nth_list_update bit_or_iff
        bit_exp_iff)
qed

lemma page_free_set_used:
  assumes "length (pmm_bitmap s) = 256" and "unat i < 16384" and "n < 16384"
  shows "page_free (bitmap_set_used i s) n \<longleftrightarrow> n \<noteq> unat i \<and> page_free s n"
proof -
  have "unat i div 64 < 256" using assms(2) by simp
  then show ?thesis using assms(1) div_mod_64_eq[of n "unat i"]
    by (auto simp: page_free_def bitmap_set_used_def Let_def word_nat nth_list_update bit_and_iff
        bit_not_iff bit_exp_iff)
qed

lemma free_set_set_free:
  "length (pmm_bitmap s) = 256 \<Longrightarrow> unat i < 16384 \<Longrightarrow>
   free_set (bitmap_set_free i s) = insert (unat i) (free_set s)"
  by (auto simp: free_set_def page_free_set_free)

lemma free_set_set_used:
  "length (pmm_bitmap s) = 256 \<Longrightarrow> unat i < 16384 \<Longrightarrow>
   free_set (bitmap_set_used i s) = free_set s - {unat i}"
  by (auto simp: free_set_def page_free_set_used)

lemma free_set_more [simp]:
  "free_set (s\<lparr>pmm_free_pages := f\<rparr>) = free_set s"
  "free_set (s\<lparr>pmm_reserved_pages := f\<rparr>) = free_set s"
  by (simp_all add: free_set_def page_free_def)

lemma bitmap_prims_frame [frame_simps, simp]:
  "pmm_total_pages (bitmap_set_free i s) = pmm_total_pages s"
  "pmm_free_pages (bitmap_set_free i s) = pmm_free_pages s"
  "pmm_reserved_pages (bitmap_set_free i s) = pmm_reserved_pages s"
  "length (pmm_bitmap (bitmap_set_free i s)) = length (pmm_bitmap s)"
  "pmm_total_pages (bitmap_set_used i s) = pmm_total_pages s"
  "pmm_free_pages (bitmap_set_used i s) = pmm_free_pages s"
  "pmm_reserved_pages (bitmap_set_used i s) = pmm_reserved_pages s"
  "length (pmm_bitmap (bitmap_set_used i s)) = length (pmm_bitmap s)"
  by (simp_all add: bitmap_set_free_def bitmap_set_used_def Let_def)

lemma finite_free_set [simp]: "finite (free_set s)"
  by (simp add: free_set_def)

lemma card_free_set_le: "card (free_set s) \<le> 16384"
proof -
  have "free_set s \<subseteq> {..<16384}" by (auto simp: free_set_def)
  then show ?thesis using card_mono[of "{..<16384}" "free_set s"] by simp
qed

section \<open>The allocator invariant\<close>

text \<open>
  \<open>pmm_wf\<close> is the part every step keeps, also during initialisation; \<open>pmm_inv\<close> adds that the
  frame at address 0, whose address would read as \<^verbatim>\<open>NULL\<close>, is never free.
\<close>

definition pmm_wf :: "pmm \<Rightarrow> bool" where
  "pmm_wf s \<longleftrightarrow> length (pmm_bitmap s) = 256 \<and> unat (pmm_total_pages s) \<le> 16384 \<and>
     free_set s \<subseteq> {..<unat (pmm_total_pages s)} \<and> unat (pmm_free_pages s) = card (free_set s)"

definition pmm_inv :: "pmm \<Rightarrow> bool" where
  "pmm_inv s \<longleftrightarrow> pmm_wf s \<and> 0 \<notin> free_set s"

lemma unat_minus_1_word: "(x :: u64) \<noteq> 0 \<Longrightarrow> unat (x - 1) = unat x - 1"
  by (metis unat_minus_one)

lemma unat_plus_1_word: "unat (x :: u64) \<le> 16384 \<Longrightarrow> unat (x + 1) = unat x + 1"
  by (simp add: unat_word_ariths)

lemma mark_page_used_spec:
  assumes "pmm_wf s" and "unat i < unat (pmm_total_pages s)"
  shows "pmm_wf (mark_page_used i s)"
    and "free_set (mark_page_used i s) = free_set s - {unat i}"
    and "unat (pmm_reserved_pages s) + unat (pmm_free_pages s) \<le> 16384 \<Longrightarrow>
         unat (pmm_reserved_pages (mark_page_used i s)) + unat (pmm_free_pages (mark_page_used i s)) =
         unat (pmm_reserved_pages s) + unat (pmm_free_pages s)"
proof -
  have len: "length (pmm_bitmap s) = 256" and i: "unat i < 16384"
    using assms by (auto simp: pmm_wf_def)
  show fs: "free_set (mark_page_used i s) = free_set s - {unat i}"
  proof (cases "bitmap_is_free i s")
    case True
    then show ?thesis using i by (simp add: mark_page_used_def free_set_set_used[OF len])
  next
    case False
    then show ?thesis by (auto simp: mark_page_used_def bitmap_is_free_iff free_set_def)
  qed
  have pos: "pmm_free_pages s \<noteq> 0" if "bitmap_is_free i s"
  proof -
    from that i have "unat i \<in> free_set s" by (simp add: bitmap_is_free_iff free_set_def)
    then have "card (free_set s) \<noteq> 0" by auto
    then show ?thesis using assms(1) by (auto simp: pmm_wf_def)
  qed
  show "pmm_wf (mark_page_used i s)"
  proof (cases "bitmap_is_free i s")
    case True
    then have "unat i \<in> free_set s" using i by (simp add: bitmap_is_free_iff free_set_def)
    then show ?thesis using True assms(1) pos fs
      by (auto simp: pmm_wf_def mark_page_used_def unat_minus_1_word card_Diff_singleton)
  next
    case False
    then show ?thesis using assms(1) by (simp add: mark_page_used_def)
  qed
  show "unat (pmm_reserved_pages s) + unat (pmm_free_pages s) \<le> 16384 \<Longrightarrow>
         unat (pmm_reserved_pages (mark_page_used i s)) + unat (pmm_free_pages (mark_page_used i s)) =
         unat (pmm_reserved_pages s) + unat (pmm_free_pages s)"
    using pos by (auto simp: mark_page_used_def unat_minus_1_word unat_plus_1_word unat_gt_0)
qed

lemma mark_range_loop_spec:
  assumes "pmm_wf s" and "unat (pmm_reserved_pages s) + unat (pmm_free_pages s) \<le> 16384"
  shows "pmm_wf (mark_range_loop i e s) \<and>
    free_set (mark_range_loop i e s) = free_set s - {unat i..<unat e} \<and>
    pmm_total_pages (mark_range_loop i e s) = pmm_total_pages s \<and>
    unat (pmm_reserved_pages (mark_range_loop i e s)) + unat (pmm_free_pages (mark_range_loop i e s)) =
    unat (pmm_reserved_pages s) + unat (pmm_free_pages s)"
  using assms
proof (induction i e s rule: mark_range_loop.induct)
  case (1 i e s)
  show ?case
  proof (cases "i < e \<and> i < pmm_total_pages s")
    case True
    then have lt: "unat i < unat (pmm_total_pages s)" "unat i < unat e"
      by (simp_all add: word_less_nat_alt)
    note spec = mark_page_used_spec[OF "1.prems"(1) lt(1)]
    have step: "{unat (i + 1)..<unat e} = {unat i..<unat e} - {unat i}"
      unfolding unat_Suc_less[OF conjunct1[OF True]] by auto
    have fs: "free_set (mark_page_used i s) - {unat (i + 1)..<unat e} =
        free_set s - {unat i..<unat e}"
      unfolding spec(2) step using lt(2) by auto
    note sum = spec(3)[OF "1.prems"(2)]
    from "1.IH"[OF True spec(1)] "1.prems"(2) show ?thesis
      unfolding mark_range_loop.simps[of i e s] if_P[OF True] fs sum by simp
  next
    case False
    have "free_set s - {unat i..<unat e} = free_set s"
    proof -
      have "unat e \<le> unat i \<or> unat (pmm_total_pages s) \<le> unat i"
        using False by (auto simp: word_less_nat_alt)
      moreover have "free_set s \<subseteq> {..<unat (pmm_total_pages s)}"
        using "1.prems"(1) by (simp add: pmm_wf_def)
      ultimately show ?thesis by auto
    qed
    then show ?thesis using "1.prems"
      unfolding mark_range_loop.simps[of i e s] if_not_P[OF False] by simp
  qed
qed

lemma set_free_counted_spec:
  assumes "pmm_wf s" and "unat i < unat (pmm_total_pages s)" and "unat i \<notin> free_set s"
  shows "pmm_wf (set_free_counted i s)"
    and "free_set (set_free_counted i s) = insert (unat i) (free_set s)"
proof -
  have len: "length (pmm_bitmap s) = 256" and i: "unat i < 16384"
    using assms by (auto simp: pmm_wf_def)
  show fs: "free_set (set_free_counted i s) = insert (unat i) (free_set s)"
    by (simp add: set_free_counted_def free_set_set_free[OF len i])
  have "unat (pmm_free_pages s) \<le> 16384"
    using assms(1) card_free_set_le[of s] by (simp add: pmm_wf_def)
  then show "pmm_wf (set_free_counted i s)" using assms fs
    by (auto simp: pmm_wf_def unat_plus_1_word set_free_counted_def)
qed

lemma init_free_loop_spec:
  assumes "pmm_wf s" and "free_set s = {..<unat i}"
  shows "pmm_wf (init_free_loop i s) \<and>
    free_set (init_free_loop i s) = {..<unat (pmm_total_pages s)} \<and>
    pmm_total_pages (init_free_loop i s) = pmm_total_pages s \<and>
    pmm_reserved_pages (init_free_loop i s) = pmm_reserved_pages s"
  using assms
proof (induction i s rule: init_free_loop.induct)
  case (1 i s)
  show ?case
  proof (cases "i < pmm_total_pages s")
    case True
    then have lt: "unat i < unat (pmm_total_pages s)" by (simp add: word_less_nat_alt)
    have nin: "unat i \<notin> free_set s" using "1.prems"(2) by simp
    note spec = set_free_counted_spec[OF "1.prems"(1) lt nin]
    have "free_set (set_free_counted i s) = {..<unat (i + 1)}"
      unfolding spec(2) "1.prems"(2) unat_Suc_less[OF True] by auto
    from "1.IH"[OF True spec(1) this] show ?thesis
      unfolding init_free_loop.simps[of i s] if_P[OF True]
      by (simp add: set_free_counted_def)
  next
    case False
    then have "unat (pmm_total_pages s) \<le> unat i" by (simp add: word_le_nat_alt not_less)
    moreover have "{..<unat i} \<subseteq> {..<unat (pmm_total_pages s)}"
      using "1.prems" by (simp add: pmm_wf_def)
    ultimately have "{..<unat i} = {..<unat (pmm_total_pages s)}" by auto
    then show ?thesis using "1.prems"
      unfolding init_free_loop.simps[of i s] if_not_P[OF False] by simp
  qed
qed

text \<open>The page numbers a byte range \<open>[a, b)\<close> touches, without wrap-around.\<close>

definition pages_of :: "nat \<Rightarrow> nat \<Rightarrow> nat set" where
  "pages_of a b = {a div 4096..<(b + 4095) div 4096}"

lemma mark_range_used_spec:
  assumes "pmm_wf s" and "unat (pmm_reserved_pages s) + unat (pmm_free_pages s) \<le> 16384"
    and "unat b < 2 ^ 63"
  shows "pmm_wf (mark_range_used a b s) \<and>
    free_set (mark_range_used a b s) = free_set s - pages_of (unat a) (unat b) \<and>
    pmm_total_pages (mark_range_used a b s) = pmm_total_pages s \<and>
    unat (pmm_reserved_pages (mark_range_used a b s)) + unat (pmm_free_pages (mark_range_used a b s)) =
    unat (pmm_reserved_pages s) + unat (pmm_free_pages s)"
proof -
  have "unat (b + PAGE_SIZE - 1) = unat b + 4095"
    using assms(3) by (simp add: unat_word_ariths)
  then have "unat ((b + PAGE_SIZE - 1) div PAGE_SIZE) = (unat b + 4095) div 4096"
    by (simp add: unat_div)
  then show ?thesis using mark_range_loop_spec[OF assms(1,2)]
    by (simp add: mark_range_used_def pages_of_def unat_div)
qed

lemma pmm_init_spec:
  fixes kernel_start kernel_end mem_top :: u64
  assumes "unat kernel_end < 2 ^ 63"
  defines "s \<equiv> pmm_init kernel_start kernel_end mem_top"
  defines "T \<equiv> min (unat mem_top div 4096) 16384"
  shows "pmm_inv s"
    and "free_set s = {256..<T} - pages_of (unat kernel_start) (unat kernel_end) -
           pages_of 0x200000 0x600000"
    and "unat (pmm_total_pages s) = T"
    and "unat (pmm_reserved_pages s) + unat (pmm_free_pages s) = T"
proof -
  define t where "t = (if mem_top div PAGE_SIZE > PMM_TOTAL_PAGES then PMM_TOTAL_PAGES
                       else mem_top div PAGE_SIZE)"
  have t: "unat t = T"
    unfolding t_def T_def by (simp add: word_less_nat_alt unat_div min_def)
  define s0 where "s0 = \<lparr>pmm_bitmap = replicate PMM_BITMAP_WORDS 0, pmm_total_pages = t,
               pmm_free_pages = 0, pmm_reserved_pages = 0\<rparr>"
  have f0: "free_set s0 = {}" by (simp add: free_set_def page_free_def s0_def)
  have w0: "pmm_wf s0" using t by (simp add: pmm_wf_def f0) (simp add: s0_def T_def)
  define s1 where "s1 = init_free_loop 0 s0"
  have i1: "pmm_wf s1" "free_set s1 = {..<T}" "unat (pmm_total_pages s1) = T"
      "pmm_reserved_pages s1 = 0"
    using init_free_loop_spec[OF w0, of 0] t by (simp_all add: f0 s1_def) (simp_all add: s0_def)
  have r1: "unat (pmm_reserved_pages s1) + unat (pmm_free_pages s1) = T"
    using i1 by (simp add: pmm_wf_def)
  have T: "T \<le> 16384" by (simp add: T_def)
  define s2 where "s2 = mark_range_used 0 0x100000 s1"
  have i2: "pmm_wf s2" "free_set s2 = {..<T} - pages_of 0 0x100000"
      "unat (pmm_total_pages s2) = T" "unat (pmm_reserved_pages s2) + unat (pmm_free_pages s2) = T"
    using mark_range_used_spec[OF i1(1), where a = "0" and b = "0x100000"] i1 r1 T by (simp_all add: s2_def)
  define s3 where "s3 = mark_range_used 0xB8000 0xC0000 s2"
  have i3: "pmm_wf s3" "free_set s3 = {..<T} - pages_of 0 0x100000 - pages_of 0xB8000 0xC0000"
      "unat (pmm_total_pages s3) = T" "unat (pmm_reserved_pages s3) + unat (pmm_free_pages s3) = T"
    using mark_range_used_spec[OF i2(1), where a = "0xB8000" and b = "0xC0000"] i2 T by (simp_all add: s3_def)
  define s4 where "s4 = mark_range_used kernel_start kernel_end s3"
  have i4: "pmm_wf s4" "free_set s4 = free_set s3 - pages_of (unat kernel_start) (unat kernel_end)"
      "unat (pmm_total_pages s4) = T" "unat (pmm_reserved_pages s4) + unat (pmm_free_pages s4) = T"
    using mark_range_used_spec[OF i3(1) _ assms(1), where a = kernel_start] i3 T by (simp_all add: s4_def)
  have s: "s = mark_range_used 0x200000 0x600000 s4"
    by (simp add: s_def pmm_init_def s4_def s3_def s2_def s1_def s0_def t_def Let_def)
  have i5: "pmm_wf s" "free_set s = free_set s4 - pages_of 0x200000 0x600000"
      "unat (pmm_total_pages s) = T" "unat (pmm_reserved_pages s) + unat (pmm_free_pages s) = T"
    using mark_range_used_spec[OF i4(1), where a = "0x200000" and b = "0x600000"] i4 T by (simp_all add: s)
  show "free_set s = {256..<T} - pages_of (unat kernel_start) (unat kernel_end) -
           pages_of 0x200000 0x600000"
    unfolding i5(2) i4(2) i3(2) by (auto simp: pages_of_def)
  then show "pmm_inv s" using i5(1) by (auto simp: pmm_inv_def)
  show "unat (pmm_total_pages s) = T"
    and "unat (pmm_reserved_pages s) + unat (pmm_free_pages s) = T"
    by (fact i5)+
qed

section \<open>Allocation takes the lowest free page\<close>

lemma push_bit_6_plus:
  assumes "w < 256" and "k < 64"
  shows "push_bit 6 (of_nat w :: u64) + (0 + of_nat k) = of_nat (64 * w + k)"
  by (simp add: push_bit_eq_mult)

lemma page_free_split: "k < 64 \<Longrightarrow> page_free s (64 * w + k) \<longleftrightarrow> bit (pmm_bitmap s ! w) k"
  by (simp add: page_free_def)

lemma alloc_scan_spec:
  assumes "pmm_wf s" and "w \<le> 256" and "\<And>n. n \<in> free_set s \<Longrightarrow> 64 * w \<le> n"
  shows "alloc_scan w s = Some (if free_set s = {} then (0, s)
     else let m = of_nat (Min (free_set s))
          in (m * PAGE_SIZE, (bitmap_set_used m s)\<lparr>pmm_free_pages := pmm_free_pages s - 1\<rparr>))"
  using assms(2,3)
proof (induction "256 - w" arbitrary: w)
  case 0
  have "n < 16384" if "n \<in> free_set s" for n using that by (simp add: free_set_def)
  with 0 have "free_set s = {}" by fastforce
  with 0 show ?case by (simp add: alloc_scan.simps)
next
  case (Suc d)
  then have w: "w < 256" by simp
  show ?case
  proof (cases "pmm_bitmap s ! w = 0")
    case True
    have "64 * Suc w \<le> n" if "n \<in> free_set s" for n
    proof (rule ccontr)
      assume "\<not> 64 * Suc w \<le> n"
      with Suc.prems(2)[OF that] have "n div 64 = w" by auto
      with that True show False by (simp add: free_set_def page_free_def)
    qed
    with Suc have "alloc_scan (Suc w) s = Some (if free_set s = {} then (0, s)
     else let m = of_nat (Min (free_set s))
          in (m * PAGE_SIZE, (bitmap_set_used m s)\<lparr>pmm_free_pages := pmm_free_pages s - 1\<rparr>))"
      by auto
    then show ?thesis using True w by (simp add: alloc_scan.simps[of w s])
  next
    case False
    then obtain k where k: "lowest_set_bit (pmm_bitmap s ! w) 0 = Some (0 + of_nat k)"
      "k < 64" "bit (pmm_bitmap s ! w) k" "\<And>j. j < k \<Longrightarrow> \<not> bit (pmm_bitmap s ! w) j"
      by (rule lowest_set_bit_Some[where idx = 0]) blast
    define m where "m = 64 * w + k"
    have m: "m \<in> free_set s" using k w by (simp add: free_set_def m_def page_free_split)
    have "m \<le> n" if "n \<in> free_set s" for n
    proof (rule ccontr)
      assume lt: "\<not> m \<le> n"
      have "n = 64 * w + (n - 64 * w)" "n - 64 * w < k"
        using lt Suc.prems(2)[OF that] by (auto simp: m_def)
      then show False using k that page_free_split[of "n - 64 * w" s w] by (auto simp: free_set_def)
    qed
    then have min: "Min (free_set s) = m" using m by (intro Min_eqI) auto
    have "m < unat (pmm_total_pages s)" using m assms(1) by (auto simp: pmm_wf_def)
    moreover have "unat (of_nat m :: u64) = m"
      using k w by (intro unat_less_of_nat) (simp add: m_def)
    ultimately have "\<not> pmm_total_pages s \<le> of_nat m" by (simp add: word_le_nat_alt)
    moreover have "free_set s \<noteq> {}" using m by blast
    ultimately show ?thesis
      using False w k(1) push_bit_6_plus[OF w k(2)] min
      by (simp add: alloc_scan.simps[of w s] m_def[symmetric] Let_def)
  qed
qed

lemma pmm_alloc_page_spec:
  assumes "pmm_wf s"
  shows "pmm_alloc_page s = Some (if free_set s = {} then (0, s)
     else let m = of_nat (Min (free_set s))
          in (m * PAGE_SIZE, (bitmap_set_used m s)\<lparr>pmm_free_pages := pmm_free_pages s - 1\<rparr>))"
  unfolding pmm_alloc_page_def by (rule alloc_scan_spec[OF assms]) auto

lemma pmm_alloc_page_empty: "pmm_wf s \<Longrightarrow> free_set s = {} \<Longrightarrow> pmm_alloc_page s = Some (0, s)"
  by (simp add: pmm_alloc_page_spec)

lemma pmm_alloc_page_lowest:
  assumes "pmm_inv s" and "free_set s \<noteq> {}"
  defines "m \<equiv> Min (free_set s)"
  obtains s' where "pmm_alloc_page s = Some (of_nat m * PAGE_SIZE, s')"
    and "pmm_inv s'" and "free_set s' = free_set s - {m}"
    and "pmm_total_pages s' = pmm_total_pages s"
    and "pmm_reserved_pages s' = pmm_reserved_pages s"
proof -
  define s' where "s' = (bitmap_set_used (of_nat m) s)\<lparr>pmm_free_pages := pmm_free_pages s - 1\<rparr>"
  have wf: "pmm_wf s" using assms(1) by (simp add: pmm_inv_def)
  have m: "m \<in> free_set s" unfolding m_def using assms(2) by (intro Min_in) auto
  then have "m < 16384" by (simp add: free_set_def)
  then have u: "unat (of_nat m :: u64) = m" by (intro unat_less_of_nat) simp
  have len: "length (pmm_bitmap s) = 256" using wf by (simp add: pmm_wf_def)
  have fs: "free_set s' = free_set s - {m}"
    using free_set_set_used[OF len, of "of_nat m"] u \<open>m < 16384\<close> by (simp add: s'_def)
  have "card (free_set s) \<noteq> 0" using m by auto
  then have "pmm_free_pages s \<noteq> 0" using wf by (auto simp: pmm_wf_def)
  then have "unat (pmm_free_pages s') = card (free_set s')"
    using wf m by (simp add: fs card_Diff_singleton) (simp add: s'_def unat_minus_1_word pmm_wf_def)
  then have "pmm_inv s'" using assms(1) fs len by (auto simp: pmm_inv_def pmm_wf_def s'_def)
  then show thesis using assms(2) fs
    by (intro that[of s']) (simp_all add: pmm_alloc_page_spec[OF wf] Let_def s'_def m_def)
qed

section \<open>Release\<close>

lemma unat_page_addr: "n < 16384 \<Longrightarrow> unat (of_nat n * PAGE_SIZE) = n * 4096"
  by (simp add: unat_word_ariths word_nat)

lemma page_addr_div: "n < 16384 \<Longrightarrow> of_nat n * PAGE_SIZE div PAGE_SIZE = of_nat n"
  by (rule unat_eqD) (simp add: unat_div unat_page_addr word_nat)

lemma page_addr_aligned: "n < 16384 \<Longrightarrow> of_nat n * PAGE_SIZE AND (PAGE_SIZE - 1) = 0"
proof -
  assume n: "n < 16384"
  have "of_nat n * PAGE_SIZE AND (PAGE_SIZE - 1) = take_bit 12 (of_nat n * PAGE_SIZE)"
    by (simp add: take_bit_eq_mask mask_eq_exp_minus_1)
  also have "\<dots> = 0"
    by (rule unat_eqD) (simp add: take_bit_eq_mod unat_mod unat_page_addr[OF n])
  finally show ?thesis .
qed

lemma page_addr_eq_0: "n < 16384 \<Longrightarrow> of_nat n * PAGE_SIZE = 0 \<longleftrightarrow> n = 0"
  using unat_page_addr[of n] unat_eq_zero[of "of_nat n * PAGE_SIZE"] by simp

lemma pmm_free_page_spec:
  assumes "pmm_inv s" and "0 < n" and "n < unat (pmm_total_pages s)" and "n \<notin> free_set s"
  defines "s' \<equiv> pmm_free_page (of_nat n * PAGE_SIZE) s"
  shows "pmm_inv s'" and "free_set s' = insert n (free_set s)"
    and "pmm_total_pages s' = pmm_total_pages s"
    and "pmm_reserved_pages s' = pmm_reserved_pages s"
proof -
  have wf: "pmm_wf s" and z: "0 \<notin> free_set s" using assms(1) by (auto simp: pmm_inv_def)
  have n: "n < 16384" using assms(3) wf by (simp add: pmm_wf_def)
  then have u: "unat (of_nat n :: u64) = n" by (intro unat_less_of_nat) simp
  have nz: "of_nat n * PAGE_SIZE \<noteq> 0" using page_addr_eq_0[OF n] assms(2) by simp
  have le: "\<not> pmm_total_pages s \<le> of_nat n" using assms(3) u by (simp add: word_le_nat_alt)
  have nf: "\<not> bitmap_is_free (of_nat n) s"
    using assms(4) n u by (simp add: bitmap_is_free_iff free_set_def)
  have s': "s' = set_free_counted (of_nat n) s"
    unfolding s'_def pmm_free_page_def set_free_counted_def
    using nz page_addr_aligned[OF n] page_addr_div[OF n] le nf by (simp add: Let_def)
  have lt: "unat (of_nat n :: u64) < unat (pmm_total_pages s)" using assms(3) u by simp
  note spec = set_free_counted_spec[OF wf lt, unfolded u, OF assms(4)]
  show "free_set s' = insert n (free_set s)" using spec(2) s' by simp
  then show "pmm_inv s'" using spec(1) z assms(2) s' by (simp add: pmm_inv_def)
  show "pmm_total_pages s' = pmm_total_pages s" by (simp add: s')
  show "pmm_reserved_pages s' = pmm_reserved_pages s" by (simp add: s' set_free_counted_def)
qed

section \<open>The allocator's contract\<close>

text \<open>
  What the clients of the page allocator (the virtual memory manager, kernel code) rely on. Pages
  are numbered; the address of page \<open>n\<close> is \<open>n * 4096\<close>.
\<close>

locale page_allocator =
  fixes invar :: "'s \<Rightarrow> bool"
    and frees :: "'s \<Rightarrow> nat set"
    and managed :: "'s \<Rightarrow> nat set"
    and alloc :: "'s \<Rightarrow> (u64 \<times> 's) option"
    and release :: "u64 \<Rightarrow> 's \<Rightarrow> 's"
  assumes frees_managed: "invar s \<Longrightarrow> frees s \<subseteq> managed s"
    and managed_bound: "invar s \<Longrightarrow> managed s \<subseteq> {1..<16384}"
    and alloc_empty: "invar s \<Longrightarrow> frees s = {} \<Longrightarrow> alloc s = Some (0, s)"
    and alloc_fresh: "invar s \<Longrightarrow> frees s \<noteq> {} \<Longrightarrow>
      \<exists>n s'. n \<in> frees s \<and> alloc s = Some (of_nat n * PAGE_SIZE, s') \<and> invar s' \<and>
        frees s' = frees s - {n} \<and> managed s' = managed s"
    and release_invar: "invar s \<Longrightarrow> n \<in> managed s \<Longrightarrow> n \<notin> frees s \<Longrightarrow>
      invar (release (of_nat n * PAGE_SIZE) s)"
    and release_frees: "invar s \<Longrightarrow> n \<in> managed s \<Longrightarrow> n \<notin> frees s \<Longrightarrow>
      frees (release (of_nat n * PAGE_SIZE) s) = insert n (frees s)"
    and release_managed: "invar s \<Longrightarrow> n \<in> managed s \<Longrightarrow> n \<notin> frees s \<Longrightarrow>
      managed (release (of_nat n * PAGE_SIZE) s) = managed s"

text \<open>
  Clients that only release pages they hold: \<open>page_clients alloc release s0 s A\<close> says that such
  clients can take the allocator from \<open>s0\<close> to \<open>s\<close> and then hold the pages \<open>A\<close>.
\<close>

inductive page_clients ::
    "('s \<Rightarrow> (u64 \<times> 's) option) \<Rightarrow> (u64 \<Rightarrow> 's \<Rightarrow> 's) \<Rightarrow> 's \<Rightarrow> 's \<Rightarrow> nat set \<Rightarrow> bool"
  for alloc :: "'s \<Rightarrow> (u64 \<times> 's) option" and release :: "u64 \<Rightarrow> 's \<Rightarrow> 's" and s0 :: 's where
  clients_start: "page_clients alloc release s0 s0 {}"
| clients_alloc: "page_clients alloc release s0 s A \<Longrightarrow> alloc s = Some (p, s') \<Longrightarrow> p \<noteq> 0 \<Longrightarrow>
    page_clients alloc release s0 s' (insert (unat p div 4096) A)"
| clients_oom: "page_clients alloc release s0 s A \<Longrightarrow> alloc s = Some (0, s') \<Longrightarrow>
    page_clients alloc release s0 s' A"
| clients_free: "page_clients alloc release s0 s A \<Longrightarrow> n \<in> A \<Longrightarrow>
    page_clients alloc release s0 (release (of_nat n * PAGE_SIZE) s) (A - {n})"

context page_allocator
begin

lemma alloc_cases:
  assumes "invar s"
  obtains (oom) "frees s = {}" and "alloc s = Some (0, s)"
  | (fresh) n s' where "n \<in> frees s" and "n \<in> {1..<16384}" and "of_nat n * PAGE_SIZE \<noteq> 0"
      and "unat (of_nat n * PAGE_SIZE) = n * 4096"
      and "alloc s = Some (of_nat n * PAGE_SIZE, s')" and "invar s'"
      and "frees s' = frees s - {n}" and "managed s' = managed s"
proof (cases "frees s = {}")
  case True
  with alloc_empty[OF assms] show thesis by (intro oom)
next
  case False
  then obtain n s' where n: "n \<in> frees s" "alloc s = Some (of_nat n * PAGE_SIZE, s')" "invar s'"
      "frees s' = frees s - {n}" "managed s' = managed s"
    using alloc_fresh[OF assms] by blast
  have b: "n \<in> {1..<16384}" using n(1) frees_managed[OF assms] managed_bound[OF assms] by blast
  then have "of_nat n * PAGE_SIZE \<noteq> 0" using page_addr_eq_0[of n] by simp
  moreover have "unat (of_nat n * PAGE_SIZE) = n * 4096" using b unat_page_addr[of n] by simp
  ultimately show thesis using fresh[OF n(1) b _ _ n(2,3,4,5)] by blast
qed

lemma alloc_returns:
  assumes "invar s"
  shows "\<exists>p s'. alloc s = Some (p, s')"
  by (cases rule: alloc_cases[OF assms]) simp_all

lemma alloc_Some_cases:
  assumes "invar s" and "alloc s = Some (p, s')"
  shows "invar s' \<and> managed s' = managed s \<and> (p = 0 \<longrightarrow> s' = s) \<and>
    (p \<noteq> 0 \<longrightarrow> unat p mod 4096 = 0 \<and> unat p div 4096 \<in> frees s \<and>
       frees s' = frees s - {unat p div 4096})"
  using assms by (cases rule: alloc_cases[OF assms(1)]) simp_all

lemma clients_partition:
  assumes "invar s0" and "page_clients alloc release s0 s A"
  shows "invar s \<and> managed s = managed s0 \<and> frees s \<inter> A = {} \<and> frees s \<union> A = frees s0"
  using assms(2)
proof (induction rule: page_clients.induct)
  case clients_start
  then show ?case using assms(1) by simp
next
  case (clients_alloc s A p s')
  then show ?case using alloc_Some_cases[of s p s'] by auto
next
  case (clients_oom s A s')
  then show ?case using alloc_Some_cases[of s 0 s'] by auto
next
  case (clients_free s A n)
  then have inv: "invar s" and "n \<notin> frees s" and "n \<in> frees s0" by auto
  moreover have "n \<in> managed s" using clients_free \<open>n \<in> frees s0\<close> frees_managed[OF assms(1)] by auto
  ultimately show ?case
    using clients_free release_invar[of s n] release_frees[of s n] release_managed[of s n] by auto
qed

lemma clients_next_fresh:
  assumes "invar s0" and "page_clients alloc release s0 s A"
    and "alloc s = Some (p, s')" and "p \<noteq> 0"
  shows "unat p mod 4096 = 0" and "unat p div 4096 \<in> frees s0" and "unat p div 4096 \<notin> A"
  using clients_partition[OF assms(1,2)] alloc_Some_cases[OF _ assms(3)] assms(4) by auto

end

definition managed_pages :: "pmm \<Rightarrow> nat set" where
  "managed_pages s = {1..<unat (pmm_total_pages s)}"

interpretation pmm_alloc: page_allocator pmm_inv free_set managed_pages pmm_alloc_page pmm_free_page
proof
  fix s :: pmm
  assume inv: "pmm_inv s"
  show "free_set s \<subseteq> managed_pages s"
  proof
    fix n assume n: "n \<in> free_set s"
    with inv have "n \<noteq> 0" "n < unat (pmm_total_pages s)"
      by (metis pmm_inv_def, auto simp: pmm_inv_def pmm_wf_def)
    then show "n \<in> managed_pages s" by (simp add: managed_pages_def)
  qed
  show "managed_pages s \<subseteq> {1..<16384}"
    using inv by (auto simp: pmm_inv_def pmm_wf_def managed_pages_def)
  show "pmm_alloc_page s = Some (0, s)" if "free_set s = {}"
    using inv that by (simp add: pmm_inv_def pmm_alloc_page_empty)
  show "\<exists>n s'. n \<in> free_set s \<and> pmm_alloc_page s = Some (of_nat n * PAGE_SIZE, s') \<and>
      pmm_inv s' \<and> free_set s' = free_set s - {n} \<and> managed_pages s' = managed_pages s"
    if "free_set s \<noteq> {}"
    by (rule pmm_alloc_page_lowest[OF inv that])
       (use Min_in[OF finite_free_set that] in \<open>auto simp: managed_pages_def\<close>)
next
  fix s :: pmm and n :: nat
  assume inv: "pmm_inv s" and n: "n \<in> managed_pages s" and nf: "n \<notin> free_set s"
  from n have "0 < n" "n < unat (pmm_total_pages s)" by (auto simp: managed_pages_def)
  note spec = pmm_free_page_spec[OF inv this nf]
  show "pmm_inv (pmm_free_page (of_nat n * PAGE_SIZE) s)"
    and "free_set (pmm_free_page (of_nat n * PAGE_SIZE) s) = insert n (free_set s)"
    and "managed_pages (pmm_free_page (of_nat n * PAGE_SIZE) s) = managed_pages s"
    using spec by (simp_all add: managed_pages_def)
qed

section \<open>Properties\<close>

lemma pmm_alloc_page_counters:
  assumes "pmm_inv s" and "pmm_alloc_page s = Some (p, s')"
  shows "pmm_total_pages s' = pmm_total_pages s \<and> pmm_reserved_pages s' = pmm_reserved_pages s"
  using assms pmm_alloc_page_spec[of s] by (auto simp: pmm_inv_def Let_def split: if_splits)

lemma pmm_free_page_counters:
  "pmm_total_pages (pmm_free_page a s) = pmm_total_pages s"
  "pmm_reserved_pages (pmm_free_page a s) = pmm_reserved_pages s"
  by (simp_all add: pmm_free_page_def Let_def)

lemma pages_of_avoid:
  assumes "n \<notin> pages_of a b" and "n * 4096 \<le> x" and "x < n * 4096 + 4096"
  shows "\<not> (a \<le> x \<and> x < b)"
proof
  assume x: "a \<le> x \<and> x < b"
  have "x div 4096 = n" using assms(2,3) by (intro div_nat_eqI) auto
  then have "a div 4096 \<le> n" using x div_le_mono[of a x 4096] by simp
  moreover have "n < (b + 4095) div 4096" using assms(2) x by arith
  ultimately show False using assms(1) by (simp add: pages_of_def)
qed

lemma clients_counters:
  assumes "pmm_inv s0" and "page_clients pmm_alloc_page pmm_free_page s0 s A"
  shows "pmm_total_pages s = pmm_total_pages s0 \<and> pmm_reserved_pages s = pmm_reserved_pages s0"
  using assms(2)
proof (induction rule: page_clients.induct)
  case clients_start
  then show ?case by simp
next
  case (clients_alloc s A p s')
  then have "pmm_inv s" using pmm_alloc.clients_partition[OF assms(1)] by blast
  then show ?case using clients_alloc pmm_alloc_page_counters by metis
next
  case (clients_oom s A s')
  then have "pmm_inv s" using pmm_alloc.clients_partition[OF assms(1)] by blast
  then show ?case using clients_oom pmm_alloc_page_counters by metis
next
  case (clients_free s A n)
  then show ?case by (simp add: pmm_free_page_counters)
qed

lemma unat_minus_minus:
  fixes a b c :: u64
  assumes "unat b + unat c \<le> unat a"
  shows "unat (a - b - c) = unat a - unat b - unat c"
proof -
  have "unat (a - b) = unat a - unat b"
    using assms by (intro unat_sub) (simp add: word_le_nat_alt)
  then show ?thesis using assms by (subst unat_sub) (simp_all add: word_le_nat_alt)
qed

text \<open>
  C8. Pages handed out are exclusive and never reserved. Start the allocator with
  \<open>pmm_init\<close> on any amount of memory and let clients allocate and release in any order, releasing
  only pages they hold. Then an allocation that succeeds returns a page-aligned address whose page
  no client holds, whose 4096 bytes lie inside the managed memory and above 1 MiB, and none of
  whose bytes belongs to the kernel image or to the initial kernel heap window.
\<close>
theorem pmm_alloc_exclusive:
  assumes "unat kernel_end < 2 ^ 63"
    and "page_clients pmm_alloc_page pmm_free_page (pmm_init kernel_start kernel_end mem_top) s A"
    and "pmm_alloc_page s = Some (p, s')" and "p \<noteq> 0"
  shows "unat p mod 4096 = 0 \<and> unat p div 4096 \<notin> A \<and>
    0x100000 \<le> unat p \<and> unat p + 4096 \<le> min (unat mem_top) 0x4000000 \<and>
    (\<forall>x. unat p \<le> x \<and> x < unat p + 4096 \<longrightarrow>
      \<not> (unat kernel_start \<le> x \<and> x < unat kernel_end) \<and> \<not> (0x200000 \<le> x \<and> x < 0x600000))"
proof -
  define n where "n = unat p div 4096"
  note init = pmm_init_spec[OF assms(1), of kernel_start mem_top]
  note fresh = pmm_alloc.clients_next_fresh[OF init(1) assms(2-4)]
  have p: "unat p = n * 4096" using fresh(1) div_mult_mod_eq[of "unat p" 4096] by (simp add: n_def)
  have n: "256 \<le> n" "n < min (unat mem_top div 4096) 16384"
      "n \<notin> pages_of (unat kernel_start) (unat kernel_end)" "n \<notin> pages_of 0x200000 0x600000"
    using fresh(2) unfolding init(2) n_def[symmetric] by auto
  have "(n + 1) * 4096 \<le> unat mem_top" using n(2) by simp arith
  then have "unat p + 4096 \<le> min (unat mem_top) 0x4000000" using n(2) p by simp
  then show ?thesis
    using fresh n pages_of_avoid[OF n(3)] pages_of_avoid[OF n(4)] by (simp add: p n_def[symmetric])
qed

text \<open>
  Witness of C8: with 4 MiB and an empty kernel image the first allocation returns
  \<^verbatim>\<open>0x100000\<close>.
\<close>
theorem pmm_alloc_exclusive_witness:
  "\<exists>p s'. pmm_alloc_page (pmm_init 0x100000 0x100000 0x400000) = Some (p, s') \<and> p \<noteq> 0 \<and>
     unat p mod 4096 = 0 \<and> 0x100000 \<le> unat p \<and> unat p + 4096 \<le> 0x400000"
proof -
  let ?s = "pmm_init 0x100000 0x100000 0x400000"
  have k: "unat (0x100000 :: u64) < 2 ^ 63" by simp
  note init = pmm_init_spec[OF k, of "0x100000" "0x400000"]
  have "256 \<in> free_set ?s" unfolding init(2) by (simp add: pages_of_def)
  then have ne: "free_set ?s \<noteq> {}" by blast
  obtain p s' where a: "pmm_alloc_page ?s = Some (p, s')" "p \<noteq> 0"
    by (rule pmm_alloc.alloc_cases[OF init(1)]) (use ne in auto)
  show ?thesis
    using pmm_alloc_exclusive[OF k clients_start a] a by auto
qed

text \<open>
  C9. The used-page counter is exact. Under the same clients, the number that
  \<open>pmm_get_used_count\<close> computes by subtraction is the number of pages held, and the free count
  is what is left of the pages free after initialisation.
\<close>
theorem pmm_counts_exact:
  assumes "unat kernel_end < 2 ^ 63"
    and "page_clients pmm_alloc_page pmm_free_page (pmm_init kernel_start kernel_end mem_top) s A"
  shows "unat (pmm_get_used_count s) = card A \<and>
    unat (pmm_get_free_count s) + card A =
      card (free_set (pmm_init kernel_start kernel_end mem_top))"
proof -
  let ?s0 = "pmm_init kernel_start kernel_end mem_top"
  note init = pmm_init_spec[OF assms(1), of kernel_start mem_top]
  have part: "pmm_inv s" "free_set s \<inter> A = {}" "free_set s \<union> A = free_set ?s0"
    using pmm_alloc.clients_partition[OF init(1) assms(2)] by auto
  have const: "pmm_total_pages s = pmm_total_pages ?s0 \<and> pmm_reserved_pages s = pmm_reserved_pages ?s0"
    by (rule clients_counters[OF init(1) assms(2)])
  have fin: "finite A" using part(3) finite_free_set[of ?s0] by (metis finite_Un)
  have sum: "card (free_set s) + card A = card (free_set ?s0)"
    using card_Un_disjoint[of "free_set s" A] part fin by simp
  have f: "unat (pmm_free_pages s) = card (free_set s)"
    using part(1) by (simp add: pmm_inv_def pmm_wf_def)
  have f0: "unat (pmm_free_pages ?s0) = card (free_set ?s0)"
    using init(1) by (simp add: pmm_inv_def pmm_wf_def)
  have "unat (pmm_get_used_count s) =
      unat (pmm_total_pages ?s0) - unat (pmm_free_pages s) - unat (pmm_reserved_pages ?s0)"
    unfolding pmm_get_used_count_def const[THEN conjunct1] const[THEN conjunct2]
    using init(3,4) sum f f0 by (intro unat_minus_minus) linarith
  then show ?thesis using init(3,4) sum f f0 unfolding pmm_get_free_count_def by linarith
qed

text \<open>Witness of C9: after \<open>pmm_init\<close> with 4 MiB no page is in use.\<close>
theorem pmm_counts_exact_witness:
  "unat (pmm_get_used_count (pmm_init 0x100000 0x100000 0x400000)) = 0"
  using pmm_counts_exact[of "0x100000" "0x100000" "0x400000", OF _ clients_start] by simp

text \<open>
  C10. \<open>pmm_alloc_page\<close> always returns, and implements "take the least element of the set of free
  pages": with no free page it returns \<^verbatim>\<open>NULL\<close> and changes nothing, otherwise it returns the
  lowest free page and removes exactly that page from the set.
\<close>
theorem pmm_alloc_page_refines_min:
  assumes "pmm_inv s"
  shows "\<exists>p s'. pmm_alloc_page s = Some (p, s') \<and> pmm_inv s' \<and>
    (free_set s = {} \<longrightarrow> p = 0 \<and> s' = s) \<and>
    (free_set s \<noteq> {} \<longrightarrow> unat p = Min (free_set s) * 4096 \<and> p \<noteq> 0 \<and>
       free_set s' = free_set s - {Min (free_set s)})"
proof (cases "free_set s = {}")
  case True
  then show ?thesis using assms by (simp add: pmm_inv_def pmm_alloc_page_empty)
next
  case False
  then have in_free: "Min (free_set s) \<in> free_set s" by (intro Min_in) simp_all
  have m: "Min (free_set s) < 16384" using in_free by (simp add: free_set_def)
  have nz: "Min (free_set s) \<noteq> 0"
  proof
    assume "Min (free_set s) = 0"
    with in_free have "0 \<in> free_set s" by simp
    with assms show False by (simp add: pmm_inv_def)
  qed
  obtain s' where "pmm_alloc_page s = Some (of_nat (Min (free_set s)) * PAGE_SIZE, s')"
      "pmm_inv s'" "free_set s' = free_set s - {Min (free_set s)}"
    by (rule pmm_alloc_page_lowest[OF assms False])
  then show ?thesis using False nz unat_page_addr[OF m] page_addr_eq_0[OF m] by simp
qed

text \<open>Witness of C10, on an allocator that manages no memory at all.\<close>
theorem pmm_alloc_page_refines_min_witness:
  "\<exists>p s'. pmm_alloc_page (pmm_init 0x100000 0x100000 0) = Some (p, s') \<and> p = 0"
proof -
  have k: "unat (0x100000 :: u64) < 2 ^ 63" by simp
  note init = pmm_init_spec[OF k, of "0x100000" 0]
  have "free_set (pmm_init 0x100000 0x100000 0) = {}" unfolding init(2) by simp
  then show ?thesis using pmm_alloc_page_refines_min[OF init(1)] by auto
qed

text \<open>
  \<open>pmm_free_page\<close> does not know which pages are reserved. Releasing a page that was
  reserved at initialisation (or any page in use) makes it free, so that it can be handed out; and
  when no page was in use, the used-page counter wraps around to the largest 64-bit value.
\<close>
theorem pmm_free_reserved_page:
  assumes "pmm_inv s" and "0 < n" and "n < unat (pmm_total_pages s)" and "n \<notin> free_set s"
    and "pmm_get_used_count s = 0"
  shows "n \<in> free_set (pmm_free_page (of_nat n * PAGE_SIZE) s) \<and>
    pmm_get_used_count (pmm_free_page (of_nat n * PAGE_SIZE) s) = - 1"
proof -
  note spec = pmm_free_page_spec[OF assms(1-4)]
  have n: "n < 16384" using assms(1,3) by (simp add: pmm_inv_def pmm_wf_def)
  have nz: "of_nat n * PAGE_SIZE \<noteq> 0" using page_addr_eq_0[OF n] assms(2) by simp
  have u: "unat (of_nat n :: u64) = n" using n by (intro unat_less_of_nat) simp
  have le: "\<not> pmm_total_pages s \<le> of_nat n" using assms(3) u by (simp add: word_le_nat_alt)
  have nf: "\<not> bitmap_is_free (of_nat n) s"
    using assms(4) n u by (simp add: bitmap_is_free_iff free_set_def)
  have "pmm_free_pages (pmm_free_page (of_nat n * PAGE_SIZE) s) = pmm_free_pages s + 1"
    using nz page_addr_aligned[OF n] page_addr_div[OF n] le nf
    by (simp add: pmm_free_page_def Let_def)
  moreover have "pmm_total_pages s - pmm_free_pages s - pmm_reserved_pages s = 0"
    using assms(5) by (simp add: pmm_get_used_count_def)
  ultimately show ?thesis using spec by (simp add: pmm_get_used_count_def algebra_simps)
qed

text \<open>
  An instance: page 256, the first page of the kernel image, right after \<open>pmm_init\<close>.
\<close>
theorem pmm_free_reserved_page_witness:
  "pmm_get_used_count (pmm_free_page 0x100000 (pmm_init 0x100000 0x102000 0x400000)) = - 1 \<and>
   256 \<in> free_set (pmm_free_page 0x100000 (pmm_init 0x100000 0x102000 0x400000))"
proof -
  have k: "unat (0x102000 :: u64) < 2 ^ 63" by simp
  note init = pmm_init_spec[OF k, of "0x100000" "0x400000"]
  let ?s = "pmm_init 0x100000 0x102000 0x400000"
  have "256 \<notin> free_set ?s" unfolding init(2) by (simp add: pages_of_def)
  moreover have "256 < unat (pmm_total_pages ?s)" unfolding init(3) by simp
  moreover have "unat (pmm_get_used_count ?s) = 0"
    unfolding pmm_get_used_count_def using init(3,4) by (subst unat_minus_minus) simp_all
  ultimately show ?thesis using pmm_free_reserved_page[OF init(1), of 256] by (simp add: unat_eq_zero)
qed

end
