(* ===== verification/Vmm.thy ===== *)
theory Vmm
  imports Pmm "HOL-Library.Sublist"
begin

text \<open>
  The virtual memory manager, \<^verbatim>\<open>memory/vmm.c\<close>: four-level x86-64 page tables edited in place.
  Physical memory is the function \<open>phys_mem\<close> from the byte address of an aligned 8-byte entry to
  its value (page tables are reached through the identity map, as the code requires), \<open>hw_cr3\<close> is
  the CR3 register, \<open>tlb_flushes\<close> records the addresses given to \<^verbatim>\<open>invlpg\<close>, newest first, and
  \<open>frames\<close> is the page allocator the tables come from. The theory shows that the page tables stay
  a tree, that mapping and unmapping change the translation of exactly one page and that splitting
  a 2 MiB page changes no translation.
\<close>

section \<open>Entries and indices\<close>

abbreviation (input) PT_PRESENT :: u64 where "PT_PRESENT \<equiv> 1"
abbreviation (input) PT_WRITABLE :: u64 where "PT_WRITABLE \<equiv> 2"
abbreviation (input) PT_USER :: u64 where "PT_USER \<equiv> 4"
abbreviation (input) PT_HUGE :: u64 where "PT_HUGE \<equiv> 0x80"
abbreviation (input) PT_PHYS_MASK :: u64 where "PT_PHYS_MASK \<equiv> 0x000FFFFFFFFFF000"
abbreviation (input) LARGE_PAGE_SIZE :: u64 where "LARGE_PAGE_SIZE \<equiv> 0x200000"
abbreviation (input) VMM_WRITE :: u64 where "VMM_WRITE \<equiv> 2"
abbreviation (input) VMM_USER :: u64 where "VMM_USER \<equiv> 8"

definition PML4_INDEX :: "u64 \<Rightarrow> u64" where "PML4_INDEX va = drop_bit 39 va AND 0x1FF"
definition PDPT_INDEX :: "u64 \<Rightarrow> u64" where "PDPT_INDEX va = drop_bit 30 va AND 0x1FF"
definition PD_INDEX :: "u64 \<Rightarrow> u64" where "PD_INDEX va = drop_bit 21 va AND 0x1FF"
definition PT_INDEX :: "u64 \<Rightarrow> u64" where "PT_INDEX va = drop_bit 12 va AND 0x1FF"

record vmm =
  phys_mem :: "u64 \<Rightarrow> u64"
  vmm_cr3 :: u64
  hw_cr3 :: u64
  tlb_flushes :: "u64 list"
  frames :: pmm

definition pte_flags_from :: "u64 \<Rightarrow> u64" where
  "pte_flags_from flags =
     (let out = PT_PRESENT;
          out = (if flags AND VMM_WRITE \<noteq> 0 then out OR PT_WRITABLE else out)
      in if flags AND VMM_USER \<noteq> 0 then out OR PT_USER else out)"

definition read_entry :: "vmm \<Rightarrow> u64 \<Rightarrow> u64 \<Rightarrow> u64" where
  "read_entry s table idx = phys_mem s (table + 8 * idx)"

definition write_entry :: "u64 \<Rightarrow> u64 \<Rightarrow> u64 \<Rightarrow> vmm \<Rightarrow> vmm" where
  "write_entry table idx v s = s\<lparr>phys_mem := (phys_mem s)(table + 8 * idx := v)\<rparr>"

definition invlpg :: "u64 \<Rightarrow> vmm \<Rightarrow> vmm" where
  "invlpg va s = s\<lparr>tlb_flushes := va # tlb_flushes s\<rparr>"

text \<open>The loops that fill the first \<open>n\<close> entries of a table.\<close>

primrec fill_table :: "(nat \<Rightarrow> u64) \<Rightarrow> u64 \<Rightarrow> nat \<Rightarrow> vmm \<Rightarrow> vmm" where
  "fill_table f table 0 s = s"
| "fill_table f table (Suc n) s = write_entry table (of_nat n) (f n) (fill_table f table n s)"

primrec flush_range :: "u64 \<Rightarrow> nat \<Rightarrow> vmm \<Rightarrow> vmm" where
  "flush_range base_va 0 s = s"
| "flush_range base_va (Suc n) s = invlpg (base_va + of_nat n * PAGE_SIZE) (flush_range base_va n s)"

section \<open>Operations\<close>

definition load_cr3 :: "vmm \<Rightarrow> vmm" where
  "load_cr3 s = (if vmm_cr3 s = 0 then s\<lparr>vmm_cr3 := hw_cr3 s\<rparr> else s)"

definition get_or_create_table :: "u64 \<Rightarrow> u64 \<Rightarrow> u64 \<Rightarrow> bool \<Rightarrow> vmm \<Rightarrow> (u64 \<times> vmm) option" where
  "get_or_create_table parent idx intermediate_flags create s =
     (let entry = read_entry s parent idx
      in if entry AND PT_PRESENT \<noteq> 0 then Some (entry AND PT_PHYS_MASK, s)
         else if \<not> create then Some (0, s)
         else do {
           (page, fr) \<leftarrow> pmm_alloc_page (frames s);
           let s = s\<lparr>frames := fr\<rparr>;
           (if page = 0 then Some (0, s)
            else let s = fill_table (\<lambda>_. 0) page 512 s;
                     s = write_entry parent idx ((page AND PT_PHYS_MASK) OR intermediate_flags) s
                 in Some (page, s))
         })"

definition vmm_init :: "vmm \<Rightarrow> vmm" where
  "vmm_init s = s\<lparr>vmm_cr3 := hw_cr3 s\<rparr>"

definition vmm_split_large_page :: "u64 \<Rightarrow> vmm \<Rightarrow> vmm option" where
  "vmm_split_large_page va s0 =
     (let s = load_cr3 s0;
          pml4 = vmm_cr3 s AND PT_PHYS_MASK;
          pml4e = read_entry s pml4 (PML4_INDEX va)
      in if pml4e AND PT_PRESENT = 0 then Some s
      else let pdpt = pml4e AND PT_PHYS_MASK;
               pdpte = read_entry s pdpt (PDPT_INDEX va)
      in if pdpte AND PT_PRESENT = 0 then Some s
      else let pd = pdpte AND PT_PHYS_MASK;
               pde = read_entry s pd (PD_INDEX va)
      in if pde AND PT_PRESENT = 0 \<or> pde AND PT_HUGE = 0 then Some s
      else do {
        (new_pt, fr) \<leftarrow> pmm_alloc_page (frames s);
        let s = s\<lparr>frames := fr\<rparr>;
        (if new_pt = 0 then Some s
         else let base_phys = pde AND PT_PHYS_MASK;
                  base_flags = (pde AND 0xFFF) AND NOT PT_HUGE;
                  s = fill_table (\<lambda>i. (base_phys + of_nat i * PAGE_SIZE) OR base_flags) new_pt 512 s;
                  new_pd = (new_pt AND PT_PHYS_MASK) OR PT_PRESENT OR PT_WRITABLE OR (pde AND PT_USER);
                  s = write_entry pd (PD_INDEX va) new_pd s;
                  base_va = va AND NOT (LARGE_PAGE_SIZE - 1)
              in Some (flush_range base_va 512 s))
      })"

definition vmm_map_page :: "u64 \<Rightarrow> u64 \<Rightarrow> u64 \<Rightarrow> vmm \<Rightarrow> (bool \<times> vmm) option" where
  "vmm_map_page va pa flags s0 =
     (let s = load_cr3 s0
      in if va AND (PAGE_SIZE - 1) \<noteq> 0 then Some (False, s)
         else if pa AND (PAGE_SIZE - 1) \<noteq> 0 then Some (False, s)
         else let pml4 = vmm_cr3 s AND PT_PHYS_MASK;
                  inter = PT_PRESENT OR PT_WRITABLE;
                  inter = (if flags AND VMM_USER \<noteq> 0 then inter OR PT_USER else inter)
         in do {
           (pdpt, s) \<leftarrow> get_or_create_table pml4 (PML4_INDEX va) inter True s;
           (if pdpt = 0 then Some (False, s) else do {
             (pd, s) \<leftarrow> get_or_create_table pdpt (PDPT_INDEX va) inter True s;
             (if pd = 0 then Some (False, s) else do {
               let pde = read_entry s pd (PD_INDEX va);
               s \<leftarrow> (if pde AND PT_PRESENT \<noteq> 0 \<and> pde AND PT_HUGE \<noteq> 0
                     then vmm_split_large_page va s else Some s);
               (pt, s) \<leftarrow> get_or_create_table pd (PD_INDEX va) inter True s;
               (if pt = 0 then Some (False, s)
                else let s = write_entry pt (PT_INDEX va) ((pa AND PT_PHYS_MASK) OR pte_flags_from flags) s
                     in Some (True, invlpg va s))
             })
           })
         })"

definition vmm_unmap_page :: "u64 \<Rightarrow> vmm \<Rightarrow> bool \<times> vmm" where
  "vmm_unmap_page va s0 =
     (let s = load_cr3 s0;
          pml4 = vmm_cr3 s AND PT_PHYS_MASK;
          pml4e = read_entry s pml4 (PML4_INDEX va)
      in if pml4e AND PT_PRESENT = 0 then (False, s)
      else let pdpt = pml4e AND PT_PHYS_MASK;
               pdpte = read_entry s pdpt (PDPT_INDEX va)
      in if pdpte AND PT_PRESENT = 0 then (False, s)
      else let pd = pdpte AND PT_PHYS_MASK;
               pde = read_entry s pd (PD_INDEX va)
      in if pde AND PT_PRESENT = 0 then (False, s)
      else if pde AND PT_HUGE \<noteq> 0
           then (True, invlpg va (write_entry pd (PD_INDEX va) 0 s))
      else let pt = pde AND PT_PHYS_MASK
      in if read_entry s pt (PT_INDEX va) AND PT_PRESENT = 0 then (False, s)
         else (True, invlpg va (write_entry pt (PT_INDEX va) 0 s)))"

definition vmm_query :: "u64 \<Rightarrow> vmm \<Rightarrow> u64 \<times> vmm" where
  "vmm_query va s0 =
     (let s = load_cr3 s0;
          pml4 = vmm_cr3 s AND PT_PHYS_MASK;
          pml4e = read_entry s pml4 (PML4_INDEX va)
      in if pml4e AND PT_PRESENT = 0 then (0, s)
      else let pdpt = pml4e AND PT_PHYS_MASK;
               pdpte = read_entry s pdpt (PDPT_INDEX va)
      in if pdpte AND PT_PRESENT = 0 then (0, s)
      else if pdpte AND PT_HUGE \<noteq> 0
           then ((pdpte AND PT_PHYS_MASK) OR (va AND (push_bit 30 1 - 1)), s)
      else let pd = pdpte AND PT_PHYS_MASK;
               pde = read_entry s pd (PD_INDEX va)
      in if pde AND PT_PRESENT = 0 then (0, s)
      else if pde AND PT_HUGE \<noteq> 0
           then ((pde AND PT_PHYS_MASK) OR (va AND (LARGE_PAGE_SIZE - 1)), s)
      else let pt = pde AND PT_PHYS_MASK;
               pte = read_entry s pt (PT_INDEX va)
      in if pte AND PT_PRESENT = 0 then (0, s)
         else ((pte AND PT_PHYS_MASK) OR (va AND (PAGE_SIZE - 1)), s))"

section \<open>Bits of entries\<close>

definition present :: "u64 \<Rightarrow> bool" where "present e \<longleftrightarrow> bit e 0"
definition huge :: "u64 \<Rightarrow> bool" where "huge e \<longleftrightarrow> bit e 7"
definition frame_of :: "u64 \<Rightarrow> u64" where "frame_of e = e AND PT_PHYS_MASK"

lemma and_present [simp]: "(e AND PT_PRESENT = 0) = (\<not> present e)"
  by (simp add: present_def and_1_eq_0_iff)

lemma and_huge [simp]: "(e AND PT_HUGE = 0) = (\<not> huge e)"
  using and_exp_eq_0_iff_not_bit[of e 7] by (simp add: huge_def)

lemma PHYS_MASK_eq: "PT_PHYS_MASK = push_bit 12 (mask 40)"
  by (simp add: mask_eq_exp_minus_1)

lemma bit_PHYS_MASK: "bit PT_PHYS_MASK n \<longleftrightarrow> 12 \<le> n \<and> n < 52"
  unfolding PHYS_MASK_eq by (auto simp: bit_push_bit_iff bit_mask_iff)

lemma bit_frame_of: "bit (frame_of e) n \<longleftrightarrow> bit e n \<and> 12 \<le> n \<and> n < 52"
  unfolding frame_of_def by (simp only: bit_and_iff bit_PHYS_MASK)

lemma bit_low12: "bit (0xFFF :: u64) n \<longleftrightarrow> n < 12"
proof -
  have "(0xFFF :: u64) = mask 12" by (simp add: mask_eq_exp_minus_1)
  then show ?thesis by (simp only: bit_mask_iff) auto
qed

text \<open>Table addresses: page aligned and below \<open>2 ^ 52\<close>.\<close>

definition table_addr :: "u64 \<Rightarrow> bool" where "table_addr t \<longleftrightarrow> frame_of t = t"

lemma table_addr_frame_of [simp]: "table_addr (frame_of e)"
  by (simp add: table_addr_def) (auto intro!: bit_eqI simp: bit_frame_of)

lemma table_addr_unat:
  assumes "table_addr t"
  shows "unat t < 2 ^ 52" and "unat t mod 4096 = 0"
proof -
  have "take_bit 52 t = t"
    using assms unfolding table_addr_def by (auto simp: bit_eq_iff bit_frame_of bit_take_bit_iff)
  then have "unat (t mod 2 ^ 52) = unat t" by (simp add: take_bit_eq_mod)
  then show "unat t < 2 ^ 52" by (simp add: unat_mod)
  have "take_bit 12 t = 0"
    using assms unfolding table_addr_def
    by (auto simp: bit_eq_iff bit_frame_of bit_take_bit_iff)
  then have "unat (t mod 2 ^ 12) = 0" by (simp add: take_bit_eq_mod)
  then show "unat t mod 4096 = 0" by (simp add: unat_mod)
qed

lemma unat_cell:
  assumes "table_addr t" and "i < 512"
  shows "unat (t + 8 * i) = unat t + 8 * unat i"
proof -
  have i: "unat i < 512" using assms(2) by (simp add: word_less_nat_alt)
  then have "unat (8 * i) = 8 * unat i" by (simp add: unat_word_ariths)
  then show ?thesis using table_addr_unat[OF assms(1)] i by (simp add: unat_word_ariths)
qed

lemma cell_inj:
  assumes "table_addr t" and "table_addr t'" and "i < 512" and "j < 512"
  shows "t + 8 * i = t' + 8 * j \<longleftrightarrow> t = t' \<and> i = j"
proof
  assume eq: "t + 8 * i = t' + 8 * j"
  have ij: "unat i < 512" "unat j < 512" using assms(3,4) by (simp_all add: word_less_nat_alt)
  have e: "unat t + 8 * unat i = unat t' + 8 * unat j"
    using arg_cong[OF eq, of unat] unat_cell assms by simp
  obtain k k' where k: "unat t = 4096 * k" "unat t' = 4096 * k'"
    using table_addr_unat(2)[OF assms(1)] table_addr_unat(2)[OF assms(2)] by fastforce
  with e ij have "k = k'" by arith
  with k have "unat t = unat t'" by simp
  with e show "t = t' \<and> i = j" by (auto intro: unat_eqD)
qed simp

lemma index_less:
  "PML4_INDEX va < 512" "PDPT_INDEX va < 512" "PD_INDEX va < 512" "PT_INDEX va < 512"
proof -
  have "(x AND 0x1FF :: u64) < 512" for x
    using word_and_le1[of x "0x1FF"] by (simp add: word_le_nat_alt word_less_nat_alt)
  then show "PML4_INDEX va < 512" "PDPT_INDEX va < 512" "PD_INDEX va < 512" "PT_INDEX va < 512"
    by (simp_all add: PML4_INDEX_def PDPT_INDEX_def PD_INDEX_def PT_INDEX_def)
qed

section \<open>The page-table tree\<close>

text \<open>
  \<open>table_at m t p\<close> is the table reached from table \<open>t\<close> through the entry indices \<open>p\<close>, if every
  entry on the way is present and not a large page.
\<close>

definition next_table :: "(u64 \<Rightarrow> u64) \<Rightarrow> u64 \<Rightarrow> u64 \<Rightarrow> u64 option" where
  "next_table m t i =
     (let e = m (t + 8 * i) in if present e \<and> \<not> huge e then Some (frame_of e) else None)"

primrec table_at :: "(u64 \<Rightarrow> u64) \<Rightarrow> u64 \<Rightarrow> u64 list \<Rightarrow> u64 option" where
  "table_at m t [] = Some t"
| "table_at m t (i # p) =
     (case next_table m t i of None \<Rightarrow> None | Some t' \<Rightarrow> table_at m t' p)"

definition is_path :: "u64 list \<Rightarrow> bool" where
  "is_path p \<longleftrightarrow> length p \<le> 3 \<and> (\<forall>i \<in> set p. i < 512)"

definition pt_tree :: "(u64 \<Rightarrow> u64) \<Rightarrow> u64 \<Rightarrow> bool" where
  "pt_tree m root \<longleftrightarrow> table_addr root \<and>
     (\<forall>p q t. is_path p \<longrightarrow> is_path q \<longrightarrow> table_at m root p = Some t \<longrightarrow> table_at m root q = Some t \<longrightarrow> p = q)"

lemma table_at_snoc:
  "table_at m t (p @ [i]) =
     (case table_at m t p of None \<Rightarrow> None | Some t' \<Rightarrow> next_table m t' i)"
  by (induction p arbitrary: t) (auto split: option.splits)

lemma table_at_addr: "table_at m t p = Some t' \<Longrightarrow> table_addr t \<Longrightarrow> table_addr t'"
  by (induction p arbitrary: t)
    (auto simp: next_table_def Let_def split: option.splits if_splits)

lemma is_path_snoc: "is_path (p @ [i]) \<longleftrightarrow> is_path p \<and> length p < 3 \<and> i < 512"
  by (auto simp: is_path_def)

lemma pt_treeD:
  "pt_tree m root \<Longrightarrow> is_path p \<Longrightarrow> is_path q \<Longrightarrow> table_at m root p = Some t \<Longrightarrow>
    table_at m root q = Some t \<Longrightarrow> p = q"
  unfolding pt_tree_def by blast

lemma pt_tree_addr: "pt_tree m root \<Longrightarrow> table_at m root p = Some t \<Longrightarrow> table_addr t"
  unfolding pt_tree_def using table_at_addr by blast

text \<open>Distinct positions of the tree are distinct memory cells.\<close>

lemma pt_tree_cell:
  assumes "pt_tree m root" and "is_path p" and "is_path q" and "i < 512" and "j < 512"
    and "table_at m root p = Some t" and "table_at m root q = Some t'"
    and "p @ [i] \<noteq> q @ [j]"
  shows "t + 8 * i \<noteq> t' + 8 * j"
proof
  assume "t + 8 * i = t' + 8 * j"
  then have "t = t' \<and> i = j"
    using cell_inj pt_tree_addr[OF assms(1)] assms by blast
  then show False using pt_treeD[OF assms(1-3)] assms by auto
qed

lemma table_at_frame:
  assumes "\<And>p t i. is_path (p @ [i]) \<Longrightarrow> prefix (p @ [i]) q \<Longrightarrow> table_at m root p = Some t \<Longrightarrow>
      m' (t + 8 * i) = m (t + 8 * i)"
    and "is_path q"
  shows "table_at m' root q = table_at m root q"
  using assms
proof (induction q rule: rev_induct)
  case (snoc i q)
  have IH: "table_at m' root q = table_at m root q"
    using snoc.prems by (intro snoc.IH) (auto simp: is_path_snoc)
  show ?case
    using snoc.prems IH by (auto simp: table_at_snoc next_table_def split: option.splits)
qed simp

text \<open>
  Hanging a fresh frame \<open>P\<close> below the entry \<open>i\<close> of the table at \<open>p\<close>, an entry that led nowhere,
  adds exactly that table to the tree, provided the entries of \<open>P\<close> lead to no further table.
\<close>

lemma install_table:
  assumes tree: "pt_tree m root" and path: "is_path (p @ [i])"
    and p: "table_at m root p = Some t" and none: "next_table m t i = None"
    and P: "table_addr P" "\<And>q. is_path q \<Longrightarrow> table_at m root q \<noteq> Some P"
    and e: "next_table m' t i = Some P"
    and leaf: "length p = 2 \<or> (\<forall>j < 512. next_table m' P j = None)"
    and same: "\<And>u j. table_addr u \<Longrightarrow> j < 512 \<Longrightarrow> u \<noteq> P \<Longrightarrow> (u, j) \<noteq> (t, i) \<Longrightarrow>
      m' (u + 8 * j) = m (u + 8 * j)"
    and q: "is_path q"
  shows "table_at m' root q = (if q = p @ [i] then Some P else table_at m root q)"
  using q
proof (induction q rule: rev_induct)
  case (snoc j q)
  note sp = snoc.prems[unfolded is_path_snoc]
  have IH: "table_at m' root q = (if q = p @ [i] then Some P else table_at m root q)"
    using snoc sp by blast
  show ?case
  proof (cases "q = p @ [i]")
    case True
    then have "table_at m root q = None" "table_at m' root q = Some P"
      using IH p none by (simp_all add: table_at_snoc)
    then show ?thesis
      unfolding table_at_snoc using leaf sp True by auto
  next
    case False
    show ?thesis
    proof (cases "table_at m root q")
      case None
      with IH False p show ?thesis by (auto simp: table_at_snoc)
    next
      case (Some u)
      have q': "table_at m' root q = Some u" using IH False Some by simp
      show ?thesis
      proof (cases "(u, j) = (t, i)")
        case True
        then have "q = p" using pt_treeD[OF tree _ _ _ p] Some sp path is_path_snoc by blast
        with True q' e show ?thesis by (simp add: table_at_snoc)
      next
        case ne: False
        have "u \<noteq> P" using P(2) Some sp by blast
        then have "next_table m' u j = next_table m u j"
          using same[OF pt_tree_addr[OF tree Some] _ _ ne] sp by (simp add: next_table_def)
        moreover have "q @ [j] \<noteq> p @ [i]" using ne Some p by auto
        ultimately show ?thesis using Some q' by (auto simp: table_at_snoc)
      qed
    qed
  qed
qed simp

section \<open>Translations\<close>

definition vpath :: "u64 \<Rightarrow> u64 list" where
  "vpath va = [PML4_INDEX va, PDPT_INDEX va, PD_INDEX va, PT_INDEX va]"

text \<open>What the tables at \<open>root\<close> map \<open>va\<close> to; the value of \<open>vmm_query\<close>.\<close>

definition translate :: "(u64 \<Rightarrow> u64) \<Rightarrow> u64 \<Rightarrow> u64 \<Rightarrow> u64" where
  "translate m root va =
     (let e4 = m (root + 8 * PML4_INDEX va) in if \<not> present e4 then 0
      else let e3 = m (frame_of e4 + 8 * PDPT_INDEX va) in if \<not> present e3 then 0
      else if huge e3 then frame_of e3 OR (va AND (push_bit 30 1 - 1))
      else let e2 = m (frame_of e3 + 8 * PD_INDEX va) in if \<not> present e2 then 0
      else if huge e2 then frame_of e2 OR (va AND (LARGE_PAGE_SIZE - 1))
      else let e1 = m (frame_of e2 + 8 * PT_INDEX va) in if \<not> present e1 then 0
      else frame_of e1 OR (va AND (PAGE_SIZE - 1)))"

definition pt_root :: "vmm \<Rightarrow> u64" where
  "pt_root s = frame_of (vmm_cr3 (load_cr3 s))"

lemma load_cr3_frame [simp]:
  "phys_mem (load_cr3 s) = phys_mem s" "frames (load_cr3 s) = frames s"
  "load_cr3 (load_cr3 s) = load_cr3 s" "hw_cr3 (load_cr3 s) = hw_cr3 s"
  "pt_root (load_cr3 s) = pt_root s" "tlb_flushes (load_cr3 s) = tlb_flushes s"
  by (auto simp: load_cr3_def pt_root_def)

lemma vmm_query_eq: "vmm_query va s = (translate (phys_mem s) (pt_root s) va, load_cr3 s)"
  unfolding vmm_query_def translate_def pt_root_def
  by (simp add: Let_def read_entry_def flip: frame_of_def)

lemma prefix_snoc4:
  "prefix (p @ [i]) [a, b, c, d] \<longleftrightarrow>
     p = [] \<and> i = a \<or> p = [a] \<and> i = b \<or> p = [a, b] \<and> i = c \<or> p = [a, b, c] \<and> i = d"
  by (auto simp: prefix_Cons Cons_eq_append_conv append_eq_Cons_conv)

lemmas vpath_prefix = prefix_snoc4[of _ _ "PML4_INDEX va" "PDPT_INDEX va" "PD_INDEX va"
    "PT_INDEX va" for va, folded vpath_def]

lemma vpath_path:
  "prefix (p @ [i]) (vpath va) \<Longrightarrow> is_path p \<and> i < 512"
  by (auto simp: vpath_prefix is_path_def index_less)

lemma vpath_path_snoc:
  "prefix (p @ [i]) (vpath va) \<Longrightarrow> length p < 3 \<Longrightarrow> is_path (p @ [i])"
  using vpath_path is_path_snoc by blast

text \<open>No PML4 entry has bit 7 set: the hardware reserves it.\<close>

definition pml4_plain :: "(u64 \<Rightarrow> u64) \<Rightarrow> u64 \<Rightarrow> bool" where
  "pml4_plain m root \<longleftrightarrow> (\<forall>i < 512. present (m (root + 8 * i)) \<longrightarrow> \<not> huge (m (root + 8 * i)))"

lemma pml4_plainD:
  "pml4_plain m root \<Longrightarrow> present (m (root + 8 * PML4_INDEX va)) \<Longrightarrow>
    \<not> huge (m (root + 8 * PML4_INDEX va))"
  unfolding pml4_plain_def using index_less by blast

lemma translate_cong:
  assumes plain: "pml4_plain m root"
    and same: "\<And>p i t. prefix (p @ [i]) (vpath va) \<Longrightarrow> table_at m root p = Some t \<Longrightarrow>
      m' (t + 8 * i) = m (t + 8 * i)"
  shows "translate m' root va = translate m root va"
proof -
  note c = same[unfolded vpath_prefix]
  have "m' (root + 8 * PML4_INDEX va) = m (root + 8 * PML4_INDEX va)"
    using c[of "[]"] by simp
  then show ?thesis
    using c[of "[PML4_INDEX va]"] c[of "[PML4_INDEX va, PDPT_INDEX va]"]
      c[of "[PML4_INDEX va, PDPT_INDEX va, PD_INDEX va]"] pml4_plainD[OF plain, of va]
    by (simp add: translate_def Let_def next_table_def)
qed

lemma next_table_Some:
  "next_table m t i = Some t' \<longleftrightarrow>
     present (m (t + 8 * i)) \<and> \<not> huge (m (t + 8 * i)) \<and> t' = frame_of (m (t + 8 * i))"
  by (auto simp: next_table_def Let_def)

lemma table_at_Cons_Some:
  "table_at m t (i # p) = Some u \<longleftrightarrow> present (m (t + 8 * i)) \<and> \<not> huge (m (t + 8 * i)) \<and>
     table_at m (frame_of (m (t + 8 * i))) p = Some u"
  by (auto simp: next_table_def Let_def)

lemma translate_none:
  assumes "table_at m root p = Some t" and "prefix (p @ [i]) (vpath va)"
    and "\<not> present (m (t + 8 * i))"
  shows "translate m root va = 0"
proof -
  note t = assms(1,3)
  show ?thesis
    using assms(2) unfolding vpath_prefix
    by (elim disjE conjE)
      (use t in \<open>simp_all add: translate_def Let_def table_at_Cons_Some del: table_at.simps(2)\<close>)
qed

lemma translate_leaf:
  assumes "table_at m root (butlast (vpath va)) = Some t" and "present (m (t + 8 * PT_INDEX va))"
  shows "translate m root va = frame_of (m (t + 8 * PT_INDEX va)) OR (va AND (PAGE_SIZE - 1))"
  using assms
  by (simp add: vpath_def translate_def Let_def table_at_Cons_Some del: table_at.simps(2))

section \<open>Growing the tree\<close>

text \<open>The memory changes from \<open>m\<close> to \<open>m'\<close> only in the frame \<open>P\<close> and in the entry that hooks it.\<close>

definition new_table :: "(u64 \<Rightarrow> u64) \<Rightarrow> u64 \<Rightarrow> u64 \<Rightarrow> u64 \<Rightarrow> (u64 \<Rightarrow> u64) \<Rightarrow> bool" where
  "new_table m t i P m' \<longleftrightarrow> table_addr P \<and> next_table m t i = None \<and> next_table m' t i = Some P \<and>
     (\<forall>u j. table_addr u \<longrightarrow> j < 512 \<longrightarrow> u \<noteq> P \<longrightarrow> (u, j) \<noteq> (t, i) \<longrightarrow> m' (u + 8 * j) = m (u + 8 * j))"

definition fresh_frame :: "(u64 \<Rightarrow> u64) \<Rightarrow> u64 \<Rightarrow> u64 \<Rightarrow> bool" where
  "fresh_frame m root P \<longleftrightarrow> (\<forall>q. is_path q \<longrightarrow> table_at m root q \<noteq> Some P)"

lemma table_at_new:
  assumes "pt_tree m root" and "is_path (p @ [i])" and "table_at m root p = Some t"
    and "fresh_frame m root P" and "new_table m t i P m'"
    and "length p = 2 \<or> (\<forall>j < 512. \<not> present (m' (P + 8 * j)))" and "is_path q"
  shows "table_at m' root q = (if q = p @ [i] then Some P else table_at m root q)"
proof (rule install_table[OF assms(1-3) _ _ _ _ _ _ assms(7)])
  show "length p = 2 \<or> (\<forall>j < 512. next_table m' P j = None)"
    using assms(6) by (auto simp: next_table_def)
qed (use assms(4,5) in \<open>simp_all add: new_table_def fresh_frame_def\<close>)

lemma pt_tree_new:
  assumes "pt_tree m root" and "is_path (p @ [i])" and "table_at m root p = Some t"
    and "fresh_frame m root P" and "new_table m t i P m'"
    and "length p = 2 \<or> (\<forall>j < 512. \<not> present (m' (P + 8 * j)))"
  shows "pt_tree m' root"
proof -
  have "q = r"
    if "is_path q" "is_path r" "table_at m' root q = Some u" "table_at m' root r = Some u" for q r u
    using that table_at_new[OF assms that(1)] table_at_new[OF assms that(2)] assms(4)
      pt_treeD[OF assms(1) that(1,2)]
    by (auto simp: fresh_frame_def split: if_split_asm)
  then show ?thesis using assms(1) by (simp add: pt_tree_def)
qed

lemma translate_new_other:
  assumes "pt_tree m root" and "pml4_plain m root" and "is_path (p @ [i])"
    and "table_at m root p = Some t"
    and "fresh_frame m root P" and "new_table m t i P m'" and "\<not> prefix (p @ [i]) (vpath va)"
  shows "translate m' root va = translate m root va"
proof (rule translate_cong[OF assms(2)])
  fix q j u assume q: "prefix (q @ [j]) (vpath va)" "table_at m root q = Some u"
  note path = vpath_path[OF q(1)]
  have "u \<noteq> P" using assms(5) path q(2) by (auto simp: fresh_frame_def)
  moreover have "(u, j) \<noteq> (t, i)"
    using pt_treeD[OF assms(1), of q p t] path q assms(3,4,7) by (auto simp: is_path_snoc)
  ultimately show "m' (u + 8 * j) = m (u + 8 * j)"
    using assms(6) path pt_tree_addr[OF assms(1) q(2)] by (simp add: new_table_def)
qed

lemma prefix_extend4:
  assumes "prefix (p @ [i]) (vpath va)" and "length p < 3"
  obtains j where "prefix ((p @ [i]) @ [j]) (vpath va)" and "j < 512"
proof -
  have "prefix ((p @ [i]) @ [vpath va ! Suc (length p)]) (vpath va)"
    "vpath va ! Suc (length p) < 512"
    using assms unfolding vpath_prefix by (auto simp: vpath_def index_less)
  then show thesis by (rule that)
qed

text \<open>A zeroed table below an absent entry changes no translation.\<close>

lemma translate_new_zero:
  assumes "pt_tree m root" and "pml4_plain m root" and "is_path (p @ [i])"
    and "table_at m root p = Some t"
    and "fresh_frame m root P" and "new_table m t i P m'" and "\<not> present (m (t + 8 * i))"
    and zero: "\<And>j. j < 512 \<Longrightarrow> \<not> present (m' (P + 8 * j))"
  shows "translate m' root va = translate m root va"
proof (cases "prefix (p @ [i]) (vpath va)")
  case True
  have len: "length p < 3" using assms(3) by (simp add: is_path_snoc)
  obtain j where j: "prefix ((p @ [i]) @ [j]) (vpath va)" "j < 512"
    by (rule prefix_extend4[OF True len])
  have "table_at m' root (p @ [i]) = Some P"
    using table_at_new[OF assms(1,3-6) _ assms(3)] zero by simp
  from translate_none[OF this j(1) zero[OF j(2)]] translate_none[OF assms(4) True assms(7)]
  show ?thesis by simp
qed (rule translate_new_other[OF assms(1-6)])

section \<open>Writing one entry\<close>

lemma table_at_write:
  assumes "pt_tree m root" and "is_path p" and "i < 512" and "table_at m root p = Some t"
    and "is_path q" and "\<not> prefix (p @ [i]) q"
  shows "table_at (m(t + 8 * i := v)) root q = table_at m root q"
proof (rule table_at_frame[OF _ assms(5)])
  fix r u j
  assume r: "is_path (r @ [j])" "prefix (r @ [j]) q" "table_at m root r = Some u"
  have "t + 8 * i \<noteq> u + 8 * j"
    by (rule pt_tree_cell[OF assms(1,2) _ assms(3) _ assms(4) r(3)])
      (use r assms(6) in \<open>auto simp: is_path_snoc\<close>)
  then show "(m(t + 8 * i := v)) (u + 8 * j) = m (u + 8 * j)" by auto
qed

lemma translate_write:
  assumes "pt_tree m root" and "pml4_plain m root" and "is_path p" and "i < 512"
    and "table_at m root p = Some t" and "\<not> prefix (p @ [i]) (vpath va)"
  shows "translate (m(t + 8 * i := v)) root va = translate m root va"
proof (rule translate_cong[OF assms(2)])
  fix q j u assume q: "prefix (q @ [j]) (vpath va)" "table_at m root q = Some u"
  note path = vpath_path[OF q(1)]
  have "t + 8 * i \<noteq> u + 8 * j"
    by (rule pt_tree_cell[OF assms(1,3) _ assms(4) _ assms(5) q(2)]) (use path q assms(6) in auto)
  then show "(m(t + 8 * i := v)) (u + 8 * j) = m (u + 8 * j)" by auto
qed

section \<open>The invariant\<close>

text \<open>
  The tables reachable from CR3 form a tree of frames that are neither frame 0 nor owned by the
  page allocator, and the large pages are aligned.
\<close>

definition pd_aligned :: "(u64 \<Rightarrow> u64) \<Rightarrow> u64 \<Rightarrow> bool" where
  "pd_aligned m root \<longleftrightarrow> (\<forall>p t i. length p = 2 \<longrightarrow> is_path p \<longrightarrow> table_at m root p = Some t \<longrightarrow> i < 512 \<longrightarrow>
     present (m (t + 8 * i)) \<longrightarrow> huge (m (t + 8 * i)) \<longrightarrow> (\<forall>b. 12 \<le> b \<and> b < 21 \<longrightarrow> \<not> bit (m (t + 8 * i)) b))"

lemma pd_alignedD:
  "pd_aligned m root \<Longrightarrow> length p = 2 \<Longrightarrow> is_path p \<Longrightarrow> table_at m root p = Some t \<Longrightarrow> i < 512 \<Longrightarrow>
    present (m (t + 8 * i)) \<Longrightarrow> huge (m (t + 8 * i)) \<Longrightarrow>
    \<forall>b. 12 \<le> b \<and> b < 21 \<longrightarrow> \<not> bit (m (t + 8 * i)) b"
  unfolding pd_aligned_def by blast

definition owned :: "nat set \<Rightarrow> (u64 \<Rightarrow> u64) \<Rightarrow> u64 \<Rightarrow> bool" where
  "owned F m root \<longleftrightarrow> (\<forall>p t. is_path p \<longrightarrow> table_at m root p = Some t \<longrightarrow> t \<noteq> 0 \<and> unat t div 4096 \<notin> F)"

definition tables_ok :: "nat set \<Rightarrow> (u64 \<Rightarrow> u64) \<Rightarrow> u64 \<Rightarrow> bool" where
  "tables_ok F m root \<longleftrightarrow> pt_tree m root \<and> pml4_plain m root \<and> pd_aligned m root \<and> owned F m root"

definition pt_wf :: "vmm \<Rightarrow> bool" where
  "pt_wf s \<longleftrightarrow> pmm_inv (frames s) \<and> tables_ok (free_set (frames s)) (phys_mem s) (pt_root s)"

lemma tables_okD:
  assumes "tables_ok F m root"
  shows "pt_tree m root" and "pml4_plain m root" and "pd_aligned m root" and "owned F m root"
  using assms by (simp_all add: tables_ok_def)

lemma frame_table_addr:
  assumes "unat P = n * 4096" and "n < 16384"
  shows "table_addr P"
proof -
  have "\<not> bit P b" if "b < 12 \<or> 52 \<le> b" for b
  proof -
    have P: "P = push_bit 12 (take_bit 14 (of_nat n))"
      by (rule unat_eqD)
        (use assms in \<open>simp add: push_bit_eq_mult take_bit_eq_mod unat_word_ariths unat_mod word_nat\<close>)
    show ?thesis using that unfolding P by (simp only: bit_push_bit_iff bit_take_bit_iff) auto
  qed
  then show ?thesis
    unfolding table_addr_def by (intro bit_eqI) (simp add: bit_frame_of, meson not_le)
qed

lemma owned_fresh:
  assumes "owned F m root" and "unat P div 4096 \<in> F"
  shows "fresh_frame m root P"
  using assms unfolding owned_def fresh_frame_def by blast

text \<open>Taking a frame from the allocator and hooking it as a table keeps the invariant.\<close>

lemma tables_ok_new:
  assumes ok: "tables_ok F m root" and path: "is_path (p @ [i])" and p: "table_at m root p = Some t"
    and P: "unat P div 4096 \<in> F" "P \<noteq> 0" and new: "new_table m t i P m'"
    and leaf: "length p = 2 \<or> (\<forall>j < 512. \<not> present (m' (P + 8 * j)))"
  shows "tables_ok (F - {unat P div 4096}) m' root"
proof -
  note tree = tables_okD(1)[OF ok] and own = tables_okD(4)[OF ok]
  note fresh = owned_fresh[OF own P(1)]
  note at = table_at_new[OF tree path p fresh new leaf]
  have keep: "m' (u + 8 * j) = m (u + 8 * j) \<or> present (m' (u + 8 * j)) \<and> \<not> huge (m' (u + 8 * j))"
    if "is_path q" "table_at m root q = Some u" "j < 512" for q u j
    using that new pt_tree_addr[OF tree that(2)] fresh
    by (cases "(u, j) = (t, i)") (auto simp: new_table_def fresh_frame_def next_table_Some)
  have "pml4_plain m' root"
    using keep[of "[]" root] tables_okD(2)[OF ok] by (simp add: pml4_plain_def is_path_def) metis
  moreover have "pd_aligned m' root"
    unfolding pd_aligned_def
  proof (intro allI impI)
    fix q u j and b :: nat
    assume q: "length q = 2" "is_path q" "table_at m' root q = Some u" "j < 512"
      and e: "present (m' (u + 8 * j))" "huge (m' (u + 8 * j))" and b: "12 \<le> b \<and> b < 21"
    show "\<not> bit (m' (u + 8 * j)) b"
    proof (cases "q = p @ [i]")
      case True
      then show ?thesis using at[OF q(2)] q leaf e by auto
    next
      case False
      then have "table_at m root q = Some u" using at[OF q(2)] q by simp
      then show ?thesis
        using keep[OF q(2) _ q(4)] q e b tables_okD(3)[OF ok] unfolding pd_aligned_def by metis
    qed
  qed
  moreover have "owned (F - {unat P div 4096}) m' root"
    using own at P(2) by (auto simp: owned_def split: if_split_asm)
  ultimately show ?thesis using pt_tree_new[OF tree path p fresh new leaf] by (simp add: tables_ok_def)
qed

section \<open>Bits of the entries the code writes\<close>

lemma mult_4096: "x * (4096 :: u64) = push_bit 12 x"
  by (simp add: push_bit_eq_mult)

lemma mask_numerals:
  "(0xFFF :: u64) = mask 12" "(0x1FF :: u64) = mask 9" "(0x1FFFFF :: u64) = mask 21"
  by (simp_all add: mask_eq_exp_minus_1)

lemma bit_numeral_7: "bit (0x80 :: u64) n \<longleftrightarrow> n = 7"
  using bit_exp_iff[where 'a = "64 word", of 7 n] by auto

lemma bit_numeral_1: "bit (2 :: u64) n \<longleftrightarrow> n = 1"
  using bit_exp_iff[where 'a = "64 word", of 1 n] by auto

lemma bit_numeral_2: "bit (4 :: u64) n \<longleftrightarrow> n = 2"
  using bit_exp_iff[where 'a = "64 word", of 2 n] by auto

lemmas bit_expand = bit_and_iff bit_or_iff bit_not_iff bit_push_bit_iff bit_drop_bit_eq bit_mask_iff
  bit_1_iff bit_numeral_7 bit_numeral_1 bit_numeral_2 bit_frame_of comp_apply

lemma bit_PT_INDEX: "bit (PT_INDEX va) n \<longleftrightarrow> n < 9 \<and> bit va (12 + n)"
  unfolding PT_INDEX_def mask_numerals by (simp only: bit_expand) auto

lemma split_sum:
  assumes "\<forall>b. 12 \<le> b \<and> b < 21 \<longrightarrow> \<not> bit pde b"
  shows "frame_of pde + PT_INDEX va * PAGE_SIZE = frame_of pde OR push_bit 12 (PT_INDEX va)"
proof -
  have "frame_of pde AND push_bit 12 (PT_INDEX va) = 0"
    by (rule bit_eqI, simp only: bit_expand bit_PT_INDEX bit_0_eq) (use assms in fastforce)
  then show ?thesis by (simp add: mult_4096 disjunctive_add_eq_or)
qed

text \<open>The 4 KiB entry that replaces a part of a 2 MiB entry maps to the same address.\<close>

lemma split_entry:
  fixes va pde :: u64
  assumes al: "\<forall>b. 12 \<le> b \<and> b < 21 \<longrightarrow> \<not> bit pde b"
  defines "e \<equiv> (frame_of pde + PT_INDEX va * PAGE_SIZE) OR ((pde AND 0xFFF) AND NOT PT_HUGE)"
  shows "frame_of e OR (va AND (PAGE_SIZE - 1)) = frame_of pde OR (va AND (LARGE_PAGE_SIZE - 1))"
    and "present e = present pde"
proof -
  have e: "e = (frame_of pde OR push_bit 12 (PT_INDEX va)) OR ((pde AND mask 12) AND NOT PT_HUGE)"
    unfolding e_def mask_numerals(1) using split_sum[of pde va] al by simp
  have m: "PAGE_SIZE - 1 = mask 12" "LARGE_PAGE_SIZE - 1 = mask 21"
    by (simp_all add: mask_eq_exp_minus_1)
  show "present e = present pde"
    unfolding present_def e by (simp only: bit_expand) simp
  show "frame_of e OR (va AND (PAGE_SIZE - 1)) = frame_of pde OR (va AND (LARGE_PAGE_SIZE - 1))"
  proof (rule bit_eqI)
    fix n assume "possible_bit TYPE(64 word) n"
    then have n: "n < 64" by simp
    show "bit (frame_of e OR (va AND (PAGE_SIZE - 1))) n \<longleftrightarrow>
      bit (frame_of pde OR (va AND (LARGE_PAGE_SIZE - 1))) n"
      unfolding m e by (simp only: bit_expand bit_PT_INDEX) (use n al in auto)
  qed
qed

lemma table_entry:
  assumes "table_addr P" and "f = 3 \<or> f = 7"
  shows "present (P OR f)" and "\<not> huge (P OR f)" and "frame_of (P OR f) = P"
proof -
  have f: "bit f n \<longleftrightarrow> n = 0 \<or> n = 1 \<or> (f = 7 \<and> n = 2)" for n
  proof -
    have "(3 :: u64) = 1 OR 2" "(7 :: u64) = 1 OR (2 OR 4)" by simp_all
    then show ?thesis
      using assms(2) by (elim disjE) (simp_all only: bit_expand, auto)
  qed
  have P: "bit P n \<Longrightarrow> 12 \<le> n \<and> n < 52" for n
    using assms(1) bit_frame_of[of P n] by (simp add: table_addr_def)
  show "present (P OR f)" "\<not> huge (P OR f)"
    using P[of 7] by (auto simp: present_def huge_def bit_or_iff f)
  show "frame_of (P OR f) = P"
    by (rule bit_eqI) (auto simp: bit_frame_of bit_or_iff f dest: P)
qed

section \<open>Steps of the operations\<close>

lemma write_entry_frame [simp]:
  "vmm_cr3 (write_entry t i v s) = vmm_cr3 s" "hw_cr3 (write_entry t i v s) = hw_cr3 s"
  "frames (write_entry t i v s) = frames s" "tlb_flushes (write_entry t i v s) = tlb_flushes s"
  "phys_mem (write_entry t i v s) = (phys_mem s)(t + 8 * i := v)"
  by (simp_all add: write_entry_def)

lemma fill_table_frame [simp]:
  "vmm_cr3 (fill_table f t n s) = vmm_cr3 s" "hw_cr3 (fill_table f t n s) = hw_cr3 s"
  "frames (fill_table f t n s) = frames s"
  by (induction n) simp_all

lemma flush_range_frame [simp]:
  "vmm_cr3 (flush_range b n s) = vmm_cr3 s" "hw_cr3 (flush_range b n s) = hw_cr3 s"
  "frames (flush_range b n s) = frames s" "phys_mem (flush_range b n s) = phys_mem s"
  by (induction n) (simp_all add: invlpg_def)

lemma invlpg_frame [simp]:
  "vmm_cr3 (invlpg b s) = vmm_cr3 s" "hw_cr3 (invlpg b s) = hw_cr3 s"
  "frames (invlpg b s) = frames s" "phys_mem (invlpg b s) = phys_mem s"
  "tlb_flushes (invlpg b s) = b # tlb_flushes s"
  by (simp_all add: invlpg_def)

lemma pt_root_cong: "vmm_cr3 s' = vmm_cr3 s \<Longrightarrow> hw_cr3 s' = hw_cr3 s \<Longrightarrow> pt_root s' = pt_root s"
  by (simp add: pt_root_def load_cr3_def)

lemma fill_table_cell:
  assumes "table_addr P" and "table_addr u" and "j < 512" and "n \<le> 512"
  shows "phys_mem (fill_table f P n s) (u + 8 * j) =
    (if u = P \<and> unat j < n then f (unat j) else phys_mem s (u + 8 * j))"
  using assms(4)
proof (induction n)
  case (Suc n)
  have n: "unat (of_nat n :: u64) = n" using Suc.prems by (intro unat_less_of_nat) simp
  then have "(of_nat n :: u64) < 512" using Suc.prems by (simp add: word_less_nat_alt)
  then have "u + 8 * j = P + 8 * of_nat n \<longleftrightarrow> u = P \<and> j = of_nat n"
    using cell_inj assms(1-3) by blast
  moreover have "j = of_nat n \<longleftrightarrow> unat j = n" using n by auto
  ultimately show ?case using Suc by auto
qed simp

text \<open>
  What growing the tables leaves alone: \<open>s'\<close> has every table of \<open>s\<close> and the same translations.
\<close>

definition pt_ext :: "nat \<Rightarrow> vmm \<Rightarrow> vmm \<Rightarrow> bool" where
  "pt_ext n s s' \<longleftrightarrow> pt_wf s' \<and> vmm_cr3 s' = vmm_cr3 s \<and> hw_cr3 s' = hw_cr3 s \<and>
     (\<forall>va. translate (phys_mem s') (pt_root s) va = translate (phys_mem s) (pt_root s) va) \<and>
     (\<forall>q u. is_path q \<longrightarrow> table_at (phys_mem s) (pt_root s) q = Some u \<longrightarrow>
        table_at (phys_mem s') (pt_root s) q = Some u) \<and>
     card (free_set (frames s)) \<le> card (free_set (frames s')) + n"

lemma pt_ext_refl: "pt_wf s \<Longrightarrow> pt_ext n s s"
  by (simp add: pt_ext_def)

lemma pt_ext_root: "pt_ext n s s' \<Longrightarrow> pt_root s' = pt_root s"
  using pt_root_cong[of s' s] by (simp add: pt_ext_def)

lemma pt_ext_table:
  "pt_ext n s s' \<Longrightarrow> is_path q \<Longrightarrow> table_at (phys_mem s) (pt_root s) q = Some u \<Longrightarrow>
    table_at (phys_mem s') (pt_root s) q = Some u"
  by (simp add: pt_ext_def)

lemma pt_ext_trans:
  assumes "pt_ext a s s'" and "pt_ext b s' s''"
  shows "pt_ext (a + b) s s''"
  using assms pt_ext_root[OF assms(1)] by (simp add: pt_ext_def)

lemma pt_ext_load: "pt_ext n s s' \<Longrightarrow> load_cr3 s = s \<Longrightarrow> load_cr3 s' = s'"
  by (auto simp: pt_ext_def load_cr3_def dest: arg_cong[of _ _ vmm_cr3] split: if_splits)

text \<open>Hooking a frame the allocator hands out.\<close>

lemma pt_ext_new:
  assumes wf: "pt_wf s" and path: "is_path (p @ [i])"
    and p: "table_at (phys_mem s) (pt_root s) p = Some t"
    and P: "n \<in> free_set (frames s)" "unat P = n * 4096" "P \<noteq> 0"
    and fr: "pmm_inv (frames s')" "free_set (frames s') = free_set (frames s) - {n}"
    and cr3: "vmm_cr3 s' = vmm_cr3 s" "hw_cr3 s' = hw_cr3 s"
    and new: "new_table (phys_mem s) t i P (phys_mem s')"
    and leaf: "length p = 2 \<or> (\<forall>j < 512. \<not> present (phys_mem s' (P + 8 * j)))"
    and tr: "\<And>va. prefix (p @ [i]) (vpath va) \<Longrightarrow>
      translate (phys_mem s') (pt_root s) va = translate (phys_mem s) (pt_root s) va"
  shows "pt_ext 1 s s'" and "table_at (phys_mem s') (pt_root s) (p @ [i]) = Some P"
proof -
  let ?F = "free_set (frames s)" and ?r = "pt_root s"
  have ok: "tables_ok ?F (phys_mem s) ?r" using wf by (simp add: pt_wf_def)
  have n: "unat P div 4096 = n" using P(2) by simp
  note fresh = owned_fresh[OF tables_okD(4)[OF ok], of P, unfolded n, OF P(1)]
  note at = table_at_new[OF tables_okD(1)[OF ok] path p fresh new leaf]
  note root = pt_root_cong[OF cr3]
  show "table_at (phys_mem s') ?r (p @ [i]) = Some P" using at[OF path] by simp
  have none: "table_at (phys_mem s) ?r (p @ [i]) = None"
    using p new by (simp add: table_at_snoc new_table_def)
  have "pt_wf s'"
    using tables_ok_new[OF ok path p _ P(3) new leaf] fr root P(1) n by (simp add: pt_wf_def)
  moreover have "translate (phys_mem s') ?r va = translate (phys_mem s) ?r va" for va
    using tr[of va] translate_new_other[OF tables_okD(1,2)[OF ok] path p fresh new, of va] by blast
  moreover have "table_at (phys_mem s') ?r q = Some u"
    if "is_path q" "table_at (phys_mem s) ?r q = Some u" for q u
    using at[OF that(1)] that none by auto
  moreover have "card ?F \<le> Suc (card (free_set (frames s')))"
    unfolding fr(2) using card_Suc_Diff1[OF finite_free_set P(1)] by simp
  ultimately show "pt_ext 1 s s'" using cr3 by (simp add: pt_ext_def)
qed

lemma hook_cells:
  fixes g :: "nat \<Rightarrow> u64"
  assumes "table_addr P" and "table_addr t" and "P \<noteq> t" and "i < 512" and "f = 3 \<or> f = 7"
    and "next_table (phys_mem s) t i = None"
  defines "m' \<equiv> (phys_mem (fill_table g P 512 s))(t + 8 * i := P OR f)"
  shows "new_table (phys_mem s) t i P m'"
    and "\<And>j. j < 512 \<Longrightarrow> m' (P + 8 * j) = g (unat j)"
proof -
  note e = table_entry[OF assms(1,5)]
  show "m' (P + 8 * j) = g (unat j)" if "j < 512" for j
  proof -
    have "unat j < 512" using that by (simp add: word_less_nat_alt)
    moreover have "P + 8 * j \<noteq> t + 8 * i" using cell_inj[OF assms(1,2) that assms(4)] assms(3) by blast
    ultimately show ?thesis
      using fill_table_cell[OF assms(1,1) that, of 512] by (simp add: m'_def)
  qed
  have "m' (u + 8 * j) = phys_mem s (u + 8 * j)"
    if "table_addr u" "j < 512" "u \<noteq> P" "(u, j) \<noteq> (t, i)" for u j
    using that cell_inj[OF that(1) assms(2) that(2) assms(4)]
      fill_table_cell[OF assms(1) that(1,2), of 512]
    by (auto simp: m'_def)
  moreover have "next_table m' t i = Some P"
    unfolding next_table_Some using e by (simp add: m'_def)
  ultimately show "new_table (phys_mem s) t i P m'"
    using assms(1,6) by (simp add: new_table_def)
qed

lemma present_0 [simp]: "\<not> present 0"
  by (simp add: present_def)

lemma pt_wfD:
  assumes "pt_wf s"
  shows "pmm_inv (frames s)" and "pt_tree (phys_mem s) (pt_root s)"
    and "pml4_plain (phys_mem s) (pt_root s)" and "pd_aligned (phys_mem s) (pt_root s)"
    and "owned (free_set (frames s)) (phys_mem s) (pt_root s)"
  using assms by (simp_all add: pt_wf_def tables_ok_def)

lemma get_or_create_step:
  assumes wf: "pt_wf s" and path: "is_path (p @ [i])"
    and p: "table_at (phys_mem s) (pt_root s) p = Some t"
    and plain: "present (phys_mem s (t + 8 * i)) \<longrightarrow> \<not> huge (phys_mem s (t + 8 * i))"
    and f: "f = 3 \<or> f = 7"
  shows "\<exists>u s'. get_or_create_table t i f True s = Some (u, s') \<and> pt_ext 1 s s' \<and>
    (u = 0 \<longrightarrow> s' = s \<and> free_set (frames s) = {}) \<and>
    (u \<noteq> 0 \<longrightarrow> table_at (phys_mem s') (pt_root s) (p @ [i]) = Some u \<and>
       (s' = s \<or> (\<forall>j < 512. \<not> present (phys_mem s' (u + 8 * j)))))"
proof (cases "present (phys_mem s (t + 8 * i))")
  case True
  let ?u = "frame_of (phys_mem s (t + 8 * i))"
  have at: "table_at (phys_mem s) (pt_root s) (p @ [i]) = Some ?u"
    using p True plain by (simp add: table_at_snoc next_table_Some)
  then have "?u \<noteq> 0" using pt_wfD(5)[OF wf] path unfolding owned_def by blast
  moreover have "get_or_create_table t i f True s = Some (?u, s)"
    using True by (simp add: get_or_create_table_def read_entry_def frame_of_def)
  ultimately show ?thesis using at pt_ext_refl[OF wf] by auto
next
  case False
  note inv = pt_wfD(1)[OF wf]
  show ?thesis
  proof (cases rule: pmm_alloc.alloc_cases[OF inv])
    case oom: 1
    then have "get_or_create_table t i f True s = Some (0, s)"
      using False by (simp add: get_or_create_table_def read_entry_def)
    then show ?thesis using oom pt_ext_refl[OF wf] by auto
  next
    case fresh: (2 n fr)
    let ?P = "of_nat n * PAGE_SIZE" and ?s1 = "s\<lparr>frames := fr\<rparr>"
    define s' where "s' = write_entry t i (?P OR f) (fill_table (\<lambda>_. 0) ?P 512 ?s1)"
    have P: "table_addr ?P" using frame_table_addr fresh by simp
    have t: "table_addr t" using pt_tree_addr[OF pt_wfD(2)[OF wf] p] .
    have i: "i < 512" "is_path p" using path by (simp_all add: is_path_snoc)
    have "unat t div 4096 \<noteq> n" using pt_wfD(5)[OF wf] p i fresh(1) unfolding owned_def by blast
    then have Pt: "?P \<noteq> t" using fresh(4) by auto
    have none: "next_table (phys_mem ?s1) t i = None" using False by (simp add: next_table_def)
    note cells = hook_cells[OF P t Pt i(1) f none, where g = "\<lambda>_. 0"]
    have new: "new_table (phys_mem s) t i ?P (phys_mem s')"
      using cells(1) by (simp add: s'_def)
    have zero: "\<not> present (phys_mem s' (?P + 8 * j))" if "j < 512" for j
      using cells(2)[OF that] by (simp add: s'_def)
    note ok = pt_wfD[OF wf]
    have fr: "fresh_frame (phys_mem s) (pt_root s) ?P"
      using owned_fresh[OF ok(5)] fresh(1,4) by simp
    note tr = translate_new_zero[OF ok(2,3) path p fr new False zero]
    have s': "get_or_create_table t i f True s = Some (?P, s')"
      using False fresh(3,5) P
      by (simp add: get_or_create_table_def read_entry_def s'_def table_addr_def flip: frame_of_def)
    have "pt_ext 1 s s'" "table_at (phys_mem s') (pt_root s) (p @ [i]) = Some ?P"
      using pt_ext_new[OF wf path p fresh(1,4,3) _ _ _ _ new _ tr] fresh(6,7) zero
      by (simp_all add: s'_def)
    then show ?thesis using s' fresh(3) zero by auto
  qed
qed

section \<open>Splitting a large page\<close>

text \<open>The page directory that translates \<open>va\<close>, and the entry for \<open>va\<close> in it.\<close>

abbreviation (input) pd_path :: "u64 \<Rightarrow> u64 list" where
  "pd_path va \<equiv> [PML4_INDEX va, PDPT_INDEX va]"

definition large_mapped :: "vmm \<Rightarrow> u64 \<Rightarrow> bool" where
  "large_mapped s va \<longleftrightarrow> (case table_at (phys_mem s) (pt_root s) (pd_path va) of None \<Rightarrow> False
     | Some pd \<Rightarrow> present (phys_mem s (pd + 8 * PD_INDEX va)) \<and> huge (phys_mem s (pd + 8 * PD_INDEX va)))"

definition gib_mapped :: "vmm \<Rightarrow> u64 \<Rightarrow> bool" where
  "gib_mapped s va \<longleftrightarrow> (case table_at (phys_mem s) (pt_root s) [PML4_INDEX va] of None \<Rightarrow> False
     | Some pdpt \<Rightarrow>
         present (phys_mem s (pdpt + 8 * PDPT_INDEX va)) \<and> huge (phys_mem s (pdpt + 8 * PDPT_INDEX va)))"

lemma translate_large:
  assumes "table_at m root (pd_path va) = Some pd"
    and "present (m (pd + 8 * PD_INDEX va))" and "huge (m (pd + 8 * PD_INDEX va))"
  shows "translate m root va = frame_of (m (pd + 8 * PD_INDEX va)) OR (va AND (LARGE_PAGE_SIZE - 1))"
  using assms by (simp add: translate_def Let_def table_at_Cons_Some del: table_at.simps(2))

lemma user_bit: "1 OR (2 OR ((x :: u64) AND 4)) = 3 \<or> 1 OR (2 OR (x AND 4)) = 7"
proof -
  have "x AND 4 = 0 \<or> x AND 4 = 4"
  proof (cases "bit x 2")
    case True
    then have "x AND 4 = 4" by (intro bit_eqI) (auto simp only: bit_expand)
    then show ?thesis ..
  next
    case False
    then show ?thesis using and_exp_eq_0_iff_not_bit[of x 2] by simp
  qed
  then show ?thesis by auto
qed

lemma split_cases:
  assumes "pt_wf s" and "load_cr3 s = s"
    and pd: "table_at (phys_mem s) (pt_root s) (pd_path va) = Some pd"
  defines "pde \<equiv> phys_mem s (pd + 8 * PD_INDEX va)"
  shows "vmm_split_large_page va s =
     (if \<not> (present pde \<and> huge pde) then Some s
      else do {
        (P, fr) \<leftarrow> pmm_alloc_page (frames s);
        if P = 0 then Some (s\<lparr>frames := fr\<rparr>)
        else Some (flush_range (va AND NOT (LARGE_PAGE_SIZE - 1)) 512
          (write_entry pd (PD_INDEX va) (frame_of P OR (1 OR (2 OR (pde AND 4))))
            (fill_table (\<lambda>i. (frame_of pde + of_nat i * PAGE_SIZE) OR ((pde AND 0xFFF) AND NOT PT_HUGE))
              P 512 (s\<lparr>frames := fr\<rparr>))))
      })"
proof -
  have "pt_root s = frame_of (vmm_cr3 s)" using assms(2) by (simp add: pt_root_def)
  then show ?thesis
    using pd unfolding vmm_split_large_page_def assms(2) pde_def
    by (simp add: Let_def read_entry_def table_at_Cons_Some or.assoc
        del: table_at.simps(2) flip: frame_of_def cong: if_cong)
qed

lemma split_oom:
  assumes "pt_wf s" and "load_cr3 s = s"
    and "table_at (phys_mem s) (pt_root s) (pd_path va) = Some pd"
    and "free_set (frames s) = {}"
  shows "vmm_split_large_page va s = Some s"
  using split_cases[OF assms(1-3)] pmm_alloc.alloc_empty[OF pt_wfD(1)[OF assms(1)] assms(4)] by simp

lemma split_step:
  assumes wf: "pt_wf s" and cr3: "load_cr3 s = s"
    and pd: "table_at (phys_mem s) (pt_root s) (pd_path va) = Some pd"
    and e: "present (phys_mem s (pd + 8 * PD_INDEX va))" "huge (phys_mem s (pd + 8 * PD_INDEX va))"
    and free: "free_set (frames s) \<noteq> {}"
  shows "\<exists>P s'. vmm_split_large_page va s = Some s' \<and> pt_ext 1 s s' \<and>
    table_at (phys_mem s') (pt_root s) (pd_path va @ [PD_INDEX va]) = Some P \<and> P \<noteq> 0"
proof -
  note ok = pt_wfD[OF wf]
  define pde where "pde = phys_mem s (pd + 8 * PD_INDEX va)"
  define g where "g = (\<lambda>i. (frame_of pde + of_nat i * PAGE_SIZE) OR ((pde AND 0xFFF) AND NOT PT_HUGE))"
  have paths: "is_path (pd_path va @ [PD_INDEX va])" "is_path (pd_path va)"
    by (simp_all add: is_path_def index_less)
  obtain n fr where al: "n \<in> free_set (frames s)" "n < 16384" "of_nat n * PAGE_SIZE \<noteq> 0"
      "unat (of_nat n * PAGE_SIZE) = n * 4096"
      "pmm_alloc_page (frames s) = Some (of_nat n * PAGE_SIZE, fr)" "pmm_inv fr"
      "free_set fr = free_set (frames s) - {n}"
    using free by (cases rule: pmm_alloc.alloc_cases[OF ok(1)]) auto
  let ?P = "of_nat n * PAGE_SIZE" and ?s1 = "s\<lparr>frames := fr\<rparr>" and ?f = "1 OR (2 OR (pde AND 4))"
  define s' where "s' = flush_range (va AND NOT (LARGE_PAGE_SIZE - 1)) 512
    (write_entry pd (PD_INDEX va) (?P OR ?f) (fill_table g ?P 512 ?s1))"
  have P: "table_addr ?P" using frame_table_addr[OF al(4,2)] .
  have t: "table_addr pd" using pt_tree_addr[OF ok(2) pd] .
  have "unat pd div 4096 \<noteq> n" using ok(5) pd paths(2) al(1) unfolding owned_def by blast
  then have Pt: "?P \<noteq> pd" using al(4) by auto
  have none: "next_table (phys_mem ?s1) pd (PD_INDEX va) = None" using e by (simp add: next_table_def)
  note cells = hook_cells[OF P t Pt index_less(3) user_bit none, where g = g]
  have new: "new_table (phys_mem s) pd (PD_INDEX va) ?P (phys_mem s')"
    using cells(1) by (simp add: s'_def)
  have s': "vmm_split_large_page va s = Some s'"
    using split_cases[OF wf cr3 pd] e al(3,5) P by (simp add: s'_def g_def pde_def table_addr_def)
  have fresh: "fresh_frame (phys_mem s) (pt_root s) ?P"
    using owned_fresh[OF ok(5)] al(1,4) by simp
  have tr: "translate (phys_mem s') (pt_root s) va' = translate (phys_mem s) (pt_root s) va'"
    if pre: "prefix (pd_path va @ [PD_INDEX va]) (vpath va')" for va'
  proof -
    have ix: "PML4_INDEX va' = PML4_INDEX va" "PDPT_INDEX va' = PDPT_INDEX va" "PD_INDEX va' = PD_INDEX va"
      using pre unfolding vpath_prefix by auto
    have al21: "\<forall>b. 12 \<le> b \<and> b < 21 \<longrightarrow> \<not> bit pde b"
      using pd_alignedD[OF ok(4) _ paths(2) pd index_less(3) e] by (simp add: pde_def)
    have at: "table_at (phys_mem s') (pt_root s) (butlast (vpath va')) = Some ?P"
      using table_at_new[OF ok(2) paths(1) pd fresh new _ paths(1)] by (simp add: vpath_def ix)
    have c: "phys_mem s' (?P + 8 * PT_INDEX va') =
        (frame_of pde + PT_INDEX va' * PAGE_SIZE) OR ((pde AND 0xFFF) AND NOT PT_HUGE)"
      using cells(2)[OF index_less(4)[of va']] by (simp add: s'_def g_def)
    note se = split_entry[OF al21, of va']
    have "present (phys_mem s' (?P + 8 * PT_INDEX va'))"
      unfolding c using se(2) e by (simp add: pde_def)
    from translate_leaf[OF at this] translate_large[of "phys_mem s" "pt_root s" va' pd] se(1) pd e
    show ?thesis unfolding c by (simp add: ix pde_def)
  qed
  have "pt_ext 1 s s'" "table_at (phys_mem s') (pt_root s) (pd_path va @ [PD_INDEX va]) = Some ?P"
    using pt_ext_new[OF wf paths(1) pd al(1,4,3) _ _ _ _ new _ tr] al(6,7) by (simp_all add: s'_def)
  then show ?thesis using s' al(3) by blast
qed

section \<open>Mapping a page\<close>

text \<open>The table walk of \<open>vmm_map_page\<close> in two halves.\<close>

definition get_pd :: "u64 \<Rightarrow> u64 \<Rightarrow> vmm \<Rightarrow> (u64 \<times> vmm) option" where
  "get_pd va f s = do {
     (pdpt, s) \<leftarrow> get_or_create_table (pt_root s) (PML4_INDEX va) f True s;
     if pdpt = 0 then Some (0, s) else get_or_create_table pdpt (PDPT_INDEX va) f True s }"

definition get_pt :: "u64 \<Rightarrow> u64 \<Rightarrow> u64 \<Rightarrow> vmm \<Rightarrow> (u64 \<times> vmm) option" where
  "get_pt va pd f s = do {
     s \<leftarrow> (if present (read_entry s pd (PD_INDEX va)) \<and> huge (read_entry s pd (PD_INDEX va))
           then vmm_split_large_page va s else Some s);
     get_or_create_table pd (PD_INDEX va) f True s }"

lemma get_pt_step:
  assumes wf: "pt_wf s" and cr3: "load_cr3 s = s" and f: "f = 3 \<or> f = 7"
    and pd: "table_at (phys_mem s) (pt_root s) (pd_path va) = Some pd"
    and free: "huge (phys_mem s (pd + 8 * PD_INDEX va)) \<longrightarrow> present (phys_mem s (pd + 8 * PD_INDEX va)) \<longrightarrow>
      free_set (frames s) \<noteq> {}"
  shows "\<exists>u s'. get_pt va pd f s = Some (u, s') \<and> pt_ext 2 s s' \<and>
    (u = 0 \<longrightarrow> s' = s \<and> free_set (frames s) = {}) \<and>
    (u \<noteq> 0 \<longrightarrow> table_at (phys_mem s') (pt_root s) (pd_path va @ [PD_INDEX va]) = Some u)"
proof -
  have paths: "is_path (pd_path va @ [PD_INDEX va])" "is_path (pd_path va)"
    by (simp_all add: is_path_def index_less)
  show ?thesis
  proof (cases "present (phys_mem s (pd + 8 * PD_INDEX va)) \<and> huge (phys_mem s (pd + 8 * PD_INDEX va))")
    case True
    then obtain P s1 where s1: "vmm_split_large_page va s = Some s1" "pt_ext 1 s s1"
        "table_at (phys_mem s1) (pt_root s) (pd_path va @ [PD_INDEX va]) = Some P" "P \<noteq> 0"
      using split_step[OF wf cr3 pd] free by blast
    have pd1: "table_at (phys_mem s1) (pt_root s1) (pd_path va) = Some pd"
      unfolding pt_ext_root[OF s1(2)] by (rule pt_ext_table[OF s1(2) paths(2) pd])
    have e: "present (phys_mem s1 (pd + 8 * PD_INDEX va))" "P = frame_of (phys_mem s1 (pd + 8 * PD_INDEX va))"
      using s1(3) pd1 unfolding pt_ext_root[OF s1(2)] table_at_snoc by (simp_all add: next_table_Some)
    then have "get_pt va pd f s = Some (P, s1)"
      using True s1(1) by (simp add: get_pt_def get_or_create_table_def read_entry_def frame_of_def)
    moreover have "pt_ext 2 s s1" using s1(2) by (simp add: pt_ext_def)
    ultimately show ?thesis using s1(3,4) by blast
  next
    case False
    then have get: "get_pt va pd f s = get_or_create_table pd (PD_INDEX va) f True s"
      unfolding get_pt_def read_entry_def if_not_P[OF False] by simp
    obtain u s' where u: "get_or_create_table pd (PD_INDEX va) f True s = Some (u, s')" "pt_ext 1 s s'"
        "u = 0 \<longrightarrow> s' = s \<and> free_set (frames s) = {}"
        "u \<noteq> 0 \<longrightarrow> table_at (phys_mem s') (pt_root s) (pd_path va @ [PD_INDEX va]) = Some u"
      using get_or_create_step[OF wf paths(1) pd _ f] False by blast
    have "pt_ext 2 s s'" using u(2) by (simp add: pt_ext_def)
    then show ?thesis unfolding get using u by blast
  qed
qed

definition page_aligned :: "u64 \<Rightarrow> bool" where
  "page_aligned a \<longleftrightarrow> a AND (PAGE_SIZE - 1) = 0"

lemma vmm_map_page_eq:
  fixes flags :: u64
  assumes "load_cr3 s = s" and "page_aligned va" and "page_aligned pa"
  defines "f \<equiv> if flags AND VMM_USER \<noteq> 0 then 7 else 3"
  shows "vmm_map_page va pa flags s = do {
    (pd, s) \<leftarrow> get_pd va f s;
    if pd = 0 then Some (False, s) else do {
      (pt, s) \<leftarrow> get_pt va pd f s;
      if pt = 0 then Some (False, s)
      else Some (True, invlpg va (write_entry pt (PT_INDEX va) (frame_of pa OR pte_flags_from flags) s))
    }}"
proof -
  have f: "f = (if flags AND VMM_USER \<noteq> 0 then (PT_PRESENT OR PT_WRITABLE) OR PT_USER
      else PT_PRESENT OR PT_WRITABLE)"
    by (simp add: f_def)
  have root: "pt_root s = vmm_cr3 s AND PT_PHYS_MASK" using assms(1) by (simp add: pt_root_def frame_of_def)
  show ?thesis
    unfolding vmm_map_page_def assms(1) f root get_pt_def get_pd_def Let_def frame_of_def
    using assms(2,3) by (cases "get_or_create_table (vmm_cr3 s AND PT_PHYS_MASK) (PML4_INDEX va) f True s")
      (auto simp: page_aligned_def f cong: if_cong)
qed

text \<open>The first two levels: the page directory is created if need be, and a new one is empty.\<close>

lemma get_pd_step:
  assumes wf: "pt_wf s" and gib: "\<not> gib_mapped s va" and f: "f = 3 \<or> f = 7"
  shows "\<exists>u s'. get_pd va f s = Some (u, s') \<and> pt_ext 2 s s' \<and>
    (u = 0 \<longrightarrow> card (free_set (frames s)) < 2) \<and>
    (u \<noteq> 0 \<longrightarrow> table_at (phys_mem s') (pt_root s) (pd_path va) = Some u \<and>
       (s' = s \<or> \<not> present (phys_mem s' (u + 8 * PD_INDEX va))))"
proof -
  have paths: "is_path ([] @ [PML4_INDEX va])" "is_path ([PML4_INDEX va] @ [PDPT_INDEX va])"
    by (simp_all add: is_path_def index_less)
  have "table_at (phys_mem s) (pt_root s) [] = Some (pt_root s)" by simp
  from get_or_create_step[OF wf paths(1) this _ f]
  obtain u1 s1 where s1: "get_or_create_table (pt_root s) (PML4_INDEX va) f True s = Some (u1, s1)"
      "pt_ext 1 s s1" "u1 = 0 \<longrightarrow> s1 = s \<and> free_set (frames s) = {}"
      "u1 \<noteq> 0 \<longrightarrow> table_at (phys_mem s1) (pt_root s) [PML4_INDEX va] = Some u1 \<and>
        (s1 = s \<or> (\<forall>j < 512. \<not> present (phys_mem s1 (u1 + 8 * j))))"
    using pml4_plainD[OF pt_wfD(3)[OF wf]] by auto
  show ?thesis
  proof (cases "u1 = 0")
    case True
    then show ?thesis using s1 pt_ext_refl[OF wf] by (auto simp: get_pd_def)
  next
    case u1: False
    have wf1: "pt_wf s1" using s1(2) by (simp add: pt_ext_def)
    note r1 = pt_ext_root[OF s1(2)]
    have t1: "table_at (phys_mem s1) (pt_root s1) [PML4_INDEX va] = Some u1" using s1(4) u1 r1 by simp
    have plain: "present (phys_mem s1 (u1 + 8 * PDPT_INDEX va)) \<longrightarrow> \<not> huge (phys_mem s1 (u1 + 8 * PDPT_INDEX va))"
      using s1(4) u1 gib index_less(2)[of va] by (auto simp: gib_mapped_def)
    from get_or_create_step[OF wf1 paths(2) t1 plain f]
    obtain u2 s2 where s2: "get_or_create_table u1 (PDPT_INDEX va) f True s1 = Some (u2, s2)"
        "pt_ext 1 s1 s2" "u2 = 0 \<longrightarrow> s2 = s1 \<and> free_set (frames s1) = {}"
        "u2 \<noteq> 0 \<longrightarrow> table_at (phys_mem s2) (pt_root s1) (pd_path va) = Some u2 \<and>
          (s2 = s1 \<or> (\<forall>j < 512. \<not> present (phys_mem s2 (u2 + 8 * j))))"
      by auto
    have e2: "pt_ext 2 s s2" using pt_ext_trans[OF s1(2) s2(2)] by (simp only: one_add_one)
    have "s1 = s" if "u2 \<noteq> 0" "s2 = s1"
      using that s2(4) s1(4) u1 t1 index_less(2)[of va] r1
      by (auto simp: table_at_Cons_Some simp del: table_at.simps(2))
    moreover have "card (free_set (frames s)) < 2" if "u2 = 0"
      using s1(2) s2(3) that by (simp add: pt_ext_def)
    ultimately show ?thesis
      using s1(1) u1 s2 e2 r1 index_less(3)[of va] by (auto simp: get_pd_def simp del: table_at.simps)
  qed
qed

lemma vmm_map_step:
  assumes wf: "pt_wf s" and cr3: "load_cr3 s = s" and al: "page_aligned va" "page_aligned pa"
    and gib: "\<not> gib_mapped s va" and large: "large_mapped s va \<longrightarrow> free_set (frames s) \<noteq> {}"
  shows "(\<exists>s'. vmm_map_page va pa flags s = Some (False, s') \<and> pt_ext 2 s s' \<and>
      card (free_set (frames s)) < 3) \<or>
    (\<exists>s' t. vmm_map_page va pa flags s = Some (True,
        invlpg va (write_entry t (PT_INDEX va) (frame_of pa OR pte_flags_from flags) s')) \<and>
      pt_ext 4 s s' \<and> table_at (phys_mem s') (pt_root s) (butlast (vpath va)) = Some t)"
proof -
  define f :: u64 where "f = (if flags AND VMM_USER \<noteq> 0 then 7 else 3)"
  have f: "f = 3 \<or> f = 7" by (simp add: f_def)
  note map = vmm_map_page_eq[OF cr3 al, of flags, folded f_def]
  obtain u s2 where s2: "get_pd va f s = Some (u, s2)" and e2: "pt_ext 2 s s2"
    and u0: "u = 0 \<longrightarrow> card (free_set (frames s)) < 2"
    and u: "u \<noteq> 0 \<longrightarrow> table_at (phys_mem s2) (pt_root s) (pd_path va) = Some u \<and>
       (s2 = s \<or> \<not> present (phys_mem s2 (u + 8 * PD_INDEX va)))"
    using get_pd_step[OF wf gib f] by blast
  show ?thesis
  proof (cases "u = 0")
    case True
    then show ?thesis using map s2 e2 u0 by simp
  next
    case nz: False
    have wf2: "pt_wf s2" and r2: "pt_root s2 = pt_root s" and c2: "load_cr3 s2 = s2"
      using e2 pt_ext_root[OF e2] pt_ext_load[OF e2 cr3] by (simp_all add: pt_ext_def)
    have t2: "table_at (phys_mem s2) (pt_root s2) (pd_path va) = Some u" using u nz r2 by simp
    have "free_set (frames s2) \<noteq> {}"
      if "present (phys_mem s2 (u + 8 * PD_INDEX va))" "huge (phys_mem s2 (u + 8 * PD_INDEX va))"
      using that u nz large t2 by (auto simp: large_mapped_def simp del: table_at.simps)
    then obtain u3 s3 where s3: "get_pt va u f s2 = Some (u3, s3)" "pt_ext 2 s2 s3"
        "u3 = 0 \<longrightarrow> s3 = s2 \<and> free_set (frames s2) = {}"
        "u3 \<noteq> 0 \<longrightarrow> table_at (phys_mem s3) (pt_root s) (pd_path va @ [PD_INDEX va]) = Some u3"
      using get_pt_step[OF wf2 c2 f t2] r2 by auto
    show ?thesis
    proof (cases "u3 = 0")
      case True
      then have "pt_ext 2 s s3" "card (free_set (frames s)) < 3"
        using s3(3) e2 by (simp_all add: pt_ext_def)
      then show ?thesis using map s2 nz s3(1) True by simp
    next
      case False
      then show ?thesis
        using map s2 nz s3 pt_ext_trans[OF e2 s3(2)] by (auto simp: vpath_def)
    qed
  qed
qed

section \<open>Writing a leaf entry\<close>

text \<open>
  An entry of a page table, or a page-directory entry that leads to no table, can be replaced by a
  leaf: the tree stays as it is.
\<close>

definition leaf_cell :: "(u64 \<Rightarrow> u64) \<Rightarrow> u64 list \<Rightarrow> u64 \<Rightarrow> u64 \<Rightarrow> u64 \<Rightarrow> bool" where
  "leaf_cell m p t i v \<longleftrightarrow>
     length p = 3 \<or> length p = 2 \<and> next_table m t i = None \<and> \<not> present v"

lemma table_at_leaf_write:
  assumes "pt_tree m root" and "is_path p" and "i < 512" and "table_at m root p = Some t"
    and "leaf_cell m p t i v" and "is_path q"
  shows "table_at (m(t + 8 * i := v)) root q = table_at m root q"
proof (cases "prefix (p @ [i]) q")
  case True
  then have "length p + 1 \<le> length q" using prefix_length_le by fastforce
  then have len: "length p = 2" "length q = 3"
    using assms(5,6) by (auto simp: leaf_cell_def is_path_def)
  then have q: "q = p @ [i]" using True by (auto simp: prefix_def)
  have "table_at (m(t + 8 * i := v)) root p = Some t"
    using table_at_write[OF assms(1-4,2)] assms(4) by (simp add: prefix_def)
  then show ?thesis using assms(4,5) len by (simp add: q table_at_snoc leaf_cell_def next_table_def)
next
  case False
  then show ?thesis using table_at_write[OF assms(1-4,6)] by simp
qed

lemma tables_ok_leaf_write:
  assumes ok: "tables_ok F m root" and p: "is_path p" "i < 512" "table_at m root p = Some t"
    and leaf: "leaf_cell m p t i v"
  shows "tables_ok F (m(t + 8 * i := v)) root"
proof -
  note tree = tables_okD(1)[OF ok]
  note at = table_at_leaf_write[OF tree p leaf]
  have cell: "(m(t + 8 * i := v)) (u + 8 * j) = m (u + 8 * j) \<or> q = p \<and> length p = 2 \<and> \<not> present v \<and> j = i"
    if "is_path q" "length q < 3" "table_at m root q = Some u" "j < 512" for q u j
  proof (cases "p @ [i] = q @ [j]")
    case True
    then show ?thesis using leaf that(2) by (auto simp: leaf_cell_def)
  next
    case False
    then have "t + 8 * i \<noteq> u + 8 * j" using pt_tree_cell[OF tree p(1) that(1) p(2) that(4) p(3) that(3)] by blast
    then show ?thesis by auto
  qed
  have "pt_tree (m(t + 8 * i := v)) root"
    using tree at unfolding pt_tree_def by metis
  moreover have "pml4_plain (m(t + 8 * i := v)) root"
    unfolding pml4_plain_def
  proof (intro allI impI)
    fix j :: u64 assume j: "j < 512" and e: "present ((m(t + 8 * i := v)) (root + 8 * j))"
    have "(m(t + 8 * i := v)) (root + 8 * j) = m (root + 8 * j)"
      using cell[of "[]" root j] j leaf by (auto simp: is_path_def leaf_cell_def)
    then show "\<not> huge ((m(t + 8 * i := v)) (root + 8 * j))"
      using tables_okD(2)[OF ok] j e by (simp add: pml4_plain_def)
  qed
  moreover have "pd_aligned (m(t + 8 * i := v)) root"
    unfolding pd_aligned_def
  proof (intro allI impI)
    fix q u j and b :: nat
    assume q: "length q = 2" "is_path q" "table_at (m(t + 8 * i := v)) root q = Some u" "j < 512"
      and e: "present ((m(t + 8 * i := v)) (u + 8 * j))" "huge ((m(t + 8 * i := v)) (u + 8 * j))"
      and b: "12 \<le> b \<and> b < 21"
    have u: "table_at m root q = Some u" using at[OF q(2)] q(3) by simp
    have "(m(t + 8 * i := v)) (u + 8 * j) = m (u + 8 * j)"
      using cell[OF q(2) _ u q(4)] q(1) e(1) p(3) u by auto
    then show "\<not> bit ((m(t + 8 * i := v)) (u + 8 * j)) b"
      using pd_alignedD[OF tables_okD(3)[OF ok] q(1,2) u q(4)] e b by simp
  qed
  moreover have "owned F (m(t + 8 * i := v)) root"
    using tables_okD(4)[OF ok] at unfolding owned_def by metis
  ultimately show ?thesis by (simp add: tables_ok_def)
qed

lemma pt_wf_leaf_write:
  assumes "pt_wf s" and "is_path p" and "i < 512" and "table_at (phys_mem s) (pt_root s) p = Some t"
    and "leaf_cell (phys_mem s) p t i v"
  shows "pt_wf (write_entry t i v s)"
  using assms tables_ok_leaf_write[OF _ assms(2-5)] pt_root_cong[of "write_entry t i v s" s]
  by (simp add: pt_wf_def)

lemma pt_wf_load [simp]:
  "pt_wf (load_cr3 s) = pt_wf s" "gib_mapped (load_cr3 s) va = gib_mapped s va"
  "large_mapped (load_cr3 s) va = large_mapped s va"
  by (simp_all only: pt_wf_def gib_mapped_def large_mapped_def load_cr3_frame)

lemma pt_wf_invlpg [simp]: "pt_wf (invlpg va s) = pt_wf s"
  using pt_root_cong[of "invlpg va s" s] by (simp add: pt_wf_def)

lemma pte_entry:
  "present (frame_of pa OR pte_flags_from flags)"
  "frame_of (frame_of pa OR pte_flags_from flags) = frame_of pa"
proof -
  have fl: "pte_flags_from flags \<in> {1, 1 OR 2, 1 OR 4, (1 OR 2) OR 4}"
    by (simp add: pte_flags_from_def)
  have "bit (pte_flags_from flags) 0"
    using fl by (elim insertE emptyE) (simp_all only: bit_expand, auto)
  then show "present (frame_of pa OR pte_flags_from flags)"
    by (simp add: present_def bit_or_iff)
  have low: "\<not> bit (pte_flags_from flags) n" if "12 \<le> n" for n
    using fl by (elim insertE emptyE) (simp_all only: bit_expand, use that in auto)
  show "frame_of (frame_of pa OR pte_flags_from flags) = frame_of pa"
    by (rule bit_eqI) (use low in \<open>auto simp: bit_frame_of bit_or_iff\<close>)
qed

lemma vmm_ops_load:
  "vmm_map_page va pa flags (load_cr3 s) = vmm_map_page va pa flags s"
  "vmm_unmap_page va (load_cr3 s) = vmm_unmap_page va s"
  "vmm_split_large_page va (load_cr3 s) = vmm_split_large_page va s"
  by (simp_all add: vmm_map_page_def vmm_unmap_page_def vmm_split_large_page_def)

lemma query_ext:
  "pt_ext n (load_cr3 s) s' \<Longrightarrow> fst (vmm_query va s') = fst (vmm_query va s)"
  using pt_ext_root[of n "load_cr3 s" s'] by (simp add: vmm_query_eq pt_ext_def)

lemma butlast_vpath: "is_path (butlast (vpath va))" "length (butlast (vpath va)) = 3"
  by (simp_all add: vpath_def is_path_def index_less)

lemma vpath_prefix_self: "prefix (butlast (vpath va) @ [PT_INDEX va]) (vpath va') \<longleftrightarrow> vpath va' = vpath va"
  by (auto simp: vpath_def)

lemma query_write_pte:
  assumes wf: "pt_wf s" and t: "table_at (phys_mem s) (pt_root s) (butlast (vpath va)) = Some t"
  shows "fst (vmm_query va' (invlpg va (write_entry t (PT_INDEX va) v s))) =
    (if vpath va' = vpath va then (if present v then frame_of v OR (va' AND (PAGE_SIZE - 1)) else 0)
     else fst (vmm_query va' s))"
proof -
  let ?s = "invlpg va (write_entry t (PT_INDEX va) v s)"
  let ?m = "(phys_mem s)(t + 8 * PT_INDEX va := v)"
  have root: "pt_root ?s = pt_root s" by (rule pt_root_cong) simp_all
  have leaf: "leaf_cell (phys_mem s) (butlast (vpath va)) t (PT_INDEX va) v"
    by (simp only: leaf_cell_def butlast_vpath) simp
  have at: "table_at ?m (pt_root s) (butlast (vpath va)) = Some t"
    using table_at_leaf_write[OF pt_wfD(2)[OF wf] butlast_vpath(1) index_less(4) t leaf butlast_vpath(1)] t
    by simp
  show ?thesis
  proof (cases "vpath va' = vpath va")
    case True
    then have ix: "PT_INDEX va' = PT_INDEX va" by (simp add: vpath_def)
    have at': "table_at ?m (pt_root s) (butlast (vpath va')) = Some t" using at True by simp
    have pre: "prefix (butlast (vpath va') @ [PT_INDEX va']) (vpath va')" by (simp add: vpath_prefix_self)
    show ?thesis
      using translate_leaf[OF at'] translate_none[OF at' pre] True root
      by (simp add: vmm_query_eq ix)
  next
    case False
    then show ?thesis
      using translate_write[OF pt_wfD(2,3)[OF wf] butlast_vpath(1) index_less(4)[of va] t, of va' v] root
      by (simp add: vmm_query_eq vpath_prefix_self)
  qed
qed

section \<open>Correctness of the operations\<close>

text \<open>
  C11. \<open>vmm_map_page\<close> always returns and keeps the page tables well formed. It succeeds on aligned
  addresses when three frames are free. When it succeeds, the page of \<open>va\<close> translates to \<open>pa\<close>, the
  TLB entry of \<open>va\<close> has been flushed last, and every other translation is what it was, even if a
  2 MiB page had to be split; when it fails, every translation is what it was. The address must not
  lie in a 1 GiB page, and a 2 MiB page can only be split if a frame is free.
\<close>
theorem vmm_map_page_correct:
  assumes wf: "pt_wf s" and gib: "\<not> gib_mapped s va"
    and large: "large_mapped s va \<longrightarrow> free_set (frames s) \<noteq> {}"
  shows "\<exists>ok s'. vmm_map_page va pa flags s = Some (ok, s') \<and> pt_wf s' \<and>
    (ok \<longrightarrow> page_aligned va \<and> page_aligned pa \<and> hd (tlb_flushes s') = va) \<and>
    (page_aligned va \<and> page_aligned pa \<and> 3 \<le> card (free_set (frames s)) \<longrightarrow> ok) \<and>
    (\<forall>va'. fst (vmm_query va' s') =
       (if ok \<and> vpath va' = vpath va then frame_of pa OR (va' AND (PAGE_SIZE - 1))
        else fst (vmm_query va' s)))"
proof (cases "page_aligned va \<and> page_aligned pa")
  case False
  then have "vmm_map_page va pa flags s = Some (False, load_cr3 s)"
    by (auto simp: vmm_map_page_def page_aligned_def Let_def)
  then show ?thesis using wf False by (auto simp: vmm_query_eq)
next
  case True
  have wfl: "pt_wf (load_cr3 s)" using wf by simp
  from vmm_map_step[OF wfl _ conjunct1[OF True] conjunct2[OF True], of flags]
  consider (fail) s' where "vmm_map_page va pa flags s = Some (False, s')" "pt_ext 2 (load_cr3 s) s'"
      "card (free_set (frames s)) < 3"
    | (ok) s' t where "vmm_map_page va pa flags s = Some (True,
        invlpg va (write_entry t (PT_INDEX va) (frame_of pa OR pte_flags_from flags) s'))"
      "pt_ext 4 (load_cr3 s) s'" "table_at (phys_mem s') (pt_root s) (butlast (vpath va)) = Some t"
    using gib large by (auto simp: vmm_ops_load)
  then show ?thesis
  proof cases
    case fail
    then show ?thesis using query_ext[OF fail(2)] by (auto simp: pt_ext_def)
  next
    case ok
    have wf': "pt_wf s'" and t: "table_at (phys_mem s') (pt_root s') (butlast (vpath va)) = Some t"
      using ok(2,3) pt_ext_root[OF ok(2)] by (simp_all add: pt_ext_def)
    have "pt_wf (write_entry t (PT_INDEX va) (frame_of pa OR pte_flags_from flags) s')"
      by (rule pt_wf_leaf_write[OF wf' butlast_vpath(1) index_less(4) t])
        (simp only: leaf_cell_def butlast_vpath simp_thms)
    then show ?thesis
      using ok(1) True query_write_pte[OF wf' t, of _ "frame_of pa OR pte_flags_from flags"]
        query_ext[OF ok(2)] pte_entry[of pa flags] by (simp, blast)
  qed
qed

lemma unmap_huge:
  assumes "table_at (phys_mem s) (pt_root s) (pd_path va) = Some pd" and "load_cr3 s = s"
    and "present (phys_mem s (pd + 8 * PD_INDEX va))" and "huge (phys_mem s (pd + 8 * PD_INDEX va))"
  shows "vmm_unmap_page va s = (True, invlpg va (write_entry pd (PD_INDEX va) 0 s))"
proof -
  have "pt_root s = frame_of (vmm_cr3 s)" using assms(2) by (simp add: pt_root_def)
  then show ?thesis
    using assms unfolding vmm_unmap_page_def assms(2)
    by (simp add: Let_def read_entry_def table_at_Cons_Some del: table_at.simps(2) flip: frame_of_def)
qed

lemma unmap_small:
  assumes "table_at (phys_mem s) (pt_root s) (butlast (vpath va)) = Some pt" and "load_cr3 s = s"
  shows "vmm_unmap_page va s = (if present (phys_mem s (pt + 8 * PT_INDEX va))
    then (True, invlpg va (write_entry pt (PT_INDEX va) 0 s)) else (False, s))"
proof -
  have "pt_root s = frame_of (vmm_cr3 s)" using assms(2) by (simp add: pt_root_def)
  then show ?thesis
    using assms unfolding vmm_unmap_page_def assms(2)
    by (simp add: Let_def read_entry_def vpath_def table_at_Cons_Some del: table_at.simps(2) flip: frame_of_def)
qed

text \<open>If neither a page table nor a 2 MiB page covers \<open>va\<close>, an entry on the way is absent.\<close>

lemma unmap_absent:
  assumes wf: "pt_wf s" and "load_cr3 s = s" and "\<not> gib_mapped s va" and "\<not> large_mapped s va"
    and "table_at (phys_mem s) (pt_root s) (butlast (vpath va)) = None"
  shows "vmm_unmap_page va s = (False, s)" and "translate (phys_mem s) (pt_root s) va = 0"
proof -
  have root: "pt_root s = frame_of (vmm_cr3 s)" using assms(2) by (simp add: pt_root_def)
  show "vmm_unmap_page va s = (False, s)"
    using assms(3-5) pml4_plainD[OF pt_wfD(3)[OF wf], of va] root
    unfolding vmm_unmap_page_def assms(2)
    by (auto simp: Let_def read_entry_def vpath_def gib_mapped_def large_mapped_def next_table_def
        split: if_splits simp flip: frame_of_def)
  show "translate (phys_mem s) (pt_root s) va = 0"
    using assms(3-5) pml4_plainD[OF pt_wfD(3)[OF wf], of va]
    by (auto simp: translate_def Let_def vpath_def gib_mapped_def large_mapped_def next_table_def
        split: if_splits)
qed

text \<open>
  C12. \<open>vmm_unmap_page\<close> keeps the page tables well formed. It reports success exactly for a mapped
  address, flushes it from the TLB and then that page (the whole 2 MiB page if \<open>va\<close> lay in one)
  translates to nothing; every other translation is what it was. The address must not lie in a
  1 GiB page.
\<close>
theorem vmm_unmap_page_correct:
  assumes wf: "pt_wf s" and gib: "\<not> gib_mapped s va"
  shows "case vmm_unmap_page va s of (ok, s') \<Rightarrow> pt_wf s' \<and>
    (ok \<longrightarrow> hd (tlb_flushes s') = va) \<and> (\<not> ok \<longrightarrow> fst (vmm_query va s) = 0) \<and>
    (\<forall>va'. fst (vmm_query va' s') =
       (if ok \<and> (if large_mapped s va then prefix (butlast (vpath va)) (vpath va') else vpath va' = vpath va)
        then 0 else fst (vmm_query va' s)))"
proof -
  define sl where "sl = load_cr3 s"
  have wfl: "pt_wf sl" and cr: "load_cr3 sl = sl" and gl: "\<not> gib_mapped sl va"
    and ll: "large_mapped s va = large_mapped sl va" and un: "vmm_unmap_page va s = vmm_unmap_page va sl"
    and mr: "phys_mem s = phys_mem sl" "pt_root s = pt_root sl"
    using wf gib by (simp_all add: sl_def vmm_ops_load)
  let ?m = "phys_mem sl" and ?r = "pt_root sl"
  note tp = pt_wfD(2,3)[OF wfl]
  show ?thesis
  proof (cases "large_mapped sl va")
    case True
    then obtain pd where pd: "table_at ?m ?r (pd_path va) = Some pd"
      and e: "present (?m (pd + 8 * PD_INDEX va))" "huge (?m (pd + 8 * PD_INDEX va))"
      by (auto simp: large_mapped_def simp del: table_at.simps split: option.splits)
    let ?s = "write_entry pd (PD_INDEX va) 0 sl"
    have path: "is_path (pd_path va)" by (simp add: is_path_def index_less)
    have bv: "butlast (vpath va) = pd_path va @ [PD_INDEX va]" by (simp add: vpath_def)
    have leaf: "leaf_cell ?m (pd_path va) pd (PD_INDEX va) 0"
      using e by (simp add: leaf_cell_def next_table_def)
    note at = table_at_leaf_write[OF tp(1) path index_less(3) pd leaf path]
    have root: "pt_root (invlpg va ?s) = ?r" by (rule pt_root_cong) simp_all
    have "translate (?m(pd + 8 * PD_INDEX va := 0)) ?r va' =
        (if prefix (butlast (vpath va)) (vpath va') then 0 else translate ?m ?r va')" for va'
      using translate_none[OF at[unfolded pd], of "PD_INDEX va" va']
        translate_write[OF tp path index_less(3)[of va] pd, of va' 0] by (simp add: bv)
    then show ?thesis
      using unmap_huge[OF pd cr e] pt_wf_leaf_write[OF wfl path index_less(3) pd leaf] root True
      by (simp add: un mr ll vmm_query_eq)
  next
    case small: False
    show ?thesis
    proof (cases "table_at ?m ?r (butlast (vpath va))")
      case None
      then show ?thesis using unmap_absent[OF wfl cr gl small None] wfl by (simp add: un mr ll vmm_query_eq)
    next
      case (Some pt)
      have "pt_wf (write_entry pt (PT_INDEX va) 0 sl)"
        by (rule pt_wf_leaf_write[OF wfl butlast_vpath(1) index_less(4) Some])
          (simp only: leaf_cell_def butlast_vpath simp_thms)
      moreover have "translate ?m ?r va = 0" if "\<not> present (?m (pt + 8 * PT_INDEX va))"
        by (rule translate_none[OF Some _ that]) (simp add: vpath_prefix_self)
      ultimately show ?thesis
        using unmap_small[OF Some cr] query_write_pte[OF wfl Some, of _ 0] wfl small
        by (simp add: un mr ll vmm_query_eq)
    qed
  qed
qed

lemma split_not_large:
  assumes wf: "pt_wf s" and cr: "load_cr3 s = s" and "\<not> gib_mapped s va" and "\<not> large_mapped s va"
  shows "vmm_split_large_page va s = Some s"
proof -
  have root: "pt_root s = frame_of (vmm_cr3 s)" using cr by (simp add: pt_root_def)
  show ?thesis
    using assms(3,4) pml4_plainD[OF pt_wfD(3)[OF wf], of va] root
    unfolding vmm_split_large_page_def cr
    by (auto simp: Let_def read_entry_def gib_mapped_def large_mapped_def next_table_def
        split: if_splits simp flip: frame_of_def)
qed

text \<open>
  \<open>vmm_split_large_page\<close> always returns, keeps the page tables well formed and changes no
  translation at all. If a frame is free the address is no longer in a 2 MiB page afterwards.
\<close>
theorem vmm_split_preserves:
  assumes "pt_wf s" and "\<not> gib_mapped s va"
  shows "\<exists>s'. vmm_split_large_page va s = Some s' \<and> pt_wf s' \<and>
    (\<forall>va'. fst (vmm_query va' s') = fst (vmm_query va' s)) \<and>
    (free_set (frames s) \<noteq> {} \<longrightarrow> \<not> large_mapped s' va)"
proof -
  define sl where "sl = load_cr3 s"
  have wf: "pt_wf sl" and cr: "load_cr3 sl = sl" and gib: "\<not> gib_mapped sl va"
    and sp: "vmm_split_large_page va s = vmm_split_large_page va sl" and fr: "frames s = frames sl"
    and mr: "phys_mem s = phys_mem sl" "pt_root s = pt_root sl"
    using assms by (simp_all add: sl_def vmm_ops_load)
  show ?thesis
  proof (cases "large_mapped sl va")
    case False
    then show ?thesis
      using split_not_large[OF wf cr gib False] wf by (simp add: sp mr vmm_query_eq)
  next
    case True
    then obtain pd where pd: "table_at (phys_mem sl) (pt_root sl) (pd_path va) = Some pd"
      and e: "present (phys_mem sl (pd + 8 * PD_INDEX va))" "huge (phys_mem sl (pd + 8 * PD_INDEX va))"
      by (auto simp: large_mapped_def simp del: table_at.simps split: option.splits)
    show ?thesis
    proof (cases "free_set (frames sl) = {}")
      case oom: True
      then show ?thesis using split_oom[OF wf cr pd oom] wf by (simp add: sp mr fr vmm_query_eq)
    next
      case False
      then obtain P s' where s': "vmm_split_large_page va sl = Some s'" "pt_ext 1 sl s'"
          "table_at (phys_mem s') (pt_root sl) (pd_path va @ [PD_INDEX va]) = Some P"
        using split_step[OF wf cr pd e] by blast
      have "table_at (phys_mem s') (pt_root s') (pd_path va) = Some pd"
        unfolding pt_ext_root[OF s'(2)]
        by (rule pt_ext_table[OF s'(2) _ pd]) (simp add: is_path_def index_less)
      then have "\<not> large_mapped s' va"
        using s'(3) unfolding pt_ext_root[OF s'(2)] table_at_snoc
        by (simp add: large_mapped_def next_table_Some pt_ext_root[OF s'(2)] del: table_at.simps)
      moreover have "fst (vmm_query va' s') = fst (vmm_query va' s)" for va'
        by (rule query_ext[of 1]) (use s'(2) in \<open>simp add: sl_def\<close>)
      ultimately show ?thesis using s' by (auto simp: sp pt_ext_def)
    qed
  qed
qed

lemma large_base:
  assumes "\<forall>b. 12 \<le> b \<and> b < 21 \<longrightarrow> \<not> bit pde b"
  shows "(frame_of pde OR (va AND (LARGE_PAGE_SIZE - 1))) AND NOT (LARGE_PAGE_SIZE - 1) = frame_of pde"
proof (rule bit_eqI)
  fix n assume "possible_bit TYPE(64 word) n"
  then have n: "n < 64" by simp
  have m: "LARGE_PAGE_SIZE - 1 = mask 21" by (simp add: mask_eq_exp_minus_1)
  show "bit ((frame_of pde OR (va AND (LARGE_PAGE_SIZE - 1))) AND NOT (LARGE_PAGE_SIZE - 1)) n \<longleftrightarrow>
      bit (frame_of pde) n"
    unfolding m by (simp only: bit_expand) (use assms n in auto)
qed

lemma map_split_oom:
  assumes wf: "pt_wf s" and cr: "load_cr3 s = s" and al: "page_aligned va" "page_aligned pa"
    and pd: "table_at (phys_mem s) (pt_root s) (pd_path va) = Some pd"
    and e: "present (phys_mem s (pd + 8 * PD_INDEX va))"
    and oom: "free_set (frames s) = {}"
  defines "base \<equiv> frame_of (phys_mem s (pd + 8 * PD_INDEX va))"
  assumes base: "base \<noteq> 0"
  shows "vmm_map_page va pa flags s = Some (True,
    invlpg va (write_entry base (PT_INDEX va) (frame_of pa OR pte_flags_from flags) s))"
proof -
  obtain pdpt where e4: "present (phys_mem s (pt_root s + 8 * PML4_INDEX va))"
      "pdpt = frame_of (phys_mem s (pt_root s + 8 * PML4_INDEX va))"
      "table_at (phys_mem s) (pt_root s) [PML4_INDEX va] = Some pdpt"
    and e3: "present (phys_mem s (pdpt + 8 * PDPT_INDEX va))"
      "pd = frame_of (phys_mem s (pdpt + 8 * PDPT_INDEX va))"
    using pd by (auto simp: table_at_Cons_Some simp del: table_at.simps(2))
  have "is_path [PML4_INDEX va]" "is_path (pd_path va)" by (simp_all add: is_path_def index_less)
  then have nz: "pdpt \<noteq> 0" "pd \<noteq> 0"
    using pt_wfD(5)[OF wf] e4(3) pd unfolding owned_def by blast+
  have g: "get_or_create_table (pt_root s) (PML4_INDEX va) f True s = Some (pdpt, s)"
    "get_or_create_table pdpt (PDPT_INDEX va) f True s = Some (pd, s)"
    "get_or_create_table pd (PD_INDEX va) f True s = Some (base, s)" for f
    using e4 e3 e by (simp_all add: get_or_create_table_def read_entry_def base_def frame_of_def)
  have "get_pt va pd f s = Some (base, s)" for f
    using g(3) split_oom[OF wf cr pd oom] by (simp add: get_pt_def)
  then show ?thesis using vmm_map_page_eq[OF cr al] g nz base by (simp add: get_pd_def)
qed

text \<open>
  When no frame is free, mapping inside a 2 MiB page goes wrong: \<open>vmm_split_large_page\<close> gives
  up silently and \<open>vmm_map_page\<close> then takes the memory of the large page itself for a page table.
  It reports success, no translation has changed, and a word of the large page is overwritten.
\<close>
theorem vmm_map_page_split_oom:
  assumes wf: "pt_wf s" and large: "large_mapped s va" and oom: "free_set (frames s) = {}"
    and al: "page_aligned va" "page_aligned pa"
  defines "base \<equiv> fst (vmm_query va s) AND NOT (LARGE_PAGE_SIZE - 1)"
  assumes base: "base \<noteq> 0" "fresh_frame (phys_mem s) (pt_root s) base"
  shows "\<exists>s'. vmm_map_page va pa flags s = Some (True, s') \<and>
    (\<forall>va'. fst (vmm_query va' s') = fst (vmm_query va' s)) \<and>
    phys_mem s' = (phys_mem s)(base + 8 * PT_INDEX va := frame_of pa OR pte_flags_from flags)"
proof -
  define sl where "sl = load_cr3 s"
  have wf: "pt_wf sl" and cr: "load_cr3 sl = sl" and fr: "free_set (frames sl) = {}"
    and mp: "vmm_map_page va pa flags s = vmm_map_page va pa flags sl"
    and mr: "phys_mem s = phys_mem sl" "pt_root s = pt_root sl" and ll: "large_mapped sl va"
    using wf oom large by (simp_all add: sl_def vmm_ops_load)
  let ?m = "phys_mem sl" and ?r = "pt_root sl"
  from ll obtain pd where pd: "table_at ?m ?r (pd_path va) = Some pd"
    and e: "present (?m (pd + 8 * PD_INDEX va))" "huge (?m (pd + 8 * PD_INDEX va))"
    by (auto simp: large_mapped_def simp del: table_at.simps split: option.splits)
  have "\<forall>b. 12 \<le> b \<and> b < 21 \<longrightarrow> \<not> bit (?m (pd + 8 * PD_INDEX va)) b"
    by (rule pd_alignedD[OF pt_wfD(4)[OF wf] _ _ pd index_less(3) e]) (simp_all add: is_path_def index_less)
  then have b: "base = frame_of (?m (pd + 8 * PD_INDEX va))"
    using large_base translate_large[OF pd e] by (simp add: base_def vmm_query_eq mr)
  let ?v = "frame_of pa OR pte_flags_from flags"
  have "translate (?m(base + 8 * PT_INDEX va := ?v)) ?r va' = translate ?m ?r va'" for va'
  proof (rule translate_cong[OF pt_wfD(3)[OF wf]])
    fix q j u assume q: "prefix (q @ [j]) (vpath va')" "table_at ?m ?r q = Some u"
    have "u \<noteq> base" "j < 512" using q vpath_path[OF q(1)] base(2) by (auto simp: fresh_frame_def mr)
    then have "u + 8 * j \<noteq> base + 8 * PT_INDEX va"
      using cell_inj[OF pt_tree_addr[OF pt_wfD(2)[OF wf] q(2)] _ _ index_less(4)] b by simp
    then show "(?m(base + 8 * PT_INDEX va := ?v)) (u + 8 * j) = ?m (u + 8 * j)" by simp
  qed
  moreover have "pt_root (invlpg va (write_entry base (PT_INDEX va) ?v sl)) = ?r"
    by (rule pt_root_cong) simp_all
  ultimately show ?thesis
    using map_split_oom[OF wf cr al pd e(1) fr, of flags] base(1) by (simp add: mp mr b vmm_query_eq)
qed

section \<open>A small instance\<close>

text \<open>
  Page tables that map the first 2 MiB of virtual memory to the large page at \<open>0x200000\<close>: a PML4
  in frame 256, a PDPT in frame 257 and a page directory in frame 258.
\<close>

definition small_mem :: "u64 \<Rightarrow> u64" where
  "small_mem = (\<lambda>_. 0)(0x100000 := 0x101003, 0x101000 := 0x102003, 0x102000 := 0x200083)"

definition small_vmm :: "u64 \<Rightarrow> vmm" where
  "small_vmm mem_top = \<lparr>phys_mem = small_mem, vmm_cr3 = 0, hw_cr3 = 0x100000, tlb_flushes = [],
     frames = pmm_init 0x100000 0x103000 mem_top\<rparr>"

lemma small_addr: "table_addr 0x100000" "table_addr 0x101000" "table_addr 0x102000" "table_addr 0x200000"
  by (simp_all add: table_addr_def frame_of_def)

lemma small_cells:
  assumes "i < 512"
  shows "small_mem (0x100000 + 8 * i) = (if i = 0 then 0x101003 else 0)"
    and "small_mem (0x101000 + 8 * i) = (if i = 0 then 0x102003 else 0)"
    and "small_mem (0x102000 + 8 * i) = (if i = 0 then 0x200083 else 0)"
proof -
  have c: "t + 8 * i = t' \<longleftrightarrow> t = t' \<and> i = 0" if "table_addr t" "table_addr t'" for t t'
    using cell_inj[OF that assms, of 0] by simp
  note cs = c[OF small_addr(1) small_addr(1)] c[OF small_addr(1) small_addr(2)] c[OF small_addr(1) small_addr(3)]
    c[OF small_addr(2) small_addr(1)] c[OF small_addr(2) small_addr(2)] c[OF small_addr(2) small_addr(3)]
    c[OF small_addr(3) small_addr(1)] c[OF small_addr(3) small_addr(2)] c[OF small_addr(3) small_addr(3)]
  show "small_mem (0x100000 + 8 * i) = (if i = 0 then 0x101003 else 0)"
    "small_mem (0x101000 + 8 * i) = (if i = 0 then 0x102003 else 0)"
    "small_mem (0x102000 + 8 * i) = (if i = 0 then 0x200083 else 0)"
    unfolding small_mem_def fun_upd_apply cs by simp_all
qed

lemma small_entries:
  "present 0x101003" "\<not> huge 0x101003" "frame_of 0x101003 = 0x101000"
  "present 0x102003" "\<not> huge 0x102003" "frame_of 0x102003 = 0x102000"
  "present 0x200083" "huge 0x200083" "frame_of 0x200083 = 0x200000"
  by (simp_all add: present_def huge_def frame_of_def)

lemma small_next:
  assumes "i < 512"
  shows "next_table small_mem 0x100000 i = (if i = 0 then Some 0x101000 else None)"
    and "next_table small_mem 0x101000 i = (if i = 0 then Some 0x102000 else None)"
    and "next_table small_mem 0x102000 i = None"
  unfolding next_table_def small_cells[OF assms] by (simp_all add: small_entries)

lemma small_table_at:
  assumes "is_path q"
  shows "table_at small_mem 0x100000 q = (if q = [] then Some 0x100000 else if q = [0] then Some 0x101000
    else if q = [0, 0] then Some 0x102000 else None)"
proof (cases q)
  case (Cons i q')
  then have i: "i < 512" using assms by (simp add: is_path_def)
  show ?thesis
  proof (cases q')
    case (Cons j r)
    then have j: "j < 512" using assms \<open>q = i # q'\<close> by (simp add: is_path_def)
    show ?thesis
      using \<open>q = i # q'\<close> Cons assms
      by (cases r) (auto simp: small_next[OF i] small_next[OF j] is_path_def small_next)
  qed (use Cons in \<open>simp add: small_next[OF i]\<close>)
qed simp

lemma small_root: "pt_root (small_vmm mt) = 0x100000" "phys_mem (small_vmm mt) = small_mem"
  by (simp_all add: pt_root_def load_cr3_def small_vmm_def frame_of_def)

lemma small_frames:
  "pmm_inv (frames (small_vmm mt))"
  "free_set (frames (small_vmm mt)) =
    {259..<min (unat mt div 4096) 16384} - pages_of 0x200000 0x600000"
proof -
  have k: "unat (0x103000 :: u64) < 2 ^ 63" by simp
  note init = pmm_init_spec[OF k, of "0x100000" mt]
  show "pmm_inv (frames (small_vmm mt))" using init(1) by (simp add: small_vmm_def)
  show "free_set (frames (small_vmm mt)) =
    {259..<min (unat mt div 4096) 16384} - pages_of 0x200000 0x600000"
    using init(2) by (auto simp: small_vmm_def pages_of_def)
qed

lemma small_wf: "pt_wf (small_vmm mt)"
proof -
  let ?m = small_mem and ?r = "0x100000 :: u64"
  have al: "\<not> bit (0x200083 :: u64) b" if "12 \<le> b" "b < 21" for b
  proof -
    have "b \<in> {12, 13, 14, 15, 16, 17, 18, 19, 20}" using that by auto
    then show ?thesis by (elim insertE emptyE) simp_all
  qed
  have "pt_tree ?m ?r"
    unfolding pt_tree_def using small_addr(1) by (auto simp: small_table_at split: if_split_asm)
  moreover have "pml4_plain ?m ?r"
    by (simp add: pml4_plain_def small_cells small_entries)
  moreover have "pd_aligned ?m ?r"
    unfolding pd_aligned_def using al
    by (auto simp: small_table_at small_cells numeral_2_eq_2 length_Suc_conv split: if_split_asm)
  moreover have "owned (free_set (frames (small_vmm mt))) ?m ?r"
    unfolding owned_def small_frames by (auto simp: small_table_at split: if_split_asm)
  ultimately show ?thesis
    using small_frames(1) by (simp add: pt_wf_def tables_ok_def small_root)
qed

lemma small_mapped:
  assumes "PML4_INDEX va = 0" and "PDPT_INDEX va = 0"
  shows "\<not> gib_mapped (small_vmm mt) va" and "large_mapped (small_vmm mt) va \<longleftrightarrow> PD_INDEX va = 0"
  using assms index_less(3)[of va]
  by (simp_all add: gib_mapped_def large_mapped_def small_root small_next[of 0] small_cells small_entries
      small_cells(2)[of 0, simplified])

lemma small_query:
  assumes "PML4_INDEX va = 0" and "PDPT_INDEX va = 0" and "PD_INDEX va = 0"
  shows "fst (vmm_query va (small_vmm mt)) = 0x200000 OR (va AND (LARGE_PAGE_SIZE - 1))"
proof -
  have "table_at small_mem 0x100000 (pd_path va) = Some 0x102000"
    using assms by (simp add: small_next[of 0])
  from translate_large[OF this] show ?thesis
    using small_cells(3)[of 0] assms by (simp add: vmm_query_eq small_root small_entries)
qed

lemmas small_index = PML4_INDEX_def PDPT_INDEX_def PD_INDEX_def PT_INDEX_def

lemma small_free: "3 \<le> card (free_set (frames (small_vmm 0x400000)))"
proof -
  have "{259, 260, 261} \<subseteq> free_set (frames (small_vmm 0x400000))"
    unfolding small_frames by (auto simp: pages_of_def)
  from card_mono[OF finite_free_set this] show ?thesis by simp
qed

text \<open>Witness of C11: the page at \<open>0x3000\<close>, inside the large page, is mapped to \<open>0x7000\<close>.\<close>
theorem vmm_map_page_correct_witness:
  "\<exists>s'. vmm_map_page 0x3000 0x7000 VMM_WRITE (small_vmm 0x400000) = Some (True, s') \<and>
     fst (vmm_query 0x3004 s') = 0x7004 \<and> fst (vmm_query 0x5004 s') = 0x205004"
proof -
  have "free_set (frames (small_vmm 0x400000)) \<noteq> {}" using small_free by auto
  from vmm_map_page_correct[OF small_wf small_mapped(1), of "0x3000" "0x400000" "0x7000" VMM_WRITE] this
  obtain ok s' where s': "vmm_map_page 0x3000 0x7000 VMM_WRITE (small_vmm 0x400000) = Some (ok, s')"
    and ok: "page_aligned 0x3000 \<and> page_aligned 0x7000 \<and>
        3 \<le> card (free_set (frames (small_vmm 0x400000))) \<longrightarrow> ok"
    and q: "\<forall>va'. fst (vmm_query va' s') =
       (if ok \<and> vpath va' = vpath 0x3000 then frame_of 0x7000 OR (va' AND (PAGE_SIZE - 1))
        else fst (vmm_query va' (small_vmm 0x400000)))"
    by (auto simp: small_index)
  have ok: ok using ok small_free by (simp add: page_aligned_def)
  have "fst (vmm_query 0x3004 s') = 0x7004"
    using q[rule_format, of "0x3004"] ok by (simp add: vpath_def small_index frame_of_def)
  moreover have "fst (vmm_query 0x5004 s') = 0x205004"
    using q[rule_format, of "0x5004"] small_query[of "0x5004" "0x400000"]
    by (simp add: vpath_def small_index)
  ultimately show ?thesis using s' ok by simp
qed

text \<open>Witness of C12: unmapping an address of the large page removes the whole large page.\<close>
theorem vmm_unmap_page_correct_witness:
  "case vmm_unmap_page 0x3000 (small_vmm 0x400000) of (ok, s') \<Rightarrow>
     ok \<and> fst (vmm_query 0x3000 s') = 0 \<and> fst (vmm_query 0x1FFFFF s') = 0"
proof -
  let ?s = "small_vmm 0x400000"
  have gib: "\<not> gib_mapped ?s 0x3000" and large: "large_mapped ?s 0x3000"
    using small_mapped[of "0x3000"] by (simp_all add: small_index)
  obtain ok s' where s': "vmm_unmap_page 0x3000 ?s = (ok, s')" by fastforce
  have q0: "fst (vmm_query 0x3000 ?s) \<noteq> 0" using small_query[of "0x3000"] by (simp add: small_index)
  note u = vmm_unmap_page_correct[OF small_wf gib, unfolded s', simplified]
  have ok using u q0 by blast
  then show ?thesis using u large by (simp add: s' vpath_def small_index)
qed

text \<open>An instance of this: splitting the large page keeps the address of \<open>0x3004\<close>.\<close>
theorem vmm_split_preserves_witness:
  "\<exists>s'. vmm_split_large_page 0x3000 (small_vmm 0x400000) = Some s' \<and>
     fst (vmm_query 0x3004 s') = 0x203004 \<and> \<not> large_mapped s' 0x3000"
proof -
  let ?s = "small_vmm 0x400000"
  have gib: "\<not> gib_mapped ?s 0x3000"
    using small_mapped[of "0x3000"] by (simp add: small_index)
  have "free_set (frames ?s) \<noteq> {}" using small_free by auto
  then show ?thesis
    using vmm_split_preserves[OF small_wf gib] small_query[of "0x3004" "0x400000"]
    by (auto simp: small_index)
qed

text \<open>An instance: with no memory to manage the allocator has no frame.\<close>
theorem vmm_map_page_split_oom_witness:
  "\<exists>s'. vmm_map_page 0x3000 0x7000 VMM_WRITE (small_vmm 0) = Some (True, s') \<and>
     fst (vmm_query 0x3004 s') = 0x203004 \<and> phys_mem s' 0x200018 = 0x7003"
proof -
  let ?s = "small_vmm 0"
  have large: "large_mapped ?s 0x3000" using small_mapped(2)[of "0x3000"] by (simp add: small_index)
  have oom: "free_set (frames ?s) = {}" by (simp add: small_frames)
  have q: "fst (vmm_query 0x3000 ?s) AND NOT (LARGE_PAGE_SIZE - 1) = 0x200000"
    using small_query[of "0x3000" 0] by (simp add: small_index)
  have fresh: "fresh_frame (phys_mem ?s) (pt_root ?s) 0x200000"
    by (simp add: fresh_frame_def small_root small_table_at)
  have al: "page_aligned 0x3000" "page_aligned 0x7000" by (simp_all add: page_aligned_def)
  from vmm_map_page_split_oom[OF small_wf large oom al, unfolded q, OF _ fresh, of VMM_WRITE]
  show ?thesis
    using small_query[of "0x3004" 0] by (auto simp: small_index frame_of_def pte_flags_from_def Let_def)
qed

end
