(* ===== verification/Kheap.thy ===== *)
theory Kheap
  imports Ares_Prelude "HOL-Library.Monad_Syntax"
begin

unbundle bit_operations_syntax

text \<open>
  The kernel heap, \<^verbatim>\<open>memory/heap.c\<close>: a first-fit allocator over a linked list of block headers kept
  in the heap memory itself. The memory is modelled byte by byte; the 32-byte header of a block has
  \<^verbatim>\<open>size\<close> at offset 0, \<^verbatim>\<open>magic\<close> at 8, \<^verbatim>\<open>next\<close> at 16 and \<^verbatim>\<open>free\<close> at 24, little endian. Loops that
  follow \<^verbatim>\<open>next\<close> pointers are partial functions; on a well-formed heap they are shown to return.
\<close>

section \<open>Bytes and words in memory\<close>

primrec rd :: "nat \<Rightarrow> (u64 \<Rightarrow> u8) \<Rightarrow> u64 \<Rightarrow> u64" where
  "rd 0 m a = 0"
| "rd (Suc n) m a = ucast (m a) OR push_bit 8 (rd n m (a + 1))"

primrec wr :: "nat \<Rightarrow> u64 \<Rightarrow> u64 \<Rightarrow> (u64 \<Rightarrow> u8) \<Rightarrow> (u64 \<Rightarrow> u8)" where
  "wr 0 a v m = m"
| "wr (Suc n) a v m = wr n (a + 1) (drop_bit 8 v) (m(a := ucast v))"

section \<open>Heap blocks\<close>

abbreviation (input) HEAP_MAGIC :: u64 where "HEAP_MAGIC \<equiv> 0xA55A5A55"
abbreviation (input) HEAP_ALIGN :: u64 where "HEAP_ALIGN \<equiv> 16"
abbreviation (input) HEAP_BASE :: u64 where "HEAP_BASE \<equiv> 0x200000"
abbreviation (input) HEAP_SIZE :: u64 where "HEAP_SIZE \<equiv> 0x400000"
abbreviation (input) SIZEOF_BLOCK :: u64 where "SIZEOF_BLOCK \<equiv> 32"

record kheap =
  heap_head :: u64
  hmem :: "u64 \<Rightarrow> u8"

definition block_size :: "kheap \<Rightarrow> u64 \<Rightarrow> u64" where "block_size h b = rd 8 (hmem h) b"
definition block_magic :: "kheap \<Rightarrow> u64 \<Rightarrow> u64" where "block_magic h b = rd 4 (hmem h) (b + 8)"
definition block_next :: "kheap \<Rightarrow> u64 \<Rightarrow> u64" where "block_next h b = rd 8 (hmem h) (b + 16)"
definition block_free :: "kheap \<Rightarrow> u64 \<Rightarrow> u64" where "block_free h b = rd 4 (hmem h) (b + 24)"

definition set_size :: "u64 \<Rightarrow> u64 \<Rightarrow> kheap \<Rightarrow> kheap" where
  "set_size b v h = h\<lparr>hmem := wr 8 b v (hmem h)\<rparr>"
definition set_magic :: "u64 \<Rightarrow> u64 \<Rightarrow> kheap \<Rightarrow> kheap" where
  "set_magic b v h = h\<lparr>hmem := wr 4 (b + 8) v (hmem h)\<rparr>"
definition set_next :: "u64 \<Rightarrow> u64 \<Rightarrow> kheap \<Rightarrow> kheap" where
  "set_next b v h = h\<lparr>hmem := wr 8 (b + 16) v (hmem h)\<rparr>"
definition set_free :: "u64 \<Rightarrow> u64 \<Rightarrow> kheap \<Rightarrow> kheap" where
  "set_free b v h = h\<lparr>hmem := wr 4 (b + 24) v (hmem h)\<rparr>"

definition align_up :: "u64 \<Rightarrow> u64 \<Rightarrow> u64" where
  "align_up n a = (n + a - 1) AND NOT (a - 1)"

definition block_from_payload :: "u64 \<Rightarrow> u64" where
  "block_from_payload ptr = ptr - SIZEOF_BLOCK"

definition payload_of :: "u64 \<Rightarrow> u64" where
  "payload_of b = b + SIZEOF_BLOCK"

section \<open>Operations\<close>

definition heap_init :: "kheap \<Rightarrow> kheap" where
  "heap_init h =
     (let h = h\<lparr>heap_head := HEAP_BASE\<rparr>;
          h = set_size (heap_head h) (HEAP_SIZE - SIZEOF_BLOCK) h;
          h = set_magic (heap_head h) HEAP_MAGIC h;
          h = set_next (heap_head h) 0 h
      in set_free (heap_head h) 1 h)"

text \<open>The loop body of \<^verbatim>\<open>kmalloc\<close> once a block has been found.\<close>

definition take_block :: "u64 \<Rightarrow> u64 \<Rightarrow> kheap \<Rightarrow> kheap" where
  "take_block want b h =
     (let remainder = block_size h b - want;
          h = (if remainder > SIZEOF_BLOCK + HEAP_ALIGN
               then let tail = payload_of b + want;
                        h = set_size tail (remainder - SIZEOF_BLOCK) h;
                        h = set_magic tail HEAP_MAGIC h;
                        h = set_next tail (block_next h b) h;
                        h = set_free tail 1 h;
                        h = set_size b want h
                    in set_next b tail h
               else h)
      in set_free b 0 h)"

partial_function (option) kmalloc_loop :: "u64 \<Rightarrow> u64 \<Rightarrow> kheap \<Rightarrow> (u64 \<times> kheap) option" where
  "kmalloc_loop want b h =
     (if b = 0 then Some (0, h)
      else if block_magic h b \<noteq> HEAP_MAGIC then Some (0, h)
      else if block_free h b = 0 \<or> block_size h b < want then kmalloc_loop want (block_next h b) h
      else Some (payload_of b, take_block want b h))"

definition kmalloc :: "u64 \<Rightarrow> kheap \<Rightarrow> (u64 \<times> kheap) option" where
  "kmalloc sz h =
     (if sz = 0 \<or> heap_head h = 0 then Some (0, h)
      else kmalloc_loop (align_up sz HEAP_ALIGN) (heap_head h) h)"

partial_function (option) coalesce :: "u64 \<Rightarrow> kheap \<Rightarrow> kheap option" where
  "coalesce b h =
     (if block_next h b \<noteq> 0 \<and> block_free h (block_next h b) \<noteq> 0 \<and>
         block_magic h (block_next h b) = HEAP_MAGIC
      then let h = set_size b (block_size h b + (SIZEOF_BLOCK + block_size h (block_next h b))) h
           in coalesce b (set_next b (block_next h (block_next h b)) h)
      else Some h)"

definition kfree :: "u64 \<Rightarrow> kheap \<Rightarrow> kheap option" where
  "kfree ptr h =
     (if ptr = 0 then Some h
      else let b = block_from_payload ptr
           in if block_magic h b \<noteq> HEAP_MAGIC then Some h
              else if block_free h b \<noteq> 0 then Some h
              else coalesce b (set_free b 1 h))"

partial_function (option) copy_loop :: "u64 \<Rightarrow> u64 \<Rightarrow> u64 \<Rightarrow> u64 \<Rightarrow> kheap \<Rightarrow> kheap option" where
  "copy_loop b src dst i h =
     (if i < block_size h b
      then copy_loop b src dst (i + 1) (h\<lparr>hmem := (hmem h)(dst + i := hmem h (src + i))\<rparr>)
      else Some h)"

definition krealloc :: "u64 \<Rightarrow> u64 \<Rightarrow> kheap \<Rightarrow> (u64 \<times> kheap) option" where
  "krealloc ptr new_size h =
     (if ptr = 0 then kmalloc new_size h
      else if new_size = 0 then do { h \<leftarrow> kfree ptr h; Some (0, h) }
      else let b = block_from_payload ptr
           in if block_magic h b \<noteq> HEAP_MAGIC then Some (0, h)
              else if block_size h b \<ge> new_size then Some (ptr, h)
              else do {
                (fresh, h) \<leftarrow> kmalloc new_size h;
                (if fresh = 0 then Some (0, h)
                 else do {
                   h \<leftarrow> copy_loop b ptr fresh 0 h;
                   h \<leftarrow> kfree ptr h;
                   Some (fresh, h) })
              })"

partial_function (option) stats_loop ::
  "kheap \<Rightarrow> u64 \<Rightarrow> u64 \<Rightarrow> u64 \<Rightarrow> u64 \<Rightarrow> (u64 \<times> u64 \<times> u64) option" where
  "stats_loop h b u f l =
     (if b = 0 then Some (u, f, l)
      else if block_magic h b \<noteq> HEAP_MAGIC then Some (u, f, l)
      else if block_free h b \<noteq> 0
           then stats_loop h (block_next h b) u (f + block_size h b)
                  (if block_size h b > l then block_size h b else l)
      else stats_loop h (block_next h b) (u + block_size h b) f l)"

definition heap_stats :: "kheap \<Rightarrow> (u64 \<times> u64 \<times> u64) option" where
  "heap_stats h = stats_loop h (heap_head h) 0 0 0"

section \<open>Reading back what was written\<close>

lemma unat_plus_nat [word_nat]:
  "unat (a :: u64) + n < 2 ^ 64 \<Longrightarrow> unat (a + of_nat n) = unat a + n"
  by (simp add: unat_word_ariths unat_of_nat)

lemma wr_other:
  assumes "unat a + n \<le> 2 ^ 64" and "unat x < unat a \<or> unat a + n \<le> unat x"
  shows "wr n a v m x = m x"
  using assms
proof (induction n arbitrary: a v m)
  case (Suc n)
  have "a \<noteq> x" using Suc.prems(2) by auto
  show ?case
  proof (cases "n = 0")
    case False
    then have "unat (a + 1) = unat a + 1" using Suc.prems(1) unat_plus_nat[of a 1] by simp
    then show ?thesis using Suc \<open>a \<noteq> x\<close> by auto
  qed (use \<open>a \<noteq> x\<close> in simp)
qed simp

lemma rd_cong:
  assumes "unat a + n \<le> 2 ^ 64" and "\<And>x. unat a \<le> unat x \<Longrightarrow> unat x < unat a + n \<Longrightarrow> m' x = m x"
  shows "rd n m' a = rd n m a"
  using assms
proof (induction n arbitrary: a)
  case (Suc n)
  have "rd n m' (a + 1) = rd n m (a + 1)"
  proof (cases "n = 0")
    case False
    then have "unat (a + 1) = unat a + 1" using Suc.prems(1) unat_plus_nat[of a 1] by simp
    then show ?thesis using Suc.prems by (intro Suc.IH) auto
  qed simp
  then show ?case using Suc.prems(2)[of a] by simp
qed simp

lemma rd_wr_other:
  assumes "unat a + n \<le> 2 ^ 64" and "unat b + k \<le> 2 ^ 64" and "unat b + k \<le> unat a \<or> unat a + n \<le> unat b"
  shows "rd n (wr k b v m) a = rd n m a"
  using assms by (intro rd_cong wr_other) auto

lemma byte_split: "ucast (ucast (v :: u64) :: u8) OR push_bit 8 (take_bit n (drop_bit 8 v)) = take_bit (8 + n) v"
  by (rule bit_eqI)
    (auto simp: bit_or_iff bit_push_bit_iff bit_take_bit_iff bit_drop_bit_eq bit_ucast_iff)

lemma rd_wr_same:
  assumes "unat a + n \<le> 2 ^ 64"
  shows "rd n (wr n a v m) a = take_bit (8 * n) v"
  using assms
proof (induction n arbitrary: a v m)
  case (Suc n)
  show ?case
  proof (cases "n = 0")
    case True
    then show ?thesis using byte_split[of v 0] by simp
  next
    case False
    then have a: "unat (a + 1) = unat a + 1" using Suc.prems(1) unat_plus_nat[of a 1] by simp
    then have "wr n (a + 1) (drop_bit 8 v) (m(a := ucast v)) a = ucast v"
      using Suc.prems by (subst wr_other) auto
    then show ?thesis using Suc.IH[of "a + 1"] a Suc.prems byte_split[of v "8 * n"] by simp
  qed
qed simp

lemma take_bit_64 [simp]: "take_bit 64 (v :: u64) = v"
  by (rule bit_eqI) (simp add: bit_take_bit_iff)

lemma heap_head_set:
  "heap_head (set_size b v h) = heap_head h" "heap_head (set_magic b v h) = heap_head h"
  "heap_head (set_next b v h) = heap_head h" "heap_head (set_free b v h) = heap_head h"
  by (simp_all add: set_size_def set_magic_def set_next_def set_free_def)

lemma header_offsets:
  fixes b :: u64
  assumes "unat b + 32 \<le> 2 ^ 64"
  shows "unat (b + 8) = unat b + 8" "unat (b + 16) = unat b + 16" "unat (b + 24) = unat b + 24"
  using assms unat_plus_nat[of b 8] unat_plus_nat[of b 16] unat_plus_nat[of b 24] by simp_all

lemmas field_defs = block_size_def block_magic_def block_next_def block_free_def
  set_size_def set_magic_def set_next_def set_free_def

lemma fields_same:
  assumes "unat b + 32 \<le> 2 ^ 64"
  shows "block_size (set_size b v h) b = v" "block_size (set_magic b v h) b = block_size h b"
    "block_size (set_next b v h) b = block_size h b" "block_size (set_free b v h) b = block_size h b"
    "block_magic (set_size b v h) b = block_magic h b" "block_magic (set_magic b v h) b = take_bit 32 v"
    "block_magic (set_next b v h) b = block_magic h b" "block_magic (set_free b v h) b = block_magic h b"
    "block_next (set_size b v h) b = block_next h b" "block_next (set_magic b v h) b = block_next h b"
    "block_next (set_next b v h) b = v" "block_next (set_free b v h) b = block_next h b"
    "block_free (set_size b v h) b = block_free h b" "block_free (set_magic b v h) b = block_free h b"
    "block_free (set_next b v h) b = block_free h b" "block_free (set_free b v h) b = take_bit 32 v"
  using assms header_offsets[OF assms] by (simp_all add: field_defs rd_wr_same rd_wr_other)

definition hdr :: "kheap \<Rightarrow> u64 \<Rightarrow> u64 \<times> u64 \<times> u64 \<times> u64" where
  "hdr h b = (block_size h b, block_magic h b, block_next h b, block_free h b)"

text \<open>\<open>same_outside lo hi h h'\<close>: the heaps differ at most in the bytes from \<open>lo\<close> to \<open>hi\<close>.\<close>

definition same_outside :: "nat \<Rightarrow> nat \<Rightarrow> kheap \<Rightarrow> kheap \<Rightarrow> bool" where
  "same_outside lo hi h h' \<longleftrightarrow> heap_head h' = heap_head h \<and>
     (\<forall>x. unat x < lo \<or> hi \<le> unat x \<longrightarrow> hmem h' x = hmem h x)"

lemma same_outside_refl [simp]: "same_outside lo hi h h"
  by (simp add: same_outside_def)

lemma same_outside_trans:
  "same_outside lo hi h h' \<Longrightarrow> same_outside lo hi h' h'' \<Longrightarrow> same_outside lo hi h h''"
  by (simp add: same_outside_def)

lemma same_outside_mono:
  "same_outside lo hi h h' \<Longrightarrow> lo' \<le> lo \<Longrightarrow> hi \<le> hi' \<Longrightarrow> same_outside lo' hi' h h'"
  by (auto simp: same_outside_def)

lemma hdr_outside:
  assumes "same_outside lo hi h h'" and "unat b + 32 \<le> 2 ^ 64" and "unat b + 32 \<le> lo \<or> hi \<le> unat b"
  shows "hdr h' b = hdr h b"
  using assms(1,3) header_offsets[OF assms(2)] assms(2)
  by (auto simp: hdr_def field_defs same_outside_def intro!: rd_cong)

lemma set_outside:
  assumes "unat b + 32 \<le> 2 ^ 64"
  shows "same_outside (unat b) (unat b + 32) h (set_size b v h)"
    "same_outside (unat b) (unat b + 32) h (set_magic b v h)"
    "same_outside (unat b) (unat b + 32) h (set_next b v h)"
    "same_outside (unat b) (unat b + 32) h (set_free b v h)"
  using assms header_offsets[OF assms] by (auto simp: same_outside_def field_defs wr_other)

lemma outside_step:
  assumes "lo \<le> unat b" and "unat b + 32 \<le> hi" and "unat b + 32 \<le> 2 ^ 64" and "same_outside lo hi h g"
  shows "same_outside lo hi h (set_size b v g)" "same_outside lo hi h (set_magic b v g)"
    "same_outside lo hi h (set_next b v g)" "same_outside lo hi h (set_free b v g)"
  using assms(1,2,4) set_outside[OF assms(3), of g v] by (auto simp: same_outside_def)

section \<open>Well-formed heaps\<close>

text \<open>
  The blocks tile the heap window: \<open>tiles h lo bs\<close> says that headers describing the blocks \<open>bs\<close>,
  pairs of a payload size and a free flag, follow each other from address \<open>lo\<close> to the end of the
  window, each linked to the next.
\<close>

abbreviation (input) HEAP_END :: nat where "HEAP_END \<equiv> 0x600000"

primrec tiles :: "kheap \<Rightarrow> nat \<Rightarrow> (nat \<times> bool) list \<Rightarrow> bool" where
  "tiles h lo [] \<longleftrightarrow> lo = HEAP_END"
| "tiles h lo (B # bs) \<longleftrightarrow>
     hdr h (of_nat lo) = (of_nat (fst B), HEAP_MAGIC,
       if bs = [] then 0 else of_nat (lo + 32 + fst B), if snd B then 1 else 0) \<and>
     fst B mod 16 = 0 \<and> tiles h (lo + 32 + fst B) bs"

definition heap_wf :: "kheap \<Rightarrow> (nat \<times> bool) list \<Rightarrow> bool" where
  "heap_wf h bs \<longleftrightarrow> heap_head h = HEAP_BASE \<and> bs \<noteq> [] \<and> tiles h 0x200000 bs"

text \<open>The blocks in use, as payload address and size, and the bytes they hold.\<close>

primrec live :: "nat \<Rightarrow> (nat \<times> bool) list \<Rightarrow> (nat \<times> nat) set" where
  "live lo [] = {}"
| "live lo (B # bs) =
     (if snd B then {} else {(lo + 32, fst B)}) \<union> live (lo + 32 + fst B) bs"

definition live_bytes :: "nat \<Rightarrow> (nat \<times> bool) list \<Rightarrow> nat set" where
  "live_bytes lo bs = (\<Union>(p, n) \<in> live lo bs. {p..<p + n})"

lemma tiles_end: "tiles h lo bs \<Longrightarrow> lo + (\<Sum>B \<leftarrow> bs. 32 + fst B) = HEAP_END"
  by (induction bs arbitrary: lo) fastforce+

lemma tiles_le: "tiles h lo bs \<Longrightarrow> lo \<le> HEAP_END"
  using tiles_end by fastforce

lemma tiles_Cons_le: "tiles h lo (B # bs) \<Longrightarrow> lo + 32 + fst B \<le> HEAP_END"
  using tiles_le[of h "lo + 32 + fst B" bs] by simp

lemma tiles_outside:
  assumes "tiles h lo bs" and "same_outside a b h h'" and "b \<le> lo"
  shows "tiles h' lo bs"
  using assms(1,3)
proof (induction bs arbitrary: lo)
  case (Cons B bs)
  have "lo + 32 + fst B \<le> HEAP_END" using tiles_Cons_le[OF Cons.prems(1)] .
  then have "unat (of_nat lo :: u64) = lo" by (intro unat_less_of_nat) simp
  then have "hdr h' (of_nat lo) = hdr h (of_nat lo)"
    using hdr_outside[OF assms(2), of "of_nat lo"] Cons.prems(2) \<open>lo + 32 + fst B \<le> HEAP_END\<close> by simp
  then show ?case using Cons by simp
qed simp

section \<open>Allocation\<close>

text \<open>The first fit on the list of blocks.\<close>

definition cut_block :: "nat \<Rightarrow> nat \<Rightarrow> (nat \<times> bool) list" where
  "cut_block want n = (if n - want > 48 then [(want, False), (n - want - 32, True)] else [(n, False)])"

primrec first_fit :: "nat \<Rightarrow> nat \<Rightarrow> (nat \<times> bool) list \<Rightarrow> (nat \<times> (nat \<times> bool) list) option" where
  "first_fit want lo [] = None"
| "first_fit want lo (B # bs) =
     (if snd B \<and> want \<le> fst B then Some (lo + 32, cut_block want (fst B) @ bs)
      else map_option (\<lambda>(p, bs'). (p, B # bs')) (first_fit want (lo + 32 + fst B) bs))"

lemma unat_heap_addr:
  assumes "n \<le> HEAP_END"
  shows "unat (of_nat n :: u64) = n"
  using assms by (intro unat_less_of_nat) simp

lemma hdr_fields:
  assumes "hdr h b = (x, y, z, f)"
  shows "block_size h b = x" "block_magic h b = y" "block_next h b = z" "block_free h b = f"
  using assms by (simp_all add: hdr_def)

lemma hdr_set_same:
  assumes "unat b + 32 \<le> 2 ^ 64"
  shows "hdr (set_size b v h) b = (v, snd (hdr h b))"
    "hdr (set_magic b v h) b = (fst (hdr h b), take_bit 32 v, snd (snd (hdr h b)))"
    "hdr (set_next b v h) b = (fst (hdr h b), fst (snd (hdr h b)), v, snd (snd (snd (hdr h b))))"
    "hdr (set_free b v h) b = (fst (hdr h b), fst (snd (hdr h b)), fst (snd (snd (hdr h b))), take_bit 32 v)"
  using fields_same[OF assms] by (simp_all add: hdr_def)

lemma hdr_set_other:
  assumes "unat b + 32 \<le> 2 ^ 64" and "unat c + 32 \<le> 2 ^ 64" and "unat b + 32 \<le> unat c \<or> unat c + 32 \<le> unat b"
  shows "hdr (set_size c v h) b = hdr h b" "hdr (set_magic c v h) b = hdr h b"
    "hdr (set_next c v h) b = hdr h b" "hdr (set_free c v h) b = hdr h b"
  using hdr_outside[OF set_outside(1)[OF assms(2)] assms(1,3)] hdr_outside[OF set_outside(2)[OF assms(2)] assms(1,3)]
    hdr_outside[OF set_outside(3)[OF assms(2)] assms(1,3)] hdr_outside[OF set_outside(4)[OF assms(2)] assms(1,3)]
  by simp_all

lemma take_whole:
  assumes t: "tiles h lo ((n, True) # bs)" and want: "want \<le> n" "\<not> n - want > 48"
  shows "take_block (of_nat want) (of_nat lo) h = set_free (of_nat lo) 0 h"
proof -
  have le: "lo + 32 + n \<le> HEAP_END" using tiles_Cons_le[OF t] by simp
  have "block_size h (of_nat lo) = of_nat n" using t by (simp add: hdr_def)
  moreover have "\<not> (of_nat n - of_nat want :: u64) > 48"
    using want unat_heap_addr[of "n - want"] le by (simp add: word_less_nat_alt flip: of_nat_diff)
  ultimately show ?thesis by (simp add: take_block_def Let_def)
qed

lemma take_cut:
  assumes t: "tiles h lo ((n, True) # bs)" and want: "want \<le> n" "n - want > 48"
  defines "tail \<equiv> of_nat (lo + 32 + want) :: u64"
  shows "hdr (take_block (of_nat want) (of_nat lo) h) (of_nat lo) = (of_nat want, HEAP_MAGIC, tail, 0)"
    and "hdr (take_block (of_nat want) (of_nat lo) h) tail =
      (of_nat (n - want - 32), HEAP_MAGIC, if bs = [] then 0 else of_nat (lo + 32 + n), 1)"
    and "same_outside lo (lo + 32 + n) h (take_block (of_nat want) (of_nat lo) h)"
proof -
  let ?b = "of_nat lo :: u64"
  have le: "lo + 32 + n \<le> HEAP_END" using tiles_Cons_le[OF t] by simp
  have b: "unat ?b = lo" and tail: "unat tail = lo + 32 + want"
    using le want unat_heap_addr[of lo] unat_heap_addr[of "lo + 32 + want"] by (simp_all add: tail_def)
  have h: "hdr h ?b = (of_nat n, HEAP_MAGIC, if bs = [] then 0 else of_nat (lo + 32 + n), 1)"
    using t by simp
  have "(of_nat n - of_nat want :: u64) > 48"
    using want unat_heap_addr[of "n - want"] le by (simp add: word_less_nat_alt flip: of_nat_diff)
  moreover have "(of_nat n - of_nat want - 32 :: u64) = of_nat (n - want - 32)" using want by (simp add: of_nat_diff)
  moreover have "payload_of ?b + of_nat want = tail" by (simp add: payload_of_def tail_def)
  ultimately have tk: "take_block (of_nat want) ?b h =
    (let h = set_size tail (of_nat (n - want - 32)) h; h = set_magic tail HEAP_MAGIC h;
         h = set_next tail (block_next h ?b) h; h = set_free tail 1 h; h = set_size ?b (of_nat want) h
     in set_free ?b 0 (set_next ?b tail h))"
    using hdr_fields[OF h] by (simp add: take_block_def Let_def)
  have ok: "unat ?b + 32 \<le> 2 ^ 64" "unat tail + 32 \<le> 2 ^ 64"
    "unat ?b + 32 \<le> unat tail \<or> unat tail + 32 \<le> unat ?b" "unat tail + 32 \<le> unat ?b \<or> unat ?b + 32 \<le> unat tail"
    using b tail le want by simp_all
  note sames = hdr_set_same[OF ok(1)] hdr_set_same[OF ok(2)] hdr_set_other[OF ok(1,2,3)] hdr_set_other[OF ok(2,1,4)]
  have nx: "block_next g ?b = fst (snd (snd (hdr g ?b)))" for g by (simp add: hdr_def)
  show "hdr (take_block (of_nat want) ?b h) ?b = (of_nat want, HEAP_MAGIC, tail, 0)"
    "hdr (take_block (of_nat want) ?b h) tail =
      (of_nat (n - want - 32), HEAP_MAGIC, if bs = [] then 0 else of_nat (lo + 32 + n), 1)"
    unfolding tk Let_def by (simp_all add: sames nx h)
  show "same_outside lo (lo + 32 + n) h (take_block (of_nat want) ?b h)"
    unfolding tk Let_def by (intro outside_step) (use b tail want le in simp_all)
qed

lemma tiles_append_head:
  assumes "hdr h (of_nat lo) = (of_nat n, HEAP_MAGIC, if bs = [] then 0 else of_nat (lo + 32 + n), f)"
    and "f = (if fr then 1 else 0)" and "n mod 16 = 0" and "tiles h (lo + 32 + n) bs"
  shows "tiles h lo ((n, fr) # bs)"
  using assms by simp

lemma take_block_tiles:
  assumes t: "tiles h lo ((n, True) # bs)" and want: "want \<le> n" "want mod 16 = 0"
  shows "tiles (take_block (of_nat want) (of_nat lo) h) lo (cut_block want n @ bs)"
    and "same_outside lo (lo + 32 + n) h (take_block (of_nat want) (of_nat lo) h)"
proof -
  let ?h' = "take_block (of_nat want) (of_nat lo) h"
  have le: "lo + 32 + n \<le> HEAP_END" using tiles_Cons_le[OF t] by simp
  have b: "unat (of_nat lo :: u64) = lo" using le unat_heap_addr[of lo] by simp
  have "same_outside lo (lo + 32 + n) h ?h' \<and> tiles ?h' lo (cut_block want n @ bs)"
  proof (cases "n - want > 48")
    case True
    note tk = take_cut[OF t want(1) True]
    have "tiles ?h' (lo + 32 + n) bs" using tiles_outside[OF _ tk(3)] t by simp
    moreover have "(n - want - 32) mod 16 = 0" using t want True by auto
    moreover have "lo + 32 + want + 32 + (n - want - 32) = lo + 32 + n" using want True by simp
    ultimately show ?thesis using tk want True by (auto simp: cut_block_def ac_simps)
  next
    case False
    note w = take_whole[OF t want(1) False]
    have so: "same_outside lo (lo + 32 + n) h ?h'"
      unfolding w by (intro outside_step) (use b le in simp_all)
    have "tiles ?h' (lo + 32 + n) bs" using tiles_outside[OF _ so] t by simp
    moreover have "hdr ?h' (of_nat lo) = (of_nat n, HEAP_MAGIC, if bs = [] then 0 else of_nat (lo + 32 + n), 0)"
      unfolding w using hdr_set_same(4)[of "of_nat lo" 0 h] b le t by simp
    ultimately show ?thesis using so t False by (simp add: cut_block_def)
  qed
  then show "tiles ?h' lo (cut_block want n @ bs)" "same_outside lo (lo + 32 + n) h ?h'" by auto
qed

text \<open>The address of the first block of a list, or \<^verbatim>\<open>NULL\<close>.\<close>

abbreviation (input) head_ptr :: "nat \<Rightarrow> 'b list \<Rightarrow> u64" where
  "head_ptr lo bs \<equiv> (if bs = [] then 0 else of_nat lo)"

lemma live_bounds: "(p, n) \<in> live lo bs \<Longrightarrow> lo + 32 \<le> p \<and> p + n \<le> lo + (\<Sum>B \<leftarrow> bs. 32 + fst B)"
  by (induction bs arbitrary: lo) (auto split: if_split_asm, (fastforce+)?)

lemma live_bytes_Cons:
  "live_bytes lo (B # bs) = (if snd B then {} else {lo + 32..<lo + 32 + fst B}) \<union> live_bytes (lo + 32 + fst B) bs"
  by (auto simp: live_bytes_def)

lemma live_bytesI: "(p, n) \<in> live lo bs \<Longrightarrow> i < n \<Longrightarrow> p + i \<in> live_bytes lo bs"
  unfolding live_bytes_def by (intro UN_I[of "(p, n)"]) auto

lemma live_bytes_bounds: "x \<in> live_bytes lo bs \<Longrightarrow> lo + 32 \<le> x"
  using live_bounds by (fastforce simp: live_bytes_def)

lemma first_fit_Nil: "first_fit want lo bs = Some (p, bs') \<Longrightarrow> bs' \<noteq> []"
  by (cases bs) (auto simp: cut_block_def split: if_split_asm)

definition keeps_live :: "nat set \<Rightarrow> kheap \<Rightarrow> kheap \<Rightarrow> bool" where
  "keeps_live X h h' \<longleftrightarrow> (\<forall>x. unat x \<in> X \<longrightarrow> hmem h' x = hmem h x)"

lemma head_fields:
  assumes "tiles h lo (B # bs)" and "0 < lo"
  shows "of_nat lo \<noteq> (0 :: u64)" and "block_size h (of_nat lo) = of_nat (fst B)"
    and "block_magic h (of_nat lo) = HEAP_MAGIC" and "block_next h (of_nat lo) = head_ptr (lo + 32 + fst B) bs"
    and "block_free h (of_nat lo) = (if snd B then 1 else 0)"
  using assms tiles_Cons_le[OF assms(1)] unat_heap_addr[of lo] by (auto simp: hdr_def)

text \<open>A change behind the first block leaves that block as it is.\<close>

lemma tiles_Cons_frame:
  assumes "tiles h lo (B # bs)" and "tiles h' (lo + 32 + fst B) bs'" and "bs' = [] \<longleftrightarrow> bs = []"
    and "same_outside (lo + 32 + fst B) hi h h'"
  shows "tiles h' lo (B # bs')"
proof -
  have "hdr h' (of_nat lo) = hdr h (of_nat lo)"
    using hdr_outside[OF assms(4)] tiles_Cons_le[OF assms(1)] unat_heap_addr[of lo] by simp
  then show ?thesis using assms(1-3) by simp
qed

lemma keeps_live_Cons:
  "same_outside (lo + 32 + fst B) hi h h' \<Longrightarrow> keeps_live (live_bytes (lo + 32 + fst B) bs) h h' \<Longrightarrow>
    keeps_live (live_bytes lo (B # bs)) h h'"
  by (auto simp: keeps_live_def live_bytes_Cons same_outside_def)

lemma kmalloc_loop_spec:
  assumes "tiles h lo bs" and "0 < lo" and "unat w mod 16 = 0"
  shows "case first_fit (unat w) lo bs of
      None \<Rightarrow> kmalloc_loop w (head_ptr lo bs) h = Some (0, h)
    | Some (p, bs') \<Rightarrow> \<exists>h'. kmalloc_loop w (head_ptr lo bs) h = Some (of_nat p, h') \<and> tiles h' lo bs' \<and>
        same_outside lo HEAP_END h h' \<and> keeps_live (live_bytes lo bs) h h'"
  using assms(1,2)
proof (induction bs arbitrary: lo)
  case Nil
  then show ?case by (simp add: kmalloc_loop.simps[of w 0])
next
  case (Cons B bs)
  obtain n fr where B: "B = (n, fr)" by (cases B)
  note hf = head_fields[OF Cons.prems]
  have le: "lo + 32 + n \<le> HEAP_END" using tiles_Cons_le[OF Cons.prems(1)] B by simp
  have cmp: "block_size h (of_nat lo) < w \<longleftrightarrow> n < unat w"
    using hf(2) unat_heap_addr[of n] le by (simp add: B word_less_nat_alt)
  have t: "tiles h (lo + 32 + n) bs" using Cons.prems B by simp
  show ?case
  proof (cases "fr \<and> unat w \<le> n")
    case True
    then have w: "kmalloc_loop w (head_ptr lo (B # bs)) h = Some (of_nat (lo + 32), take_block (of_nat (unat w)) (of_nat lo) h)"
      using hf cmp B by (subst kmalloc_loop.simps) (simp add: payload_of_def)
    have t1: "tiles h lo ((n, True) # bs)" using Cons.prems True B by simp
    note tk = take_block_tiles[OF t1 _ assms(3)]
    have kl: "keeps_live (live_bytes lo (B # bs)) h (take_block (of_nat (unat w)) (of_nat lo) h)"
      using tk(2) True live_bytes_bounds[of _ "lo + 32 + n" bs]
      by (force simp: keeps_live_def live_bytes_Cons B same_outside_def)
    show ?thesis
      using w tk(1) True same_outside_mono[OF tk(2) _ le] kl by (simp add: B)
  next
    case False
    have st: "kmalloc_loop w (head_ptr lo (B # bs)) h = kmalloc_loop w (head_ptr (lo + 32 + n) bs) h"
      using hf cmp B False by (subst kmalloc_loop.simps) auto
    have ff: "first_fit (unat w) lo (B # bs) =
        map_option (\<lambda>(p, bs'). (p, B # bs')) (first_fit (unat w) (lo + 32 + n) bs)"
      using False by (auto simp: B)
    note IH = Cons.IH[OF t]
    show ?thesis
    proof (cases "first_fit (unat w) (lo + 32 + n) bs")
      case None
      then show ?thesis using IH st ff by simp
    next
      case (Some r)
      then obtain p bs' where r: "first_fit (unat w) (lo + 32 + n) bs = Some (p, bs')" by (cases r) auto
      have ne: "bs \<noteq> []" "bs' \<noteq> []" using r first_fit_Nil[OF r] by auto
      obtain h' where h': "kmalloc_loop w (head_ptr (lo + 32 + n) bs) h = Some (of_nat p, h')"
          "tiles h' (lo + 32 + n) bs'" "same_outside (lo + 32 + n) HEAP_END h h'"
          "keeps_live (live_bytes (lo + 32 + n) bs) h h'"
        using IH r by auto
      have "tiles h' lo (B # bs')" "keeps_live (live_bytes lo (B # bs)) h h'"
        using tiles_Cons_frame[OF Cons.prems(1) _ _ , of h' bs'] keeps_live_Cons[of lo B _ h h' bs] h' ne
        by (auto simp: B)
      then show ?thesis using st h'(1) same_outside_mono[OF h'(3), of lo] r ff by simp
    qed
  qed
qed

lemma unat_align_up:
  "unat (align_up sz HEAP_ALIGN) = (unat (sz + 15) div 16) * 16"
proof -
  have m: "(15 :: u64) = mask 4" by (simp add: mask_eq_exp_minus_1)
  have "(sz + 15) AND NOT (mask 4) = push_bit 4 (drop_bit 4 (sz + 15))"
    by (rule bit_eqI) (auto simp: bit_and_iff bit_not_iff bit_mask_iff bit_push_bit_iff bit_drop_bit_eq)
  then have "(sz + 15) AND NOT 15 = push_bit 4 (drop_bit 4 (sz + 15))"
    unfolding m[symmetric] .
  moreover have "unat (push_bit 4 (drop_bit 4 (sz + 15))) = (unat (sz + 15) div 16) * 16"
  proof -
    have lt: "unat (sz + 15) div 16 * 16 < 2 ^ 64"
      using unat_u64[of "sz + 15"] by (rule order.strict_trans1[OF div_times_less_eq_dividend])
    then show ?thesis by (simp add: push_bit_eq_mult drop_bit_eq_div unat_word_ariths unat_div)
  qed
  ultimately show ?thesis by (simp add: align_up_def add.commute[of 15])
qed

lemma align_up_spec:
  assumes "unat sz \<le> 2 ^ 64 - 16"
  shows "unat sz \<le> unat (align_up sz HEAP_ALIGN)" and "unat (align_up sz HEAP_ALIGN) mod 16 = 0"
proof -
  have "unat (sz + 15) = unat sz + 15" using assms unat_plus_nat[of sz 15] by simp
  then have "unat (align_up sz HEAP_ALIGN) = (unat sz + 15) div 16 * 16" using unat_align_up by simp
  then show "unat sz \<le> unat (align_up sz HEAP_ALIGN)" and "unat (align_up sz HEAP_ALIGN) mod 16 = 0"
    by (presburger, simp)
qed

lemma kmalloc_spec:
  assumes wf: "heap_wf h bs" and sz: "0 < unat sz" "unat sz \<le> 2 ^ 64 - 16"
  shows "case first_fit (unat (align_up sz HEAP_ALIGN)) 0x200000 bs of
      None \<Rightarrow> kmalloc sz h = Some (0, h)
    | Some (p, bs') \<Rightarrow> \<exists>h'. kmalloc sz h = Some (of_nat p, h') \<and> heap_wf h' bs' \<and>
        same_outside 0x200000 HEAP_END h h' \<and> keeps_live (live_bytes 0x200000 bs) h h'"
proof -
  have hd: "heap_head h = 0x200000" "bs \<noteq> []" "tiles h 0x200000 bs" using wf by (simp_all add: heap_wf_def)
  have k: "kmalloc sz h = kmalloc_loop (align_up sz HEAP_ALIGN) (head_ptr 0x200000 bs) h"
    using sz hd by (auto simp: kmalloc_def)
  note spec = kmalloc_loop_spec[OF hd(3) _ align_up_spec(2)[OF sz(2)], folded k]
  show ?thesis
  proof (cases "first_fit (unat (align_up sz HEAP_ALIGN)) 0x200000 bs")
    case (Some r)
    obtain p bs' where r: "r = (p, bs')" by (cases r)
    have "bs' \<noteq> []" using first_fit_Nil Some r by blast
    then show ?thesis using spec Some r hd by (auto simp: heap_wf_def same_outside_def)
  qed (use spec in simp)
qed

section \<open>Release\<close>

fun merge :: "nat \<Rightarrow> (nat \<times> bool) list \<Rightarrow> (nat \<times> bool) list" where
  "merge n ((k, True) # bs) = merge (n + 32 + k) bs"
| "merge n bs = (n, True) # bs"

primrec release :: "nat \<Rightarrow> nat \<Rightarrow> (nat \<times> bool) list \<Rightarrow> (nat \<times> bool) list" where
  "release p lo [] = []"
| "release p lo (B # bs) =
     (if lo + 32 = p then (if snd B then B # bs else merge (fst B) bs)
      else B # release p (lo + 32 + fst B) bs)"

lemma coalesce_spec:
  assumes "tiles h lo ((n, True) # bs)" and "0 < lo"
  shows "\<exists>h'. coalesce (of_nat lo) h = Some h' \<and> tiles h' lo (merge n bs) \<and> same_outside lo (lo + 32) h h'"
  using assms
proof (induction bs arbitrary: n h)
  case Nil
  then have "coalesce (of_nat lo) h = Some h"
    using head_fields(4)[OF Nil.prems] by (subst coalesce.simps) simp
  then show ?case using Nil.prems by simp
next
  case (Cons C bs)
  obtain k fr where C: "C = (k, fr)" by (cases C)
  let ?b = "of_nat lo :: u64" and ?c = "of_nat (lo + 32 + n) :: u64"
  have t: "tiles h (lo + 32 + n) (C # bs)" using Cons.prems(1) by simp
  note b = head_fields[OF Cons.prems] and c = head_fields[OF t, simplified]
  have le: "lo + 32 + n + 32 + k \<le> HEAP_END" using tiles_Cons_le[OF t] C by simp
  have ub: "unat ?b = lo" and uc: "unat ?c = lo + 32 + n" using le unat_heap_addr[of lo] unat_heap_addr[of "lo + 32 + n"] by simp_all
  show ?case
  proof (cases fr)
    case False
    then have "coalesce ?b h = Some h"
      using b(4) c C by (subst coalesce.simps) simp
    then show ?thesis using Cons.prems False by (auto simp: C)
  next
    case True
    define h1 where "h1 = set_size ?b (of_nat (n + 32 + k)) h"
    define h2 where "h2 = set_next ?b (head_ptr (lo + 32 + n + 32 + k) bs) h1"
    have ok: "unat ?b + 32 \<le> 2 ^ 64" "unat ?c + 32 \<le> 2 ^ 64" "unat ?c + 32 \<le> unat ?b \<or> unat ?b + 32 \<le> unat ?c"
      using ub uc le by simp_all
    have so: "same_outside lo (lo + 32) h h2"
      unfolding h1_def h2_def by (intro outside_step) (use ub ok in simp_all)
    have hb: "hdr h ?b = (of_nat n, HEAP_MAGIC, ?c, 1)" using Cons.prems(1) by simp
    have "hdr h2 ?b = (of_nat (n + 32 + k), HEAP_MAGIC, head_ptr (lo + 32 + n + 32 + k) bs, 1)"
      unfolding h2_def h1_def by (simp only: hdr_set_same[OF ok(1)] hb fst_conv snd_conv)
    moreover have "tiles h2 (lo + 32 + n + 32 + k) bs"
      using tiles_outside[OF _ so, of "lo + 32 + n + 32 + k" bs] t C by simp
    moreover have "(n + 32 + k) mod 16 = 0"
    proof -
      have "n mod 16 = 0" "k mod 16 = 0" using Cons.prems(1) t C by simp_all
      then show ?thesis by presburger
    qed
    ultimately have "tiles h2 lo ((n + 32 + k, True) # bs)" by (simp add: ac_simps)
    from Cons.IH[OF this Cons.prems(2)] obtain h' where h': "coalesce ?b h2 = Some h'"
        "tiles h' lo (merge (n + 32 + k) bs)" "same_outside lo (lo + 32) h2 h'" by blast
    have "hdr h1 ?c = hdr h ?c" unfolding h1_def by (rule hdr_set_other(1)[OF ok(2,1,3)])
    then have "block_next h1 ?c = head_ptr (lo + 32 + n + 32 + k) bs"
      using t C by (simp add: hdr_def)
    moreover have "block_next h1 ?b = ?c"
      unfolding h1_def fields_same[OF ok(1)] using b(4) by simp
    moreover have cond: "block_next h ?b = ?c" "?c \<noteq> 0" "block_free h ?c \<noteq> 0" "block_magic h ?c = HEAP_MAGIC"
      using b(4) c C True by simp_all
    moreover have "set_size ?b (block_size h ?b + (SIZEOF_BLOCK + block_size h ?c)) h = h1"
      using b(2) c C by (simp add: h1_def add.assoc)
    ultimately have "coalesce ?b h = coalesce ?b h2"
      unfolding coalesce.simps[of ?b h] Let_def cond(1) h2_def by simp
    then show ?thesis
      using h' same_outside_trans[OF so h'(3)] True by (auto simp: C)
  qed
qed

lemma merge_not_Nil [simp]: "merge n bs \<noteq> []"
  by (induction n bs rule: merge.induct) simp_all

lemma release_Nil [simp]: "release p lo bs = [] \<longleftrightarrow> bs = []"
  by (cases bs) auto

lemma release_spec:
  assumes "tiles h lo bs" and "0 < lo" and "(p, k) \<in> live lo bs"
  defines "b \<equiv> of_nat (p - 32) :: u64"
  shows "block_magic h b = HEAP_MAGIC \<and> block_size h b = of_nat k \<and> block_free h b = 0 \<and>
    (\<exists>h'. coalesce b (set_free b 1 h) = Some h' \<and> tiles h' lo (release p lo bs) \<and>
       same_outside lo HEAP_END h h' \<and> keeps_live (live_bytes lo bs) h h')"
  using assms(1-3)
proof (induction bs arbitrary: lo)
  case (Cons B bs)
  obtain n fr where B: "B = (n, fr)" by (cases B)
  have le: "lo + 32 + n \<le> HEAP_END" using tiles_Cons_le[OF Cons.prems(1)] B by simp
  have t: "tiles h (lo + 32 + n) bs" using Cons.prems(1) B by simp
  have ub: "unat (of_nat lo :: u64) = lo" using le unat_heap_addr[of lo] by simp
  show ?case
  proof (cases "p = lo + 32")
    case True
    then have fr: "\<not> fr" "k = n"
      using Cons.prems(3) live_bounds[of p k "lo + 32 + n" bs] B by (auto split: if_split_asm)
    have b: "b = of_nat lo" using True by (simp add: b_def)
    note hf = head_fields[OF Cons.prems(1,2)]
    let ?h = "set_free (of_nat lo) 1 h"
    have so: "same_outside lo (lo + 32) h ?h" by (intro outside_step) (use ub le in simp_all)
    have "tiles ?h lo ((n, True) # bs)"
      using hdr_set_same(4)[of "of_nat lo" 1 h] ub le Cons.prems(1) B fr tiles_outside[OF t so] by simp
    from coalesce_spec[OF this Cons.prems(2)] obtain h' where h': "coalesce b ?h = Some h'"
        "tiles h' lo (merge n bs)" "same_outside lo (lo + 32) ?h h'" unfolding b by blast
    have so': "same_outside lo (lo + 32) h h'" by (rule same_outside_trans[OF so h'(3)])
    then have "keeps_live (live_bytes lo (B # bs)) h h'"
      using live_bytes_bounds[of _ lo "B # bs"] by (fastforce simp: keeps_live_def same_outside_def)
    then show ?thesis
      using hf h' same_outside_mono[OF so', of lo HEAP_END] le True B fr by (auto simp: b)
  next
    case False
    have l: "(p, k) \<in> live (lo + 32 + n) bs" using Cons.prems(3) False B by (auto split: if_split_asm)
    from Cons.IH[OF t _ l] obtain h' where f: "block_magic h b = HEAP_MAGIC" "block_size h b = of_nat k" "block_free h b = 0"
      and h': "coalesce b (set_free b 1 h) = Some h'" "tiles h' (lo + 32 + n) (release p (lo + 32 + n) bs)"
        "same_outside (lo + 32 + n) HEAP_END h h'" "keeps_live (live_bytes (lo + 32 + n) bs) h h'"
      by auto
    have "tiles h' lo (B # release p (lo + 32 + n) bs)"
      by (rule tiles_Cons_frame[OF Cons.prems(1)]) (use h' B in simp_all)
    moreover have "keeps_live (live_bytes lo (B # bs)) h h'"
      by (rule keeps_live_Cons) (use h' B in simp_all)
    ultimately show ?thesis
      using f h' same_outside_mono[OF h'(3), of lo HEAP_END] False by (auto simp: B)
  qed
qed simp

lemma kfree_spec:
  assumes wf: "heap_wf h bs" and p: "(p, k) \<in> live 0x200000 bs"
  shows "\<exists>h'. kfree (of_nat p) h = Some h' \<and> heap_wf h' (release p 0x200000 bs) \<and>
    keeps_live (live_bytes 0x200000 bs) h h'"
proof -
  have t: "heap_head h = 0x200000" "bs \<noteq> []" "tiles h 0x200000 bs" using wf by (simp_all add: heap_wf_def)
  have pb: "0x200000 + 32 \<le> p" "p \<le> HEAP_END"
    using live_bounds[OF p] tiles_end[OF t(3)] by simp_all
  then have "of_nat p \<noteq> (0 :: u64)" using unat_heap_addr[of p] by auto
  moreover have "block_from_payload (of_nat p) = of_nat (p - 32)"
    using pb by (simp add: block_from_payload_def of_nat_diff)
  moreover note release_spec[OF t(3) _ p]
  ultimately show ?thesis
    using t(1,2) by (auto simp: kfree_def Let_def heap_wf_def same_outside_def)
qed

text \<open>A second release of the same block is noticed.\<close>

lemma kfree_free_block:
  assumes "block_free h (block_from_payload ptr) \<noteq> 0"
  shows "kfree ptr h = Some h"
  using assms by (simp add: kfree_def Let_def)

section \<open>The blocks in use\<close>

lemma live_merge: "live lo (merge n bs) = live (lo + 32 + n) bs"
  by (induction n bs rule: merge.induct) (simp_all add: ac_simps)

lemma live_release:
  assumes "(p, k) \<in> live lo bs"
  shows "live lo (release p lo bs) = live lo bs - {(p, k)}"
  using assms
proof (induction bs arbitrary: lo)
  case (Cons B bs)
  have out: "(lo + 32, j) \<notin> live (lo + 32 + fst B) bs" for j
    using live_bounds[of "lo + 32" j "lo + 32 + fst B" bs] by auto
  show ?case
    using Cons out by (auto simp: live_merge split: if_split_asm)
qed simp

lemma first_fit_live:
  assumes "first_fit want lo bs = Some (p, bs')"
  shows "\<exists>n \<ge> want. live lo bs' = insert (p, n) (live lo bs) \<and> (p, n) \<notin> live lo bs"
  using assms
proof (induction bs arbitrary: lo bs')
  case (Cons B bs)
  show ?case
  proof (cases "snd B \<and> want \<le> fst B")
    case True
    have out: "(lo + 32, j) \<notin> live (lo + 32 + fst B) bs" for j
      using live_bounds[of "lo + 32" j "lo + 32 + fst B" bs] by auto
    have "lo + 32 + want + 32 + (fst B - want - 32) = lo + 32 + fst B" if "48 < fst B - want"
      using that True by simp
    then show ?thesis using Cons.prems True out by (auto simp: cut_block_def ac_simps split: if_split_asm)
  next
    case False
    then obtain bs1 where b: "first_fit want (lo + 32 + fst B) bs = Some (p, bs1)" "bs' = B # bs1"
      using Cons.prems by (auto split: if_split_asm)
    from Cons.IH[OF b(1)] obtain n where n: "want \<le> n"
        "live (lo + 32 + fst B) bs1 = insert (p, n) (live (lo + 32 + fst B) bs)"
        "(p, n) \<notin> live (lo + 32 + fst B) bs" by blast
    have "lo + 32 + fst B + 32 \<le> p" using live_bounds[of p n "lo + 32 + fst B" bs1] n by simp
    then show ?thesis using n b by (intro exI[of _ n]) auto
  qed
qed simp

lemma live_separated:
  assumes "(p, n) \<in> live lo bs" and "(q, k) \<in> live lo bs" and "(p, n) \<noteq> (q, k)"
  shows "p + n \<le> q \<or> q + k \<le> p"
  using assms
proof (induction bs arbitrary: lo)
  case (Cons B bs)
  show ?case
    using Cons live_bounds[of p n "lo + 32 + fst B" bs] live_bounds[of q k "lo + 32 + fst B" bs]
    by (auto split: if_split_asm)
qed simp

lemma live_aligned:
  assumes "tiles h lo bs" and "(p, n) \<in> live lo bs" and "lo mod 16 = 0"
  shows "p mod 16 = 0"
  using assms
proof (induction bs arbitrary: lo)
  case (Cons B bs)
  have "fst B mod 16 = 0" using Cons.prems(1) by simp
  then have "(lo + 32) mod 16 = 0" "(lo + 32 + fst B) mod 16 = 0" using Cons.prems(3) by presburger+
  then show ?case using Cons by (auto split: if_split_asm)
qed simp

section \<open>What clients can rely on\<close>

definition heap_owns :: "kheap \<Rightarrow> (nat \<times> nat) set \<Rightarrow> bool" where
  "heap_owns h L \<longleftrightarrow> (\<exists>bs. heap_wf h bs \<and> L = live 0x200000 bs)"

definition heap_byte :: "kheap \<Rightarrow> nat \<Rightarrow> u8" where
  "heap_byte h a = hmem h (of_nat a)"

definition heap_store :: "nat \<Rightarrow> u8 \<Rightarrow> kheap \<Rightarrow> kheap" where
  "heap_store a v h = h\<lparr>hmem := (hmem h)(of_nat a := v)\<rparr>"

lemma tiles_store:
  assumes "tiles h lo bs" and "x \<in> live_bytes lo bs"
  shows "tiles (heap_store x v h) lo bs"
  using assms
proof (induction bs arbitrary: lo)
  case (Cons B bs)
  have le: "lo + 32 + fst B \<le> HEAP_END" using tiles_Cons_le[OF Cons.prems(1)] .
  have x: "lo + 32 \<le> x" "x < 2 ^ 64"
    using live_bytes_bounds[OF Cons.prems(2)] Cons.prems(2) live_bounds[of _ _ lo "B # bs"] tiles_end[OF Cons.prems(1)]
    by (fastforce simp: live_bytes_def)+
  have so: "same_outside x (x + 1) h (heap_store x v h)"
    using unat_of_nat_u64[of x] x by (auto simp: same_outside_def heap_store_def)
  show ?case
  proof (cases "x \<in> live_bytes (lo + 32 + fst B) bs")
    case True
    have "hdr (heap_store x v h) (of_nat lo) = hdr h (of_nat lo)"
      using hdr_outside[OF so] x(1) unat_heap_addr[of lo] le by simp
    then show ?thesis using Cons True by simp
  next
    case False
    then have "x + 1 \<le> lo + 32 + fst B" using Cons.prems(2) by (auto simp: live_bytes_Cons split: if_split_asm)
    moreover have "hdr (heap_store x v h) (of_nat lo) = hdr h (of_nat lo)"
      using hdr_outside[OF so] x(1) unat_heap_addr[of lo] le by simp
    ultimately show ?thesis using tiles_outside[OF _ so, of "lo + 32 + fst B" bs] Cons.prems(1) by simp
  qed
qed simp

lemma heap_wf_store:
  assumes "heap_wf h bs" and "(p, n) \<in> live 0x200000 bs" and "i < n"
  shows "heap_wf (heap_store (p + i) v h) bs"
  using assms tiles_store[of h "0x200000" bs "p + i" v]
    live_bytesI[OF assms(2,3)] by (simp add: heap_wf_def) (simp add: heap_store_def)

lemma keeps_live_byte:
  assumes "keeps_live (live_bytes 0x200000 bs) h h'" and "heap_wf h bs" and "(p, n) \<in> live 0x200000 bs" and "i < n"
  shows "heap_byte h' (p + i) = heap_byte h (p + i)"
proof -
  have "p + n \<le> HEAP_END"
    using live_bounds[OF assms(3)] tiles_end assms(2) unfolding heap_wf_def by fastforce
  then have "unat (of_nat (p + i) :: u64) = p + i" using assms(4) unat_heap_addr[of "p + i"] by simp
  moreover have "p + i \<in> live_bytes 0x200000 bs" using live_bytesI assms(3,4) .
  ultimately show ?thesis using assms(1) unfolding keeps_live_def heap_byte_def by metis
qed

text \<open>
  The contract between the heap and its clients. \<open>owns h L\<close> says that \<open>h\<close> is well formed and that
  the blocks in use are \<open>L\<close>, pairs of a payload address and a size.
\<close>

locale heap_contract =
  fixes owns :: "'h \<Rightarrow> (nat \<times> nat) set \<Rightarrow> bool"
    and byte :: "'h \<Rightarrow> nat \<Rightarrow> u8"
    and alloc :: "u64 \<Rightarrow> 'h \<Rightarrow> (u64 \<times> 'h) option"
    and free :: "u64 \<Rightarrow> 'h \<Rightarrow> 'h option"
    and store :: "nat \<Rightarrow> u8 \<Rightarrow> 'h \<Rightarrow> 'h"
  assumes owns_separated: "owns h L \<Longrightarrow> (p, n) \<in> L \<Longrightarrow> (q, k) \<in> L \<Longrightarrow> (p, n) \<noteq> (q, k) \<Longrightarrow> p + n \<le> q \<or> q + k \<le> p"
    and owns_bounds: "owns h L \<Longrightarrow> (p, n) \<in> L \<Longrightarrow> 0x200000 < p \<and> p + n \<le> HEAP_END \<and> p mod 16 = 0"
    and alloc_ok: "owns h L \<Longrightarrow> 0 < unat sz \<Longrightarrow> unat sz \<le> 2 ^ 64 - 16 \<Longrightarrow>
      alloc sz h = Some (0, h) \<or>
      (\<exists>p n h'. alloc sz h = Some (of_nat p, h') \<and> 0 < p \<and> unat sz \<le> n \<and> (p, n) \<notin> L \<and> owns h' (insert (p, n) L) \<and>
         (\<forall>(q, k) \<in> L. \<forall>i < k. byte h' (q + i) = byte h (q + i)))"
    and free_ok: "owns h L \<Longrightarrow> (p, n) \<in> L \<Longrightarrow>
      \<exists>h'. free (of_nat p) h = Some h' \<and> owns h' (L - {(p, n)}) \<and>
        (\<forall>(q, k) \<in> L. \<forall>i < k. byte h' (q + i) = byte h (q + i))"
    and store_ok: "owns h L \<Longrightarrow> (p, n) \<in> L \<Longrightarrow> i < n \<Longrightarrow> owns (store (p + i) v h) L"
    and byte_store: "a < 2 ^ 64 \<Longrightarrow> b < 2 ^ 64 \<Longrightarrow> byte (store a v h) b = (if a = b then v else byte h b)"

text \<open>Runs of the other clients: they release and write blocks in use, but not the block \<open>mine\<close>.\<close>

inductive heap_run ::
  "('h \<Rightarrow> (nat \<times> nat) set \<Rightarrow> bool) \<Rightarrow> (u64 \<Rightarrow> 'h \<Rightarrow> (u64 \<times> 'h) option) \<Rightarrow> (u64 \<Rightarrow> 'h \<Rightarrow> 'h option) \<Rightarrow>
    (nat \<Rightarrow> u8 \<Rightarrow> 'h \<Rightarrow> 'h) \<Rightarrow> nat \<times> nat \<Rightarrow> 'h \<Rightarrow> (nat \<times> nat) set \<Rightarrow> 'h \<Rightarrow> (nat \<times> nat) set \<Rightarrow> bool"
  for owns alloc free store mine h0 L0
where
  heap_start: "heap_run owns alloc free store mine h0 L0 h0 L0"
| heap_alloc: "heap_run owns alloc free store mine h0 L0 h L \<Longrightarrow> 0 < unat sz \<Longrightarrow> unat sz \<le> 2 ^ 64 - 16 \<Longrightarrow>
    alloc sz h = Some (p, h') \<Longrightarrow> owns h' L' \<Longrightarrow> L \<subseteq> L' \<Longrightarrow> heap_run owns alloc free store mine h0 L0 h' L'"
| heap_free: "heap_run owns alloc free store mine h0 L0 h L \<Longrightarrow> (q, k) \<in> L \<Longrightarrow> (q, k) \<noteq> mine \<Longrightarrow>
    free (of_nat q) h = Some h' \<Longrightarrow> heap_run owns alloc free store mine h0 L0 h' (L - {(q, k)})"
| heap_write: "heap_run owns alloc free store mine h0 L0 h L \<Longrightarrow> (q, k) \<in> L \<Longrightarrow> (q, k) \<noteq> mine \<Longrightarrow> i < k \<Longrightarrow>
    heap_run owns alloc free store mine h0 L0 (store (q + i) v h) L"

context heap_contract
begin

lemma run_keeps_mine:
  assumes "owns h0 L0" and "(p, n) \<in> L0" and "heap_run owns alloc free store (p, n) h0 L0 h L"
  shows "owns h L \<and> (p, n) \<in> L \<and> (\<forall>i < n. byte h (p + i) = byte h0 (p + i))"
  using assms(3)
proof (induction rule: heap_run.induct)
  case heap_start
  then show ?case using assms(1,2) by simp
next
  case (heap_alloc h L sz r h' L')
  then have IH: "owns h L" "(p, n) \<in> L" "\<forall>i < n. byte h (p + i) = byte h0 (p + i)" by auto
  have "\<forall>i < n. byte h' (p + i) = byte h (p + i)"
    using alloc_ok[OF IH(1) heap_alloc(2,3)] heap_alloc(4) IH(2) by fastforce
  then show ?case using IH heap_alloc(5,6) by auto
next
  case (heap_free h L q k h')
  then have IH: "owns h L" "(p, n) \<in> L" "\<forall>i < n. byte h (p + i) = byte h0 (p + i)" by auto
  from free_ok[OF IH(1) heap_free(2)] heap_free(4)
  have "owns h' (L - {(q, k)})" "\<forall>i < n. byte h' (p + i) = byte h (p + i)" using IH(2) by auto
  then show ?case using IH heap_free(3) by auto
next
  case (heap_write h L q k i v)
  then have IH: "owns h L" "(p, n) \<in> L" "\<forall>i < n. byte h (p + i) = byte h0 (p + i)" by auto
  have b: "q + k \<le> HEAP_END" "p + n \<le> HEAP_END" using owns_bounds IH heap_write(2) by blast+
  have "p + n \<le> q \<or> q + k \<le> p" using owns_separated[OF IH(1,2) heap_write(2)] heap_write(3) by blast
  then have "\<forall>j < n. byte (store (q + i) v h) (p + j) = byte h (p + j)"
    using b heap_write(4) by (auto simp: byte_store)
  then show ?case using IH store_ok[OF IH(1) heap_write(2,4)] by simp
qed

end

lemma heap_wf_bounds:
  assumes "heap_wf h bs" and "(p, n) \<in> live 0x200000 bs"
  shows "0x200000 + 32 \<le> p" and "p + n \<le> HEAP_END" and "p mod 16 = 0"
  using assms live_bounds[OF assms(2)] tiles_end[of h "0x200000" bs] live_aligned[of h "0x200000" bs p n]
  by (simp_all add: heap_wf_def)

lemma kmalloc_owns:
  assumes wf: "heap_wf h bs" and sz: "0 < unat sz" "unat sz \<le> 2 ^ 64 - 16"
  shows "kmalloc sz h = Some (0, h) \<or>
    (\<exists>p n h' bs'. kmalloc sz h = Some (of_nat p, h') \<and> 0 < p \<and> unat sz \<le> n \<and>
       (p, n) \<notin> live 0x200000 bs \<and> heap_wf h' bs' \<and> live 0x200000 bs' = insert (p, n) (live 0x200000 bs) \<and>
       keeps_live (live_bytes 0x200000 bs) h h')"
proof (cases "first_fit (unat (align_up sz HEAP_ALIGN)) 0x200000 bs")
  case None
  then show ?thesis using kmalloc_spec[OF assms] by simp
next
  case (Some r)
  obtain p bs' where r: "r = (p, bs')" by (cases r)
  obtain h' where h': "kmalloc sz h = Some (of_nat p, h')" "heap_wf h' bs'"
      "keeps_live (live_bytes 0x200000 bs) h h'"
    using kmalloc_spec[OF assms] Some r by auto
  obtain n where n: "unat (align_up sz HEAP_ALIGN) \<le> n" "live 0x200000 bs' = insert (p, n) (live 0x200000 bs)"
      "(p, n) \<notin> live 0x200000 bs"
    using first_fit_live Some r by blast
  have "0 < p" using heap_wf_bounds(1)[OF h'(2), of p n] n(2) by simp
  then show ?thesis using h' n align_up_spec(1)[OF sz(2)] by (meson order_trans)
qed

interpretation kernel_heap: heap_contract heap_owns heap_byte kmalloc kfree heap_store
proof
  fix h L and p n q k i :: nat and sz :: u64 and v :: u8
  assume o: "heap_owns h L"
  then obtain bs where bs: "heap_wf h bs" "L = live 0x200000 bs" by (auto simp: heap_owns_def)
  { assume "(p, n) \<in> L" "(q, k) \<in> L" "(p, n) \<noteq> (q, k)"
    then show "p + n \<le> q \<or> q + k \<le> p" using live_separated bs(2) by blast }
  { assume "(p, n) \<in> L"
    then show "0x200000 < p \<and> p + n \<le> HEAP_END \<and> p mod 16 = 0"
      using heap_wf_bounds[OF bs(1)] bs(2) by fastforce }
  { assume "0 < unat sz" "unat sz \<le> 2 ^ 64 - 16"
    from kmalloc_owns[OF bs(1) this]
    show "kmalloc sz h = Some (0, h) \<or>
      (\<exists>p n h'. kmalloc sz h = Some (of_nat p, h') \<and> 0 < p \<and> unat sz \<le> n \<and> (p, n) \<notin> L \<and>
         heap_owns h' (insert (p, n) L) \<and> (\<forall>(q, k) \<in> L. \<forall>i < k. heap_byte h' (q + i) = heap_byte h (q + i)))"
    proof
      assume "\<exists>p n h' bs'. kmalloc sz h = Some (of_nat p, h') \<and> 0 < p \<and> unat sz \<le> n \<and>
       (p, n) \<notin> live 0x200000 bs \<and> heap_wf h' bs' \<and> live 0x200000 bs' = insert (p, n) (live 0x200000 bs) \<and>
       keeps_live (live_bytes 0x200000 bs) h h'"
      then obtain p n h' bs' where k: "kmalloc sz h = Some (of_nat p, h')" "0 < p" "unat sz \<le> n" "(p, n) \<notin> L"
          "heap_wf h' bs'" "live 0x200000 bs' = insert (p, n) L" "keeps_live (live_bytes 0x200000 bs) h h'"
        using bs(2) by blast
      have "heap_owns h' (insert (p, n) L)" using k(5,6) by (auto simp: heap_owns_def)
      moreover have "\<forall>(q, k) \<in> L. \<forall>i < k. heap_byte h' (q + i) = heap_byte h (q + i)"
        using keeps_live_byte[OF k(7) bs(1)] bs(2) by blast
      ultimately show ?thesis using k(1-4) by blast
    qed simp }
  { assume p: "(p, n) \<in> L"
    from kfree_spec[OF bs(1) this[unfolded bs(2)]] obtain h' where h': "kfree (of_nat p) h = Some h'"
        "heap_wf h' (release p 0x200000 bs)" "keeps_live (live_bytes 0x200000 bs) h h'" by blast
    have "heap_owns h' (L - {(p, n)})" using h'(2) live_release[OF p[unfolded bs(2)]] bs(2) by (auto simp: heap_owns_def)
    moreover have "\<forall>(q, k) \<in> L. \<forall>i < k. heap_byte h' (q + i) = heap_byte h (q + i)"
      using keeps_live_byte[OF h'(3) bs(1)] bs(2) by blast
    ultimately show "\<exists>h'. kfree (of_nat p) h = Some h' \<and> heap_owns h' (L - {(p, n)}) \<and>
        (\<forall>(q, k) \<in> L. \<forall>i < k. heap_byte h' (q + i) = heap_byte h (q + i))"
      using h'(1) by blast }
  { assume "(p, n) \<in> L" "i < n"
    then show "heap_owns (heap_store (p + i) v h) L"
      using heap_wf_store[OF bs(1)] bs(2) unfolding heap_owns_def by blast }
next
  fix a b :: nat and v h assume "a < 2 ^ 64" "b < 2 ^ 64"
  then show "heap_byte (heap_store a v h) b = (if a = b then v else heap_byte h b)"
    using unat_of_nat_u64[of a] unat_of_nat_u64[of b] by (auto simp: heap_byte_def heap_store_def)
qed

lemma heap_init_wf: "heap_wf (heap_init h) [(0x3FFFE0, True)]"
proof -
  have ok: "unat (0x200000 :: u64) + 32 \<le> 2 ^ 64" by simp
  have "heap_init h = set_free 0x200000 1 (set_next 0x200000 0 (set_magic 0x200000 HEAP_MAGIC
      (set_size 0x200000 0x3FFFE0 (h\<lparr>heap_head := 0x200000\<rparr>))))"
    by (simp add: heap_init_def Let_def heap_head_set)
  then have "hdr (heap_init h) 0x200000 = (0x3FFFE0, HEAP_MAGIC, 0, 1)" "heap_head (heap_init h) = 0x200000"
    by (simp_all add: hdr_set_same[OF ok] heap_head_set)
  then show ?thesis by (simp add: heap_wf_def)
qed


text \<open>
  C14. \<open>kmalloc\<close> always returns and is a first fit: on a well-formed heap it takes the first free
  block that is large enough for the rounded-up size, splitting off the rest when more than 48 bytes
  remain, and returns \<^verbatim>\<open>NULL\<close> without changing anything when there is none.
\<close>
theorem kmalloc_refines_first_fit:
  assumes "heap_wf h bs" and "0 < unat sz" and "unat sz \<le> 2 ^ 64 - 16"
  shows "\<exists>h'. kmalloc sz h =
      Some (case first_fit ((unat sz + 15) div 16 * 16) 0x200000 bs of None \<Rightarrow> 0 | Some (p, _) \<Rightarrow> of_nat p, h') \<and>
    heap_wf h' (case first_fit ((unat sz + 15) div 16 * 16) 0x200000 bs of None \<Rightarrow> bs | Some (_, bs') \<Rightarrow> bs') \<and>
    (first_fit ((unat sz + 15) div 16 * 16) 0x200000 bs = None \<longrightarrow> h' = h)"
proof -
  have "unat (sz + 15) = unat sz + 15" using assms(3) unat_plus_nat[of sz 15] by simp
  then have "unat (align_up sz HEAP_ALIGN) = (unat sz + 15) div 16 * 16" using unat_align_up by simp
  then show ?thesis using kmalloc_spec[OF assms] assms(1) by (auto split: option.splits)
qed

text \<open>Witness of C14: 100 bytes from a fresh heap.\<close>
theorem kmalloc_refines_first_fit_witness:
  "\<exists>h'. kmalloc 100 (heap_init \<lparr>heap_head = 0, hmem = \<lambda>_. 0\<rparr>) = Some (0x200020, h') \<and>
     heap_wf h' [(112, False), (0x3FFF50, True)]"
  using kmalloc_refines_first_fit[OF heap_init_wf, of 100 "\<lparr>heap_head = 0, hmem = \<lambda>_. 0\<rparr>"]
  by (simp add: cut_block_def)


section \<open>Reallocation\<close>

lemma block_fields_live:
  assumes "heap_wf h bs" and "(p, k) \<in> live 0x200000 bs"
  shows "block_from_payload (of_nat p) = of_nat (p - 32)" and "block_magic h (of_nat (p - 32)) = HEAP_MAGIC"
    and "block_size h (of_nat (p - 32)) = of_nat k" and "of_nat p \<noteq> (0 :: u64)"
  using release_spec[of h "0x200000" bs p k] assms heap_wf_bounds[OF assms] unat_heap_addr[of p]
  by (auto simp: heap_wf_def block_from_payload_def of_nat_diff)

lemma copy_loop_spec:
  assumes "heap_wf h bs" and "(p, k) \<in> live 0x200000 bs" and "(q, n) \<in> live 0x200000 bs" and "p \<noteq> q"
    and "k \<le> n" and "i \<le> k"
  shows "\<exists>h'. copy_loop (of_nat (p - 32)) (of_nat p) (of_nat q) (of_nat i) h = Some h' \<and> heap_wf h' bs \<and>
    (\<forall>j < k. i \<le> j \<longrightarrow> heap_byte h' (q + j) = heap_byte h (p + j)) \<and>
    (\<forall>a < 2 ^ 64. a < q + i \<or> q + k \<le> a \<longrightarrow> heap_byte h' a = heap_byte h a)"
  using assms(1,6)
proof (induction "k - i" arbitrary: h i)
  case 0
  note bounds = heap_wf_bounds[OF 0(2) assms(2)]
  have "block_size h (of_nat (p - 32)) = of_nat i" using block_fields_live(3)[OF 0(2) assms(2)] 0 by simp
  then show ?case using 0 by (subst copy_loop.simps) auto
next
  case (Suc d)
  then have i: "i < k" by simp
  have b: "p + k \<le> HEAP_END" "q + n \<le> HEAP_END"
    using heap_wf_bounds(2)[OF Suc(3)] assms(2,3) by blast+
  let ?h = "heap_store (q + i) (heap_byte h (p + i)) h"
  have "(of_nat i :: u64) < of_nat k"
    using i b unat_heap_addr[of i] unat_heap_addr[of k] by (simp add: word_less_nat_alt)
  then have "copy_loop (of_nat (p - 32)) (of_nat p) (of_nat q) (of_nat i) h =
      copy_loop (of_nat (p - 32)) (of_nat p) (of_nat q) (of_nat (Suc i)) ?h"
    using block_fields_live(3)[OF Suc(3) assms(2)]
    by (subst copy_loop.simps) (simp add: heap_store_def heap_byte_def add.commute)
  moreover have wf: "heap_wf ?h bs" by (rule heap_wf_store[OF Suc(3) assms(3)]) (use i assms(5) in simp)
  have "d = k - Suc i" "Suc i \<le> k" using Suc.hyps(2) i by simp_all
  then obtain h' where h': "copy_loop (of_nat (p - 32)) (of_nat p) (of_nat q) (of_nat (Suc i)) ?h = Some h'" "heap_wf h' bs"
      "\<forall>j < k. Suc i \<le> j \<longrightarrow> heap_byte h' (q + j) = heap_byte ?h (p + j)"
      "\<forall>a < 2 ^ 64. a < q + Suc i \<or> q + k \<le> a \<longrightarrow> heap_byte h' a = heap_byte ?h a"
    using Suc.hyps(1)[OF _ wf] by blast
  have st: "heap_byte ?h a = (if q + i = a then heap_byte h (p + i) else heap_byte h a)" if "a < 2 ^ 64" for a
    by (rule kernel_heap.byte_store) (use that b i assms(5) in simp_all)
  have sep: "p + k \<le> q \<or> q + n \<le> p" using live_separated[OF assms(2,3)] assms(4) by blast
  have "heap_byte h' (q + j) = heap_byte h (p + j)" if "j < k" "i \<le> j" for j
  proof (cases "j = i")
    case True
    then show ?thesis using h'(4) st b i assms(5) by simp
  next
    case False
    then have "heap_byte h' (q + j) = heap_byte ?h (p + j)" using h'(3) that by simp
    then show ?thesis using st[of "p + j"] sep that i b assms(5) by auto
  qed
  moreover have "heap_byte h' a = heap_byte h a" if "a < 2 ^ 64" "a < q + i \<or> q + k \<le> a" for a
    using h'(4) that st[OF that(1)] i by auto
  ultimately show ?case using h'(1,2) by auto
qed

lemma live_addr_inj: "(p, n) \<in> live lo bs \<Longrightarrow> (p, m) \<in> live lo bs \<Longrightarrow> n = m"
proof (induction bs arbitrary: lo)
  case (Cons B bs)
  then show ?case
    using live_bounds[of p n "lo + 32 + fst B" bs] live_bounds[of p m "lo + 32 + fst B" bs]
    by (auto split: if_split_asm)
qed simp

text \<open>The three steps of a growing \<open>krealloc\<close>: allocate, copy, release.\<close>

lemma krealloc_move:
  assumes wf: "heap_wf h bs" and p: "(p, k) \<in> live 0x200000 bs" and new: "k < n"
    and wf1: "heap_wf h1 bs1" and l1: "live 0x200000 bs1 = insert (q, n) (live 0x200000 bs)"
    and kl: "keeps_live (live_bytes 0x200000 bs) h h1" and q: "(q, n) \<notin> live 0x200000 bs"
  shows "\<exists>h2 h'. copy_loop (of_nat (p - 32)) (of_nat p) (of_nat q) 0 h1 = Some h2 \<and>
    kfree (of_nat p) h2 = Some h' \<and> heap_owns h' (insert (q, n) (live 0x200000 bs - {(p, k)})) \<and>
    (\<forall>i < k. heap_byte h' (q + i) = heap_byte h (p + i)) \<and>
    (\<forall>(r, m) \<in> live 0x200000 bs. \<forall>i < m. heap_byte h' (r + i) = heap_byte h (r + i))"
proof -
  have in1: "(p, k) \<in> live 0x200000 bs1" "(q, n) \<in> live 0x200000 bs1" using l1 p by simp_all
  have pq: "p \<noteq> q" using live_addr_inj[OF in1(1)] in1(2) new by blast
  from copy_loop_spec[OF wf1 in1 pq, of 0] new obtain h2 where
      h2: "copy_loop (of_nat (p - 32)) (of_nat p) (of_nat q) 0 h1 = Some h2" "heap_wf h2 bs1"
      "\<forall>j < k. heap_byte h2 (q + j) = heap_byte h1 (p + j)"
      "\<forall>a < 2 ^ 64. a < q \<or> q + k \<le> a \<longrightarrow> heap_byte h2 a = heap_byte h1 a" by auto
  from kfree_spec[OF h2(2) in1(1)] obtain h' where h': "kfree (of_nat p) h2 = Some h'"
      "heap_wf h' (release p 0x200000 bs1)" "keeps_live (live_bytes 0x200000 bs1) h2 h'" by blast
  have "live 0x200000 (release p 0x200000 bs1) = insert (q, n) (live 0x200000 bs - {(p, k)})"
    using live_release[OF in1(1)] l1 pq by auto
  then have "heap_owns h' (insert (q, n) (live 0x200000 bs - {(p, k)}))"
    using h'(2) by (auto simp: heap_owns_def)
  moreover have "heap_byte h' (q + i) = heap_byte h (p + i)" if "i < k" for i
    using keeps_live_byte[OF h'(3) h2(2) in1(2), of i] h2(3) keeps_live_byte[OF kl wf p that] that new by simp
  moreover have "heap_byte h' (r + i) = heap_byte h (r + i)" if "(r, m) \<in> live 0x200000 bs" "i < m" for r m i
  proof -
    have r1: "(r, m) \<in> live 0x200000 bs1" "(r, m) \<noteq> (q, n)" using l1 that q by auto
    then have "r + m \<le> q \<or> q + n \<le> r" using live_separated[OF r1(1) in1(2)] by blast
    moreover have "r + m \<le> HEAP_END" using heap_wf_bounds(2)[OF wf that(1)] .
    ultimately have "heap_byte h2 (r + i) = heap_byte h1 (r + i)" using h2(4) that(2) new by auto
    then show ?thesis
      using keeps_live_byte[OF h'(3) h2(2) r1(1) that(2)] keeps_live_byte[OF kl wf that] by simp
  qed
  ultimately show ?thesis using h2(1) h'(1) by blast
qed

text \<open>
  C15. \<open>krealloc\<close> of a block in use always returns. It returns the same block if it is large enough,
  \<^verbatim>\<open>NULL\<close> with nothing changed if there is no room, and otherwise a new block that starts with the
  bytes of the old one, the old block being released. The bytes of every other block are kept.
\<close>
theorem krealloc_moves_contents:
  assumes wf: "heap_wf h bs" and p: "(p, k) \<in> live 0x200000 bs"
    and sz: "0 < unat new_size" "unat new_size \<le> 2 ^ 64 - 16"
  shows "(if unat new_size \<le> k then krealloc (of_nat p) new_size h = Some (of_nat p, h)
    else krealloc (of_nat p) new_size h = Some (0, h) \<or>
      (\<exists>q n h'. krealloc (of_nat p) new_size h = Some (of_nat q, h') \<and> unat new_size \<le> n \<and>
         heap_owns h' (insert (q, n) (live 0x200000 bs - {(p, k)})) \<and>
         (\<forall>i < k. heap_byte h' (q + i) = heap_byte h (p + i)) \<and>
         (\<forall>(r, m) \<in> live 0x200000 bs. \<forall>i < m. heap_byte h' (r + i) = heap_byte h (r + i))))"
proof -
  note f = block_fields_live[OF wf p]
  have k: "unat (of_nat k :: u64) = k" using heap_wf_bounds(2)[OF wf p] unat_heap_addr[of k] by simp
  have nz: "new_size \<noteq> 0" using sz(1) by auto
  have kr: "krealloc (of_nat p) new_size h = (if unat new_size \<le> k then Some (of_nat p, h)
      else do { (fresh, h) \<leftarrow> kmalloc new_size h;
                if fresh = 0 then Some (0, h)
                else do { h \<leftarrow> copy_loop (of_nat (p - 32)) (of_nat p) fresh 0 h;
                          h \<leftarrow> kfree (of_nat p) h; Some (fresh, h) } })"
    using f nz k by (simp add: krealloc_def Let_def word_le_nat_alt)
  show ?thesis
  proof (cases "unat new_size \<le> k")
    case False
    from kmalloc_owns[OF wf sz] show ?thesis
    proof (elim disjE exE conjE)
      fix q n h1 bs1
      assume a: "kmalloc new_size h = Some (of_nat q, h1)" "0 < q" "unat new_size \<le> n"
        "(q, n) \<notin> live 0x200000 bs" "heap_wf h1 bs1" "live 0x200000 bs1 = insert (q, n) (live 0x200000 bs)"
        "keeps_live (live_bytes 0x200000 bs) h h1"
      have "of_nat q \<noteq> (0 :: u64)" using block_fields_live(4)[OF a(5)] a(6) by blast
      moreover have "k < n" using False a(3) by simp
      from krealloc_move[OF wf p this a(5,6,7,4)] obtain h2 h' where
        "copy_loop (of_nat (p - 32)) (of_nat p) (of_nat q) 0 h1 = Some h2" "kfree (of_nat p) h2 = Some h'"
        "heap_owns h' (insert (q, n) (live 0x200000 bs - {(p, k)}))"
        "\<forall>i < k. heap_byte h' (q + i) = heap_byte h (p + i)"
        "\<forall>(r, m) \<in> live 0x200000 bs. \<forall>i < m. heap_byte h' (r + i) = heap_byte h (r + i)"
        by blast
      ultimately show ?thesis using kr False a(1,3) by auto
    qed (use kr False in simp)
  qed (use kr in simp)
qed

text \<open>Witness of C15: a block of 100 bytes grows to 200 bytes.\<close>
theorem krealloc_moves_contents_witness:
  "\<exists>h0 q h'. kmalloc 100 (heap_init \<lparr>heap_head = 0, hmem = \<lambda>_. 0\<rparr>) = Some (0x200020, h0) \<and>
     krealloc 0x200020 200 h0 = Some (q, h') \<and>
     (q \<noteq> 0 \<longrightarrow> (\<exists>r. q = of_nat r \<and> heap_byte h' (r + 5) = heap_byte h0 0x200025))"
proof -
  obtain h0 where h0: "kmalloc 100 (heap_init \<lparr>heap_head = 0, hmem = \<lambda>_. 0\<rparr>) = Some (0x200020, h0)"
      "heap_wf h0 [(112, False), (0x3FFF50, True)]"
    using kmalloc_spec[OF heap_init_wf, of 100 "\<lparr>heap_head = 0, hmem = \<lambda>_. 0\<rparr>"]
    by (auto simp: unat_align_up cut_block_def)
  have "(0x200020, 112) \<in> live 0x200000 [(112, False), (0x3FFF50, True)]" by simp
  from krealloc_moves_contents[OF h0(2) this, of 200]
  consider "krealloc 0x200020 200 h0 = Some (0, h0)"
    | q h' where "krealloc 0x200020 200 h0 = Some (of_nat q, h')"
        "\<forall>i < 112. heap_byte h' (q + i) = heap_byte h0 (0x200020 + i)" by auto
  then show ?thesis
  proof cases
    case (2 q h')
    then show ?thesis using h0(1) 2(2)[rule_format, of 5] by auto
  qed (use h0(1) in auto)
qed

section \<open>Statistics\<close>

definition used_total :: "(nat \<times> bool) list \<Rightarrow> nat" where
  "used_total bs = (\<Sum>B \<leftarrow> bs. if snd B then 0 else fst B)"

definition free_total :: "(nat \<times> bool) list \<Rightarrow> nat" where
  "free_total bs = (\<Sum>B \<leftarrow> bs. if snd B then fst B else 0)"

definition largest_free :: "(nat \<times> bool) list \<Rightarrow> nat" where
  "largest_free bs = Max (insert 0 (fst ` {C \<in> set bs. snd C}))"

lemma largest_Cons: "largest_free (B # bs) = (if snd B then max (fst B) (largest_free bs) else largest_free bs)"
proof -
  have "insert 0 (fst ` {C \<in> set (B # bs). snd C}) =
      (if snd B then insert (fst B) (insert 0 (fst ` {C \<in> set bs. snd C})) else insert 0 (fst ` {C \<in> set bs. snd C}))"
    by (auto simp: image_iff)
  then show ?thesis by (simp add: largest_free_def)
qed

lemma totals: "used_total bs + free_total bs + 32 * length bs = (\<Sum>B \<leftarrow> bs. 32 + fst B)"
  by (induction bs) (auto simp: used_total_def free_total_def)

lemma stats_loop_spec:
  assumes "tiles h lo bs" and "0 < lo" and "m \<le> HEAP_END"
  shows "stats_loop h (head_ptr lo bs) u f (of_nat m) =
    Some (u + of_nat (used_total bs), f + of_nat (free_total bs), of_nat (max m (largest_free bs)))"
  using assms
proof (induction bs arbitrary: lo u f m)
  case Nil
  then show ?case
    by (simp add: stats_loop.simps[of h 0] used_total_def free_total_def largest_free_def)
next
  case (Cons B bs)
  note hf = head_fields[OF Cons.prems(1,2)]
  have le: "lo + 32 + fst B \<le> HEAP_END" using tiles_Cons_le[OF Cons.prems(1)] .
  have t: "tiles h (lo + 32 + fst B) bs" using Cons.prems(1) by simp
  have cmp: "(of_nat m :: u64) < of_nat (fst B) \<longleftrightarrow> m < fst B"
    using unat_heap_addr[of m] unat_heap_addr[of "fst B"] le Cons.prems(3) by (simp add: word_less_nat_alt)
  have IH: "stats_loop h (head_ptr (lo + 32 + fst B) bs) u f (of_nat m) =
      Some (u + of_nat (used_total bs), f + of_nat (free_total bs), of_nat (max m (largest_free bs)))"
    if "m \<le> HEAP_END" for u f m
    using Cons.IH[OF t _ that] by simp
  show ?case
  proof (cases "snd B")
    case True
    have "stats_loop h (of_nat lo) u f (of_nat m) =
        stats_loop h (head_ptr (lo + 32 + fst B) bs) u (f + of_nat (fst B)) (of_nat (max m (fst B)))"
      using hf True cmp by (subst stats_loop.simps) (simp add: max_def)
    also have "\<dots> = Some (u + of_nat (used_total (B # bs)), f + of_nat (free_total (B # bs)),
        of_nat (max m (largest_free (B # bs))))"
      using IH[of "max m (fst B)"] Cons.prems(3) le True
      by (simp add: used_total_def free_total_def largest_Cons ac_simps)
    finally show ?thesis by simp
  next
    case False
    have "stats_loop h (of_nat lo) u f (of_nat m) =
        stats_loop h (head_ptr (lo + 32 + fst B) bs) (u + of_nat (fst B)) f (of_nat m)"
      using hf False by (subst stats_loop.simps) simp
    then show ?thesis
      using IH[of m] Cons.prems(3) False by (simp add: used_total_def free_total_def largest_Cons ac_simps)
  qed
qed

lemma largest_le: "largest_free bs \<le> free_total bs"
  by (induction bs) (auto simp: largest_Cons largest_free_def[of "[]"] free_total_def)

text \<open>
  \<open>heap_stats\<close> always returns and is exact: the bytes in use, the bytes free and the largest
  free block of the heap. Together with the 32-byte headers the first two fill the heap window.
\<close>
theorem heap_stats_exact:
  assumes "heap_wf h bs"
  shows "\<exists>u f l. heap_stats h = Some (u, f, l) \<and> unat u = used_total bs \<and> unat f = free_total bs \<and>
    unat l = largest_free bs \<and> unat u + unat f + 32 * length bs = 0x400000"
proof -
  have t: "tiles h 0x200000 bs" "heap_head h = head_ptr 0x200000 bs" using assms by (simp_all add: heap_wf_def)
  have "heap_stats h = Some (of_nat (used_total bs), of_nat (free_total bs), of_nat (largest_free bs))"
    using stats_loop_spec[OF t(1), of 0 0 0] t(2) by (simp add: heap_stats_def)
  moreover have "used_total bs + free_total bs + 32 * length bs = 0x400000"
    using totals[of bs] tiles_end[OF t(1)] by simp
  ultimately show ?thesis
    using unat_heap_addr[of "used_total bs"] unat_heap_addr[of "free_total bs"]
      unat_heap_addr[of "largest_free bs"] largest_le[of bs] by simp
qed

text \<open>An instance of this: the heap after \<open>heap_init\<close>.\<close>
theorem heap_stats_exact_witness:
  "\<exists>u f l. heap_stats (heap_init \<lparr>heap_head = 0, hmem = \<lambda>_. 0\<rparr>) = Some (u, f, l) \<and>
     unat u = 0 \<and> unat f = 0x3FFFE0 \<and> unat l = 0x3FFFE0"
  using heap_stats_exact[OF heap_init_wf, of "\<lparr>heap_head = 0, hmem = \<lambda>_. 0\<rparr>"]
  by (auto simp: used_total_def free_total_def largest_Cons largest_free_def[of "[]"])

text \<open>
  The size is rounded up without an overflow check: for a request within 15 bytes of \<open>2 ^ 64\<close>
  the rounded size is 0, and \<open>kmalloc\<close> hands out a block of size 0 instead of failing.
\<close>
theorem kmalloc_overflow:
  assumes "2 ^ 64 - 16 < unat sz"
  shows "align_up sz HEAP_ALIGN = 0 \<and>
    (\<exists>h'. kmalloc sz (heap_init h) = Some (0x200020, h') \<and> heap_wf h' [(0, False), (0x3FFFC0, True)])"
proof -
  have "unat (sz + 15) = unat sz + 15 - 2 ^ 64"
    using assms unat_u64[of sz] by (simp add: unat_word_ariths mod_if)
  then have "unat (sz + 15) < 16" using assms unat_u64[of sz] by simp
  then have z: "unat (align_up sz HEAP_ALIGN) = 0" using unat_align_up[of sz] by simp
  then have z': "align_up sz HEAP_ALIGN = 0" by (simp add: unat_eq_zero)
  have t: "tiles (heap_init h) 0x200000 [(0x3FFFE0, True)]" "heap_head (heap_init h) = 0x200000"
    using heap_init_wf[of h] by (simp_all add: heap_wf_def)
  have "sz \<noteq> 0" using assms by auto
  then have "kmalloc sz (heap_init h) = kmalloc_loop 0 0x200000 (heap_init h)" using t z' by (simp add: kmalloc_def)
  then show ?thesis
    using kmalloc_loop_spec[OF t(1), of 0] z' t(2) by (auto simp: cut_block_def heap_wf_def same_outside_def)
qed

text \<open>An instance: a request for the largest size.\<close>
theorem kmalloc_overflow_witness:
  "align_up 0xFFFFFFFFFFFFFFFF HEAP_ALIGN = 0 \<and>
   (\<exists>h'. kmalloc 0xFFFFFFFFFFFFFFFF (heap_init \<lparr>heap_head = 0, hmem = \<lambda>_. 0\<rparr>) = Some (0x200020, h'))"
  using kmalloc_overflow[of "0xFFFFFFFFFFFFFFFF" "\<lparr>heap_head = 0, hmem = \<lambda>_. 0\<rparr>"] by auto

end
