(* ===== verification/Pcb.thy ===== *)
theory Pcb
  imports Ares_Prelude "HOL-Library.Monad_Syntax"
begin

unbundle bit_operations_syntax

text \<open>
  The table of process control blocks, \<^verbatim>\<open>process/pcb.h\<close> and \<^verbatim>\<open>process/pcb.c\<close>. A \<^verbatim>\<open>pcb_t *\<close> is the index
  of its slot in \<^verbatim>\<open>pcb_table\<close>, \<^verbatim>\<open>NULL\<close> is \<open>None\<close>. The free slots are the set bits of
  \<^verbatim>\<open>slot_free_map\<close>; the theory shows that allocation takes the lowest free slot and that allocating
  and releasing keep the map and the states of the slots in step.
\<close>

abbreviation (input) MAX_PROCESSES :: nat where "MAX_PROCESSES \<equiv> 64"
abbreviation (input) PROCESS_NAME_MAX :: nat where "PROCESS_NAME_MAX \<equiv> 24"
abbreviation (input) STACK_SIZE :: u64 where "STACK_SIZE \<equiv> 4096"

datatype process_state =
  PROCESS_EMBRYO | PROCESS_READY | PROCESS_RUNNING | PROCESS_BLOCKED | PROCESS_TERMINATED

abbreviation (input) PRIORITY_LOW :: u32 where "PRIORITY_LOW \<equiv> 0"
abbreviation (input) PRIORITY_NORMAL :: u32 where "PRIORITY_NORMAL \<equiv> 1"
abbreviation (input) PRIORITY_HIGH :: u32 where "PRIORITY_HIGH \<equiv> 2"
abbreviation (input) PRIORITY_REALTIME :: u32 where "PRIORITY_REALTIME \<equiv> 3"

record pcb =
  pid :: u32
  state :: process_state
  pname :: string
  priority :: u32
  rsp :: u64
  rip :: u64
  rflags :: u64
  cr3 :: u64
  stack_base :: u64
  time_created :: u32
  total_ticks :: u32
  wake_tick :: u32
  "next" :: "nat option"

record ptab =
  pcb_table :: "nat \<Rightarrow> pcb"
  slot_free_map :: u64

definition upd_pcb :: "nat \<Rightarrow> (pcb \<Rightarrow> pcb) \<Rightarrow> 'a ptab_scheme \<Rightarrow> 'a ptab_scheme" where
  "upd_pcb p f s = s\<lparr>pcb_table := (pcb_table s)(p := f (pcb_table s p))\<rparr>"

definition process_state_str :: "process_state \<Rightarrow> string" where
  "process_state_str s = (case s of PROCESS_EMBRYO \<Rightarrow> ''EMBRYO'' | PROCESS_READY \<Rightarrow> ''READY''
     | PROCESS_RUNNING \<Rightarrow> ''RUNNING'' | PROCESS_BLOCKED \<Rightarrow> ''BLOCKED'' | PROCESS_TERMINATED \<Rightarrow> ''TERM'')"

definition process_priority_str :: "u32 \<Rightarrow> string" where
  "process_priority_str p = (if p = PRIORITY_LOW then ''LOW'' else if p = PRIORITY_NORMAL then ''NORMAL''
     else if p = PRIORITY_HIGH then ''HIGH'' else if p = PRIORITY_REALTIME then ''RT'' else ''?'')"

definition pcb_init_table :: "'a ptab_scheme \<Rightarrow> 'a ptab_scheme" where
  "pcb_init_table s =
     (let s = s\<lparr>slot_free_map := NOT 0\<rparr>
      in fold (\<lambda>i. upd_pcb i (\<lambda>p. p\<lparr>pid := 0, state := PROCESS_TERMINATED, next := None\<rparr>))
           [0..<MAX_PROCESSES] s)"

definition find_free_slot :: "'a ptab_scheme \<Rightarrow> u64 option option" where
  "find_free_slot s =
     (if slot_free_map s = 0 then Some None
      else map_option Some (lowest_set_bit (slot_free_map s) 0))"

definition mark_slot_used :: "nat \<Rightarrow> 'a ptab_scheme \<Rightarrow> 'a ptab_scheme" where
  "mark_slot_used idx s = s\<lparr>slot_free_map := slot_free_map s AND NOT (push_bit idx 1)\<rparr>"

definition mark_slot_free :: "nat \<Rightarrow> 'a ptab_scheme \<Rightarrow> 'a ptab_scheme" where
  "mark_slot_free idx s = s\<lparr>slot_free_map := slot_free_map s OR push_bit idx 1\<rparr>"

text \<open>\<open>stacks\<close> is the address of \<^verbatim>\<open>process_stacks\<close>, which the linker chooses.\<close>

definition pcb_alloc :: "u64 \<Rightarrow> 'a ptab_scheme \<Rightarrow> (nat option \<times> 'a ptab_scheme) option" where
  "pcb_alloc stacks s = do {
     r \<leftarrow> find_free_slot s;
     (case r of None \<Rightarrow> Some (None, s)
      | Some i \<Rightarrow>
          let idx = unat i; s = mark_slot_used idx s
          in Some (Some idx, upd_pcb idx (\<lambda>p. p\<lparr>pid := 0, state := PROCESS_EMBRYO,
               priority := PRIORITY_NORMAL, rsp := 0, rip := 0, rflags := 0, cr3 := 0,
               stack_base := stacks + of_nat idx * STACK_SIZE + STACK_SIZE, time_created := 0,
               total_ticks := 0, wake_tick := 0, next := None\<rparr>) s)) }"

definition pcb_free :: "nat option \<Rightarrow> 'a ptab_scheme \<Rightarrow> 'a ptab_scheme" where
  "pcb_free pcb s =
     (case pcb of None \<Rightarrow> s
      | Some idx \<Rightarrow>
          if idx \<ge> MAX_PROCESSES then s
          else mark_slot_free idx (upd_pcb idx (\<lambda>p. p\<lparr>state := PROCESS_TERMINATED\<rparr>) s))"

definition is_active :: "pcb \<Rightarrow> bool" where
  "is_active p \<longleftrightarrow> state p \<noteq> PROCESS_EMBRYO \<and> state p \<noteq> PROCESS_TERMINATED"

definition pcb_by_pid :: "u32 \<Rightarrow> 'a ptab_scheme \<Rightarrow> nat option" where
  "pcb_by_pid n s =
     find (\<lambda>i. pid (pcb_table s i) = n \<and> is_active (pcb_table s i)) [0..<MAX_PROCESSES]"

definition pcb_enum_active :: "nat \<Rightarrow> 'a ptab_scheme \<Rightarrow> nat list" where
  "pcb_enum_active max_n s =
     take max_n (filter (\<lambda>i. is_active (pcb_table s i)) [0..<MAX_PROCESSES])"

text \<open>The zero-initialised static storage the kernel starts with.\<close>

definition blank_pcb :: pcb where
  "blank_pcb = \<lparr>pid = 0, state = PROCESS_EMBRYO, pname = [], priority = 0, rsp = 0, rip = 0, rflags = 0,
     cr3 = 0, stack_base = 0, time_created = 0, total_ticks = 0, wake_tick = 0, next = None\<rparr>"

definition blank_ptab :: ptab where
  "blank_ptab = \<lparr>pcb_table = (\<lambda>_. blank_pcb), slot_free_map = 0\<rparr>"

section \<open>Slots\<close>

definition free_slots :: "'a ptab_scheme \<Rightarrow> nat set" where
  "free_slots s = {i. bit (slot_free_map s) i}"

text \<open>A slot is free exactly if its process has terminated.\<close>

definition pcb_inv :: "'a ptab_scheme \<Rightarrow> bool" where
  "pcb_inv s \<longleftrightarrow> (\<forall>i < MAX_PROCESSES. bit (slot_free_map s) i \<longleftrightarrow> state (pcb_table s i) = PROCESS_TERMINATED)"

lemma free_slots_bound: "i \<in> free_slots s \<Longrightarrow> i < MAX_PROCESSES"
  using bit_imp_le_length[of "slot_free_map s" i] by (simp add: free_slots_def)

lemma finite_free_slots [simp]: "finite (free_slots s)"
  by (rule finite_subset[of _ "{..<MAX_PROCESSES}"]) (auto dest: free_slots_bound)

lemma free_slots_empty: "free_slots s = {} \<longleftrightarrow> slot_free_map s = 0"
  using word_neq_0_bit[of "slot_free_map s"] by (auto simp: free_slots_def)

lemma upd_pcb_frame [simp]:
  "slot_free_map (upd_pcb p f s) = slot_free_map s" "pcb_table (upd_pcb p f s) = (pcb_table s)(p := f (pcb_table s p))"
  "more (upd_pcb p f s) = more s"
  by (simp_all add: upd_pcb_def)

lemma mark_slot_frame [simp]:
  "pcb_table (mark_slot_used i s) = pcb_table s" "pcb_table (mark_slot_free i s) = pcb_table s"
  "more (mark_slot_used i s) = more s" "more (mark_slot_free i s) = more s"
  by (simp_all add: mark_slot_used_def mark_slot_free_def)

lemma bit_mark_slot:
  "bit (slot_free_map (mark_slot_used i s)) j \<longleftrightarrow> bit (slot_free_map s) j \<and> j \<noteq> i"
  "i < 64 \<Longrightarrow> bit (slot_free_map (mark_slot_free i s)) j \<longleftrightarrow> bit (slot_free_map s) j \<or> j = i"
  using bit_imp_le_length[of "slot_free_map s" j]
  by (auto simp: mark_slot_used_def mark_slot_free_def bit_and_iff bit_or_iff bit_not_iff bit_push_bit_iff bit_1_iff
      bit_exp_iff)

lemma find_free_slot_spec:
  "find_free_slot s = Some (if free_slots s = {} then None else Some (of_nat (Min (free_slots s))))"
proof (cases "slot_free_map s = 0")
  case True
  then show ?thesis using free_slots_empty[of s] by (simp add: find_free_slot_def)
next
  case False
  obtain k where k: "lowest_set_bit (slot_free_map s) 0 = Some (0 + of_nat k)" "bit (slot_free_map s) k"
      "\<And>j. j < k \<Longrightarrow> \<not> bit (slot_free_map s) j"
    using lowest_set_bit_Some[OF False, of 0] by metis
  then have "Min (free_slots s) = k"
    by (intro Min_eqI) (auto simp: free_slots_def not_less[symmetric] finite_free_slots[unfolded free_slots_def])
  then show ?thesis using False k free_slots_empty[of s] by (simp add: find_free_slot_def)
qed

lemma pcb_alloc_full: "free_slots s = {} \<Longrightarrow> pcb_alloc stacks s = Some (None, s)"
  by (simp add: pcb_alloc_def find_free_slot_spec)

lemma pcb_alloc_spec:
  assumes "free_slots s \<noteq> {}"
  defines "i \<equiv> Min (free_slots s)"
  obtains s' where "pcb_alloc stacks s = Some (Some i, s')" and "i \<in> free_slots s"
    and "free_slots s' = free_slots s - {i}" and "\<And>j. j \<noteq> i \<Longrightarrow> pcb_table s' j = pcb_table s j"
    and "state (pcb_table s' i) = PROCESS_EMBRYO" and "pid (pcb_table s' i) = 0"
    and "stack_base (pcb_table s' i) = stacks + of_nat i * STACK_SIZE + STACK_SIZE"
    and "next (pcb_table s' i) = None" and "more s' = more s"
proof -
  have i: "i \<in> free_slots s" unfolding i_def using assms by (intro Min_in) simp_all
  have u: "unat (of_nat i :: u64) = i" using free_slots_bound[OF i] by (intro unat_less_of_nat) simp
  show thesis
    by (rule that[of "upd_pcb i (\<lambda>p. p\<lparr>pid := 0, state := PROCESS_EMBRYO,
               priority := PRIORITY_NORMAL, rsp := 0, rip := 0, rflags := 0, cr3 := 0,
               stack_base := stacks + of_nat i * STACK_SIZE + STACK_SIZE, time_created := 0,
               total_ticks := 0, wake_tick := 0, next := None\<rparr>) (mark_slot_used i s)"])
      (use i u assms in \<open>auto simp: pcb_alloc_def find_free_slot_spec i_def Let_def free_slots_def bit_mark_slot\<close>)
qed

lemma pcb_free_spec:
  assumes "i < MAX_PROCESSES"
  shows "free_slots (pcb_free (Some i) s) = insert i (free_slots s)"
    and "pcb_table (pcb_free (Some i) s) = (pcb_table s)(i := (pcb_table s i)\<lparr>state := PROCESS_TERMINATED\<rparr>)"
    and "more (pcb_free (Some i) s) = more s"
  using assms by (auto simp: pcb_free_def free_slots_def bit_mark_slot)

lemma pcb_inv_alloc:
  assumes "pcb_inv s" and "pcb_alloc stacks s = Some (Some i, s')"
  shows "pcb_inv s'"
proof -
  have ne: "free_slots s \<noteq> {}" using assms(2) pcb_alloc_full[of s stacks] by auto
  obtain s'' where a: "pcb_alloc stacks s = Some (Some (Min (free_slots s)), s'')"
      "free_slots s'' = free_slots s - {Min (free_slots s)}"
      "\<And>j. j \<noteq> Min (free_slots s) \<Longrightarrow> pcb_table s'' j = pcb_table s j"
      "state (pcb_table s'' (Min (free_slots s))) = PROCESS_EMBRYO"
    by (rule pcb_alloc_spec[OF ne, of stacks]) blast
  have s': "s' = s''" "i = Min (free_slots s)" using a(1) assms(2) by auto
  have "j \<in> free_slots s' \<longleftrightarrow> state (pcb_table s' j) = PROCESS_TERMINATED" if "j < MAX_PROCESSES" for j
  proof (cases "j = i")
    case True
    then show ?thesis using a(2,4) s' by simp
  next
    case False
    then show ?thesis using a(2,3) s' assms(1) that by (simp add: pcb_inv_def free_slots_def)
  qed
  then show ?thesis by (simp add: pcb_inv_def free_slots_def)
qed

lemma pcb_inv_free: "pcb_inv s \<Longrightarrow> pcb_inv (pcb_free p s)"
  by (cases p) (auto simp: pcb_free_def pcb_inv_def bit_mark_slot)

lemma pcb_init_table_eq:
  "pcb_init_table s = s\<lparr>slot_free_map := NOT 0, pcb_table := (\<lambda>i. if i < MAX_PROCESSES
     then (pcb_table s i)\<lparr>pid := 0, state := PROCESS_TERMINATED, next := None\<rparr> else pcb_table s i)\<rparr>"
proof -
  have upto: "(\<lambda>i. if i < n then f (g i) else g i)(n := f (g n)) = (\<lambda>i. if i < Suc n then f (g i) else g i)"
    for f g and n :: nat
    by (rule ext) auto
  have "fold (\<lambda>i. upd_pcb i f) [0..<n] t = t\<lparr>pcb_table := (\<lambda>i. if i < n then f (pcb_table t i) else pcb_table t i)\<rparr>"
    for f n and t :: "'a ptab_scheme"
    by (induction n) (simp_all add: upd_pcb_def upto)
  then show ?thesis by (simp add: pcb_init_table_def Let_def cong: if_cong)
qed

lemma pcb_inv_init: "pcb_inv (pcb_init_table s)" "free_slots (pcb_init_table s) = {..<MAX_PROCESSES}"
  by (auto simp: pcb_init_table_eq pcb_inv_def free_slots_def)

text \<open>
  The process table hands out slots correctly. \<open>pcb_alloc\<close> always returns; it takes the lowest
  slot whose process has terminated, resets it, leaves every other slot alone and fails only when
  all 64 slots are taken. Freeing the slot again restores the set of free slots.
\<close>
theorem pcb_alloc_lowest_free:
  assumes inv: "pcb_inv s"
  shows "\<exists>r s'. pcb_alloc stacks s = Some (r, s') \<and> pcb_inv s' \<and>
    (case r of
       None \<Rightarrow> s' = s \<and> (\<forall>i < MAX_PROCESSES. state (pcb_table s i) \<noteq> PROCESS_TERMINATED)
     | Some i \<Rightarrow> i < MAX_PROCESSES \<and> state (pcb_table s i) = PROCESS_TERMINATED \<and>
         (\<forall>j < i. state (pcb_table s j) \<noteq> PROCESS_TERMINATED) \<and>
         state (pcb_table s' i) = PROCESS_EMBRYO \<and> (\<forall>j. j \<noteq> i \<longrightarrow> pcb_table s' j = pcb_table s j) \<and>
         free_slots (pcb_free (Some i) s') = free_slots s)"
proof (cases "free_slots s = {}")
  case True
  then show ?thesis using inv pcb_alloc_full[of s stacks] by (auto simp: pcb_inv_def free_slots_def)
next
  case False
  let ?i = "Min (free_slots s)"
  obtain s' where a: "pcb_alloc stacks s = Some (Some ?i, s')" "?i \<in> free_slots s"
      "free_slots s' = free_slots s - {?i}" "\<And>j. j \<noteq> ?i \<Longrightarrow> pcb_table s' j = pcb_table s j"
      "state (pcb_table s' ?i) = PROCESS_EMBRYO"
    by (rule pcb_alloc_spec[OF False, of stacks]) blast
  have i: "?i < MAX_PROCESSES" by (rule free_slots_bound[OF a(2)])
  have "state (pcb_table s j) \<noteq> PROCESS_TERMINATED" if "j < ?i" for j
  proof -
    have "j \<notin> free_slots s" using that Min_le[OF finite_free_slots[of s], of j] by (meson not_le)
    then show ?thesis using inv that i by (simp add: pcb_inv_def free_slots_def)
  qed
  moreover have "state (pcb_table s ?i) = PROCESS_TERMINATED"
    using a(2) i inv by (simp add: pcb_inv_def free_slots_def)
  moreover have "free_slots (pcb_free (Some ?i) s') = free_slots s"
    using pcb_free_spec(1)[OF i, of s'] a(2,3) by auto
  ultimately show ?thesis using a i pcb_inv_alloc[OF inv a(1)] by auto
qed

text \<open>An instance of this: the table after \<open>pcb_init_table\<close>.\<close>
theorem pcb_alloc_lowest_free_witness:
  "\<exists>s'. pcb_alloc 0x8000 (pcb_init_table blank_ptab) = Some (Some 0, s') \<and> state (pcb_table s' 0) = PROCESS_EMBRYO"
proof -
  let ?s = "pcb_init_table blank_ptab"
  have t: "state (pcb_table ?s 0) = PROCESS_TERMINATED" by (simp add: pcb_init_table_eq)
  from pcb_alloc_lowest_free[OF pcb_inv_init(1), of "0x8000" blank_ptab]
  obtain r s' where r: "pcb_alloc 0x8000 ?s = Some (r, s')"
    "case r of
       None \<Rightarrow> s' = ?s \<and> (\<forall>i < MAX_PROCESSES. state (pcb_table ?s i) \<noteq> PROCESS_TERMINATED)
     | Some i \<Rightarrow> i < MAX_PROCESSES \<and> state (pcb_table ?s i) = PROCESS_TERMINATED \<and>
         (\<forall>j < i. state (pcb_table ?s j) \<noteq> PROCESS_TERMINATED) \<and>
         state (pcb_table s' i) = PROCESS_EMBRYO \<and> (\<forall>j. j \<noteq> i \<longrightarrow> pcb_table s' j = pcb_table ?s j) \<and>
         free_slots (pcb_free (Some i) s') = free_slots ?s" by blast
  then show ?thesis using t by (cases r) (auto split: option.splits)
qed

end
