(* ===== verification/Pqueue.thy ===== *)
theory Pqueue
  imports Pcb
begin

text \<open>
  The intrusive FIFO queue of processes, \<^verbatim>\<open>process/queue.c\<close>: a linked list through the \<^verbatim>\<open>next\<close> fields
  of the process control blocks. \<open>queue_rep s q xs\<close> says that the queue \<open>q\<close> holds the processes \<open>xs\<close>
  in that order. The locale \<open>proc_queue\<close> is the contract the schedulers rely on.
\<close>

record pqueue =
  head :: "nat option"
  tail :: "nat option"
  count :: u32

definition queue_init :: pqueue where
  "queue_init = \<lparr>head = None, tail = None, count = 0\<rparr>"

definition set_link :: "nat \<Rightarrow> nat option \<Rightarrow> 'a ptab_scheme \<Rightarrow> 'a ptab_scheme" where
  "set_link p n = upd_pcb p (\<lambda>c. c\<lparr>next := n\<rparr>)"

definition queue_push :: "nat \<Rightarrow> pqueue \<Rightarrow> 'a ptab_scheme \<Rightarrow> pqueue \<times> 'a ptab_scheme" where
  "queue_push proc q s =
     (let s = set_link proc None s;
          (q, s) = (case tail q of Some t \<Rightarrow> (q, set_link t (Some proc) s)
                    | None \<Rightarrow> (q\<lparr>head := Some proc\<rparr>, s))
      in (q\<lparr>tail := Some proc, count := count q + 1\<rparr>, s))"

definition queue_pop :: "pqueue \<Rightarrow> 'a ptab_scheme \<Rightarrow> nat option \<times> pqueue \<times> 'a ptab_scheme" where
  "queue_pop q s =
     (case head q of None \<Rightarrow> (None, q, s)
      | Some proc \<Rightarrow>
          let q = q\<lparr>head := next (pcb_table s proc)\<rparr>;
              q = (if head q = None then q\<lparr>tail := None\<rparr> else q);
              s = set_link proc None s
          in (Some proc, q\<lparr>count := count q - 1\<rparr>, s))"

partial_function (option) remove_loop ::
  "nat \<Rightarrow> nat option \<Rightarrow> nat option \<Rightarrow> pqueue \<Rightarrow> 'a ptab_scheme \<Rightarrow> (pqueue \<times> 'a ptab_scheme) option" where
  "remove_loop proc prev cur q s =
     (case cur of None \<Rightarrow> Some (q, s)
      | Some c \<Rightarrow>
          if c = proc
          then let n = next (pcb_table s c);
                   (q, s) = (case prev of Some p \<Rightarrow> (q, set_link p n s) | None \<Rightarrow> (q\<lparr>head := n\<rparr>, s));
                   q = (if next (pcb_table s c) = None then q\<lparr>tail := prev\<rparr> else q);
                   s = set_link c None s
               in Some (q\<lparr>count := count q - 1\<rparr>, s)
          else remove_loop proc (Some c) (next (pcb_table s c)) q s)"

definition queue_remove :: "nat \<Rightarrow> pqueue \<Rightarrow> 'a ptab_scheme \<Rightarrow> (pqueue \<times> 'a ptab_scheme) option" where
  "queue_remove proc q s = remove_loop proc None (head q) q s"

definition queue_peek :: "pqueue \<Rightarrow> nat option" where
  "queue_peek q = head q"

partial_function (option) contains_loop :: "nat \<Rightarrow> nat option \<Rightarrow> 'a ptab_scheme \<Rightarrow> bool option" where
  "contains_loop proc cur s =
     (case cur of None \<Rightarrow> Some False
      | Some c \<Rightarrow> if c = proc then Some True else contains_loop proc (next (pcb_table s c)) s)"

definition queue_contains :: "pqueue \<Rightarrow> nat \<Rightarrow> 'a ptab_scheme \<Rightarrow> bool option" where
  "queue_contains q proc s = contains_loop proc (head q) s"

section \<open>Representation\<close>

fun links :: "(nat \<Rightarrow> pcb) \<Rightarrow> nat list \<Rightarrow> bool" where
  "links t [] \<longleftrightarrow> True"
| "links t [x] \<longleftrightarrow> next (t x) = None"
| "links t (x # y # xs) \<longleftrightarrow> next (t x) = Some y \<and> links t (y # xs)"

definition first_opt :: "nat list \<Rightarrow> nat option" where
  "first_opt xs = (if xs = [] then None else Some (hd xs))"

definition queue_rep :: "'a ptab_scheme \<Rightarrow> pqueue \<Rightarrow> nat list \<Rightarrow> bool" where
  "queue_rep s q xs \<longleftrightarrow> head q = first_opt xs \<and> tail q = (if xs = [] then None else Some (last xs)) \<and>
     count q = of_nat (length xs) \<and> distinct xs \<and> links (pcb_table s) xs"

lemma first_opt_simps [simp]: "first_opt [] = None" "first_opt (x # xs) = Some x" "first_opt xs = None \<longleftrightarrow> xs = []"
  by (simp_all add: first_opt_def)

lemma links_Cons: "links t (x # xs) \<longleftrightarrow> next (t x) = first_opt xs \<and> links t xs"
  by (cases xs) simp_all

lemma links_cong: "(\<And>x. x \<in> set xs \<Longrightarrow> next (t' x) = next (t x)) \<Longrightarrow> links t' xs = links t xs"
  by (induction t xs rule: links.induct) simp_all

lemma set_link_table [simp]:
  "pcb_table (set_link p n s) = (pcb_table s)(p := (pcb_table s p)\<lparr>next := n\<rparr>)"
  "slot_free_map (set_link p n s) = slot_free_map s" "ptab.more (set_link p n s) = ptab.more s"
  by (simp_all add: set_link_def)

text \<open>The operations change nothing but links of processes of the queue.\<close>

definition same_but_links :: "nat set \<Rightarrow> 'a ptab_scheme \<Rightarrow> 'a ptab_scheme \<Rightarrow> bool" where
  "same_but_links X s s' \<longleftrightarrow> slot_free_map s' = slot_free_map s \<and> ptab.more s' = ptab.more s \<and>
     (\<forall>x. (pcb_table s' x)\<lparr>next := None\<rparr> = (pcb_table s x)\<lparr>next := None\<rparr>) \<and>
     (\<forall>x. x \<notin> X \<longrightarrow> next (pcb_table s' x) = next (pcb_table s x))"

lemma same_but_links_fields:
  assumes "same_but_links X s s'"
  shows "pid (pcb_table s' x) = pid (pcb_table s x)" "state (pcb_table s' x) = state (pcb_table s x)"
    "priority (pcb_table s' x) = priority (pcb_table s x)" "rsp (pcb_table s' x) = rsp (pcb_table s x)"
proof -
  have e: "(pcb_table s' x)\<lparr>next := None\<rparr> = (pcb_table s x)\<lparr>next := None\<rparr>"
    using assms by (simp add: same_but_links_def)
  show "pid (pcb_table s' x) = pid (pcb_table s x)" "state (pcb_table s' x) = state (pcb_table s x)"
    "priority (pcb_table s' x) = priority (pcb_table s x)" "rsp (pcb_table s' x) = rsp (pcb_table s x)"
    using arg_cong[OF e, of pid] arg_cong[OF e, of state] arg_cong[OF e, of priority] arg_cong[OF e, of rsp]
    by simp_all
qed

lemma same_but_links_refl [simp]: "same_but_links X s s"
  by (simp add: same_but_links_def)

lemma same_but_links_trans:
  "same_but_links X s s' \<Longrightarrow> same_but_links Y s' s'' \<Longrightarrow> same_but_links (X \<union> Y) s s''"
  by (simp add: same_but_links_def)

lemma same_but_links_mono: "same_but_links X s s' \<Longrightarrow> X \<subseteq> Y \<Longrightarrow> same_but_links Y s s'"
  by (auto simp: same_but_links_def)

lemma same_but_links_set: "p \<in> X \<Longrightarrow> same_but_links X s s' \<Longrightarrow> same_but_links X s (set_link p n s')"
  by (auto simp: same_but_links_def)

lemma queue_rep_frame:
  assumes "queue_rep s q ys" and "same_but_links X s s'" and "X \<inter> set ys = {}"
  shows "queue_rep s' q ys"
proof -
  have "links (pcb_table s') ys = links (pcb_table s) ys"
    using assms(2,3) by (intro links_cong) (auto simp: same_but_links_def)
  then show ?thesis using assms(1) by (simp add: queue_rep_def)
qed

section \<open>Correctness of the operations\<close>

lemma queue_rep_init: "queue_rep s queue_init []"
  by (simp add: queue_rep_def queue_init_def)

lemma links_last:
  assumes "links t xs" and "xs \<noteq> []"
  shows "next (t (last xs)) = None"
  using assms by (induction t xs rule: links.induct) simp_all

lemma links_snoc:
  assumes "links t xs" and "distinct (xs @ [p])" and "xs \<noteq> []"
  shows "links (t(p := (t p)\<lparr>next := None\<rparr>, last xs := (t (last xs))\<lparr>next := Some p\<rparr>)) (xs @ [p])"
  using assms
proof (induction t xs rule: links.induct)
  case (3 t x y xs)
  define l where "l = last (y # xs)"
  have l: "last (x # y # xs) = l" by (simp add: l_def)
  have IH: "links (t(p := (t p)\<lparr>next := None\<rparr>, l := (t l)\<lparr>next := Some p\<rparr>)) ((y # xs) @ [p])"
    unfolding l_def using 3(2,3) by (intro 3(1)) auto
  have "x \<noteq> l" "x \<noteq> p" using 3(3) by (auto simp: l_def)
  then show ?case unfolding l using IH 3(2) by (simp add: fun_upd_def)
qed auto

lemma queue_push_spec:
  assumes rep: "queue_rep s q xs" and p: "p \<notin> set xs"
  obtains q' s' where "queue_push p q s = (q', s')" and "queue_rep s' q' (xs @ [p])"
    and "same_but_links (insert p (set xs)) s s'"
proof (cases "xs = []")
  case True
  then show thesis
    using rep by (intro that) (auto simp: queue_push_def queue_rep_def Let_def same_but_links_set)
next
  case False
  let ?s = "set_link (last xs) (Some p) (set_link p None s)"
  have ne: "last xs \<noteq> p" using False p by auto
  have "links (pcb_table ?s) (xs @ [p])"
    using links_snoc[of "pcb_table s" xs p] rep p False ne by (simp add: queue_rep_def)
  moreover have "same_but_links (insert p (set xs)) s ?s"
    using False by (intro same_but_links_set) simp_all
  ultimately show thesis
    using rep p False by (intro that[of "q\<lparr>tail := Some p, count := count q + 1\<rparr>" ?s])
      (auto simp: queue_push_def queue_rep_def Let_def first_opt_def)
qed

lemma queue_pop_Nil: "queue_rep s q [] \<Longrightarrow> queue_pop q s = (None, q, s)"
  by (simp add: queue_rep_def queue_pop_def)

lemma links_upd_notin:
  "x \<notin> set xs \<Longrightarrow> links (t(x := c)) xs = links t xs"
  "x \<notin> set xs \<Longrightarrow> links (\<lambda>a. if a = x then c else t a) xs = links t xs"
  by (rule links_cong; auto)+

lemma queue_pop_Cons:
  assumes rep: "queue_rep s q (x # xs)"
  obtains q' s' where "queue_pop q s = (Some x, q', s')" and "queue_rep s' q' xs"
    and "same_but_links {x} s s'"
proof -
  have "next (pcb_table s x) = first_opt xs" using rep by (simp add: queue_rep_def links_Cons)
  then show thesis
    using rep
    by (intro that[of "(if xs = [] then q\<lparr>head := None, tail := None\<rparr> else q\<lparr>head := first_opt xs\<rparr>)\<lparr>count := count q - 1\<rparr>"
          "set_link x None s"])
      (auto simp: queue_pop_def queue_rep_def Let_def links_Cons links_upd_notin same_but_links_set)
qed

lemma links_tl: "links t (x # xs) \<Longrightarrow> links t xs"
  by (simp add: links_Cons)

lemma links_drop: "links t (xs @ ys) \<Longrightarrow> links t ys"
  by (induction xs) (auto simp: links_Cons)

lemma links_remove:
  assumes "links t (pre @ c # r)" and "distinct (pre @ c # r)" and "pre \<noteq> []"
  shows "links (t(last pre := (t (last pre))\<lparr>next := first_opt r\<rparr>)) (pre @ r)"
  using assms
proof (induction pre)
  case (Cons x pre)
  show ?case
  proof (cases "pre = []")
    case True
    then show ?thesis using Cons.prems by (auto simp: links_Cons links_upd_notin)
  next
    case False
    then obtain y zs where y: "pre = y # zs" by (cases pre) auto
    have "x \<noteq> last pre" using Cons.prems(2) False by auto
    then show ?thesis using Cons y by simp
  qed
qed simp

text \<open>The loop of \<open>queue_remove\<close> after it has passed the processes \<open>pre\<close>.\<close>

lemma remove_loop_spec:
  assumes "queue_rep s q (pre @ suf)" and "p \<notin> set pre"
  defines "prev \<equiv> if pre = [] then None else Some (last pre)"
  shows "\<exists>q' s'. remove_loop p prev (first_opt suf) q s = Some (q', s') \<and>
    queue_rep s' q' (pre @ remove1 p suf) \<and> same_but_links (set (pre @ suf)) s s'"
  using assms(1,2) unfolding prev_def
proof (induction suf arbitrary: pre)
  case Nil
  then show ?case by (simp add: remove_loop.simps[of p _ None])
next
  case (Cons c r)
  have rep: "queue_rep s q (pre @ c # r)" using Cons.prems by simp
  have nx: "next (pcb_table s c) = first_opt r"
    using links_drop[of "pcb_table s" pre "c # r"] rep by (simp add: queue_rep_def links_Cons)
  show ?case
  proof (cases "c = p")
    case False
    have "remove_loop p (Some c) (first_opt r) q s =
        remove_loop p (if pre = [] then None else Some (last pre)) (first_opt (c # r)) q s"
      using False nx by (subst remove_loop.simps[of p _ "first_opt (c # r)"]) simp
    then show ?thesis using Cons.IH[of "pre @ [c]"] Cons.prems False by simp
  next
    case True
    show ?thesis
    proof (cases "pre = []")
      case True
      have "same_but_links (set (c # r)) s (set_link c None s)" by (intro same_but_links_set) simp_all
      then show ?thesis
        using rep nx True \<open>c = p\<close>
        by (subst remove_loop.simps) (auto simp: queue_rep_def Let_def links_Cons links_upd_notin)
    next
      case ne: False
      have lp: "last pre \<noteq> c" "c \<notin> set (pre @ r)" using rep ne by (auto simp: queue_rep_def)
      have hd: "first_opt (pre @ xs) = first_opt pre" for xs using ne by (simp add: first_opt_def)
      let ?s = "set_link c None (set_link (last pre) (first_opt r) s)"
      have "same_but_links (set (pre @ c # r)) s ?s" using ne by (intro same_but_links_set) simp_all
      moreover have "links (pcb_table ?s) (pre @ r)"
        using links_remove[of "pcb_table s" pre c r] rep ne lp by (simp add: queue_rep_def links_upd_notin)
      ultimately show ?thesis
        using rep nx ne lp \<open>c = p\<close>
        by (subst remove_loop.simps) (auto simp: queue_rep_def Let_def hd)
    qed
  qed
qed

lemma queue_remove_spec:
  assumes "queue_rep s q xs"
  obtains q' s' where "queue_remove p q s = Some (q', s')" and "queue_rep s' q' (remove1 p xs)"
    and "same_but_links (set xs) s s'"
  using remove_loop_spec[of s q "[]" xs p] assms
  by (auto simp: queue_remove_def queue_rep_def)

lemma contains_loop_spec:
  "links (pcb_table s) xs \<Longrightarrow> contains_loop p (first_opt xs) s = Some (p \<in> set xs)"
proof (induction xs)
  case Nil
  then show ?case by (simp add: contains_loop.simps)
next
  case (Cons x xs)
  then show ?case by (subst contains_loop.simps) (auto simp: links_Cons)
qed

lemma queue_contains_spec: "queue_rep s q xs \<Longrightarrow> queue_contains q p s = Some (p \<in> set xs)"
  by (simp add: queue_contains_def queue_rep_def contains_loop_spec)

section \<open>The contract, and several queues side by side\<close>

text \<open>
  \<open>rep m q xs\<close>: in memory \<open>m\<close> the queue \<open>q\<close> holds \<open>xs\<close>. \<open>same X m m'\<close>: the memories differ only in
  what links the processes \<open>X\<close>.
\<close>

locale proc_queue =
  fixes rep :: "'m \<Rightarrow> 'q \<Rightarrow> nat list \<Rightarrow> bool"
    and same :: "nat set \<Rightarrow> 'm \<Rightarrow> 'm \<Rightarrow> bool"
    and empty :: 'q
    and push :: "nat \<Rightarrow> 'q \<Rightarrow> 'm \<Rightarrow> 'q \<times> 'm"
    and pop :: "'q \<Rightarrow> 'm \<Rightarrow> nat option \<times> 'q \<times> 'm"
    and remove :: "nat \<Rightarrow> 'q \<Rightarrow> 'm \<Rightarrow> ('q \<times> 'm) option"
    and contains :: "'q \<Rightarrow> nat \<Rightarrow> 'm \<Rightarrow> bool option"
  assumes rep_distinct: "rep m q xs \<Longrightarrow> distinct xs"
    and rep_frame: "rep m q ys \<Longrightarrow> same X m m' \<Longrightarrow> X \<inter> set ys = {} \<Longrightarrow> rep m' q ys"
    and same_refl: "same X m m"
    and same_mono: "same X m m' \<Longrightarrow> X \<subseteq> Y \<Longrightarrow> same Y m m'"
    and empty_ok: "rep m empty []"
    and push_ok: "rep m q xs \<Longrightarrow> p \<notin> set xs \<Longrightarrow>
      \<exists>q' m'. push p q m = (q', m') \<and> rep m' q' (xs @ [p]) \<and> same (insert p (set xs)) m m'"
    and pop_Nil: "rep m q [] \<Longrightarrow> pop q m = (None, q, m)"
    and pop_Cons: "rep m q (x # xs) \<Longrightarrow> \<exists>q' m'. pop q m = (Some x, q', m') \<and> rep m' q' xs \<and> same {x} m m'"
    and remove_ok: "rep m q xs \<Longrightarrow>
      \<exists>q' m'. remove p q m = Some (q', m') \<and> rep m' q' (remove1 p xs) \<and> same (set xs) m m'"
    and contains_ok: "rep m q xs \<Longrightarrow> contains q p m = Some (p \<in> set xs)"

text \<open>Loops over several queues, in the order \<open>is\<close>.\<close>

primrec scan_pop :: "('q \<Rightarrow> 'm \<Rightarrow> nat option \<times> 'q \<times> 'm) \<Rightarrow> nat list \<Rightarrow> 'q list \<Rightarrow> 'm \<Rightarrow> nat option \<times> 'q list \<times> 'm" where
  "scan_pop pop [] qs m = (None, qs, m)"
| "scan_pop pop (i # is) qs m =
     (case pop (qs ! i) m of
        (None, q, m) \<Rightarrow> scan_pop pop is (qs[i := q]) m
      | (Some p, q, m) \<Rightarrow> (Some p, qs[i := q], m))"

primrec scan_remove :: "('q \<Rightarrow> nat \<Rightarrow> 'm \<Rightarrow> bool option) \<Rightarrow> (nat \<Rightarrow> 'q \<Rightarrow> 'm \<Rightarrow> ('q \<times> 'm) option) \<Rightarrow>
    nat list \<Rightarrow> nat \<Rightarrow> 'q list \<Rightarrow> 'm \<Rightarrow> ('q list \<times> 'm) option" where
  "scan_remove contains remove [] p qs m = Some (qs, m)"
| "scan_remove contains remove (i # is) p qs m = do {
     c \<leftarrow> contains (qs ! i) p m;
     if c then do { (q, m) \<leftarrow> remove p (qs ! i) m; Some (qs[i := q], m) }
     else scan_remove contains remove is p qs m }"

definition levels_rep :: "('m \<Rightarrow> 'q \<Rightarrow> nat list \<Rightarrow> bool) \<Rightarrow> 'm \<Rightarrow> 'q list \<Rightarrow> nat list list \<Rightarrow> bool" where
  "levels_rep rep m qs xss \<longleftrightarrow> length qs = length xss \<and> (\<forall>i < length xss. rep m (qs ! i) (xss ! i)) \<and>
     (\<forall>i < length xss. \<forall>j < length xss. i \<noteq> j \<longrightarrow> set (xss ! i) \<inter> set (xss ! j) = {})"

lemma levels_rep_length: "levels_rep rep m qs xss \<Longrightarrow> length qs = length xss"
  by (simp add: levels_rep_def)

context proc_queue
begin

lemma levels_update:
  assumes lv: "levels_rep rep m qs xss" and i: "i < length xss"
    and q: "rep m' q ys" and sm: "same X m m'"
    and X: "X \<subseteq> insert p (set (xss ! i))" and ys: "set ys \<subseteq> insert p (set (xss ! i))"
    and p: "\<And>j. j < length xss \<Longrightarrow> j \<noteq> i \<Longrightarrow> p \<notin> set (xss ! j)"
  shows "levels_rep rep m' (qs[i := q]) (xss[i := ys])"
proof -
  have dj: "insert p (set (xss ! i)) \<inter> set (xss ! j) = {}" if "j < length xss" "j \<noteq> i" for j
    using lv p[OF that] that i by (auto simp: levels_rep_def)
  have "rep m' (qs ! j) (xss ! j)" if "j < length xss" "j \<noteq> i" for j
    using rep_frame[OF _ sm, of "qs ! j" "xss ! j"] lv that dj[OF that] X by (auto simp: levels_rep_def)
  then show ?thesis
    using lv i q dj ys unfolding levels_rep_def
    by (auto simp: nth_list_update split: if_splits) blast+
qed

lemma levels_push:
  assumes lv: "levels_rep rep m qs xss" and i: "i < length xss" and p: "p \<notin> set (concat xss)"
  shows "\<exists>q' m'. push p (qs ! i) m = (q', m') \<and> levels_rep rep m' (qs[i := q']) (xss[i := xss ! i @ [p]]) \<and>
    same (insert p (set (xss ! i))) m m'"
proof -
  have pj: "p \<notin> set (xss ! j)" if "j < length xss" for j using p that nth_mem[OF that] by auto
  have "rep m (qs ! i) (xss ! i)" using lv i by (simp add: levels_rep_def)
  from push_ok[OF this pj[OF i]] obtain q' m' where a: "push p (qs ! i) m = (q', m')"
      "rep m' q' (xss ! i @ [p])" "same (insert p (set (xss ! i))) m m'" by blast
  show ?thesis using levels_update[OF lv i a(2,3), of p] a pj by auto
qed

lemma scan_pop_ok:
  assumes lv: "levels_rep rep m qs xss" and "set is \<subseteq> {..<length xss}" and "distinct is"
  shows "(concat (map ((!) xss) is) = [] \<and> scan_pop pop is qs m = (None, qs, m)) \<or>
    (\<exists>j x xs qs' m'. j \<in> set is \<and> xss ! j = x # xs \<and> scan_pop pop is qs m = (Some x, qs', m') \<and>
       levels_rep rep m' qs' (xss[j := xs]) \<and> same {x} m m' \<and>
       concat (map ((!) xss) is) = x # concat (map ((!) (xss[j := xs])) is))"
  using assms(2,3)
proof (induction "is")
  case (Cons i js)
  have i: "i < length xss" "length qs = length xss" using Cons.prems lv by (auto simp: levels_rep_def)
  have rp: "rep m (qs ! i) (xss ! i)" using lv i by (simp add: levels_rep_def)
  show ?case
  proof (cases "xss ! i")
    case Nil
    then have "scan_pop pop (i # js) qs m = scan_pop pop js qs m"
      using pop_Nil rp by simp
    then show ?thesis using Cons Nil by (fastforce simp: nth_list_update)
  next
    case (Cons x xs)
    obtain q' m' where a: "pop (qs ! i) m = (Some x, q', m')" "rep m' q' xs" "same {x} m m'"
      using pop_Cons rp Cons by metis
    have px: "x \<notin> set (xss ! j)" if "j < length xss" "j \<noteq> i" for j
      using lv i that Cons by (auto simp: levels_rep_def)
    have "levels_rep rep m' (qs[i := q']) (xss[i := xs])"
      by (rule levels_update[OF lv i(1) a(2,3), of x]) (use Cons px in auto)
    moreover have "map ((!) (xss[i := xs])) js = map ((!) xss) js"
      using Cons.prems(2) by (auto intro!: nth_list_update_neq)
    ultimately show ?thesis
      using a Cons i by (intro disjI2 exI[of _ i] exI[of _ x] exI[of _ xs]) (simp del: map_eq_conv)
  qed
qed simp

lemma scan_remove_ok:
  assumes lv: "levels_rep rep m qs xss" and "set is \<subseteq> {..<length xss}" and "distinct is"
  shows "(p \<notin> set (concat (map ((!) xss) is)) \<and> scan_remove contains remove is p qs m = Some (qs, m)) \<or>
    (\<exists>j qs' m'. j \<in> set is \<and> p \<in> set (xss ! j) \<and> scan_remove contains remove is p qs m = Some (qs', m') \<and>
       levels_rep rep m' qs' (xss[j := remove1 p (xss ! j)]) \<and> same (set (xss ! j)) m m' \<and>
       concat (map ((!) (xss[j := remove1 p (xss ! j)])) is) = remove1 p (concat (map ((!) xss) is)))"
  using assms(2,3)
proof (induction "is")
  case (Cons i js)
  have i: "i < length xss" "length qs = length xss" using Cons.prems lv by (auto simp: levels_rep_def)
  have rp: "rep m (qs ! i) (xss ! i)" using lv i by (simp add: levels_rep_def)
  show ?case
  proof (cases "p \<in> set (xss ! i)")
    case False
    then have "scan_remove contains remove (i # js) p qs m = scan_remove contains remove js p qs m"
      using contains_ok[OF rp] by simp
    then show ?thesis using Cons False by (fastforce simp: nth_list_update remove1_append)
  next
    case True
    obtain q' m' where a: "remove p (qs ! i) m = Some (q', m')" "rep m' q' (remove1 p (xss ! i))" "same (set (xss ! i)) m m'"
      using remove_ok[OF rp] by metis
    have pj: "p \<notin> set (xss ! j)" if "j < length xss" "j \<noteq> i" for j
      using lv i that True by (auto simp: levels_rep_def)
    have "levels_rep rep m' (qs[i := q']) (xss[i := remove1 p (xss ! i)])"
      by (rule levels_update[OF lv i(1) a(2,3), of p]) (use pj True in \<open>auto dest: notin_set_remove1 in_set_remove1[THEN iffD1]\<close>)
    moreover have "map ((!) (xss[i := remove1 p (xss ! i)])) js = map ((!) xss) js"
      using Cons.prems(2) by (auto intro!: nth_list_update_neq)
    ultimately show ?thesis using a True i contains_ok[OF rp] by (intro disjI2 exI[of _ i]) (simp add: remove1_append del: map_eq_conv)
  qed
qed simp

end

interpretation pcb_queue: proc_queue queue_rep same_but_links queue_init queue_push queue_pop queue_remove queue_contains
proof
  show "queue_rep m q xs \<Longrightarrow> distinct xs" for m :: "'a ptab_scheme" and q xs
    by (simp add: queue_rep_def)
  show "queue_rep m q ys \<Longrightarrow> same_but_links X m m' \<Longrightarrow> X \<inter> set ys = {} \<Longrightarrow> queue_rep m' q ys"
    for m m' :: "'a ptab_scheme" and q ys X
    by (rule queue_rep_frame)
  show "same_but_links X m m" "same_but_links X m m' \<Longrightarrow> X \<subseteq> Y \<Longrightarrow> same_but_links Y m m'"
    for X Y and m m' :: "'a ptab_scheme"
    by (simp, rule same_but_links_mono)
  show "queue_rep m queue_init []" for m :: "'a ptab_scheme"
    by (rule queue_rep_init)
  show "queue_rep m q xs \<Longrightarrow> p \<notin> set xs \<Longrightarrow>
      \<exists>q' m'. queue_push p q m = (q', m') \<and> queue_rep m' q' (xs @ [p]) \<and> same_but_links (insert p (set xs)) m m'"
    for m :: "'a ptab_scheme" and q xs p
    by (erule (1) queue_push_spec) blast
  show "queue_rep m q [] \<Longrightarrow> queue_pop q m = (None, q, m)" for m :: "'a ptab_scheme" and q
    by (rule queue_pop_Nil)
  show "queue_rep m q (x # xs) \<Longrightarrow>
      \<exists>q' m'. queue_pop q m = (Some x, q', m') \<and> queue_rep m' q' xs \<and> same_but_links {x} m m'"
    for m :: "'a ptab_scheme" and q x xs
    by (erule queue_pop_Cons) blast
  show "queue_rep m q xs \<Longrightarrow>
      \<exists>q' m'. queue_remove p q m = Some (q', m') \<and> queue_rep m' q' (remove1 p xs) \<and> same_but_links (set xs) m m'"
    for m :: "'a ptab_scheme" and q xs p
    by (erule queue_remove_spec[of _ _ _ p]) blast
  show "queue_rep m q xs \<Longrightarrow> queue_contains q p m = Some (p \<in> set xs)" for m :: "'a ptab_scheme" and q xs p
    by (rule queue_contains_spec)
qed

text \<open>
  C23. The linked queue implements a list of distinct processes: pushing appends, popping takes the
  first, removing deletes the process wherever it is, and the membership test decides membership.
  Every operation returns, and it changes nothing in the process table but the links of the
  processes of the queue.
\<close>
theorem queue_refines_list:
  assumes "queue_rep s q xs"
  shows "(p \<notin> set xs \<longrightarrow> (case queue_push p q s of (q', s') \<Rightarrow>
       queue_rep s' q' (xs @ [p]) \<and> same_but_links (insert p (set xs)) s s')) \<and>
    (case queue_pop q s of (r, q', s') \<Rightarrow>
       r = first_opt xs \<and> queue_rep s' q' (tl xs) \<and> same_but_links (set xs) s s') \<and>
    (\<exists>q' s'. queue_remove p q s = Some (q', s') \<and> queue_rep s' q' (remove1 p xs) \<and> same_but_links (set xs) s s') \<and>
    queue_contains q p s = Some (p \<in> set xs) \<and> queue_peek q = first_opt xs"
proof -
  have "case queue_pop q s of (r, q', s') \<Rightarrow>
       r = first_opt xs \<and> queue_rep s' q' (tl xs) \<and> same_but_links (set xs) s s'"
  proof (cases xs)
    case Nil
    then show ?thesis using pcb_queue.pop_Nil[of s q] assms by simp
  next
    case (Cons x ys)
    obtain q' s' where "queue_pop q s = (Some x, q', s')" "queue_rep s' q' ys" "same_but_links {x} s s'"
      using pcb_queue.pop_Cons assms Cons by metis
    then show ?thesis using Cons same_but_links_mono[of "{x}" s s' "set xs"] by simp
  qed
  moreover have "queue_peek q = first_opt xs" using assms by (simp add: queue_peek_def queue_rep_def)
  ultimately show ?thesis
    using pcb_queue.push_ok[OF assms] pcb_queue.remove_ok[OF assms] pcb_queue.contains_ok[OF assms]
    by fastforce
qed

text \<open>Witness of C23: the queue after two pushes.\<close>
theorem queue_refines_list_witness:
  "case queue_push 3 queue_init blank_ptab of (q, s) \<Rightarrow> case queue_push 5 q s of (q, s) \<Rightarrow>
     (\<exists>q' s'. queue_remove 3 q s = Some (q', s') \<and> queue_rep s' q' [5])"
proof -
  obtain q1 s1 where q1: "queue_push 3 queue_init blank_ptab = (q1, s1)" "queue_rep s1 q1 [3]"
    using pcb_queue.push_ok[OF pcb_queue.empty_ok, of 3 blank_ptab] by auto
  obtain q2 s2 where q2: "queue_push 5 q1 s1 = (q2, s2)" "queue_rep s2 q2 [3, 5]"
    using pcb_queue.push_ok[OF q1(2), of 5] by auto
  show ?thesis using queue_refines_list[OF q2(2), of 3] by (simp add: q1(1) q2(1)) blast
qed

end
