(* ===== verification/Sched.thy ===== *)
theory Sched
  imports Pqueue
begin

text \<open>
  The schedulers: \<^verbatim>\<open>scheduler/fcfs.c\<close>, \<^verbatim>\<open>rr.c\<close>, \<^verbatim>\<open>priority.c\<close>, \<^verbatim>\<open>mlq.c\<close> and the dispatcher \<^verbatim>\<open>scheduler.c\<close>.
  The static variables of the five files are the fields of \<open>sched\<close>, an extension of the process
  table; \<open>g_scheduler\<close> points to an operations table, which is the name of the algorithm. The locale
  \<open>ready_queue\<close> is the contract between a scheduling algorithm and the process manager: a list of
  ready processes in the order in which they will run. Every algorithm and the dispatcher satisfy it.
\<close>

section \<open>State\<close>

datatype scheduler_id = SCHED_FCFS | SCHED_RR | SCHED_PRIORITY | SCHED_MLQ | SCHED_COUNT

abbreviation (input) QUANTUM_DEFAULT :: u32 where "QUANTUM_DEFAULT \<equiv> 3"

record scheduler_stats =
  stats_name :: string
  context_switches :: u64
  idle_ticks :: u64
  stats_ticks :: u64
  processes_completed :: u64
  queue_depth :: u32

record sched = ptab +
  current_process :: "nat option"
  scheduler_need_resched :: bool
  g_scheduler :: "scheduler_id option"
  g_sched_id :: scheduler_id
  fcfs_queue :: pqueue
  fcfs_stats :: scheduler_stats
  rr_queue :: pqueue
  rr_stats :: scheduler_stats
  rr_current_ticks :: u32
  priority_queues :: "pqueue list"
  prio_stats :: scheduler_stats
  prio_current_ticks :: u32
  mlq_queues :: "pqueue list"
  mlq_stats :: scheduler_stats
  mlq_level_ticks :: "u32 list"

definition fresh_stats :: "string \<Rightarrow> scheduler_stats" where
  "fresh_stats n = \<lparr>stats_name = n, context_switches = 0, idle_ticks = 0, stats_ticks = 0,
     processes_completed = 0, queue_depth = 0\<rparr>"

definition count_switch :: "scheduler_stats \<Rightarrow> scheduler_stats" where
  "count_switch st = st\<lparr>context_switches := context_switches st + 1\<rparr>"

definition count_tick :: "scheduler_stats \<Rightarrow> scheduler_stats" where
  "count_tick st = st\<lparr>stats_ticks := stats_ticks st + 1\<rparr>"

definition count_idle :: "scheduler_stats \<Rightarrow> scheduler_stats" where
  "count_idle st = st\<lparr>idle_ticks := idle_ticks st + 1\<rparr>"

text \<open>The test \<^verbatim>\<open>current_process && current_process->pid > 1U\<close>: process 1 is the idle process.\<close>

definition busy :: "'a sched_scheme \<Rightarrow> bool" where
  "busy s = (case current_process s of None \<Rightarrow> False | Some c \<Rightarrow> pid (pcb_table s c) > 1)"

section \<open>First come, first served\<close>

definition fcfs_init :: "'a sched_scheme \<Rightarrow> 'a sched_scheme" where
  "fcfs_init s = s\<lparr>fcfs_queue := queue_init, fcfs_stats := fresh_stats ''FCFS''\<rparr>"

definition fcfs_add :: "nat \<Rightarrow> 'a sched_scheme \<Rightarrow> 'a sched_scheme" where
  "fcfs_add p s = (let (q, s) = queue_push p (fcfs_queue s) s in s\<lparr>fcfs_queue := q\<rparr>)"

definition fcfs_remove :: "nat \<Rightarrow> 'a sched_scheme \<Rightarrow> 'a sched_scheme option" where
  "fcfs_remove p s = do { (q, s) \<leftarrow> queue_remove p (fcfs_queue s) s; Some (s\<lparr>fcfs_queue := q\<rparr>) }"

definition fcfs_next :: "'a sched_scheme \<Rightarrow> nat option \<times> 'a sched_scheme" where
  "fcfs_next s =
     (let (r, q, s) = queue_pop (fcfs_queue s) s;
          s = s\<lparr>fcfs_queue := q\<rparr>
      in (r, if r \<noteq> None then s\<lparr>fcfs_stats := count_switch (fcfs_stats s)\<rparr> else s))"

definition fcfs_get_stats :: "'a sched_scheme \<Rightarrow> scheduler_stats \<times> 'a sched_scheme" where
  "fcfs_get_stats s =
     (let s = s\<lparr>fcfs_stats := (fcfs_stats s)\<lparr>queue_depth := count (fcfs_queue s)\<rparr>\<rparr>
      in ((fcfs_stats s)\<lparr>stats_name := ''FCFS''\<rparr>, s))"

section \<open>Round robin\<close>

definition rr_init :: "'a sched_scheme \<Rightarrow> 'a sched_scheme" where
  "rr_init s = s\<lparr>rr_queue := queue_init, rr_stats := fresh_stats ''Round Robin'', rr_current_ticks := 0\<rparr>"

definition rr_add :: "nat \<Rightarrow> 'a sched_scheme \<Rightarrow> 'a sched_scheme" where
  "rr_add p s = (let (q, s) = queue_push p (rr_queue s) s in s\<lparr>rr_queue := q\<rparr>)"

definition rr_remove :: "nat \<Rightarrow> 'a sched_scheme \<Rightarrow> 'a sched_scheme option" where
  "rr_remove p s = do { (q, s) \<leftarrow> queue_remove p (rr_queue s) s; Some (s\<lparr>rr_queue := q\<rparr>) }"

definition rr_next :: "'a sched_scheme \<Rightarrow> nat option \<times> 'a sched_scheme" where
  "rr_next s =
     (let (r, q, s) = queue_pop (rr_queue s) s;
          s = s\<lparr>rr_queue := q\<rparr>
      in (r, if r \<noteq> None then s\<lparr>rr_stats := count_switch (rr_stats s), rr_current_ticks := 0\<rparr> else s))"

definition rr_tick :: "'a sched_scheme \<Rightarrow> 'a sched_scheme" where
  "rr_tick s =
     (let s = s\<lparr>rr_stats := count_tick (rr_stats s)\<rparr>
      in if busy s
         then let s = s\<lparr>rr_current_ticks := rr_current_ticks s + 1\<rparr>
              in if rr_current_ticks s \<ge> QUANTUM_DEFAULT then s\<lparr>scheduler_need_resched := True\<rparr> else s
         else s\<lparr>rr_stats := count_idle (rr_stats s)\<rparr>)"

definition rr_get_stats :: "'a sched_scheme \<Rightarrow> scheduler_stats \<times> 'a sched_scheme" where
  "rr_get_stats s =
     (let s = s\<lparr>rr_stats := (rr_stats s)\<lparr>queue_depth := count (rr_queue s)\<rparr>\<rparr>
      in ((rr_stats s)\<lparr>stats_name := ''Round Robin''\<rparr>, s))"

section \<open>Priorities\<close>

abbreviation (input) PRIO_QUEUES :: nat where "PRIO_QUEUES \<equiv> 4"

definition prio_init :: "'a sched_scheme \<Rightarrow> 'a sched_scheme" where
  "prio_init s = s\<lparr>priority_queues := replicate PRIO_QUEUES queue_init, prio_stats := fresh_stats ''Priority'',
     prio_current_ticks := 0\<rparr>"

definition prio_level :: "u32 \<Rightarrow> nat" where
  "prio_level p = (if p \<ge> of_nat PRIO_QUEUES then PRIO_QUEUES - 1 else unat p)"

definition prio_add :: "nat \<Rightarrow> 'a sched_scheme \<Rightarrow> 'a sched_scheme" where
  "prio_add p s =
     (let level = prio_level (priority (pcb_table s p));
          (q, s) = queue_push p (priority_queues s ! level) s
      in s\<lparr>priority_queues := (priority_queues s)[level := q]\<rparr>)"

definition prio_remove :: "nat \<Rightarrow> 'a sched_scheme \<Rightarrow> 'a sched_scheme option" where
  "prio_remove p s = do {
     (qs, s) \<leftarrow> scan_remove queue_contains queue_remove [0, 1, 2, 3] p (priority_queues s) s;
     Some (s\<lparr>priority_queues := qs\<rparr>) }"

definition prio_next :: "'a sched_scheme \<Rightarrow> nat option \<times> 'a sched_scheme" where
  "prio_next s =
     (let (r, qs, s) = scan_pop queue_pop [3, 2, 1, 0] (priority_queues s) s;
          s = s\<lparr>priority_queues := qs\<rparr>
      in (r, if r \<noteq> None then s\<lparr>prio_stats := count_switch (prio_stats s), prio_current_ticks := 0\<rparr> else s))"

definition prio_tick :: "'a sched_scheme \<Rightarrow> 'a sched_scheme" where
  "prio_tick s =
     (let s = s\<lparr>prio_stats := count_tick (prio_stats s)\<rparr>
      in if busy s
         then let s = s\<lparr>prio_current_ticks := prio_current_ticks s + 1\<rparr>
              in if prio_current_ticks s \<ge> QUANTUM_DEFAULT then s\<lparr>scheduler_need_resched := True\<rparr> else s
         else s\<lparr>prio_stats := count_idle (prio_stats s)\<rparr>)"

definition prio_get_stats :: "'a sched_scheme \<Rightarrow> scheduler_stats \<times> 'a sched_scheme" where
  "prio_get_stats s =
     (let s = s\<lparr>prio_stats := (prio_stats s)\<lparr>queue_depth := sum_list (map count (priority_queues s))\<rparr>\<rparr>
      in ((prio_stats s)\<lparr>stats_name := ''Priority''\<rparr>, s))"

section \<open>Multilevel queues\<close>

abbreviation (input) MLQ_LEVELS :: nat where "MLQ_LEVELS \<equiv> 4"

definition mlq_quanta :: "u32 list" where "mlq_quanta = [2, 4, 6, 8]"

definition mlq_level_of :: "u32 \<Rightarrow> nat" where
  "mlq_level_of p = (if p \<ge> PRIORITY_REALTIME then 0 else if p \<ge> PRIORITY_HIGH then 1
     else if p \<ge> PRIORITY_NORMAL then 2 else 3)"

definition mlq_init :: "'a sched_scheme \<Rightarrow> 'a sched_scheme" where
  "mlq_init s = s\<lparr>mlq_queues := replicate MLQ_LEVELS queue_init, mlq_level_ticks := replicate MLQ_LEVELS 0,
     mlq_stats := fresh_stats ''MLQ''\<rparr>"

definition mlq_add :: "nat \<Rightarrow> 'a sched_scheme \<Rightarrow> 'a sched_scheme" where
  "mlq_add p s =
     (let level = mlq_level_of (priority (pcb_table s p));
          (q, s) = queue_push p (mlq_queues s ! level) s
      in s\<lparr>mlq_queues := (mlq_queues s)[level := q]\<rparr>)"

definition mlq_remove :: "nat \<Rightarrow> 'a sched_scheme \<Rightarrow> 'a sched_scheme option" where
  "mlq_remove p s = do {
     (qs, s) \<leftarrow> scan_remove queue_contains queue_remove [0, 1, 2, 3] p (mlq_queues s) s;
     Some (s\<lparr>mlq_queues := qs\<rparr>) }"

definition mlq_next :: "'a sched_scheme \<Rightarrow> nat option \<times> 'a sched_scheme" where
  "mlq_next s =
     (let (r, qs, s) = scan_pop queue_pop [0, 1, 2, 3] (mlq_queues s) s;
          s = s\<lparr>mlq_queues := qs\<rparr>
      in (r, if r \<noteq> None then s\<lparr>mlq_stats := count_switch (mlq_stats s),
                              mlq_level_ticks := replicate MLQ_LEVELS 0\<rparr> else s))"

definition mlq_tick :: "'a sched_scheme \<Rightarrow> 'a sched_scheme" where
  "mlq_tick s =
     (let s = s\<lparr>mlq_stats := count_tick (mlq_stats s)\<rparr>
      in if busy s
         then let level = mlq_level_of (priority (pcb_table s (the (current_process s))));
                  s = s\<lparr>mlq_level_ticks := (mlq_level_ticks s)[level := mlq_level_ticks s ! level + 1]\<rparr>
              in if mlq_level_ticks s ! level \<ge> mlq_quanta ! level then s\<lparr>scheduler_need_resched := True\<rparr> else s
         else s\<lparr>mlq_stats := count_idle (mlq_stats s)\<rparr>)"

definition mlq_get_stats :: "'a sched_scheme \<Rightarrow> scheduler_stats \<times> 'a sched_scheme" where
  "mlq_get_stats s =
     (let s = s\<lparr>mlq_stats := (mlq_stats s)\<lparr>queue_depth := sum_list (map count (mlq_queues s))\<rparr>\<rparr>
      in ((mlq_stats s)\<lparr>stats_name := ''MLQ''\<rparr>, s))"

section \<open>The dispatcher\<close>

definition scheduler_set :: "scheduler_id \<Rightarrow> 'a sched_scheme \<Rightarrow> 'a sched_scheme" where
  "scheduler_set i s =
     (let s = s\<lparr>g_sched_id := i\<rparr>
      in case i of
           SCHED_FCFS \<Rightarrow> fcfs_init (s\<lparr>g_scheduler := Some SCHED_FCFS\<rparr>)
         | SCHED_RR \<Rightarrow> rr_init (s\<lparr>g_scheduler := Some SCHED_RR\<rparr>)
         | SCHED_PRIORITY \<Rightarrow> prio_init (s\<lparr>g_scheduler := Some SCHED_PRIORITY\<rparr>)
         | SCHED_MLQ \<Rightarrow> mlq_init (s\<lparr>g_scheduler := Some SCHED_MLQ\<rparr>)
         | SCHED_COUNT \<Rightarrow> s)"

definition scheduler_init :: "scheduler_id \<Rightarrow> 'a sched_scheme \<Rightarrow> 'a sched_scheme" where
  "scheduler_init i s = scheduler_set i s"

definition scheduler_add :: "nat \<Rightarrow> 'a sched_scheme \<Rightarrow> 'a sched_scheme" where
  "scheduler_add p s = (case g_scheduler s of
       Some SCHED_FCFS \<Rightarrow> fcfs_add p s | Some SCHED_RR \<Rightarrow> rr_add p s
     | Some SCHED_PRIORITY \<Rightarrow> prio_add p s | Some SCHED_MLQ \<Rightarrow> mlq_add p s | _ \<Rightarrow> s)"

definition scheduler_remove :: "nat \<Rightarrow> 'a sched_scheme \<Rightarrow> 'a sched_scheme option" where
  "scheduler_remove p s = (case g_scheduler s of
       Some SCHED_FCFS \<Rightarrow> fcfs_remove p s | Some SCHED_RR \<Rightarrow> rr_remove p s
     | Some SCHED_PRIORITY \<Rightarrow> prio_remove p s | Some SCHED_MLQ \<Rightarrow> mlq_remove p s | _ \<Rightarrow> Some s)"

definition scheduler_next :: "'a sched_scheme \<Rightarrow> nat option \<times> 'a sched_scheme" where
  "scheduler_next s = (case g_scheduler s of
       Some SCHED_FCFS \<Rightarrow> fcfs_next s | Some SCHED_RR \<Rightarrow> rr_next s
     | Some SCHED_PRIORITY \<Rightarrow> prio_next s | Some SCHED_MLQ \<Rightarrow> mlq_next s | _ \<Rightarrow> (None, s))"

definition scheduler_tick :: "'a sched_scheme \<Rightarrow> 'a sched_scheme" where
  "scheduler_tick s = (case g_scheduler s of
       Some SCHED_RR \<Rightarrow> rr_tick s | Some SCHED_PRIORITY \<Rightarrow> prio_tick s | Some SCHED_MLQ \<Rightarrow> mlq_tick s | _ \<Rightarrow> s)"

definition scheduler_get_current :: "'a sched_scheme \<Rightarrow> scheduler_id" where
  "scheduler_get_current s = g_sched_id s"

definition scheduler_get_stats :: "'a sched_scheme \<Rightarrow> scheduler_stats option \<times> 'a sched_scheme" where
  "scheduler_get_stats s = (case g_scheduler s of
       Some SCHED_FCFS \<Rightarrow> map_prod Some id (fcfs_get_stats s) | Some SCHED_RR \<Rightarrow> map_prod Some id (rr_get_stats s)
     | Some SCHED_PRIORITY \<Rightarrow> map_prod Some id (prio_get_stats s) | Some SCHED_MLQ \<Rightarrow> map_prod Some id (mlq_get_stats s)
     | _ \<Rightarrow> (None, s))"

definition scheduler_name :: "scheduler_id \<Rightarrow> string" where
  "scheduler_name i = (case i of SCHED_FCFS \<Rightarrow> ''FCFS'' | SCHED_RR \<Rightarrow> ''Round Robin''
     | SCHED_PRIORITY \<Rightarrow> ''Priority'' | SCHED_MLQ \<Rightarrow> ''MLQ'' | SCHED_COUNT \<Rightarrow> ''Unknown'')"

section \<open>The contract of a scheduling algorithm\<close>

text \<open>\<open>ready s L\<close>: the ready processes are \<open>L\<close>, in the order in which they will be picked.\<close>

locale ready_queue =
  fixes ready :: "'s \<Rightarrow> nat list \<Rightarrow> bool"
    and add :: "nat \<Rightarrow> 's \<Rightarrow> 's"
    and remove :: "nat \<Rightarrow> 's \<Rightarrow> 's option"
    and pick :: "'s \<Rightarrow> nat option \<times> 's"
  assumes ready_distinct: "ready s L \<Longrightarrow> distinct L"
    and add_ok: "ready s L \<Longrightarrow> p \<notin> set L \<Longrightarrow> \<exists>A B. L = A @ B \<and> ready (add p s) (A @ p # B)"
    and remove_ok: "ready s L \<Longrightarrow> \<exists>s'. remove p s = Some s' \<and> ready s' (remove1 p L)"
    and pick_Nil: "ready s [] \<Longrightarrow> \<exists>s'. pick s = (None, s') \<and> ready s' []"
    and pick_Cons: "ready s (p # L) \<Longrightarrow> \<exists>s'. pick s = (Some p, s') \<and> ready s' L"

text \<open>Runs of the process manager; \<open>Q\<close> collects the processes added and neither picked nor removed.\<close>

inductive sched_run :: "(nat \<Rightarrow> 's \<Rightarrow> 's) \<Rightarrow> (nat \<Rightarrow> 's \<Rightarrow> 's option) \<Rightarrow> ('s \<Rightarrow> nat option \<times> 's) \<Rightarrow> 's \<Rightarrow> 's \<Rightarrow> nat set \<Rightarrow> bool"
  for add remove pick s0
where
  run_start: "sched_run add remove pick s0 s0 {}"
| run_add: "sched_run add remove pick s0 s Q \<Longrightarrow> p \<notin> Q \<Longrightarrow> sched_run add remove pick s0 (add p s) (insert p Q)"
| run_remove: "sched_run add remove pick s0 s Q \<Longrightarrow> remove p s = Some s' \<Longrightarrow>
    sched_run add remove pick s0 s' (Q - {p})"
| run_pick: "sched_run add remove pick s0 s Q \<Longrightarrow> pick s = (r, s') \<Longrightarrow>
    sched_run add remove pick s0 s' (case r of None \<Rightarrow> Q | Some p \<Rightarrow> Q - {p})"

primrec drain :: "('s \<Rightarrow> nat option \<times> 's) \<Rightarrow> nat \<Rightarrow> 's \<Rightarrow> nat list" where
  "drain pick 0 s = []"
| "drain pick (Suc n) s = (case pick s of (None, s') \<Rightarrow> [] | (Some p, s') \<Rightarrow> p # drain pick n s')"

context ready_queue
begin

lemma run_conserves:
  assumes "sched_run add remove pick s0 s Q" and "ready s0 []"
  shows "\<exists>L. ready s L \<and> set L = Q"
  using assms
proof (induction rule: sched_run.induct)
  case (run_add s Q p)
  then obtain L where L: "ready s L" "set L = Q" by blast
  then obtain A B where "L = A @ B" "ready (add p s) (A @ p # B)" using add_ok run_add(2) by blast
  then show ?case using L(2) by (intro exI[of _ "A @ p # B"]) auto
next
  case (run_remove s Q p s')
  then obtain L where L: "ready s L" "set L = Q" by blast
  then show ?case using remove_ok[OF L(1), of p] run_remove(2) ready_distinct[OF L(1)]
    by (intro exI[of _ "remove1 p L"]) auto
next
  case (run_pick s Q r s')
  then obtain L where L: "ready s L" "set L = Q" by blast
  show ?case
  proof (cases L)
    case Nil
    then show ?thesis using pick_Nil L run_pick(2) by fastforce
  next
    case (Cons p L')
    then show ?thesis
      using pick_Cons[of s p L'] L run_pick(2) ready_distinct[OF L(1)] by (intro exI[of _ L']) auto
  qed
qed auto

lemma pick_from_run:
  assumes "sched_run add remove pick s0 s Q" and "ready s0 []" and "pick s = (r, s')"
  shows "case r of None \<Rightarrow> Q = {} | Some p \<Rightarrow> p \<in> Q"
proof -
  obtain L where L: "ready s L" "set L = Q" using run_conserves[OF assms(1,2)] by blast
  show ?thesis using pick_Nil[of s] pick_Cons[of s] L assms(3) by (cases L) fastforce+
qed

lemma drain_ready: "ready s L \<Longrightarrow> length L \<le> n \<Longrightarrow> drain pick n s = L"
proof (induction n arbitrary: s L)
  case (Suc n)
  then show ?case
  proof (cases L)
    case Nil
    then show ?thesis using pick_Nil[of s] Suc.prems by auto
  next
    case (Cons p L')
    then show ?thesis using pick_Cons[of s p L'] Suc by auto
  qed
qed simp

end

section \<open>The algorithms satisfy the contract\<close>

lemma sched_same:
  assumes "same_but_links X s (s' :: 'a sched_scheme)"
  shows "current_process s' = current_process s" "scheduler_need_resched s' = scheduler_need_resched s"
    "g_scheduler s' = g_scheduler s" "g_sched_id s' = g_sched_id s" "fcfs_queue s' = fcfs_queue s"
    "fcfs_stats s' = fcfs_stats s" "rr_queue s' = rr_queue s" "rr_stats s' = rr_stats s"
    "rr_current_ticks s' = rr_current_ticks s" "priority_queues s' = priority_queues s"
    "prio_stats s' = prio_stats s" "prio_current_ticks s' = prio_current_ticks s" "mlq_queues s' = mlq_queues s"
    "mlq_stats s' = mlq_stats s" "mlq_level_ticks s' = mlq_level_ticks s" "sched.more s' = sched.more s"
  using assms by (cases s; cases s'; simp add: same_but_links_def)+

lemma queue_rep_upd [simp]:
  "queue_rep (s\<lparr>current_process := v_current_process\<rparr>) q xs = queue_rep s q xs"
  "queue_rep (s\<lparr>scheduler_need_resched := v_scheduler_need_resched\<rparr>) q xs = queue_rep s q xs"
  "queue_rep (s\<lparr>g_scheduler := v_g_scheduler\<rparr>) q xs = queue_rep s q xs"
  "queue_rep (s\<lparr>g_sched_id := v_g_sched_id\<rparr>) q xs = queue_rep s q xs"
  "queue_rep (s\<lparr>fcfs_queue := v_fcfs_queue\<rparr>) q xs = queue_rep s q xs"
  "queue_rep (s\<lparr>fcfs_stats := v_fcfs_stats\<rparr>) q xs = queue_rep s q xs"
  "queue_rep (s\<lparr>rr_queue := v_rr_queue\<rparr>) q xs = queue_rep s q xs"
  "queue_rep (s\<lparr>rr_stats := v_rr_stats\<rparr>) q xs = queue_rep s q xs"
  "queue_rep (s\<lparr>rr_current_ticks := v_rr_current_ticks\<rparr>) q xs = queue_rep s q xs"
  "queue_rep (s\<lparr>priority_queues := v_priority_queues\<rparr>) q xs = queue_rep s q xs"
  "queue_rep (s\<lparr>prio_stats := v_prio_stats\<rparr>) q xs = queue_rep s q xs"
  "queue_rep (s\<lparr>prio_current_ticks := v_prio_current_ticks\<rparr>) q xs = queue_rep s q xs"
  "queue_rep (s\<lparr>mlq_queues := v_mlq_queues\<rparr>) q xs = queue_rep s q xs"
  "queue_rep (s\<lparr>mlq_stats := v_mlq_stats\<rparr>) q xs = queue_rep s q xs"
  "queue_rep (s\<lparr>mlq_level_ticks := v_mlq_level_ticks\<rparr>) q xs = queue_rep s q xs"
  by (simp_all add: queue_rep_def)

lemma levels_rep_upd [simp]:
  
  "levels_rep queue_rep (s\<lparr>current_process := v_current_process\<rparr>) qs xss = levels_rep queue_rep s qs xss"
  "levels_rep queue_rep (s\<lparr>scheduler_need_resched := v_scheduler_need_resched\<rparr>) qs xss = levels_rep queue_rep s qs xss"
  "levels_rep queue_rep (s\<lparr>g_scheduler := v_g_scheduler\<rparr>) qs xss = levels_rep queue_rep s qs xss"
  "levels_rep queue_rep (s\<lparr>g_sched_id := v_g_sched_id\<rparr>) qs xss = levels_rep queue_rep s qs xss"
  "levels_rep queue_rep (s\<lparr>fcfs_queue := v_fcfs_queue\<rparr>) qs xss = levels_rep queue_rep s qs xss"
  "levels_rep queue_rep (s\<lparr>fcfs_stats := v_fcfs_stats\<rparr>) qs xss = levels_rep queue_rep s qs xss"
  "levels_rep queue_rep (s\<lparr>rr_queue := v_rr_queue\<rparr>) qs xss = levels_rep queue_rep s qs xss"
  "levels_rep queue_rep (s\<lparr>rr_stats := v_rr_stats\<rparr>) qs xss = levels_rep queue_rep s qs xss"
  "levels_rep queue_rep (s\<lparr>rr_current_ticks := v_rr_current_ticks\<rparr>) qs xss = levels_rep queue_rep s qs xss"
  "levels_rep queue_rep (s\<lparr>priority_queues := v_priority_queues\<rparr>) qs xss = levels_rep queue_rep s qs xss"
  "levels_rep queue_rep (s\<lparr>prio_stats := v_prio_stats\<rparr>) qs xss = levels_rep queue_rep s qs xss"
  "levels_rep queue_rep (s\<lparr>prio_current_ticks := v_prio_current_ticks\<rparr>) qs xss = levels_rep queue_rep s qs xss"
  "levels_rep queue_rep (s\<lparr>mlq_queues := v_mlq_queues\<rparr>) qs xss = levels_rep queue_rep s qs xss"
  "levels_rep queue_rep (s\<lparr>mlq_stats := v_mlq_stats\<rparr>) qs xss = levels_rep queue_rep s qs xss"
  "levels_rep queue_rep (s\<lparr>mlq_level_ticks := v_mlq_level_ticks\<rparr>) qs xss = levels_rep queue_rep s qs xss"
  by (simp_all add: levels_rep_def)

definition fcfs_ready :: "'a sched_scheme \<Rightarrow> nat list \<Rightarrow> bool" where
  "fcfs_ready s L \<longleftrightarrow> queue_rep s (fcfs_queue s) L"

definition rr_ready :: "'a sched_scheme \<Rightarrow> nat list \<Rightarrow> bool" where
  "rr_ready s L \<longleftrightarrow> queue_rep s (rr_queue s) L"

lemma fcfs_add_ok: "fcfs_ready s L \<Longrightarrow> p \<notin> set L \<Longrightarrow> fcfs_ready (fcfs_add p s) (L @ [p])"
  using pcb_queue.push_ok[of s "fcfs_queue s" L p]
  by (fastforce simp: fcfs_ready_def fcfs_add_def)

interpretation fcfs: ready_queue fcfs_ready fcfs_add fcfs_remove fcfs_next
proof
  fix s :: "'a sched_scheme" and L p
  show "fcfs_ready s L \<Longrightarrow> distinct L" by (simp add: fcfs_ready_def queue_rep_def)
  show "fcfs_ready s L \<Longrightarrow> p \<notin> set L \<Longrightarrow> \<exists>A B. L = A @ B \<and> fcfs_ready (fcfs_add p s) (A @ p # B)"
    using fcfs_add_ok by (intro exI[of _ L] exI[of _ "[]"]) simp
  show "fcfs_ready s L \<Longrightarrow> \<exists>s'. fcfs_remove p s = Some s' \<and> fcfs_ready s' (remove1 p L)"
    using pcb_queue.remove_ok[of s "fcfs_queue s" L p]
    by (fastforce simp: fcfs_ready_def fcfs_remove_def)
  show "fcfs_ready s [] \<Longrightarrow> \<exists>s'. fcfs_next s = (None, s') \<and> fcfs_ready s' []"
    using pcb_queue.pop_Nil[of s "fcfs_queue s"] by (simp add: fcfs_ready_def fcfs_next_def)
  show "fcfs_ready s (p # L) \<Longrightarrow> \<exists>s'. fcfs_next s = (Some p, s') \<and> fcfs_ready s' L"
    using pcb_queue.pop_Cons[of s "fcfs_queue s" p L]
    by (fastforce simp: fcfs_ready_def fcfs_next_def)
qed

lemma rr_add_ok: "rr_ready s L \<Longrightarrow> p \<notin> set L \<Longrightarrow> rr_ready (rr_add p s) (L @ [p])"
  using pcb_queue.push_ok[of s "rr_queue s" L p]
  by (fastforce simp: rr_ready_def rr_add_def)

interpretation rr: ready_queue rr_ready rr_add rr_remove rr_next
proof
  fix s :: "'a sched_scheme" and L p
  show "rr_ready s L \<Longrightarrow> distinct L" by (simp add: rr_ready_def queue_rep_def)
  show "rr_ready s L \<Longrightarrow> p \<notin> set L \<Longrightarrow> \<exists>A B. L = A @ B \<and> rr_ready (rr_add p s) (A @ p # B)"
    using rr_add_ok by (intro exI[of _ L] exI[of _ "[]"]) simp
  show "rr_ready s L \<Longrightarrow> \<exists>s'. rr_remove p s = Some s' \<and> rr_ready s' (remove1 p L)"
    using pcb_queue.remove_ok[of s "rr_queue s" L p]
    by (fastforce simp: rr_ready_def rr_remove_def)
  show "rr_ready s [] \<Longrightarrow> \<exists>s'. rr_next s = (None, s') \<and> rr_ready s' []"
    using pcb_queue.pop_Nil[of s "rr_queue s"] by (simp add: rr_ready_def rr_next_def)
  show "rr_ready s (p # L) \<Longrightarrow> \<exists>s'. rr_next s = (Some p, s') \<and> rr_ready s' L"
    using pcb_queue.pop_Cons[of s "rr_queue s" p L]
    by (fastforce simp: rr_ready_def rr_next_def)
qed

text \<open>
  Four queues, chosen by the level \<open>lv\<close> of the priority and visited in the order \<open>vs\<close>: common to
  the priority and the multilevel scheduler.
\<close>

definition level_ready ::
  "(u32 \<Rightarrow> nat) \<Rightarrow> nat list \<Rightarrow> 'a sched_scheme \<Rightarrow> pqueue list \<Rightarrow> nat list \<Rightarrow> bool" where
  "level_ready lv vs s qs L \<longleftrightarrow> (\<exists>xss. length xss = 4 \<and> levels_rep queue_rep s qs xss \<and>
     (\<forall>i < 4. \<forall>x \<in> set (xss ! i). lv (priority (pcb_table s x)) = i) \<and> L = concat (map ((!) xss) vs))"

lemma concat_vs_set:
  assumes "length xss = 4" and "set vs = {..<4}"
  shows "set (concat (map ((!) xss) vs)) = set (concat xss)"
proof -
  have "set xss = (!) xss ` {..<4}" using assms(1) by (auto simp: set_conv_nth)
  then show ?thesis using assms(2) by auto
qed

lemma concat_vs_upd:
  assumes "i \<in> set vs" and "distinct vs" and "i < length xss"
  shows "\<exists>A B. concat (map ((!) xss) vs) = A @ xss ! i @ B \<and>
    (\<forall>ys. concat (map ((!) (xss[i := ys])) vs) = A @ ys @ B)"
proof -
  obtain us ws where v: "vs = us @ i # ws" using split_list[OF assms(1)] by blast
  have "map ((!) (xss[i := ys])) us = map ((!) xss) us" "map ((!) (xss[i := ys])) ws = map ((!) xss) ws" for ys
    using assms(2) v by (auto intro!: nth_list_update_neq)
  then show ?thesis using v assms(3)
    by (intro exI[of _ "concat (map ((!) xss) us)"] exI[of _ "concat (map ((!) xss) ws)"]) (simp del: map_eq_conv)
qed

lemma levels_distinct:
  assumes "levels_rep queue_rep s qs xss" and "set vs \<subseteq> {..<length xss}" and "distinct vs"
  shows "distinct (concat (map ((!) xss) vs))"
  using assms(2,3)
proof (induction vs)
  case (Cons i vs)
  have "distinct (xss ! i)" using assms(1) Cons.prems pcb_queue.rep_distinct by (fastforce simp: levels_rep_def)
  moreover have "set (xss ! i) \<inter> set (xss ! j) = {}" if "j \<in> set vs" for j
  proof -
    have "j < length xss" "i < length xss" "i \<noteq> j" using Cons.prems that by auto
    then show ?thesis using assms(1) unfolding levels_rep_def by blast
  qed
  ultimately show ?case using Cons by auto
qed simp

lemma level_push:
  assumes lr: "level_ready lv vs s qs L" and p: "p \<notin> set L" and i: "lv (priority (pcb_table s p)) = i" "i < 4"
    and vs: "set vs = {..<4}" "distinct vs" and push: "queue_push p (qs ! i) s = (q, s')"
  shows "\<exists>A B. L = A @ B \<and> level_ready lv vs s' (qs[i := q]) (A @ p # B)" and "same_but_links UNIV s s'"
proof -
  obtain xss where x: "length xss = 4" "levels_rep queue_rep s qs xss"
      "\<forall>i < 4. \<forall>x \<in> set (xss ! i). lv (priority (pcb_table s x)) = i" "L = concat (map ((!) xss) vs)"
    using lr by (auto simp: level_ready_def)
  have "p \<notin> set (concat xss)" using p unfolding x(4) concat_vs_set[OF x(1) vs(1)] .
  from pcb_queue.levels_push[OF x(2) _ this, of i] push x(1) i
  have lv': "levels_rep queue_rep s' (qs[i := q]) (xss[i := xss ! i @ [p]])"
    and sm: "same_but_links (insert p (set (xss ! i))) s s'" by auto
  show "same_but_links UNIV s s'" using same_but_links_mono[OF sm] by simp
  obtain A B where AB: "concat (map ((!) xss) vs) = A @ xss ! i @ B"
      "\<forall>ys. concat (map ((!) (xss[i := ys])) vs) = A @ ys @ B"
    using concat_vs_upd[of i vs xss] vs i x(1) by auto
  have "\<forall>j < 4. \<forall>x \<in> set (xss[i := xss ! i @ [p]] ! j). lv (priority (pcb_table s' x)) = j"
    using x(1,3) i same_but_links_fields(3)[OF sm] by (auto simp: nth_list_update)
  then have "level_ready lv vs s' (qs[i := q]) ((A @ xss ! i) @ p # B)"
    unfolding level_ready_def using x(1) lv' AB(2)
    by (intro exI[of _ "xss[i := xss ! i @ [p]]"]) simp
  then show "\<exists>A B. L = A @ B \<and> level_ready lv vs s' (qs[i := q]) (A @ p # B)"
    using x(4) AB(1) by (intro exI[of _ "A @ xss ! i"] exI[of _ B]) simp
qed

lemma level_pop:
  assumes lr: "level_ready lv vs s qs L" and vs: "set vs = {..<4}" "distinct vs"
  shows "(L = [] \<and> scan_pop queue_pop vs qs s = (None, qs, s)) \<or>
    (\<exists>p L' qs' s'. L = p # L' \<and> scan_pop queue_pop vs qs s = (Some p, qs', s') \<and>
       level_ready lv vs s' qs' L' \<and> same_but_links UNIV s s')"
proof -
  obtain xss where x: "length xss = 4" "levels_rep queue_rep s qs xss"
      "\<forall>i < 4. \<forall>x \<in> set (xss ! i). lv (priority (pcb_table s x)) = i" "L = concat (map ((!) xss) vs)"
    using lr by (auto simp: level_ready_def)
  have "set vs \<subseteq> {..<length xss}" using vs x(1) by simp
  from pcb_queue.scan_pop_ok[OF x(2) this vs(2)] show ?thesis
  proof (elim disjE exE conjE)
    fix j y ys qs' s'
    assume a: "j \<in> set vs" "xss ! j = y # ys" "scan_pop queue_pop vs qs s = (Some y, qs', s')"
      "levels_rep queue_rep s' qs' (xss[j := ys])" "same_but_links {y} s s'"
      "concat (map ((!) xss) vs) = y # concat (map ((!) (xss[j := ys])) vs)"
    have "j < 4" using a(1) vs by auto
    then have "\<forall>i < 4. \<forall>x \<in> set (xss[j := ys] ! i). lv (priority (pcb_table s' x)) = i"
      using x(1,3) a(2) same_but_links_fields(3)[OF a(5)] by (simp add: nth_list_update)
    then have "level_ready lv vs s' qs' (concat (map ((!) (xss[j := ys])) vs))"
      unfolding level_ready_def using a(4) x(1) by (intro exI[of _ "xss[j := ys]"]) simp
    then show ?thesis using a x(4) same_but_links_mono[OF a(5)] by auto
  qed (use x(4) in simp)
qed

lemma level_remove:
  assumes lr: "level_ready lv vs s qs L" and vs: "set vs = {..<4}" "distinct vs" "set us = {..<4}" "distinct us"
  shows "\<exists>qs' s'. scan_remove queue_contains queue_remove us p qs s = Some (qs', s') \<and>
    level_ready lv vs s' qs' (remove1 p L) \<and> same_but_links UNIV s s'"
proof -
  obtain xss where x: "length xss = 4" "levels_rep queue_rep s qs xss"
      "\<forall>i < 4. \<forall>x \<in> set (xss ! i). lv (priority (pcb_table s x)) = i" "L = concat (map ((!) xss) vs)"
    using lr by (auto simp: level_ready_def)
  have us: "set us \<subseteq> {..<length xss}" using vs x(1) by simp
  have dL: "set L = set (concat (map ((!) xss) us))"
    using concat_vs_set[OF x(1) vs(1)] concat_vs_set[OF x(1) vs(3)] x(4) by simp
  from pcb_queue.scan_remove_ok[OF x(2) us vs(4), of p] show ?thesis
  proof (elim disjE exE conjE)
    fix j qs' s'
    assume a: "j \<in> set us" "p \<in> set (xss ! j)" "scan_remove queue_contains queue_remove us p qs s = Some (qs', s')"
      "levels_rep queue_rep s' qs' (xss[j := remove1 p (xss ! j)])" "same_but_links (set (xss ! j)) s s'"
    have j: "j \<in> set vs" "j < length xss" using a(1) vs x(1) by auto
    obtain A B where AB: "concat (map ((!) xss) vs) = A @ xss ! j @ B"
        "\<forall>ys. concat (map ((!) (xss[j := ys])) vs) = A @ ys @ B"
      using concat_vs_upd[OF j(1) vs(2) j(2)] by blast
    have "p \<notin> set A" using levels_distinct[OF x(2), of vs] vs x(1) AB(1) a(2) by auto
    then have rm: "remove1 p L = A @ remove1 p (xss ! j) @ B" using x(4) AB(1) a(2) by (simp add: remove1_append)
    have "\<forall>i < 4. \<forall>x \<in> set (xss[j := remove1 p (xss ! j)] ! i). lv (priority (pcb_table s' x)) = i"
      using x(1,3) same_but_links_fields(3)[OF a(5)] j by (auto simp: nth_list_update dest: notin_set_remove1)
    then have "level_ready lv vs s' qs' (remove1 p L)"
      unfolding level_ready_def using a(4) x(1) rm AB(2)
      by (intro exI[of _ "xss[j := remove1 p (xss ! j)]"]) simp
    then show ?thesis using a same_but_links_mono[OF a(5)] by auto
  qed (use x(4) dL lr in \<open>auto simp: remove1_idem\<close>)
qed

lemma level_ready_upd [simp]:
  "level_ready lv vs (s\<lparr>priority_queues := a\<rparr>) qs L = level_ready lv vs s qs L"
  "level_ready lv vs (s\<lparr>prio_stats := b\<rparr>) qs L = level_ready lv vs s qs L"
  "level_ready lv vs (s\<lparr>prio_current_ticks := c\<rparr>) qs L = level_ready lv vs s qs L"
  "level_ready lv vs (s\<lparr>mlq_queues := a\<rparr>) qs L = level_ready lv vs s qs L"
  "level_ready lv vs (s\<lparr>mlq_stats := b\<rparr>) qs L = level_ready lv vs s qs L"
  "level_ready lv vs (s\<lparr>mlq_level_ticks := d\<rparr>) qs L = level_ready lv vs s qs L"
  by (simp_all add: level_ready_def)

lemma level_ready_distinct:
  assumes "level_ready lv vs s qs L" and "set vs = {..<4}" and "distinct vs"
  shows "distinct L"
  using assms levels_distinct[of s qs _ vs] by (auto simp: level_ready_def)

lemma level_bounds: "prio_level x < 4" "mlq_level_of x < 4"
  by (auto simp: prio_level_def mlq_level_of_def word_le_nat_alt not_le)

lemma vs_sets: "set [0, 1, 2, 3] = {..<4 :: nat}" "set [3, 2, 1, 0] = {..<4 :: nat}"
  "distinct [0, 1, 2, 3 :: nat]" "distinct [3, 2, 1, 0 :: nat]"
  by auto

definition prio_ready :: "'a sched_scheme \<Rightarrow> nat list \<Rightarrow> bool" where
  "prio_ready s L \<longleftrightarrow> level_ready prio_level [3, 2, 1, 0] s (priority_queues s) L"

definition mlq_ready :: "'a sched_scheme \<Rightarrow> nat list \<Rightarrow> bool" where
  "mlq_ready s L \<longleftrightarrow> level_ready mlq_level_of [0, 1, 2, 3] s (mlq_queues s) L"

interpretation prio: ready_queue prio_ready prio_add prio_remove prio_next
proof
  fix s :: "'a sched_scheme" and L p
  show "prio_ready s L \<Longrightarrow> distinct L"
    unfolding prio_ready_def by (rule level_ready_distinct[OF _ vs_sets(2,4)])
  assume ready: "prio_ready s L"
  { assume p: "p \<notin> set L"
    obtain q s' where push: "queue_push p (priority_queues s ! prio_level (priority (pcb_table s p))) s = (q, s')"
      by fastforce
    note lp = level_push[OF ready[unfolded prio_ready_def] p refl level_bounds(1) vs_sets(2,4) push]
    show "\<exists>A B. L = A @ B \<and> prio_ready (prio_add p s) (A @ p # B)"
      using lp(1) sched_same(10)[OF lp(2)] by (simp add: prio_ready_def prio_add_def Let_def push) }
  from level_remove[OF ready[unfolded prio_ready_def] vs_sets(2,4) vs_sets(1,3), of p]
  show "\<exists>s'. prio_remove p s = Some s' \<and> prio_ready s' (remove1 p L)"
    by (auto simp: prio_ready_def prio_remove_def simp del: scan_remove.simps)
next
  fix s :: "'a sched_scheme" and L p
  show "prio_ready s [] \<Longrightarrow> \<exists>s'. prio_next s = (None, s') \<and> prio_ready s' []"
    using level_pop[OF _ vs_sets(2,4), of prio_level s "priority_queues s" "[]"]
    by (auto simp: prio_ready_def prio_next_def simp del: scan_pop.simps)
  show "prio_ready s (p # L) \<Longrightarrow> \<exists>s'. prio_next s = (Some p, s') \<and> prio_ready s' L"
    using level_pop[OF _ vs_sets(2,4), of prio_level s "priority_queues s" "p # L"]
    by (auto simp: prio_ready_def prio_next_def simp del: scan_pop.simps)
qed

interpretation mlq: ready_queue mlq_ready mlq_add mlq_remove mlq_next
proof
  fix s :: "'a sched_scheme" and L p
  show "mlq_ready s L \<Longrightarrow> distinct L"
    unfolding mlq_ready_def by (rule level_ready_distinct[OF _ vs_sets(1,3)])
  assume ready: "mlq_ready s L"
  { assume p: "p \<notin> set L"
    obtain q s' where push: "queue_push p (mlq_queues s ! mlq_level_of (priority (pcb_table s p))) s = (q, s')"
      by fastforce
    note lp = level_push[OF ready[unfolded mlq_ready_def] p refl level_bounds(2) vs_sets(1,3) push]
    show "\<exists>A B. L = A @ B \<and> mlq_ready (mlq_add p s) (A @ p # B)"
      using lp(1) sched_same(13)[OF lp(2)] by (simp add: mlq_ready_def mlq_add_def Let_def push) }
  from level_remove[OF ready[unfolded mlq_ready_def] vs_sets(1,3) vs_sets(1,3), of p]
  show "\<exists>s'. mlq_remove p s = Some s' \<and> mlq_ready s' (remove1 p L)"
    by (auto simp: mlq_ready_def mlq_remove_def simp del: scan_remove.simps)
next
  fix s :: "'a sched_scheme" and L p
  show "mlq_ready s [] \<Longrightarrow> \<exists>s'. mlq_next s = (None, s') \<and> mlq_ready s' []"
    using level_pop[OF _ vs_sets(1,3), of mlq_level_of s "mlq_queues s" "[]"]
    by (auto simp: mlq_ready_def mlq_next_def simp del: scan_pop.simps)
  show "mlq_ready s (p # L) \<Longrightarrow> \<exists>s'. mlq_next s = (Some p, s') \<and> mlq_ready s' L"
    using level_pop[OF _ vs_sets(1,3), of mlq_level_of s "mlq_queues s" "p # L"]
    by (auto simp: mlq_ready_def mlq_next_def simp del: scan_pop.simps)
qed

section \<open>The dispatcher satisfies it too\<close>

definition sched_ready :: "'a sched_scheme \<Rightarrow> nat list \<Rightarrow> bool" where
  "sched_ready s L \<longleftrightarrow> (case g_scheduler s of
       Some SCHED_FCFS \<Rightarrow> fcfs_ready s L | Some SCHED_RR \<Rightarrow> rr_ready s L
     | Some SCHED_PRIORITY \<Rightarrow> prio_ready s L | Some SCHED_MLQ \<Rightarrow> mlq_ready s L | _ \<Rightarrow> False)"

text \<open>The queue operations touch nothing but links.\<close>

lemma set_link_links [simp]: "same_but_links UNIV s (set_link p n s') \<longleftrightarrow> same_but_links UNIV s s'"
  by (auto simp: same_but_links_def)

lemma push_links: "queue_push p q s = (q', s') \<Longrightarrow> same_but_links UNIV s s'"
  by (auto simp: queue_push_def Let_def split: option.splits)

lemma pop_links: "queue_pop q s = (r, q', s') \<Longrightarrow> same_but_links UNIV s s'"
  by (auto simp: queue_pop_def Let_def split: option.splits if_splits)

lemma remove_loop_links: "remove_loop p pr c q s = Some r \<Longrightarrow> same_but_links UNIV s (snd r)"
  by (erule remove_loop.raw_induct[rotated, where P = "\<lambda>p pr c q s r. same_but_links UNIV s (snd r)"])
    (auto simp: Let_def split: option.splits if_splits)

lemma remove_links: "queue_remove p q s = Some (q', s') \<Longrightarrow> same_but_links UNIV s s'"
  using remove_loop_links by (fastforce simp: queue_remove_def)

lemma UNIV_links_trans: "same_but_links UNIV s s' \<Longrightarrow> same_but_links UNIV s' s'' \<Longrightarrow> same_but_links UNIV s s''"
  using same_but_links_trans[of UNIV s s' UNIV s''] by simp

lemma scan_pop_links: "scan_pop queue_pop vs qs s = (r, qs', s') \<Longrightarrow> same_but_links UNIV s s'"
  by (induction vs arbitrary: qs s)
    (auto split: prod.splits option.splits dest!: pop_links intro: UNIV_links_trans)

lemma scan_remove_links:
  "scan_remove queue_contains queue_remove vs p qs s = Some (qs', s') \<Longrightarrow> same_but_links UNIV s s'"
  by (induction vs) (auto split: Option.bind_splits if_splits dest!: remove_links)

definition sched_kept :: "'a sched_scheme \<Rightarrow> 'a sched_scheme \<Rightarrow> bool" where
  "sched_kept s s' \<longleftrightarrow> g_scheduler s' = g_scheduler s \<and> current_process s' = current_process s \<and>
     sched.more s' = sched.more s \<and> slot_free_map s' = slot_free_map s \<and>
     (\<forall>x. (pcb_table s' x)\<lparr>next := None\<rparr> = (pcb_table s x)\<lparr>next := None\<rparr>)"

lemma links_kept: "same_but_links UNIV s (s' :: 'a sched_scheme) \<Longrightarrow> sched_kept s s'"
  using sched_same[of UNIV s s'] by (simp add: sched_kept_def) (simp add: same_but_links_def)

lemma add_kept:
  "sched_kept s (fcfs_add p s)" "sched_kept s (rr_add p s)" "sched_kept s (prio_add p s)" "sched_kept s (mlq_add p s)"
proof -
  have "sched_kept s s'" if "queue_push p q s = (q', s')" for q q' s'
    by (rule links_kept[OF push_links[OF that]])
  then show "sched_kept s (fcfs_add p s)" "sched_kept s (rr_add p s)" "sched_kept s (prio_add p s)"
    "sched_kept s (mlq_add p s)"
    by (auto simp: fcfs_add_def rr_add_def prio_add_def mlq_add_def Let_def sched_kept_def split: prod.splits)
qed

lemmas pop_kept = links_kept[OF pop_links] links_kept[OF scan_pop_links]

lemma next_kept:
  "fcfs_next s = (r, s') \<Longrightarrow> sched_kept s s'" "rr_next s = (r, s') \<Longrightarrow> sched_kept s s'"
  "prio_next s = (r, s') \<Longrightarrow> sched_kept s s'" "mlq_next s = (r, s') \<Longrightarrow> sched_kept s s'"
  by (auto simp: fcfs_next_def rr_next_def prio_next_def mlq_next_def Let_def sched_kept_def simp del: scan_pop.simps
      split: prod.splits if_splits dest!: pop_kept)

lemmas rem_kept = links_kept[OF remove_links] links_kept[OF scan_remove_links]

lemma remove_kept:
  "fcfs_remove p s = Some s' \<Longrightarrow> sched_kept s s'" "rr_remove p s = Some s' \<Longrightarrow> sched_kept s s'"
  "prio_remove p s = Some s' \<Longrightarrow> sched_kept s s'" "mlq_remove p s = Some s' \<Longrightarrow> sched_kept s s'"
  by (auto simp: fcfs_remove_def rr_remove_def prio_remove_def mlq_remove_def sched_kept_def
      simp del: scan_remove.simps split: Option.bind_splits dest!: rem_kept)

lemma scheduler_kept:
  "sched_kept s (scheduler_add p s)"
  "scheduler_next s = (r, s') \<Longrightarrow> sched_kept s s'"
  "scheduler_remove p s = Some s' \<Longrightarrow> sched_kept s s'"
  using add_kept[of s p] next_kept[of s r s'] remove_kept[of p s s']
  by (auto simp: scheduler_add_def scheduler_next_def scheduler_remove_def sched_kept_def
      split: option.splits scheduler_id.splits)

text \<open>The facts of the four algorithms, by the name of the algorithm.\<close>

definition alg_ready :: "scheduler_id \<Rightarrow> 'a sched_scheme \<Rightarrow> nat list \<Rightarrow> bool" where
  "alg_ready i s L \<longleftrightarrow> (case i of SCHED_FCFS \<Rightarrow> fcfs_ready s L | SCHED_RR \<Rightarrow> rr_ready s L
     | SCHED_PRIORITY \<Rightarrow> prio_ready s L | SCHED_MLQ \<Rightarrow> mlq_ready s L | SCHED_COUNT \<Rightarrow> False)"

lemma sched_ready_alg: "sched_ready s L \<longleftrightarrow> (\<exists>i. g_scheduler s = Some i \<and> alg_ready i s L)"
  by (auto simp: sched_ready_def alg_ready_def split: option.splits scheduler_id.splits)

lemma alg_facts:
  assumes "g_scheduler s = Some i" and "alg_ready i s L"
  shows "distinct L"
    and "\<exists>s'. scheduler_remove p s = Some s' \<and> alg_ready i s' (remove1 p L)"
    and "p \<notin> set L \<Longrightarrow> \<exists>A B. L = A @ B \<and> alg_ready i (scheduler_add p s) (A @ p # B)"
    and "L = [] \<Longrightarrow> \<exists>s'. scheduler_next s = (None, s') \<and> alg_ready i s' []"
    and "L = x # L' \<Longrightarrow> \<exists>s'. scheduler_next s = (Some x, s') \<and> alg_ready i s' L'"
  using assms
  by (cases i; simp add: alg_ready_def scheduler_remove_def scheduler_add_def scheduler_next_def
      fcfs.ready_distinct rr.ready_distinct prio.ready_distinct mlq.ready_distinct
      fcfs.remove_ok rr.remove_ok prio.remove_ok mlq.remove_ok fcfs.add_ok rr.add_ok prio.add_ok mlq.add_ok
      fcfs.pick_Nil rr.pick_Nil prio.pick_Nil mlq.pick_Nil fcfs.pick_Cons rr.pick_Cons prio.pick_Cons mlq.pick_Cons)+

interpretation dispatch: ready_queue sched_ready scheduler_add scheduler_remove scheduler_next
proof
  fix s :: "'a sched_scheme" and L p
  assume "sched_ready s L"
  then obtain i where i: "g_scheduler s = Some i" "alg_ready i s L" by (auto simp: sched_ready_alg)
  show "distinct L" by (rule alg_facts(1)[OF i])
  show "\<exists>s'. scheduler_remove p s = Some s' \<and> sched_ready s' (remove1 p L)"
    using alg_facts(2)[OF i, of p] scheduler_kept(3)[of p s] i(1) by (auto simp: sched_ready_alg sched_kept_def)
  show "\<exists>A B. L = A @ B \<and> sched_ready (scheduler_add p s) (A @ p # B)" if "p \<notin> set L"
    using alg_facts(3)[OF i that] scheduler_kept(1)[of s p] i(1) by (auto simp: sched_ready_alg sched_kept_def)
next
  fix s :: "'a sched_scheme" and L p
  assume "sched_ready s []"
  then obtain i where i: "g_scheduler s = Some i" "alg_ready i s []" by (auto simp: sched_ready_alg)
  show "\<exists>s'. scheduler_next s = (None, s') \<and> sched_ready s' []"
    using alg_facts(4)[OF i refl] scheduler_kept(2)[of s] i(1) by (auto simp: sched_ready_alg sched_kept_def)
next
  fix s :: "'a sched_scheme" and L p
  assume "sched_ready s (p # L)"
  then obtain i where i: "g_scheduler s = Some i" "alg_ready i s (p # L)" by (auto simp: sched_ready_alg)
  show "\<exists>s'. scheduler_next s = (Some p, s') \<and> sched_ready s' L"
    using alg_facts(5)[OF i refl] scheduler_kept(2)[of s] i(1) by (auto simp: sched_ready_alg sched_kept_def)
qed

section \<open>Dispatch order\<close>

definition by_level :: "(nat \<Rightarrow> nat) \<Rightarrow> nat list \<Rightarrow> nat list list" where
  "by_level f ps = map (\<lambda>l. filter (\<lambda>p. f p = l) ps) [0..<4]"

lemma length_by_level [simp]: "length (by_level f ps) = 4"
  by (simp add: by_level_def)

lemma by_level_snoc:
  assumes "f p < 4"
  shows "by_level f (ps @ [p]) = (by_level f ps)[f p := by_level f ps ! f p @ [p]]"
  using assms by (intro nth_equalityI) (auto simp: by_level_def nth_list_update)

lemma by_level_set: "f ` set ps \<subseteq> {..<4} \<Longrightarrow> set (concat (by_level f ps)) = set ps"
  by (auto simp: by_level_def)

lemma prio_add_levels:
  fixes s :: "'a sched_scheme"
  defines "f \<equiv> \<lambda>x. prio_level (priority (pcb_table s x))"
  assumes "levels_rep queue_rep s (priority_queues s) xss" and "length xss = 4" and "p \<notin> set (concat xss)"
  shows "levels_rep queue_rep (prio_add p s) (priority_queues (prio_add p s)) (xss[f p := xss ! f p @ [p]]) \<and>
    (\<forall>x. priority (pcb_table (prio_add p s) x) = priority (pcb_table s x))"
proof -
  have "f p < length xss" using level_bounds assms(3) by (simp add: f_def)
  from pcb_queue.levels_push[OF assms(2) this assms(4)] obtain q s' where
    push: "queue_push p (priority_queues s ! f p) s = (q, s')"
      "levels_rep queue_rep s' ((priority_queues s)[f p := q]) (xss[f p := xss ! f p @ [p]])"
      "same_but_links (insert p (set (xss ! f p))) s s'" by blast
  have "prio_add p s = s'\<lparr>priority_queues := (priority_queues s)[f p := q]\<rparr>"
    using push(1) sched_same(10)[OF push(3)] by (simp add: prio_add_def f_def)
  then show ?thesis using push(2) same_but_links_fields(3)[OF push(3)] by simp
qed

lemma mlq_add_levels:
  fixes s :: "'a sched_scheme"
  defines "f \<equiv> \<lambda>x. mlq_level_of (priority (pcb_table s x))"
  assumes "levels_rep queue_rep s (mlq_queues s) xss" and "length xss = 4" and "p \<notin> set (concat xss)"
  shows "levels_rep queue_rep (mlq_add p s) (mlq_queues (mlq_add p s)) (xss[f p := xss ! f p @ [p]]) \<and>
    (\<forall>x. priority (pcb_table (mlq_add p s) x) = priority (pcb_table s x))"
proof -
  have "f p < length xss" using level_bounds assms(3) by (simp add: f_def)
  from pcb_queue.levels_push[OF assms(2) this assms(4)] obtain q s' where
    push: "queue_push p (mlq_queues s ! f p) s = (q, s')"
      "levels_rep queue_rep s' ((mlq_queues s)[f p := q]) (xss[f p := xss ! f p @ [p]])"
      "same_but_links (insert p (set (xss ! f p))) s s'" by blast
  have "mlq_add p s = s'\<lparr>mlq_queues := (mlq_queues s)[f p := q]\<rparr>"
    using push(1) sched_same(13)[OF push(3)] by (simp add: mlq_add_def f_def)
  then show ?thesis using push(2) same_but_links_fields(3)[OF push(3)] by simp
qed

text \<open>What the queues hold after the processes \<open>ps\<close> have been added.\<close>

definition added :: "scheduler_id \<Rightarrow> nat list \<Rightarrow> 'a sched_scheme \<Rightarrow> 'a sched_scheme" where
  "added i ps s = fold scheduler_add ps (scheduler_set i s)"

lemma scheduler_set_fields [simp]:
  "pcb_table (scheduler_set i s) = pcb_table s" "current_process (scheduler_set i s) = current_process s"
  "i \<noteq> SCHED_COUNT \<Longrightarrow> g_scheduler (scheduler_set i s) = Some i"
  by (cases i; simp add: scheduler_set_def fcfs_init_def rr_init_def prio_init_def mlq_init_def)+

lemma levels_init: "levels_rep queue_rep s (replicate 4 queue_init) (replicate 4 [])"
  by (simp add: levels_rep_def queue_rep_init)

lemma added_snoc: "added i (ps @ [p]) s = scheduler_add p (added i ps s)"
  by (simp add: added_def)

lemma added_scheduler: "i \<noteq> SCHED_COUNT \<Longrightarrow> g_scheduler (added i ps s) = Some i"
proof (induction ps rule: rev_induct)
  case (snoc p ps)
  then show ?case using scheduler_kept(1)[of "added i ps s" p] by (simp add: added_snoc sched_kept_def)
qed (simp add: added_def)

lemma added_prio:
  fixes s :: "'a sched_scheme"
  assumes "distinct ps"
  defines "f \<equiv> \<lambda>x. prio_level (priority (pcb_table s x))"
  shows "levels_rep queue_rep (added SCHED_PRIORITY ps s) (priority_queues (added SCHED_PRIORITY ps s)) (by_level f ps) \<and>
    (\<forall>x. priority (pcb_table (added SCHED_PRIORITY ps s) x) = priority (pcb_table s x))"
  using assms(1)
proof (induction ps rule: rev_induct)
  case Nil
  have "by_level f [] = replicate 4 []" by (simp add: by_level_def numeral_nat upt_rec)
  then show ?case using levels_init by (simp add: added_def scheduler_set_def prio_init_def)
next
  case (snoc p ps)
  let ?s = "added SCHED_PRIORITY ps s"
  have IH: "levels_rep queue_rep ?s (priority_queues ?s) (by_level f ps)"
    "\<forall>x. priority (pcb_table ?s x) = priority (pcb_table s x)" using snoc by auto
  have "f ` set ps \<subseteq> {..<4}" using level_bounds by (auto simp: f_def)
  then have "p \<notin> set (concat (by_level f ps))" using snoc.prems by (simp only: by_level_set) simp
  moreover have "added SCHED_PRIORITY (ps @ [p]) s = prio_add p ?s"
    using added_scheduler[of SCHED_PRIORITY ps s] by (simp add: added_snoc scheduler_add_def)
  moreover have "by_level f (ps @ [p]) = (by_level f ps)[f p := by_level f ps ! f p @ [p]]"
    by (rule by_level_snoc) (simp add: f_def level_bounds)
  ultimately show ?case
    using prio_add_levels[OF IH(1), of p] IH(2) by (simp add: f_def)
qed

lemma added_mlq:
  fixes s :: "'a sched_scheme"
  assumes "distinct ps"
  defines "f \<equiv> \<lambda>x. mlq_level_of (priority (pcb_table s x))"
  shows "levels_rep queue_rep (added SCHED_MLQ ps s) (mlq_queues (added SCHED_MLQ ps s)) (by_level f ps) \<and>
    (\<forall>x. priority (pcb_table (added SCHED_MLQ ps s) x) = priority (pcb_table s x))"
  using assms(1)
proof (induction ps rule: rev_induct)
  case Nil
  have "by_level f [] = replicate 4 []" by (simp add: by_level_def numeral_nat upt_rec)
  then show ?case using levels_init by (simp add: added_def scheduler_set_def mlq_init_def)
next
  case (snoc p ps)
  let ?s = "added SCHED_MLQ ps s"
  have IH: "levels_rep queue_rep ?s (mlq_queues ?s) (by_level f ps)"
    "\<forall>x. priority (pcb_table ?s x) = priority (pcb_table s x)" using snoc by auto
  have "f ` set ps \<subseteq> {..<4}" using level_bounds by (auto simp: f_def)
  then have "p \<notin> set (concat (by_level f ps))" using snoc.prems by (simp only: by_level_set) simp
  moreover have "added SCHED_MLQ (ps @ [p]) s = mlq_add p ?s"
    using added_scheduler[of SCHED_MLQ ps s] by (simp add: added_snoc scheduler_add_def)
  moreover have "by_level f (ps @ [p]) = (by_level f ps)[f p := by_level f ps ! f p @ [p]]"
    by (rule by_level_snoc) (simp add: f_def level_bounds)
  ultimately show ?case
    using mlq_add_levels[OF IH(1), of p] IH(2) by (simp add: f_def)
qed

lemma scheduler_set_ready: "i \<noteq> SCHED_COUNT \<Longrightarrow> sched_ready (scheduler_set i s) []"
proof -
  have "level_ready lv vs t (replicate 4 queue_init) []" if "set vs = {..<4}" for lv vs and t :: "'a sched_scheme"
    unfolding level_ready_def using levels_init[of t] that by (intro exI[of _ "replicate 4 []"]) auto
  then show "i \<noteq> SCHED_COUNT \<Longrightarrow> sched_ready (scheduler_set i s) []"
    using queue_rep_init vs_sets(1,2)
    by (cases i) (auto simp: sched_ready_def scheduler_set_def fcfs_init_def rr_init_def prio_init_def mlq_init_def
        fcfs_ready_def rr_ready_def prio_ready_def mlq_ready_def)
qed

lemma added_fifo:
  assumes "i = SCHED_FCFS \<or> i = SCHED_RR" and "distinct ps"
  shows "sched_ready (added i ps s) ps"
  using assms(2)
proof (induction ps rule: rev_induct)
  case Nil
  then show ?case using scheduler_set_ready[of i s] assms(1) by (auto simp: added_def)
next
  case (snoc p ps)
  have g: "g_scheduler (added i ps s) = Some i" using added_scheduler assms(1) by blast
  have "sched_ready (scheduler_add p (added i ps s)) (ps @ [p])"
    using snoc g assms(1) fcfs_add_ok[of "added i ps s" ps p] rr_add_ok[of "added i ps s" ps p] add_kept[of "added i ps s" p]
    by (auto simp: sched_ready_def scheduler_add_def sched_kept_def)
  then show ?case by (simp add: added_snoc)
qed


text \<open>
  First come first served and round robin dispatch in the order of arrival.
\<close>
theorem fifo_dispatch_order:
  assumes "i = SCHED_FCFS \<or> i = SCHED_RR" and "distinct ps"
  shows "drain scheduler_next (length ps) (fold scheduler_add ps (scheduler_set i s)) = ps"
  using dispatch.drain_ready[OF added_fifo[OF assms, of s] order_refl] by (simp add: added_def)

text \<open>The zero-initialised static storage.\<close>

definition blank_sched :: sched where
  "blank_sched = ptab.extend blank_ptab (sched.fields None False None SCHED_FCFS queue_init (fresh_stats [])
     queue_init (fresh_stats []) 0 [] (fresh_stats []) 0 [] (fresh_stats []) [])"


text \<open>An instance of this: three processes.\<close>
theorem fifo_dispatch_order_witness:
  "drain scheduler_next (length [4, 7, 2 :: nat]) (fold scheduler_add [4, 7, 2] (scheduler_set SCHED_RR blank_sched)) = [4, 7, 2]"
  by (rule fifo_dispatch_order) simp_all

lemma mlq_prio_level: "mlq_level_of x = 3 - prio_level x"
proof -
  have "unat x = 0 \<or> unat x = 1 \<or> unat x = 2 \<or> 3 \<le> unat x" by arith
  then show ?thesis by (auto simp: mlq_level_of_def prio_level_def word_le_nat_alt)
qed



section \<open>Time slices\<close>

lemma rr_tick_fields:
  "pcb_table (rr_tick s) = pcb_table s" "current_process (rr_tick s) = current_process s"
  by (auto simp: rr_tick_def Let_def)

lemma rr_tick_busy:
  assumes "busy s"
  shows "busy (rr_tick s)" and "rr_current_ticks (rr_tick s) = rr_current_ticks s + 1"
    and "scheduler_need_resched (rr_tick s) \<longleftrightarrow> scheduler_need_resched s \<or> 3 \<le> rr_current_ticks s + 1"
proof -
  have b: "busy (s\<lparr>rr_stats := x\<rparr>)" for x using assms by (simp add: busy_def cong: option.case_cong)
  show "busy (rr_tick s)" using assms rr_tick_fields[of s] by (simp add: busy_def cong: option.case_cong)
  show "rr_current_ticks (rr_tick s) = rr_current_ticks s + 1"
    "scheduler_need_resched (rr_tick s) \<longleftrightarrow> scheduler_need_resched s \<or> 3 \<le> rr_current_ticks s + 1"
    using b by (auto simp: rr_tick_def Let_def)
qed

lemma rr_ticks:
  assumes "busy s" and "rr_current_ticks s = 0" and "\<not> scheduler_need_resched s" and "n < 2 ^ 32"
  shows "busy ((rr_tick ^^ n) s) \<and> rr_current_ticks ((rr_tick ^^ n) s) = of_nat n \<and>
    (scheduler_need_resched ((rr_tick ^^ n) s) \<longleftrightarrow> 3 \<le> n)"
  using assms(4)
proof (induction n)
  case (Suc n)
  let ?s = "(rr_tick ^^ n) s"
  have IH: "busy ?s" "rr_current_ticks ?s = of_nat n" "scheduler_need_resched ?s \<longleftrightarrow> 3 \<le> n" using Suc by simp_all
  have u: "unat (of_nat (Suc n) :: u32) = Suc n" using Suc.prems by (intro unat_less_of_nat) simp
  have three: "unat (3 :: u32) = 3" by simp
  have "(3 :: u32) \<le> of_nat n + 1 \<longleftrightarrow> 3 \<le> Suc n"
    unfolding word_le_nat_alt three using u by (simp add: add.commute)
  then show ?case using IH rr_tick_busy[OF IH(1)] by auto
qed (use assms in simp)

text \<open>
  The round-robin quantum is exact: counting from the moment a process other than idle was
  picked, the timer asks for a reschedule at the third tick and not before.
\<close>
theorem rr_quantum:
  assumes "busy s" and "rr_current_ticks s = 0" and "\<not> scheduler_need_resched s" and "n < 2 ^ 32"
  shows "scheduler_need_resched ((rr_tick ^^ n) s) \<longleftrightarrow> unat QUANTUM_DEFAULT \<le> n"
  using rr_ticks[OF assms] by simp

text \<open>An instance of this: process 2 is running.\<close>
theorem rr_quantum_witness:
  "let s = (upd_pcb 0 (\<lambda>p. p\<lparr>pid := 2\<rparr>) blank_sched)\<lparr>current_process := Some 0\<rparr>
   in \<not> scheduler_need_resched ((rr_tick ^^ 2) s) \<and> scheduler_need_resched ((rr_tick ^^ 3) s)"
proof -
  let ?s = "(upd_pcb 0 (\<lambda>p. p\<lparr>pid := 2\<rparr>) blank_sched)\<lparr>current_process := Some 0\<rparr>"
  have s: "busy ?s" "rr_current_ticks ?s = 0" "\<not> scheduler_need_resched ?s"
    by (simp_all add: busy_def blank_sched_def ptab.defs sched.defs upd_pcb_def)
  show ?thesis using rr_quantum[OF s, of 2] rr_quantum[OF s, of 3] unfolding Let_def by simp
qed

end
