(* ===== verification/Proc.thy ===== *)
theory Proc
  imports Sched
begin

text \<open>
  The process manager, \<^verbatim>\<open>process/process.c\<close>, and the context switch of \<^verbatim>\<open>process/switch.asm\<close>. The state
  extends that of the schedulers by the counters of the process manager, the callee-saved registers
  of the processor and the memory of the kernel stacks, in words of eight bytes (the stacks are 16-byte aligned and
  every access to them is an aligned push or pop). The theory shows that along every run of the process manager
  each live process is the current one or waits in exactly one place, that yielding is fair under
  first come first served and round robin, and what the context switch does to the registers.
\<close>

section \<open>State\<close>

record cpu =
  cpu_rsp :: u64
  cpu_rbp :: u64
  cpu_rbx :: u64
  cpu_r12 :: u64
  cpu_r13 :: u64
  cpu_r14 :: u64
  cpu_r15 :: u64
  cpu_rip :: u64

record proc = sched +
  next_pid :: u32
  process_count :: u32
  blocked_queue :: pqueue
  cpu :: cpu
  stack_mem :: "u64 \<Rightarrow> u64"

section \<open>The context switch\<close>

definition cpu_push :: "(cpu \<Rightarrow> u64) \<Rightarrow> 'a proc_scheme \<Rightarrow> 'a proc_scheme" where
  "cpu_push reg s =
     (let sp = cpu_rsp (cpu s) - 8
      in s\<lparr>cpu := (cpu s)\<lparr>cpu_rsp := sp\<rparr>, stack_mem := (stack_mem s)(sp := reg (cpu s))\<rparr>)"

definition cpu_pop :: "(u64 \<Rightarrow> cpu \<Rightarrow> cpu) \<Rightarrow> 'a proc_scheme \<Rightarrow> 'a proc_scheme" where
  "cpu_pop set_reg s =
     s\<lparr>cpu := set_reg (stack_mem s (cpu_rsp (cpu s))) ((cpu s)\<lparr>cpu_rsp := cpu_rsp (cpu s) + 8\<rparr>)\<rparr>"

definition save_rsp :: "'a proc_scheme \<Rightarrow> 'a proc_scheme" where
  "save_rsp s = (case current_process s of
       None \<Rightarrow> s
     | Some c \<Rightarrow> upd_pcb c (\<lambda>b. b\<lparr>rsp := cpu_rsp (cpu s)\<rparr>) s)"

definition load_rsp :: "nat \<Rightarrow> 'a proc_scheme \<Rightarrow> 'a proc_scheme" where
  "load_rsp nxt s = s\<lparr>cpu := (cpu s)\<lparr>cpu_rsp := rsp (pcb_table s nxt)\<rparr>\<rparr>"

text \<open>\<open>ra\<close> is the address of the instruction after the call, which the call pushes.\<close>

definition context_switch :: "nat \<Rightarrow> u64 \<Rightarrow> 'a proc_scheme \<Rightarrow> 'a proc_scheme" where
  "context_switch nxt ra s =
     (let s = cpu_push (\<lambda>_. ra) s;
          s = cpu_push cpu_rbp s;
          s = cpu_push cpu_rbx s;
          s = cpu_push cpu_r12 s;
          s = cpu_push cpu_r13 s;
          s = cpu_push cpu_r14 s;
          s = cpu_push cpu_r15 s;
          s = save_rsp s;
          s = load_rsp nxt s;
          s = cpu_pop (\<lambda>v c. c\<lparr>cpu_r15 := v\<rparr>) s;
          s = cpu_pop (\<lambda>v c. c\<lparr>cpu_r14 := v\<rparr>) s;
          s = cpu_pop (\<lambda>v c. c\<lparr>cpu_r13 := v\<rparr>) s;
          s = cpu_pop (\<lambda>v c. c\<lparr>cpu_r12 := v\<rparr>) s;
          s = cpu_pop (\<lambda>v c. c\<lparr>cpu_rbx := v\<rparr>) s;
          s = cpu_pop (\<lambda>v c. c\<lparr>cpu_rbp := v\<rparr>) s
      in cpu_pop (\<lambda>v c. c\<lparr>cpu_rip := v\<rparr>) s)"

section \<open>Creating and ending processes\<close>

definition stack_push :: "u64 \<Rightarrow> u64 \<times> (u64 \<Rightarrow> u64) \<Rightarrow> u64 \<times> (u64 \<Rightarrow> u64)" where
  "stack_push v = (\<lambda>(sp, m). (sp - 8, m(sp - 8 := v)))"

definition process_create ::
  "u64 \<Rightarrow> string \<Rightarrow> u64 \<Rightarrow> u32 \<Rightarrow> 'a proc_scheme \<Rightarrow> (nat option \<times> 'a proc_scheme) option" where
  "process_create stacks name entry prio s = do {
     (r, s) \<leftarrow> pcb_alloc stacks s;
     (case r of
        None \<Rightarrow> Some (None, s)
      | Some p \<Rightarrow>
          let s = upd_pcb p (\<lambda>b. b\<lparr>pid := next_pid s\<rparr>) s;
              s = s\<lparr>next_pid := next_pid s + 1\<rparr>;
              s = upd_pcb p (\<lambda>b. b\<lparr>pname := take (PROCESS_NAME_MAX - 1) (takeWhile (\<lambda>c. c \<noteq> CHR 0x00) name),
                    priority := prio, state := PROCESS_READY, cr3 := 0, time_created := 0, total_ticks := 0,
                    wake_tick := 0\<rparr>) s;
              (sp, m) = fold stack_push [entry, 0, 0, 0, 0, 0, 0] (stack_base (pcb_table s p), stack_mem s);
              s = upd_pcb p (\<lambda>b. b\<lparr>rsp := sp\<rparr>) (s\<lparr>stack_mem := m\<rparr>);
              s = scheduler_add p s
          in Some (Some p, s\<lparr>process_count := process_count s + 1\<rparr>)) }"

definition process_init :: "u64 \<Rightarrow> u64 \<Rightarrow> 'a proc_scheme \<Rightarrow> 'a proc_scheme option" where
  "process_init stacks idle_process s =
     (let s = pcb_init_table s;
          s = s\<lparr>blocked_queue := queue_init, current_process := None, next_pid := 1, process_count := 0\<rparr>
      in map_option snd (process_create stacks ''idle'' idle_process PRIORITY_LOW s))"

text \<open>\<open>None\<close> is the endless \<^verbatim>\<open>cli; hlt\<close> loop that follows the panic message.\<close>

definition process_exit :: "int \<Rightarrow> u64 \<Rightarrow> 'a proc_scheme \<Rightarrow> 'a proc_scheme option" where
  "process_exit exit_code ra s =
     (case current_process s of
        None \<Rightarrow> Some s
      | Some dead \<Rightarrow>
          let s = upd_pcb dead (\<lambda>b. b\<lparr>state := PROCESS_TERMINATED\<rparr>) s;
              s = s\<lparr>process_count := process_count s - 1\<rparr>;
              (r, s) = scheduler_next s
          in (case r of
               None \<Rightarrow> None
             | Some nxt \<Rightarrow>
                 let s = upd_pcb nxt (\<lambda>b. b\<lparr>state := PROCESS_RUNNING\<rparr>) s;
                     s = s\<lparr>current_process := Some nxt\<rparr>;
                     s = pcb_free (Some dead) s
                 in Some (context_switch nxt ra s)))"

definition process_by_pid :: "u32 \<Rightarrow> 'a proc_scheme \<Rightarrow> nat option" where
  "process_by_pid k s =
     (case current_process s of
        Some c \<Rightarrow> if pid (pcb_table s c) = k then Some c else pcb_by_pid k s
      | None \<Rightarrow> pcb_by_pid k s)"

definition process_kill :: "u32 \<Rightarrow> u64 \<Rightarrow> 'a proc_scheme \<Rightarrow> (int \<times> 'a proc_scheme) option" where
  "process_kill k ra s =
     (if k = 1 then Some (- 1, s)
      else if (case current_process s of None \<Rightarrow> False | Some c \<Rightarrow> pid (pcb_table s c) = k)
      then map_option (Pair 0) (process_exit 0 ra s)
      else (case pcb_by_pid k s of
             None \<Rightarrow> Some (- 1, s)
           | Some p \<Rightarrow> do {
               s \<leftarrow> scheduler_remove p s;
               (q, s) \<leftarrow> queue_remove p (blocked_queue s) s;
               let s = upd_pcb p (\<lambda>b. b\<lparr>state := PROCESS_TERMINATED\<rparr>) (s\<lparr>blocked_queue := q\<rparr>);
               let s = s\<lparr>process_count := process_count s - 1\<rparr>;
               Some (0, pcb_free (Some p) s) }))"

text \<open>The arguments of the lines \<^verbatim>\<open>process_ps\<close> prints; it prints no ticks for the current process.\<close>

definition ps_row :: "'a proc_scheme \<Rightarrow> nat \<Rightarrow> u32 \<Rightarrow> u32 \<times> string \<times> string \<times> string \<times> u32" where
  "ps_row s p ticks = (pid (pcb_table s p), pname (pcb_table s p), process_state_str (state (pcb_table s p)),
     process_priority_str (priority (pcb_table s p)), ticks)"

definition process_ps :: "'a proc_scheme \<Rightarrow> (u32 \<times> string \<times> string \<times> string \<times> u32) list" where
  "process_ps s =
     (case current_process s of None \<Rightarrow> [] | Some c \<Rightarrow> [ps_row s c 0]) @
     map (\<lambda>p. ps_row s p (total_ticks (pcb_table s p)))
       (filter (\<lambda>p. Some p \<noteq> current_process s) (pcb_enum_active 64 s))"

definition yield :: "u64 \<Rightarrow> 'a proc_scheme \<Rightarrow> 'a proc_scheme option" where
  "yield ra s =
     (case current_process s of
        None \<Rightarrow> Some s
      | Some c \<Rightarrow>
          let s = upd_pcb c (\<lambda>b. b\<lparr>state := PROCESS_READY\<rparr>) s;
              s = scheduler_add c s;
              (r, s) = scheduler_next s
          in (case r of
               None \<Rightarrow> scheduler_remove c s
             | Some nxt \<Rightarrow>
                 let s = upd_pcb nxt (\<lambda>b. b\<lparr>state := PROCESS_RUNNING\<rparr>) s;
                     s = s\<lparr>current_process := Some nxt\<rparr>
                 in Some (context_switch nxt ra s)))"

section \<open>What the context switch does\<close>

text \<open>The memory after the seven pushes, and the registers the seven pops load.\<close>

definition saved_frame :: "u64 \<Rightarrow> cpu \<Rightarrow> (u64 \<Rightarrow> u64) \<Rightarrow> u64 \<Rightarrow> u64" where
  "saved_frame ra c m = m(cpu_rsp c - 8 := ra, cpu_rsp c - 16 := cpu_rbp c, cpu_rsp c - 24 := cpu_rbx c,
     cpu_rsp c - 32 := cpu_r12 c, cpu_rsp c - 40 := cpu_r13 c, cpu_rsp c - 48 := cpu_r14 c,
     cpu_rsp c - 56 := cpu_r15 c)"

definition loaded_frame :: "u64 \<Rightarrow> (u64 \<Rightarrow> u64) \<Rightarrow> cpu" where
  "loaded_frame sp m = \<lparr>cpu_rsp = sp + 56, cpu_rbp = m (sp + 40), cpu_rbx = m (sp + 32), cpu_r12 = m (sp + 24),
     cpu_r13 = m (sp + 16), cpu_r14 = m (sp + 8), cpu_r15 = m sp, cpu_rip = m (sp + 48)\<rparr>"

definition switch_saved :: "'a proc_scheme \<Rightarrow> 'a proc_scheme" where
  "switch_saved s = (case current_process s of None \<Rightarrow> s
     | Some c \<Rightarrow> upd_pcb c (\<lambda>b. b\<lparr>rsp := cpu_rsp (cpu s) - 56\<rparr>) s)"

lemma cpu_push_step:
  "cpu_push reg (s\<lparr>cpu := c, stack_mem := m\<rparr>) =
     s\<lparr>cpu := c\<lparr>cpu_rsp := cpu_rsp c - 8\<rparr>, stack_mem := m(cpu_rsp c - 8 := reg c)\<rparr>"
  by (simp add: cpu_push_def Let_def)

lemma pushes_eq:
  "cpu_push cpu_r15 (cpu_push cpu_r14 (cpu_push cpu_r13 (cpu_push cpu_r12 (cpu_push cpu_rbx (cpu_push cpu_rbp
     (cpu_push (\<lambda>_. ra) (s\<lparr>cpu := c, stack_mem := m\<rparr>))))))) =
   s\<lparr>cpu := c\<lparr>cpu_rsp := cpu_rsp c - 56\<rparr>, stack_mem := saved_frame ra c m\<rparr>"
  unfolding cpu_push_step saved_frame_def by simp

lemma pops_eq:
  "cpu_pop (\<lambda>v c. c\<lparr>cpu_rip := v\<rparr>) (cpu_pop (\<lambda>v c. c\<lparr>cpu_rbp := v\<rparr>) (cpu_pop (\<lambda>v c. c\<lparr>cpu_rbx := v\<rparr>)
     (cpu_pop (\<lambda>v c. c\<lparr>cpu_r12 := v\<rparr>) (cpu_pop (\<lambda>v c. c\<lparr>cpu_r13 := v\<rparr>) (cpu_pop (\<lambda>v c. c\<lparr>cpu_r14 := v\<rparr>)
       (cpu_pop (\<lambda>v c. c\<lparr>cpu_r15 := v\<rparr>) s)))))) =
   s\<lparr>cpu := loaded_frame (cpu_rsp (cpu s)) (stack_mem s)\<rparr>"
  by (cases "cpu s") (simp add: cpu_pop_def loaded_frame_def add.commute)

lemma context_switch_eq:
  "context_switch nxt ra s =
     (switch_saved s)\<lparr>cpu := loaded_frame (rsp (pcb_table (switch_saved s) nxt)) (saved_frame ra (cpu s) (stack_mem s)),
       stack_mem := saved_frame ra (cpu s) (stack_mem s)\<rparr>"
  unfolding context_switch_def Let_def pops_eq pushes_eq[where s = s and c = "cpu s" and m = "stack_mem s", simplified]
  by (simp add: save_rsp_def load_rsp_def switch_saved_def upd_pcb_def split: option.splits)

lemma loaded_saved: "loaded_frame (cpu_rsp c - 56) (saved_frame ra c m) = c\<lparr>cpu_rip := ra\<rparr>"
  by (simp add: loaded_frame_def saved_frame_def)

text \<open>The stack words a switch saves to or loads from, below the stack pointer \<open>sp\<close>.\<close>

definition frame_addrs :: "u64 \<Rightarrow> u64 set" where
  "frame_addrs sp = {sp - 8, sp - 16, sp - 24, sp - 32, sp - 40, sp - 48, sp - 56}"

lemma saved_frame_outside: "a \<notin> frame_addrs (cpu_rsp c) \<Longrightarrow> saved_frame ra c m a = m a"
  by (simp add: frame_addrs_def saved_frame_def)

lemma loaded_frame_cong:
  "(\<And>a. a \<in> frame_addrs sp \<Longrightarrow> m a = m' a) \<Longrightarrow> loaded_frame (sp - 56) m = loaded_frame (sp - 56) m'"
  by (simp add: frame_addrs_def loaded_frame_def)

lemma switch_saved_fields [simp]:
  "current_process (switch_saved s) = current_process s"
  "rsp (pcb_table (switch_saved s) n) =
     (if current_process s = Some n then cpu_rsp (cpu s) - 56 else rsp (pcb_table s n))"
  by (auto simp: switch_saved_def upd_pcb_def split: option.splits)

lemma context_switch_cpu:
  "cpu (context_switch n ra s) =
     (if current_process s = Some n then (cpu s)\<lparr>cpu_rip := ra\<rparr>
      else loaded_frame (rsp (pcb_table s n)) (saved_frame ra (cpu s) (stack_mem s)))"
  by (simp add: context_switch_eq loaded_saved)

text \<open>
  C18. A context switch is undone by the switch back. Let process \<open>c\<close> switch to \<open>n\<close> while it is still
  the current process. As long as nobody touches the saved stack pointer of \<open>c\<close> and the seven words
  below it, a later switch back to \<open>c\<close> continues right after the call, with the stack pointer and
  all callee-saved registers as they were.
\<close>
theorem context_switch_roundtrip:
  assumes "current_process s = Some c" and "s1 = context_switch n ra s"
    and "current_process s2 \<noteq> Some c" and "rsp (pcb_table s2 c) = rsp (pcb_table s1 c)"
    and "\<forall>a \<in> frame_addrs (cpu_rsp (cpu s)). stack_mem s2 a = stack_mem s1 a"
    and "frame_addrs (cpu_rsp (cpu s2)) \<inter> frame_addrs (cpu_rsp (cpu s)) = {}"
  shows "cpu (context_switch c ra2 s2) = (cpu s)\<lparr>cpu_rip := ra\<rparr>"
proof -
  have sp: "rsp (pcb_table s2 c) = cpu_rsp (cpu s) - 56"
    and m: "stack_mem s1 = saved_frame ra (cpu s) (stack_mem s)"
    using assms(1,2,4) by (simp_all add: context_switch_eq)
  have "saved_frame ra2 (cpu s2) (stack_mem s2) a = saved_frame ra (cpu s) (stack_mem s) a"
    if "a \<in> frame_addrs (cpu_rsp (cpu s))" for a
    using that assms(5,6) m saved_frame_outside[of a "cpu s2" ra2 "stack_mem s2"] by auto
  then have "loaded_frame (cpu_rsp (cpu s) - 56) (saved_frame ra2 (cpu s2) (stack_mem s2)) =
      loaded_frame (cpu_rsp (cpu s) - 56) (saved_frame ra (cpu s) (stack_mem s))"
    by (rule loaded_frame_cong)
  then show ?thesis using assms(3) sp by (simp add: context_switch_cpu loaded_saved)
qed

section \<open>Where every live process is\<close>

text \<open>
  \<open>A\<close>: the slots of live processes; \<open>n\<close> processes were created so far. Process identifiers are unique.
\<close>

definition live_procs :: "'a ptab_scheme \<Rightarrow> nat set" where
  "live_procs s = {i. i < MAX_PROCESSES \<and> is_active (pcb_table s i)}"

definition tab_inv :: "nat \<Rightarrow> nat set \<Rightarrow> 'a proc_scheme \<Rightarrow> bool" where
  "tab_inv n A s \<longleftrightarrow> pcb_inv s \<and> live_procs s = A \<and>
     (\<forall>i < MAX_PROCESSES. state (pcb_table s i) \<noteq> PROCESS_EMBRYO) \<and>
     inj_on (\<lambda>i. pid (pcb_table s i)) A \<and> (\<forall>i \<in> A. unat (pid (pcb_table s i)) \<in> {1..n}) \<and>
     unat (next_pid s) = n + 1 \<and> process_count s = of_nat (card A) \<and> blocked_queue s = queue_init"

text \<open>
  The live processes are the current one, those in the ready queue \<open>L\<close>, and the processes \<open>D\<close> that
  were dropped when the scheduling algorithm was (re)started.
\<close>

definition proc_inv :: "nat \<Rightarrow> nat set \<Rightarrow> nat list \<Rightarrow> 'a proc_scheme \<Rightarrow> bool" where
  "proc_inv n D L s \<longleftrightarrow> tab_inv n (set L \<union> set_option (current_process s) \<union> D) s \<and> sched_ready s L \<and>
     set L \<inter> set_option (current_process s) = {} \<and> D \<inter> (set L \<union> set_option (current_process s)) = {}"

lemma finite_live_procs [simp]: "finite (live_procs s)"
  by (simp add: live_procs_def)

lemma level_ready_cong:
  assumes "level_ready lv vs s qs L" and "set vs = {..<4}"
    and same: "\<forall>x \<in> set L. next (pcb_table s' x) = next (pcb_table s x) \<and> priority (pcb_table s' x) = priority (pcb_table s x)"
  shows "level_ready lv vs s' qs L"
proof -
  obtain xss where x: "length xss = 4" "levels_rep queue_rep s qs xss"
      "\<forall>i < 4. \<forall>x \<in> set (xss ! i). lv (priority (pcb_table s x)) = i" "L = concat (map ((!) xss) vs)"
    using assms(1) by (auto simp: level_ready_def)
  have sub: "x \<in> set L" if "i < 4" "x \<in> set (xss ! i)" for i x using that x(4) assms(2) by auto
  have "links (pcb_table s') (xss ! i) = links (pcb_table s) (xss ! i)" if "i < 4" for i
    using sub[OF that] same by (intro links_cong) simp
  then have "levels_rep queue_rep s' qs xss" using x(1,2) by (simp add: levels_rep_def queue_rep_def)
  moreover have "\<forall>i < 4. \<forall>x \<in> set (xss ! i). lv (priority (pcb_table s' x)) = i" using x(3) sub same by simp
  ultimately show ?thesis using x(1,4) by (auto simp: level_ready_def)
qed

lemma queue_rep_cong:
  assumes "queue_rep s q L" and "\<forall>x \<in> set L. next (pcb_table s' x) = next (pcb_table s x)"
  shows "queue_rep s' q L"
  using assms links_cong[of L "pcb_table s'" "pcb_table s"] by (simp add: queue_rep_def)

definition same_queues :: "'a sched_scheme \<Rightarrow> 'a sched_scheme \<Rightarrow> bool" where
  "same_queues s s' \<longleftrightarrow> g_scheduler s' = g_scheduler s \<and> fcfs_queue s' = fcfs_queue s \<and> rr_queue s' = rr_queue s \<and>
     priority_queues s' = priority_queues s \<and> mlq_queues s' = mlq_queues s"

lemma sched_ready_cong:
  assumes ready: "sched_ready s L" and q: "same_queues s s'"
    and same: "\<forall>x \<in> set L. next (pcb_table s' x) = next (pcb_table s x) \<and> priority (pcb_table s' x) = priority (pcb_table s x)"
  shows "sched_ready s' L"
proof -
  note cong = queue_rep_cong[of s _ L s'] level_ready_cong[OF _ vs_sets(1) same] level_ready_cong[OF _ vs_sets(2) same]
  show ?thesis
    using ready q same cong
    by (auto simp: sched_ready_def same_queues_def fcfs_ready_def rr_ready_def prio_ready_def mlq_ready_def
        split: option.splits scheduler_id.splits)
qed

lemma kept_fields:
  assumes "sched_kept s (s' :: 'a proc_scheme)"
  shows "next_pid s' = next_pid s" "process_count s' = process_count s" "blocked_queue s' = blocked_queue s"
    "cpu s' = cpu s" "stack_mem s' = stack_mem s" "current_process s' = current_process s"
    "slot_free_map s' = slot_free_map s"
    "state (pcb_table s' x) = state (pcb_table s x)" "pid (pcb_table s' x) = pid (pcb_table s x)"
    "rsp (pcb_table s' x) = rsp (pcb_table s x)" "priority (pcb_table s' x) = priority (pcb_table s x)"
proof -
  have "sched.more s' = sched.more s" using assms by (simp add: sched_kept_def)
  then show "next_pid s' = next_pid s" "process_count s' = process_count s" "blocked_queue s' = blocked_queue s"
    "cpu s' = cpu s" "stack_mem s' = stack_mem s" by (cases s; cases s'; simp)+
  show "current_process s' = current_process s" "slot_free_map s' = slot_free_map s"
    using assms by (simp_all add: sched_kept_def)
  have e: "(pcb_table s' x)\<lparr>next := None\<rparr> = (pcb_table s x)\<lparr>next := None\<rparr>" using assms by (simp add: sched_kept_def)
  show "state (pcb_table s' x) = state (pcb_table s x)" "pid (pcb_table s' x) = pid (pcb_table s x)"
    "rsp (pcb_table s' x) = rsp (pcb_table s x)" "priority (pcb_table s' x) = priority (pcb_table s x)"
    using arg_cong[OF e, of pid] arg_cong[OF e, of state] arg_cong[OF e, of priority] arg_cong[OF e, of rsp] by simp_all
qed

lemma tab_inv_cong:
  assumes "tab_inv n A s" and "slot_free_map s' = slot_free_map s"
    and "\<forall>i. pid (pcb_table s' i) = pid (pcb_table s i)"
    and "\<forall>i < MAX_PROCESSES. state (pcb_table s' i) = state (pcb_table s i) \<or>
      is_active (pcb_table s i) \<and> is_active (pcb_table s' i)"
    and "next_pid s' = next_pid s" "process_count s' = process_count s" "blocked_queue s' = blocked_queue s"
  shows "tab_inv n A s'"
proof -
  have "live_procs s' = live_procs s" using assms(4) by (auto simp: live_procs_def is_active_def)
  moreover have "pcb_inv s'" using assms(1,2,4) by (fastforce simp: tab_inv_def pcb_inv_def is_active_def)
  moreover have "\<forall>i < MAX_PROCESSES. state (pcb_table s' i) \<noteq> PROCESS_EMBRYO"
    using assms(1,4) by (fastforce simp: tab_inv_def is_active_def)
  ultimately show ?thesis using assms by (simp add: tab_inv_def)
qed

lemma tab_inv_kept: "tab_inv n A s \<Longrightarrow> sched_kept s s' \<Longrightarrow> tab_inv n A s'"
  by (rule tab_inv_cong) (simp_all add: kept_fields)

lemma switch_saved_keeps [simp]:
  "slot_free_map (switch_saved s) = slot_free_map s" "next_pid (switch_saved s) = next_pid s"
  "process_count (switch_saved s) = process_count s" "blocked_queue (switch_saved s) = blocked_queue s"
  "pid (pcb_table (switch_saved s) i) = pid (pcb_table s i)" "state (pcb_table (switch_saved s) i) = state (pcb_table s i)"
  "next (pcb_table (switch_saved s) i) = next (pcb_table s i)"
  "priority (pcb_table (switch_saved s) i) = priority (pcb_table s i)"
  "g_scheduler (switch_saved s) = g_scheduler s" "fcfs_queue (switch_saved s) = fcfs_queue s"
  "rr_queue (switch_saved s) = rr_queue s" "priority_queues (switch_saved s) = priority_queues s"
  "mlq_queues (switch_saved s) = mlq_queues s"
  by (auto simp: switch_saved_def upd_pcb_def split: option.splits)

lemma context_switch_keeps [simp]:
  "current_process (context_switch n ra s) = current_process s" "g_scheduler (context_switch n ra s) = g_scheduler s"
  "rsp (pcb_table (context_switch n ra s) m) =
     (if current_process s = Some m then cpu_rsp (cpu s) - 56 else rsp (pcb_table s m))"
  by (simp_all add: context_switch_eq)

lemma context_switch_inv:
  "tab_inv m A s \<Longrightarrow> tab_inv m A (context_switch n ra s)"
  "sched_ready s L \<Longrightarrow> sched_ready (context_switch n ra s) L"
  subgoal by (erule tab_inv_cong) (simp_all add: context_switch_eq)
  subgoal by (erule sched_ready_cong) (simp_all add: context_switch_eq same_queues_def)
  done

lemma set_state_inv:
  assumes "tab_inv n A s" and "p \<in> A" and "st = PROCESS_READY \<or> st = PROCESS_RUNNING"
  shows "tab_inv n A (upd_pcb p (\<lambda>b. b\<lparr>state := st\<rparr>) s)"
  using assms(1)
  by (rule tab_inv_cong)
    (use assms in \<open>auto simp: upd_pcb_def tab_inv_def live_procs_def is_active_def\<close>)

lemma upd_pcb_ready:
  assumes "sched_ready s L" and "\<And>b. next (f b) = next b" and "\<And>b. priority (f b) = priority b"
  shows "sched_ready (upd_pcb p f s) L"
  using assms(1) by (rule sched_ready_cong) (simp_all add: assms same_queues_def upd_pcb_def)

lemma set_current_inv:
  "tab_inv n A s \<Longrightarrow> tab_inv n A (s\<lparr>current_process := c\<rparr>)"
  "sched_ready s L \<Longrightarrow> sched_ready (s\<lparr>current_process := c\<rparr>) L"
  subgoal by (erule tab_inv_cong) simp_all
  subgoal by (erule sched_ready_cong) (simp_all add: same_queues_def)
  done

lemma tab_inv_end:
  assumes inv: "tab_inv n A s" and p: "p \<in> A" and "state (pcb_table s' p) = PROCESS_TERMINATED"
    and st: "\<forall>i. i \<noteq> p \<longrightarrow> state (pcb_table s' i) = state (pcb_table s i) \<or>
      is_active (pcb_table s i) \<and> is_active (pcb_table s' i)"
    and "free_slots s' = insert p (free_slots s)" and "\<forall>i. pid (pcb_table s' i) = pid (pcb_table s i)"
    and "next_pid s' = next_pid s" "process_count s' = process_count s - 1" "blocked_queue s' = blocked_queue s"
  shows "tab_inv n (A - {p}) s'"
proof -
  have live: "live_procs s' = live_procs s - {p}"
    using assms(3,4) by (auto simp: live_procs_def is_active_def)
  have "pcb_inv s'"
    using inv assms(3,5) st by (fastforce simp: tab_inv_def pcb_inv_def is_active_def free_slots_def set_eq_iff)
  moreover have "state (pcb_table s' i) \<noteq> PROCESS_EMBRYO" if "i < MAX_PROCESSES" for i
    using that inv assms(3) st[rule_format, of i] by (cases "i = p") (auto simp: tab_inv_def is_active_def)
  moreover have "finite A" using inv by (auto simp: tab_inv_def)
  then have "process_count s' = of_nat (card (A - {p}))"
    using inv p assms(8) card_gt_0_iff[of A] by (auto simp: tab_inv_def)
  ultimately show ?thesis using inv live assms(6,7,9) by (auto simp: tab_inv_def inj_on_def)
qed

lemma pick_ready:
  assumes "sched_ready s L"
  shows "L = [] \<Longrightarrow> \<exists>s'. scheduler_next s = (None, s') \<and> sched_ready s' [] \<and> sched_kept s s'"
    and "L = x # L' \<Longrightarrow> \<exists>s'. scheduler_next s = (Some x, s') \<and> sched_ready s' L' \<and> sched_kept s s'"
  using dispatch.pick_Nil[of s] dispatch.pick_Cons[of s x L'] assms scheduler_kept(2)[of s] by fastforce+

lemma add_ready:
  assumes "sched_ready s L" and "p \<notin> set L"
  obtains A B where "L = A @ B" and "sched_ready (scheduler_add p s) (A @ p # B)"
    and "g_scheduler s = Some SCHED_FCFS \<or> g_scheduler s = Some SCHED_RR \<longrightarrow> B = []"
proof (cases "g_scheduler s = Some SCHED_FCFS \<or> g_scheduler s = Some SCHED_RR")
  case True
  have "sched_ready (scheduler_add p s) (L @ [p])"
    using True assms fcfs_add_ok[of s L p] rr_add_ok[of s L p] add_kept[of s p]
    by (auto simp: sched_ready_def scheduler_add_def sched_kept_def)
  then show thesis by (intro that[of L "[]"]) simp_all
next
  case False
  then show thesis using that dispatch.add_ok[OF assms] by blast
qed

section \<open>Every operation keeps the processes accounted for\<close>

lemma no_current [simp]:
  "current_process s = None \<Longrightarrow> yield ra s = Some s" "current_process s = None \<Longrightarrow> process_exit e ra s = Some s"
  by (simp_all add: yield_def process_exit_def)

lemma yield_step:
  assumes inv: "proc_inv n D L s" and c: "current_process s = Some c"
  obtains x L' s' where "yield ra s = Some s'" and "proc_inv n D L' s'" and "current_process s' = Some x"
    and "insert x (set L') = insert c (set L)" and "g_scheduler s' = g_scheduler s"
    and "g_scheduler s = Some SCHED_FCFS \<or> g_scheduler s = Some SCHED_RR \<longrightarrow> x # L' = L @ [c]"
    and "cpu s' = (cpu s)\<lparr>cpu_rip := ra\<rparr>" and "rsp (pcb_table s' x) = cpu_rsp (cpu s) - 56"
proof -
  define s1 where "s1 = upd_pcb c (\<lambda>b. b\<lparr>state := PROCESS_READY\<rparr>) s"
  have t: "tab_inv n (set L \<union> {c} \<union> D) s" and r: "sched_ready s L" and cL: "c \<notin> set L" "D \<inter> (set L \<union> {c}) = {}"
    using inv c by (auto simp: proc_inv_def)
  have r1: "sched_ready s1 L" unfolding s1_def using r by (rule upd_pcb_ready) simp_all
  have t1: "tab_inv n (set L \<union> {c} \<union> D) s1" unfolding s1_def by (rule set_state_inv[OF t]) simp_all
  have e1: "g_scheduler s1 = g_scheduler s" "current_process s1 = Some c" "cpu s1 = cpu s"
    by (simp_all add: s1_def upd_pcb_def c)
  obtain A B where AB: "L = A @ B" "sched_ready (scheduler_add c s1) (A @ c # B)"
      "g_scheduler s1 = Some SCHED_FCFS \<or> g_scheduler s1 = Some SCHED_RR \<longrightarrow> B = []"
    by (rule add_ready[OF r1 cL(1)])
  obtain x L' where x: "A @ c # B = x # L'" by (cases A) auto
  have xc: "insert x (set L') = insert c (set L)" using arg_cong[OF x, of set] AB(1) by auto
  obtain s2 where s2: "scheduler_next (scheduler_add c s1) = (Some x, s2)" "sched_ready s2 L'"
      "sched_kept (scheduler_add c s1) s2"
    using pick_ready(2)[OF AB(2) x] by blast
  note k = kept_fields[OF scheduler_kept(1)[of s1 c]] kept_fields[OF s2(3)]
  define s3 where "s3 = (upd_pcb x (\<lambda>b. b\<lparr>state := PROCESS_RUNNING\<rparr>) s2)\<lparr>current_process := Some x\<rparr>"
  have y: "yield ra s = Some (context_switch x ra s3)"
    using s2(1) by (simp add: yield_def c s1_def[symmetric] s3_def Let_def)
  have t2: "tab_inv n (set L \<union> {c} \<union> D) s2"
    by (rule tab_inv_kept[OF tab_inv_kept[OF t1 scheduler_kept(1)] s2(3)])
  have "x \<in> set L \<union> {c} \<union> D" using xc by auto
  from set_current_inv(1)[OF set_state_inv[OF t2 this]] have t3: "tab_inv n (set L \<union> {c} \<union> D) s3"
    by (simp add: s3_def)
  have r3: "sched_ready s3 L'" unfolding s3_def by (intro set_current_inv(2) upd_pcb_ready[OF s2(2)]) simp_all
  have e3: "current_process s3 = Some x" "cpu s3 = cpu s" "g_scheduler s3 = g_scheduler s"
    using k e1 s2(3) scheduler_kept(1)[of s1 c] by (simp_all add: s3_def upd_pcb_def sched_kept_def)
  have d: "distinct (x # L')" using dispatch.ready_distinct[OF AB(2)] x by simp
  have u: "set L \<union> {c} \<union> D = set L' \<union> {x} \<union> D" using xc by auto
  have "proc_inv n D L' (context_switch x ra s3)"
    using context_switch_inv(1)[OF t3, of x ra] context_switch_inv(2)[OF r3, of x ra] e3(1) d xc cL(2)
    unfolding proc_inv_def by (auto simp: u)
  then show thesis
    using y xc e3 x AB(1,3) e1(1)
    by (intro that[of "context_switch x ra s3" L' x]) (auto simp: context_switch_cpu)
qed

lemma end_process:
  assumes inv: "tab_inv n A s" and p: "p \<in> A"
    and s': "\<forall>i. pid (pcb_table s' i) = pid (pcb_table s i)" "\<forall>i. i \<noteq> p \<longrightarrow> state (pcb_table s' i) = state (pcb_table s i) \<or>
      is_active (pcb_table s i) \<and> is_active (pcb_table s' i)"
    "slot_free_map s' = slot_free_map s" "next_pid s' = next_pid s" "process_count s' = process_count s - 1"
    "blocked_queue s' = blocked_queue s"
  shows "tab_inv n (A - {p}) (pcb_free (Some p) s')"
proof -
  have pm: "p < MAX_PROCESSES" using inv p by (auto simp: tab_inv_def live_procs_def)
  have fs: "free_slots s' = free_slots s" by (simp add: free_slots_def s'(3))
  have f: "next_pid (pcb_free (Some p) s') = next_pid s'" "process_count (pcb_free (Some p) s') = process_count s'"
    "blocked_queue (pcb_free (Some p) s') = blocked_queue s'"
    using pm by (simp_all add: pcb_free_def mark_slot_free_def upd_pcb_def)
  show ?thesis
    using inv p
    by (rule tab_inv_end) (use s' f fs in \<open>simp_all add: pcb_free_spec[OF pm] is_active_def\<close>)
qed

lemma pcb_free_ready: "sched_ready s L \<Longrightarrow> sched_ready (pcb_free (Some p) s) L"
  by (erule sched_ready_cong) (auto simp: same_queues_def pcb_free_def mark_slot_free_def upd_pcb_def)

lemma pcb_free_current [simp]: "current_process (pcb_free q s) = current_process s"
  by (simp add: pcb_free_def mark_slot_free_def upd_pcb_def split: option.splits)

lemma exit_step:
  assumes inv: "proc_inv n D L s" and c: "current_process s = Some c"
  shows "L = [] \<Longrightarrow> process_exit e ra s = None"
    and "L = x # L' \<Longrightarrow> \<exists>s'. process_exit e ra s = Some s' \<and> proc_inv n D L' s' \<and> current_process s' = Some x \<and>
      live_procs s' = live_procs s - {c}"
proof -
  define s1 where "s1 = (upd_pcb c (\<lambda>b. b\<lparr>state := PROCESS_TERMINATED\<rparr>) s)\<lparr>process_count := process_count s - 1\<rparr>"
  have t: "tab_inv n (set L \<union> {c} \<union> D) s" and r: "sched_ready s L" and cL: "c \<notin> set L" "D \<inter> (set L \<union> {c}) = {}"
    using inv c by (auto simp: proc_inv_def)
  have r1: "sched_ready s1 L"
    using r by (rule sched_ready_cong) (simp_all add: s1_def upd_pcb_def same_queues_def)
  have e: "process_exit e ra s = (case scheduler_next s1 of (None, s2) \<Rightarrow> None
      | (Some x, s2) \<Rightarrow> Some (context_switch x ra (pcb_free (Some c)
          ((upd_pcb x (\<lambda>b. b\<lparr>state := PROCESS_RUNNING\<rparr>) s2)\<lparr>current_process := Some x\<rparr>))))"
    by (simp add: process_exit_def c s1_def upd_pcb_def Let_def split: prod.splits option.splits)
  show "L = [] \<Longrightarrow> process_exit e ra s = None" using pick_ready(1)[OF r1] by (auto simp: e)
  assume L: "L = x # L'"
  obtain s2 where s2: "scheduler_next s1 = (Some x, s2)" "sched_ready s2 L'" "sched_kept s1 s2"
    using pick_ready(2)[OF r1 L] by blast
  define s3 where "s3 = (upd_pcb x (\<lambda>b. b\<lparr>state := PROCESS_RUNNING\<rparr>) s2)\<lparr>current_process := Some x\<rparr>"
  have ex: "process_exit e ra s = Some (context_switch x ra (pcb_free (Some c) s3))"
    by (simp add: e s2(1) s3_def)
  have d: "distinct (x # L')" using dispatch.ready_distinct[OF r] L by simp
  have xc: "x \<noteq> c" using L cL by auto
  have x: "is_active (pcb_table s x)" using t L by (auto simp: tab_inv_def live_procs_def)
  have "tab_inv n (set L \<union> {c} \<union> D - {c}) (pcb_free (Some c) s3)"
    using t
  proof (rule end_process)
    show "\<forall>i. i \<noteq> c \<longrightarrow> state (pcb_table s3 i) = state (pcb_table s i) \<or> is_active (pcb_table s i) \<and> is_active (pcb_table s3 i)"
      using kept_fields[OF s2(3)] x by (auto simp: s3_def s1_def upd_pcb_def is_active_def)
  qed (use kept_fields[OF s2(3)] in \<open>auto simp: s3_def s1_def upd_pcb_def\<close>)
  moreover have "set L \<union> {c} \<union> D - {c} = set L' \<union> {x} \<union> D" using L cL by auto
  ultimately have t3: "tab_inv n (set L' \<union> {x} \<union> D) (context_switch x ra (pcb_free (Some c) s3))"
    using context_switch_inv(1) by metis
  have r3: "sched_ready (context_switch x ra (pcb_free (Some c) s3)) L'"
    unfolding s3_def by (intro context_switch_inv(2) pcb_free_ready set_current_inv(2) upd_pcb_ready[OF s2(2)]) simp_all
  have "live_procs (context_switch x ra (pcb_free (Some c) s3)) = live_procs s - {c}"
    using t t3 cL L by (auto simp: tab_inv_def)
  then show "\<exists>s'. process_exit e ra s = Some s' \<and> proc_inv n D L' s' \<and> current_process s' = Some x \<and>
      live_procs s' = live_procs s - {c}"
    using ex t3 r3 d cL L by (auto simp: proc_inv_def s3_def)
qed

lemma tab_inv_new:
  assumes inv: "tab_inv n A s" and n: "n + 2 < 2 ^ 32" and p: "p \<in> free_slots s" "free_slots s' = free_slots s - {p}"
    and st: "\<forall>i. i \<noteq> p \<longrightarrow> state (pcb_table s' i) = state (pcb_table s i) \<and> pid (pcb_table s' i) = pid (pcb_table s i)"
    and new: "state (pcb_table s' p) = PROCESS_READY" "pid (pcb_table s' p) = next_pid s"
    and "next_pid s' = next_pid s + 1" "process_count s' = process_count s + 1" "blocked_queue s' = blocked_queue s"
  shows "p \<notin> A" and "tab_inv (n + 1) (insert p A) s'"
proof -
  have pm: "p < MAX_PROCESSES" by (rule free_slots_bound[OF p(1)])
  show pA: "p \<notin> A"
    using inv p(1) pm by (auto simp: tab_inv_def live_procs_def pcb_inv_def free_slots_def is_active_def)
  have "i \<in> live_procs s' \<longleftrightarrow> i = p \<or> i \<in> live_procs s" for i
    using st[rule_format, of i] new(1) pm by (cases "i = p") (simp_all add: live_procs_def is_active_def)
  then have live: "live_procs s' = insert p (live_procs s)" by blast
  have "i \<in> free_slots s' \<longleftrightarrow> state (pcb_table s' i) = PROCESS_TERMINATED" if "i < MAX_PROCESSES" for i
    using inv p(2) st new(1) that by (cases "i = p") (auto simp: tab_inv_def pcb_inv_def free_slots_def)
  then have "pcb_inv s'" by (simp add: pcb_inv_def free_slots_def)
  moreover have "state (pcb_table s' i) \<noteq> PROCESS_EMBRYO" if "i < MAX_PROCESSES" for i
    using that inv new(1) st by (cases "i = p") (auto simp: tab_inv_def)
  moreover have np: "unat (next_pid s) = n + 1" using inv by (simp add: tab_inv_def)
  moreover have "unat (next_pid s + 1) = n + 2"
    using np n by (subst unat_add_lem[THEN iffD1]) simp_all
  moreover have "\<forall>i \<in> insert p A. unat (pid (pcb_table s' i)) \<in> {1..n + 1}"
    using inv np st new(2) pA by (auto simp: tab_inv_def) (metis le_SucI)
  moreover have "inj_on (\<lambda>i. pid (pcb_table s' i)) (insert p A)"
  proof -
    have "pid (pcb_table s i) \<noteq> next_pid s" if "i \<in> A" for i using inv np that by (fastforce simp: tab_inv_def)
    moreover have "inj_on (\<lambda>i. pid (pcb_table s' i)) A \<longleftrightarrow> inj_on (\<lambda>i. pid (pcb_table s i)) A"
      using st pA by (intro inj_on_cong) metis
    ultimately show ?thesis using inv st new(2) pA by (auto simp: tab_inv_def) metis
  qed
  moreover have "process_count s' = of_nat (card (insert p A))"
  proof -
    have "finite A" using inv by (auto simp: tab_inv_def)
    then show ?thesis using inv pA assms(9) by (simp add: tab_inv_def)
  qed
  ultimately show "tab_inv (n + 1) (insert p A) s'" using inv live assms(8,10) by (simp add: tab_inv_def)
qed

lemma more_fields:
  assumes "ptab.more s' = ptab.more (s :: 'a proc_scheme)"
  shows "same_queues s s'" "current_process s' = current_process s" "next_pid s' = next_pid s"
    "process_count s' = process_count s" "blocked_queue s' = blocked_queue s" "cpu s' = cpu s" "stack_mem s' = stack_mem s"
  using assms by (cases s; cases s'; simp add: same_queues_def)+

lemma process_create_full:
  "free_slots s = {} \<Longrightarrow> process_create stacks name entry prio s = Some (None, s)"
  by (simp add: process_create_def pcb_alloc_full)

text \<open>The frame \<open>process_create\<close> builds for the first switch to the process.\<close>

definition initial_frame :: "u64 \<Rightarrow> u64 \<Rightarrow> (u64 \<Rightarrow> u64) \<Rightarrow> u64 \<Rightarrow> u64" where
  "initial_frame entry sp = saved_frame entry
     \<lparr>cpu_rsp = sp, cpu_rbp = 0, cpu_rbx = 0, cpu_r12 = 0, cpu_r13 = 0, cpu_r14 = 0, cpu_r15 = 0, cpu_rip = 0\<rparr>"

lemma initial_stack:
  "fold stack_push [entry, 0, 0, 0, 0, 0, 0] (sp, m) = (sp - 56, initial_frame entry sp m)"
  by (simp add: stack_push_def initial_frame_def saved_frame_def)

text \<open>\<open>process_create\<close> when a slot is free: the state just before \<open>scheduler_add\<close>.\<close>

lemma create_alloc:
  assumes ne: "free_slots s \<noteq> {}" and p: "p = Min (free_slots s)"
  obtains t where "process_create stacks name entry prio s =
        Some (Some p, (scheduler_add p t)\<lparr>process_count := process_count (scheduler_add p t) + 1\<rparr>)"
    and "free_slots t = free_slots s - {p}" and "\<forall>j. j \<noteq> p \<longrightarrow> pcb_table t j = pcb_table s j"
    and "state (pcb_table t p) = PROCESS_READY" and "pid (pcb_table t p) = next_pid s"
    and "priority (pcb_table t p) = prio"
    and "rsp (pcb_table t p) = stacks + of_nat p * STACK_SIZE + STACK_SIZE - 56"
    and "stack_mem t = initial_frame entry (stacks + of_nat p * STACK_SIZE + STACK_SIZE) (stack_mem s)"
    and "same_queues s t" and "current_process t = current_process s" and "next_pid t = next_pid s + 1"
    and "process_count t = process_count s" and "blocked_queue t = blocked_queue s" and "cpu t = cpu s"
proof -
  obtain s1 where a: "pcb_alloc stacks s = Some (Some p, s1)" "p \<in> free_slots s"
      "free_slots s1 = free_slots s - {p}" "\<And>j. j \<noteq> p \<Longrightarrow> pcb_table s1 j = pcb_table s j"
      "stack_base (pcb_table s1 p) = stacks + of_nat p * STACK_SIZE + STACK_SIZE" "ptab.more s1 = ptab.more s"
    unfolding p by (rule pcb_alloc_spec[OF ne, of stacks]) blast
  let ?sp = "stacks + of_nat p * STACK_SIZE + STACK_SIZE"
  define t where "t = s1\<lparr>next_pid := next_pid s1 + 1, stack_mem := initial_frame entry ?sp (stack_mem s1),
    pcb_table := (pcb_table s1)(p := (pcb_table s1 p)\<lparr>pid := next_pid s1,
      pname := take (PROCESS_NAME_MAX - 1) (takeWhile (\<lambda>c. c \<noteq> CHR 0x00) name), priority := prio,
      state := PROCESS_READY, cr3 := 0, time_created := 0, total_ticks := 0, wake_tick := 0, rsp := ?sp - 56\<rparr>)\<rparr>"
  have "process_create stacks name entry prio s =
      Some (Some p, (scheduler_add p t)\<lparr>process_count := process_count (scheduler_add p t) + 1\<rparr>)"
    by (simp add: process_create_def a(1,5) upd_pcb_def Let_def initial_stack t_def del: fold.simps)
  moreover have "free_slots t = free_slots s - {p}" using a(3) by (simp add: t_def free_slots_def)
  ultimately show thesis
    using a(4) more_fields[OF a(6)] by (intro that[of t]) (simp_all add: t_def same_queues_def)
qed

lemma free_iff_live: "tab_inv n A s \<Longrightarrow> p \<in> free_slots s \<Longrightarrow> p \<notin> A"
  using free_slots_bound[of p s]
  by (auto simp: tab_inv_def live_procs_def pcb_inv_def free_slots_def is_active_def)

lemma create_step:
  assumes inv: "proc_inv n D L s" and n: "n + 2 < 2 ^ 32" and ne: "free_slots s \<noteq> {}" and p: "p = Min (free_slots s)"
  obtains L' s' where "process_create stacks name entry prio s = Some (Some p, s')" and "proc_inv (n + 1) D L' s'"
    and "set L' = insert p (set L)" and "current_process s' = current_process s"
    and "pid (pcb_table s' p) = of_nat (n + 1)" and "p \<notin> live_procs s" and "cpu s' = cpu s"
    and "rsp (pcb_table s' p) = stacks + of_nat p * STACK_SIZE + STACK_SIZE - 56"
    and "stack_mem s' = initial_frame entry (stacks + of_nat p * STACK_SIZE + STACK_SIZE) (stack_mem s)"
proof -
  let ?A = "set L \<union> set_option (current_process s) \<union> D"
  obtain t where t: "process_create stacks name entry prio s =
        Some (Some p, (scheduler_add p t)\<lparr>process_count := process_count (scheduler_add p t) + 1\<rparr>)"
    "free_slots t = free_slots s - {p}" "\<forall>j. j \<noteq> p \<longrightarrow> pcb_table t j = pcb_table s j"
    "state (pcb_table t p) = PROCESS_READY" "pid (pcb_table t p) = next_pid s"
    "rsp (pcb_table t p) = stacks + of_nat p * STACK_SIZE + STACK_SIZE - 56"
    "stack_mem t = initial_frame entry (stacks + of_nat p * STACK_SIZE + STACK_SIZE) (stack_mem s)"
    "same_queues s t" "current_process t = current_process s" "next_pid t = next_pid s + 1"
    "process_count t = process_count s" "blocked_queue t = blocked_queue s" "cpu t = cpu s"
    by (rule create_alloc[OF ne p, of stacks name entry prio]) blast
  define s' where "s' = (scheduler_add p t)\<lparr>process_count := process_count (scheduler_add p t) + 1\<rparr>"
  note k = kept_fields[OF scheduler_kept(1)[of t p]]
  have ti: "tab_inv n ?A s" and r: "sched_ready s L" and dis: "set L \<inter> set_option (current_process s) = {}"
    "D \<inter> (set L \<union> set_option (current_process s)) = {}"
    using inv by (auto simp: proc_inv_def)
  have pf: "p \<in> free_slots s" unfolding p using ne by (intro Min_in) simp_all
  have pA: "p \<notin> ?A" by (rule free_iff_live[OF ti pf])
  have fs: "free_slots s' = free_slots s - {p}" using k(7) t(2) by (simp add: s'_def free_slots_def)
  have ti': "tab_inv (n + 1) (insert p ?A) s'"
    using ti n pf fs by (rule tab_inv_new(2)) (use k t in \<open>simp_all add: s'_def\<close>)
  have pL: "p \<notin> set L" using pA by blast
  have "sched_ready t L" using r t(8) by (rule sched_ready_cong) (use t(3) pL in metis)
  then obtain A B where AB: "L = A @ B" "sched_ready (scheduler_add p t) (A @ p # B)"
    using dispatch.add_ok[OF _ pL] by blast
  have r': "sched_ready s' (A @ p # B)"
    using AB(2) by (rule sched_ready_cong) (simp_all add: s'_def same_queues_def)
  have c: "current_process s' = current_process s" using k(6) t(9) by (simp add: s'_def)
  have un: "insert p ?A = set (A @ p # B) \<union> set_option (current_process s') \<union> D" using AB(1) c by auto
  have "proc_inv (n + 1) D (A @ p # B) s'"
    unfolding proc_inv_def using ti' r' dis pA AB(1) c by (auto simp: un)
  moreover have "next_pid s = of_nat (n + 1)"
  proof (rule unat_eqD)
    have "unat (of_nat (n + 1) :: u32) = n + 1" using n by (intro unat_less_of_nat) simp
    then show "unat (next_pid s) = unat (of_nat (n + 1) :: u32)" using ti by (simp only: tab_inv_def)
  qed
  then have "pid (pcb_table s' p) = of_nat (n + 1)" using k(9)[of p] t(5) by (simp add: s'_def)
  ultimately show thesis
    using t k AB(1) c pA ti by (intro that[of s' "A @ p # B"]) (simp_all add: s'_def tab_inv_def)
qed

lemma pcb_by_pid_Some:
  assumes "pcb_by_pid k s = Some p"
  shows "p \<in> live_procs s" and "pid (pcb_table s p) = k"
  using assms by (auto simp: pcb_by_pid_def find_Some_iff live_procs_def)

lemma pcb_by_pid_None: "pcb_by_pid k s = None \<Longrightarrow> p \<in> live_procs s \<Longrightarrow> pid (pcb_table s p) \<noteq> k"
  by (auto simp: pcb_by_pid_def find_None_iff live_procs_def)

lemma queue_remove_empty: "queue_remove p queue_init s = Some (queue_init, s)"
  by (simp add: queue_remove_def queue_init_def remove_loop.simps[of p _ None])

lemma kill_other:
  assumes inv: "proc_inv n D L s" and p: "pcb_by_pid k s = Some p" "current_process s \<noteq> Some p" and k: "k \<noteq> 1"
    and nc: "\<forall>c. current_process s = Some c \<longrightarrow> pid (pcb_table s c) \<noteq> k"
  obtains s' where "process_kill k ra s = Some (0, s')" and "proc_inv n (D - {p}) (remove1 p L) s'"
    and "live_procs s' = live_procs s - {p}" and "current_process s' = current_process s"
proof -
  let ?A = "set L \<union> set_option (current_process s) \<union> D"
  have ti: "tab_inv n ?A s" and r: "sched_ready s L" and dis: "set L \<inter> set_option (current_process s) = {}"
    "D \<inter> (set L \<union> set_option (current_process s)) = {}"
    using inv by (auto simp: proc_inv_def)
  have pA: "p \<in> ?A" using pcb_by_pid_Some(1)[OF p(1)] ti by (simp add: tab_inv_def)
  obtain s1 where s1: "scheduler_remove p s = Some s1" "sched_ready s1 (remove1 p L)"
    using dispatch.remove_ok[OF r, of p] by blast
  note k1 = kept_fields[OF scheduler_kept(3)[OF s1(1)]]
  have bq: "blocked_queue s1 = queue_init" using k1(3) ti by (simp add: tab_inv_def)
  define s2 where "s2 = (upd_pcb p (\<lambda>b. b\<lparr>state := PROCESS_TERMINATED\<rparr>) (s1\<lparr>blocked_queue := queue_init\<rparr>))
    \<lparr>process_count := process_count s1 - 1\<rparr>"
  have kill: "process_kill k ra s = Some (0, pcb_free (Some p) s2)"
    using k nc p bq by (auto simp: process_kill_def s1(1) queue_remove_empty s2_def upd_pcb_def Let_def split: option.splits)
  have t2: "tab_inv n (?A - {p}) (pcb_free (Some p) s2)"
    using ti pA by (rule end_process) (use k1 bq in \<open>simp_all add: s2_def upd_pcb_def\<close>)
  have "sched_ready s2 (remove1 p L)"
    using s1(2) by (rule sched_ready_cong) (simp_all add: s2_def upd_pcb_def same_queues_def)
  then have r2: "sched_ready (pcb_free (Some p) s2) (remove1 p L)" by (rule pcb_free_ready)
  have cur: "current_process (pcb_free (Some p) s2) = current_process s" using k1(6) by (simp add: s2_def upd_pcb_def)
  have set: "set (remove1 p L) = set L - {p}" using dispatch.ready_distinct[OF r] by simp
  have "?A - {p} = set (remove1 p L) \<union> set_option (current_process s) \<union> (D - {p})" using p(2) set by auto
  then have "proc_inv n (D - {p}) (remove1 p L) (pcb_free (Some p) s2)"
    unfolding proc_inv_def cur using t2 r2 dis set by auto
  then show thesis using kill t2 ti cur by (intro that[of "pcb_free (Some p) s2"]) (simp_all add: tab_inv_def)
qed

lemma kill_step:
  assumes inv: "proc_inv n D L s" and kill: "process_kill k ra s = Some (r, s')"
  shows "\<exists>L'. proc_inv n (D \<inter> live_procs s') L' s'"
    and "live_procs s' = (if r = 0 then {p \<in> live_procs s. pid (pcb_table s p) \<noteq> k} else live_procs s)"
proof -
  have ti: "tab_inv n (set L \<union> set_option (current_process s) \<union> D) s" using inv by (simp add: proc_inv_def)
  have D: "D \<subseteq> live_procs s" using ti by (auto simp: tab_inv_def)
  have uniq: "live_procs s - {p} = {q \<in> live_procs s. pid (pcb_table s q) \<noteq> k}"
    if "p \<in> live_procs s" "pid (pcb_table s p) = k" for p
    using that ti by (auto simp: tab_inv_def inj_on_def)
  have "(\<exists>L'. proc_inv n (D \<inter> live_procs s') L' s') \<and>
    live_procs s' = (if r = 0 then {p \<in> live_procs s. pid (pcb_table s p) \<noteq> k} else live_procs s)"
  proof (cases "\<exists>c. k \<noteq> 1 \<and> current_process s = Some c \<and> pid (pcb_table s c) = k")
    case True
    then obtain c where c: "k \<noteq> 1" "current_process s = Some c" "pid (pcb_table s c) = k" by blast
    then have e: "process_exit 0 ra s = Some s'" "r = 0" using kill by (auto simp: process_kill_def)
    then obtain x L' where "L = x # L'" using exit_step(1)[OF inv c(2)] by (cases L) auto
    note ex = exit_step(2)[OF inv c(2) this, of 0 ra]
    have cl: "c \<in> live_procs s" "c \<notin> D" using ti c(2) inv by (auto simp: tab_inv_def proc_inv_def)
    then have "D \<inter> (live_procs s - {c}) = D" using D by blast
    then show ?thesis using ex e uniq[OF cl(1) c(3)] by auto
  next
    case False
    show ?thesis
    proof (cases "k = 1 \<or> pcb_by_pid k s = None")
      case True
      then have "s' = s" "r = -1" using kill False by (auto simp: process_kill_def split: option.splits if_splits)
      then show ?thesis using inv D by (auto simp: Int_absorb2)
    next
      case ok: False
      then obtain p where p: "pcb_by_pid k s = Some p" "k \<noteq> 1" by auto
      then have pc: "current_process s \<noteq> Some p" using False pcb_by_pid_Some(2)[OF p(1)] by auto
      obtain s'' where s'': "process_kill k ra s = Some (0, s'')" "proc_inv n (D - {p}) (remove1 p L) s''"
          "live_procs s'' = live_procs s - {p}"
        using kill_other[OF inv p(1) pc p(2)] False p(2) by blast
      have "D \<inter> (live_procs s - {p}) = D - {p}" using D by blast
      then show ?thesis using s'' kill uniq[OF pcb_by_pid_Some[OF p(1)]] by auto
    qed
  qed
  then show "\<exists>L'. proc_inv n (D \<inter> live_procs s') L' s'"
    "live_procs s' = (if r = 0 then {p \<in> live_procs s. pid (pcb_table s p) \<noteq> k} else live_procs s)" by blast+
qed

lemma restart_keeps:
  "tab_inv n A s \<Longrightarrow> tab_inv n A (scheduler_init i s)" "current_process (scheduler_init i s) = current_process s"
  subgoal by (erule tab_inv_cong) (simp_all add: scheduler_init_def scheduler_set_def fcfs_init_def rr_init_def
        prio_init_def mlq_init_def Let_def split: scheduler_id.splits)
  subgoal by (simp add: scheduler_init_def scheduler_set_def fcfs_init_def rr_init_def prio_init_def mlq_init_def
        Let_def split: scheduler_id.splits)
  done

lemma restart_step:
  "proc_inv n D L s \<Longrightarrow> i \<noteq> SCHED_COUNT \<Longrightarrow> proc_inv n (D \<union> set L) [] (scheduler_init i s)"
  using scheduler_set_ready[of i s]
  by (auto simp: proc_inv_def restart_keeps Un_ac scheduler_init_def[symmetric] intro: restart_keeps(1))

lemma tick_step: "proc_inv n D L s \<Longrightarrow> proc_inv n D L (scheduler_tick s)"
proof -
  assume inv: "proc_inv n D L s"
  let ?A = "set L \<union> set_option (current_process s) \<union> D"
  have c: "current_process (scheduler_tick s) = current_process s" and q: "same_queues s (scheduler_tick s)"
    and f: "pcb_table (scheduler_tick s) = pcb_table s" "slot_free_map (scheduler_tick s) = slot_free_map s"
      "next_pid (scheduler_tick s) = next_pid s" "process_count (scheduler_tick s) = process_count s"
      "blocked_queue (scheduler_tick s) = blocked_queue s"
    by (auto simp: scheduler_tick_def rr_tick_def prio_tick_def mlq_tick_def Let_def same_queues_def
        split: option.splits scheduler_id.splits)
  have "tab_inv n ?A (scheduler_tick s)"
    by (rule tab_inv_cong[of n ?A s]) (use inv f in \<open>simp_all add: proc_inv_def\<close>)
  moreover have "sched_ready (scheduler_tick s) L"
    by (rule sched_ready_cong[OF _ q]) (use inv f in \<open>simp_all add: proc_inv_def\<close>)
  ultimately show ?thesis using inv by (simp add: proc_inv_def c)
qed

lemma adopt_step:
  assumes inv: "proc_inv n D L s" and c: "c \<in> D"
  shows "proc_inv n (D - {c} \<union> set_option (current_process s)) L (s\<lparr>current_process := Some c\<rparr>)"
proof -
  have "set L \<union> {c} \<union> (D - {c} \<union> set_option (current_process s)) = set L \<union> set_option (current_process s) \<union> D"
    using c by auto
  then show ?thesis
    using inv c set_current_inv(1)[of n _ s "Some c"] set_current_inv(2)[of s L "Some c"]
    by (auto simp: proc_inv_def)
qed

lemma init_step:
  assumes "i \<noteq> SCHED_COUNT"
  obtains s' where "process_init stacks idle s = Some s'" and "proc_inv 1 {0} [] (scheduler_init i s')"
    and "current_process (scheduler_init i s') = None"
proof -
  define s0 where "s0 = (pcb_init_table s)\<lparr>blocked_queue := queue_init, current_process := None, next_pid := 1, process_count := 0\<rparr>"
  have fs: "free_slots s0 = {..<MAX_PROCESSES}" using pcb_inv_init(2)[of s] by (simp add: s0_def free_slots_def)
  have ne: "free_slots s0 \<noteq> {}" unfolding fs by (simp add: lessThan_empty_iff)
  have "Min (free_slots s0) = 0" unfolding fs by (rule Min_eqI) auto
  then have m: "0 = Min (free_slots s0)" by simp
  obtain t where t: "process_create stacks ''idle'' idle PRIORITY_LOW s0 =
        Some (Some 0, (scheduler_add 0 t)\<lparr>process_count := process_count (scheduler_add 0 t) + 1\<rparr>)"
    "free_slots t = free_slots s0 - {0}" "\<forall>j. j \<noteq> 0 \<longrightarrow> pcb_table t j = pcb_table s0 j"
    "state (pcb_table t 0) = PROCESS_READY" "pid (pcb_table t 0) = next_pid s0"
    "current_process t = current_process s0" "next_pid t = next_pid s0 + 1"
    "process_count t = process_count s0" "blocked_queue t = blocked_queue s0"
    by (rule create_alloc[OF ne m, of stacks "''idle''" idle PRIORITY_LOW]) blast
  define s' where "s' = (scheduler_add 0 t)\<lparr>process_count := process_count (scheduler_add 0 t) + 1\<rparr>"
  note k = kept_fields[OF scheduler_kept(1)[of t 0]]
  have init: "process_init stacks idle s = Some s'"
    by (simp add: process_init_def Let_def s0_def[symmetric] t(1) s'_def)
  have t0: "tab_inv 0 {} s0"
    using pcb_inv_init(1)[of s]
    by (simp add: tab_inv_def s0_def live_procs_def pcb_init_table_eq pcb_inv_def is_active_def)
  have z: "0 \<in> free_slots s0" unfolding fs by simp
  have fz: "free_slots s' = free_slots s0 - {0}" using k(7) t(2) by (simp add: s'_def free_slots_def)
  have "tab_inv (0 + 1) (insert 0 {}) s'"
    by (rule tab_inv_new(2)[OF t0 _ z fz]) (use k t in \<open>simp_all add: s'_def\<close>)
  then have "tab_inv 1 {0} (scheduler_init i s')"
    using restart_keeps(1)[of 1 "{0}" s' i] by simp
  moreover have c: "current_process (scheduler_init i s') = None"
    using k(6) t(6) by (simp add: restart_keeps s'_def s0_def)
  ultimately have "proc_inv 1 {0} [] (scheduler_init i s')"
    using scheduler_set_ready[OF assms, of s'] by (simp add: proc_inv_def scheduler_init_def)
  then show thesis using init c by (intro that)
qed

section \<open>Runs of the process manager\<close>

text \<open>
  The calls the kernel makes, in any order, after the boot sequence \<open>process_init\<close>,
  \<open>scheduler_init\<close> of \<^verbatim>\<open>kernel_main\<close>. \<open>n\<close> counts the processes created. \<open>D\<close> are the live processes no
  queue holds: the idle process is created before a scheduler exists, and starting an algorithm
  empties its queues. \<open>run_adopt\<close> is the assignment \<^verbatim>\<open>current_process = process_by_pid(1)\<close> of
  \<^verbatim>\<open>kernel_main\<close> and of the benchmark.
\<close>

inductive proc_run :: "u64 \<Rightarrow> nat \<Rightarrow> nat set \<Rightarrow> 'a proc_scheme \<Rightarrow> bool" for stacks where
  run_boot: "process_init stacks idle s = Some s' \<Longrightarrow> i \<noteq> SCHED_COUNT \<Longrightarrow>
    proc_run stacks 1 {0} (scheduler_init i s')"
| run_create: "proc_run stacks n D s \<Longrightarrow> n + 2 < 2 ^ 32 \<Longrightarrow> process_create stacks name entry prio s = Some (r, s') \<Longrightarrow>
    proc_run stacks (if r = None then n else n + 1) D s'"
| run_kill: "proc_run stacks n D s \<Longrightarrow> process_kill k ra s = Some (r, s') \<Longrightarrow> proc_run stacks n (D \<inter> live_procs s') s'"
| run_exit: "proc_run stacks n D s \<Longrightarrow> process_exit e ra s = Some s' \<Longrightarrow> proc_run stacks n D s'"
| run_yield: "proc_run stacks n D s \<Longrightarrow> yield ra s = Some s' \<Longrightarrow> proc_run stacks n D s'"
| run_tick: "proc_run stacks n D s \<Longrightarrow> proc_run stacks n D (scheduler_tick s)"
| run_restart: "proc_run stacks n D s \<Longrightarrow> i \<noteq> SCHED_COUNT \<Longrightarrow>
    proc_run stacks n (live_procs s - set_option (current_process s)) (scheduler_init i s)"
| run_adopt: "proc_run stacks n D s \<Longrightarrow> process_by_pid 1 s = Some c \<Longrightarrow> c \<in> D \<Longrightarrow>
    proc_run stacks n (D - {c} \<union> set_option (current_process s)) (s\<lparr>current_process := Some c\<rparr>)"

lemma proc_run_inv: "proc_run stacks n D s \<Longrightarrow> \<exists>L. proc_inv n D L s"
proof (induction rule: proc_run.induct)
  case (run_boot idle s s' i)
  then show ?case using init_step[OF run_boot(2), of stacks idle s] by (metis option.inject)
next
  case (run_create n D s name entry prio r s')
  then obtain L where L: "proc_inv n D L s" by blast
  show ?case
  proof (cases "free_slots s = {}")
    case True
    then show ?thesis using process_create_full[OF True, of stacks name entry prio] run_create(3) L by auto
  next
    case False
    obtain L' s'' where "process_create stacks name entry prio s = Some (Some (Min (free_slots s)), s'')"
        "proc_inv (n + 1) D L' s''"
      by (rule create_step[OF L run_create(2) False refl, of stacks name entry prio]) blast
    then show ?thesis using run_create(3) by auto
  qed
next
  case (run_kill n D s k ra r s')
  then show ?case using kill_step(1) by blast
next
  case (run_exit n D s e ra s')
  then obtain L where L: "proc_inv n D L s" by blast
  show ?case
  proof (cases "current_process s")
    case None
    then show ?thesis using L run_exit(2) by (auto simp: process_exit_def)
  next
    case (Some c)
    then obtain x L' where "L = x # L'" using exit_step(1)[OF L Some, of e ra] run_exit(2) by (cases L) auto
    then show ?thesis using exit_step(2)[OF L Some, of x L' e ra] run_exit(2) by auto
  qed
next
  case (run_yield n D s ra s')
  then obtain L where L: "proc_inv n D L s" by blast
  show ?case
  proof (cases "current_process s")
    case None
    then show ?thesis using L run_yield(2) by (auto simp: yield_def)
  next
    case (Some c)
    obtain L' s'' where "yield ra s = Some s''" "proc_inv n D L' s''" by (rule yield_step[OF L Some, of ra]) blast
    then show ?thesis using run_yield(2) by auto
  qed
next
  case (run_restart n D s i)
  then obtain L where L: "proc_inv n D L s" by blast
  have "live_procs s - set_option (current_process s) = D \<union> set L" using L by (auto simp: proc_inv_def tab_inv_def)
  then show ?case using restart_step[OF L run_restart(2)] by auto
qed (blast intro: tick_step adopt_step)+

text \<open>
  C16. No process is ever lost, duplicated or miscounted. Along every run of the process manager
  the live processes are, without overlap, the current process, the processes of the ready queue and
  the ones detached by a restart of the scheduler; \<open>process_count\<close> is their number and their process
  identifiers are distinct. A call of \<open>process_create\<close> or \<open>yield\<close> always returns, and \<open>process_exit\<close>
  and \<open>process_kill\<close> halt the machine only if the last schedulable process ends itself.
\<close>
theorem processes_accounted_for:
  assumes "proc_run stacks n D s"
  shows "\<exists>L. sched_ready s L \<and> distinct L \<and> live_procs s = set L \<union> set_option (current_process s) \<union> D \<and>
      set L \<inter> set_option (current_process s) = {} \<and> D \<inter> (set L \<union> set_option (current_process s)) = {} \<and>
      process_count s = of_nat (card (live_procs s)) \<and> inj_on (\<lambda>p. pid (pcb_table s p)) (live_procs s) \<and>
      yield ra s \<noteq> None \<and> (n + 2 < 2 ^ 32 \<longrightarrow> process_create stacks name entry prio s \<noteq> None) \<and>
      (process_exit e ra s = None \<longleftrightarrow> current_process s \<noteq> None \<and> L = []) \<and>
      (process_kill k ra s = None \<longleftrightarrow>
         k \<noteq> 1 \<and> L = [] \<and> (\<exists>c. current_process s = Some c \<and> pid (pcb_table s c) = k))"
proof -
  obtain L where L: "proc_inv n D L s" using proc_run_inv[OF assms] by blast
  have ex: "process_exit e ra s = None \<longleftrightarrow> current_process s \<noteq> None \<and> L = []" for e
    using exit_step(1)[OF L, where e = e and ra = ra] exit_step(2)[OF L, where e = e and ra = ra]
    by (cases "current_process s"; cases L) fastforce+
  have "yield ra s \<noteq> None"
  proof (cases "current_process s")
    case (Some c)
    show ?thesis by (rule yield_step[OF L Some, of ra]) simp
  qed simp
  moreover have "process_create stacks name entry prio s \<noteq> None" if "n + 2 < 2 ^ 32"
  proof (cases "free_slots s = {}")
    case False
    show ?thesis by (rule create_step[OF L that False refl, of stacks name entry prio]) simp
  qed (simp add: process_create_full)
  moreover have "process_kill k ra s = None \<longleftrightarrow>
      k \<noteq> 1 \<and> L = [] \<and> (\<exists>c. current_process s = Some c \<and> pid (pcb_table s c) = k)"
  proof (cases "\<exists>c. k \<noteq> 1 \<and> current_process s = Some c \<and> pid (pcb_table s c) = k")
    case True
    then show ?thesis using ex[of 0] by (auto simp: process_kill_def)
  next
    case False
    have "process_kill k ra s \<noteq> None" if "k \<noteq> 1" "pcb_by_pid k s = Some p" for p
      by (rule kill_other[OF L that(2) _ that(1), of ra]) (use False that pcb_by_pid_Some(2)[OF that(2)] in auto)
    then show ?thesis
      using False by (cases "k = 1"; cases "pcb_by_pid k s") (auto simp: process_kill_def split: option.splits)
  qed
  ultimately show ?thesis
    using L ex[of e] dispatch.ready_distinct[of s L] by (intro exI[of _ L]) (simp add: proc_inv_def tab_inv_def)
qed

text \<open>The state of the kernel right before the first \<open>yield\<close> of \<^verbatim>\<open>kernel_main\<close>, with a single process.\<close>

lemma idle_adopted:
  fixes s0 :: "'a proc_scheme"
  obtains s :: "'a proc_scheme" where "proc_run stacks 1 {} s" and "proc_inv 1 {} [] s" and "current_process s = Some 0"
    and "free_slots s \<noteq> {}" and "g_scheduler s = Some SCHED_FCFS"
proof -
  obtain s1 where s1: "process_init stacks 0x1000 s0 = Some s1"
      "proc_inv 1 {0} [] (scheduler_init SCHED_FCFS s1)" "current_process (scheduler_init SCHED_FCFS s1) = None"
    by (rule init_step[of SCHED_FCFS stacks "0x1000" s0]) simp_all
  define s where "s = scheduler_init SCHED_FCFS s1"
  have c: "current_process s = None" and run: "proc_run stacks 1 {0} s"
    using s1(3) run_boot[OF s1(1), of SCHED_FCFS] by (simp_all add: s_def)
  have inv: "proc_inv 1 {0} [] s" "live_procs s = {0}" "pcb_inv s" "unat (pid (pcb_table s 0)) = 1"
    "state (pcb_table s 1) \<noteq> PROCESS_EMBRYO"
    using s1(2,3) by (simp_all add: proc_inv_def tab_inv_def s_def)
  have "pid (pcb_table s 0) = 1" using inv(4) by (intro unat_eqD) simp
  then have "pcb_by_pid 1 s \<noteq> None" using pcb_by_pid_None[of 1 s 0] inv(2) by auto
  then have "process_by_pid 1 s = Some 0"
    using pcb_by_pid_Some(1)[of 1 s] inv(2) c by (auto simp: process_by_pid_def)
  then have run': "proc_run stacks 1 {} (s\<lparr>current_process := Some 0\<rparr>)"
    using run_adopt[OF run, of 0] c by simp
  have inv': "proc_inv 1 {} [] (s\<lparr>current_process := Some 0\<rparr>)" using adopt_step[OF inv(1), of 0] c by simp
  have "1 \<notin> live_procs s" using inv(2) by simp
  then have "state (pcb_table s 1) = PROCESS_TERMINATED" using inv(5) by (simp add: live_procs_def is_active_def)
  then have "1 \<in> free_slots s" using inv(3) by (simp add: pcb_inv_def free_slots_def)
  moreover have "g_scheduler s = Some SCHED_FCFS"
    by (simp add: s_def scheduler_init_def scheduler_set_def fcfs_init_def Let_def)
  ultimately show thesis using run' inv' by (intro that[of "s\<lparr>current_process := Some 0\<rparr>"]) (auto simp: free_slots_def)
qed

lemma two_procs:
  obtains s :: proc and p where "proc_run 0x8000 2 {} s" and "proc_inv 2 {} [p] s" and "current_process s = Some 0"
    and "g_scheduler s = Some SCHED_FCFS" and "p \<noteq> 0"
proof -
  obtain s :: proc where s: "proc_run 0x8000 1 {} s" "proc_inv 1 {} [] s" "current_process s = Some 0"
      "free_slots s \<noteq> {}" "g_scheduler s = Some SCHED_FCFS"
    by (rule idle_adopted)
  define p where "p = Min (free_slots s)"
  have small: "1 + 2 < (2 :: nat) ^ 32" by simp
  obtain L' s' where s': "process_create 0x8000 ''p'' 0x1000 1 s = Some (Some p, s')" "proc_inv (1 + 1) {} L' s'"
      "set L' = insert p (set [])" "current_process s' = current_process s" "p \<notin> live_procs s"
    by (rule create_step[OF s(2) small s(4) p_def, of "0x8000" "''p''" "0x1000" 1]) blast
  have "distinct L'" using dispatch.ready_distinct[of s' L'] s'(2) by (simp add: proc_inv_def)
  then have "L' = [p]" using s'(3) by (cases L'; cases "tl L'") auto
  moreover have "g_scheduler s' = Some SCHED_FCFS"
  proof (rule create_alloc[OF s(4) p_def, of "0x8000" "''p''" "0x1000" 1])
    fix t
    assume "process_create 0x8000 ''p'' 0x1000 1 s =
        Some (Some p, (scheduler_add p t)\<lparr>process_count := process_count (scheduler_add p t) + 1\<rparr>)" "same_queues s t"
    then show ?thesis using s'(1) s(5) scheduler_kept(1)[of t p] by (simp add: sched_kept_def same_queues_def)
  qed
  moreover have "0 \<in> live_procs s" using s(2,3) by (auto simp: proc_inv_def tab_inv_def)
  then have "p \<noteq> 0" using s'(5) by metis
  moreover have "proc_run 0x8000 2 {} s'" using run_create[OF s(1) small s'(1)] by (simp add: numeral_2_eq_2)
  ultimately show thesis using s' s(3) by (intro that[of s' p]) (auto simp: numeral_2_eq_2)
qed

text \<open>Witness of C16: the kernel after its boot sequence, with one more process.\<close>
theorem processes_accounted_for_witness:
  "\<exists>s :: proc. process_count s = 2 \<and> card (live_procs s) = 2 \<and> yield 0x7000 s \<noteq> None"
proof -
  obtain s :: proc and p where s: "proc_run 0x8000 2 {} s" "proc_inv 2 {} [p] s" "current_process s = Some 0" "p \<noteq> 0"
    by (rule two_procs)
  have "live_procs s = {0, p}" using s(2,3) by (auto simp: proc_inv_def tab_inv_def)
  then have "card (live_procs s) = 2" using s(4) by simp
  then show ?thesis
    using processes_accounted_for[OF s(1), where ra = "0x7000" and name = "[]" and entry = 0 and prio = 0 and e = 0 and k = 0]
    by (intro exI[of _ s]) auto
qed

section \<open>Yielding\<close>

primrec yields :: "u64 \<Rightarrow> nat \<Rightarrow> 'a proc_scheme \<Rightarrow> 'a proc_scheme option" where
  "yields ra 0 s = Some s"
| "yields ra (Suc k) s = do { s \<leftarrow> yield ra s; yields ra k s }"

lemma yields_rotate:
  assumes "proc_inv n D L s" and "current_process s = Some c"
    and "g_scheduler s = Some SCHED_FCFS \<or> g_scheduler s = Some SCHED_RR" and "k \<le> length L"
  shows "\<exists>s'. yields ra (Suc k) s = Some s' \<and> current_process s' = Some ((L @ [c]) ! k)"
  using assms
proof (induction k arbitrary: s L c)
  case 0
  obtain x L' s' where "yield ra s = Some s'" "current_process s' = Some x"
      "g_scheduler s = Some SCHED_FCFS \<or> g_scheduler s = Some SCHED_RR \<longrightarrow> x # L' = L @ [c]"
    by (rule yield_step[OF 0(1,2), of ra]) blast
  moreover from this have "(L @ [c]) ! 0 = x" using 0(3) by (metis nth_Cons_0)
  ultimately show ?case by simp
next
  case (Suc k)
  obtain x L' s' where s': "yield ra s = Some s'" "proc_inv n D L' s'" "current_process s' = Some x"
      "g_scheduler s' = g_scheduler s" "g_scheduler s = Some SCHED_FCFS \<or> g_scheduler s = Some SCHED_RR \<longrightarrow> x # L' = L @ [c]"
    by (rule yield_step[OF Suc.prems(1,2), of ra]) blast
  have x: "x # L' = L @ [c]" using s'(5) Suc.prems(3) by blast
  have len: "length L' = length L" using arg_cong[OF x, of length] by simp
  have "(L' @ [x]) ! k = (L @ [c]) ! Suc k"
    using x Suc.prems(4) len by (metis Suc_le_eq nth_Cons_Suc nth_append)
  then show ?case using Suc.IH[OF s'(2,3)] Suc.prems(3,4) s'(1,4) len by simp
qed



text \<open>
  C20. \<open>yield\<close> never hands the processor over. It makes the next process current before it calls
  \<open>context_switch\<close>, which therefore saves the stack pointer of the caller into the control block of the next process
  and loads it back from there: the processor returns to the caller with all registers unchanged,
  and the context that was saved for the next process is gone.
\<close>
theorem yield_keeps_running_caller:
  assumes "proc_run stacks n D s" and "current_process s = Some c"
  shows "\<exists>x s'. yield ra s = Some s' \<and> current_process s' = Some x \<and>
    cpu s' = (cpu s)\<lparr>cpu_rip := ra\<rparr> \<and> rsp (pcb_table s' x) = cpu_rsp (cpu s) - 56"
proof -
  obtain L where L: "proc_inv n D L s" using proc_run_inv[OF assms(1)] by blast
  show ?thesis by (rule yield_step[OF L assms(2), of ra]) blast
qed

text \<open>Witness of C20: the first \<open>yield\<close> of the idle process.\<close>
theorem yield_keeps_running_caller_witness:
  "\<exists>(s :: proc) s'. current_process s = Some 0 \<and> yield 0x7000 s = Some s' \<and> cpu_rsp (cpu s') = cpu_rsp (cpu s) \<and>
     cpu_rip (cpu s') = 0x7000"
proof -
  obtain s :: proc where s: "proc_run 0x8000 1 {} s" "current_process s = Some 0" by (rule idle_adopted)
  then show ?thesis using yield_keeps_running_caller[OF s, of "0x7000"] by (rule_tac exI[of _ s]) auto
qed

section \<open>The first switch to a new process\<close>


text \<open>Static storage and a processor with all registers zero.\<close>

definition blank_proc :: proc where
  "blank_proc = sched.extend blank_sched (proc.fields 1 0 queue_init
     \<lparr>cpu_rsp = 0x1000, cpu_rbp = 0, cpu_rbx = 0, cpu_r12 = 0, cpu_r13 = 0, cpu_r14 = 0, cpu_r15 = 0, cpu_rip = 0\<rparr> (\<lambda>_. 0))"

text \<open>Witness of C18: process 0 switches to process 2 and back.\<close>
theorem context_switch_roundtrip_witness:
  "let s = upd_pcb 2 (\<lambda>b. b\<lparr>rsp := 0x3000\<rparr>) (blank_proc\<lparr>current_process := Some 0\<rparr>);
       s2 = (context_switch 2 0x7000 s)\<lparr>current_process := Some 2\<rparr>
   in cpu_rsp (cpu s2) = 0x3038 \<and> cpu (context_switch 0 0x7100 s2) = (cpu s)\<lparr>cpu_rip := 0x7000\<rparr>"
proof -
  let ?s = "upd_pcb 2 (\<lambda>b. b\<lparr>rsp := 0x3000\<rparr>) (blank_proc\<lparr>current_process := Some 0\<rparr>)"
  let ?s1 = "context_switch 2 0x7000 ?s"
  have c: "cpu ?s1 = loaded_frame 0x3000 (saved_frame 0x7000 (cpu ?s) (stack_mem ?s))"
    by (simp add: context_switch_cpu upd_pcb_def)
  have cur: "current_process ?s = Some 0" by (simp add: upd_pcb_def)
  have sp: "cpu_rsp (cpu ?s) = 0x1000" by (simp add: upd_pcb_def blank_proc_def sched.defs proc.defs)
  have sp1: "cpu_rsp (cpu ?s1) = 0x3038" by (simp add: c loaded_frame_def)
  have "cpu (context_switch 0 0x7100 (?s1\<lparr>current_process := Some 2\<rparr>)) = (cpu ?s)\<lparr>cpu_rip := 0x7000\<rparr>"
    by (rule context_switch_roundtrip[OF cur refl]) (simp_all add: sp sp1 frame_addrs_def)
  then show ?thesis using sp1 by simp
qed


end
