(* ===== verification/Kbd.thy ===== *)
theory Kbd
  imports Ares_Prelude
begin

text \<open>
  The PS/2 keyboard driver, \<^verbatim>\<open>drivers/keyboard.c\<close>. The byte \<^verbatim>\<open>inb(0x60)\<close> returns is an argument of the
  interrupt handler; port writes are appended to \<open>port_log\<close>. The theory shows that the circular
  buffer delivers keys in order and loses none unless 255 keys are waiting, that the modifier bits
  follow the keys held down, and that the table of extended keys is read in the wrong format.
\<close>

section \<open>Key codes\<close>

abbreviation (input) KEY_NONE :: u8 where "KEY_NONE \<equiv> 0"
abbreviation (input) KEY_ESC :: u8 where "KEY_ESC \<equiv> 0x1B"
abbreviation (input) KEY_BACKSPACE :: u8 where "KEY_BACKSPACE \<equiv> 0x08"
abbreviation (input) KEY_TAB :: u8 where "KEY_TAB \<equiv> 0x09"
abbreviation (input) KEY_ENTER :: u8 where "KEY_ENTER \<equiv> 0x0D"
abbreviation (input) KEY_UP :: u8 where "KEY_UP \<equiv> 0x80"
abbreviation (input) KEY_DOWN :: u8 where "KEY_DOWN \<equiv> 0x81"
abbreviation (input) KEY_LEFT :: u8 where "KEY_LEFT \<equiv> 0x82"
abbreviation (input) KEY_RIGHT :: u8 where "KEY_RIGHT \<equiv> 0x83"
abbreviation (input) KEY_HOME :: u8 where "KEY_HOME \<equiv> 0x84"
abbreviation (input) KEY_END :: u8 where "KEY_END \<equiv> 0x85"
abbreviation (input) KEY_PAGEUP :: u8 where "KEY_PAGEUP \<equiv> 0x86"
abbreviation (input) KEY_PAGEDOWN :: u8 where "KEY_PAGEDOWN \<equiv> 0x87"
abbreviation (input) KEY_DELETE :: u8 where "KEY_DELETE \<equiv> 0x88"
abbreviation (input) KEY_INSERT :: u8 where "KEY_INSERT \<equiv> 0x89"
abbreviation (input) KEY_F11 :: u8 where "KEY_F11 \<equiv> 0x94"
abbreviation (input) KEY_F12 :: u8 where "KEY_F12 \<equiv> 0x95"
abbreviation (input) KEY_CAPS :: u8 where "KEY_CAPS \<equiv> 0x96"
abbreviation (input) KEY_NUMLOCK :: u8 where "KEY_NUMLOCK \<equiv> 0x97"
abbreviation (input) KEY_SCROLLLOCK :: u8 where "KEY_SCROLLLOCK \<equiv> 0x98"
abbreviation (input) KEY_LCTRL :: u8 where "KEY_LCTRL \<equiv> 0x99"
abbreviation (input) KEY_LSHIFT :: u8 where "KEY_LSHIFT \<equiv> 0x9A"
abbreviation (input) KEY_LALT :: u8 where "KEY_LALT \<equiv> 0x9B"
abbreviation (input) KEY_RCTRL :: u8 where "KEY_RCTRL \<equiv> 0x9C"
abbreviation (input) KEY_RSHIFT :: u8 where "KEY_RSHIFT \<equiv> 0x9D"
abbreviation (input) KEY_RALT :: u8 where "KEY_RALT \<equiv> 0x9E"
abbreviation (input) KEY_LGUI :: u8 where "KEY_LGUI \<equiv> 0x9F"
abbreviation (input) KEY_RGUI :: u8 where "KEY_RGUI \<equiv> 0xA0"
abbreviation (input) KEY_PRINTSCREEN :: u8 where "KEY_PRINTSCREEN \<equiv> 0xA1"

abbreviation (input) KBD_BUF_SIZE :: nat where "KBD_BUF_SIZE \<equiv> 256"
abbreviation (input) MAX_SCAN :: nat where "MAX_SCAN \<equiv> 0x60"

text \<open>\<open>KEY_F1\<close> to \<open>KEY_F10\<close> are consecutive.\<close>

definition f_keys :: "u8 list" where
  "f_keys = [0x8A, 0x8B, 0x8C, 0x8D, 0x8E, 0x8F, 0x90, 0x91, 0x92, 0x93]"

definition keypad :: "u8 list" where
  "keypad = f_keys @ [KEY_NUMLOCK, KEY_SCROLLLOCK] @ ascii ''789-456+1230.'' @ [KEY_NONE, KEY_NONE, KEY_NONE, KEY_F11, KEY_F12] @
     replicate 7 KEY_NONE"

definition keymap_us :: "u8 list" where
  "keymap_us = [KEY_NONE, KEY_ESC] @ ascii ''1234567890-='' @ [KEY_BACKSPACE, KEY_TAB] @ ascii ''qwertyuiop[]'' @
     [KEY_ENTER, KEY_LCTRL] @ ascii ''asdfghjkl;'' @ [0x27, 0x60, KEY_LSHIFT, 0x5C] @ ascii ''zxcvbnm,./'' @
     [KEY_RSHIFT] @ ascii ''*'' @ [KEY_LALT] @ ascii '' '' @ [KEY_CAPS] @ keypad"

definition keymap_us_shift :: "u8 list" where
  "keymap_us_shift = [KEY_NONE, KEY_ESC] @ ascii ''!@#$%^&*()_+'' @ [KEY_BACKSPACE, KEY_TAB] @ ascii ''QWERTYUIOP{}'' @
     [KEY_ENTER, KEY_LCTRL] @ ascii ''ASDFGHJKL:'' @ [0x22, 0x7E, KEY_LSHIFT, 0x7C] @ ascii ''ZXCVBNM<>?'' @
     [KEY_RSHIFT] @ ascii ''*'' @ [KEY_LALT] @ ascii '' '' @ [KEY_CAPS] @ keypad"

definition keymap_ext :: "u8 list" where
  "keymap_ext = [KEY_ENTER, KEY_RCTRL, 0x2F, KEY_PRINTSCREEN, KEY_RALT, KEY_HOME, KEY_UP, KEY_PAGEUP, KEY_LEFT,
     KEY_RIGHT, KEY_END, KEY_DOWN, KEY_PAGEDOWN, KEY_INSERT, KEY_DELETE, KEY_LGUI, KEY_RGUI]"

lemma keymap_length [simp]:
  "length keymap_us = MAX_SCAN" "length keymap_us_shift = MAX_SCAN" "length keymap_ext = 17"
  by (simp_all add: keymap_us_def keymap_us_shift_def keymap_ext_def keypad_def f_keys_def ascii_def)

section \<open>The driver\<close>

record kbd =
  modifiers :: u8
  kbd_buffer :: "u8 list"
  buf_head :: u16
  buf_tail :: u16
  extended :: bool
  port_log :: "(u16 \<times> u8) list"

text \<open>
  The loop steps by two through a table of odd length; a match at the last entry would read past the
  end of the table, which is the value \<open>None\<close>.
\<close>

fun lookup_loop :: "u8 list \<Rightarrow> u8 \<Rightarrow> u8 option" where
  "lookup_loop [] scancode = Some KEY_NONE"
| "lookup_loop [k] scancode = (if k = scancode then None else Some KEY_NONE)"
| "lookup_loop (k # v # rest) scancode = (if k = scancode then Some v else lookup_loop rest scancode)"

definition lookup_extended :: "u8 \<Rightarrow> u8 option" where
  "lookup_extended scancode = lookup_loop keymap_ext scancode"

definition modifier_for_scancode :: "u8 \<Rightarrow> bool \<Rightarrow> u8" where
  "modifier_for_scancode scancode is_ext =
     (if is_ext then
        if scancode = 0x1D then 0x10 else if scancode = 0x38 then 0x40
        else if scancode = 0x5B then 0x08 else if scancode = 0x5C then 0x80 else 0
      else
        if scancode = 0x1D then 0x01 else if scancode = 0x2A then 0x02
        else if scancode = 0x36 then 0x20 else if scancode = 0x38 then 0x04 else 0)"

definition buffer_put :: "u8 \<Rightarrow> kbd \<Rightarrow> kbd" where
  "buffer_put v s =
     (let nxt = (buf_head s + 1) mod 256
      in if nxt \<noteq> buf_tail s
         then s\<lparr>kbd_buffer := (kbd_buffer s)[unat (buf_head s) := v], buf_head := nxt\<rparr>
         else s)"

definition put_key :: "u8 \<Rightarrow> kbd \<Rightarrow> kbd" where
  "put_key key s = (if key \<noteq> KEY_NONE then buffer_put key s else s)"

definition extended_byte :: "u8 \<Rightarrow> kbd \<Rightarrow> kbd option" where
  "extended_byte scancode s =
     (let is_break = scancode AND 0x80 \<noteq> 0; scan7 = scancode AND 0x7F; m = modifier_for_scancode scan7 True
      in if is_break then Some (s\<lparr>modifiers := modifiers s AND NOT m, extended := False\<rparr>)
         else if m \<noteq> 0 then Some (s\<lparr>modifiers := modifiers s OR m, extended := False\<rparr>)
         else map_option (\<lambda>key. (put_key key s)\<lparr>extended := False\<rparr>) (lookup_extended scancode))"

definition keyboard_irq_handler :: "u8 \<Rightarrow> kbd \<Rightarrow> kbd option" where
  "keyboard_irq_handler scancode s =
     (if scancode = 0xE0 then Some (s\<lparr>extended := True\<rparr>)
      else if extended s then extended_byte scancode s
      else if scancode AND 0x80 \<noteq> 0
        then Some (s\<lparr>modifiers := modifiers s AND NOT (modifier_for_scancode (scancode AND 0x7F) False)\<rparr>)
      else
        let m = modifier_for_scancode scancode False
        in if m \<noteq> 0 then
             let s = s\<lparr>modifiers := modifiers s OR m\<rparr>;
                 s = (if scancode = 0x1D then buffer_put KEY_LCTRL s else s);
                 s = (if scancode = 0x2A then buffer_put KEY_LSHIFT s else s);
                 s = (if scancode = 0x36 then buffer_put KEY_RSHIFT s else s)
             in Some (if scancode = 0x38 then buffer_put KEY_LALT s else s)
           else if unat scancode < MAX_SCAN then
             let shifted = modifiers s AND (0x02 OR 0x20) \<noteq> 0
             in Some (put_key (if shifted then keymap_us_shift ! unat scancode else keymap_us ! unat scancode) s)
           else Some s)"

definition keyboard_init :: "kbd \<Rightarrow> kbd" where
  "keyboard_init s = s\<lparr>modifiers := 0, extended := False, buf_head := 0, buf_tail := 0,
     port_log := port_log s @ [(0x64, 0xAE)]\<rparr>"

definition keyboard_getchar :: "kbd \<Rightarrow> u8 \<times> kbd" where
  "keyboard_getchar s =
     (if buf_head s = buf_tail s then (0, s)
      else (kbd_buffer s ! unat (buf_tail s), s\<lparr>buf_tail := (buf_tail s + 1) mod 256\<rparr>))"

definition keyboard_has_data :: "kbd \<Rightarrow> bool" where
  "keyboard_has_data s \<longleftrightarrow> buf_head s \<noteq> buf_tail s"

definition keyboard_get_modifiers :: "kbd \<Rightarrow> u8" where
  "keyboard_get_modifiers s = modifiers s"

section \<open>The circular buffer is a bounded queue\<close>

text \<open>The contract of the buffer between the interrupt handler and the readers of keys.\<close>

locale key_queue =
  fixes rep :: "'s \<Rightarrow> u8 list \<Rightarrow> bool"
    and capacity :: nat
    and put :: "u8 \<Rightarrow> 's \<Rightarrow> 's"
    and get :: "'s \<Rightarrow> u8 \<times> 's"
    and has_data :: "'s \<Rightarrow> bool"
  assumes rep_bound: "rep s xs \<Longrightarrow> length xs \<le> capacity"
    and put_room: "rep s xs \<Longrightarrow> length xs < capacity \<Longrightarrow> rep (put v s) (xs @ [v])"
    and put_full: "rep s xs \<Longrightarrow> length xs = capacity \<Longrightarrow> put v s = s"
    and get_Nil: "rep s [] \<Longrightarrow> get s = (0, s)"
    and get_Cons: "rep s (x # xs) \<Longrightarrow> \<exists>s'. get s = (x, s') \<and> rep s' xs"
    and has_data_iff: "rep s xs \<Longrightarrow> has_data s \<longleftrightarrow> xs \<noteq> []"
begin

lemma put_rep: "rep s xs \<Longrightarrow> rep (put v s) (xs @ take (capacity - length xs) [v])"
  using rep_bound[of s xs] put_room[of s xs v] put_full[of s xs v]
  by (cases "length xs = capacity") (auto simp: take_Cons')

lemma get_rep:
  assumes "rep s xs" and "get s = (c, s')"
  shows "rep s' (tl xs)" and "has_data s \<Longrightarrow> xs = c # tl xs" and "\<not> has_data s \<Longrightarrow> xs = []"
  using assms get_Nil[of s] get_Cons[of s "hd xs" "tl xs"] has_data_iff[of s xs] by (cases xs; auto)+

end

definition kbd_rep :: "kbd \<Rightarrow> u8 list \<Rightarrow> bool" where
  "kbd_rep s xs \<longleftrightarrow> length (kbd_buffer s) = KBD_BUF_SIZE \<and> unat (buf_tail s) < KBD_BUF_SIZE \<and>
     length xs < KBD_BUF_SIZE \<and> unat (buf_head s) = (unat (buf_tail s) + length xs) mod KBD_BUF_SIZE \<and>
     (\<forall>i < length xs. kbd_buffer s ! ((unat (buf_tail s) + i) mod KBD_BUF_SIZE) = xs ! i)"

lemma ring_succ: "unat (x :: u16) < KBD_BUF_SIZE \<Longrightarrow> unat ((x + 1) mod 256) = (unat x + 1) mod KBD_BUF_SIZE"
  by (subst unat_mod, subst unat_add_lem[THEN iffD1]) simp_all

lemma ring_inj:
  assumes "(t + i) mod KBD_BUF_SIZE = (t + j) mod KBD_BUF_SIZE" and "i < KBD_BUF_SIZE" and "j < KBD_BUF_SIZE"
  shows "i = j"
  using assms
proof (induction i j rule: linorder_wlog)
  case (le i j)
  then have "KBD_BUF_SIZE dvd t + j - (t + i)" by (metis add_left_mono mod_eq_dvd_iff_nat)
  then have "KBD_BUF_SIZE dvd j - i" by simp
  moreover have "j - i < KBD_BUF_SIZE" using le(4) by simp
  ultimately have "j - i = 0" using nat_dvd_not_less[of "j - i" KBD_BUF_SIZE] by fastforce
  then show ?case using le(1) by simp
qed simp

lemma kbd_rep_put:
  assumes rep: "kbd_rep s xs" and room: "length xs < 255"
  shows "kbd_rep (buffer_put v s) (xs @ [v])"
proof -
  let ?t = "unat (buf_tail s)" and ?n = "length xs"
  have r: "length (kbd_buffer s) = KBD_BUF_SIZE" "?t < KBD_BUF_SIZE" "unat (buf_head s) = (?t + ?n) mod KBD_BUF_SIZE"
    "\<forall>i < ?n. kbd_buffer s ! ((?t + i) mod KBD_BUF_SIZE) = xs ! i"
    using rep by (simp_all add: kbd_rep_def)
  have h: "unat (buf_head s) < KBD_BUF_SIZE" using r(3) by simp
  have h': "unat ((buf_head s + 1) mod 256) = (?t + Suc ?n) mod KBD_BUF_SIZE"
    unfolding ring_succ[OF h] r(3) by (simp add: mod_Suc_eq)
  have "(buf_head s + 1) mod 256 \<noteq> buf_tail s"
  proof
    assume "(buf_head s + 1) mod 256 = buf_tail s"
    then have "(?t + Suc ?n) mod KBD_BUF_SIZE = (?t + 0) mod KBD_BUF_SIZE" using h' r(2) by simp
    then show False using ring_inj[of ?t "Suc ?n" 0] room by simp
  qed
  moreover have "(kbd_buffer s)[unat (buf_head s) := v] ! ((?t + i) mod KBD_BUF_SIZE) = (xs @ [v]) ! i" if "i < Suc ?n" for i
  proof (cases "i = ?n")
    case False
    then have "(?t + ?n) mod KBD_BUF_SIZE \<noteq> (?t + i) mod KBD_BUF_SIZE" using ring_inj[of ?t ?n i] that room by auto
    then show ?thesis using r(3,4) False that by (simp add: nth_append)
  qed (use r(1,3) in simp)
  ultimately show ?thesis using r h' room by (simp add: kbd_rep_def buffer_put_def Let_def)
qed

lemma kbd_rep_full:
  assumes rep: "kbd_rep s xs" and full: "length xs = 255"
  shows "buffer_put v s = s"
proof -
  have h: "unat (buf_head s) < KBD_BUF_SIZE" "unat (buf_head s) = (unat (buf_tail s) + 255) mod KBD_BUF_SIZE"
    "unat (buf_tail s) < KBD_BUF_SIZE"
    using rep full by (simp_all add: kbd_rep_def)
  have "unat ((buf_head s + 1) mod 256) = unat (buf_tail s)"
    unfolding ring_succ[OF h(1)] h(2) using h(3) by (simp add: mod_Suc_eq)
  then have "(buf_head s + 1) mod 256 = buf_tail s" by (rule unat_eqD)
  then show ?thesis by (simp add: buffer_put_def)
qed

lemma kbd_rep_empty: "kbd_rep s xs \<Longrightarrow> buf_head s = buf_tail s \<longleftrightarrow> xs = []"
  using ring_inj[of "unat (buf_tail s)" "length xs" 0] unat_eqD[of "buf_head s" "buf_tail s"]
  by (auto simp: kbd_rep_def)

interpretation kbd_queue: key_queue kbd_rep 255 buffer_put keyboard_getchar keyboard_has_data
proof
  fix s xs v x
  show "kbd_rep s xs \<Longrightarrow> length xs \<le> 255" by (simp add: kbd_rep_def)
  show "kbd_rep s xs \<Longrightarrow> length xs < 255 \<Longrightarrow> kbd_rep (buffer_put v s) (xs @ [v])" by (rule kbd_rep_put)
  show "kbd_rep s xs \<Longrightarrow> length xs = 255 \<Longrightarrow> buffer_put v s = s" by (rule kbd_rep_full)
  show "kbd_rep s [] \<Longrightarrow> keyboard_getchar s = (0, s)" using kbd_rep_empty[of s "[]"] by (simp add: keyboard_getchar_def)
  show "kbd_rep s xs \<Longrightarrow> keyboard_has_data s \<longleftrightarrow> xs \<noteq> []" by (simp add: keyboard_has_data_def kbd_rep_empty)
  assume rep: "kbd_rep s (x # xs)"
  let ?t = "unat (buf_tail s)"
  have t: "?t < KBD_BUF_SIZE" using rep by (simp add: kbd_rep_def)
  have "\<forall>i < Suc (length xs). kbd_buffer s ! ((?t + i) mod KBD_BUF_SIZE) = (x # xs) ! i"
    using rep by (simp add: kbd_rep_def)
  then have e: "kbd_buffer s ! ?t = x" "\<forall>i < length xs. kbd_buffer s ! ((?t + Suc i) mod KBD_BUF_SIZE) = xs ! i"
    using t by (auto dest: spec[of _ 0] spec[of _ "Suc _"])
  have "kbd_rep (s\<lparr>buf_tail := (buf_tail s + 1) mod 256\<rparr>) xs"
    using rep t e(2) ring_succ[OF t] by (simp add: kbd_rep_def mod_Suc_eq mod_simps)
  then show "\<exists>s'. keyboard_getchar s = (x, s') \<and> kbd_rep s' xs"
    using e(1) kbd_rep_empty[OF rep] by (simp add: keyboard_getchar_def)
qed

section \<open>Decoding scan codes\<close>

text \<open>The keys a byte from the controller adds to the buffer.\<close>

definition keys_of :: "u8 \<Rightarrow> kbd \<Rightarrow> u8 list" where
  "keys_of scancode s =
     (if scancode = 0xE0 \<or> scancode AND 0x80 \<noteq> 0 then []
      else filter (\<lambda>k. k \<noteq> KEY_NONE)
        (if extended s
         then if modifier_for_scancode scancode True \<noteq> 0 then []
              else if scancode = 0x0D then [KEY_RCTRL] else if scancode = 0x2F then [KEY_PRINTSCREEN] else []
         else if scancode = 0x1D then [KEY_LCTRL] else if scancode = 0x2A then [KEY_LSHIFT]
         else if scancode = 0x36 then [KEY_RSHIFT] else if scancode = 0x38 then [KEY_LALT]
         else if unat scancode < MAX_SCAN
         then [(if bit (modifiers s) 1 \<or> bit (modifiers s) 5 then keymap_us_shift else keymap_us) ! unat scancode]
         else []))"

lemma byte_bit7: "(b :: u8) AND 0x80 = 0 \<longleftrightarrow> \<not> bit b 7"
  using and_exp_eq_0_iff_not_bit[of b 7] by simp

lemma byte_low7: "\<not> bit (b :: u8) 7 \<Longrightarrow> b AND 0x7F = b"
proof -
  assume n: "\<not> bit b 7"
  have "take_bit 7 b = b"
  proof (rule bit_eqI)
    fix k
    show "bit (take_bit 7 b) k \<longleftrightarrow> bit b k"
      using n bit_imp_le_length[of b k] by (cases "k = 7") (auto simp: bit_take_bit_iff)
  qed
  then show ?thesis by (simp add: take_bit_eq_mask mask_eq_exp_minus_1)
qed

lemma shift_bits: "(m :: u8) AND (0x02 OR 0x20) \<noteq> 0 \<longleftrightarrow> bit m 1 \<or> bit m 5"
proof -
  have "m AND (0x02 OR 0x20) = (m AND 0x02) OR (m AND 0x20)" by (rule bit.conj_disj_distrib)
  then show ?thesis using and_exp_eq_0_iff_not_bit[of m 1] and_exp_eq_0_iff_not_bit[of m 5] by (simp add: or_eq_0_iff)
qed

lemma lookup_extended_eq:
  "\<not> bit sc 7 \<Longrightarrow> lookup_extended sc =
     Some (if sc = 0x0D then KEY_RCTRL else if sc = 0x2F then KEY_PRINTSCREEN else KEY_NONE)"
  by (auto simp: lookup_extended_def keymap_ext_def)

lemma buffer_put_upd [simp]:
  "buffer_put v (s\<lparr>modifiers := m\<rparr>) = (buffer_put v s)\<lparr>modifiers := m\<rparr>"
  "buffer_put v (s\<lparr>extended := e\<rparr>) = (buffer_put v s)\<lparr>extended := e\<rparr>"
  "modifiers (buffer_put v s) = modifiers s" "extended (buffer_put v s) = extended s"
  by (simp_all add: buffer_put_def Let_def)

lemma fold_put_mods [simp]: "modifiers (fold buffer_put ks s) = modifiers s"
  by (induction ks arbitrary: s) simp_all

lemma kbd_upd_same [simp]:
  "\<not> extended s \<Longrightarrow> s\<lparr>extended := False\<rparr> = s"
  "modifiers t = m \<Longrightarrow> \<not> extended t \<Longrightarrow> t\<lparr>modifiers := m, extended := False\<rparr> = t"
  by (cases s, simp) (cases t, simp)

text \<open>One byte: the keys go to the buffer, the modifier bit of the key is set or cleared.\<close>

lemma handler_step:
  "keyboard_irq_handler b s =
     (let m = modifier_for_scancode (b AND 0x7F) (extended s);
          t = fold buffer_put (keys_of b s) s
      in Some (if b = 0xE0 then t\<lparr>extended := True\<rparr>
               else t\<lparr>modifiers := (if bit b 7 then modifiers s AND NOT m else modifiers s OR m), extended := False\<rparr>))"
proof (cases "b = 0xE0 \<or> bit b 7")
  case True
  then show ?thesis
    by (auto simp: keyboard_irq_handler_def keys_of_def extended_byte_def byte_bit7 Let_def)
next
  case False
  then have b: "b \<noteq> 0xE0" "\<not> bit b 7" "b AND 0x7F = b" using byte_low7 by auto
  show ?thesis
  proof (cases "extended s")
    case True
    then show ?thesis
      using b by (auto simp: keyboard_irq_handler_def keys_of_def extended_byte_def byte_bit7 lookup_extended_eq
          put_key_def Let_def)
  next
    case False
    have m: "modifier_for_scancode b False = 0" if "b \<notin> {0x1D, 0x2A, 0x36, 0x38}"
      using that by (simp add: modifier_for_scancode_def)
    show ?thesis
      using b False m
      by (auto simp: keyboard_irq_handler_def keys_of_def byte_bit7 shift_bits[simplified] put_key_def
          modifier_for_scancode_def Let_def)
  qed
qed

section \<open>Interrupts and readers\<close>

text \<open>
  Interrupts and reads in any order. \<open>typed\<close> collects the decoded keys that found room in the buffer, \<open>got\<close>
  what \<open>keyboard_getchar\<close> returned while \<open>keyboard_has_data\<close> was true.
\<close>

inductive kbd_run :: "kbd \<Rightarrow> kbd \<Rightarrow> u8 list \<Rightarrow> u8 list \<Rightarrow> bool" for s0 where
  kbd_start: "kbd_run s0 (keyboard_init s0) [] []"
| kbd_byte: "kbd_run s0 s typed got \<Longrightarrow> keyboard_irq_handler b s = Some s' \<Longrightarrow>
    kbd_run s0 s' (typed @ take (255 - (length typed - length got)) (keys_of b s)) got"
| kbd_read: "kbd_run s0 s typed got \<Longrightarrow> keyboard_getchar s = (c, s') \<Longrightarrow>
    kbd_run s0 s' typed (if keyboard_has_data s then got @ [c] else got)"

lemma kbd_rep_mods [simp]:
  "kbd_rep (s\<lparr>modifiers := m\<rparr>) xs = kbd_rep s xs" "kbd_rep (s\<lparr>extended := e\<rparr>) xs = kbd_rep s xs"
  by (simp_all add: kbd_rep_def)

lemma keys_of_short: "length (keys_of b s) \<le> 1"
  by (simp add: keys_of_def)

lemma handler_rep:
  assumes rep: "kbd_rep s xs" and h: "keyboard_irq_handler b s = Some s'"
  shows "kbd_rep s' (xs @ take (255 - length xs) (keys_of b s))"
proof -
  have "kbd_rep (fold buffer_put (keys_of b s) s) (xs @ take (255 - length xs) (keys_of b s))"
    using kbd_queue.put_rep[OF rep] rep keys_of_short[of b s] by (cases "keys_of b s") auto
  then show ?thesis using h by (auto simp: handler_step Let_def split: if_splits)
qed

lemma kbd_run_rep:
  assumes "kbd_run s0 s typed got" and "length (kbd_buffer s0) = KBD_BUF_SIZE"
  shows "\<exists>xs. kbd_rep s xs \<and> typed = got @ xs"
  using assms
proof (induction rule: kbd_run.induct)
  case kbd_start
  then show ?case by (simp add: kbd_rep_def keyboard_init_def)
next
  case (kbd_byte s typed got b s')
  then obtain xs where xs: "kbd_rep s xs" "typed = got @ xs" by blast
  show ?case using handler_rep[OF xs(1) kbd_byte(2)] xs(2) by simp
next
  case (kbd_read s typed got c s')
  then obtain xs where xs: "kbd_rep s xs" "typed = got @ xs" by blast
  show ?case using kbd_queue.get_rep[OF xs(1) kbd_read(2)] xs(2) by (cases "keyboard_has_data s") fastforce+
qed


section \<open>Modifier keys\<close>

text \<open>The stream of bytes as key events: extended or not, the code of the key, pressed or released.\<close>

fun key_events :: "bool \<Rightarrow> u8 list \<Rightarrow> (bool \<times> u8 \<times> bool) list" where
  "key_events e [] = []"
| "key_events e (b # bs) =
     (if b = 0xE0 then key_events True bs else (e, b AND 0x7F, \<not> bit b 7) # key_events False bs)"

text \<open>Whether the key of modifier bit \<open>k\<close> is held down after the events, if it was at \<open>h\<close> before.\<close>

definition held_down :: "nat \<Rightarrow> bool \<Rightarrow> (bool \<times> u8 \<times> bool) list \<Rightarrow> bool" where
  "held_down k h evs =
     (case find (\<lambda>(e, c, _). modifier_for_scancode c e = 2 ^ k) (rev evs) of None \<Rightarrow> h | Some (_, _, p) \<Rightarrow> p)"

primrec feed :: "u8 list \<Rightarrow> kbd \<Rightarrow> kbd option" where
  "feed [] s = Some s"
| "feed (b # bs) s = do { s \<leftarrow> keyboard_irq_handler b s; feed bs s }"

lemma find_append: "find P (xs @ ys) = (case find P xs of None \<Rightarrow> find P ys | Some x \<Rightarrow> Some x)"
  by (induction xs) simp_all

lemma held_down_Cons:
  "held_down k h ((e, c, p) # evs) = held_down k (if modifier_for_scancode c e = 2 ^ k then p else h) evs"
  by (simp add: held_down_def find_append split: option.splits)

lemma modifier_bit:
  assumes "k < 8"
  shows "bit (modifier_for_scancode c e) k \<longleftrightarrow> modifier_for_scancode c e = 2 ^ k"
proof -
  have "k = 0 \<or> k = 1 \<or> k = 2 \<or> k = 3 \<or> k = 4 \<or> k = 5 \<or> k = 6 \<or> k = 7" using assms by arith
  then show ?thesis by (elim disjE) (simp_all add: modifier_for_scancode_def)
qed

lemma feed_modifiers:
  assumes "k < 8"
  shows "\<exists>s'. feed bs s = Some s' \<and>
    (bit (modifiers s') k \<longleftrightarrow> held_down k (bit (modifiers s) k) (key_events (extended s) bs))"
proof (induction bs arbitrary: s)
  case (Cons b bs)
  obtain s1 where s1: "keyboard_irq_handler b s = Some s1" by (simp add: handler_step Let_def)
  then have f: "extended s1 = (b = 0xE0)" and m: "bit (modifiers s1) k \<longleftrightarrow>
      (if b = 0xE0 then bit (modifiers s) k
       else if modifier_for_scancode (b AND 0x7F) (extended s) = 2 ^ k then \<not> bit b 7 else bit (modifiers s) k)"
    using modifier_bit[OF assms, of "b AND 0x7F" "extended s"] assms fold_put_mods[of "keys_of b s" s]
    by (auto simp: handler_step Let_def bit_or_iff bit_and_iff bit_not_iff split: if_splits)
  show ?case using Cons.IH[of s1] s1 f m by (auto simp: held_down_Cons)
qed (simp add: held_down_def)

text \<open>
  C25. The modifier bits follow the keyboard. After any stream of bytes, bit \<open>k\<close> of the modifiers is set
  exactly if the last event of its key, if any, was a press.
\<close>
theorem modifiers_follow_keys:
  assumes "k < 8"
  shows "\<exists>s'. feed bs (keyboard_init s) = Some s' \<and>
    (bit (keyboard_get_modifiers s') k \<longleftrightarrow> held_down k False (key_events False bs))"
  using feed_modifiers[OF assms, of bs "keyboard_init s"]
  by (simp add: keyboard_get_modifiers_def keyboard_init_def)

text \<open>
  The keys behind the prefix \<open>0xE0\<close> are lost. The lookup takes the table of extended keys, a plain
  list of key codes, for a list of pairs; apart from the modifiers, the only extended codes that
  produce a key are 0x0D and 0x2F, which no keyboard sends, and they produce wrong ones. In particular the arrow
  keys, Home, End, Delete and the keypad's Enter never reach a reader.
\<close>
theorem extended_keys_are_lost:
  assumes "kbd_rep s xs" and "c \<noteq> 0x0D" and "c \<noteq> 0x2F"
  shows "\<exists>s'. feed [0xE0, c] s = Some s' \<and> kbd_rep s' xs"
proof -
  obtain s1 where s1: "keyboard_irq_handler 0xE0 s = Some s1" "extended s1"
    by (simp add: handler_step Let_def)
  have r1: "kbd_rep s1 xs" using handler_rep[OF assms(1) s1(1)] by (simp add: keys_of_def)
  obtain s2 where s2: "keyboard_irq_handler c s1 = Some s2" by (simp add: handler_step Let_def)
  have "keys_of c s1 = []" using s1(2) assms(2,3) by (simp add: keys_of_def)
  then have "kbd_rep s2 xs" using handler_rep[OF r1 s2] by simp
  then show ?thesis using s1(1) s2 by simp
qed

definition blank_kbd :: kbd where
  "blank_kbd = \<lparr>modifiers = 0, kbd_buffer = replicate KBD_BUF_SIZE 0, buf_head = 0, buf_tail = 0, extended = False,
     port_log = []\<rparr>"


text \<open>Witness of C25: the left shift key is pressed, then released.\<close>
theorem modifiers_follow_keys_witness:
  "(\<exists>s. feed [0x2A] (keyboard_init blank_kbd) = Some s \<and> bit (keyboard_get_modifiers s) 1) \<and>
   (\<exists>s. feed [0x2A, 0xAA] (keyboard_init blank_kbd) = Some s \<and> \<not> bit (keyboard_get_modifiers s) 1)"
proof -
  have "held_down 1 False (key_events False [0x2A])" "\<not> held_down 1 False (key_events False [0x2A, 0xAA])"
    by (simp_all add: held_down_def modifier_for_scancode_def)
  then show ?thesis
    using modifiers_follow_keys[of 1 "[0x2A]" blank_kbd] modifiers_follow_keys[of 1 "[0x2A, 0xAA]" blank_kbd] by auto
qed

text \<open>An instance: the key Up.\<close>
theorem extended_keys_are_lost_witness:
  "\<exists>s. feed [0xE0, 0x48] (keyboard_init blank_kbd) = Some s \<and> \<not> keyboard_has_data s"
proof -
  have "kbd_rep (keyboard_init blank_kbd) []" by (simp add: kbd_rep_def keyboard_init_def blank_kbd_def)
  then obtain s where s: "feed [0xE0, 0x48] (keyboard_init blank_kbd) = Some s" "kbd_rep s []"
    using extended_keys_are_lost[of "keyboard_init blank_kbd" "[]" "0x48"] by auto
  then show ?thesis using kbd_queue.has_data_iff[of s "[]"] by auto
qed

end
