(* ===== verification/Auth.thy ===== *)
theory Auth
  imports Kbd "HOL-Library.Monad_Syntax"
begin

text \<open>
  User accounts and the login prompt, \<^verbatim>\<open>security/auth.c\<close>. C strings are lists of characters without the
  terminating NUL; a pointer argument that may be \<^verbatim>\<open>NULL\<close> is optional. The prompt reads the keys the
  keyboard driver delivers, in order; running out of keys means that the prompt waits. The theory shows
  that the account table implements a map from names to passwords and user ids, that the prompt lets
  nobody in without valid credentials, and what the permission check decides.
\<close>

abbreviation (input) MAX_USERS :: nat where "MAX_USERS \<equiv> 16"
abbreviation (input) USERNAME_MAX :: nat where "USERNAME_MAX \<equiv> 24"
abbreviation (input) PASS_HASH_LEN :: nat where "PASS_HASH_LEN \<equiv> 32"

section \<open>State\<close>

record user_account =
  username :: string
  password_hash :: "u8 list"
  uid :: u32
  gid :: u32
  is_root :: bool
  active :: bool

record auth =
  g_users :: "user_account list"
  g_user_count :: int
  g_current_uid :: int

definition zero_account :: user_account where
  "zero_account = \<lparr>username = [], password_hash = replicate PASS_HASH_LEN 0, uid = 0, gid = 0, is_root = False, active = False\<rparr>"

section \<open>Strings and hashes\<close>

fun auth_strcmp :: "string \<Rightarrow> string \<Rightarrow> int" where
  "auth_strcmp [] [] = 0"
| "auth_strcmp [] (b # bs) = - of_char b"
| "auth_strcmp (a # as) [] = of_char a"
| "auth_strcmp (a # as) (b # bs) = (if a = b then auth_strcmp as bs else of_char a - of_char b)"

definition auth_strcpy_n :: "string \<Rightarrow> nat \<Rightarrow> string" where
  "auth_strcpy_n src cap = take (cap - 1) src"

primrec hash_loop :: "nat \<Rightarrow> string \<Rightarrow> u8 list \<Rightarrow> u8 list" where
  "hash_loop i [] h = h"
| "hash_loop i (c # cs) h =
     (let idx = i mod PASS_HASH_LEN; mix = of_char c + of_nat i
      in hash_loop (Suc i) cs (h[idx := h ! idx XOR mix]))" for i

definition auth_hash_password :: "string \<Rightarrow> u8 list" where
  "auth_hash_password password = hash_loop 0 password (replicate PASS_HASH_LEN 0)"

section \<open>Accounts\<close>

definition account :: "string \<Rightarrow> string \<Rightarrow> u32 \<Rightarrow> u32 \<Rightarrow> bool \<Rightarrow> user_account" where
  "account name password u g r = \<lparr>username = auth_strcpy_n name USERNAME_MAX,
     password_hash = auth_hash_password password, uid = u, gid = g, is_root = r, active = True\<rparr>"

definition auth_init :: "auth \<Rightarrow> auth" where
  "auth_init s = s\<lparr>g_users := [account ''root'' ''root123'' 0 0 True, account ''admin'' ''admin123'' 1 1 True,
      account ''user'' ''user123'' 2 100 False] @ replicate (MAX_USERS - 3) zero_account,
    g_user_count := 3, g_current_uid := - 1\<rparr>"

definition auth_login :: "string option \<Rightarrow> string option \<Rightarrow> auth \<Rightarrow> int" where
  "auth_login name password s =
     (case (name, password) of
        (Some n, Some p) \<Rightarrow>
          let hash = auth_hash_password p
          in (case find (\<lambda>a. active a \<and> auth_strcmp (username a) n = 0 \<and> password_hash a = hash) (g_users s) of
                Some a \<Rightarrow> sint (uid a)
              | None \<Rightarrow> - 1)
      | _ \<Rightarrow> - 1)"

text \<open>The loop that looks for a free slot and the next user id.\<close>

primrec scan_users :: "nat \<Rightarrow> user_account list \<Rightarrow> nat option \<Rightarrow> u32 \<Rightarrow> nat option \<times> u32" where
  "scan_users i [] slot next_uid = (slot, next_uid)"
| "scan_users i (a # as) slot next_uid =
     (if \<not> active a then scan_users (Suc i) as (if slot = None then Some i else slot) next_uid
      else if next_uid \<le> uid a then scan_users (Suc i) as slot (uid a + 1)
      else scan_users (Suc i) as slot next_uid)" for i

definition auth_create_user :: "string option \<Rightarrow> string option \<Rightarrow> bool \<Rightarrow> auth \<Rightarrow> int \<times> auth" where
  "auth_create_user name password root s =
     (case (name, password) of
        (Some n, Some p) \<Rightarrow>
          if n = [] \<or> length n \<ge> USERNAME_MAX then (- 1, s)
          else if \<exists>a \<in> set (g_users s). active a \<and> auth_strcmp (username a) n = 0 then (- 1, s)
          else
            (case scan_users 0 (g_users s) None 0 of
               (None, _) \<Rightarrow> (- 1, s)
             | (Some slot, next_uid) \<Rightarrow>
                 (sint next_uid,
                  s\<lparr>g_users := (g_users s)[slot := account n p next_uid (if root then next_uid else 100) root],
                    g_user_count := g_user_count s + 1\<rparr>))
      | _ \<Rightarrow> (- 1, s))"

text \<open>The first slot of a live account with a given user id.\<close>

definition find_uid :: "u32 \<Rightarrow> auth \<Rightarrow> nat option" where
  "find_uid u s = find (\<lambda>i. active (g_users s ! i) \<and> uid (g_users s ! i) = u) [0..<length (g_users s)]"

definition auth_delete_user :: "u32 \<Rightarrow> auth \<Rightarrow> int \<times> auth" where
  "auth_delete_user u s =
     (if u = 0 then (- 1, s)
      else case find_uid u s of
             None \<Rightarrow> (- 1, s)
           | Some i \<Rightarrow> (0, s\<lparr>g_users := (g_users s)[i := zero_account],
                          g_user_count := (if g_user_count s > 0 then g_user_count s - 1 else g_user_count s)\<rparr>))"

definition auth_change_password :: "u32 \<Rightarrow> string option \<Rightarrow> auth \<Rightarrow> int \<times> auth" where
  "auth_change_password u new_password s =
     (case new_password of
        None \<Rightarrow> (- 1, s)
      | Some p \<Rightarrow>
          (case find_uid u s of
             None \<Rightarrow> (- 1, s)
           | Some i \<Rightarrow> (0, s\<lparr>g_users := (g_users s)[i := (g_users s ! i)\<lparr>password_hash := auth_hash_password p\<rparr>]\<rparr>)))"

definition auth_check_permission :: "u32 \<Rightarrow> u32 \<Rightarrow> u16 \<Rightarrow> bool \<Rightarrow> auth \<Rightarrow> bool" where
  "auth_check_permission file_uid file_gid file_mode is_write s =
     (if g_current_uid s < 0 then False
      else
        let cur_uid = word_of_int (g_current_uid s) :: u32
        in if cur_uid = 0 then True
           else (case find_uid cur_uid s of
                   None \<Rightarrow> False
                 | Some i \<Rightarrow>
                     let cur_gid = gid (g_users s ! i);
                         m = (if cur_uid = file_uid then (if is_write then 0x0080 else 0x0100)
                              else if cur_gid = file_gid then (if is_write then 0x0010 else 0x0020)
                              else (if is_write then 0x0002 else 0x0004))
                     in file_mode AND m \<noteq> 0))"

definition auth_username :: "u32 \<Rightarrow> auth \<Rightarrow> string option" where
  "auth_username u s = map_option (\<lambda>i. username (g_users s ! i)) (find_uid u s)"

section \<open>The login prompt\<close>

text \<open>
  \<open>auth_read_line cap masked line keys\<close>: \<open>line\<close> is what the buffer holds. The result is the line, the echo
  and the keys not read; \<open>None\<close> if the keys end before Enter.
\<close>

fun auth_read_line :: "nat \<Rightarrow> bool \<Rightarrow> string \<Rightarrow> u8 list \<Rightarrow> (string \<times> string \<times> u8 list) option" where
  "auth_read_line cap masked line [] = None"
| "auth_read_line cap masked line (c # keys) =
     (if c = 0 then auth_read_line cap masked line keys
      else if c = KEY_ENTER then Some (line, [CHR 0x0A], keys)
      else if c = KEY_BACKSPACE then
        if line \<noteq> [] then do {
          (l, out, rest) \<leftarrow> auth_read_line cap masked (butlast line) keys;
          Some (l, [CHR 0x08, CHR 0x20, CHR 0x08] @ out, rest) }
        else auth_read_line cap masked line keys
      else if 0x20 \<le> c \<and> c < 0x7F \<and> length line + 1 < cap then do {
        (l, out, rest) \<leftarrow> auth_read_line cap masked (line @ [char8 c]) keys;
        Some (l, (if masked then CHR ''*'' else char8 c) # out, rest) }
      else auth_read_line cap masked line keys)"

datatype login_outcome = Waiting | Locked | Logged_in auth "u8 list"

primrec login_attempts :: "nat \<Rightarrow> u8 list \<Rightarrow> auth \<Rightarrow> login_outcome" where
  "login_attempts 0 keys s = Locked"
| "login_attempts (Suc n) keys s =
     (case auth_read_line USERNAME_MAX False [] keys of
        None \<Rightarrow> Waiting
      | Some (name, _, keys) \<Rightarrow>
          (case auth_read_line 64 True [] keys of
             None \<Rightarrow> Waiting
           | Some (password, _, keys) \<Rightarrow>
               let u = auth_login (Some name) (Some password) s
               in if u \<ge> 0 then Logged_in (s\<lparr>g_current_uid := u\<rparr>) keys
                  else login_attempts n keys s))"

definition auth_run_login :: "u8 list \<Rightarrow> auth \<Rightarrow> login_outcome" where
  "auth_run_login keys s = login_attempts 3 keys s"

section \<open>Passwords up to 32 characters are told apart\<close>

definition nul_free :: "string \<Rightarrow> bool" where
  "nul_free t \<longleftrightarrow> CHR 0x00 \<notin> set t"

definition good_password :: "string \<Rightarrow> bool" where
  "good_password p \<longleftrightarrow> length p \<le> PASS_HASH_LEN \<and> (\<forall>c \<in> set p. 0x20 \<le> (of_char c :: nat) \<and> of_char c < (0x7F :: nat))"

lemma hash_loop_nth:
  assumes "i + length p \<le> PASS_HASH_LEN" and "length h = PASS_HASH_LEN" and "k < PASS_HASH_LEN"
  shows "hash_loop i p h ! k = (if i \<le> k \<and> k < i + length p then h ! k XOR (of_char (p ! (k - i)) + of_nat k) else h ! k)"
  using assms
proof (induction p arbitrary: i h)
  case (Cons c cs)
  have i: "i mod PASS_HASH_LEN = i" using Cons.prems(1) by simp
  show ?case
    using Cons.IH[of "Suc i" "h[i := h ! i XOR (of_char c + of_nat i)]"] Cons.prems i
    by (auto simp: Let_def nth_list_update nth_Cons' not_less_eq_eq Suc_diff_le)
qed auto

lemma length_hash_loop [simp]: "length (hash_loop i p h) = length h"
  by (induction p arbitrary: i h) (simp_all add: Let_def)

lemma length_hash [simp]: "length (auth_hash_password p) = PASS_HASH_LEN"
  by (simp add: auth_hash_password_def)

lemma hash_nth:
  "length p \<le> PASS_HASH_LEN \<Longrightarrow> k < PASS_HASH_LEN \<Longrightarrow>
   auth_hash_password p ! k = (if k < length p then of_char (p ! k) + of_nat k else 0)"
  unfolding auth_hash_password_def by (subst hash_loop_nth) simp_all

lemma mix_nonzero:
  assumes "good_password p" and "k < length p"
  shows "of_char (p ! k) + of_nat k \<noteq> (0 :: u8)"
proof
  assume z: "of_char (p ! k) + of_nat k = (0 :: u8)"
  have c: "0x20 \<le> (of_char (p ! k) :: nat)" "of_char (p ! k) < (0x7F :: nat)" "k < 32"
    using assms by (auto simp: good_password_def)
  have "unat (of_nat (of_char (p ! k) + k) :: u8) = of_char (p ! k) + k" using c by (intro unat_less_of_nat) simp
  moreover have "(of_nat (of_char (p ! k) + k) :: u8) = 0" using z by (simp add: of_nat_of_char)
  ultimately show False using c by simp
qed

lemma auth_hash_injective:
  assumes p: "good_password p" and q: "good_password q" and eq: "auth_hash_password p = auth_hash_password q"
  shows "p = q"
proof -
  have len: "length p \<le> length q" if "good_password p" "good_password q" "auth_hash_password p = auth_hash_password q" for p q
  proof (rule ccontr)
    assume n: "\<not> length p \<le> length q"
    then have "auth_hash_password q ! length q = 0" "auth_hash_password p ! length q = of_char (p ! length q) + of_nat (length q)"
      using that(1,2) by (simp_all add: hash_nth good_password_def)
    then show False using mix_nonzero[OF that(1), of "length q"] n that(3) by simp
  qed
  show ?thesis
  proof (rule nth_equalityI)
    show l: "length p = length q" using len[OF p q eq] len[OF q p eq[symmetric]] by simp
    fix k
    assume k: "k < length p"
    have "of_char (p ! k) + of_nat k = (of_char (q ! k) + of_nat k :: u8)"
      using hash_nth[of p k] hash_nth[of q k] eq k l p q by (simp add: good_password_def)
    then show "p ! k = q ! k" by simp
  qed
qed

lemma of_char_0: "(of_char b :: int) = 0 \<longleftrightarrow> b = CHR 0x00"
proof -
  have "(of_char b :: int) = of_char CHR 0x00 \<longleftrightarrow> b = CHR 0x00" by (rule of_char_eq_iff)
  then show ?thesis by simp
qed

lemma auth_strcmp_eq: "nul_free a \<Longrightarrow> nul_free b \<Longrightarrow> auth_strcmp a b = 0 \<longleftrightarrow> a = b"
  by (induction a b rule: auth_strcmp.induct) (auto simp: nul_free_def of_char_0)

section \<open>The account table implements a map\<close>

text \<open>
  What the rest of the kernel may rely on: \<open>db\<close> maps the names of the accounts to passwords and user ids.
\<close>

locale account_db =
  fixes rep :: "'s \<Rightarrow> (string \<Rightarrow> (string \<times> u32) option) \<Rightarrow> bool"
    and login :: "string option \<Rightarrow> string option \<Rightarrow> 's \<Rightarrow> int"
    and delete :: "u32 \<Rightarrow> 's \<Rightarrow> int \<times> 's"
    and change :: "u32 \<Rightarrow> string option \<Rightarrow> 's \<Rightarrow> int \<times> 's"
  assumes login_ok: "rep s db \<Longrightarrow> nul_free n \<Longrightarrow> good_password p \<Longrightarrow>
      login (Some n) (Some p) s = (case db n of Some (q, u) \<Rightarrow> if p = q then int (unat u) else - 1 | None \<Rightarrow> - 1)"
    and delete_ok: "rep s db \<Longrightarrow> u \<noteq> 0 \<Longrightarrow> \<exists>r s'. delete u s = (r, s') \<and>
      rep s' (\<lambda>x. case db x of Some (q, k) \<Rightarrow> if k = u then None else Some (q, k) | None \<Rightarrow> None) \<and>
      (r = 0 \<longleftrightarrow> (\<exists>x q. db x = Some (q, u)))"
    and change_ok: "rep s db \<Longrightarrow> good_password p \<Longrightarrow> \<exists>r s'. change u (Some p) s = (r, s') \<and>
      rep s' (\<lambda>x. case db x of Some (q, k) \<Rightarrow> Some (if k = u then p else q, k) | None \<Rightarrow> None) \<and>
      (r = 0 \<longleftrightarrow> (\<exists>x q. db x = Some (q, u)))"
begin

lemma login_after_change:
  assumes "rep s db" and "db n = Some (q, u)" and "nul_free n" and "good_password p" and "good_password p'"
    and "change u (Some p) s = (r, s')"
  shows "login (Some n) (Some p') s' = (if p' = p then int (unat u) else - 1)"
  using change_ok[OF assms(1,4), of u] assms(2,6) login_ok[OF _ assms(3,5), of s'] by auto

lemma login_after_delete:
  assumes "rep s db" and "db n = Some (q, u)" and "u \<noteq> 0" and "nul_free n" and "good_password p"
    and "delete u s = (r, s')"
  shows "login (Some n) (Some p) s' = - 1"
  using delete_ok[OF assms(1,3)] assms(2,6) login_ok[OF _ assms(4,5), of s'] by auto

end

definition live_slots :: "user_account list \<Rightarrow> nat set" where
  "live_slots us = {i. i < MAX_USERS \<and> active (us ! i)}"

definition acct_rep :: "nat \<Rightarrow> user_account list \<Rightarrow> (string \<Rightarrow> (string \<times> u32) option) \<Rightarrow> bool" where
  "acct_rep n us db \<longleftrightarrow> length us = MAX_USERS \<and>
     (\<forall>i \<in> live_slots us. \<exists>p. good_password p \<and> db (username (us ! i)) = Some (p, uid (us ! i)) \<and>
        password_hash (us ! i) = auth_hash_password p) \<and>
     dom db = (\<lambda>i. username (us ! i)) ` live_slots us \<and>
     inj_on (\<lambda>i. username (us ! i)) (live_slots us) \<and> inj_on (\<lambda>i. uid (us ! i)) (live_slots us) \<and>
     (\<forall>i \<in> live_slots us. unat (uid (us ! i)) \<le> n \<and> nul_free (username (us ! i)))"

definition auth_rep :: "nat \<Rightarrow> auth \<Rightarrow> (string \<Rightarrow> (string \<times> u32) option) \<Rightarrow> bool" where
  "auth_rep n s db \<longleftrightarrow> n < 2 ^ 31 \<and> acct_rep n (g_users s) db \<and> g_user_count s = int (card (dom db)) \<and>
     (\<exists>p. db ''root'' = Some (p, 0))"

lemma finite_live [simp]: "finite (live_slots us)"
  by (simp add: live_slots_def)

lemma live_upd:
  "length us = MAX_USERS \<Longrightarrow> i < MAX_USERS \<Longrightarrow>
   live_slots (us[i := a]) = (if active a then insert i (live_slots us) else live_slots us - {i})"
  by (auto simp: live_slots_def nth_list_update)

lemma live_set: "length us = MAX_USERS \<Longrightarrow> a \<in> set us \<and> active a \<longleftrightarrow> (\<exists>i \<in> live_slots us. a = us ! i)"
  by (auto simp: live_slots_def in_set_conv_nth)

lemma find_uid_Some:
  assumes "find_uid u s = Some i" and "length (g_users s) = MAX_USERS"
  shows "i \<in> live_slots (g_users s)" and "uid (g_users s ! i) = u"
  using assms by (auto simp: find_uid_def find_Some_iff live_slots_def)

lemma find_uid_None:
  "find_uid u s = None \<Longrightarrow> length (g_users s) = MAX_USERS \<Longrightarrow> i \<in> live_slots (g_users s) \<Longrightarrow> uid (g_users s ! i) \<noteq> u"
  by (auto simp: find_uid_def find_None_iff live_slots_def)

lemma login_rep:
  assumes rep: "acct_rep k (g_users s) db" and k: "k < 2 ^ 31" and n: "nul_free n" and p: "good_password p"
  shows "auth_login (Some n) (Some p) s =
    (case db n of Some (q, u) \<Rightarrow> if p = q then int (unat u) else - 1 | None \<Rightarrow> - 1)"
proof -
  let ?us = "g_users s"
  let ?P = "\<lambda>a. active a \<and> auth_strcmp (username a) n = 0 \<and> password_hash a = auth_hash_password p"
  have len: "length ?us = MAX_USERS" using rep by (simp add: acct_rep_def)
  have P: "?P a \<longleftrightarrow> db n = Some (p, uid a)" if A: "a \<in> set ?us" "active a" "username a = n" for a
  proof -
    obtain i where i: "i \<in> live_slots ?us" "a = ?us ! i" using A live_set[OF len, of a] by blast
    then obtain q where q: "good_password q" "db (username a) = Some (q, uid a)" "password_hash a = auth_hash_password q"
      using rep unfolding acct_rep_def by blast
    then show ?thesis using A auth_hash_injective[OF q(1) p] auth_strcmp_eq[OF n n] by auto
  qed
  have name: "?P a \<Longrightarrow> username a = n" if "a \<in> set ?us" for a
    using that live_set[OF len, of a] rep n auth_strcmp_eq[of "username a" n] by (auto simp: acct_rep_def)
  have small: "sint (uid a) = int (unat (uid a))" if "a \<in> set ?us" "active a" for a
    using that live_set[OF len, of a] rep k by (intro sint_small) (auto simp: acct_rep_def)
  show ?thesis
  proof (cases "find ?P ?us")
    case None
    have "db n \<noteq> Some (p, u)" for u
    proof
      assume d: "db n = Some (p, u)"
      then have "n \<in> dom db" by blast
      then obtain i where i: "i \<in> live_slots ?us" "username (?us ! i) = n" using rep by (auto simp: acct_rep_def)
      have a: "?us ! i \<in> set ?us" "active (?us ! i)" using i len by (auto simp: live_slots_def)
      obtain q where "db (username (?us ! i)) = Some (q, uid (?us ! i))" using rep i(1) unfolding acct_rep_def by blast
      then have "?P (?us ! i)" using P[OF a i(2)] d i(2) by simp
      then show False using None a(1) by (auto simp: find_None_iff)
    qed
    then show ?thesis using None by (auto simp: auth_login_def Let_def split: option.splits)
  next
    case (Some a)
    then have a: "a \<in> set ?us" "?P a" by (auto simp: find_Some_iff)
    then have "db n = Some (p, uid a)" using P[OF a(1) _ name[OF a]] by blast
    then show ?thesis using Some small[OF a(1)] a(2) by (simp add: auth_login_def Let_def)
  qed
qed

lemma uid_slot:
  assumes rep: "acct_rep k us db"
  shows "(\<exists>x q. db x = Some (q, u)) \<longleftrightarrow> (\<exists>i \<in> live_slots us. uid (us ! i) = u)"
    and "i \<in> live_slots us \<Longrightarrow> db x = Some (q, uid (us ! i)) \<Longrightarrow> x = username (us ! i)"
proof -
  have slot: "\<exists>j \<in> live_slots us. username (us ! j) = x \<and> uid (us ! j) = u" if "db x = Some (q, u)" for x q u
  proof -
    have "x \<in> dom db" using that by blast
    then obtain j where j: "j \<in> live_slots us" "username (us ! j) = x" using rep by (auto simp: acct_rep_def)
    then show ?thesis using rep that unfolding acct_rep_def by force
  qed
  show "(\<exists>x q. db x = Some (q, u)) \<longleftrightarrow> (\<exists>i \<in> live_slots us. uid (us ! i) = u)"
    using slot rep unfolding acct_rep_def by metis
  show "x = username (us ! i)" if A: "i \<in> live_slots us" "db x = Some (q, uid (us ! i))"
  proof -
    obtain j where "j \<in> live_slots us" "username (us ! j) = x" "uid (us ! j) = uid (us ! i)" using slot[OF A(2)] by blast
    then show ?thesis using rep A(1) by (auto simp: acct_rep_def inj_on_def)
  qed
qed

lemma delete_slot:
  assumes rep: "acct_rep k us db" and i: "i \<in> live_slots us"
  shows "acct_rep k (us[i := zero_account]) (db(username (us ! i) := None))"
    and "(\<lambda>x. case db x of Some (q, k) \<Rightarrow> if k = uid (us ! i) then None else Some (q, k) | None \<Rightarrow> None) =
      db(username (us ! i) := None)"
proof -
  have len: "length us = MAX_USERS" "i < MAX_USERS" using rep i by (auto simp: acct_rep_def live_slots_def)
  have live: "live_slots (us[i := zero_account]) = live_slots us - {i}"
    using live_upd[OF len, of zero_account] by (simp add: zero_account_def)
  have inj: "inj_on (\<lambda>i. username (us ! i)) (live_slots us)" using rep by (simp add: acct_rep_def)
  have ne: "username (us ! j) \<noteq> username (us ! i)" if "j \<in> live_slots us" "j \<noteq> i" for j
    using inj i that by (auto simp: inj_on_def)
  have im: "(\<lambda>j. username (us[i := zero_account] ! j)) ` (live_slots us - {i}) =
      (\<lambda>j. username (us ! j)) ` live_slots us - {username (us ! i)}"
    using ne i by (auto simp: image_iff) 
  show "acct_rep k (us[i := zero_account]) (db(username (us ! i) := None))"
    unfolding acct_rep_def live im
    using rep len ne by (auto simp: acct_rep_def inj_on_def)
  obtain p where "db (username (us ! i)) = Some (p, uid (us ! i))" using rep i by (auto simp: acct_rep_def)
  note own = this
  show "(\<lambda>x. case db x of Some (q, k) \<Rightarrow> if k = uid (us ! i) then None else Some (q, k) | None \<Rightarrow> None) =
      db(username (us ! i) := None)"
  proof (rule ext)
    fix x
    show "(case db x of Some (q, k) \<Rightarrow> if k = uid (us ! i) then None else Some (q, k) | None \<Rightarrow> None) =
        (db(username (us ! i) := None)) x"
    proof (cases "x = username (us ! i)")
      case False
      then have "k \<noteq> uid (us ! i)" if "db x = Some (q, k)" for q k using uid_slot(2)[OF rep i, of x q] that by blast
      then show ?thesis using False by (cases "db x") auto
    qed (simp add: own)
  qed
qed

lemma change_slot:
  assumes rep: "acct_rep k us db" and i: "i \<in> live_slots us" and p: "good_password p"
  shows "acct_rep k (us[i := (us ! i)\<lparr>password_hash := auth_hash_password p\<rparr>]) (db(username (us ! i) \<mapsto> (p, uid (us ! i))))"
    and "(\<lambda>x. case db x of Some (q, k) \<Rightarrow> Some (if k = uid (us ! i) then p else q, k) | None \<Rightarrow> None) =
      db(username (us ! i) \<mapsto> (p, uid (us ! i)))"
proof -
  let ?a = "(us ! i)\<lparr>password_hash := auth_hash_password p\<rparr>"
  have len: "length us = MAX_USERS" "i < MAX_USERS" "active (us ! i)" using rep i by (auto simp: acct_rep_def live_slots_def)
  have live: "live_slots (us[i := ?a]) = live_slots us"
    using live_upd[OF len(1,2), of ?a] i len(3) by auto
  have names: "username (us[i := ?a] ! j) = username (us ! j)" "uid (us[i := ?a] ! j) = uid (us ! j)" for j
    using len by (cases "j = i"; simp)+
  have inj: "inj_on (\<lambda>i. username (us ! i)) (live_slots us)" using rep by (simp add: acct_rep_def)
  have ne: "username (us ! j) \<noteq> username (us ! i)" if "j \<in> live_slots us" "j \<noteq> i" for j
    using inj i that by (auto simp: inj_on_def)
  have "\<exists>q. good_password q \<and> (db(username (us ! i) \<mapsto> (p, uid (us ! i)))) (username (us ! j)) = Some (q, uid (us ! j)) \<and>
      password_hash (us[i := ?a] ! j) = auth_hash_password q" if "j \<in> live_slots us" for j
  proof (cases "j = i")
    case False
    then show ?thesis using rep that ne[OF that] by (auto simp: acct_rep_def)
  qed (use p len in auto)
  moreover have "dom (db(username (us ! i) \<mapsto> (p, uid (us ! i)))) = (\<lambda>j. username (us ! j)) ` live_slots us"
    using rep i by (auto simp: acct_rep_def)
  ultimately show "acct_rep k (us[i := ?a]) (db(username (us ! i) \<mapsto> (p, uid (us ! i))))"
    unfolding acct_rep_def live names using rep by (simp add: acct_rep_def)
  obtain q0 where own: "db (username (us ! i)) = Some (q0, uid (us ! i))" using rep i by (auto simp: acct_rep_def)
  show "(\<lambda>x. case db x of Some (q, k) \<Rightarrow> Some (if k = uid (us ! i) then p else q, k) | None \<Rightarrow> None) =
      db(username (us ! i) \<mapsto> (p, uid (us ! i)))"
  proof (rule ext)
    fix x
    show "(case db x of Some (q, k) \<Rightarrow> Some (if k = uid (us ! i) then p else q, k) | None \<Rightarrow> None) =
        (db(username (us ! i) \<mapsto> (p, uid (us ! i)))) x"
    proof (cases "x = username (us ! i)")
      case False
      then have "k \<noteq> uid (us ! i)" if "db x = Some (q, k)" for q k using uid_slot(2)[OF rep i, of x q] that by blast
      then show ?thesis using False by (cases "db x") auto
    qed (simp add: own)
  qed
qed

lemma root_slot:
  "acct_rep k us db \<Longrightarrow> db ''root'' = Some (p, 0) \<Longrightarrow> i \<in> live_slots us \<Longrightarrow> uid (us ! i) \<noteq> 0 \<Longrightarrow> username (us ! i) \<noteq> ''root''"
  by (auto simp: acct_rep_def)

lemma delete_rep:
  assumes rep: "auth_rep k s db" and u: "u \<noteq> 0"
  shows "\<exists>r s'. auth_delete_user u s = (r, s') \<and>
      auth_rep k s' (\<lambda>x. case db x of Some (q, k) \<Rightarrow> if k = u then None else Some (q, k) | None \<Rightarrow> None) \<and>
      (r = 0 \<longleftrightarrow> (\<exists>x q. db x = Some (q, u)))"
proof (cases "find_uid u s")
  case None
  have a: "acct_rep k (g_users s) db" "length (g_users s) = MAX_USERS" using rep by (simp_all add: auth_rep_def acct_rep_def)
  have no: "\<not> (\<exists>x q. db x = Some (q, u))" using uid_slot(1)[OF a(1)] find_uid_None[OF None a(2)] by blast
  then have "(\<lambda>x. case db x of Some (q, k) \<Rightarrow> if k = u then None else Some (q, k) | None \<Rightarrow> None) = db"
    by (intro ext) (auto split: option.splits)
  then show ?thesis using None u rep no by (simp add: auth_delete_user_def)
next
  case (Some i)
  have a: "acct_rep k (g_users s) db" "length (g_users s) = MAX_USERS" using rep by (simp_all add: auth_rep_def acct_rep_def)
  have i: "i \<in> live_slots (g_users s)" "uid (g_users s ! i) = u" using find_uid_Some[OF Some a(2)] by auto
  let ?n = "username (g_users s ! i)"
  have n: "?n \<in> dom db" "finite (dom db)" using a(1) i(1) by (auto simp: acct_rep_def)
  obtain p where p: "db ''root'' = Some (p, 0)" using rep by (auto simp: auth_rep_def)
  have "?n \<noteq> ''root''" using root_slot[OF a(1) p i(1)] i(2) u by simp
  moreover have pos: "card (dom db) > 0" using n by (auto simp: card_gt_0_iff)
  moreover have "int (card (dom db - {?n})) = int (card (dom db)) - 1"
    using pos by (simp add: card_Diff_singleton[OF n(1)])
  ultimately have "auth_rep k (snd (auth_delete_user u s)) (db(?n := None))"
    using rep Some u delete_slot(1)[OF a(1) i(1)] by (auto simp: auth_rep_def auth_delete_user_def)
  then show ?thesis
    using Some u i(2) delete_slot(2)[OF a(1) i(1)] uid_slot(1)[OF a(1), of u] i(1) by (auto simp: auth_delete_user_def)
qed

lemma change_rep:
  assumes rep: "auth_rep k s db" and p: "good_password p"
  shows "\<exists>r s'. auth_change_password u (Some p) s = (r, s') \<and>
      auth_rep k s' (\<lambda>x. case db x of Some (q, k) \<Rightarrow> Some (if k = u then p else q, k) | None \<Rightarrow> None) \<and>
      (r = 0 \<longleftrightarrow> (\<exists>x q. db x = Some (q, u)))"
proof (cases "find_uid u s")
  case None
  have a: "acct_rep k (g_users s) db" "length (g_users s) = MAX_USERS" using rep by (simp_all add: auth_rep_def acct_rep_def)
  have no: "\<not> (\<exists>x q. db x = Some (q, u))" using uid_slot(1)[OF a(1)] find_uid_None[OF None a(2)] by blast
  then have "(\<lambda>x. case db x of Some (q, k) \<Rightarrow> Some (if k = u then p else q, k) | None \<Rightarrow> None) = db"
    by (intro ext) (auto split: option.splits)
  then show ?thesis using None rep no by (simp add: auth_change_password_def)
next
  case (Some i)
  have a: "acct_rep k (g_users s) db" "length (g_users s) = MAX_USERS" using rep by (simp_all add: auth_rep_def acct_rep_def)
  have i: "i \<in> live_slots (g_users s)" "uid (g_users s ! i) = u" using find_uid_Some[OF Some a(2)] by auto
  let ?n = "username (g_users s ! i)"
  have n: "?n \<in> dom db" using a(1) i(1) by (auto simp: acct_rep_def)
  then have "dom (db(?n \<mapsto> (p, u))) = dom db" by auto
  moreover have "\<exists>q. (db(?n \<mapsto> (p, u))) ''root'' = Some (q, 0)"
  proof (cases "?n = ''root''")
    case True
    then have "u = 0" using rep a(1) i by (auto simp: auth_rep_def acct_rep_def)
    then show ?thesis using True by simp
  qed (use rep in \<open>auto simp: auth_rep_def\<close>)
  ultimately have "auth_rep k (snd (auth_change_password u (Some p) s)) (db(?n \<mapsto> (p, u)))"
    using rep Some change_slot(1)[OF a(1) i(1) p] i(2) by (simp add: auth_rep_def auth_change_password_def)
  then show ?thesis
    using Some i(2) change_slot(2)[OF a(1) i(1) p] uid_slot(1)[OF a(1), of u] i(1) by (auto simp: auth_change_password_def)
qed

lemma login_auth:
  "auth_rep k s db \<Longrightarrow> nul_free n \<Longrightarrow> good_password p \<Longrightarrow> auth_login (Some n) (Some p) s =
    (case db n of Some (q, u) \<Rightarrow> if p = q then int (unat u) else - 1 | None \<Rightarrow> - 1)"
  by (rule login_rep[of k]) (simp_all add: auth_rep_def)

interpretation accounts: account_db "auth_rep k" auth_login auth_delete_user auth_change_password for k
  by unfold_locales (rule login_auth delete_rep change_rep; assumption)+

lemma scan_users_spec:
  assumes "scan_users i us slot nu = (slot', nu')" and "\<forall>a \<in> set us. active a \<longrightarrow> unat (uid a) < N" and "N < 2 ^ 32"
  shows "nu \<le> nu' \<and> (\<forall>a \<in> set us. active a \<longrightarrow> uid a < nu') \<and> (unat nu \<le> N \<longrightarrow> unat nu' \<le> N) \<and>
    (case slot' of None \<Rightarrow> slot = None \<and> (\<forall>a \<in> set us. active a)
     | Some j \<Rightarrow> slot = Some j \<or> slot = None \<and> i \<le> j \<and> j < i + length us \<and> \<not> active (us ! (j - i)))"
  using assms(1,2)
proof (induction us arbitrary: i slot nu)
  case (Cons a us)
  show ?case
  proof (cases "active a")
    case False
    then show ?thesis
      using Cons.IH[of "Suc i" "if slot = None then Some i else slot" nu] Cons.prems
      by (auto simp: nth_Cons' split: option.splits if_splits)
  next
    case True
    have u: "unat (uid a + 1) = Suc (unat (uid a))"
      using Cons.prems(2) True assms(3) by (subst unat_add_lem[THEN iffD1]) auto
    then have lt: "uid a < uid a + 1" by (simp add: word_less_nat_alt)
    let ?nu = "if nu \<le> uid a then uid a + 1 else nu"
    have "scan_users (Suc i) us slot ?nu = (slot', nu')" using Cons.prems(1) True by (auto split: if_splits)
    note IH = Cons.IH[OF this]
    have "nu \<le> ?nu" "uid a < ?nu" "unat nu \<le> N \<longrightarrow> unat ?nu \<le> N" using lt u Cons.prems(2) True by auto
    then show ?thesis using IH Cons.prems(2) True by (auto simp: nth_Cons' Suc_diff_le split: option.splits)
  qed
qed (auto split: option.splits)

lemma create_slot:
  assumes rep: "acct_rep k us db" and i: "i < MAX_USERS" "\<not> active (us ! i)" and n: "n \<notin> dom db" "nul_free n" "length n < USERNAME_MAX"
    and p: "good_password p" and u: "\<forall>j \<in> live_slots us. uid (us ! j) \<noteq> u" "unat u \<le> k'" "k \<le> k'"
  shows "acct_rep k' (us[i := account n p u g r]) (db(n \<mapsto> (p, u)))"
proof -
  let ?a = "account n p u g r"
  have a: "active ?a" "username ?a = n" "uid ?a = u" "password_hash ?a = auth_hash_password p"
    using n(3) by (simp_all add: account_def auth_strcpy_n_def)
  have len: "length us = MAX_USERS" using rep by (simp add: acct_rep_def)
  have live: "live_slots (us[i := ?a]) = insert i (live_slots us)" using live_upd[OF len i(1), of ?a] a(1) by simp
  have il: "i \<notin> live_slots us" using i by (simp add: live_slots_def)
  have at: "us[i := ?a] ! j = us ! j" if "j \<in> live_slots us" for j using that il by (intro nth_list_update_neq) auto
  have self: "us[i := ?a] ! i = ?a" using len i by simp
  have names: "username (us ! j) \<noteq> n" if "j \<in> live_slots us" for j using that n(1) rep by (auto simp: acct_rep_def)
  have inj: "inj_on f (insert i (live_slots us)) \<longleftrightarrow> inj_on f (live_slots us) \<and> f i \<notin> f ` live_slots us" for f :: "nat \<Rightarrow> 'b"
    using il by simp
  have "inj_on (\<lambda>j. username (us[i := ?a] ! j)) (live_slots us)" "inj_on (\<lambda>j. uid (us[i := ?a] ! j)) (live_slots us)"
    using rep at by (auto simp: acct_rep_def inj_on_def)
  moreover have "dom (db(n \<mapsto> (p, u))) = (\<lambda>j. username (us[i := ?a] ! j)) ` insert i (live_slots us)"
    using rep at self a(2) by (auto simp: acct_rep_def)
  moreover have "\<exists>q. good_password q \<and> (db(n \<mapsto> (p, u))) (username (us[i := ?a] ! j)) = Some (q, uid (us[i := ?a] ! j)) \<and>
      password_hash (us[i := ?a] ! j) = auth_hash_password q" if "j \<in> insert i (live_slots us)" for j
    using that rep at self a names p by (cases "j = i") (auto simp: acct_rep_def)
  moreover have "\<forall>j \<in> insert i (live_slots us). unat (uid (us[i := ?a] ! j)) \<le> k' \<and> nul_free (username (us[i := ?a] ! j))"
    using rep at self a n u(2,3) by (auto simp: acct_rep_def)
  ultimately show ?thesis
    unfolding acct_rep_def live inj using len at self a names u(1) by auto
qed

lemma create_rep:
  assumes rep: "auth_rep k s db" and k: "k + 1 < 2 ^ 31" and n: "nul_free n" and p: "good_password p"
  shows "\<exists>res s'. auth_create_user (Some n) (Some p) r s = (res, s') \<and>
    (if n = [] \<or> USERNAME_MAX \<le> length n \<or> n \<in> dom db \<or> card (dom db) = MAX_USERS then res = - 1 \<and> s' = s
     else \<exists>u. res = int (unat u) \<and> (\<forall>x q. db x \<noteq> Some (q, u)) \<and> auth_rep (k + 1) s' (db(n \<mapsto> (p, u))))"
proof -
  let ?us = "g_users s"
  have a: "acct_rep k ?us db" "length ?us = MAX_USERS" using rep by (simp_all add: auth_rep_def acct_rep_def)
  have dup: "(\<exists>a \<in> set ?us. active a \<and> auth_strcmp (username a) n = 0) \<longleftrightarrow> n \<in> dom db"
  proof -
    have "(\<exists>a \<in> set ?us. active a \<and> auth_strcmp (username a) n = 0) \<longleftrightarrow>
        (\<exists>i \<in> live_slots ?us. auth_strcmp (username (?us ! i)) n = 0)"
      using live_set[OF a(2)] by metis
    also have "\<dots> \<longleftrightarrow> (\<exists>i \<in> live_slots ?us. username (?us ! i) = n)"
      using a(1) auth_strcmp_eq[OF _ n] by (auto simp: acct_rep_def)
    also have "\<dots> \<longleftrightarrow> n \<in> dom db" using a(1) by (auto simp: acct_rep_def)
    finally show ?thesis .
  qed
  have cnt: "card (dom db) = card (live_slots ?us)"
    using a(1) card_image[of "\<lambda>i. username (?us ! i)" "live_slots ?us"] by (simp add: acct_rep_def)
  obtain slot nu where sc: "scan_users 0 ?us None 0 = (slot, nu)" by fastforce
  have "\<forall>i \<in> live_slots ?us. unat (uid (?us ! i)) < k + 1" using a(1) by (auto simp: acct_rep_def less_Suc_eq_le)
  then have N: "\<forall>a \<in> set ?us. active a \<longrightarrow> unat (uid a) < k + 1" using live_set[OF a(2)] by metis
  have spec: "\<forall>a \<in> set ?us. active a \<longrightarrow> uid a < nu" "unat nu \<le> k + 1"
    "case slot of None \<Rightarrow> (\<forall>a \<in> set ?us. active a) | Some j \<Rightarrow> j < length ?us \<and> \<not> active (?us ! j)"
    using scan_users_spec[OF sc N] k by (auto split: option.splits)
  show ?thesis
  proof (cases slot)
    case None
    then have "live_slots ?us = {..<MAX_USERS}" using spec(3) a(2) by (auto simp: live_slots_def)
    then have "card (dom db) = MAX_USERS" using cnt by simp
    then show ?thesis using None sc dup by (simp add: auth_create_user_def)
  next
    case (Some j)
    have j: "j < MAX_USERS" "\<not> active (?us ! j)" using spec(3) Some a(2) by auto
    have "live_slots ?us \<subset> {..<MAX_USERS}" using j by (auto simp: live_slots_def)
    then have full: "card (dom db) \<noteq> MAX_USERS" using cnt psubset_card_mono[of "{..<MAX_USERS}" "live_slots ?us"] by auto
    have fresh: "\<forall>i \<in> live_slots ?us. uid (?us ! i) \<noteq> nu" using spec(1) a(2) by (auto simp: live_slots_def)
    show ?thesis
    proof (cases "n = [] \<or> USERNAME_MAX \<le> length n \<or> n \<in> dom db")
      case True
      then show ?thesis using dup by (auto simp: auth_create_user_def)
    next
      case False
      let ?s = "s\<lparr>g_users := ?us[j := account n p nu (if r then nu else 100) r], g_user_count := g_user_count s + 1\<rparr>"
      have c: "auth_create_user (Some n) (Some p) r s = (sint nu, ?s)"
        using False sc Some by (auto simp add: auth_create_user_def dup)
      have "acct_rep (k + 1) (g_users ?s) (db(n \<mapsto> (p, nu)))"
        using create_slot[OF a(1) j _ n _ p fresh spec(2)] False by simp
      moreover have "finite (dom db)" using a(1) by (simp add: acct_rep_def)
      ultimately have "auth_rep (k + 1) ?s (db(n \<mapsto> (p, nu)))"
        using rep k False by (auto simp: auth_rep_def)
      moreover have "sint nu = int (unat nu)" using spec(2) k by (intro sint_small) simp
      moreover have "\<forall>x q. db x \<noteq> Some (q, nu)" using uid_slot(1)[OF a(1), of nu] fresh by blast
      ultimately show ?thesis using c full False by auto
    qed
  qed
qed

definition default_db :: "string \<Rightarrow> (string \<times> u32) option" where
  "default_db = [''root'' \<mapsto> (''root123'', 0), ''admin'' \<mapsto> (''admin123'', 1), ''user'' \<mapsto> (''user123'', 2)]"

lemma init_rep: "auth_rep 2 (auth_init s) default_db"
proof -
  let ?us = "g_users (auth_init s)"
  have us: "?us ! 0 = account ''root'' ''root123'' 0 0 True" "?us ! 1 = account ''admin'' ''admin123'' 1 1 True"
    "?us ! 2 = account ''user'' ''user123'' 2 100 False" "\<And>i. 3 \<le> i \<Longrightarrow> i < MAX_USERS \<Longrightarrow> ?us ! i = zero_account"
    by (simp_all add: auth_init_def nth_Cons')
  have live: "live_slots ?us = {0, 1, 2}"
  proof -
    have "i \<in> live_slots ?us \<longleftrightarrow> i = 0 \<or> i = 1 \<or> i = 2" for i
    proof (cases "i < 3")
      case True
      then have "i = 0 \<or> i = 1 \<or> i = 2" by arith
      then show ?thesis using us(1-3) by (elim disjE) (simp_all add: live_slots_def account_def)
    next
      case False
      then show ?thesis using us(4)[of i] by (auto simp: live_slots_def zero_account_def)
    qed
    then show ?thesis by blast
  qed
  have good: "good_password ''root123''" "good_password ''admin123''" "good_password ''user123''"
    by (simp_all add: good_password_def)
  have d: "dom default_db = {''root'', ''admin'', ''user''}" by (auto simp: default_db_def)
  have "acct_rep 2 ?us default_db"
    unfolding acct_rep_def live d using us good
    by (simp add: account_def auth_strcpy_n_def default_db_def nul_free_def auth_init_def insert_commute)
  then show ?thesis by (simp add: auth_rep_def d) (simp add: default_db_def auth_init_def)
qed

text \<open>
  Runs of the account operations, with the map they implement; \<open>k\<close> bounds the user ids handed out.
\<close>

inductive auth_run :: "nat \<Rightarrow> auth \<Rightarrow> (string \<Rightarrow> (string \<times> u32) option) \<Rightarrow> bool" where
  auth_start: "auth_run 2 (auth_init s) default_db"
| auth_create: "auth_run k s db \<Longrightarrow> k + 1 < 2 ^ 31 \<Longrightarrow> nul_free n \<Longrightarrow> good_password p \<Longrightarrow>
    auth_create_user (Some n) (Some p) r s = (res, s') \<Longrightarrow>
    auth_run (if res = - 1 then k else k + 1) s' (if res = - 1 then db else db(n \<mapsto> (p, word_of_int res)))"
| auth_delete: "auth_run k s db \<Longrightarrow> auth_delete_user u s = (res, s') \<Longrightarrow> auth_run k s'
    (if u = 0 then db else (\<lambda>x. case db x of Some (q, k) \<Rightarrow> if k = u then None else Some (q, k) | None \<Rightarrow> None))"
| auth_change: "auth_run k s db \<Longrightarrow> good_password p \<Longrightarrow> auth_change_password u (Some p) s = (res, s') \<Longrightarrow>
    auth_run k s' (\<lambda>x. case db x of Some (q, k) \<Rightarrow> Some (if k = u then p else q, k) | None \<Rightarrow> None)"

lemma auth_run_rep: "auth_run k s db \<Longrightarrow> auth_rep k s db"
proof (induction rule: auth_run.induct)
  case (auth_create k s db n p r res s')
  have u: "word_of_int (int (unat u)) = u" for u :: u32 by simp
  have nn: "uint u \<noteq> - 1" for u :: u32
  proof -
    have "0 \<le> uint u" by simp
    then show ?thesis by linarith
  qed
  show ?case
    using create_rep[OF auth_create.IH auth_create(2,3,4), of r] auth_create(5,6) auth_create.IH
    by (auto simp: u nn split: if_splits)
next
  case (auth_delete k s db u res s')
  show ?case
  proof (cases "u = 0")
    case True
    then show ?thesis using auth_delete by (simp add: auth_delete_user_def)
  next
    case False
    then show ?thesis using accounts.delete_ok[OF auth_delete.IH False] auth_delete(2) by auto
  qed
next
  case (auth_change k s db p u res s')
  then show ?case using accounts.change_ok[OF auth_change.IH auth_change(2), of u] by auto
qed (rule init_rep)

lemma auth_username_rep:
  assumes rep: "auth_rep k s db"
  shows "auth_username u s = Some x \<longleftrightarrow> (\<exists>q. db x = Some (q, u))"
proof -
  have a: "acct_rep k (g_users s) db" "length (g_users s) = MAX_USERS" using rep by (simp_all add: auth_rep_def acct_rep_def)
  show ?thesis
  proof (cases "find_uid u s")
    case None
    then show ?thesis using uid_slot(1)[OF a(1), of u] find_uid_None[OF None a(2)] by (auto simp: auth_username_def)
  next
    case (Some i)
    have i: "i \<in> live_slots (g_users s)" "uid (g_users s ! i) = u" using find_uid_Some[OF Some a(2)] by auto
    obtain q where "db (username (g_users s ! i)) = Some (q, u)" using a(1) i by (auto simp: acct_rep_def)
    then show ?thesis using Some uid_slot(2)[OF a(1) i(1), of x] i(2) by (auto simp: auth_username_def)
  qed
qed

text \<open>
  C26. The account table implements a map from user names to a password and a user id, whatever
  accounts are created, deleted or given a new password. For names and printable passwords of at most 32
  characters \<open>auth_login\<close> returns the user id exactly if the name is known and the
  password is the one that was set; \<open>g_user_count\<close> is the number of accounts, no two accounts share a
  user id, \<open>auth_username\<close> is the inverse lookup, and the account \<^verbatim>\<open>root\<close> with user id 0 always exists.
\<close>
theorem account_table_refines_map:
  assumes "auth_run k s db" and "nul_free n" and "good_password p"
  shows "auth_login (Some n) (Some p) s =
      (case db n of Some (q, u) \<Rightarrow> if p = q then int (unat u) else - 1 | None \<Rightarrow> - 1) \<and>
    g_user_count s = int (card (dom db)) \<and> (\<exists>q. db ''root'' = Some (q, 0)) \<and>
    (\<forall>u x. auth_username u s = Some x \<longleftrightarrow> (\<exists>q. db x = Some (q, u)))"
proof -
  have rep: "auth_rep k s db" by (rule auth_run_rep[OF assms(1)])
  show ?thesis
    using accounts.login_ok[OF rep assms(2,3)] rep auth_username_rep[OF rep] by (simp add: auth_rep_def)
qed

definition blank_auth :: auth where
  "blank_auth = \<lparr>g_users = replicate MAX_USERS zero_account, g_user_count = 0, g_current_uid = - 1\<rparr>"

text \<open>Witness of C26: the default accounts after root has changed its password.\<close>
theorem account_table_refines_map_witness:
  "\<exists>s. snd (auth_change_password 0 (Some ''secret'') (auth_init blank_auth)) = s \<and>
     auth_login (Some ''root'') (Some ''secret'') s = 0 \<and> auth_login (Some ''root'') (Some ''root123'') s = - 1 \<and>
     auth_login (Some ''user'') (Some ''user123'') s = 2"
proof -
  obtain r s where c: "auth_change_password 0 (Some ''secret'') (auth_init blank_auth) = (r, s)" by fastforce
  have good: "good_password ''secret''" "good_password ''root123''" "good_password ''user123''"
    by (simp_all add: good_password_def)
  have nul: "nul_free ''root''" "nul_free ''user''" by (simp_all add: nul_free_def)
  note run = auth_change[OF auth_start good(1) c]
  show ?thesis
    using account_table_refines_map[OF run nul(1) good(1)] account_table_refines_map[OF run nul(1) good(2)]
      account_table_refines_map[OF run nul(2) good(3)] c
    by (simp add: default_db_def)
qed

section \<open>The prompt\<close>

text \<open>What a key other than Enter does to a line of at most \<open>cap - 1\<close> characters.\<close>

definition edit_line :: "nat \<Rightarrow> string \<Rightarrow> u8 \<Rightarrow> string" where
  "edit_line cap line c = (if c = KEY_BACKSPACE then butlast line
     else if 0x20 \<le> c \<and> c < 0x7F \<and> length line + 1 < cap then line @ [char8 c] else line)"

lemma read_line_step:
  assumes "c \<noteq> KEY_ENTER"
  shows "\<exists>e. auth_read_line cap m line (c # keys) =
    map_option (\<lambda>(l, out, rest). (l, e @ out, rest)) (auth_read_line cap m (edit_line cap line c) keys)"
proof -
  let ?print = "0x20 \<le> c \<and> c < 0x7F \<and> length line + 1 < cap"
  have id: "map_option (\<lambda>(l, out, rest). (l, [] @ out, rest)) x = x" for x :: "(string \<times> string \<times> u8 list) option"
    by (cases x) auto
  have bind: "Option.bind x (\<lambda>(l, out, rest). Some (l, e @ out, rest)) = map_option (\<lambda>(l, out, rest). (l, e @ out, rest)) x"
    for x :: "(string \<times> string \<times> u8 list) option" and e
    by (cases x) auto
  consider (other) "c \<noteq> KEY_BACKSPACE" "\<not> ?print" | (empty) "c = KEY_BACKSPACE" "line = []"
    | (bs) "c = KEY_BACKSPACE" "line \<noteq> []" | (char) "c \<noteq> 0" "c \<noteq> KEY_BACKSPACE" "?print"
    by fastforce
  then show ?thesis
  proof cases
    case bs
    then show ?thesis using bind[of _ "[CHR 0x08, CHR 0x20, CHR 0x08]"]
      by (intro exI[of _ "[CHR 0x08, CHR 0x20, CHR 0x08]"]) (simp add: edit_line_def)
  next
    case char
    then show ?thesis using bind[of _ "[if m then CHR ''*'' else char8 c]"] assms
      by (intro exI[of _ "[if m then CHR ''*'' else char8 c]"]) (simp add: edit_line_def)
  qed (use assms id in \<open>auto intro!: exI[of _ "[]"] simp: edit_line_def\<close>)
qed

lemma read_line_iff:
  "(\<exists>out. auth_read_line cap m line keys = Some (l, out, rest)) \<longleftrightarrow>
   (\<exists>typed. keys = typed @ KEY_ENTER # rest \<and> KEY_ENTER \<notin> set typed \<and> l = foldl (edit_line cap) line typed)"
proof (induction keys arbitrary: line)
  case (Cons c keys)
  have step: "(\<exists>typed. c # keys = typed @ KEY_ENTER # rest \<and> KEY_ENTER \<notin> set typed \<and> l = foldl (edit_line cap) line typed) \<longleftrightarrow>
      (if c = KEY_ENTER then rest = keys \<and> l = line
       else \<exists>typed. keys = typed @ KEY_ENTER # rest \<and> KEY_ENTER \<notin> set typed \<and> l = foldl (edit_line cap) (edit_line cap line c) typed)"
    by (auto simp: Cons_eq_append_conv)
  show ?case
  proof (cases "c = KEY_ENTER")
    case False
    obtain e where "auth_read_line cap m line (c # keys) =
        map_option (\<lambda>(l, out, rest). (l, e @ out, rest)) (auth_read_line cap m (edit_line cap line c) keys)"
      using read_line_step[OF False] by blast
    then have "(\<exists>out. auth_read_line cap m line (c # keys) = Some (l, out, rest)) \<longleftrightarrow>
        (\<exists>out. auth_read_line cap m (edit_line cap line c) keys = Some (l, out, rest))"
      by (auto simp del: auth_read_line.simps)
    then show ?thesis unfolding step using Cons.IH[of "edit_line cap line c"] False by simp
  qed (unfold step, auto)
qed simp

definition printable :: "string \<Rightarrow> bool" where
  "printable t \<longleftrightarrow> (\<forall>c \<in> set t. 0x20 \<le> (of_char c :: nat) \<and> of_char c < (0x7F :: nat))"

lemma of_char_char8_nat [simp]: "(of_char (char8 c) :: nat) = unat c"
  by (metis of_char_char8 unat_of_char)

lemma edit_line_printable: "printable line \<Longrightarrow> printable (edit_line cap line c)"
  by (auto simp: printable_def edit_line_def word_le_nat_alt word_less_nat_alt dest: in_set_butlastD)

lemma typed_printable: "printable line \<Longrightarrow> printable (foldl (edit_line cap) line keys)"
  by (induction keys arbitrary: line) (simp_all add: edit_line_printable)

lemma printable_nul_free: "printable t \<Longrightarrow> nul_free t"
  by (force simp: printable_def nul_free_def)

lemma login_hash:
  assumes rep: "auth_rep k s db" and n: "nul_free n" and ok: "0 \<le> auth_login (Some n) (Some p) s"
  shows "\<exists>q u. db n = Some (q, u) \<and> good_password q \<and> auth_hash_password p = auth_hash_password q \<and>
    auth_login (Some n) (Some p) s = int (unat u)"
proof -
  have a: "acct_rep k (g_users s) db" "length (g_users s) = MAX_USERS" "k < 2 ^ 31"
    using rep by (simp_all add: auth_rep_def acct_rep_def)
  let ?P = "\<lambda>a. active a \<and> auth_strcmp (username a) n = 0 \<and> password_hash a = auth_hash_password p"
  obtain x where x: "find ?P (g_users s) = Some x"
    using ok by (cases "find ?P (g_users s)") (auto simp: auth_login_def Let_def)
  then have "x \<in> set (g_users s)" "?P x" by (auto simp: find_Some_iff)
  then obtain i where i: "i \<in> live_slots (g_users s)" "x = g_users s ! i" using live_set[OF a(2), of x] by blast
  have nf: "nul_free (username x)" "unat (uid x) < 2 ^ 31" using a(1,3) i by (auto simp: acct_rep_def)
  have "username x = n" using auth_strcmp_eq[OF nf(1) n] \<open>?P x\<close> by simp
  moreover obtain q where "good_password q" "db (username x) = Some (q, uid x)" "password_hash x = auth_hash_password q"
    using a(1) i unfolding acct_rep_def by blast
  ultimately show ?thesis
    using x \<open>?P x\<close> sint_small[OF nf(2)] by (auto simp: auth_login_def Let_def)
qed

lemma login_attempts_in:
  assumes "login_attempts n keys s = Logged_in s' rest"
  shows "\<exists>earlier i name_keys pw_keys. keys = earlier @ name_keys @ KEY_ENTER # pw_keys @ KEY_ENTER # rest \<and>
    count_list earlier KEY_ENTER = 2 * i \<and> i < n \<and>
    (let name = foldl (edit_line USERNAME_MAX) [] name_keys; pw = foldl (edit_line 64) [] pw_keys;
         u = auth_login (Some name) (Some pw) s in 0 \<le> u \<and> s' = s\<lparr>g_current_uid := u\<rparr>)"
  using assms
proof (induction n arbitrary: keys)
  case (Suc n)
  from Suc.prems obtain name out1 keys1 where r1: "auth_read_line USERNAME_MAX False [] keys = Some (name, out1, keys1)"
    by (auto split: option.splits prod.splits)
  with Suc.prems obtain pw out2 keys2 where r2: "auth_read_line 64 True [] keys1 = Some (pw, out2, keys2)"
    by (auto split: option.splits prod.splits)
  obtain nk where nk: "keys = nk @ KEY_ENTER # keys1" "KEY_ENTER \<notin> set nk" "name = foldl (edit_line USERNAME_MAX) [] nk"
    using r1 read_line_iff[of USERNAME_MAX False "[]" keys name keys1] by blast
  obtain pk where pk: "keys1 = pk @ KEY_ENTER # keys2" "KEY_ENTER \<notin> set pk" "pw = foldl (edit_line 64) [] pk"
    using r2 read_line_iff[of 64 True "[]" keys1 pw keys2] by blast
  show ?case
  proof (cases "0 \<le> auth_login (Some name) (Some pw) s")
    case True
    then have "s' = s\<lparr>g_current_uid := auth_login (Some name) (Some pw) s\<rparr>" "rest = keys2"
      using Suc.prems r1 r2 by (simp_all add: Let_def)
    then show ?thesis
      using nk pk True by (intro exI[of _ "[]"] exI[of _ 0] exI[of _ nk] exI[of _ pk]) (simp add: Let_def)
  next
    case False
    then have "login_attempts n keys2 s = Logged_in s' rest" using Suc.prems r1 r2 by (simp add: Let_def)
    then obtain e i nk' pk' where IH: "keys2 = e @ nk' @ KEY_ENTER # pk' @ KEY_ENTER # rest" "count_list e KEY_ENTER = 2 * i" "i < n"
        "let name = foldl (edit_line USERNAME_MAX) [] nk'; pw = foldl (edit_line 64) [] pk';
           u = auth_login (Some name) (Some pw) s in 0 \<le> u \<and> s' = s\<lparr>g_current_uid := u\<rparr>"
      using Suc.IH by blast
    show ?thesis
      using nk pk IH
      by (intro exI[of _ "nk @ KEY_ENTER # pk @ KEY_ENTER # e"] exI[of _ "Suc i"] exI[of _ nk'] exI[of _ pk'])
        (simp add: count_list_append)
  qed
qed simp



section \<open>Permissions\<close>

text \<open>
  C28. The permission check follows the UNIX rule: for a user other than root with a live account
  it looks at one bit of the mode, chosen by the class of the user (owner, group or other) and the
  kind of access; root may do everything, and nobody may do anything while no user is logged in.
\<close>
theorem permission_check_is_unix:
  "auth_check_permission fu fg mode w s \<longleftrightarrow>
     0 \<le> g_current_uid s \<and>
     (let me = word_of_int (g_current_uid s) in
      me = 0 \<or>
      (\<exists>i. find_uid me s = Some i \<and>
         (let user_class = (if me = fu then 0 else if gid (g_users s ! i) = fg then 1 else 2)
          in bit mode (8 - 3 * user_class - of_bool w))))"
proof -
  have b: "mode AND 0x0080 \<noteq> 0 \<longleftrightarrow> bit mode 7" "mode AND 0x0100 \<noteq> 0 \<longleftrightarrow> bit mode 8" "mode AND 0x0010 \<noteq> 0 \<longleftrightarrow> bit mode 4"
    "mode AND 0x0020 \<noteq> 0 \<longleftrightarrow> bit mode 5" "mode AND 0x0002 \<noteq> 0 \<longleftrightarrow> bit mode 1" "mode AND 0x0004 \<noteq> 0 \<longleftrightarrow> bit mode 2"
    using and_exp_eq_0_iff_not_bit[of mode 7] and_exp_eq_0_iff_not_bit[of mode 8] and_exp_eq_0_iff_not_bit[of mode 4]
      and_exp_eq_0_iff_not_bit[of mode 5] and_exp_eq_0_iff_not_bit[of mode 1] and_exp_eq_0_iff_not_bit[of mode 2]
    by simp_all
  show ?thesis
    by (cases w) (auto simp: auth_check_permission_def Let_def b[simplified] split: option.splits if_splits)
qed

text \<open>
  The superuser flag is without effect: \<open>auth_check_permission\<close> never looks at \<open>is_root\<close>. The account
  \<^verbatim>\<open>admin\<close>, created as a superuser, is treated like any other user.
\<close>
theorem superuser_flag_has_no_effect:
  "auth_check_permission fu fg mode w (s\<lparr>g_users := map (\<lambda>a. a\<lparr>is_root := f a\<rparr>) (g_users s)\<rparr>) =
   auth_check_permission fu fg mode w s"
proof -
  let ?s = "s\<lparr>g_users := map (\<lambda>a. a\<lparr>is_root := f a\<rparr>) (g_users s)\<rparr>"
  have "find_uid u ?s = find_uid u s" for u
    unfolding find_uid_def by (rule find_cong) simp_all
  moreover have "gid (g_users ?s ! i) = gid (g_users s ! i)" if "find_uid u s = Some i" for u i
    using that by (auto simp: find_uid_def find_Some_iff)
  ultimately show ?thesis by (auto simp: auth_check_permission_def Let_def split: option.splits)
qed

end
