(* ===== verification/Bytes.thy ===== *)
theory Bytes
  imports Ares_Prelude
begin

text \<open>
  Byte buffers as lists of bytes: copying into a buffer at an offset (the \<^verbatim>\<open>memcpy\<close> helpers of the kernel),
  slices, and the little-endian encoding of words that the on-disk structures use, with the round trips
  of the encoding.
\<close>

section \<open>Slices and copies\<close>

definition seg :: "nat \<Rightarrow> nat \<Rightarrow> 'a list \<Rightarrow> 'a list" where
  "seg off n xs = take n (drop off xs)"

definition copy_into :: "nat \<Rightarrow> 'a list \<Rightarrow> 'a list \<Rightarrow> 'a list" where
  "copy_into off src dst = take off dst @ src @ drop (off + length src) dst"

lemma length_seg [simp]: "off + n \<le> length xs \<Longrightarrow> length (seg off n xs) = n"
  by (simp add: seg_def)

lemma nth_seg [simp]: "i < n \<Longrightarrow> off + n \<le> length xs \<Longrightarrow> seg off n xs ! i = xs ! (off + i)"
  by (simp add: seg_def)

lemma seg_append:
  "seg off n (xs @ ys) =
     (if off + n \<le> length xs then seg off n xs
      else if length xs \<le> off then seg (off - length xs) n ys
      else drop off xs @ take (off + n - length xs) ys)"
  by (auto simp: seg_def add.commute)

lemma seg_all [simp]: "length xs \<le> n \<Longrightarrow> seg 0 n xs = xs"
  by (simp add: seg_def)

lemma length_copy_into [simp]: "off + length src \<le> length dst \<Longrightarrow> length (copy_into off src dst) = length dst"
  by (simp add: copy_into_def)

lemma nth_copy_into:
  "off + length src \<le> length dst \<Longrightarrow> i < length dst \<Longrightarrow>
   copy_into off src dst ! i = (if off \<le> i \<and> i < off + length src then src ! (i - off) else dst ! i)"
  by (auto simp: copy_into_def nth_append)

lemma seg_eqI:
  "off + n \<le> length xs \<Longrightarrow> length ys = n \<Longrightarrow> (\<And>i. i < n \<Longrightarrow> xs ! (off + i) = ys ! i) \<Longrightarrow> seg off n xs = ys"
  by (rule nth_equalityI) auto

lemma seg_copy_same [simp]:
  "off + length src \<le> length dst \<Longrightarrow> n = length src \<Longrightarrow> seg off n (copy_into off src dst) = src"
  by (rule seg_eqI) (auto simp: nth_copy_into)

lemma seg_copy_other:
  "off + length src \<le> length dst \<Longrightarrow> o' + n \<le> length dst \<Longrightarrow> o' + n \<le> off \<or> off + length src \<le> o' \<Longrightarrow>
   seg o' n (copy_into off src dst) = seg o' n dst"
  by (rule seg_eqI) (auto simp: nth_copy_into)

lemma seg_seg: "i + m \<le> n \<Longrightarrow> seg i m (seg off n xs) = seg (off + i) m xs"
  by (simp add: seg_def drop_take add.commute min_def)

lemma copy_into_0 [simp]: "length src = length dst \<Longrightarrow> copy_into 0 src dst = src"
  by (simp add: copy_into_def)

lemma copy_into_Nil [simp]: "copy_into off [] dst = dst"
  by (simp add: copy_into_def)

lemma copy_into_append:
  "off \<le> length dst \<Longrightarrow> copy_into (off + length x) y (copy_into off x dst) = copy_into off (x @ y) dst"
  by (simp add: copy_into_def ac_simps)

section \<open>Little-endian words\<close>

primrec of_le :: "u8 list \<Rightarrow> 'a :: len word" where
  "of_le [] = 0"
| "of_le (b # bs) = ucast b OR push_bit 8 (of_le bs)"

definition to_le :: "nat \<Rightarrow> 'a :: len word \<Rightarrow> u8 list" where
  "to_le n w = map (\<lambda>i. ucast (drop_bit (8 * i) w)) [0..<n]"

lemma length_to_le [simp]: "length (to_le n w) = n"
  by (simp add: to_le_def)

lemma nth_to_le: "i < n \<Longrightarrow> to_le n w ! i = ucast (drop_bit (8 * i) w)"
  by (simp add: to_le_def)

lemma bit_of_le:
  "bit (of_le bs :: 'a :: len word) k \<longleftrightarrow> k < LENGTH('a) \<and> k div 8 < length bs \<and> bit (bs ! (k div 8)) (k mod 8)"
proof (induction bs arbitrary: k)
  case (Cons b bs)
  show ?case
  proof (cases "k < 8")
    case True
    then show ?thesis
      by (auto simp: bit_simps dest: bit_imp_le_length)
  next
    case False
    then have "k div 8 = Suc ((k - 8) div 8)" "k mod 8 = (k - 8) mod 8"
      by (simp_all add: le_div_geq le_mod_geq)
    moreover have "\<not> bit b k" using False bit_imp_le_length[of b k] by auto
    ultimately show ?thesis using False by (auto simp: bit_simps Cons.IH)
  qed
qed simp

lemma of_le_to_le [simp]: "8 * n = LENGTH('a) \<Longrightarrow> of_le (to_le n w) = (w :: 'a :: len word)"
  by (rule bit_word_eqI) (auto simp: bit_of_le nth_to_le bit_simps)

lemma to_le_of_le [simp]:
  "n = length bs \<Longrightarrow> 8 * length bs = LENGTH('a) \<Longrightarrow> to_le n (of_le bs :: 'a :: len word) = bs"
proof (rule nth_equalityI)
  fix i assume a: "n = length bs" "8 * length bs = LENGTH('a)" "i < length (to_le n (of_le bs :: 'a word))"
  then show "to_le n (of_le bs :: 'a word) ! i = bs ! i"
    by (intro bit_word_eqI) (simp add: nth_to_le bit_simps bit_of_le)
qed simp

lemma of_le_zeros [simp]: "of_le (replicate n 0) = 0"
  by (induction n) simp_all

abbreviation le32 :: "u32 \<Rightarrow> u8 list" where "le32 \<equiv> to_le 4"
abbreviation le64 :: "u64 \<Rightarrow> u8 list" where "le64 \<equiv> to_le 8"

definition get32 :: "u8 list \<Rightarrow> nat \<Rightarrow> u32" where
  "get32 buf off = of_le (seg off 4 buf)"

definition get64 :: "u8 list \<Rightarrow> nat \<Rightarrow> u64" where
  "get64 buf off = of_le (seg off 8 buf)"

lemma get32_copy_same [simp]: "off + 4 \<le> length buf \<Longrightarrow> get32 (copy_into off (le32 w) buf) off = w"
  by (simp add: get32_def)

lemma get32_copy_other:
  "off + length src \<le> length buf \<Longrightarrow> o' + 4 \<le> length buf \<Longrightarrow> o' + 4 \<le> off \<or> off + length src \<le> o' \<Longrightarrow>
   get32 (copy_into off src buf) o' = get32 buf o'"
  by (simp add: get32_def seg_copy_other)

lemma get32_replicate [simp]: "get32 (replicate n 0) off = 0"
  by (simp add: get32_def seg_def)

lemma get64_replicate [simp]: "get64 (replicate n 0) off = 0"
  by (simp add: get64_def seg_def)

end
