(* ===== verification/Blockdev.thy ===== *)
theory Blockdev
  imports Bytes "HOL-Library.State_Monad"
begin

text \<open>
  The interface between the file system and the disk driver: the status codes of \<^verbatim>\<open>kernel/kernel.h\<close>, the
  record of driver entry points of \<^verbatim>\<open>drivers/ata.h\<close> that the file system calls, and the ideal disk, a
  function from sector numbers to sectors. Stateful code is written in the state monad. A driver
  implements the ideal disk when its device has a view as such a function that reads and writes respect;
  programs over the driver then return what they return over the ideal disk.
\<close>

section \<open>Status codes\<close>

datatype ares_status = ARES_OK | ARES_ERROR | ARES_ENOMEM | ARES_EINVAL | ARES_ENODEV | ARES_EBUSY

section \<open>Stateful programs\<close>

abbreviation ret :: "'a \<Rightarrow> ('s, 'a) state" where
  "ret \<equiv> State_Monad.return"

definition gets :: "('s \<Rightarrow> 'a) \<Rightarrow> ('s, 'a) state" where
  "gets f = State (\<lambda>s. (f s, s))"

definition modify :: "('s \<Rightarrow> 's) \<Rightarrow> ('s, unit) state" where
  "modify f = State (\<lambda>s. ((), f s))"

lemma run_gets [simp]: "run_state (gets f) s = (f s, s)"
  by (simp add: gets_def)

lemma run_modify [simp]: "run_state (modify f) s = ((), f s)"
  by (simp add: modify_def)

section \<open>Drivers\<close>

text \<open>
  The entry points of a disk driver on a device of type \<open>'d\<close>. A transfer reads or writes \<open>count\<close> sectors
  of 512 bytes and returns 0 on success; a read returns the caller's buffer as it left it.
\<close>

record 'd driver =
  drv_init :: "'d \<Rightarrow> 'd"
  drv_present :: "'d \<Rightarrow> bool"
  drv_read :: "u32 \<Rightarrow> u8 \<Rightarrow> u8 list \<Rightarrow> 'd \<Rightarrow> (int \<times> u8 list) \<times> 'd"
  drv_write :: "u32 \<Rightarrow> u8 \<Rightarrow> u8 list \<Rightarrow> 'd \<Rightarrow> int \<times> 'd"

abbreviation (input) SECTOR_SIZE :: nat where "SECTOR_SIZE \<equiv> 512"

text \<open>
  The 512 bytes a transfer takes from the caller's buffer. Callers pass whole sectors; beyond the end of a
  shorter buffer the model reads zeros.
\<close>

definition sector :: "u8 list \<Rightarrow> u8 list" where
  "sector buf = map (\<lambda>i. if i < length buf then buf ! i else 0) [0..<SECTOR_SIZE]"

lemma length_sector [simp]: "length (sector buf) = 512"
  by (simp add: sector_def)

lemma sector_id [simp]: "length buf = 512 \<Longrightarrow> sector buf = buf"
  by (auto simp: sector_def intro: nth_equalityI)

type_synonym sectors = "u32 \<Rightarrow> u8 list"

definition ideal_read :: "u32 \<Rightarrow> u8 \<Rightarrow> u8 list \<Rightarrow> sectors \<Rightarrow> (int \<times> u8 list) \<times> sectors" where
  "ideal_read lba count buf d = ((0, copy_into 0 (sector (d lba)) buf), d)"

definition ideal_write :: "u32 \<Rightarrow> u8 \<Rightarrow> u8 list \<Rightarrow> sectors \<Rightarrow> int \<times> sectors" where
  "ideal_write lba count buf d = (0, d(lba := sector buf))"

text \<open>The disk that never fails, for the single-sector transfers the file system makes.\<close>

definition ideal :: "sectors driver" where
  "ideal = \<lparr>drv_init = id, drv_present = (\<lambda>_. True), drv_read = ideal_read, drv_write = ideal_write\<rparr>"

lemma ideal_simps [simp]:
  "drv_init ideal d = d" "drv_present ideal d" "drv_read ideal l n b d = ((0, copy_into 0 (sector (d l)) b), d)"
  "drv_write ideal l n b d = (0, d(l := sector b))"
  by (simp_all add: ideal_def ideal_read_def ideal_write_def)

section \<open>The contract of a driver\<close>

text \<open>
  A driver implements the ideal disk on the sectors the file system uses, those below 6144: in the good
  states of its device the sectors have a \<open>view\<close> as a function, a read returns the viewed sector and leaves
  the view alone, a write replaces one sector of it.
\<close>

locale disk_driver =
  fixes k :: "'d driver"
    and view :: "'d \<Rightarrow> sectors"
    and ok :: "'d \<Rightarrow> bool"
  assumes present: "ok d \<Longrightarrow> drv_present k d"
    and whole: "ok d \<Longrightarrow> lba < 6144 \<Longrightarrow> length (view d lba) = 512"
    and read_back: "ok d \<Longrightarrow> lba < 6144 \<Longrightarrow>
      \<exists>d'. drv_read k lba 1 buf d = ((0, copy_into 0 (view d lba) buf), d') \<and> ok d' \<and> view d' = view d"
    and write_through: "ok d \<Longrightarrow> lba < 6144 \<Longrightarrow>
      \<exists>d'. drv_write k lba 1 buf d = (0, d') \<and> ok d' \<and> view d' = (view d)(lba := sector buf)"

definition whole_sectors :: "sectors \<Rightarrow> bool" where
  "whole_sectors d \<longleftrightarrow> (\<forall>lba < 6144. length (d lba) = 512)"

interpretation ideal_disk: disk_driver ideal id whole_sectors
  by unfold_locales (auto simp: whole_sectors_def)

end
