(* ===== verification/Aresfs.thy ===== *)
theory Aresfs
  imports Blockdev
begin

text \<open>
  The file system, \<^verbatim>\<open>fs/aresfs.c\<close> and \<^verbatim>\<open>fs/aresfs.h\<close>: every function of the file, over the entry points of
  a disk driver. C strings are lists of bytes without the terminating NUL; pointer arguments that may be
  \<^verbatim>\<open>NULL\<close> are optional. Local buffers that C leaves uninitialised start as zeros; none is read before it
  is filled.
\<close>

section \<open>Layout\<close>

abbreviation (input) ARESFS_MAGIC :: u32 where "ARESFS_MAGIC \<equiv> 0x41524553"
abbreviation (input) ARESFS_VERSION :: u32 where "ARESFS_VERSION \<equiv> 1"
abbreviation (input) ARESFS_BLOCK_SIZE :: nat where "ARESFS_BLOCK_SIZE \<equiv> 512"
abbreviation (input) ARESFS_TOTAL_BLOCKS :: u32 where "ARESFS_TOTAL_BLOCKS \<equiv> 4096"
abbreviation (input) ARESFS_BASE_LBA :: u32 where "ARESFS_BASE_LBA \<equiv> 2048"
abbreviation (input) ARESFS_SUPERBLOCK_BLOCK :: u32 where "ARESFS_SUPERBLOCK_BLOCK \<equiv> 1"
abbreviation (input) ARESFS_BLOCK_BITMAP_BLOCK :: u32 where "ARESFS_BLOCK_BITMAP_BLOCK \<equiv> 2"
abbreviation (input) ARESFS_INODE_BITMAP_BLOCK :: u32 where "ARESFS_INODE_BITMAP_BLOCK \<equiv> 3"
abbreviation (input) ARESFS_INODE_START_BLOCK :: u32 where "ARESFS_INODE_START_BLOCK \<equiv> 4"
abbreviation (input) ARESFS_INODE_TABLE_BLOCKS :: nat where "ARESFS_INODE_TABLE_BLOCKS \<equiv> 128"
abbreviation (input) ARESFS_DATA_START_BLOCK :: u32 where "ARESFS_DATA_START_BLOCK \<equiv> 132"
abbreviation (input) ARESFS_INODE_SIZE :: nat where "ARESFS_INODE_SIZE \<equiv> 128"
abbreviation (input) ARESFS_INODES_PER_BLOCK :: u32 where "ARESFS_INODES_PER_BLOCK \<equiv> 4"
abbreviation (input) ARESFS_INODE_COUNT :: u32 where "ARESFS_INODE_COUNT \<equiv> 512"
abbreviation (input) ARESFS_DIRECT_BLOCKS :: nat where "ARESFS_DIRECT_BLOCKS \<equiv> 12"
abbreviation (input) ARESFS_INDIRECT_PTRS :: nat where "ARESFS_INDIRECT_PTRS \<equiv> 128"
abbreviation (input) ARESFS_MAX_FILE_BLOCKS :: nat where "ARESFS_MAX_FILE_BLOCKS \<equiv> 140"
abbreviation (input) ARESFS_NAME_MAX :: nat where "ARESFS_NAME_MAX \<equiv> 55"
abbreviation (input) ARESFS_DIRENT_SIZE :: nat where "ARESFS_DIRENT_SIZE \<equiv> 60"
abbreviation (input) ARESFS_DIRENTS_PER_BLOCK :: nat where "ARESFS_DIRENTS_PER_BLOCK \<equiv> 8"
abbreviation (input) ARESFS_INODE_INVALID :: u32 where "ARESFS_INODE_INVALID \<equiv> 0"
abbreviation (input) ARESFS_ROOT_INODE :: u32 where "ARESFS_ROOT_INODE \<equiv> 1"
abbreviation (input) ARESFS_TYPE_MASK :: u32 where "ARESFS_TYPE_MASK \<equiv> 0xF000"
abbreviation (input) ARESFS_TYPE_FILE :: u32 where "ARESFS_TYPE_FILE \<equiv> 0x8000"
abbreviation (input) ARESFS_TYPE_DIR :: u32 where "ARESFS_TYPE_DIR \<equiv> 0x4000"
abbreviation (input) ARESFS_PERM_DEFAULT :: u32 where "ARESFS_PERM_DEFAULT \<equiv> 0x01B6"
abbreviation (input) ARESFS_O_RDONLY :: u32 where "ARESFS_O_RDONLY \<equiv> 0"
abbreviation (input) ARESFS_O_WRONLY :: u32 where "ARESFS_O_WRONLY \<equiv> 1"
abbreviation (input) ARESFS_O_CREAT :: u32 where "ARESFS_O_CREAT \<equiv> 0x40"
abbreviation (input) ARESFS_O_TRUNC :: u32 where "ARESFS_O_TRUNC \<equiv> 0x200"
abbreviation (input) ARESFS_O_APPEND :: u32 where "ARESFS_O_APPEND \<equiv> 0x400"
abbreviation (input) ARESFS_MAX_OPEN_FILES :: nat where "ARESFS_MAX_OPEN_FILES \<equiv> 16"

text \<open>\<open>UINT32_MAX\<close>, the answer of a bitmap search that finds nothing.\<close>

abbreviation (input) NO_BIT :: u32 where "NO_BIT \<equiv> - 1"

abbreviation zero_block :: "u8 list" where "zero_block \<equiv> replicate 512 0"

section \<open>On-disk structures\<close>

record aresfs_superblock =
  magic :: u32
  version :: u32
  total_blocks :: u32
  block_size :: u32
  root_inode :: u32
  block_bitmap_blocks :: u32
  inode_bitmap_blocks :: u32
  data_bitmap_blocks :: u32
  inode_start_block :: u32
  data_start_block :: u32
  sb_pad :: "u8 list"
  checksum :: u32

record aresfs_inode =
  mode :: u32
  i_uid :: u32
  i_gid :: u32
  i_size :: u64
  create_time :: u64
  mod_time :: u64
  direct :: "u32 list"
  indirect :: u32
  double_indirect :: u32
  i_pad :: "u8 list"

record aresfs_dirent =
  d_inode :: u32
  d_name :: "u8 list"

text \<open>The packed, little-endian images of these structures, which \<open>fs_memcpy\<close> copies to and from blocks.\<close>

definition sb_bytes :: "aresfs_superblock \<Rightarrow> u8 list" where
  "sb_bytes sb = le32 (magic sb) @ le32 (version sb) @ le32 (total_blocks sb) @ le32 (block_size sb) @
     le32 (root_inode sb) @ le32 (block_bitmap_blocks sb) @ le32 (inode_bitmap_blocks sb) @
     le32 (data_bitmap_blocks sb) @ le32 (inode_start_block sb) @ le32 (data_start_block sb) @
     sb_pad sb @ le32 (checksum sb)"

definition sb_of_bytes :: "u8 list \<Rightarrow> aresfs_superblock" where
  "sb_of_bytes b = \<lparr>magic = get32 b 0, version = get32 b 4, total_blocks = get32 b 8, block_size = get32 b 12,
     root_inode = get32 b 16, block_bitmap_blocks = get32 b 20, inode_bitmap_blocks = get32 b 24,
     data_bitmap_blocks = get32 b 28, inode_start_block = get32 b 32, data_start_block = get32 b 36,
     sb_pad = seg 40 468 b, checksum = get32 b 508\<rparr>"

definition inode_bytes :: "aresfs_inode \<Rightarrow> u8 list" where
  "inode_bytes ino = le32 (mode ino) @ le32 (i_uid ino) @ le32 (i_gid ino) @ le64 (i_size ino) @
     le64 (create_time ino) @ le64 (mod_time ino) @ concat (map le32 (direct ino)) @ le32 (indirect ino) @
     le32 (double_indirect ino) @ i_pad ino"

definition inode_of_bytes :: "u8 list \<Rightarrow> aresfs_inode" where
  "inode_of_bytes b = \<lparr>mode = get32 b 0, i_uid = get32 b 4, i_gid = get32 b 8, i_size = get64 b 12,
     create_time = get64 b 20, mod_time = get64 b 28,
     direct = map (\<lambda>i. get32 b (36 + 4 * i)) [0..<ARESFS_DIRECT_BLOCKS], indirect = get32 b 84,
     double_indirect = get32 b 88, i_pad = seg 92 36 b\<rparr>"

definition dirent_bytes :: "aresfs_dirent \<Rightarrow> u8 list" where
  "dirent_bytes de = le32 (d_inode de) @ d_name de"

text \<open>The entry \<open>des[s]\<close> of a directory block.\<close>

definition dirent_at :: "u8 list \<Rightarrow> nat \<Rightarrow> aresfs_dirent" where
  "dirent_at b s = \<lparr>d_inode = get32 b (ARESFS_DIRENT_SIZE * s),
     d_name = seg (ARESFS_DIRENT_SIZE * s + 4) 56 b\<rparr>"

definition set_dirent :: "u8 list \<Rightarrow> nat \<Rightarrow> aresfs_dirent \<Rightarrow> u8 list" where
  "set_dirent b s de = copy_into (ARESFS_DIRENT_SIZE * s) (dirent_bytes de) b"

definition zero_inode :: aresfs_inode where
  "zero_inode = \<lparr>mode = 0, i_uid = 0, i_gid = 0, i_size = 0, create_time = 0, mod_time = 0,
     direct = replicate ARESFS_DIRECT_BLOCKS 0, indirect = 0, double_indirect = 0, i_pad = replicate 36 0\<rparr>"

definition zero_sb :: aresfs_superblock where
  "zero_sb = \<lparr>magic = 0, version = 0, total_blocks = 0, block_size = 0, root_inode = 0, block_bitmap_blocks = 0,
     inode_bitmap_blocks = 0, data_bitmap_blocks = 0, inode_start_block = 0, data_start_block = 0,
     sb_pad = replicate 468 0, checksum = 0\<rparr>"

section \<open>State\<close>

record fd_entry =
  used :: bool
  inode_num :: u32
  fpos :: u64
  fflags :: u32

definition zero_fd :: fd_entry where
  "zero_fd = \<lparr>used = False, inode_num = 0, fpos = 0, fflags = 0\<rparr>"

record 'd fs =
  disk :: 'd
  g_sb :: aresfs_superblock
  g_block_bitmap :: "u8 list"
  g_inode_bitmap :: "u8 list"
  g_mounted :: bool
  g_fds :: "fd_entry list"

definition on_disk :: "('d \<Rightarrow> 'a \<times> 'd) \<Rightarrow> ('d fs, 'a) state" where
  "on_disk f = State (\<lambda>s. case f (disk s) of (r, d) \<Rightarrow> (r, s\<lparr>disk := d\<rparr>))"

section \<open>Strings\<close>

fun fs_strcmp :: "u8 list \<Rightarrow> u8 list \<Rightarrow> int" where
  "fs_strcmp [] [] = 0"
| "fs_strcmp [] (b # bs) = - uint b"
| "fs_strcmp (a # as) [] = uint a"
| "fs_strcmp (a # as) (b # bs) = (if a = b then fs_strcmp as bs else uint a - uint b)"

text \<open>The C string that starts at the beginning of a buffer.\<close>

definition cstr :: "u8 list \<Rightarrow> u8 list" where
  "cstr b = takeWhile (\<lambda>c. c \<noteq> 0) b"

section \<open>Blocks\<close>

definition block_read :: "'d driver \<Rightarrow> u32 \<Rightarrow> u8 list \<Rightarrow> ('d fs, ares_status \<times> u8 list) state" where
  "block_read k fs_block buf =
     (if fs_block \<ge> ARESFS_TOTAL_BLOCKS then ret (ARES_EINVAL, buf)
      else do {
        (r, buf') \<leftarrow> on_disk (drv_read k (ARESFS_BASE_LBA + fs_block) 1 buf);
        ret (if r \<noteq> 0 then ARES_ERROR else ARES_OK, buf')
      })"

definition block_write :: "'d driver \<Rightarrow> u32 \<Rightarrow> u8 list \<Rightarrow> ('d fs, ares_status) state" where
  "block_write k fs_block buf =
     (if fs_block \<ge> ARESFS_TOTAL_BLOCKS then ret ARES_EINVAL
      else do {
        r \<leftarrow> on_disk (drv_write k (ARESFS_BASE_LBA + fs_block) 1 buf);
        ret (if r \<noteq> 0 then ARES_ERROR else ARES_OK)
      })"

section \<open>Bitmaps\<close>

definition bitmap_test :: "u8 list \<Rightarrow> u32 \<Rightarrow> bool" where
  "bitmap_test bm idx = (drop_bit (unat (idx AND 7)) (bm ! unat (drop_bit 3 idx)) AND 1 \<noteq> 0)"

definition bitmap_set :: "u8 list \<Rightarrow> u32 \<Rightarrow> u8 list" where
  "bitmap_set bm idx =
     (let i = unat (drop_bit 3 idx) in bm[i := bm ! i OR push_bit (unat (idx AND 7)) 1])"

definition bitmap_clear :: "u8 list \<Rightarrow> u32 \<Rightarrow> u8 list" where
  "bitmap_clear bm idx =
     (let i = unat (drop_bit 3 idx) in bm[i := bm ! i AND NOT (push_bit (unat (idx AND 7)) 1)])"

definition bitmap_find_first_free :: "u8 list \<Rightarrow> u32 \<Rightarrow> u32" where
  "bitmap_find_first_free bm bit_count =
     (case find (\<lambda>i. \<not> bitmap_test bm i) (map of_nat [0..<unat bit_count]) of
        Some i \<Rightarrow> i
      | None \<Rightarrow> NO_BIT)"

definition alloc_block :: "'d driver \<Rightarrow> ('d fs, u32) state" where
  "alloc_block k = do {
     bm \<leftarrow> gets g_block_bitmap;
     let b = bitmap_find_first_free bm ARESFS_TOTAL_BLOCKS;
     if b = NO_BIT then ret 0
     else do {
       modify (g_block_bitmap_update (\<lambda>_. bitmap_set bm b));
       _ \<leftarrow> block_write k ARESFS_BLOCK_BITMAP_BLOCK (bitmap_set bm b);
       ret b
     }
   }"

definition free_block :: "'d driver \<Rightarrow> u32 \<Rightarrow> ('d fs, unit) state" where
  "free_block k block_num = do {
     bm \<leftarrow> gets g_block_bitmap;
     if block_num = 0 \<or> block_num \<ge> ARESFS_TOTAL_BLOCKS then ret ()
     else if \<not> bitmap_test bm block_num then ret ()
     else do {
       modify (g_block_bitmap_update (\<lambda>_. bitmap_clear bm block_num));
       _ \<leftarrow> block_write k ARESFS_BLOCK_BITMAP_BLOCK (bitmap_clear bm block_num);
       ret ()
     }
   }"

definition alloc_inode :: "'d driver \<Rightarrow> ('d fs, u32) state" where
  "alloc_inode k = do {
     bm \<leftarrow> gets g_inode_bitmap;
     let b = bitmap_find_first_free bm ARESFS_INODE_COUNT;
     if b = NO_BIT then ret ARESFS_INODE_INVALID
     else do {
       modify (g_inode_bitmap_update (\<lambda>_. bitmap_set bm b));
       _ \<leftarrow> block_write k ARESFS_INODE_BITMAP_BLOCK (bitmap_set bm b);
       ret b
     }
   }"

definition free_inode :: "'d driver \<Rightarrow> u32 \<Rightarrow> ('d fs, unit) state" where
  "free_inode k n = do {
     bm \<leftarrow> gets g_inode_bitmap;
     if n = ARESFS_INODE_INVALID then ret ()
     else if n \<ge> ARESFS_INODE_COUNT then ret ()
     else if \<not> bitmap_test bm n then ret ()
     else do {
       modify (g_inode_bitmap_update (\<lambda>_. bitmap_clear bm n));
       _ \<leftarrow> block_write k ARESFS_INODE_BITMAP_BLOCK (bitmap_clear bm n);
       ret ()
     }
   }"

section \<open>Inodes\<close>

definition inode_read :: "'d driver \<Rightarrow> u32 \<Rightarrow> ('d fs, ares_status \<times> aresfs_inode) state" where
  "inode_read k n =
     (if n \<ge> ARESFS_INODE_COUNT then ret (ARES_EINVAL, zero_inode)
      else do {
        let block_idx = n div ARESFS_INODES_PER_BLOCK;
        let slot_idx = n mod ARESFS_INODES_PER_BLOCK;
        (st, buf) \<leftarrow> block_read k (ARESFS_INODE_START_BLOCK + block_idx) zero_block;
        if st \<noteq> ARES_OK then ret (st, zero_inode)
        else ret (ARES_OK, inode_of_bytes (seg (unat slot_idx * ARESFS_INODE_SIZE) ARESFS_INODE_SIZE buf))
      })"

definition inode_write :: "'d driver \<Rightarrow> u32 \<Rightarrow> aresfs_inode \<Rightarrow> ('d fs, ares_status) state" where
  "inode_write k n ino =
     (if n \<ge> ARESFS_INODE_COUNT then ret ARES_EINVAL
      else do {
        let block_idx = n div ARESFS_INODES_PER_BLOCK;
        let slot_idx = n mod ARESFS_INODES_PER_BLOCK;
        (st, buf) \<leftarrow> block_read k (ARESFS_INODE_START_BLOCK + block_idx) zero_block;
        if st \<noteq> ARES_OK then ret st
        else block_write k (ARESFS_INODE_START_BLOCK + block_idx)
               (copy_into (unat slot_idx * ARESFS_INODE_SIZE) (inode_bytes ino) buf)
      })"

text \<open>
  \<open>inode_resolve_block\<close> mutates the inode it is given; the model returns it beside the block number.
  The indirect block is looked at in two steps, as in the code: find or create it, then find or create
  the data block in it.
\<close>

definition resolve_direct :: "'d driver \<Rightarrow> aresfs_inode \<Rightarrow> nat \<Rightarrow> bool \<Rightarrow> ('d fs, u32 \<times> aresfs_inode) state" where
  "resolve_direct k ino i create =
     (if direct ino ! i = 0 \<and> create
      then do {
        b \<leftarrow> alloc_block k;
        if b = 0 then ret (0, ino)
        else do {
          _ \<leftarrow> block_write k b zero_block;
          ret (b, ino\<lparr>direct := (direct ino)[i := b]\<rparr>)
        }
      }
      else ret (direct ino ! i, ino))"

definition load_indirect ::
  "'d driver \<Rightarrow> aresfs_inode \<Rightarrow> bool \<Rightarrow> ('d fs, u8 list option \<times> aresfs_inode) state" where
  "load_indirect k ino create =
     (if indirect ino = 0
      then if \<not> create then ret (None, ino)
           else do {
             b \<leftarrow> alloc_block k;
             if b = 0 then ret (None, ino)
             else do {
               _ \<leftarrow> block_write k b zero_block;
               ret (Some zero_block, ino\<lparr>indirect := b\<rparr>)
             }
           }
      else do {
        (st, ind_buf) \<leftarrow> block_read k (indirect ino) zero_block;
        ret (if st \<noteq> ARES_OK then None else Some ind_buf, ino)
      })"

definition resolve_indirect ::
  "'d driver \<Rightarrow> aresfs_inode \<Rightarrow> nat \<Rightarrow> bool \<Rightarrow> u8 list \<Rightarrow> ('d fs, u32 \<times> aresfs_inode) state" where
  "resolve_indirect k ino off create ind_buf =
     (if get32 ind_buf (4 * off) = 0 \<and> create
      then do {
        b \<leftarrow> alloc_block k;
        if b = 0 then ret (0, ino)
        else do {
          _ \<leftarrow> block_write k b zero_block;
          _ \<leftarrow> block_write k (indirect ino) (copy_into (4 * off) (le32 b) ind_buf);
          ret (b, ino)
        }
      }
      else ret (get32 ind_buf (4 * off), ino))"

definition inode_resolve_block ::
  "'d driver \<Rightarrow> aresfs_inode \<Rightarrow> u32 \<Rightarrow> bool \<Rightarrow> ('d fs, u32 \<times> aresfs_inode) state" where
  "inode_resolve_block k ino logical_idx create =
     (if logical_idx < of_nat ARESFS_DIRECT_BLOCKS then resolve_direct k ino (unat logical_idx) create
      else let off = logical_idx - of_nat ARESFS_DIRECT_BLOCKS
           in if off \<ge> of_nat ARESFS_INDIRECT_PTRS then ret (0, ino)
              else do {
                (ind, ino') \<leftarrow> load_indirect k ino create;
                case ind of
                  None \<Rightarrow> ret (0, ino')
                | Some ind_buf \<Rightarrow> resolve_indirect k ino' (unat off) create ind_buf
              })"

primrec free_blocks :: "'d driver \<Rightarrow> u32 list \<Rightarrow> ('d fs, unit) state" where
  "free_blocks k [] = ret ()"
| "free_blocks k (b # bs) = do {
     (if b \<noteq> 0 then free_block k b else ret ());
     free_blocks k bs
   }"

definition inode_truncate :: "'d driver \<Rightarrow> aresfs_inode \<Rightarrow> ('d fs, aresfs_inode) state" where
  "inode_truncate k ino = do {
     free_blocks k (direct ino);
     let ino' = ino\<lparr>direct := replicate ARESFS_DIRECT_BLOCKS 0\<rparr>;
     if indirect ino \<noteq> 0 then do {
       (st, buf) \<leftarrow> block_read k (indirect ino) zero_block;
       (if st = ARES_OK then free_blocks k (map (\<lambda>i. get32 buf (4 * i)) [0..<ARESFS_INDIRECT_PTRS]) else ret ());
       free_block k (indirect ino);
       ret (ino'\<lparr>indirect := 0, i_size := 0\<rparr>)
     }
     else ret (ino'\<lparr>i_size := 0\<rparr>)
   }"

section \<open>Directories\<close>

definition dirent_set_name :: "aresfs_dirent \<Rightarrow> u8 list \<Rightarrow> aresfs_dirent" where
  "dirent_set_name de nm =
     (let n = min (length nm) ARESFS_NAME_MAX in de\<lparr>d_name := copy_into 0 (take n nm) (replicate 56 0)\<rparr>)"

primrec walk_blocks ::
  "'d driver \<Rightarrow> (aresfs_dirent \<Rightarrow> bool) \<Rightarrow> u32 list \<Rightarrow> ('d fs, (u32 \<times> nat \<times> aresfs_dirent) option) state" where
  "walk_blocks k match [] = ret None"
| "walk_blocks k match (blk # blks) =
     (if blk = 0 then walk_blocks k match blks
      else do {
        (st, buf) \<leftarrow> block_read k blk zero_block;
        if st \<noteq> ARES_OK then walk_blocks k match blks
        else case find (\<lambda>s. match (dirent_at buf s)) [0..<ARESFS_DIRENTS_PER_BLOCK] of
               Some s \<Rightarrow> ret (Some (blk, s, dirent_at buf s))
             | None \<Rightarrow> walk_blocks k match blks
      })"

definition dir_walk ::
  "'d driver \<Rightarrow> u32 \<Rightarrow> (aresfs_dirent \<Rightarrow> bool) \<Rightarrow> ('d fs, (u32 \<times> nat \<times> aresfs_dirent) option) state" where
  "dir_walk k n match = do {
     (st, dir) \<leftarrow> inode_read k n;
     if st \<noteq> ARES_OK then ret None
     else if mode dir AND ARESFS_TYPE_MASK \<noteq> ARESFS_TYPE_DIR then ret None
     else walk_blocks k match (direct dir)
   }"

definition match_by_name :: "u8 list \<Rightarrow> aresfs_dirent \<Rightarrow> bool" where
  "match_by_name target de =
     (if d_inode de = ARESFS_INODE_INVALID then False else fs_strcmp (cstr (d_name de)) target = 0)"

definition match_empty_slot :: "aresfs_dirent \<Rightarrow> bool" where
  "match_empty_slot de = (d_inode de = ARESFS_INODE_INVALID)"

definition dir_find_entry :: "'d driver \<Rightarrow> u32 \<Rightarrow> u8 list \<Rightarrow> ('d fs, u32) state" where
  "dir_find_entry k n nm = do {
     r \<leftarrow> dir_walk k n (match_by_name nm);
     ret (case r of None \<Rightarrow> ARESFS_INODE_INVALID | Some (_, _, de) \<Rightarrow> d_inode de)
   }"

text \<open>The second pass of \<open>dir_add_entry\<close>: a new block at the first free direct pointer.\<close>

definition dir_extend :: "'d driver \<Rightarrow> u32 \<Rightarrow> u8 list \<Rightarrow> u32 \<Rightarrow> aresfs_inode \<Rightarrow> ('d fs, ares_status) state" where
  "dir_extend k n nm child dir =
     (case find (\<lambda>i. direct dir ! i = 0) [0..<ARESFS_DIRECT_BLOCKS] of
        None \<Rightarrow> ret ARES_ENOMEM
      | Some i \<Rightarrow> do {
          b \<leftarrow> alloc_block k;
          if b = 0 then ret ARES_ENOMEM
          else do {
            st \<leftarrow> block_write k b
                    (set_dirent zero_block 0 (dirent_set_name ((dirent_at zero_block 0)\<lparr>d_inode := child\<rparr>) nm));
            if st \<noteq> ARES_OK then do { free_block k b; ret st }
            else inode_write k n (dir\<lparr>direct := (direct dir)[i := b], i_size := i_size dir + 512\<rparr>)
          }
        })"

definition dir_add_entry :: "'d driver \<Rightarrow> u32 \<Rightarrow> u8 list \<Rightarrow> u32 \<Rightarrow> ('d fs, ares_status) state" where
  "dir_add_entry k n nm child = do {
     e \<leftarrow> dir_find_entry k n nm;
     if e \<noteq> ARESFS_INODE_INVALID then ret ARES_EBUSY
     else do {
       (st, dir) \<leftarrow> inode_read k n;
       if st \<noteq> ARES_OK then ret st
       else if mode dir AND ARESFS_TYPE_MASK \<noteq> ARESFS_TYPE_DIR then ret ARES_EINVAL
       else do {
         r \<leftarrow> dir_walk k n match_empty_slot;
         case r of
           Some (blk, slot, _) \<Rightarrow> do {
             (st, buf) \<leftarrow> block_read k blk zero_block;
             if st \<noteq> ARES_OK then ret ARES_ERROR
             else block_write k blk
                    (set_dirent buf slot (dirent_set_name ((dirent_at buf slot)\<lparr>d_inode := child\<rparr>) nm))
           }
         | None \<Rightarrow> dir_extend k n nm child dir
       }
     }
   }"

definition dir_remove_entry :: "'d driver \<Rightarrow> u32 \<Rightarrow> u8 list \<Rightarrow> ('d fs, ares_status) state" where
  "dir_remove_entry k n nm = do {
     r \<leftarrow> dir_walk k n (match_by_name nm);
     case r of
       None \<Rightarrow> ret ARES_ENODEV
     | Some (blk, slot, _) \<Rightarrow> do {
         (st, buf) \<leftarrow> block_read k blk zero_block;
         if st \<noteq> ARES_OK then ret st
         else block_write k blk (set_dirent buf slot \<lparr>d_inode = ARESFS_INODE_INVALID, d_name = replicate 56 0\<rparr>)
       }
   }"

section \<open>Paths\<close>

abbreviation (input) SLASH :: u8 where "SLASH \<equiv> 0x2F"

definition skip_slashes :: "u8 list \<Rightarrow> u8 list" where
  "skip_slashes p = dropWhile (\<lambda>c. c = SLASH) p"

text \<open>The inner loop that copies one component into \<open>name\<close>: the component and the rest, or nothing if it is too long.\<close>

fun copy_name :: "nat \<Rightarrow> u8 list \<Rightarrow> (u8 list \<times> u8 list) option" where
  "copy_name i [] = Some ([], [])"
| "copy_name i (c # cs) =
     (if c = SLASH then Some ([], c # cs)
      else if i \<ge> ARESFS_NAME_MAX then None
      else case copy_name (Suc i) cs of None \<Rightarrow> None | Some (nm, rest) \<Rightarrow> Some (c # nm, rest))"

lemma copy_name_rest: "copy_name i p = Some (nm, rest) \<Longrightarrow> p = nm @ rest \<and> (rest = [] \<or> hd rest = SLASH)"
  by (induction i p arbitrary: nm rule: copy_name.induct) (auto split: if_splits option.splits)

lemma skip_slashes_le: "length (skip_slashes p) \<le> length p"
  by (simp add: skip_slashes_def length_dropWhile_le)

lemma copy_name_shorter:
  assumes "copy_name 0 p = Some (nm, rest)" and "p \<noteq> []"
  shows "length (skip_slashes rest) < length p"
proof (cases nm)
  case Nil
  then have "p = rest" "hd rest = SLASH" using copy_name_rest[OF assms(1)] assms(2) by auto
  then show ?thesis using assms(2) skip_slashes_le[of "tl p"] by (cases p) (auto simp: skip_slashes_def)
next
  case (Cons c nm')
  then show ?thesis using copy_name_rest[OF assms(1)] skip_slashes_le[of rest] by auto
qed

function lookup_from :: "'d driver \<Rightarrow> u8 list \<Rightarrow> u32 \<Rightarrow> ('d fs, u32) state" where
  "lookup_from k path cur =
     (if path = [] then ret cur
      else case copy_name 0 path of
             None \<Rightarrow> ret ARESFS_INODE_INVALID
           | Some (nm, rest) \<Rightarrow> do {
               cur' \<leftarrow> dir_find_entry k cur nm;
               if cur' = ARESFS_INODE_INVALID then ret ARESFS_INODE_INVALID
               else lookup_from k (skip_slashes rest) cur'
             })"
  by pat_completeness auto
termination by (relation "measure (\<lambda>(k, p, c). length p)") (auto simp: copy_name_shorter)

definition lookup_path :: "'d driver \<Rightarrow> u8 list option \<Rightarrow> ('d fs, u32) state" where
  "lookup_path k path =
     (case path of
        None \<Rightarrow> ret ARESFS_INODE_INVALID
      | Some p \<Rightarrow> lookup_from k (skip_slashes p) ARESFS_ROOT_INODE)"

text \<open>\<open>split_parent_leaf\<close> returns the parent inode and the leaf name when the C function returns true.\<close>

function split_from :: "'d driver \<Rightarrow> u8 list \<Rightarrow> u32 \<Rightarrow> ('d fs, (u32 \<times> u8 list) option) state" where
  "split_from k p parent =
     (if p = [] then ret None
      else case copy_name 0 p of
        None \<Rightarrow> ret None
      | Some (leaf, rest) \<Rightarrow>
          if skip_slashes rest = rest \<or> skip_slashes rest = []
          then ret (if leaf = [] then None else Some (parent, leaf))
          else do {
            nxt \<leftarrow> dir_find_entry k parent leaf;
            if nxt = ARESFS_INODE_INVALID then ret None
            else do {
              (st, tmp) \<leftarrow> inode_read k nxt;
              if st \<noteq> ARES_OK then ret None
              else if mode tmp AND ARESFS_TYPE_MASK \<noteq> ARESFS_TYPE_DIR then ret None
              else split_from k (skip_slashes rest) nxt
            }
          })"
  by pat_completeness auto
termination by (relation "measure (\<lambda>(k, p, c). length p)") (auto simp: copy_name_shorter)

definition split_parent_leaf :: "'d driver \<Rightarrow> u8 list option \<Rightarrow> ('d fs, (u32 \<times> u8 list) option) state" where
  "split_parent_leaf k path =
     (case path of
        None \<Rightarrow> ret None
      | Some p \<Rightarrow>
          if p = [] then ret None
          else if skip_slashes p = [] then ret None
          else split_from k (skip_slashes p) ARESFS_ROOT_INODE)"

section \<open>File bodies\<close>

text \<open>The C conversion \<open>(int)n\<close> of a \<open>size_t\<close>.\<close>

definition to_int :: "nat \<Rightarrow> int" where
  "to_int n = sint (of_nat n :: u32)"

text \<open>
  The copy loops. \<open>pos + done\<close> stays below the size of the file or the size limit, so it is computed on
  natural numbers; the logical block number is truncated to 32 bits as in the code.
\<close>

abbreviation chunk_at :: "nat \<Rightarrow> nat \<Rightarrow> nat \<Rightarrow> nat" where
  "chunk_at pos count done \<equiv> min (ARESFS_BLOCK_SIZE - (pos + done) mod ARESFS_BLOCK_SIZE) (count - done)"

function file_read_loop ::
  "'d driver \<Rightarrow> aresfs_inode \<Rightarrow> nat \<Rightarrow> nat \<Rightarrow> nat \<Rightarrow> u8 list \<Rightarrow> ('d fs, int \<times> u8 list) state" where
  "file_read_loop k ino pos count done dst =
     (if done < count then do {
        let off = pos + done;
        let logical = of_nat (off div ARESFS_BLOCK_SIZE);
        let block_off = off mod ARESFS_BLOCK_SIZE;
        let chunk = chunk_at pos count done;
        (phys, ino') \<leftarrow> inode_resolve_block k ino logical False;
        if phys = 0 then file_read_loop k ino' pos count (done + chunk) (copy_into done (replicate chunk 0) dst)
        else do {
          (st, block) \<leftarrow> block_read k phys zero_block;
          if st \<noteq> ARES_OK then ret (- 1, dst)
          else file_read_loop k ino' pos count (done + chunk) (copy_into done (seg block_off chunk block) dst)
        }
      }
      else ret (to_int done, dst))"
  by pat_completeness auto
termination by (relation "measure (\<lambda>(k, ino, pos, count, done, dst). count - done)") auto

definition file_read_body ::
  "'d driver \<Rightarrow> aresfs_inode \<Rightarrow> u64 \<Rightarrow> u8 list \<Rightarrow> nat \<Rightarrow> ('d fs, int \<times> u8 list) state" where
  "file_read_body k ino pos buf count =
     (if pos \<ge> i_size ino then ret (0, buf)
      else file_read_loop k ino (unat pos) (min count (unat (i_size ino - pos))) 0 buf)"

function file_write_loop ::
  "'d driver \<Rightarrow> aresfs_inode \<Rightarrow> nat \<Rightarrow> u8 list \<Rightarrow> nat \<Rightarrow> nat \<Rightarrow> ('d fs, bool \<times> nat \<times> aresfs_inode) state" where
  "file_write_loop k ino pos src count done =
     (if done < count then do {
        let off = pos + done;
        let logical = of_nat (off div ARESFS_BLOCK_SIZE);
        let block_off = off mod ARESFS_BLOCK_SIZE;
        let chunk = chunk_at pos count done;
        (phys, ino') \<leftarrow> inode_resolve_block k ino logical True;
        if phys = 0 then ret (True, done, ino')
        else do {
          (st, block) \<leftarrow> (if chunk \<noteq> ARESFS_BLOCK_SIZE then block_read k phys zero_block
                          else ret (ARES_OK, zero_block));
          if st \<noteq> ARES_OK then ret (False, done, ino')
          else do {
            st' \<leftarrow> block_write k phys (copy_into block_off (seg done chunk src) block);
            if st' \<noteq> ARES_OK then ret (False, done, ino')
            else file_write_loop k ino' pos src count (done + chunk)
          }
        }
      }
      else ret (True, done, ino))"
  by pat_completeness auto
termination by (relation "measure (\<lambda>(k, ino, pos, src, count, done). count - done)") auto

text \<open>Beside the result, \<open>file_write_body\<close> returns the inode it has mutated.\<close>

abbreviation max_size :: u64 where
  "max_size \<equiv> of_nat (ARESFS_MAX_FILE_BLOCKS * ARESFS_BLOCK_SIZE)"

definition file_write_body ::
  "'d driver \<Rightarrow> u32 \<Rightarrow> aresfs_inode \<Rightarrow> u64 \<Rightarrow> u8 list \<Rightarrow> nat \<Rightarrow> ('d fs, int \<times> aresfs_inode) state" where
  "file_write_body k n ino pos src count =
     (if pos \<ge> max_size then ret (- 1, ino)
      else do {
        (ok, done, ino') \<leftarrow> file_write_loop k ino (unat pos) src (min count (unat (max_size - pos))) 0;
        if \<not> ok then ret (- 1, ino')
        else do {
          let new_end = pos + of_nat done;
          let ino'' = (if new_end > i_size ino' then ino'\<lparr>i_size := new_end\<rparr> else ino');
          st \<leftarrow> inode_write k n ino'';
          ret (if st \<noteq> ARES_OK then - 1 else to_int done, ino'')
        }
      })"

section \<open>Formatting and mounting\<close>

definition sb_checksum :: "aresfs_superblock \<Rightarrow> u32" where
  "sb_checksum sb = (magic sb + version sb + total_blocks sb + block_size sb + root_inode sb +
     block_bitmap_blocks sb + inode_bitmap_blocks sb + data_bitmap_blocks sb + inode_start_block sb +
     data_start_block sb) XOR 0xDEADBEEF"

text \<open>\<open>if (st != ARES_OK) return st;\<close>\<close>

definition unless_failed :: "ares_status \<Rightarrow> ('s, ares_status) state \<Rightarrow> ('s, ares_status) state" where
  "unless_failed st m = (if st \<noteq> ARES_OK then ret st else m)"

primrec write_all :: "'d driver \<Rightarrow> u32 list \<Rightarrow> u8 list \<Rightarrow> ('d fs, ares_status) state" where
  "write_all k [] buf = ret ARES_OK"
| "write_all k (b # bs) buf = do { st \<leftarrow> block_write k b buf; unless_failed st (write_all k bs buf) }"

definition fresh_sb :: aresfs_superblock where
  "fresh_sb =
     (let sb = zero_sb\<lparr>magic := ARESFS_MAGIC, version := ARESFS_VERSION, total_blocks := ARESFS_TOTAL_BLOCKS,
            block_size := of_nat ARESFS_BLOCK_SIZE, root_inode := ARESFS_ROOT_INODE, block_bitmap_blocks := 1,
            inode_bitmap_blocks := 1, data_bitmap_blocks := 0, inode_start_block := ARESFS_INODE_START_BLOCK,
            data_start_block := ARESFS_DATA_START_BLOCK\<rparr>
      in sb\<lparr>checksum := sb_checksum sb\<rparr>)"

definition fresh_block_bitmap :: "u8 list" where
  "fresh_block_bitmap = fold (\<lambda>i bm. bitmap_set bm (of_nat i)) [0..<Suc 132] zero_block"

definition fresh_inode_bitmap :: "u8 list" where
  "fresh_inode_bitmap = bitmap_set (bitmap_set zero_block ARESFS_INODE_INVALID) ARESFS_ROOT_INODE"

definition root_dir_inode :: aresfs_inode where
  "root_dir_inode = zero_inode\<lparr>mode := ARESFS_TYPE_DIR OR ARESFS_PERM_DEFAULT, i_size := of_nat ARESFS_BLOCK_SIZE,
     direct := (direct zero_inode)[0 := ARESFS_DATA_START_BLOCK]\<rparr>"

text \<open>The first block of a directory, with the entries \<open>.\<close> and \<open>..\<close>.\<close>

abbreviation (input) dot :: "u8 list" where "dot \<equiv> [0x2E]"
abbreviation (input) dotdot :: "u8 list" where "dotdot \<equiv> [0x2E, 0x2E]"

definition dir_first_block :: "u32 \<Rightarrow> u32 \<Rightarrow> u8 list" where
  "dir_first_block self parent =
     (let buf = set_dirent zero_block 0 (dirent_set_name ((dirent_at zero_block 0)\<lparr>d_inode := self\<rparr>) dot)
      in set_dirent buf 1 (dirent_set_name ((dirent_at buf 1)\<lparr>d_inode := parent\<rparr>) dotdot))"

definition aresfs_format :: "'d driver \<Rightarrow> ('d fs, ares_status) state" where
  "aresfs_format k = do {
     present \<leftarrow> gets (\<lambda>s. drv_present k (disk s));
     if \<not> present then ret ARES_ENODEV
     else do {
       modify (g_sb_update (\<lambda>_. fresh_sb));
       st \<leftarrow> block_write k ARESFS_SUPERBLOCK_BLOCK (copy_into 0 (sb_bytes fresh_sb) zero_block);
       unless_failed st (do {
         modify (g_block_bitmap_update (\<lambda>_. fresh_block_bitmap));
         st \<leftarrow> block_write k ARESFS_BLOCK_BITMAP_BLOCK fresh_block_bitmap;
         unless_failed st (do {
           modify (g_inode_bitmap_update (\<lambda>_. fresh_inode_bitmap));
           st \<leftarrow> block_write k ARESFS_INODE_BITMAP_BLOCK fresh_inode_bitmap;
           unless_failed st (do {
             st \<leftarrow> write_all k (map (\<lambda>i. ARESFS_INODE_START_BLOCK + of_nat i) [0..<ARESFS_INODE_TABLE_BLOCKS]) zero_block;
             unless_failed st (do {
               st \<leftarrow> inode_write k ARESFS_ROOT_INODE root_dir_inode;
               unless_failed st (do {
                 st \<leftarrow> block_write k ARESFS_DATA_START_BLOCK (dir_first_block ARESFS_ROOT_INODE ARESFS_ROOT_INODE);
                 unless_failed st (do {
                   modify (g_fds_update (\<lambda>_. replicate ARESFS_MAX_OPEN_FILES zero_fd));
                   modify (g_mounted_update (\<lambda>_. True));
                   ret ARES_OK
                 })
               })
             })
           })
         })
       })
     }
   }"

definition aresfs_mount :: "'d driver \<Rightarrow> ('d fs, ares_status) state" where
  "aresfs_mount k = do {
     present \<leftarrow> gets (\<lambda>s. drv_present k (disk s));
     if \<not> present then ret ARES_ENODEV
     else do {
       (st, buf) \<leftarrow> block_read k ARESFS_SUPERBLOCK_BLOCK zero_block;
       unless_failed st (do {
         modify (g_sb_update (\<lambda>_. sb_of_bytes buf));
         sb \<leftarrow> gets g_sb;
         if magic sb \<noteq> ARESFS_MAGIC then ret ARES_EINVAL
         else if version sb \<noteq> ARESFS_VERSION then ret ARES_EINVAL
         else if block_size sb \<noteq> of_nat ARESFS_BLOCK_SIZE then ret ARES_EINVAL
         else if checksum sb \<noteq> sb_checksum sb then ret ARES_EINVAL
         else do {
           bm \<leftarrow> gets g_block_bitmap;
           (st, bm') \<leftarrow> block_read k ARESFS_BLOCK_BITMAP_BLOCK bm;
           modify (g_block_bitmap_update (\<lambda>_. bm'));
           unless_failed st (do {
             im \<leftarrow> gets g_inode_bitmap;
             (st, im') \<leftarrow> block_read k ARESFS_INODE_BITMAP_BLOCK im;
             modify (g_inode_bitmap_update (\<lambda>_. im'));
             unless_failed st (do {
               modify (g_fds_update (\<lambda>_. replicate ARESFS_MAX_OPEN_FILES zero_fd));
               modify (g_mounted_update (\<lambda>_. True));
               ret ARES_OK
             })
           })
         }
       })
     }
   }"

definition aresfs_unmount :: "'d driver \<Rightarrow> ('d fs, ares_status) state" where
  "aresfs_unmount k = do {
     mounted \<leftarrow> gets g_mounted;
     if \<not> mounted then ret ARES_EINVAL
     else do {
       modify (\<lambda>s. s\<lparr>g_sb := (g_sb s)\<lparr>checksum := sb_checksum (g_sb s)\<rparr>\<rparr>);
       sb \<leftarrow> gets g_sb;
       _ \<leftarrow> block_write k ARESFS_SUPERBLOCK_BLOCK (copy_into 0 (sb_bytes sb) zero_block);
       bm \<leftarrow> gets g_block_bitmap;
       _ \<leftarrow> block_write k ARESFS_BLOCK_BITMAP_BLOCK bm;
       im \<leftarrow> gets g_inode_bitmap;
       _ \<leftarrow> block_write k ARESFS_INODE_BITMAP_BLOCK im;
       modify (g_fds_update (\<lambda>_. replicate ARESFS_MAX_OPEN_FILES zero_fd));
       modify (g_mounted_update (\<lambda>_. False));
       ret ARES_OK
     }
   }"

section \<open>Files\<close>

definition fd_alloc :: "fd_entry list \<Rightarrow> int" where
  "fd_alloc fds =
     (case find (\<lambda>i. \<not> used (fds ! i)) [0..<ARESFS_MAX_OPEN_FILES] of Some i \<Rightarrow> int i | None \<Rightarrow> - 1)"

text \<open>The two branches of \<open>aresfs_open\<close>: the inode number and the inode to open, or nothing on failure.\<close>

definition open_create :: "'d driver \<Rightarrow> u8 list option \<Rightarrow> u32 \<Rightarrow> ('d fs, (u32 \<times> aresfs_inode) option) state" where
  "open_create k path flags =
     (if flags AND ARESFS_O_CREAT = 0 then ret None
      else do {
        sp \<leftarrow> split_parent_leaf k path;
        case sp of
          None \<Rightarrow> ret None
        | Some (parent, leaf) \<Rightarrow> do {
            n \<leftarrow> alloc_inode k;
            if n = ARESFS_INODE_INVALID then ret None
            else do {
              let ino = zero_inode\<lparr>mode := ARESFS_TYPE_FILE OR ARESFS_PERM_DEFAULT\<rparr>;
              st \<leftarrow> inode_write k n ino;
              if st \<noteq> ARES_OK then do { free_inode k n; ret None }
              else do {
                st' \<leftarrow> dir_add_entry k parent leaf n;
                if st' \<noteq> ARES_OK then do { free_inode k n; ret None }
                else ret (Some (n, ino))
              }
            }
          }
      })"

definition open_existing :: "'d driver \<Rightarrow> u32 \<Rightarrow> u32 \<Rightarrow> ('d fs, (u32 \<times> aresfs_inode) option) state" where
  "open_existing k n flags = do {
     (st, ino) \<leftarrow> inode_read k n;
     if st \<noteq> ARES_OK then ret None
     else if mode ino AND ARESFS_TYPE_MASK \<noteq> ARESFS_TYPE_FILE then ret None
     else if flags AND ARESFS_O_TRUNC \<noteq> 0 then do {
       ino' \<leftarrow> inode_truncate k ino;
       st' \<leftarrow> inode_write k n ino';
       ret (if st' \<noteq> ARES_OK then None else Some (n, ino'))
     }
     else ret (Some (n, ino))
   }"

definition aresfs_open :: "'d driver \<Rightarrow> u8 list option \<Rightarrow> u32 \<Rightarrow> ('d fs, int) state" where
  "aresfs_open k path flags = do {
     mounted \<leftarrow> gets g_mounted;
     if \<not> mounted \<or> path = None then ret (- 1)
     else do {
       n \<leftarrow> lookup_path k path;
       r \<leftarrow> (if n = ARESFS_INODE_INVALID then open_create k path flags else open_existing k n flags);
       case r of
         None \<Rightarrow> ret (- 1)
       | Some (n, ino) \<Rightarrow> do {
           fds \<leftarrow> gets g_fds;
           let fd = fd_alloc fds;
           if fd < 0 then ret (- 1)
           else do {
             modify (g_fds_update (\<lambda>_. fds[nat fd := \<lparr>used = True, inode_num = n,
               fpos = (if flags AND ARESFS_O_APPEND \<noteq> 0 then i_size ino else 0), fflags = flags\<rparr>]));
             ret fd
           }
         }
     }
   }"

definition aresfs_close :: "int \<Rightarrow> ('d fs, ares_status) state" where
  "aresfs_close fd = do {
     fds \<leftarrow> gets g_fds;
     if fd < 0 \<or> fd \<ge> int ARESFS_MAX_OPEN_FILES then ret ARES_EINVAL
     else if \<not> used (fds ! nat fd) then ret ARES_EINVAL
     else do {
       modify (g_fds_update (\<lambda>_. fds[nat fd := zero_fd]));
       ret ARES_OK
     }
   }"

definition set_fpos :: "int \<Rightarrow> u64 \<Rightarrow> 'd fs \<Rightarrow> 'd fs" where
  "set_fpos fd p s = s\<lparr>g_fds := (g_fds s)[nat fd := (g_fds s ! nat fd)\<lparr>fpos := p\<rparr>]\<rparr>"

definition aresfs_read :: "'d driver \<Rightarrow> int \<Rightarrow> u8 list option \<Rightarrow> nat \<Rightarrow> ('d fs, int \<times> u8 list option) state" where
  "aresfs_read k fd buf count = do {
     mounted \<leftarrow> gets g_mounted;
     fds \<leftarrow> gets g_fds;
     case buf of
       None \<Rightarrow> ret (- 1, buf)
     | Some dst \<Rightarrow>
         if \<not> mounted then ret (- 1, buf)
         else if fd < 0 \<or> fd \<ge> int ARESFS_MAX_OPEN_FILES then ret (- 1, buf)
         else if \<not> used (fds ! nat fd) then ret (- 1, buf)
         else if fflags (fds ! nat fd) AND 3 = ARESFS_O_WRONLY then ret (- 1, buf)
         else do {
           (st, ino) \<leftarrow> inode_read k (inode_num (fds ! nat fd));
           if st \<noteq> ARES_OK then ret (- 1, buf)
           else do {
             (n, dst') \<leftarrow> file_read_body k ino (fpos (fds ! nat fd)) dst count;
             (if n > 0 then modify (set_fpos fd (fpos (fds ! nat fd) + of_int n)) else ret ());
             ret (n, Some dst')
           }
         }
   }"

definition aresfs_write :: "'d driver \<Rightarrow> int \<Rightarrow> u8 list option \<Rightarrow> nat \<Rightarrow> ('d fs, int) state" where
  "aresfs_write k fd buf count = do {
     mounted \<leftarrow> gets g_mounted;
     fds \<leftarrow> gets g_fds;
     case buf of
       None \<Rightarrow> ret (- 1)
     | Some src \<Rightarrow>
         if \<not> mounted then ret (- 1)
         else if fd < 0 \<or> fd \<ge> int ARESFS_MAX_OPEN_FILES then ret (- 1)
         else if \<not> used (fds ! nat fd) then ret (- 1)
         else if fflags (fds ! nat fd) AND 3 = ARESFS_O_RDONLY then ret (- 1)
         else do {
           (st, ino) \<leftarrow> inode_read k (inode_num (fds ! nat fd));
           if st \<noteq> ARES_OK then ret (- 1)
           else do {
             (if fflags (fds ! nat fd) AND ARESFS_O_APPEND \<noteq> 0 then modify (set_fpos fd (i_size ino)) else ret ());
             pos \<leftarrow> gets (\<lambda>s. fpos (g_fds s ! nat fd));
             (n, ino') \<leftarrow> file_write_body k (inode_num (fds ! nat fd)) ino pos src count;
             (if n > 0 then modify (set_fpos fd (pos + of_int n)) else ret ());
             ret n
           }
         }
   }"

section \<open>Directories and status\<close>

definition aresfs_mkdir :: "'d driver \<Rightarrow> u8 list option \<Rightarrow> ('d fs, ares_status) state" where
  "aresfs_mkdir k path = do {
     mounted \<leftarrow> gets g_mounted;
     if \<not> mounted \<or> path = None then ret ARES_EINVAL
     else do {
       e \<leftarrow> lookup_path k path;
       if e \<noteq> ARESFS_INODE_INVALID then ret ARES_EBUSY
       else do {
         sp \<leftarrow> split_parent_leaf k path;
         case sp of
           None \<Rightarrow> ret ARES_EINVAL
         | Some (parent, leaf) \<Rightarrow> do {
             n \<leftarrow> alloc_inode k;
             if n = ARESFS_INODE_INVALID then ret ARES_ENOMEM
             else do {
               b \<leftarrow> alloc_block k;
               if b = 0 then do { free_inode k n; ret ARES_ENOMEM }
               else do {
                 st \<leftarrow> block_write k b (dir_first_block n parent);
                 if st \<noteq> ARES_OK then do { free_block k b; free_inode k n; ret st }
                 else do {
                   let ino = zero_inode\<lparr>mode := ARESFS_TYPE_DIR OR ARESFS_PERM_DEFAULT,
                     i_size := of_nat ARESFS_BLOCK_SIZE, direct := (direct zero_inode)[0 := b]\<rparr>;
                   st \<leftarrow> inode_write k n ino;
                   if st \<noteq> ARES_OK then do { free_block k b; free_inode k n; ret st }
                   else do {
                     st \<leftarrow> dir_add_entry k parent leaf n;
                     if st \<noteq> ARES_OK then do { free_block k b; free_inode k n; ret st }
                     else ret ARES_OK
                   }
                 }
               }
             }
           }
       }
     }
   }"

text \<open>
  The output loop of \<open>aresfs_listdir\<close> over the entries of one block: the position and the buffer, and
  whether there was room. A name is read up to the first NUL after its start.
\<close>

primrec list_slots :: "u8 list \<Rightarrow> nat \<Rightarrow> nat list \<Rightarrow> nat \<Rightarrow> u8 list \<Rightarrow> bool \<times> nat \<times> u8 list" where
  "list_slots blockbuf bufsize [] pos buffer = (True, pos, buffer)"
| "list_slots blockbuf bufsize (s # ss) pos buffer =
     (if d_inode (dirent_at blockbuf s) = ARESFS_INODE_INVALID then list_slots blockbuf bufsize ss pos buffer
      else let nm = cstr (drop (ARESFS_DIRENT_SIZE * s + 4) blockbuf)
           in if pos + length nm + 2 > bufsize then (False, pos, buffer)
              else list_slots blockbuf bufsize ss (pos + length nm + 1)
                     (copy_into pos (nm @ [0x0A, 0]) buffer))"

primrec list_blocks :: "'d driver \<Rightarrow> nat \<Rightarrow> u32 list \<Rightarrow> nat \<Rightarrow> u8 list \<Rightarrow> ('d fs, ares_status \<times> u8 list) state" where
  "list_blocks k bufsize [] pos buffer = ret (ARES_OK, buffer)"
| "list_blocks k bufsize (blk # blks) pos buffer =
     (if blk = 0 then list_blocks k bufsize blks pos buffer
      else do {
        (st, blockbuf) \<leftarrow> block_read k blk zero_block;
        if st \<noteq> ARES_OK then list_blocks k bufsize blks pos buffer
        else case list_slots blockbuf bufsize [0..<ARESFS_DIRENTS_PER_BLOCK] pos buffer of
               (fits, pos', buffer') \<Rightarrow>
                 if \<not> fits then ret (ARES_ENOMEM, buffer') else list_blocks k bufsize blks pos' buffer'
      })"

definition aresfs_listdir ::
  "'d driver \<Rightarrow> u8 list option \<Rightarrow> u8 list option \<Rightarrow> nat \<Rightarrow> ('d fs, ares_status \<times> u8 list option) state" where
  "aresfs_listdir k path buffer bufsize = do {
     mounted \<leftarrow> gets g_mounted;
     case buffer of
       None \<Rightarrow> ret (ARES_EINVAL, buffer)
     | Some out \<Rightarrow>
         if \<not> mounted \<or> path = None \<or> bufsize = 0 then ret (ARES_EINVAL, buffer)
         else do {
           n \<leftarrow> lookup_path k path;
           if n = ARESFS_INODE_INVALID then ret (ARES_ENODEV, buffer)
           else do {
             (st, dir) \<leftarrow> inode_read k n;
             if st \<noteq> ARES_OK then ret (ARES_ERROR, buffer)
             else if mode dir AND ARESFS_TYPE_MASK \<noteq> ARESFS_TYPE_DIR then ret (ARES_EINVAL, buffer)
             else do {
               (st, out') \<leftarrow> list_blocks k bufsize (direct dir) 0 (copy_into 0 [0] out);
               ret (st, Some out')
             }
           }
         }
   }"

text \<open>\<open>aresfs_stat\<close>: the status and, on success, the values stored through the two pointers.\<close>

definition aresfs_stat :: "'d driver \<Rightarrow> u8 list option \<Rightarrow> ('d fs, ares_status \<times> (u64 \<times> u32) option) state" where
  "aresfs_stat k path = do {
     mounted \<leftarrow> gets g_mounted;
     if \<not> mounted \<or> path = None then ret (ARES_EINVAL, None)
     else do {
       n \<leftarrow> lookup_path k path;
       if n = ARESFS_INODE_INVALID then ret (ARES_ENODEV, None)
       else do {
         (st, ino) \<leftarrow> inode_read k n;
         if st \<noteq> ARES_OK then ret (ARES_ERROR, None)
         else ret (ARES_OK, Some (i_size ino, mode ino))
       }
     }
   }"

section \<open>Boot\<close>

text \<open>The lines \<open>fs_init\<close> prints.\<close>

datatype fs_message =
  Probing | No_drive | Drive_present | Mounted u32 u32 | Formatting | Format_failed | Format_complete

definition fs_init :: "'d driver \<Rightarrow> ('d fs, fs_message list) state" where
  "fs_init k = do {
     modify (\<lambda>s. s\<lparr>disk := drv_init k (disk s)\<rparr>);
     present \<leftarrow> gets (\<lambda>s. drv_present k (disk s));
     if \<not> present then ret [Probing, No_drive]
     else do {
       st \<leftarrow> aresfs_mount k;
       if st = ARES_OK then do {
         sb \<leftarrow> gets g_sb;
         ret [Probing, Drive_present, Mounted (total_blocks sb) ARESFS_INODE_COUNT]
       }
       else do {
         st \<leftarrow> aresfs_format k;
         if st \<noteq> ARES_OK then ret [Probing, Drive_present, Formatting, Format_failed]
         else ret [Probing, Drive_present, Formatting, Format_complete]
       }
     }
   }"

declare lookup_from.simps [simp del] split_from.simps [simp del] file_read_loop.simps [simp del] file_write_loop.simps [simp del]

end
