(* ===== verification/Aresfs_Layout.thy ===== *)
theory Aresfs_Layout
  imports Aresfs
begin

text \<open>
  The file system on the ideal disk, block level: what the primitives of \<^verbatim>\<open>fs/aresfs.c\<close> do to the blocks,
  the round trips of the on-disk structures, the bitmaps, and the layout invariant: every block pointer of
  an allocated inode names a block that is marked used, lies in the data area, and belongs to no other
  pointer.
\<close>

section \<open>Encodings\<close>

lemma sb_roundtrip:
  assumes "length (sb_pad sb) = 468"
  shows "sb_of_bytes (sb_bytes sb) = sb" and "length (sb_bytes sb) = 512"
  using assms by (simp_all add: sb_of_bytes_def sb_bytes_def get32_def seg_append)

lemma length_concat_le32 [simp]: "length (concat (map le32 ws)) = 4 * length ws"
  by (induction ws) simp_all

lemma seg_concat_le32: "i < length ws \<Longrightarrow> seg (4 * i) 4 (concat (map le32 ws)) = le32 (ws ! i)"
proof (induction ws arbitrary: i)
  case (Cons w ws)
  then show ?case by (cases i) (simp_all add: seg_append)
qed simp

lemma length_inode_bytes [simp]:
  "length (direct ino) = 12 \<Longrightarrow> length (i_pad ino) = 36 \<Longrightarrow> length (inode_bytes ino) = 128"
  by (simp add: inode_bytes_def)

lemma inode_roundtrip:
  assumes "length (direct ino) = 12" and "length (i_pad ino) = 36"
  shows "inode_of_bytes (inode_bytes ino) = ino"
proof -
  have "map (\<lambda>i. get32 (inode_bytes ino) (36 + 4 * i)) [0..<12] = map ((!) (direct ino)) [0..<12]"
    using assms by (intro map_cong) (simp_all add: inode_bytes_def get32_def seg_append seg_concat_le32)
  also have "\<dots> = direct ino" using assms(1) map_nth[of "direct ino"] by simp
  finally have d: "map (\<lambda>i. get32 (inode_bytes ino) (36 + 4 * i)) [0..<12] = direct ino" .
  have "get32 (inode_bytes ino) 84 = indirect ino" "get32 (inode_bytes ino) 88 = double_indirect ino"
    "seg 92 36 (inode_bytes ino) = i_pad ino"
    using assms by (simp_all add: inode_bytes_def get32_def seg_append)
  moreover have "get32 (inode_bytes ino) 0 = mode ino" "get32 (inode_bytes ino) 4 = i_uid ino"
    "get32 (inode_bytes ino) 8 = i_gid ino" "get64 (inode_bytes ino) 12 = i_size ino"
    "get64 (inode_bytes ino) 20 = create_time ino" "get64 (inode_bytes ino) 28 = mod_time ino"
    by (simp_all add: inode_bytes_def get32_def get64_def seg_append)
  ultimately show ?thesis by (simp add: inode_of_bytes_def d)
qed

lemma inode_of_bytes_wf [simp]:
  "length (direct (inode_of_bytes b)) = 12" "length b = 128 \<Longrightarrow> length (i_pad (inode_of_bytes b)) = 36"
  by (simp_all add: inode_of_bytes_def)

lemma length_dirent_bytes [simp]: "length (d_name de) = 56 \<Longrightarrow> length (dirent_bytes de) = 60"
  by (simp add: dirent_bytes_def)

lemma length_set_dirent [simp]:
  "length b = 512 \<Longrightarrow> s < 8 \<Longrightarrow> length (d_name de) = 56 \<Longrightarrow> length (set_dirent b s de) = 512"
  by (simp add: set_dirent_def)

lemma dirent_at_set:
  assumes "length b = 512" and "s < 8" and "s' < 8" and "length (d_name de) = 56"
  shows "dirent_at (set_dirent b s de) s' = (if s' = s then de else dirent_at b s')"
proof (cases "s' = s")
  case True
  have "seg (60 * s) 60 (set_dirent b s de) = dirent_bytes de"
    using assms by (simp add: set_dirent_def)
  then have "seg (60 * s) 4 (set_dirent b s de) = le32 (d_inode de)"
    and "seg (60 * s + 4) 56 (set_dirent b s de) = d_name de"
    using seg_seg[of 0 4 60 "60 * s" "set_dirent b s de"] seg_seg[of 4 56 60 "60 * s" "set_dirent b s de"] assms
    by (simp_all add: dirent_bytes_def seg_append)
  then show ?thesis using True by (simp add: dirent_at_def get32_def)
next
  case False
  have "get32 (set_dirent b s de) (60 * s') = get32 b (60 * s')" unfolding set_dirent_def
    by (rule get32_copy_other) (use False assms in auto)
  moreover have "seg (60 * s' + 4) 56 (set_dirent b s de) = seg (60 * s' + 4) 56 b" unfolding set_dirent_def
    by (rule seg_copy_other) (use False assms in auto)
  ultimately show ?thesis using False by (simp add: dirent_at_def)
qed

lemma dirent_at_zero [simp]: "d_inode (dirent_at zero_block s) = 0"
  by (simp add: dirent_at_def)

section \<open>Blocks of the ideal disk\<close>

definition blk :: "sectors fs \<Rightarrow> u32 \<Rightarrow> u8 list" where
  "blk t b = disk t (ARESFS_BASE_LBA + b)"

definition put_blk :: "u32 \<Rightarrow> u8 list \<Rightarrow> sectors fs \<Rightarrow> sectors fs" where
  "put_blk b v t = t\<lparr>disk := (disk t)(ARESFS_BASE_LBA + b := v)\<rparr>"

lemma blk_put [simp]: "blk (put_blk b v t) = (blk t)(b := v)"
  by (auto simp: blk_def put_blk_def)

lemma put_blk_keeps [simp]:
  "g_sb (put_blk b v t) = g_sb t" "g_block_bitmap (put_blk b v t) = g_block_bitmap t"
  "g_inode_bitmap (put_blk b v t) = g_inode_bitmap t" "g_mounted (put_blk b v t) = g_mounted t"
  "g_fds (put_blk b v t) = g_fds t"
  by (simp_all add: put_blk_def)

lemma blk_keeps [simp]:
  "blk (t\<lparr>g_sb := a\<rparr>) = blk t" "blk (t\<lparr>g_block_bitmap := c\<rparr>) = blk t" "blk (t\<lparr>g_inode_bitmap := c\<rparr>) = blk t"
  "blk (t\<lparr>g_mounted := m\<rparr>) = blk t" "blk (t\<lparr>g_fds := f\<rparr>) = blk t"
  by (simp_all add: blk_def fun_eq_iff)

lemma run_block_read [simp]:
  "b < 4096 \<Longrightarrow> length (blk t b) = 512 \<Longrightarrow> length buf = 512 \<Longrightarrow>
   run_state (block_read ideal b buf) t = ((ARES_OK, blk t b), t)"
  by (simp add: block_read_def on_disk_def blk_def)

lemma run_block_write [simp]:
  "b < 4096 \<Longrightarrow> length buf = 512 \<Longrightarrow> run_state (block_write ideal b buf) t = (ARES_OK, put_blk b buf t)"
  by (simp add: block_write_def on_disk_def put_blk_def)

section \<open>Bitmaps\<close>

lemma unat_div_8: "unat (drop_bit 3 (i :: u32)) = unat i div 8"
  by (simp add: drop_bit_eq_div unat_div_distrib)

lemma unat_and_7: "unat ((i :: u32) AND 7) = unat i mod 8"
proof -
  have "i AND 7 = i mod 8" using take_bit_eq_mask[of 3 i] by (simp add: mask_eq_decr_exp take_bit_eq_mod)
  then show ?thesis by (simp add: unat_mod_distrib)
qed

lemma bitmap_test_bit: "bitmap_test bm i = bit (bm ! (unat i div 8)) (unat i mod 8)"
  by (simp add: bitmap_test_def and_1_eq_0_iff bit_drop_bit_eq unat_div_8 unat_and_7)

lemma same_bit: "unat (i :: u32) div 8 = unat j div 8 \<and> unat i mod 8 = unat j mod 8 \<longleftrightarrow> i = j"
  by (metis div_mult_mod_eq unat_eqD)

lemma unat_u32_less: "(i :: u32) < 4096 \<longleftrightarrow> unat i < 4096" "(i :: u32) < 512 \<longleftrightarrow> unat i < 512"
  by (simp_all add: word_less_nat_alt)

lemma length_bitmap [simp]: "length (bitmap_set bm i) = length bm" "length (bitmap_clear bm i) = length bm"
  by (simp_all add: bitmap_set_def bitmap_clear_def Let_def)

lemma bitmap_test_set [simp]:
  assumes "length bm = 512" and "i < 4096"
  shows "bitmap_test (bitmap_set bm i) j \<longleftrightarrow> j = i \<or> bitmap_test bm j"
proof (cases "unat j div 8 = unat i div 8")
  case True
  have "unat i div 8 < length bm" using assms by (simp add: unat_u32_less)
  moreover have "unat i mod 8 < 8" "unat j mod 8 < 8" by simp_all
  ultimately show ?thesis using True same_bit[of i j]
    by (auto simp: bitmap_test_bit bitmap_set_def Let_def unat_div_8 unat_and_7 bit_simps)
next
  case False
  then show ?thesis
    by (auto simp: bitmap_test_bit bitmap_set_def Let_def unat_div_8)
qed

lemma bitmap_test_clear [simp]:
  assumes "length bm = 512" and "i < 4096"
  shows "bitmap_test (bitmap_clear bm i) j \<longleftrightarrow> j \<noteq> i \<and> bitmap_test bm j"
proof (cases "unat j div 8 = unat i div 8")
  case True
  have "unat i div 8 < length bm" using assms by (simp add: unat_u32_less)
  moreover have "unat i mod 8 < 8" "unat j mod 8 < 8" by simp_all
  ultimately show ?thesis using True same_bit[of i j]
    by (auto simp: bitmap_test_bit bitmap_clear_def Let_def unat_div_8 unat_and_7 bit_simps)
next
  case False
  then show ?thesis
    by (auto simp: bitmap_test_bit bitmap_clear_def Let_def unat_div_8)
qed

lemma bitmap_find_cases:
  assumes "c \<le> 4096"
  obtains (full) "bitmap_find_first_free bm c = - 1" and "\<forall>b < c. bitmap_test bm b"
  | (found) b where "bitmap_find_first_free bm c = b" and "b < c" and "b \<noteq> - 1" and "\<not> bitmap_test bm b"
      and "\<forall>b' < b. bitmap_test bm b'"
proof (cases "find (\<lambda>i. \<not> bitmap_test bm i) (map (of_nat :: nat \<Rightarrow> u32) [0..<unat c])")
  case None
  have "\<forall>b < c. bitmap_test bm b"
  proof (intro allI impI)
    fix b :: u32 assume "b < c"
    then have "b \<in> set (map of_nat [0..<unat c])"
      by (auto simp: word_less_nat_alt intro!: image_eqI[of _ _ "unat b"])
    with None show "bitmap_test bm b" by (auto simp: find_None_iff)
  qed
  then show thesis using None full by (simp add: bitmap_find_first_free_def)
next
  case (Some b)
  from assms have c: "unat c \<le> 4096" by (simp add: word_le_nat_alt)
  from Some obtain i where i: "i < unat c" "\<not> bitmap_test bm (of_nat i)" "b = of_nat i"
    "\<forall>j < i. bitmap_test bm (of_nat j)"
    by (auto simp: find_Some_iff)
  have u: "unat (of_nat i :: u32) = i" using i(1) c by (intro unat_less_of_nat) simp
  have l: "b < c" using i u by (simp add: word_less_nat_alt)
  moreover have "b \<noteq> - 1"
    using l assms word_n1_ge[of "4096 :: u32"] by (metis linorder_not_less order_less_le_trans)
  moreover have "\<forall>b' < b. bitmap_test bm b'"
  proof (intro allI impI)
    fix b' assume "b' < b"
    then have "unat b' < i" using i u by (simp add: word_less_nat_alt)
    then show "bitmap_test bm b'" using i(4)[rule_format, of "unat b'"] by simp
  qed
  ultimately show thesis using Some i found[of b] by (simp add: bitmap_find_first_free_def)
qed

section \<open>The inode table\<close>

definition wf_inode :: "aresfs_inode \<Rightarrow> bool" where
  "wf_inode ino \<longleftrightarrow> length (direct ino) = 12 \<and> length (i_pad ino) = 36"

definition itab :: "(u32 \<Rightarrow> u8 list) \<Rightarrow> u32 \<Rightarrow> aresfs_inode" where
  "itab B n = inode_of_bytes (seg (unat (n mod 4) * 128) 128 (B (4 + n div 4)))"

definition put_inode :: "u32 \<Rightarrow> aresfs_inode \<Rightarrow> (u32 \<Rightarrow> u8 list) \<Rightarrow> u32 \<Rightarrow> u8 list" where
  "put_inode n ino B = B(4 + n div 4 := copy_into (unat (n mod 4) * 128) (inode_bytes ino) (B (4 + n div 4)))"

lemma inode_block: "n < 512 \<Longrightarrow> unat (4 + n div 4 :: u32) = 4 + unat n div 4"
proof -
  assume "n < 512"
  then have n: "unat n < 512" by (simp add: word_less_nat_alt)
  then have "unat n div 4 < 128" by simp
  then show ?thesis by (simp add: unat_word_ariths unat_div_distrib)
qed

lemma inode_block_bounds: "n < 512 \<Longrightarrow> 4 \<le> (4 + n div 4 :: u32) \<and> (4 + n div 4 :: u32) < 132"
  using inode_block[of n] by (simp add: word_less_nat_alt word_le_nat_alt)

lemma inode_slot: "unat ((n :: u32) mod 4) = unat n mod 4"
  by (simp add: unat_mod_distrib)

lemma unat_mod_4_le: "unat ((n :: u32) mod 4) * 128 + 128 \<le> 512"
  by (simp add: inode_slot)

lemma itab_put:
  assumes "n < 512" and "m < 512" and "wf_inode ino" and "length (B (4 + n div 4)) = 512"
  shows "itab (put_inode n ino B) m = (if m = n then ino else itab B m)"
proof -
  let ?off = "\<lambda>n :: u32. unat (n mod 4) * 128"
  have len: "length (inode_bytes ino) = 128" using assms(3) by (simp add: wf_inode_def)
  have le: "?off n + 128 \<le> 512" "?off m + 128 \<le> 512" by (rule unat_mod_4_le)+
  show ?thesis
  proof (cases "m = n")
    case True
    then show ?thesis using assms len le inode_roundtrip[of ino]
      by (simp add: itab_def put_inode_def wf_inode_def)
  next
    case False
    show ?thesis
    proof (cases "4 + m div 4 = 4 + n div 4")
      case True
      then have "unat m div 4 = unat n div 4" using inode_block[OF assms(1)] inode_block[OF assms(2)] by simp
      then have "unat m mod 4 \<noteq> unat n mod 4" using False by (metis div_mult_mod_eq unat_eqD)
      then have "?off m + 128 \<le> ?off n \<or> ?off n + 128 \<le> ?off m" unfolding inode_slot by auto
      then have "seg (?off m) 128 (copy_into (?off n) (inode_bytes ino) (B (4 + n div 4))) =
        seg (?off m) 128 (B (4 + n div 4))"
        using assms len le by (intro seg_copy_other) auto
      then show ?thesis using True False by (simp add: itab_def put_inode_def)
    qed (simp add: itab_def put_inode_def False)
  qed
qed

lemma run_inode_read:
  assumes "n < 512" and "length (blk t (4 + n div 4)) = 512"
  shows "run_state (inode_read ideal n) t = ((ARES_OK, itab (blk t) n), t)"
proof -
  have "(4 + n div 4 :: u32) < 4096" using inode_block[OF assms(1)] assms(1) by (simp add: word_less_nat_alt)
  then show ?thesis using assms by (simp add: inode_read_def itab_def)
qed

text \<open>Replacing all blocks of a state.\<close>

definition with_blk :: "(u32 \<Rightarrow> u8 list) \<Rightarrow> sectors fs \<Rightarrow> sectors fs" where
  "with_blk B t = t\<lparr>disk := (\<lambda>l. B (l - ARESFS_BASE_LBA))\<rparr>"

lemma with_blk_simps [simp]:
  "blk (with_blk B t) = B" "with_blk B (with_blk B' t) = with_blk B t" "with_blk (blk t) t = t"
  "g_sb (with_blk B t) = g_sb t" "g_block_bitmap (with_blk B t) = g_block_bitmap t"
  "g_inode_bitmap (with_blk B t) = g_inode_bitmap t" "g_mounted (with_blk B t) = g_mounted t"
  "g_fds (with_blk B t) = g_fds t"
  by (auto simp: with_blk_def blk_def fun_eq_iff)

lemma put_blk_with: "put_blk b v t = with_blk ((blk t)(b := v)) t"
proof -
  have "(disk t)(2048 + b := v) = (\<lambda>l. ((blk t)(b := v)) (l - 2048))"
    by (auto simp: blk_def fun_eq_iff)
  then show ?thesis by (simp only: with_blk_def put_blk_def)
qed

lemma run_inode_write:
  assumes "n < 512" and "length (blk t (4 + n div 4)) = 512" and "wf_inode ino"
  shows "run_state (inode_write ideal n ino) t = (ARES_OK, with_blk (put_inode n ino (blk t)) t)"
proof -
  have "(4 + n div 4 :: u32) < 4096" using inode_block[OF assms(1)] assms(1) by (simp add: word_less_nat_alt)
  then show ?thesis using assms unat_mod_4_le[of n]
    by (simp add: inode_write_def put_inode_def Let_def put_blk_with wf_inode_def)
qed

section \<open>Block pointers and the layout invariant\<close>

text \<open>
  The pointers of an inode, by position: 0 to 11 the direct blocks, 12 the indirect block, 13 to 140 the
  entries of the indirect block. \<open>dpos\<close> is the position of a logical block, \<open>fbyte\<close> a byte of the file.
\<close>

definition ptr :: "(u32 \<Rightarrow> u8 list) \<Rightarrow> aresfs_inode \<Rightarrow> nat \<Rightarrow> u32" where
  "ptr B ino p =
     (if p < 12 then direct ino ! p else if p = 12 then indirect ino
      else if indirect ino = 0 then 0 else get32 (B (indirect ino)) (4 * (p - 13)))"

definition dpos :: "nat \<Rightarrow> nat" where
  "dpos i = (if i < 12 then i else Suc i)"

abbreviation fblock :: "(u32 \<Rightarrow> u8 list) \<Rightarrow> aresfs_inode \<Rightarrow> nat \<Rightarrow> u32" where
  "fblock B ino i \<equiv> ptr B ino (dpos i)"

definition fbyte :: "(u32 \<Rightarrow> u8 list) \<Rightarrow> aresfs_inode \<Rightarrow> nat \<Rightarrow> u8" where
  "fbyte B ino j = (let b = fblock B ino (j div 512) in if b = 0 then 0 else B b ! (j mod 512))"

definition lay :: "u8 list \<Rightarrow> (u32 \<Rightarrow> u8 list) \<Rightarrow> (u32 \<Rightarrow> aresfs_inode) \<Rightarrow> u32 set \<Rightarrow> bool" where
  "lay bm B I U \<longleftrightarrow>
     B 2 = bm \<and> length bm = 512 \<and> (\<forall>b < 4096. length (B b) = 512) \<and> (\<forall>b < 132. bitmap_test bm b) \<and>
     (\<forall>n \<in> U. wf_inode (I n)) \<and>
     (\<forall>n \<in> U. \<forall>p < 141. ptr B (I n) p \<noteq> 0 \<longrightarrow>
        132 \<le> ptr B (I n) p \<and> ptr B (I n) p < 4096 \<and> bitmap_test bm (ptr B (I n) p)) \<and>
     (\<forall>n \<in> U. \<forall>m \<in> U. \<forall>p < 141. \<forall>q < 141.
        ptr B (I n) p \<noteq> 0 \<longrightarrow> ptr B (I n) p = ptr B (I m) q \<longrightarrow> n = m \<and> p = q)"

lemma layD:
  assumes "lay bm B I U"
  shows "length bm = 512" and "b < 4096 \<Longrightarrow> length (B b) = 512" and "b < 132 \<Longrightarrow> bitmap_test bm b"
    and "n \<in> U \<Longrightarrow> wf_inode (I n)"
    and "n \<in> U \<Longrightarrow> p < 141 \<Longrightarrow> ptr B (I n) p \<noteq> 0 \<Longrightarrow> 132 \<le> ptr B (I n) p"
    and "n \<in> U \<Longrightarrow> p < 141 \<Longrightarrow> ptr B (I n) p \<noteq> 0 \<Longrightarrow> ptr B (I n) p < 4096"
    and "n \<in> U \<Longrightarrow> p < 141 \<Longrightarrow> ptr B (I n) p \<noteq> 0 \<Longrightarrow> bitmap_test bm (ptr B (I n) p)"
    and "B 2 = bm"
  using assms unfolding lay_def by blast+

lemma lay_inj:
  assumes "lay bm B I U" and "n \<in> U" and "m \<in> U" and "p < 141" and "q < 141"
    and "ptr B (I n) p \<noteq> 0" and "ptr B (I n) p = ptr B (I m) q"
  shows "n = m" and "p = q"
  using assms unfolding lay_def by blast+

lemma dpos_simps [simp]: "dpos i \<noteq> 12" "i < 140 \<Longrightarrow> dpos i < 141" "dpos i = dpos j \<longleftrightarrow> i = j"
  by (auto simp: dpos_def)

lemma ptr_cong: "(indirect ino \<noteq> 0 \<Longrightarrow> B' (indirect ino) = B (indirect ino)) \<Longrightarrow> ptr B' ino p = ptr B ino p"
  by (auto simp: ptr_def)

lemma ptr_indirect [simp]: "ptr B ino 12 = indirect ino"
  by (simp add: ptr_def)

section \<open>Allocating blocks\<close>

lemma alloc_block_cases:
  assumes "length (g_block_bitmap t) = 512" and "\<forall>b < 132. bitmap_test (g_block_bitmap t) b"
  obtains (none) "run_state (alloc_block ideal) t = (0, t)" and "\<forall>b < 4096. bitmap_test (g_block_bitmap t) b"
  | (fresh) b where "run_state (alloc_block ideal) t =
        (b, with_blk ((blk t)(2 := bitmap_set (g_block_bitmap t) b)) (t\<lparr>g_block_bitmap := bitmap_set (g_block_bitmap t) b\<rparr>))"
      and "132 \<le> b" and "b < 4096" and "b \<noteq> 0" and "\<not> bitmap_test (g_block_bitmap t) b"
proof (cases rule: bitmap_find_cases[OF order_refl, of "g_block_bitmap t", case_names full found])
  case full
  then show thesis by (intro none) (simp_all add: alloc_block_def)
next
  case (found b)
  have "132 \<le> b" using assms(2) found by (meson not_le)
  moreover from this have "b \<noteq> 0" by auto
  ultimately show thesis using found assms(1) by (intro fresh[of b]) (simp_all add: alloc_block_def put_blk_with)
qed

text \<open>
  A block that was free becomes the pointer at position \<open>p\<close> of inode \<open>n\<close>: the layout invariant is kept and,
  if the block is zeroed, no file changes.
\<close>

lemma lay_grow:
  assumes lay: "lay bm B I U" and n: "n \<in> U" and b: "\<not> bitmap_test bm b" "132 \<le> b" "b < 4096"
    and two: "B' 2 = bitmap_set bm b" and wf: "wf_inode ino'" and len: "\<And>c. c < 4096 \<Longrightarrow> length (B' c) = 512"
    and new: "\<And>q. q < 141 \<Longrightarrow> ptr B' ino' q = (if q = p then b else ptr B (I n) q)"
    and old: "\<And>m q. m \<in> U \<Longrightarrow> m \<noteq> n \<Longrightarrow> ptr B' (I m) q = ptr B (I m) q"
  shows "lay (bitmap_set bm b) B' (I(n := ino')) U"
proof -
  note bml = layD(1)[OF lay]
  have fresh: "ptr B (I m) q \<noteq> b" if "m \<in> U" "q < 141" for m q
    using layD(7)[OF lay that] b(1,2) by (cases "ptr B (I m) q = 0") auto
  have pt: "ptr B' ((I(n := ino')) m) q = (if m = n \<and> q = p then b else ptr B (I m) q)" if "m \<in> U" "q < 141" for m q
    using that new old by simp
  show ?thesis unfolding lay_def
  proof (intro conjI ballI allI impI)
    show "B' 2 = bitmap_set bm b" by (fact two)
    show "length (bitmap_set bm b) = 512" using bml by simp
    show "\<And>c. c < 4096 \<Longrightarrow> length (B' c) = 512" by (rule len)
    show "\<And>c. c < 132 \<Longrightarrow> bitmap_test (bitmap_set bm b) c" using layD(3)[OF lay] bml b by simp
    show "\<And>m. m \<in> U \<Longrightarrow> wf_inode ((I(n := ino')) m)" using layD(4)[OF lay] wf by simp
  next
    fix m q assume a: "m \<in> U" "q < 141" "ptr B' ((I(n := ino')) m) q \<noteq> 0"
    then show "132 \<le> ptr B' ((I(n := ino')) m) q" "ptr B' ((I(n := ino')) m) q < 4096"
      "bitmap_test (bitmap_set bm b) (ptr B' ((I(n := ino')) m) q)"
      unfolding pt[OF a(1,2)] using layD(5-7)[OF lay, of m q] bml b by (auto split: if_splits)
  next
    fix m1 m2 p1 p2 assume a: "m1 \<in> U" "m2 \<in> U" "p1 < 141" "p2 < 141"
      "ptr B' ((I(n := ino')) m1) p1 \<noteq> 0" "ptr B' ((I(n := ino')) m1) p1 = ptr B' ((I(n := ino')) m2) p2"
    have "m1 = m2 \<and> p1 = p2"
      using a(5,6) lay_inj[OF lay a(1-4)] fresh[OF a(1,3)] fresh[OF a(2,4)]
      unfolding pt[OF a(1,3)] pt[OF a(2,4)] by (auto split: if_splits)
    then show "m1 = m2" "p1 = p2" by auto
  qed
qed

lemma fbyte_grow:
  assumes lay: "lay bm B I U" and n: "n \<in> U" and m: "m \<in> U"
    and new: "\<And>q. q < 141 \<Longrightarrow> ptr B' ino' q = (if q = p then b else ptr B (I n) q)"
    and old: "\<And>m q. m \<in> U \<Longrightarrow> m \<noteq> n \<Longrightarrow> ptr B' (I m) q = ptr B (I m) q"
    and was: "ptr B (I n) p = 0" and z: "B' b = zero_block"
    and keep: "\<And>m q. m \<in> U \<Longrightarrow> q < 141 \<Longrightarrow> q \<noteq> 12 \<Longrightarrow> ptr B (I m) q \<noteq> 0 \<Longrightarrow> B' (ptr B (I m) q) = B (ptr B (I m) q)"
  shows "j < 71680 \<Longrightarrow> fbyte B' ((I(n := ino')) m) j = fbyte B (I m) j"
    and "i < 140 \<Longrightarrow> fblock B (I m) i \<noteq> 0 \<Longrightarrow> fblock B' ((I(n := ino')) m) i = fblock B (I m) i"
proof -
  have pt: "ptr B' ((I(n := ino')) m) q = (if m = n \<and> q = p then b else ptr B (I m) q)" if "q < 141" for q
    using that new old m by simp
  { assume "i < 140" "fblock B (I m) i \<noteq> 0"
    then show "fblock B' ((I(n := ino')) m) i = fblock B (I m) i" using was by (subst pt) auto }
  assume j: "j < 71680"
  then have i: "dpos (j div 512) < 141" by (intro dpos_simps(2)) (simp add: less_mult_imp_div_less)
  show "fbyte B' ((I(n := ino')) m) j = fbyte B (I m) j"
    unfolding fbyte_def Let_def pt[OF i] using z keep[OF m i] was by auto
qed

section \<open>Growing a file\<close>

text \<open>What changes to data blocks leave alone: everything but the data blocks and the block bitmap.\<close>

definition kept :: "sectors fs \<Rightarrow> sectors fs \<Rightarrow> bool" where
  "kept t t' \<longleftrightarrow> g_sb t' = g_sb t \<and> g_inode_bitmap t' = g_inode_bitmap t \<and> g_mounted t' = g_mounted t \<and>
     g_fds t' = g_fds t \<and> (\<forall>b < 132. b \<noteq> 2 \<longrightarrow> blk t' b = blk t b)"

lemma kept_refl [simp]: "kept t t"
  by (simp add: kept_def)

lemma kept_trans: "kept t t' \<Longrightarrow> kept t' t'' \<Longrightarrow> kept t t''"
  by (simp add: kept_def)

text \<open>
  Inode \<open>n\<close> has become \<open>ino'\<close> by gaining blocks: no byte of any file has changed, and every data block is
  where it was with the contents it had.
\<close>

definition grown ::
  "u32 set \<Rightarrow> (u32 \<Rightarrow> aresfs_inode) \<Rightarrow> u32 \<Rightarrow> sectors fs \<Rightarrow> aresfs_inode \<Rightarrow> sectors fs \<Rightarrow> bool" where
  "grown U I n t ino' t' \<longleftrightarrow>
     lay (g_block_bitmap t') (blk t') (I(n := ino')) U \<and> kept t t' \<and>
     (\<exists>d i. ino' = (I n)\<lparr>direct := d, indirect := i\<rparr>) \<and>
     (\<forall>m \<in> U. \<forall>j < 71680. fbyte (blk t') ((I(n := ino')) m) j = fbyte (blk t) (I m) j) \<and>
     (\<forall>m \<in> U. \<forall>i < 140. fblock (blk t) (I m) i \<noteq> 0 \<longrightarrow>
        fblock (blk t') ((I(n := ino')) m) i = fblock (blk t) (I m) i \<and>
        blk t' (fblock (blk t) (I m) i) = blk t (fblock (blk t) (I m) i))"

lemma grownD:
  assumes "grown U I n t ino' t'"
  shows "lay (g_block_bitmap t') (blk t') (I(n := ino')) U" and "kept t t'"
    and "\<exists>d i. ino' = (I n)\<lparr>direct := d, indirect := i\<rparr>"
    and "m \<in> U \<Longrightarrow> j < 71680 \<Longrightarrow> fbyte (blk t') ((I(n := ino')) m) j = fbyte (blk t) (I m) j"
    and "m \<in> U \<Longrightarrow> i < 140 \<Longrightarrow> fblock (blk t) (I m) i \<noteq> 0 \<Longrightarrow>
      fblock (blk t') ((I(n := ino')) m) i = fblock (blk t) (I m) i"
    and "m \<in> U \<Longrightarrow> i < 140 \<Longrightarrow> fblock (blk t) (I m) i \<noteq> 0 \<Longrightarrow>
      blk t' (fblock (blk t) (I m) i) = blk t (fblock (blk t) (I m) i)"
  using assms unfolding grown_def by blast+

lemma grown_refl: "lay (g_block_bitmap t) (blk t) I U \<Longrightarrow> grown U I n t (I n) t"
proof -
  have "\<exists>d i. I n = (I n)\<lparr>direct := d, indirect := i\<rparr>"
    by (rule exI[of _ "direct (I n)"], rule exI[of _ "indirect (I n)"]) simp
  then show "lay (g_block_bitmap t) (blk t) I U \<Longrightarrow> ?thesis" unfolding grown_def by simp
qed

lemma grown_trans:
  assumes a: "grown U I n t ino1 t1" and b: "grown U (I(n := ino1)) n t1 ino2 t2"
  shows "grown U I n t ino2 t2"
  unfolding grown_def
proof (intro conjI ballI allI impI)
  show "lay (g_block_bitmap t2) (blk t2) (I(n := ino2)) U" using grownD(1)[OF b] by simp
  show "kept t t2" by (rule kept_trans[OF grownD(2)[OF a] grownD(2)[OF b]])
  show "\<exists>d i. ino2 = (I n)\<lparr>direct := d, indirect := i\<rparr>"
    using grownD(3)[OF a] grownD(3)[OF b] by auto (rule exI, rule exI, rule refl)
next
  fix m j assume "m \<in> U" "j < (71680 :: nat)"
  then show "fbyte (blk t2) ((I(n := ino2)) m) j = fbyte (blk t) (I m) j"
    using grownD(4)[OF a, of m j] grownD(4)[OF b, of m j] by (simp only: fun_upd_upd)
next
  fix m i assume h: "m \<in> U" "i < 140" "fblock (blk t) (I m) i \<noteq> 0"
  note e = grownD(5)[OF a h] grownD(6)[OF a h]
  have "fblock (blk t1) ((I(n := ino1)) m) i \<noteq> 0" using e h by simp
  note f = grownD(5)[OF b h(1,2) this] grownD(6)[OF b h(1,2) this]
  show "fblock (blk t2) ((I(n := ino2)) m) i = fblock (blk t) (I m) i"
    using e f by (simp only: fun_upd_upd)
  show "blk t2 (fblock (blk t) (I m) i) = blk t (fblock (blk t) (I m) i)"
    using e f by (simp only: fun_upd_upd)
qed

lemma grown_at:
  assumes lay: "lay (g_block_bitmap t) (blk t) I U" and n: "n \<in> U" and was: "ptr (blk t) (I n) p = 0"
    and b: "\<not> bitmap_test (g_block_bitmap t) b" "132 \<le> b" "b < 4096"
    and t': "kept t t'" "g_block_bitmap t' = bitmap_set (g_block_bitmap t) b" "blk t' b = zero_block"
      "blk t' 2 = bitmap_set (g_block_bitmap t) b"
      "\<And>c. c < 4096 \<Longrightarrow> length (blk t' c) = 512"
      "\<And>c. 132 \<le> c \<Longrightarrow> c \<noteq> b \<Longrightarrow> c \<noteq> indirect (I n) \<Longrightarrow> blk t' c = blk t c"
    and ino': "wf_inode ino'" "\<exists>d i. ino' = (I n)\<lparr>direct := d, indirect := i\<rparr>"
    and new: "\<And>q. q < 141 \<Longrightarrow> ptr (blk t') ino' q = (if q = p then b else ptr (blk t) (I n) q)"
  shows "grown U I n t ino' t'"
proof -
  have fresh: "ptr (blk t) (I m) q \<noteq> b" if "m \<in> U" "q < 141" for m q
    using layD(7)[OF lay that] b(1,2) by (cases "ptr (blk t) (I m) q = 0") auto
  have old: "ptr (blk t') (I m) q = ptr (blk t) (I m) q" if m: "m \<in> U" "m \<noteq> n" for m q
  proof (rule ptr_cong)
    assume z: "indirect (I m) \<noteq> 0"
    then have "indirect (I m) \<noteq> indirect (I n)"
      using lay_inj(1)[OF lay m(1) n, of 12 12] m(2) by auto
    then show "blk t' (indirect (I m)) = blk t (indirect (I m))"
      using z fresh[OF m(1), of 12] layD(5)[OF lay m(1), of 12] by (intro t'(6)) auto
  qed
  have keep: "blk t' (ptr (blk t) (I m) q) = blk t (ptr (blk t) (I m) q)"
    if m: "m \<in> U" "q < 141" "q \<noteq> 12" "ptr (blk t) (I m) q \<noteq> 0" for m q
  proof (rule t'(6))
    show "ptr (blk t) (I m) q \<noteq> indirect (I n)"
      using lay_inj(2)[OF lay m(1) n m(2), of 12] m(3,4) by auto
  qed (use fresh[OF m(1,2)] layD(5)[OF lay m(1,2,4)] in auto)
  show ?thesis unfolding grown_def t'(2)
  proof (intro conjI ballI allI impI)
    show "lay (bitmap_set (g_block_bitmap t) b) (blk t') (I(n := ino')) U"
      by (rule lay_grow[OF lay n b, where p = p]) (fact t'(4,5) ino'(1) new old)+
    show "kept t t'" by (fact t'(1))
    show "\<exists>d i. ino' = (I n)\<lparr>direct := d, indirect := i\<rparr>" by (fact ino'(2))
  next
    fix m j assume a: "m \<in> U" "j < (71680 :: nat)"
    show "fbyte (blk t') ((I(n := ino')) m) j = fbyte (blk t) (I m) j"
      by (rule fbyte_grow(1)[OF lay n a(1), where p = p and b = b]) (fact new old was t'(3) keep a)+
  next
    fix m i assume a: "m \<in> U" "i < (140 :: nat)" "fblock (blk t) (I m) i \<noteq> 0"
    show "fblock (blk t') ((I(n := ino')) m) i = fblock (blk t) (I m) i"
      by (rule fbyte_grow(2)[OF lay n a(1), where p = p and b = b]) (fact new old was t'(3) keep a)+
    show "blk t' (fblock (blk t) (I m) i) = blk t (fblock (blk t) (I m) i)"
      using keep[OF a(1) dpos_simps(2,1)] a by blast
  qed
qed

section \<open>Resolving logical blocks\<close>

definition disk_full :: "sectors fs \<Rightarrow> bool" where
  "disk_full t \<longleftrightarrow> (\<forall>b < 4096. bitmap_test (g_block_bitmap t) b)"

lemma lay_alloc_cases:
  assumes "lay (g_block_bitmap t) (blk t) I U"
  obtains (none) "run_state (alloc_block ideal) t = (0, t)" and "disk_full t"
  | (fresh) b where "run_state (alloc_block ideal) t =
        (b, with_blk ((blk t)(2 := bitmap_set (g_block_bitmap t) b)) (t\<lparr>g_block_bitmap := bitmap_set (g_block_bitmap t) b\<rparr>))"
      and "132 \<le> b" and "b < 4096" and "b \<noteq> 0" and "b \<noteq> 2" and "\<not> bitmap_test (g_block_bitmap t) b"
proof (rule alloc_block_cases[of t])
  show "length (g_block_bitmap t) = 512" "\<forall>b < 132. bitmap_test (g_block_bitmap t) b"
    using layD(1,3)[OF assms] by auto
qed (use none in \<open>simp add: disk_full_def\<close>, rule fresh, auto)

lemma grown_direct:
  assumes lay: "lay (g_block_bitmap t) (blk t) I U" and n: "n \<in> U" and i: "i < 12" "direct (I n) ! i = 0"
    and b: "132 \<le> b" "b < 4096" "b \<noteq> 2" "\<not> bitmap_test (g_block_bitmap t) b"
  defines "ino1 \<equiv> (I n)\<lparr>direct := (direct (I n))[i := b]\<rparr>"
  defines "t1 \<equiv> with_blk ((blk t)(2 := bitmap_set (g_block_bitmap t) b, b := zero_block))
      (t\<lparr>g_block_bitmap := bitmap_set (g_block_bitmap t) b\<rparr>)"
  shows "grown U I n t ino1 t1" and "fblock (blk t1) ino1 i = b"
proof -
  have wf: "wf_inode (I n)" by (rule layD(4)[OF lay n])
  have pt: "ptr (blk t1) ino1 q = (if q = i then b else ptr (blk t) (I n) q)" if "q < 141" for q
  proof -
    have "indirect (I n) \<noteq> 0 \<Longrightarrow> indirect (I n) \<noteq> b \<and> indirect (I n) \<noteq> 2"
      using layD(5,7)[OF lay n, of 12] b by auto
    then show ?thesis using i wf by (auto simp: ptr_def wf_inode_def ino1_def t1_def)
  qed
  show "fblock (blk t1) ino1 i = b" using pt[of i] i by (simp add: dpos_def)
  show "grown U I n t ino1 t1"
  proof (rule grown_at[OF lay n _ b(4,1,2), where p = i])
    show "ptr (blk t) (I n) i = 0" using i by (simp add: ptr_def)
    show "kept t t1" using b by (auto simp: kept_def t1_def)
    show "\<And>c. c < 4096 \<Longrightarrow> length (blk t1 c) = 512" using layD(1,2)[OF lay] by (simp add: t1_def)
    show "wf_inode ino1" using wf by (simp add: wf_inode_def ino1_def)
    show "\<exists>d ia. ino1 = (I n)\<lparr>direct := d, indirect := ia\<rparr>" unfolding ino1_def
      by (rule exI[of _ "(direct (I n))[i := b]"], rule exI[of _ "indirect (I n)"]) simp
    show "\<And>q. q < 141 \<Longrightarrow> ptr (blk t1) ino1 q = (if q = i then b else ptr (blk t) (I n) q)" by (rule pt)
  qed (use b in \<open>auto simp: t1_def\<close>)
qed

lemma resolve_direct_grows:
  assumes lay: "lay (g_block_bitmap t) (blk t) I U" and n: "n \<in> U" and i: "i < 12"
  obtains phys ino' t' where "run_state (resolve_direct ideal (I n) i True) t = ((phys, ino'), t')"
    and "grown U I n t ino' t'" and "phys \<noteq> 0 \<longrightarrow> fblock (blk t') ino' i = phys" and "phys = 0 \<longrightarrow> disk_full t'"
proof (cases "direct (I n) ! i = 0")
  case False
  then show thesis using i grown_refl[OF lay, of n]
    by (intro that[of "direct (I n) ! i" "I n" t]) (simp_all add: resolve_direct_def ptr_def dpos_def)
next
  case True
  show thesis
  proof (cases rule: lay_alloc_cases[OF lay])
    case 1
    then show thesis using True grown_refl[OF lay, of n]
      by (intro that[of 0 "I n" t]) (simp_all add: resolve_direct_def)
  next
    case (2 b)
    have "run_state (resolve_direct ideal (I n) i True) t = ((b, (I n)\<lparr>direct := (direct (I n))[i := b]\<rparr>),
        with_blk ((blk t)(2 := bitmap_set (g_block_bitmap t) b, b := zero_block))
          (t\<lparr>g_block_bitmap := bitmap_set (g_block_bitmap t) b\<rparr>))"
      using True 2 by (simp add: resolve_direct_def put_blk_with)
    then show thesis
      by (rule that[OF _ grown_direct(1)[OF lay n i True 2(2,3,5,6)]])
        (use 2 grown_direct(2)[OF lay n i True 2(2,3,5,6)] in blast)+
  qed
qed

lemma load_indirect_grows:
  assumes lay: "lay (g_block_bitmap t) (blk t) I U" and n: "n \<in> U"
  obtains (none) ino' t' where "run_state (load_indirect ideal (I n) True) t = ((None, ino'), t')"
    and "grown U I n t ino' t'" and "disk_full t'"
  | (loaded) ino' t' where
      "run_state (load_indirect ideal (I n) True) t = ((Some (blk t' (indirect ino')), ino'), t')"
    and "grown U I n t ino' t'" and "indirect ino' \<noteq> 0"
proof (cases "indirect (I n) = 0")
  case False
  then have "indirect (I n) < 4096" using layD(6)[OF lay n, of 12] by simp
  then show thesis using False grown_refl[OF lay, of n]
    by (intro loaded[of t "I n"]) (simp_all add: load_indirect_def layD(2)[OF lay])
next
  case True
  have wf: "wf_inode (I n)" by (rule layD(4)[OF lay n])
  show thesis
  proof (cases rule: lay_alloc_cases[OF lay])
    case 1
    then show thesis using True grown_refl[OF lay, of n]
      by (intro none[of "I n" t]) (simp_all add: load_indirect_def)
  next
    case (2 b)
    let ?ino = "(I n)\<lparr>indirect := b\<rparr>"
    let ?t = "with_blk ((blk t)(2 := bitmap_set (g_block_bitmap t) b, b := zero_block))
      (t\<lparr>g_block_bitmap := bitmap_set (g_block_bitmap t) b\<rparr>)"
    have run: "run_state (load_indirect ideal (I n) True) t = ((Some zero_block, ?ino), ?t)"
      using True 2 by (simp add: load_indirect_def put_blk_with)
    have "grown U I n t ?ino ?t"
    proof (rule grown_at[OF lay n _ 2(6,2,3), where p = 12])
      show "ptr (blk t) (I n) 12 = 0" using True by simp
      show "kept t ?t" using 2 by (auto simp: kept_def)
      show "\<And>c. c < 4096 \<Longrightarrow> length (blk ?t c) = 512" using layD(1,2)[OF lay] by simp
      show "wf_inode ?ino" using wf by (simp add: wf_inode_def)
      show "\<exists>d ia. ?ino = (I n)\<lparr>direct := d, indirect := ia\<rparr>"
        by (rule exI[of _ "direct (I n)"], rule exI[of _ b]) simp
    qed (use True 2 in \<open>auto simp: ptr_def\<close>)
    then show thesis using run 2 by (intro loaded[of ?t ?ino]) auto
  qed
qed

lemma resolve_indirect_grows:
  assumes lay: "lay (g_block_bitmap t) (blk t) I U" and n: "n \<in> U" and i: "off < 128"
    and ind: "indirect (I n) \<noteq> 0"
  obtains phys t' where
      "run_state (resolve_indirect ideal (I n) off True (blk t (indirect (I n)))) t = ((phys, I n), t')"
    and "grown U I n t (I n) t'" and "phys \<noteq> 0 \<longrightarrow> fblock (blk t') (I n) (12 + off) = phys"
    and "phys = 0 \<longrightarrow> disk_full t'"
proof (cases "get32 (blk t (indirect (I n))) (4 * off) = 0")
  case False
  then show thesis using ind grown_refl[OF lay, of n]
    by (intro that[of "get32 (blk t (indirect (I n))) (4 * off)" t]) (simp_all add: resolve_indirect_def ptr_def dpos_def)
next
  case True
  have wf: "wf_inode (I n)" by (rule layD(4)[OF lay n])
  show thesis
  proof (cases rule: lay_alloc_cases[OF lay])
    case 1
    then show thesis using True grown_refl[OF lay, of n]
      by (intro that[of 0 t]) (simp_all add: resolve_indirect_def)
  next
    case (2 b)
    let ?c = "indirect (I n)"
    let ?t = "with_blk ((blk t)(2 := bitmap_set (g_block_bitmap t) b, b := zero_block,
        ?c := copy_into (4 * off) (le32 b) (blk t ?c))) (t\<lparr>g_block_bitmap := bitmap_set (g_block_bitmap t) b\<rparr>)"
    have c: "132 \<le> ?c" "?c < 4096" "?c \<noteq> b" using layD(5-7)[OF lay n, of 12] ind 2 by auto
    then have len: "length (blk t ?c) = 512" using layD(2)[OF lay] by simp
    have run: "run_state (resolve_indirect ideal (I n) off True (blk t ?c)) t = ((b, I n), ?t)"
      using True 2 c len i by (simp add: resolve_indirect_def put_blk_with)
    have pt: "ptr (blk ?t) (I n) q = (if q = 13 + off then b else ptr (blk t) (I n) q)" if q: "q < 141" for q
    proof (cases "q < 13")
      case True
      then show ?thesis by (simp add: ptr_def)
    next
      case False
      have "get32 (copy_into (4 * off) (le32 b) (blk t ?c)) (4 * (q - 13)) =
          (if q = 13 + off then b else get32 (blk t ?c) (4 * (q - 13)))"
      proof (cases "q = 13 + off")
        case False
        then show ?thesis using len i q \<open>\<not> q < 13\<close> by (simp, intro get32_copy_other) auto
      qed (use len i in simp)
      then show ?thesis using False ind by (simp add: ptr_def)
    qed
    have "grown U I n t (I n) ?t"
    proof (rule grown_at[OF lay n _ 2(6,2,3), where p = "13 + off"])
      show "ptr (blk t) (I n) (13 + off) = 0" using True ind by (simp add: ptr_def)
      show "kept t ?t" using 2 c by (auto simp: kept_def)
      show "\<And>c. c < 4096 \<Longrightarrow> length (blk ?t c) = 512" using layD(1,2)[OF lay] len i by simp
      show "\<exists>d ia. I n = (I n)\<lparr>direct := d, indirect := ia\<rparr>"
        by (rule exI[of _ "direct (I n)"], rule exI[of _ "indirect (I n)"]) simp
    qed (use pt wf c 2(5) in auto)
    then show thesis using run i pt[of "13 + off"] 2 by (intro that[of b ?t]) (auto simp: dpos_def)
  qed
qed

lemma logical_index:
  assumes "i < 140" and "\<not> i < 12"
  shows "\<not> (of_nat i :: u32) < 12" and "\<not> 128 \<le> (of_nat i - 12 :: u32)" and "unat (of_nat i - 12 :: u32) = i - 12"
proof -
  have u: "unat (of_nat i :: u32) = i" using assms by (intro unat_less_of_nat) simp
  have o: "(of_nat i :: u32) - 12 = of_nat (i - 12)" using assms by simp
  have uo: "unat (of_nat (i - 12) :: u32) = i - 12" by (rule unat_less_of_nat) (use assms in simp)
  show "\<not> (of_nat i :: u32) < 12" using u assms by (simp add: word_less_nat_alt)
  show "unat (of_nat i - 12 :: u32) = i - 12" by (simp only: o uo)
  then show "\<not> 128 \<le> (of_nat i - 12 :: u32)" using assms by (simp add: word_le_nat_alt)
qed

text \<open>
  \<open>inode_resolve_block\<close> with \<open>create\<close>: it returns the block of the file at that index, allocating it if need
  be; it returns 0 only if the disk is full.
\<close>

lemma resolve_grows:
  assumes lay: "lay (g_block_bitmap t) (blk t) I U" and n: "n \<in> U" and i: "i < 140"
  obtains phys ino' t' where "run_state (inode_resolve_block ideal (I n) (of_nat i) True) t = ((phys, ino'), t')"
    and "grown U I n t ino' t'" and "phys \<noteq> 0 \<longrightarrow> fblock (blk t') ino' i = phys" and "phys = 0 \<longrightarrow> disk_full t'"
proof -
  have u: "unat (of_nat i :: u32) = i" using i by (intro unat_less_of_nat) simp
  show thesis
  proof (cases "i < 12")
    case True
    obtain phys ino' t' where r: "run_state (resolve_direct ideal (I n) i True) t = ((phys, ino'), t')"
      "grown U I n t ino' t'" "phys \<noteq> 0 \<longrightarrow> fblock (blk t') ino' i = phys" "phys = 0 \<longrightarrow> disk_full t'"
      by (rule resolve_direct_grows[OF lay n True])
    then show thesis using True u
      by (intro that[of phys ino' t']) (simp_all add: inode_resolve_block_def word_less_nat_alt)
  next
    case False
    note c = logical_index[OF i False]
    show thesis
    proof (cases rule: load_indirect_grows[OF lay n])
      case (1 ino' t')
      then show thesis using c
        by (intro that[of 0 ino' t']) (simp_all add: inode_resolve_block_def)
    next
      case (2 ino' t')
      have n': "(I(n := ino')) n = ino'" and lt: "i - 12 < 128" using i by simp_all
      obtain phys t'' where r:
        "run_state (resolve_indirect ideal ino' (i - 12) True (blk t' (indirect ino'))) t' = ((phys, ino'), t'')"
        "grown U (I(n := ino')) n t' ino' t''" "phys \<noteq> 0 \<longrightarrow> fblock (blk t'') ino' (12 + (i - 12)) = phys"
        "phys = 0 \<longrightarrow> disk_full t''"
        by (rule resolve_indirect_grows[OF grownD(1)[OF 2(2)] n lt, unfolded n', OF 2(3)])
      have e: "12 + (i - 12) = i" using False by simp
      have run: "run_state (inode_resolve_block ideal (I n) (of_nat i) True) t = ((phys, ino'), t'')"
        using c 2(1) r(1) by (simp add: inode_resolve_block_def Let_def)
      show thesis
        by (rule that[OF run grown_trans[OF 2(2) r(2)]]) (use r(3,4)[unfolded e] in blast)+
    qed
  qed
qed

text \<open>Without \<open>create\<close> it only looks the block up.\<close>

lemma resolve_reads:
  assumes lay: "lay bm (blk t) I U" and n: "n \<in> U" and i: "i < 140"
  shows "run_state (inode_resolve_block ideal (I n) (of_nat i) False) t = ((fblock (blk t) (I n) i, I n), t)"
proof -
  have u: "unat (of_nat i :: u32) = i" using i by (intro unat_less_of_nat) simp
  show ?thesis
  proof (cases "i < 12")
    case True
    then show ?thesis using u
      by (simp add: inode_resolve_block_def word_less_nat_alt resolve_direct_def ptr_def dpos_def)
  next
    case False
    note c = logical_index[OF i False]
    have "indirect (I n) \<noteq> 0 \<Longrightarrow> indirect (I n) < 4096" using layD(6)[OF lay n, of 12] by auto
    then show ?thesis using c False
      by (auto simp: inode_resolve_block_def load_indirect_def resolve_indirect_def ptr_def dpos_def layD(2)[OF lay])
  qed
qed

end
