(* ===== verification/Aresfs_File.thy ===== *)
theory Aresfs_File
  imports Aresfs_Layout
begin

text \<open>
  Files as byte arrays: on the ideal disk \<open>file_read_body\<close> returns the bytes of the file and
  \<open>file_write_body\<close> replaces them, growing the file; no other file changes, and a write falls short only
  when the disk is full or the file has reached its maximal size.
\<close>

section \<open>Reading\<close>

lemma block_offset:
  assumes "off mod 512 + c \<le> (512 :: nat)" and "x < c"
  shows "(off + x) div 512 = off div 512" and "(off + x) mod 512 = off mod 512 + x"
proof -
  define q r where "q = off div 512" and "r = off mod 512"
  have e: "off + x = 512 * q + (r + x)" and r: "r + x < 512" using assms by (simp_all add: q_def r_def)
  have "(512 * q + (r + x)) div 512 = q" "(512 * q + (r + x)) mod 512 = r + x"
    using r div_mult_self4[of 512 q "r + x"] mod_mult_self4[of 512 q "r + x"] by simp_all
  then show "(off + x) div 512 = off div 512" "(off + x) mod 512 = off mod 512 + x"
    by (simp_all only: e) (simp_all only: q_def r_def)
qed

lemma in_block_range:
  assumes "off mod 512 + c \<le> (512 :: nat)"
  shows "off \<le> j \<and> j < off + c \<longleftrightarrow> j div 512 = off div 512 \<and> off mod 512 \<le> j mod 512 \<and> j mod 512 < off mod 512 + c"
proof
  assume "off \<le> j \<and> j < off + c"
  then obtain x where "j = off + x" "x < c" by (auto simp: le_iff_add)
  then show "j div 512 = off div 512 \<and> off mod 512 \<le> j mod 512 \<and> j mod 512 < off mod 512 + c"
    using block_offset[OF assms, of x] by simp
next
  assume a: "j div 512 = off div 512 \<and> off mod 512 \<le> j mod 512 \<and> j mod 512 < off mod 512 + c"
  have "j = 512 * (off div 512) + j mod 512" using a by (metis mult_div_mod_eq)
  moreover have "off = 512 * (off div 512) + off mod 512" by simp
  ultimately show "off \<le> j \<and> j < off + c" using a by linarith
qed

lemma in_block_offset:
  assumes "j div 512 = (pos + lo) div 512" and "(pos + lo) mod 512 \<le> j mod (512 :: nat)"
  shows "lo + j mod 512 - (pos + lo) mod 512 = j - pos"
proof -
  have "j = 512 * ((pos + lo) div 512) + j mod 512" using assms(1) by (metis mult_div_mod_eq)
  moreover have "pos + lo = 512 * ((pos + lo) div 512) + (pos + lo) mod 512" by simp
  ultimately show ?thesis using assms(2) by linarith
qed

lemma bytes_of_block:
  assumes "off mod 512 + c \<le> 512" and "fblock B ino (off div 512) \<noteq> 0 \<Longrightarrow> length (B (fblock B ino (off div 512))) = 512"
  shows "map (fbyte B ino) [off..<off + c] =
    (if fblock B ino (off div 512) = 0 then replicate c 0 else seg (off mod 512) c (B (fblock B ino (off div 512))))"
  using assms by (intro nth_equalityI) (auto simp: fbyte_def block_offset[OF assms(1)])

lemma file_read_loop_run:
  assumes lay: "lay bm (blk t) I U" and n: "n \<in> U" and lim: "pos + count \<le> 71680"
    and "done \<le> count" and "count \<le> length dst"
  shows "run_state (file_read_loop ideal (I n) pos count done dst) t =
    ((to_int count, copy_into done (map (fbyte (blk t) (I n)) [pos + done..<pos + count]) dst), t)"
  using assms(4,5)
proof (induction "count - done" arbitrary: "done" dst rule: less_induct)
  case less
  show ?case
  proof (cases "done < count")
    case False
    then show ?thesis using less.prems by (subst file_read_loop.simps) simp
  next
    case True
    define c where "c = chunk_at pos count done"
    let ?i = "(pos + done) div 512" and ?ph = "fblock (blk t) (I n) ((pos + done) div 512)"
    have c: "0 < c" "(pos + done) mod 512 + c \<le> 512" "done + c \<le> count" unfolding c_def using True by auto
    have i: "?i < 140" using True lim by (simp add: less_mult_imp_div_less)
    have ph: "?ph \<noteq> 0 \<Longrightarrow> ?ph < 4096" and len: "?ph \<noteq> 0 \<Longrightarrow> length (blk t ?ph) = 512"
      using layD(6)[OF lay n, of "dpos ?i"] layD(2)[OF lay, of ?ph] i by auto
    define a where "a = map (fbyte (blk t) (I n)) [pos + done..<pos + done + c]"
    have a: "a = (if ?ph = 0 then replicate c 0 else seg ((pos + done) mod 512) c (blk t ?ph))"
      unfolding a_def using bytes_of_block[OF c(2), of "blk t" "I n"] len by simp
    have "run_state (file_read_loop ideal (I n) pos count done dst) t =
        run_state (file_read_loop ideal (I n) pos count (done + c) (copy_into done a dst)) t"
      using True ph len
      by (subst file_read_loop.simps) (simp add: Let_def resolve_reads[OF lay n i] a c_def[symmetric])
    also have "\<dots> = ((to_int count, copy_into (done + c) (map (fbyte (blk t) (I n)) [pos + (done + c)..<pos + count])
        (copy_into done a dst)), t)"
      using True c less.prems by (intro less.hyps) (simp_all add: a_def)
    also have "copy_into (done + c) (map (fbyte (blk t) (I n)) [pos + (done + c)..<pos + count]) (copy_into done a dst) =
        copy_into done (a @ map (fbyte (blk t) (I n)) [pos + (done + c)..<pos + count]) dst"
      using copy_into_append[of "done" dst a "map (fbyte (blk t) (I n)) [pos + (done + c)..<pos + count]"] c less.prems
      by (simp add: a_def)
    also have "a @ map (fbyte (blk t) (I n)) [pos + (done + c)..<pos + count] =
        map (fbyte (blk t) (I n)) [pos + done..<pos + count]"
      unfolding a_def map_append[symmetric] using c upt_add_eq_append[of "pos + done" "pos + done + c" "count - done - c"]
      by (simp add: add.assoc)
    finally show ?thesis .
  qed
qed

text \<open>The bytes of a file between two positions.\<close>

definition fbytes :: "(u32 \<Rightarrow> u8 list) \<Rightarrow> aresfs_inode \<Rightarrow> nat \<Rightarrow> nat \<Rightarrow> u8 list" where
  "fbytes B ino lo hi = map (fbyte B ino) [lo..<hi]"

lemma file_read_body_run:
  assumes "lay bm (blk t) I U" and "n \<in> U" and "i_size (I n) \<le> 71680" and "count \<le> length dst"
  shows "run_state (file_read_body ideal (I n) pos dst count) t =
    (let k = min count (unat (i_size (I n)) - unat pos)
     in ((int k, copy_into 0 (fbytes (blk t) (I n) (unat pos) (unat pos + k)) dst), t))"
proof (cases "i_size (I n) \<le> pos")
  case True
  then have "unat (i_size (I n)) - unat pos = 0" by (simp add: word_le_nat_alt)
  then show ?thesis using True by (simp add: file_read_body_def fbytes_def)
next
  case False
  have s: "unat (i_size (I n)) \<le> 71680" using assms(3) by (simp add: word_le_nat_alt)
  have d: "unat (i_size (I n) - pos) = unat (i_size (I n)) - unat pos" using False by (simp add: unat_sub)
  define k where "k = min count (unat (i_size (I n)) - unat pos)"
  have k: "unat pos + k \<le> 71680" "k \<le> count" using s False by (auto simp: k_def word_le_nat_alt)
  have "to_int k = int k"
    using k by (simp add: to_int_def signed_of_nat) (simp add: signed_take_bit_int_eq_self)
  then show ?thesis
    using False file_read_loop_run[OF assms(1,2) k(1), of 0 dst] k assms(4)
    by (simp add: file_read_body_def d k_def[symmetric] fbytes_def)
qed

section \<open>Writing\<close>

text \<open>Overwriting a data block of file \<open>n\<close>.\<close>

lemma lay_put_data:
  assumes lay: "lay bm B I U" and n: "n \<in> U" and i: "i < 140" and ph: "fblock B (I n) i \<noteq> 0" and v: "length v = 512"
  defines "B' \<equiv> B(fblock B (I n) i := v)"
  shows "lay bm B' I U" and "m \<in> U \<Longrightarrow> ptr B' (I m) q = ptr B (I m) q"
    and "m \<in> U \<Longrightarrow> j < 71680 \<Longrightarrow>
      fbyte B' (I m) j = (if m = n \<and> j div 512 = i then v ! (j mod 512) else fbyte B (I m) j)"
    and "m \<in> U \<Longrightarrow> m \<noteq> n \<Longrightarrow> i' < 140 \<Longrightarrow> fblock B (I m) i' \<noteq> 0 \<Longrightarrow>
      B' (fblock B (I m) i') = B (fblock B (I m) i')"
proof -
  have pt: "ptr B' (I m) q = ptr B (I m) q" if "m \<in> U" for m q
  proof (rule ptr_cong)
    assume "indirect (I m) \<noteq> 0"
    then show "B' (indirect (I m)) = B (indirect (I m))"
      using lay_inj(2)[OF lay that n, of 12 "dpos i"] i by (auto simp: B'_def)
  qed
  have ne: "fblock B (I m) i' \<noteq> fblock B (I n) i" if "m \<in> U" "i' < 140" "fblock B (I m) i' \<noteq> 0" "m \<noteq> n \<or> i' \<noteq> i" for m i'
    using lay_inj[OF lay that(1) n, of "dpos i'" "dpos i"] that i by auto
  have "fblock B (I n) i \<noteq> 2" using layD(5)[OF lay n, of "dpos i"] i ph by auto
  then show "lay bm B' I U"
    using lay v unfolding lay_def by (simp add: pt cong: ball_cong) (simp add: B'_def)
  show "m \<in> U \<Longrightarrow> ptr B' (I m) q = ptr B (I m) q" by (rule pt)
  show "m \<in> U \<Longrightarrow> m \<noteq> n \<Longrightarrow> i' < 140 \<Longrightarrow> fblock B (I m) i' \<noteq> 0 \<Longrightarrow> B' (fblock B (I m) i') = B (fblock B (I m) i')"
    using ne by (simp add: B'_def)
  assume m: "m \<in> U" and j: "j < 71680"
  have "j div 512 < 140" using j by (simp add: less_mult_imp_div_less)
  then show "fbyte B' (I m) j = (if m = n \<and> j div 512 = i then v ! (j mod 512) else fbyte B (I m) j)"
    unfolding fbyte_def Let_def pt[OF m] using ne[OF m, of "j div 512"] ph by (auto simp: B'_def)
qed

text \<open>File \<open>n\<close> has become \<open>ino'\<close> and its bytes from \<open>pos + lo\<close> to \<open>pos + hi\<close> have been taken from \<open>src\<close>.\<close>

definition written ::
  "u32 set \<Rightarrow> (u32 \<Rightarrow> aresfs_inode) \<Rightarrow> u32 \<Rightarrow> nat \<Rightarrow> u8 list \<Rightarrow> nat \<Rightarrow> nat \<Rightarrow> sectors fs \<Rightarrow> aresfs_inode \<Rightarrow> sectors fs \<Rightarrow> bool" where
  "written U I n pos src lo hi t ino' t' \<longleftrightarrow>
     lay (g_block_bitmap t') (blk t') (I(n := ino')) U \<and> kept t t' \<and>
     (\<exists>d i. ino' = (I n)\<lparr>direct := d, indirect := i\<rparr>) \<and>
     (\<forall>m \<in> U. \<forall>j < 71680. fbyte (blk t') ((I(n := ino')) m) j =
        (if m = n \<and> pos + lo \<le> j \<and> j < pos + hi then src ! (j - pos) else fbyte (blk t) (I m) j)) \<and>
     (\<forall>m \<in> U. \<forall>i < 140. m \<noteq> n \<longrightarrow> fblock (blk t) (I m) i \<noteq> 0 \<longrightarrow>
        fblock (blk t') (I m) i = fblock (blk t) (I m) i \<and>
        blk t' (fblock (blk t) (I m) i) = blk t (fblock (blk t) (I m) i))"

lemma writtenD:
  assumes "written U I n pos src lo hi t ino' t'"
  shows "lay (g_block_bitmap t') (blk t') (I(n := ino')) U" and "kept t t'"
    and "\<exists>d i. ino' = (I n)\<lparr>direct := d, indirect := i\<rparr>"
    and "m \<in> U \<Longrightarrow> j < 71680 \<Longrightarrow> fbyte (blk t') ((I(n := ino')) m) j =
        (if m = n \<and> pos + lo \<le> j \<and> j < pos + hi then src ! (j - pos) else fbyte (blk t) (I m) j)"
    and "m \<in> U \<Longrightarrow> i < 140 \<Longrightarrow> m \<noteq> n \<Longrightarrow> fblock (blk t) (I m) i \<noteq> 0 \<Longrightarrow>
      fblock (blk t') (I m) i = fblock (blk t) (I m) i"
    and "m \<in> U \<Longrightarrow> i < 140 \<Longrightarrow> m \<noteq> n \<Longrightarrow> fblock (blk t) (I m) i \<noteq> 0 \<Longrightarrow>
      blk t' (fblock (blk t) (I m) i) = blk t (fblock (blk t) (I m) i)"
  using assms unfolding written_def by blast+

lemma grown_written:
  assumes g: "grown U I n t ino' t'"
  shows "written U I n pos src lo lo t ino' t'"
  unfolding written_def
proof (intro conjI ballI allI impI)
  fix m i assume m: "m \<in> U" "i < 140" "m \<noteq> n" "fblock (blk t) (I m) i \<noteq> 0"
  then show "fblock (blk t') (I m) i = fblock (blk t) (I m) i"
    using grownD(5)[OF g m(1,2,4)] by simp
  show "blk t' (fblock (blk t) (I m) i) = blk t (fblock (blk t) (I m) i)"
    using grownD(6)[OF g m(1,2,4)] .
qed (use grownD[OF g] in auto)

lemma written_trans:
  assumes a: "written U I n pos src lo mid t ino1 t1" and b: "written U (I(n := ino1)) n pos src mid hi t1 ino2 t2"
    and le: "lo \<le> mid" "mid \<le> hi"
  shows "written U I n pos src lo hi t ino2 t2"
  unfolding written_def
proof (intro conjI ballI allI impI)
  show "lay (g_block_bitmap t2) (blk t2) (I(n := ino2)) U" using writtenD(1)[OF b] by simp
  show "kept t t2" by (rule kept_trans[OF writtenD(2)[OF a] writtenD(2)[OF b]])
  show "\<exists>d i. ino2 = (I n)\<lparr>direct := d, indirect := i\<rparr>"
    using writtenD(3)[OF a] writtenD(3)[OF b] by auto (rule exI, rule exI, rule refl)
next
  fix m j assume "m \<in> U" "j < (71680 :: nat)"
  then show "fbyte (blk t2) ((I(n := ino2)) m) j =
      (if m = n \<and> pos + lo \<le> j \<and> j < pos + hi then src ! (j - pos) else fbyte (blk t) (I m) j)"
    using writtenD(4)[OF a, of m j] writtenD(4)[OF b, of m j] le by (simp only: fun_upd_upd) auto
next
  fix m i assume h: "m \<in> U" "i < 140" "m \<noteq> n" "fblock (blk t) (I m) i \<noteq> 0"
  note e = writtenD(5)[OF a h] writtenD(6)[OF a h]
  have "fblock (blk t1) ((I(n := ino1)) m) i \<noteq> 0" using e h by simp
  note f = writtenD(5)[OF b h(1,2,3) this] writtenD(6)[OF b h(1,2,3) this]
  show "fblock (blk t2) (I m) i = fblock (blk t) (I m) i"
    using e f h(3) by simp
  show "blk t2 (fblock (blk t) (I m) i) = blk t (fblock (blk t) (I m) i)"
    using e f h(3) by simp
qed

lemma written_block:
  assumes g: "grown U I n t ino1 t1" and n: "n \<in> U" and i: "(pos + lo) div 512 < 140"
    and ph: "fblock (blk t1) ino1 ((pos + lo) div 512) = ph" "ph \<noteq> 0"
    and c: "(pos + lo) mod 512 + c \<le> 512"
    and v: "length v = 512" "\<And>x. x < 512 \<Longrightarrow> v ! x =
      (if (pos + lo) mod 512 \<le> x \<and> x < (pos + lo) mod 512 + c then src ! (lo + x - (pos + lo) mod 512) else blk t1 ph ! x)"
  shows "written U I n pos src lo (lo + c) t ino1 (with_blk ((blk t1)(ph := v)) t1)"
proof -
  let ?I = "I(n := ino1)"
  note lay = grownD(1)[OF g]
  have ph': "fblock (blk t1) (?I n) ((pos + lo) div 512) = ph" using ph by simp
  note d = lay_put_data[OF lay n i _ v(1), unfolded ph', OF ph(2)]
  have b132: "132 \<le> ph" using layD(5)[OF lay n, of "dpos ((pos + lo) div 512)"] ph i by simp
  show ?thesis unfolding written_def
  proof (intro conjI ballI allI impI)
    show "lay (g_block_bitmap (with_blk ((blk t1)(ph := v)) t1)) (blk (with_blk ((blk t1)(ph := v)) t1)) ?I U"
      using d(1) by simp
    show "kept t (with_blk ((blk t1)(ph := v)) t1)"
      using b132 by (intro kept_trans[OF grownD(2)[OF g]]) (auto simp: kept_def)
    show "\<exists>d i. ino1 = (I n)\<lparr>direct := d, indirect := i\<rparr>" by (rule grownD(3)[OF g])
  next
    fix m j assume m: "m \<in> U" and j: "j < (71680 :: nat)"
    have o: "fbyte (blk t1) (?I n) j = blk t1 ph ! (j mod 512)" if "j div 512 = (pos + lo) div 512"
      using that ph by (simp add: fbyte_def)
    have "pos + lo \<le> j \<and> j < pos + (lo + c) \<longleftrightarrow> j div 512 = (pos + lo) div 512 \<and>
        (pos + lo) mod 512 \<le> j mod 512 \<and> j mod 512 < (pos + lo) mod 512 + c"
      using in_block_range[OF c, of j] by (simp add: add.assoc)
    moreover have "lo + j mod 512 - (pos + lo) mod 512 = j - pos" if "j div 512 = (pos + lo) div 512" "(pos + lo) mod 512 \<le> j mod 512"
      using that by (rule in_block_offset)
    ultimately show "fbyte (blk (with_blk ((blk t1)(ph := v)) t1)) (?I m) j =
        (if m = n \<and> pos + lo \<le> j \<and> j < pos + (lo + c) then src ! (j - pos) else fbyte (blk t) (I m) j)"
      using d(3)[OF m j] v(2)[of "j mod 512"] grownD(4)[OF g m j] o by auto
  next
    fix m i assume h: "m \<in> U" "i < 140" "m \<noteq> n" "fblock (blk t) (I m) i \<noteq> 0"
    have e: "fblock (blk t1) (I m) i = fblock (blk t) (I m) i" using grownD(5)[OF g h(1,2,4)] h(3) by simp
    show "fblock (blk (with_blk ((blk t1)(ph := v)) t1)) (I m) i = fblock (blk t) (I m) i"
      using d(2)[OF h(1), of "dpos i"] e h(3) by simp
    show "blk (with_blk ((blk t1)(ph := v)) t1) (fblock (blk t) (I m) i) = blk t (fblock (blk t) (I m) i)"
      using d(4)[OF h(1,3,2)] grownD(6)[OF g h(1,2,4)] e h(3,4) by simp
  qed
qed

lemma file_write_loop_run:
  assumes "lay (g_block_bitmap t) (blk t) I U" and n: "n \<in> U" and lim: "pos + count \<le> 71680"
    and "done \<le> count" and src: "count \<le> length src"
  obtains d ino' t' where "run_state (file_write_loop ideal (I n) pos src count done) t = ((True, d, ino'), t')"
    and "done \<le> d" and "d \<le> count" and "d < count \<longrightarrow> disk_full t'" and "written U I n pos src done d t ino' t'"
  using assms(1,4)
proof (induction "count - done" arbitrary: "done" t I thesis rule: less_induct)
  case less
  note lay = less.prems(2)
  show ?case
  proof (cases "done < count")
    case False
    then show ?thesis using less.prems(3) grown_written[OF grown_refl[OF lay, of n]]
      by (intro less.prems(1)[of "done" "I n" t]) (simp_all add: file_write_loop.simps)
  next
    case True
    define c where "c = chunk_at pos count done"
    let ?off = "(pos + done) mod 512"
    have c: "0 < c" "?off + c \<le> 512" "done + c \<le> count" unfolding c_def using True by auto
    have i: "(pos + done) div 512 < 140" using True lim by (simp add: less_mult_imp_div_less)
    obtain ph ino1 t1 where
      r: "run_state (inode_resolve_block ideal (I n) (of_nat ((pos + done) div 512)) True) t = ((ph, ino1), t1)"
      and g: "grown U I n t ino1 t1" and ph: "ph \<noteq> 0 \<longrightarrow> fblock (blk t1) ino1 ((pos + done) div 512) = ph"
      and full: "ph = 0 \<longrightarrow> disk_full t1"
      by (rule resolve_grows[OF lay n i])
    show ?thesis
    proof (cases "ph = 0")
      case z: True
      have "run_state (file_write_loop ideal (I n) pos src count done) t = ((True, done, ino1), t1)"
        using True r z by (subst file_write_loop.simps) (simp add: Let_def)
      then show ?thesis using full z less.prems(3) grown_written[OF g] by (intro less.prems(1)) auto
    next
      case False
      let ?I = "I(n := ino1)"
      have lt: "ph < 4096" and len: "length (blk t1 ph) = 512"
        using layD(6)[OF grownD(1)[OF g] n, of "dpos ((pos + done) div 512)"] layD(2)[OF grownD(1)[OF g], of ph] i ph False
        by auto
      define v where "v = copy_into ?off (seg done c src) (if c \<noteq> 512 then blk t1 ph else zero_block)"
      define t2 where "t2 = with_blk ((blk t1)(ph := v)) t1"
      have vl: "length v = 512" using c len src by (simp add: v_def)
      have w: "written U I n pos src done (done + c) t ino1 t2" unfolding t2_def
      proof (rule written_block[OF g n i _ False c(2)])
        show "length v = 512" by (rule vl)
        show "v ! x = (if ?off \<le> x \<and> x < ?off + c then src ! (done + x - ?off) else blk t1 ph ! x)" if "x < 512" for x
          using that c len src by (auto simp: v_def nth_copy_into)
      qed (use ph False in simp)
      have bw: "run_state (block_write ideal ph v) t1 = (ARES_OK, t2)" using lt vl by (simp add: t2_def put_blk_with)
      have run: "run_state (file_write_loop ideal (I n) pos src count done) t =
          run_state (file_write_loop ideal (?I n) pos src count (done + c)) t2"
        using True r False lt len bw[unfolded v_def]
        by (subst file_write_loop.simps) (cases "c = 512", simp_all add: Let_def c_def[symmetric])
      have less': "count - (done + c) < count - done" using c True by simp
      obtain d ino' t' where "run_state (file_write_loop ideal (?I n) pos src count (done + c)) t2 = ((True, d, ino'), t')"
        "done + c \<le> d" "d \<le> count" "d < count \<longrightarrow> disk_full t'" "written U ?I n pos src (done + c) d t2 ino' t'"
        by (rule less.hyps[OF less' _ writtenD(1)[OF w] c(3)])
      then show ?thesis using run written_trans[OF w, of d ino' t'] by (intro less.prems(1)[of d ino' t']) auto
    qed
  qed
qed

end
