(* ===== verification/Aresfs_Sim.thy ===== *)
theory Aresfs_Sim
  imports Aresfs
begin

text \<open>
  The file system over any driver that implements the ideal disk behaves as over the ideal disk: every
  operation returns the same result and leaves the same state, seen through the view of the driver. The
  proofs follow the program text, one rule per construct.
\<close>

section \<open>Simulation\<close>

definition on_view :: "('d \<Rightarrow> sectors) \<Rightarrow> 'd fs \<Rightarrow> sectors fs" where
  "on_view view s = \<lparr>disk = view (disk s), g_sb = g_sb s, g_block_bitmap = g_block_bitmap s,
     g_inode_bitmap = g_inode_bitmap s, g_mounted = g_mounted s, g_fds = g_fds s\<rparr>"

lemma on_view_simps [simp]:
  "disk (on_view view s) = view (disk s)" "g_sb (on_view view s) = g_sb s"
  "g_block_bitmap (on_view view s) = g_block_bitmap s" "g_inode_bitmap (on_view view s) = g_inode_bitmap s"
  "g_mounted (on_view view s) = g_mounted s" "g_fds (on_view view s) = g_fds s"
  "on_view view (s\<lparr>g_sb := a\<rparr>) = (on_view view s)\<lparr>g_sb := a\<rparr>"
  "on_view view (s\<lparr>g_block_bitmap := b\<rparr>) = (on_view view s)\<lparr>g_block_bitmap := b\<rparr>"
  "on_view view (s\<lparr>g_inode_bitmap := b\<rparr>) = (on_view view s)\<lparr>g_inode_bitmap := b\<rparr>"
  "on_view view (s\<lparr>g_mounted := m\<rparr>) = (on_view view s)\<lparr>g_mounted := m\<rparr>"
  "on_view view (s\<lparr>g_fds := f\<rparr>) = (on_view view s)\<lparr>g_fds := f\<rparr>"
  "on_view view (s\<lparr>disk := d\<rparr>) = (on_view view s)\<lparr>disk := view d\<rparr>"
  by (simp_all add: on_view_def)

definition simulates ::
  "('d \<Rightarrow> sectors) \<Rightarrow> ('d \<Rightarrow> bool) \<Rightarrow> ('d fs, 'a) state \<Rightarrow> (sectors fs, 'a) state \<Rightarrow> bool" where
  "simulates view ok f F \<longleftrightarrow>
     (\<forall>s. ok (disk s) \<longrightarrow> (case run_state f s of (r, s') \<Rightarrow>
        ok (disk s') \<and> run_state F (on_view view s) = (r, on_view view s')))"

named_theorems sim \<open>one rule per program construct\<close>

lemma sim_ret [sim]: "simulates view ok (ret x) (ret x)"
  by (simp add: simulates_def)

lemma sim_bind [sim]:
  fixes f :: "('d fs, 'a) state"
  assumes "simulates view ok f F" and "\<And>x. simulates view ok (g x) (G x)"
  shows "simulates view ok (f \<bind> g) (F \<bind> G)"
  unfolding simulates_def
proof (intro allI impI)
  fix s :: "'d fs" assume o: "ok (disk s)"
  obtain r s1 where f: "run_state f s = (r, s1)" by (cases "run_state f s")
  have 1: "ok (disk s1)" "run_state F (on_view view s) = (r, on_view view s1)"
    using assms(1)[unfolded simulates_def, rule_format, OF o] f by simp_all
  obtain q s2 where g: "run_state (g r) s1 = (q, s2)" by (cases "run_state (g r) s1")
  have 2: "ok (disk s2)" "run_state (G r) (on_view view s1) = (q, on_view view s2)"
    using assms(2)[of r, unfolded simulates_def, rule_format, OF 1(1)] g by simp_all
  show "case run_state (f \<bind> g) s of (r, s') \<Rightarrow>
      ok (disk s') \<and> run_state (F \<bind> G) (on_view view s) = (r, on_view view s')"
    using f g 1 2 by simp
qed

lemma sim_if [sim]:
  "(b \<Longrightarrow> simulates view ok f F) \<Longrightarrow> (\<not> b \<Longrightarrow> simulates view ok g G) \<Longrightarrow>
   simulates view ok (if b then f else g) (if b then F else G)"
  by simp

lemma sim_prod [sim]:
  "(\<And>a b. simulates view ok (f a b) (F a b)) \<Longrightarrow>
   simulates view ok (case p of (a, b) \<Rightarrow> f a b) (case p of (a, b) \<Rightarrow> F a b)"
  by (simp split: prod.splits)

lemma sim_option [sim]:
  "simulates view ok f F \<Longrightarrow> (\<And>a. simulates view ok (g a) (G a)) \<Longrightarrow>
   simulates view ok (case x of None \<Rightarrow> f | Some a \<Rightarrow> g a) (case x of None \<Rightarrow> F | Some a \<Rightarrow> G a)"
  by (simp split: option.splits)

lemma sim_let [sim]: "(\<And>x. simulates view ok (f x) (F x)) \<Longrightarrow> simulates view ok (Let a f) (Let a F)"
  by simp

lemma sim_gets [sim]: "(\<And>s. F (on_view view s) = f s) \<Longrightarrow> simulates view ok (gets f) (gets F)"
  by (simp add: simulates_def)

lemma sim_modify [sim]:
  "(\<And>s. on_view view (f s) = F (on_view view s)) \<Longrightarrow> (\<And>s. disk (f s) = disk s) \<Longrightarrow>
   simulates view ok (modify f) (modify F)"
  by (simp add: simulates_def)

lemma sim_unless_failed [sim]:
  "simulates view ok m M \<Longrightarrow> simulates view ok (unless_failed st m) (unless_failed st M)"
  by (simp add: unless_failed_def sim)

section \<open>The operations\<close>

lemma block_lba: "\<not> 4096 \<le> b \<Longrightarrow> (2048 + b :: u32) < 6144"
proof -
  assume "\<not> 4096 \<le> b"
  then have "unat b < 4096" by (simp add: word_le_nat_alt)
  then show ?thesis by (simp add: word_less_nat_alt unat_word_ariths)
qed

context disk_driver
begin

lemma sim_block_read [sim]: "simulates view ok (block_read k b buf) (block_read ideal b buf)"
proof (cases "4096 \<le> b")
  case False
  show ?thesis unfolding simulates_def
  proof (intro allI impI)
    fix s :: "'d fs"
    assume o: "ok (disk s)"
    obtain d' where "drv_read k (2048 + b) 1 buf (disk s) = ((0, copy_into 0 (view (disk s) (2048 + b)) buf), d')"
      "ok d'" "view d' = view (disk s)" using read_back[OF o block_lba[OF False]] by blast
    then show "case run_state (block_read k b buf) s of (r, s') \<Rightarrow>
        ok (disk s') \<and> run_state (block_read ideal b buf) (on_view view s) = (r, on_view view s')"
      using False whole[OF o block_lba[OF False]] by (simp add: block_read_def on_disk_def on_view_def)
  qed
qed (simp add: block_read_def sim)

lemma sim_block_write [sim]: "simulates view ok (block_write k b buf) (block_write ideal b buf)"
proof (cases "4096 \<le> b")
  case False
  show ?thesis unfolding simulates_def
  proof (intro allI impI)
    fix s :: "'d fs"
    assume o: "ok (disk s)"
    obtain d' where "drv_write k (2048 + b) 1 buf (disk s) = (0, d')" "ok d'"
      "view d' = (view (disk s))(2048 + b := sector buf)" using write_through[OF o block_lba[OF False]] by blast
    then show "case run_state (block_write k b buf) s of (r, s') \<Rightarrow>
        ok (disk s') \<and> run_state (block_write ideal b buf) (on_view view s) = (r, on_view view s')"
      using False by (simp add: block_write_def on_disk_def on_view_def)
  qed
qed (simp add: block_write_def sim)

lemma sim_alloc_block [sim]: "simulates view ok (alloc_block k) (alloc_block ideal)"
  unfolding alloc_block_def by (intro sim) auto

lemma sim_free_block [sim]: "simulates view ok (free_block k b) (free_block ideal b)"
  unfolding free_block_def by (intro sim) auto

lemma sim_alloc_inode [sim]: "simulates view ok (alloc_inode k) (alloc_inode ideal)"
  unfolding alloc_inode_def by (intro sim) auto

lemma sim_free_inode [sim]: "simulates view ok (free_inode k n) (free_inode ideal n)"
  unfolding free_inode_def by (intro sim) auto

lemma sim_inode_read [sim]: "simulates view ok (inode_read k n) (inode_read ideal n)"
  unfolding inode_read_def by (intro sim)

lemma sim_inode_write [sim]: "simulates view ok (inode_write k n ino) (inode_write ideal n ino)"
  unfolding inode_write_def by (intro sim)

lemma sim_resolve [sim]:
  "simulates view ok (inode_resolve_block k ino i create) (inode_resolve_block ideal ino i create)"
  unfolding inode_resolve_block_def resolve_direct_def load_indirect_def resolve_indirect_def by (intro sim)

lemma sim_free_blocks [sim]: "simulates view ok (free_blocks k bs) (free_blocks ideal bs)"
  by (induction bs) (simp_all add: sim)

lemma sim_truncate [sim]: "simulates view ok (inode_truncate k ino) (inode_truncate ideal ino)"
  unfolding inode_truncate_def by (intro sim)

lemma sim_walk_blocks [sim]: "simulates view ok (walk_blocks k m bs) (walk_blocks ideal m bs)"
proof (induction bs)
  case (Cons b bs)
  then show ?case by (simp only: walk_blocks.simps) (intro sim)
qed (simp add: sim)

lemma sim_dir_walk [sim]: "simulates view ok (dir_walk k n m) (dir_walk ideal n m)"
  unfolding dir_walk_def by (intro sim)

lemma sim_dir_find_entry [sim]: "simulates view ok (dir_find_entry k n nm) (dir_find_entry ideal n nm)"
  unfolding dir_find_entry_def by (intro sim)

lemma sim_dir_extend [sim]: "simulates view ok (dir_extend k n nm c dir) (dir_extend ideal n nm c dir)"
  unfolding dir_extend_def by (intro sim)

lemma sim_dir_add_entry [sim]: "simulates view ok (dir_add_entry k n nm c) (dir_add_entry ideal n nm c)"
  unfolding dir_add_entry_def by (intro sim)

lemma sim_dir_remove_entry [sim]: "simulates view ok (dir_remove_entry k n nm) (dir_remove_entry ideal n nm)"
  unfolding dir_remove_entry_def by (intro sim)

lemma sim_lookup_from [sim]: "simulates view ok (lookup_from k p c) (lookup_from ideal p c)"
proof (induction "length p" arbitrary: p c rule: less_induct)
  case less
  show ?case
  proof (cases "p = [] \<or> copy_name 0 p = None")
    case True
    then show ?thesis by (subst (1 2) lookup_from.simps) (auto simp: sim)
  next
    case False
    then obtain nm rest where c: "copy_name 0 p = Some (nm, rest)" "p \<noteq> []" by auto
    note IH = less[OF copy_name_shorter[OF c]]
    show ?thesis
      by (subst (1 2) lookup_from.simps) (simp only: c if_False option.case prod.case, intro sim IH)
  qed
qed

lemma sim_split_from [sim]: "simulates view ok (split_from k p c) (split_from ideal p c)"
proof (induction "length p" arbitrary: p c rule: less_induct)
  case less
  show ?case
  proof (cases "p = [] \<or> copy_name 0 p = None")
    case True
    then show ?thesis by (subst (1 2) split_from.simps) (auto simp: sim)
  next
    case False
    then obtain nm rest where c: "copy_name 0 p = Some (nm, rest)" "p \<noteq> []" by auto
    note IH = less[OF copy_name_shorter[OF c]]
    show ?thesis
      by (subst (1 2) split_from.simps) (simp only: c if_False option.case prod.case, intro sim IH)
  qed
qed

lemma sim_paths [sim]:
  "simulates view ok (lookup_path k path) (lookup_path ideal path)"
  "simulates view ok (split_parent_leaf k path) (split_parent_leaf ideal path)"
  unfolding lookup_path_def split_parent_leaf_def by (intro sim)+

lemma sim_file_read_loop [sim]:
  "simulates view ok (file_read_loop k ino pos count d dst) (file_read_loop ideal ino pos count d dst)"
proof (induction "count - d" arbitrary: ino d dst rule: less_induct)
  case less
  have IH: "d < count \<Longrightarrow> simulates view ok (file_read_loop k ino' pos count (d + chunk_at pos count d) dst')
      (file_read_loop ideal ino' pos count (d + chunk_at pos count d) dst')" for ino' dst'
    by (rule less) auto
  show ?case by (subst (1 2) file_read_loop.simps) (unfold Let_def, intro sim IH)
qed

lemma sim_file_write_loop [sim]:
  "simulates view ok (file_write_loop k ino pos src count d) (file_write_loop ideal ino pos src count d)"
proof (induction "count - d" arbitrary: ino d rule: less_induct)
  case less
  have IH: "d < count \<Longrightarrow> simulates view ok (file_write_loop k ino' pos src count (d + chunk_at pos count d))
      (file_write_loop ideal ino' pos src count (d + chunk_at pos count d))" for ino'
    by (rule less) auto
  show ?case by (subst (1 2) file_write_loop.simps) (unfold Let_def, intro sim IH)
qed

lemma sim_bodies [sim]:
  "simulates view ok (file_read_body k ino pos dst count) (file_read_body ideal ino pos dst count)"
  "simulates view ok (file_write_body k n ino pos src count) (file_write_body ideal n ino pos src count)"
  unfolding file_read_body_def file_write_body_def by (intro sim)+

lemma sim_write_all [sim]: "simulates view ok (write_all k bs buf) (write_all ideal bs buf)"
proof (induction bs)
  case (Cons b bs)
  then show ?case by (simp only: write_all.simps) (intro sim)
qed (simp add: sim)

lemma sim_present [sim]:
  assumes "simulates view ok m M"
  shows "simulates view ok (gets (\<lambda>s. drv_present k (disk s)) \<bind> (\<lambda>p. if \<not> p then n else m))
    (gets (\<lambda>s. drv_present ideal (disk s)) \<bind> (\<lambda>p. if \<not> p then N else M))"
  using assms present by (simp add: simulates_def)

lemma sim_mounting [sim]:
  "simulates view ok (aresfs_format k) (aresfs_format ideal)"
  "simulates view ok (aresfs_mount k) (aresfs_mount ideal)"
  "simulates view ok (aresfs_unmount k) (aresfs_unmount ideal)"
  unfolding aresfs_format_def aresfs_mount_def aresfs_unmount_def by (intro sim_present sim; simp)+

lemma sim_open [sim]:
  "simulates view ok (open_create k path flags) (open_create ideal path flags)"
  "simulates view ok (open_existing k n flags) (open_existing ideal n flags)"
  unfolding open_create_def open_existing_def by (intro sim)+

lemma sim_aresfs_open [sim]: "simulates view ok (aresfs_open k path flags) (aresfs_open ideal path flags)"
  unfolding aresfs_open_def by (intro sim) auto

lemma sim_aresfs_close [sim]: "simulates view ok (aresfs_close fd) (aresfs_close fd)"
  unfolding aresfs_close_def by (intro sim) auto

lemma on_view_set_fpos [simp]: "on_view view (set_fpos fd p s) = set_fpos fd p (on_view view s)" "disk (set_fpos fd p s) = disk s"
  by (simp_all add: set_fpos_def)

lemma sim_aresfs_read [sim]: "simulates view ok (aresfs_read k fd buf count) (aresfs_read ideal fd buf count)"
  unfolding aresfs_read_def by (intro sim) auto

lemma sim_aresfs_write [sim]: "simulates view ok (aresfs_write k fd buf count) (aresfs_write ideal fd buf count)"
  unfolding aresfs_write_def by (intro sim) auto

lemma sim_aresfs_mkdir [sim]: "simulates view ok (aresfs_mkdir k path) (aresfs_mkdir ideal path)"
  unfolding aresfs_mkdir_def by (intro sim) auto

lemma sim_list_blocks [sim]: "simulates view ok (list_blocks k bufsize bs pos buf) (list_blocks ideal bufsize bs pos buf)"
proof (induction bs arbitrary: pos buf)
  case (Cons b bs)
  show ?case by (simp only: list_blocks.simps) (intro sim Cons)
qed (simp add: sim)

lemma sim_aresfs_listdir [sim]:
  "simulates view ok (aresfs_listdir k path buf bufsize) (aresfs_listdir ideal path buf bufsize)"
  unfolding aresfs_listdir_def by (intro sim) auto

lemma sim_aresfs_stat [sim]: "simulates view ok (aresfs_stat k path) (aresfs_stat ideal path)"
  unfolding aresfs_stat_def by (intro sim) auto

text \<open>A run over the driver, from the run over the ideal disk.\<close>

lemma run_on_driver:
  assumes "simulates view ok f F" and "ok (disk s)" and "run_state F (on_view view s) = (r, t')"
  obtains s' where "run_state f s = (r, s')" and "ok (disk s')" and "on_view view s' = t'"
  using assms unfolding simulates_def by (cases "run_state f s") fastforce

end

end
