(* ===== verification/Aresfs_Inv.thy ===== *)
theory Aresfs_Inv
  imports Aresfs_File Aresfs_Sim
begin

text \<open>
  The invariant of a mounted file system and the refinement of files to byte arrays: reading and writing
  through descriptors behaves like reading and writing the list of bytes of the file, padded with zeros.
\<close>

section \<open>The invariant\<close>

definition used_inodes :: "sectors fs \<Rightarrow> u32 set" where
  "used_inodes t = {n. n < 512 \<and> bitmap_test (g_inode_bitmap t) n}"

abbreviation inode :: "sectors fs \<Rightarrow> u32 \<Rightarrow> aresfs_inode" where
  "inode t n \<equiv> itab (blk t) n"

definition is_file :: "aresfs_inode \<Rightarrow> bool" where
  "is_file ino \<longleftrightarrow> mode ino AND ARESFS_TYPE_MASK = ARESFS_TYPE_FILE"

definition is_dir :: "aresfs_inode \<Rightarrow> bool" where
  "is_dir ino \<longleftrightarrow> mode ino AND ARESFS_TYPE_MASK = ARESFS_TYPE_DIR"

lemma file_not_dir: "is_file ino \<Longrightarrow> \<not> is_dir ino"
  by (auto simp: is_file_def is_dir_def)

text \<open>The entries of a directory, as pairs of a name and an inode number.\<close>

definition dents_of_block :: "u8 list \<Rightarrow> (u8 list \<times> u32) list" where
  "dents_of_block b = map (\<lambda>s. (cstr (d_name (dirent_at b s)), d_inode (dirent_at b s)))
     (filter (\<lambda>s. d_inode (dirent_at b s) \<noteq> 0) [0..<8])"

definition dblock :: "(u32 \<Rightarrow> u8 list) \<Rightarrow> aresfs_inode \<Rightarrow> nat \<Rightarrow> u8 list" where
  "dblock B ino i = fbytes B ino (512 * i) (512 * i + 512)"

definition dents :: "(u32 \<Rightarrow> u8 list) \<Rightarrow> aresfs_inode \<Rightarrow> (u8 list \<times> u32) list" where
  "dents B ino = concat (map (\<lambda>i. dents_of_block (dblock B ino i)) [0..<12])"

text \<open>Files stay below the size limit and read as zeros beyond their end.\<close>

definition file_wf :: "(u32 \<Rightarrow> u8 list) \<Rightarrow> aresfs_inode \<Rightarrow> bool" where
  "file_wf B ino \<longleftrightarrow> i_size ino \<le> 71680 \<and> (\<forall>j < 71680. unat (i_size ino) \<le> j \<longrightarrow> fbyte B ino j = 0)"

text \<open>Directory entries name allocated inodes, by distinct names that fit their field.\<close>

definition dir_wf :: "u32 set \<Rightarrow> (u32 \<Rightarrow> u8 list) \<Rightarrow> aresfs_inode \<Rightarrow> bool" where
  "dir_wf U B ino \<longleftrightarrow> distinct (map fst (dents B ino)) \<and>
     (\<forall>(nm, n) \<in> set (dents B ino). length nm \<le> ARESFS_NAME_MAX \<and> n \<in> U)"

definition fds_wf :: "u32 set \<Rightarrow> (u32 \<Rightarrow> aresfs_inode) \<Rightarrow> fd_entry list \<Rightarrow> bool" where
  "fds_wf U I fds \<longleftrightarrow> length fds = 16 \<and> (\<forall>f \<in> set fds. used f \<longrightarrow> inode_num f \<in> U \<and> is_file (I (inode_num f)))"

definition sb_wf :: "aresfs_superblock \<Rightarrow> bool" where
  "sb_wf sb \<longleftrightarrow> magic sb = ARESFS_MAGIC \<and> version sb = ARESFS_VERSION \<and> block_size sb = 512 \<and>
     checksum sb = sb_checksum sb \<and> length (sb_pad sb) = 468"

definition fs_inv :: "sectors fs \<Rightarrow> bool" where
  "fs_inv t \<longleftrightarrow> g_mounted t \<and> sb_wf (g_sb t) \<and> blk t 1 = sb_bytes (g_sb t) \<and>
     blk t 3 = g_inode_bitmap t \<and> length (g_inode_bitmap t) = 512 \<and>
     lay (g_block_bitmap t) (blk t) (inode t) (used_inodes t) \<and>
     (\<forall>n \<in> used_inodes t. is_file (inode t n) \<longrightarrow> file_wf (blk t) (inode t n)) \<and>
     (\<forall>n \<in> used_inodes t. is_dir (inode t n) \<longrightarrow> dir_wf (used_inodes t) (blk t) (inode t n)) \<and>
     fds_wf (used_inodes t) (inode t) (g_fds t) \<and>
     0 \<in> used_inodes t \<and> 1 \<in> used_inodes t \<and> is_dir (inode t 1)"

lemma fs_invD:
  assumes "fs_inv t"
  shows "g_mounted t" and "sb_wf (g_sb t)" and "blk t 1 = sb_bytes (g_sb t)" and "blk t 3 = g_inode_bitmap t"
    and "length (g_inode_bitmap t) = 512" and "lay (g_block_bitmap t) (blk t) (inode t) (used_inodes t)"
    and "n \<in> used_inodes t \<Longrightarrow> is_file (inode t n) \<Longrightarrow> file_wf (blk t) (inode t n)"
    and "n \<in> used_inodes t \<Longrightarrow> is_dir (inode t n) \<Longrightarrow> dir_wf (used_inodes t) (blk t) (inode t n)"
    and "fds_wf (used_inodes t) (inode t) (g_fds t)" and "0 \<in> used_inodes t" and "1 \<in> used_inodes t"
    and "is_dir (inode t 1)"
  using assms unfolding fs_inv_def by blast+

lemma used_less: "n \<in> used_inodes t \<Longrightarrow> n < 512" "used_inodes t \<subseteq> {n. n < 512}"
  by (auto simp: used_inodes_def)

text \<open>The contents of a file.\<close>

definition contents :: "sectors fs \<Rightarrow> u32 \<Rightarrow> u8 list" where
  "contents t n = fbytes (blk t) (inode t n) 0 (unat (i_size (inode t n)))"

section \<open>Writing back an inode\<close>

lemma lay_cong: "(\<And>m. m \<in> U \<Longrightarrow> J m = I m) \<Longrightarrow> lay bm B J U \<longleftrightarrow> lay bm B I U"
  unfolding lay_def by (simp cong: ball_cong)

lemma ptr_size [simp]: "ptr B (ino\<lparr>i_size := z\<rparr>) p = ptr B ino p"
  by (simp add: ptr_def)

lemma fbyte_size [simp]: "fbyte B (ino\<lparr>i_size := z\<rparr>) j = fbyte B ino j"
  by (simp add: fbyte_def)

lemma lay_size: "lay bm B (I(n := ino)) U \<Longrightarrow> lay bm B (I(n := ino\<lparr>i_size := z\<rparr>)) U"
proof -
  have e: "ptr B ((I(n := ino\<lparr>i_size := z\<rparr>)) m) p = ptr B ((I(n := ino)) m) p"
    "wf_inode ((I(n := ino\<lparr>i_size := z\<rparr>)) m) = wf_inode ((I(n := ino)) m)" for m p
    by (auto simp: wf_inode_def)
  show "lay bm B (I(n := ino)) U \<Longrightarrow> ?thesis" unfolding lay_def e .
qed

lemma put_inode_other: "n < 512 \<Longrightarrow> b < 4 \<or> 132 \<le> b \<Longrightarrow> put_inode n ino B b = B b"
  using inode_block_bounds[of n] by (auto simp: put_inode_def)

lemma lay_commit:
  assumes lay: "lay bm B J U" and U': "U \<subseteq> {m. m < 512}" and n: "n \<in> U"
    and J: "\<forall>m \<in> U. m \<noteq> n \<longrightarrow> J m = itab B m"
  defines "B' \<equiv> put_inode n (J n) B"
  shows "lay bm B' (itab B') U" and "m \<in> U \<Longrightarrow> itab B' m = J m" and "m \<in> U \<Longrightarrow> ptr B' (J m) p = ptr B (J m) p"
    and "m \<in> U \<Longrightarrow> j < 71680 \<Longrightarrow> fbyte B' (J m) j = fbyte B (J m) j"
    and "b < 4 \<or> 132 \<le> b \<Longrightarrow> B' b = B b"
proof -
  have U: "m < 512" if "m \<in> U" for m using U' that by auto
  have nb: "(4 + n div 4 :: u32) < 4096" "length (B (4 + n div 4)) = 512"
    using inode_block_bounds[OF U[OF n]] layD(2)[OF lay, of "4 + n div 4"] by (auto simp: word_less_nat_alt word_le_nat_alt)
  have wf: "wf_inode (J n)" by (rule layD(4)[OF lay n])
  have i: "itab B' m = J m" if "m \<in> U" for m
    unfolding B'_def using itab_put[OF U[OF n] U[OF that] wf, of B] nb(2) J that by auto
  have same: "B' b = B b" if "b < 4 \<or> 132 \<le> b" for b
    unfolding B'_def by (rule put_inode_other[OF U[OF n] that])
  have p: "ptr B' (J m) p = ptr B (J m) p" if "m \<in> U" for m p
    by (rule ptr_cong, rule same) (use layD(5)[OF lay that, of 12] in simp)
  have len: "length (B' b) = 512" if "b < 4096" for b
    using layD(2)[OF lay that] wf nb unat_mod_4_le[of n] by (simp add: B'_def put_inode_def wf_inode_def)
  show "itab B' m = J m" if "m \<in> U" using i[OF that] .
  show "ptr B' (J m) p = ptr B (J m) p" if "m \<in> U" using p[OF that] .
  show "b < 4 \<or> 132 \<le> b \<Longrightarrow> B' b = B b" by (rule same)
  show "lay bm B' (itab B') U"
    using lay len unfolding lay_def by (simp add: i p same cong: ball_cong)
  assume m: "m \<in> U" and j: "j < 71680"
  have "dpos (j div 512) < 141" using j by (intro dpos_simps) (simp add: less_mult_imp_div_less)
  then show "fbyte B' (J m) j = fbyte B (J m) j"
    using layD(5)[OF lay m, of "dpos (j div 512)"] by (auto simp: fbyte_def Let_def p[OF m] same)
qed

lemma lay_inode_read:
  assumes "lay bm (blk t) I U" and "n < 512"
  shows "run_state (inode_read ideal n) t = ((ARES_OK, inode t n), t)"
  using inode_block_bounds[OF assms(2)]
  by (intro run_inode_read[OF assms(2)] layD(2)[OF assms(1)]) (auto simp: word_less_nat_alt)

lemma lay_inode_write:
  assumes "lay bm (blk t) I U" and "m \<in> U" and "n < 512" and "wf_inode (I m) \<Longrightarrow> wf_inode ino"
  shows "run_state (inode_write ideal n ino) t = (ARES_OK, with_blk (put_inode n ino (blk t)) t)"
  using inode_block_bounds[OF assms(3)] layD(4)[OF assms(1,2)] assms(4)
  by (intro run_inode_write[OF assms(3)] layD(2)[OF assms(1)]) (auto simp: word_less_nat_alt)

section \<open>Frames\<close>

lemma kept_inodes:
  assumes "kept t t'"
  shows "n < 512 \<Longrightarrow> inode t' n = inode t n" and "used_inodes t' = used_inodes t"
proof -
  show "used_inodes t' = used_inodes t" using assms by (simp add: kept_def used_inodes_def)
  assume n: "n < 512"
  define b where "b = 4 + n div 4"
  have "4 \<le> b" "b < 132" using inode_block_bounds[OF n] by (simp_all only: b_def)
  then have "blk t' b = blk t b" using assms by (auto simp: kept_def)
  then show "inode t' n = inode t n" by (simp add: itab_def b_def)
qed

lemma dblock_eq:
  assumes "fblock B ino i \<noteq> 0 \<Longrightarrow> length (B (fblock B ino i)) = 512"
  shows "dblock B ino i = (if fblock B ino i = 0 then zero_block else B (fblock B ino i))"
  using bytes_of_block[of "512 * i" 512 B ino] assms by (simp add: dblock_def fbytes_def)

lemma dents_cong:
  assumes "\<And>j. j < 71680 \<Longrightarrow> fbyte B' ino' j = fbyte B ino j"
  shows "dents B' ino' = dents B ino"
  unfolding dents_def dblock_def fbytes_def
  by (intro arg_cong[of _ _ concat] map_cong arg_cong[of _ _ dents_of_block] refl) (use assms in auto)

lemma direct_fblock: "i < 12 \<Longrightarrow> fblock B ino i = direct ino ! i"
  by (simp add: ptr_def dpos_def)

text \<open>Two states agree on all inodes but \<open>n\<close>.\<close>

definition others_kept :: "u32 \<Rightarrow> sectors fs \<Rightarrow> sectors fs \<Rightarrow> bool" where
  "others_kept n t t' \<longleftrightarrow> used_inodes t' = used_inodes t \<and>
     (\<forall>m \<in> used_inodes t. m \<noteq> n \<longrightarrow> inode t' m = inode t m \<and>
        (\<forall>j < 71680. fbyte (blk t') (inode t m) j = fbyte (blk t) (inode t m) j))"

definition write_at :: "nat \<Rightarrow> u8 list \<Rightarrow> u8 list \<Rightarrow> u8 list" where
  "write_at pos bs xs = take pos (xs @ replicate (pos - length xs) 0) @ bs @ drop (pos + length bs) xs"

lemma length_write_at: "length (write_at pos bs xs) = max (length xs) (pos + length bs)"
  by (auto simp: write_at_def)

lemma nth_write_at:
  "j < max (length xs) (pos + length bs) \<Longrightarrow> write_at pos bs xs ! j =
     (if pos \<le> j \<and> j < pos + length bs then bs ! (j - pos) else if j < length xs then xs ! j else 0)"
  by (auto simp: write_at_def nth_append min_def)

lemma length_contents [simp]: "length (contents t n) = unat (i_size (inode t n))"
  by (simp add: contents_def fbytes_def)

lemma nth_contents: "j < unat (i_size (inode t n)) \<Longrightarrow> contents t n ! j = fbyte (blk t) (inode t n) j"
  by (simp add: contents_def fbytes_def)

lemma contents_eqI:
  "i_size (inode t' n) = i_size (inode t n) \<Longrightarrow>
   (\<And>j. j < unat (i_size (inode t n)) \<Longrightarrow> fbyte (blk t') (inode t' n) j = fbyte (blk t) (inode t n) j) \<Longrightarrow>
   contents t' n = contents t n"
  by (simp add: contents_def fbytes_def)

section \<open>Storing a written file\<close>

lemma others_keptD:
  assumes "others_kept n t t'"
  shows "used_inodes t' = used_inodes t" and "m \<in> used_inodes t \<Longrightarrow> m \<noteq> n \<Longrightarrow> inode t' m = inode t m"
    and "m \<in> used_inodes t \<Longrightarrow> m \<noteq> n \<Longrightarrow> i_size (inode t m) \<le> 71680 \<Longrightarrow> contents t' m = contents t m"
    and "m \<in> used_inodes t \<Longrightarrow> m \<noteq> n \<Longrightarrow> dents (blk t') (inode t' m) = dents (blk t) (inode t m)"
proof -
  show "used_inodes t' = used_inodes t" "m \<in> used_inodes t \<Longrightarrow> m \<noteq> n \<Longrightarrow> inode t' m = inode t m"
    using assms by (auto simp: others_kept_def)
  assume m: "m \<in> used_inodes t" "m \<noteq> n"
  have i: "inode t' m = inode t m" and f: "j < 71680 \<Longrightarrow> fbyte (blk t') (inode t m) j = fbyte (blk t) (inode t m) j" for j
    using assms m by (auto simp: others_kept_def)
  show "dents (blk t') (inode t' m) = dents (blk t) (inode t m)" by (rule dents_cong) (simp add: i f)
  show "i_size (inode t m) \<le> 71680 \<Longrightarrow> contents t' m = contents t m"
    by (rule contents_eqI) (auto simp: i f word_le_nat_alt)
qed

text \<open>The state after file \<open>n\<close> was written and its inode stored with a new size.\<close>

lemma commit_written:
  fixes z :: u64
  assumes U: "U \<subseteq> {n. n < 512}" and n: "n \<in> U" and I: "\<forall>m \<in> U. m \<noteq> n \<longrightarrow> I m = inode t m"
    and w: "written U I n pos src 0 d t ino1 t1"
  defines "t' \<equiv> with_blk (put_inode n (ino1\<lparr>i_size := z\<rparr>) (blk t1)) t1"
  shows "used_inodes t' = used_inodes t" and "inode t' n = ino1\<lparr>i_size := z\<rparr>"
    and "m \<in> U \<Longrightarrow> m \<noteq> n \<Longrightarrow> inode t' m = I m"
    and "m \<in> U \<Longrightarrow> j < 71680 \<Longrightarrow> fbyte (blk t') (inode t' m) j =
      (if m = n \<and> pos \<le> j \<and> j < pos + d then src ! (j - pos) else fbyte (blk t) (I m) j)"
    and "lay (g_block_bitmap t') (blk t') (inode t') U"
    and "g_fds t' = g_fds t" and "g_block_bitmap t' = g_block_bitmap t1"
    and "g_mounted t' = g_mounted t" and "g_sb t' = g_sb t" and "g_inode_bitmap t' = g_inode_bitmap t"
    and "blk t' 1 = blk t 1" and "blk t' 3 = blk t 3"
proof -
  let ?J = "I(n := ino1\<lparr>i_size := z\<rparr>)" and ?B = "blk t'"
  note k = writtenD(2)[OF w]
  show "used_inodes t' = used_inodes t" using kept_inodes(2)[OF k] by (simp add: t'_def used_inodes_def)
  have lay: "lay (g_block_bitmap t1) (blk t1) ?J U" by (rule lay_size[OF writtenD(1)[OF w]])
  have J: "\<forall>m \<in> U. m \<noteq> n \<longrightarrow> ?J m = itab (blk t1) m" using kept_inodes(1)[OF k] I U by auto
  have B: "?B = put_inode n (?J n) (blk t1)" by (simp add: t'_def)
  note c = lay_commit[OF lay U n J, folded B]
  show "inode t' n = ino1\<lparr>i_size := z\<rparr>" using c(2)[OF n] by simp
  show "m \<in> U \<Longrightarrow> m \<noteq> n \<Longrightarrow> inode t' m = I m" using c(2)[of m] by simp
  show "fbyte ?B (inode t' m) j = (if m = n \<and> pos \<le> j \<and> j < pos + d then src ! (j - pos) else fbyte (blk t) (I m) j)"
    if "m \<in> U" "j < 71680"
    using c(4)[OF that] c(2)[OF that(1)] writtenD(4)[OF w that] by (cases "m = n") auto
  show "g_fds t' = g_fds t" "g_block_bitmap t' = g_block_bitmap t1" "g_mounted t' = g_mounted t" "g_sb t' = g_sb t"
    "g_inode_bitmap t' = g_inode_bitmap t"
    using k by (simp_all add: t'_def kept_def)
  show "blk t' 1 = blk t 1" "blk t' 3 = blk t 3" using c(5) k by (simp_all add: kept_def)
  show "lay (g_block_bitmap t') (blk t') (inode t') U" using c(1) by (simp add: t'_def)
qed

text \<open>How the invariant is re-established: inodes outside \<open>C\<close> are as before, those in \<open>C\<close> or new are well-formed.\<close>

lemma fs_inv_step:
  assumes inv: "fs_inv t"
    and base: "g_mounted t'" "g_sb t' = g_sb t" "blk t' 1 = blk t 1" "blk t' 3 = g_inode_bitmap t'"
      "length (g_inode_bitmap t') = 512"
    and lay: "lay (g_block_bitmap t') (blk t') (inode t') (used_inodes t')"
    and mono: "used_inodes t \<subseteq> used_inodes t'"
    and old: "\<And>m. m \<in> used_inodes t \<Longrightarrow> m \<notin> C \<Longrightarrow> inode t' m = inode t m"
      "\<And>m j. m \<in> used_inodes t \<Longrightarrow> m \<notin> C \<Longrightarrow> j < 71680 \<Longrightarrow>
         fbyte (blk t') (inode t m) j = fbyte (blk t) (inode t m) j"
    and new: "\<And>m. m \<in> used_inodes t' \<Longrightarrow> m \<in> C \<or> m \<notin> used_inodes t \<Longrightarrow> is_file (inode t' m) \<Longrightarrow> file_wf (blk t') (inode t' m)"
      "\<And>m. m \<in> used_inodes t' \<Longrightarrow> m \<in> C \<or> m \<notin> used_inodes t \<Longrightarrow> is_dir (inode t' m) \<Longrightarrow>
         dir_wf (used_inodes t') (blk t') (inode t' m)"
    and fds: "fds_wf (used_inodes t') (inode t') (g_fds t')" and root: "is_dir (inode t' 1)"
  shows "fs_inv t'"
proof -
  have f: "file_wf (blk t') (inode t' n)" if n: "n \<in> used_inodes t'" "is_file (inode t' n)" for n
  proof (cases "n \<in> C \<or> n \<notin> used_inodes t")
    case False
    then have n': "n \<in> used_inodes t" "n \<notin> C" by auto
    have "is_file (inode t n)" using n(2) old(1)[OF n'] by simp
    then show ?thesis using fs_invD(7)[OF inv n'(1)] old(2)[OF n'] old(1)[OF n'] by (simp add: file_wf_def)
  qed (use n new in auto)
  have d: "dir_wf (used_inodes t') (blk t') (inode t' n)" if n: "n \<in> used_inodes t'" "is_dir (inode t' n)" for n
  proof (cases "n \<in> C \<or> n \<notin> used_inodes t")
    case False
    then have n': "n \<in> used_inodes t" "n \<notin> C" by auto
    have "is_dir (inode t n)" using n(2) old(1)[OF n'] by simp
    then show ?thesis using fs_invD(8)[OF inv n'(1)] dents_cong[OF old(2)[OF n']] old(1)[OF n'] mono by (auto simp: dir_wf_def)
  qed (use n new in auto)
  show ?thesis unfolding fs_inv_def
    using base lay fds root f d mono fs_invD(2,3,10,11)[OF inv] by auto
qed

section \<open>Reads and writes through descriptors\<close>

lemma is_file_shape: "\<exists>d i. ino' = ino\<lparr>direct := d, indirect := i\<rparr> \<Longrightarrow> mode ino' = mode ino \<and> i_size ino' = i_size ino"
  by auto

lemma commit_inv:
  fixes z :: u64
  assumes inv: "fs_inv t" and n: "n \<in> used_inodes t" "is_file (inode t n)"
    and w: "written (used_inodes t) (inode t) n pos src 0 d t ino1 t1"
    and lim: "pos + d \<le> 71680" and z: "unat z = max (unat (i_size (inode t n))) (pos + d)" and d: "d \<le> length src"
  defines "t' \<equiv> with_blk (put_inode n (ino1\<lparr>i_size := z\<rparr>) (blk t1)) t1"
  shows "fs_inv t'" and "others_kept n t t'" and "contents t' n = write_at pos (take d src) (contents t n)"
    and "is_file (inode t' n)"
proof -
  note c = commit_written[OF used_less(2) n(1) _ w, where z = z, folded t'_def, simplified]
  note wf = fs_invD(7)[OF inv n, unfolded file_wf_def]
  have s: "unat (i_size (inode t n)) \<le> 71680" using wf by (simp add: word_le_nat_alt)
  have m: "mode (inode t' n) = mode (inode t n)" using c(2) is_file_shape[OF writtenD(3)[OF w]] by simp
  then show f: "is_file (inode t' n)" using n(2) by (simp add: is_file_def)
  have zs: "i_size (inode t' n) = z" using c(2) by simp
  have ff: "is_file (inode t' m)" if "m \<in> used_inodes t" "is_file (inode t m)" for m
    using that f c(3) by (cases "m = n") auto
  show "fs_inv t'"
  proof (rule fs_inv_step[OF inv, where C = "{n}"])
    fix m assume "m \<in> used_inodes t'" "m \<in> {n} \<or> m \<notin> used_inodes t"
    then have mn: "m = n" using c(1) by auto
    show "file_wf (blk t') (inode t' m)"
      using z zs s lim wf c(4)[OF n(1)] by (auto simp: mn file_wf_def word_le_nat_alt)
    assume "is_dir (inode t' m)"
    then show "dir_wf (used_inodes t') (blk t') (inode t' m)" using f file_not_dir mn by auto
  next
    show "fds_wf (used_inodes t') (inode t') (g_fds t')"
      using fs_invD(9)[OF inv] c(1,6) ff by (auto simp: fds_wf_def)
    show "is_dir (inode t' 1)"
      using c(3)[OF fs_invD(11)[OF inv]] fs_invD(12)[OF inv] n(2) file_not_dir by (cases "n = 1") auto
    fix m j assume m': "m \<in> used_inodes t" "m \<notin> {n}"
    { assume "j < (71680 :: nat)"
      then show "fbyte (blk t') (inode t m) j = fbyte (blk t) (inode t m) j" using c(3,4)[OF m'(1)] m'(2) by auto }
  qed (use c fs_invD[OF inv] in auto)
  have "fbyte (blk t') (inode t m) j = fbyte (blk t) (inode t m) j" if "m \<in> used_inodes t" "m \<noteq> n" "j < 71680" for m j
    using c(4)[OF that(1,3)] c(3)[OF that(1,2)] that(2) by simp
  then show "others_kept n t t'" using c(1,3) by (auto simp: others_kept_def)
  show "contents t' n = write_at pos (take d src) (contents t n)"
  proof (rule nth_equalityI)
    show l: "length (contents t' n) = length (write_at pos (take d src) (contents t n))"
      using zs z d by (simp add: length_write_at)
    fix j assume j: "j < length (contents t' n)"
    have "contents t' n ! j = fbyte (blk t') (inode t' n) j" using j by (simp add: nth_contents)
    also have "\<dots> = (if pos \<le> j \<and> j < pos + d then src ! (j - pos) else fbyte (blk t) (inode t n) j)"
      using c(4)[OF n(1), of j] j zs z s lim by simp
    also have "\<dots> = write_at pos (take d src) (contents t n) ! j"
      using j l d wf s lim zs z by (auto simp: nth_write_at length_write_at nth_contents)
    finally show "contents t' n ! j = write_at pos (take d src) (contents t n) ! j" .
  qed
qed

lemma to_int_small: "n \<le> 71680 \<Longrightarrow> to_int n = int n"
  by (simp add: to_int_def signed_of_nat) (simp add: signed_take_bit_int_eq_self)

lemma file_write_body_run:
  assumes inv: "fs_inv t" and n: "n \<in> used_inodes t" "is_file (inode t n)" and pos: "pos < 71680"
    and src: "count \<le> length src"
  obtains d ino' t' where "run_state (file_write_body ideal n (inode t n) pos src count) t = ((int d, ino'), t')"
    and "d \<le> min count (71680 - unat pos)" and "d < min count (71680 - unat pos) \<longrightarrow> disk_full t'"
    and "fs_inv t'" and "others_kept n t t'" and "contents t' n = write_at (unat pos) (take d src) (contents t n)"
    and "is_file (inode t' n)" and "g_fds t' = g_fds t"
proof -
  have p: "unat pos < 71680" using pos by (simp add: word_less_nat_alt)
  have mx: "unat (71680 - pos) = 71680 - unat pos" using pos by (simp add: unat_sub)
  let ?c = "min count (71680 - unat pos)"
  obtain d ino1 t1 where r: "run_state (file_write_loop ideal (inode t n) (unat pos) src ?c 0) t = ((True, d, ino1), t1)"
    and d: "d \<le> ?c" "d < ?c \<longrightarrow> disk_full t1" and w: "written (used_inodes t) (inode t) n (unat pos) src 0 d t ino1 t1"
    by (rule file_write_loop_run[OF fs_invD(6)[OF inv] n(1), of "unat pos" ?c 0 src]) (use p src in auto)
  define z where "z = (if pos + of_nat d > i_size ino1 then pos + of_nat d else i_size ino1)"
  define t' where "t' = with_blk (put_inode n (ino1\<lparr>i_size := z\<rparr>) (blk t1)) t1"
  have "unat (of_nat d :: u64) = d" using d p by (intro unat_of_nat_u64) auto
  then have e: "unat (pos + of_nat d) = unat pos + d" using d p by (subst unat_add_lem[THEN iffD1]) auto
  have z: "unat z = max (unat (i_size (inode t n))) (unat pos + d)"
    using e is_file_shape[OF writtenD(3)[OF w]] by (auto simp: z_def word_less_nat_alt)
  have ino: "(if i_size ino1 < pos + of_nat d then ino1\<lparr>i_size := pos + of_nat d\<rparr> else ino1) = ino1\<lparr>i_size := z\<rparr>"
    by (simp add: z_def)
  have lim: "unat pos + d \<le> 71680" and dl: "d \<le> length src" using d p src by auto
  have iw: "run_state (inode_write ideal n (ino1\<lparr>i_size := z\<rparr>)) t1 = (ARES_OK, t')" unfolding t'_def
    by (rule lay_inode_write[OF writtenD(1)[OF w] n(1) used_less(1)[OF n(1)]]) (simp add: wf_inode_def)
  have run: "run_state (file_write_body ideal n (inode t n) pos src count) t = ((int d, ino1\<lparr>i_size := z\<rparr>), t')"
    using pos r mx iw ino to_int_small[of d] lim
    by (simp add: file_write_body_def Let_def)
  note c = commit_inv[OF inv n w lim z dl, folded t'_def]
  note c' = commit_written[OF used_less(2) n(1) _ w, where z = z, folded t'_def, simplified]
  show thesis by (rule that[OF run d(1) _ c(1,2,3,4) c'(6)]) (use d c' in \<open>simp add: disk_full_def\<close>)
qed

text \<open>The position of a descriptor is not part of the invariant.\<close>

lemma set_fpos_keeps [simp]:
  "blk (set_fpos fd p t) = blk t" "g_block_bitmap (set_fpos fd p t) = g_block_bitmap t"
  "g_inode_bitmap (set_fpos fd p t) = g_inode_bitmap t" "g_sb (set_fpos fd p t) = g_sb t"
  "g_mounted (set_fpos fd p t) = g_mounted t" "used_inodes (set_fpos fd p t) = used_inodes t"
  "contents (set_fpos fd p t) = contents t" "disk_full (set_fpos fd p t) = disk_full t"
  by (simp_all add: set_fpos_def used_inodes_def contents_def fun_eq_iff disk_full_def)

lemma fds_wf_update:
  assumes "fds_wf U I fds" and "used f \<longrightarrow> inode_num f \<in> U \<and> is_file (I (inode_num f))"
  shows "fds_wf U I (fds[i := f])"
  using assms set_update_subset_insert[of fds i f] unfolding fds_wf_def by (metis (no_types) insertE length_list_update subsetD)

lemma fs_inv_set_fpos:
  assumes "fs_inv t" and "nat fd < 16"
  shows "fs_inv (set_fpos fd p t)"
proof -
  have l: "length (g_fds t) = 16" using fs_invD(9)[OF assms(1)] by (simp add: fds_wf_def)
  then have m: "g_fds t ! nat fd \<in> set (g_fds t)" using assms(2) by simp
  have "fds_wf (used_inodes t) (inode t) (g_fds (set_fpos fd p t))"
    by (simp add: set_fpos_def, rule fds_wf_update[OF fs_invD(9)[OF assms(1)]]) (use fs_invD(9)[OF assms(1)] m in \<open>simp add: fds_wf_def\<close>)
  then show ?thesis using fs_invD[OF assms(1)] unfolding fs_inv_def by simp
qed

lemma others_kept_fpos:
  "others_kept n (set_fpos fd p t) t' = others_kept n t t'" "others_kept n t (set_fpos fd p t') = others_kept n t t'"
  by (simp_all add: others_kept_def)

lemma set_fpos_id: "nat fd < length (g_fds t) \<Longrightarrow> set_fpos fd (fpos (g_fds t ! nat fd)) t = t"
  by (simp add: set_fpos_def)

lemma fd_facts:
  assumes "fs_inv t" and "0 \<le> fd" and "fd < 16" and "used (g_fds t ! nat fd)"
  shows "nat fd < 16" and "length (g_fds t) = 16" and "inode_num (g_fds t ! nat fd) \<in> used_inodes t"
    and "is_file (inode t (inode_num (g_fds t ! nat fd)))"
proof -
  show "nat fd < 16" "length (g_fds t) = 16" using fs_invD(9)[OF assms(1)] assms(2,3) by (auto simp: fds_wf_def)
  then have "g_fds t ! nat fd \<in> set (g_fds t)" by simp
  then show "inode_num (g_fds t ! nat fd) \<in> used_inodes t" "is_file (inode t (inode_num (g_fds t ! nat fd)))"
    using fs_invD(9)[OF assms(1)] assms(4) by (auto simp: fds_wf_def)
qed

lemma seg_fbytes: "m \<le> N - p \<Longrightarrow> seg p m (fbytes B ino 0 N) = fbytes B ino p (p + m)"
  by (cases "m = 0") (simp_all add: seg_def fbytes_def drop_map take_map take_upt)

lemma aresfs_read_run:
  assumes inv: "fs_inv t" and fd: "0 \<le> fd" "fd < 16" "used (g_fds t ! nat fd)" "fflags (g_fds t ! nat fd) AND 3 \<noteq> 1"
    and dst: "count \<le> length dst"
  defines "f \<equiv> g_fds t ! nat fd"
  defines "m \<equiv> min count (length (contents t (inode_num f)) - unat (fpos f))"
  shows "run_state (aresfs_read ideal fd (Some dst) count) t =
    ((int m, Some (copy_into 0 (seg (unat (fpos f)) m (contents t (inode_num f))) dst)), set_fpos fd (fpos f + of_nat m) t)"
proof -
  let ?n = "inode_num f"
  note F = fd_facts[OF inv fd(1-3), folded f_def]
  have s: "i_size (inode t ?n) \<le> 71680" using fs_invD(7)[OF inv F(3,4)] by (simp add: file_wf_def)
  have "seg (unat (fpos f)) m (contents t ?n) = fbytes (blk t) (inode t ?n) (unat (fpos f)) (unat (fpos f) + m)"
    unfolding contents_def by (rule seg_fbytes) (simp add: m_def)
  then have r: "run_state (file_read_body ideal (inode t ?n) (fpos f) dst count) t =
      ((int m, copy_into 0 (seg (unat (fpos f)) m (contents t ?n)) dst), t)"
    using file_read_body_run[OF fs_invD(6)[OF inv] F(3) s dst, of "fpos f"] by (simp add: m_def Let_def)
  show ?thesis
    using fd fs_invD(1)[OF inv] F lay_inode_read[OF fs_invD(6)[OF inv] used_less(1)[OF F(3)]] r set_fpos_id[of fd t]
    by (simp add: aresfs_read_def f_def[symmetric])
qed

lemma aresfs_write_run:
  assumes inv: "fs_inv t" and fd: "0 \<le> fd" "fd < 16" "used (g_fds t ! nat fd)" "fflags (g_fds t ! nat fd) AND 3 \<noteq> 0"
    and src: "count \<le> length src"
  defines "f \<equiv> g_fds t ! nat fd"
  defines "pos \<equiv> (if fflags f AND ARESFS_O_APPEND \<noteq> 0 then i_size (inode t (inode_num f)) else fpos f)"
  assumes pos: "pos < 71680"
  obtains d t' where "run_state (aresfs_write ideal fd (Some src) count) t = (int d, t')"
    and "d \<le> min count (71680 - unat pos)" and "d < min count (71680 - unat pos) \<longrightarrow> disk_full t'"
    and "fs_inv t'" and "others_kept (inode_num f) t t'"
    and "contents t' (inode_num f) = write_at (unat pos) (take d src) (contents t (inode_num f))"
    and "g_fds t' = (g_fds t)[nat fd := f\<lparr>fpos := pos + of_nat d\<rparr>]"
proof -
  let ?n = "inode_num f" and ?t0 = "set_fpos fd pos t"
  note F = fd_facts[OF inv fd(1-3), folded f_def]
  have inv0: "fs_inv ?t0" by (rule fs_inv_set_fpos[OF inv F(1)])
  have n0: "?n \<in> used_inodes ?t0" "is_file (inode ?t0 ?n)" using F by simp_all
  obtain d ino' t' where r: "run_state (file_write_body ideal ?n (inode ?t0 ?n) pos src count) ?t0 = ((int d, ino'), t')"
    and d: "d \<le> min count (71680 - unat pos)" "d < min count (71680 - unat pos) \<longrightarrow> disk_full t'"
    and t': "fs_inv t'" "others_kept ?n ?t0 t'" "contents t' ?n = write_at (unat pos) (take d src) (contents ?t0 ?n)"
      "is_file (inode t' ?n)" "g_fds t' = g_fds ?t0"
    by (rule file_write_body_run[OF inv0 n0 pos src])
  have t0: "fflags f AND ARESFS_O_APPEND = 0 \<Longrightarrow> ?t0 = t" using set_fpos_id[of fd t] F by (simp add: pos_def f_def)
  have g: "g_fds t' ! nat fd = f\<lparr>fpos := pos\<rparr>" using t'(5) F by (simp add: set_fpos_def f_def)
  have fp: "fpos (g_fds ?t0 ! nat fd) = pos" using F by (simp add: set_fpos_def)
  have "length (g_fds t') = 16" using t'(5) F by (simp add: set_fpos_def)
  then have sid: "set_fpos fd pos t' = t'" using set_fpos_id[of fd t'] g F(1) by simp
  have "run_state (aresfs_write ideal fd (Some src) count) t = (int d, set_fpos fd (pos + of_nat d) t')"
  proof (cases "fflags f AND ARESFS_O_APPEND = 0")
    case True
    then show ?thesis
      using fd fs_invD(1)[OF inv] F lay_inode_read[OF fs_invD(6)[OF inv] used_less(1)[OF F(3)]] r t0 fp sid
      by (auto simp: aresfs_write_def f_def[symmetric])
  next
    case False
    then have "i_size (inode t ?n) = pos" by (simp add: pos_def)
    then show ?thesis
      using False fd fs_invD(1)[OF inv] F lay_inode_read[OF fs_invD(6)[OF inv] used_less(1)[OF F(3)]] r fp sid
      by (auto simp: aresfs_write_def f_def[symmetric])
  qed
  then show thesis
  proof (rule that)
    show "g_fds (set_fpos fd (pos + of_nat d) t') = (g_fds t)[nat fd := f\<lparr>fpos := pos + of_nat d\<rparr>]"
      using g t'(5) F by (simp add: set_fpos_def f_def)
  qed (use d t' fs_inv_set_fpos F(1) in \<open>auto simp: others_kept_fpos\<close>)
qed

end
