(* ===== verification/Aresfs_Dir.thy ===== *)
theory Aresfs_Dir
  imports Aresfs_Inv
begin

text \<open>
  Directories as maps from names to inode numbers: \<open>dir_find_entry\<close> is a lookup in the list of entries,
  \<open>dir_add_entry\<close> inserts one entry, into a free slot or into a new block, and fails only when the
  directory or the disk is full.
\<close>

section \<open>Names\<close>

text \<open>A name that fits a directory entry.\<close>

definition name_ok :: "u8 list \<Rightarrow> bool" where
  "name_ok nm \<longleftrightarrow> 0 \<notin> set nm \<and> length nm \<le> ARESFS_NAME_MAX"

lemma uint_injD: "uint a = uint b \<Longrightarrow> a = b"
  by (rule word_uint_eqI)

lemma fs_strcmp_eq: "0 \<notin> set a \<Longrightarrow> 0 \<notin> set b \<Longrightarrow> fs_strcmp a b = 0 \<longleftrightarrow> a = b"
  by (induction a b rule: fs_strcmp.induct) (auto simp: uint_0_iff dest: uint_injD)

lemma zero_notin_cstr [simp]: "0 \<notin> set (cstr b)"
  by (auto simp: cstr_def dest: set_takeWhileD)

lemma cstr_append: "0 \<notin> set nm \<Longrightarrow> cstr (nm @ 0 # ys) = nm"
  by (induction nm) (auto simp: cstr_def)

lemma match_by_name_iff:
  "0 \<notin> set nm \<Longrightarrow> match_by_name nm de \<longleftrightarrow> d_inode de \<noteq> 0 \<and> cstr (d_name de) = nm"
  by (auto simp: match_by_name_def fs_strcmp_eq)

lemma dirent_set_name_simps [simp]:
  "d_inode (dirent_set_name de nm) = d_inode de" "length (d_name (dirent_set_name de nm)) = 56"
  by (simp_all add: dirent_set_name_def Let_def)

lemma cstr_set_name [simp]: "name_ok nm \<Longrightarrow> cstr (d_name (dirent_set_name de nm)) = nm"
proof -
  assume nm: "name_ok nm"
  then have "56 - length nm = Suc (55 - length nm)" by (auto simp: name_ok_def)
  with nm have "d_name (dirent_set_name de nm) = nm @ 0 # replicate (55 - length nm) 0"
    by (simp add: dirent_set_name_def name_ok_def copy_into_def Let_def min_def)
  then show ?thesis using nm by (simp add: cstr_append name_ok_def)
qed

lemma inode_block_ne: "n < 512 \<Longrightarrow> b < 4 \<or> 132 \<le> b \<Longrightarrow> (4 + n div 4 :: u32) \<noteq> b"
  using inode_block_bounds[of n] by auto

section \<open>Searching\<close>

primrec walk_in :: "(u32 \<Rightarrow> u8 list) \<Rightarrow> (aresfs_dirent \<Rightarrow> bool) \<Rightarrow> u32 list \<Rightarrow> (u32 \<times> nat \<times> aresfs_dirent) option" where
  "walk_in B m [] = None"
| "walk_in B m (p # ps) =
     (if p = 0 then walk_in B m ps
      else case find (\<lambda>s. m (dirent_at (B p) s)) [0..<8] of
             Some s \<Rightarrow> Some (p, s, dirent_at (B p) s)
           | None \<Rightarrow> walk_in B m ps)"

lemma run_walk_blocks:
  "\<forall>p \<in> set ps. p \<noteq> 0 \<longrightarrow> p < 4096 \<and> length (blk t p) = 512 \<Longrightarrow>
   run_state (walk_blocks ideal m ps) t = (walk_in (blk t) m ps, t)"
  by (induction ps) (auto split: option.split)

lemma direct_valid:
  assumes "lay bm B I U" and "n \<in> U" and "p \<in> set (direct (I n))" and "p \<noteq> 0"
  obtains i where "i < 12" and "direct (I n) ! i = p" and "fblock B (I n) i = p" and "132 \<le> p" and "p < 4096"
    and "length (B p) = 512"
proof -
  obtain i where i: "i < 12" "direct (I n) ! i = p"
    using assms(3) layD(4)[OF assms(1,2)] by (auto simp: in_set_conv_nth wf_inode_def)
  then have f: "fblock B (I n) i = p" by (simp add: direct_fblock)
  show thesis
    using i f assms(4) layD(5,6)[OF assms(1,2), of "dpos i"] layD(2)[OF assms(1), of p] by (intro that[of i]) auto
qed

lemma run_dir_walk:
  assumes inv: "fs_inv t" and n: "n \<in> used_inodes t"
  shows "run_state (dir_walk ideal n m) t =
    (if is_dir (inode t n) then walk_in (blk t) m (direct (inode t n)) else None, t)"
proof -
  have "\<forall>p \<in> set (direct (inode t n)). p \<noteq> 0 \<longrightarrow> p < 4096 \<and> length (blk t p) = 512"
    using direct_valid[OF fs_invD(6)[OF inv] n] by metis
  then show ?thesis
    using lay_inode_read[OF fs_invD(6)[OF inv] used_less(1)[OF n]]
    by (auto simp: dir_walk_def run_walk_blocks is_dir_def)
qed

text \<open>The entries of a directory, by its direct pointers.\<close>

lemma dents_of_zero [simp]: "dents_of_block zero_block = []"
  by (simp add: dents_of_block_def)

lemma dents_direct:
  assumes "lay bm B I U" and "n \<in> U"
  shows "dents B (I n) = concat (map (\<lambda>p. if p = 0 then [] else dents_of_block (B p)) (direct (I n)))"
proof -
  have "dblock B (I n) i = (if direct (I n) ! i = 0 then zero_block else B (direct (I n) ! i))" if "i < 12" for i
    using dblock_eq[of B "I n" i] layD(6)[OF assms, of "dpos i"] layD(2)[OF assms(1), of "direct (I n) ! i"] that
    by (auto simp: direct_fblock)
  then have "map (\<lambda>i. dents_of_block (dblock B (I n) i)) [0..<12] =
      map (\<lambda>i. if direct (I n) ! i = 0 then [] else dents_of_block (B (direct (I n) ! i))) [0..<12]"
    by simp
  also have "\<dots> = map (\<lambda>p. if p = 0 then [] else dents_of_block (B p)) (direct (I n))"
    using layD(4)[OF assms] by (intro nth_equalityI) (auto simp: wf_inode_def)
  finally show ?thesis by (simp add: dents_def)
qed

lemma map_of_filter:
  "map_of (map (\<lambda>s. (f s, g s)) (filter P xs)) k = map_option g (find (\<lambda>s. P s \<and> f s = k) xs)"
  by (induction xs) auto

lemma walk_in_name:
  assumes "0 \<notin> set nm"
  shows "map_option (\<lambda>(_, _, de). d_inode de) (walk_in B (match_by_name nm) ps) =
    map_of (concat (map (\<lambda>p. if p = 0 then [] else dents_of_block (B p)) ps)) nm"
proof (induction ps)
  case (Cons p ps)
  have "map_of (dents_of_block (B p)) nm =
      map_option (\<lambda>s. d_inode (dirent_at (B p) s)) (find (\<lambda>s. match_by_name nm (dirent_at (B p) s)) [0..<8])"
    by (simp add: dents_of_block_def map_of_filter match_by_name_iff[OF assms])
  then show ?case using Cons by (auto simp: map_add_def split: option.split)
qed simp

lemma dir_find_entry_run:
  assumes inv: "fs_inv t" and n: "n \<in> used_inodes t" and nm: "0 \<notin> set nm"
  shows "run_state (dir_find_entry ideal n nm) t =
    (if is_dir (inode t n) then (case map_of (dents (blk t) (inode t n)) nm of None \<Rightarrow> 0 | Some c \<Rightarrow> c) else 0, t)"
  using walk_in_name[OF nm, of "blk t" "direct (inode t n)"] dents_direct[OF fs_invD(6)[OF inv] n]
  by (auto simp: dir_find_entry_def run_dir_walk[OF inv n] split: option.splits)

lemma walk_in_empty:
  assumes "walk_in B match_empty_slot ps = Some (p, s, de)"
  shows "p \<in> set ps \<and> p \<noteq> 0 \<and> s < 8 \<and> d_inode (dirent_at (B p) s) = 0"
  using assms
proof (induction ps)
  case (Cons q ps)
  then show ?case
    by (auto split: if_splits option.splits simp: find_Some_iff match_empty_slot_def)
qed simp

section \<open>Inserting an entry\<close>

definition added :: "'a \<Rightarrow> 'a list \<Rightarrow> 'a list \<Rightarrow> bool" where
  "added e l l' \<longleftrightarrow> (\<exists>xs ys. l = xs @ ys \<and> l' = xs @ e # ys)"

lemma added_facts:
  assumes "added (nm, c) l l'"
  shows "set l' = insert (nm, c) (set l)"
    and "nm \<notin> fst ` set l \<Longrightarrow> distinct (map fst l) \<Longrightarrow> distinct (map fst l')"
    and "nm \<notin> fst ` set l \<Longrightarrow> map_of l' = (map_of l)(nm \<mapsto> c)"
proof -
  obtain xs ys where e: "l = xs @ ys" "l' = xs @ (nm, c) # ys" using assms by (auto simp: added_def)
  show "set l' = insert (nm, c) (set l)" using e by auto
  assume n: "nm \<notin> fst ` set l"
  show "distinct (map fst l) \<Longrightarrow> distinct (map fst l')" using n e by auto
  have "map_of xs nm = None" using n e by (auto simp: map_of_eq_None_iff)
  then show "map_of l' = (map_of l)(nm \<mapsto> c)" using e by (auto simp: fun_eq_iff map_add_def split: option.split)
qed

lemma added_append: "added e l l' \<Longrightarrow> added e (as @ l @ bs) (as @ l' @ bs)"
  unfolding added_def by (metis append.assoc append_Cons)

lemma added_concat:
  assumes "i < n" and "added e (f i) (f' i)" and "\<And>k. k < n \<Longrightarrow> k \<noteq> i \<Longrightarrow> f' k = f k"
  shows "added e (concat (map f [0..<n])) (concat (map f' [0..<n]))"
proof -
  have u: "[0..<n] = [0..<i] @ i # [Suc i..<n]" using assms(1)
    by (metis less_imp_le_nat upt_add_eq_append upt_conv_Cons le_add_diff_inverse zero_le)
  have "map f' [0..<i] = map f [0..<i]" "map f' [Suc i..<n] = map f [Suc i..<n]" using assms by auto
  then show ?thesis unfolding u map_append list.map concat_append concat.simps
    using added_append[OF assms(2)] by (simp only:)
qed

lemma added_block:
  assumes "length b = 512" and "s < 8" and "d_inode (dirent_at b s) = 0" and "d_inode de \<noteq> 0"
    and "length (d_name de) = 56"
  shows "added (cstr (d_name de), d_inode de) (dents_of_block b) (dents_of_block (set_dirent b s de))"
proof -
  let ?f = "\<lambda>b s. if d_inode (dirent_at b s) \<noteq> 0 then [(cstr (d_name (dirent_at b s)), d_inode (dirent_at b s))] else []"
  have e: "dents_of_block b = concat (map (?f b) [0..<8])" for b
    unfolding dents_of_block_def by (induction "[0..<8]" rule: rev_induct) (simp_all add: upt_rec)
  show ?thesis unfolding e
  proof (rule added_concat[OF assms(2)])
    show "added (cstr (d_name de), d_inode de) (?f b s) (?f (set_dirent b s de) s)"
      using assms by (simp add: dirent_at_set added_def)
    show "?f (set_dirent b s de) k = ?f b k" if "k < 8" "k \<noteq> s" for k
      using assms that by (simp add: dirent_at_set)
  qed
qed

lemma dents_written:
  assumes fb: "\<And>j. j < 71680 \<Longrightarrow> fbyte B' ino' j =
      (if 512 * i \<le> j \<and> j < 512 * i + 512 then v ! (j - 512 * i) else fbyte B ino j)"
    and i: "i < 12" and v: "length v = 512" and e: "added e (dents_of_block (dblock B ino i)) (dents_of_block v)"
  shows "added e (dents B ino) (dents B' ino')"
  unfolding dents_def
proof (rule added_concat[OF i])
  have "dblock B' ino' i = v"
    unfolding dblock_def fbytes_def using i v by (intro nth_equalityI) (auto simp: fb)
  then show "added e (dents_of_block (dblock B ino i)) (dents_of_block (dblock B' ino' i))" using e by simp
  fix k assume k: "k < 12" "k \<noteq> i"
  have "\<not> (512 * i \<le> j \<and> j < 512 * i + 512)" if "512 * k \<le> j" "j < 512 * k + 512" for j
    using k that by (cases "k < i") auto
  then show "dents_of_block (dblock B' ino' k) = dents_of_block (dblock B ino k)"
    unfolding dblock_def fbytes_def using k by (intro arg_cong[of _ _ dents_of_block] map_cong) (auto simp: fb)
qed

text \<open>A state in which only directory \<open>n\<close> has changed, by one new entry for an allocated inode.\<close>

lemma dir_changed:
  assumes inv: "fs_inv t" and n: "n \<in> used_inodes t" "is_dir (inode t n)" "is_dir (inode t' n)"
    and new: "added (nm, c) (dents (blk t) (inode t n)) (dents (blk t') (inode t' n))"
      "nm \<notin> fst ` set (dents (blk t) (inode t n))" "length nm \<le> 55" "c \<in> used_inodes t"
    and base: "g_mounted t' = g_mounted t" "g_sb t' = g_sb t" "g_inode_bitmap t' = g_inode_bitmap t" "g_fds t' = g_fds t"
      "blk t' 1 = blk t 1" "blk t' 3 = blk t 3"
    and lay: "lay (g_block_bitmap t') (blk t') (inode t') (used_inodes t)"
    and old: "\<And>m. m \<in> used_inodes t \<Longrightarrow> m \<noteq> n \<Longrightarrow> inode t' m = inode t m"
      "\<And>m j. m \<in> used_inodes t \<Longrightarrow> m \<noteq> n \<Longrightarrow> j < 71680 \<Longrightarrow> fbyte (blk t') (inode t m) j = fbyte (blk t) (inode t m) j"
  shows "fs_inv t'" and "others_kept n t t'"
proof -
  have U: "used_inodes t' = used_inodes t" using base by (simp add: used_inodes_def)
  show "others_kept n t t'" using U old by (auto simp: others_kept_def)
  have dw: "dir_wf (used_inodes t) (blk t') (inode t' n)"
    using fs_invD(8)[OF inv n(1,2)] added_facts(1)[OF new(1)] added_facts(2)[OF new(1,2)] new(3,4)
    by (auto simp: dir_wf_def)
  have ff: "is_file (inode t' m)" if "m \<in> used_inodes t" "is_file (inode t m)" for m
    using that old(1)[of m] n(2) file_not_dir by (cases "m = n") auto
  show "fs_inv t'"
  proof (rule fs_inv_step[OF inv, where C = "{n}"])
    show "is_dir (inode t' 1)" using fs_invD(11,12)[OF inv] old(1)[of 1] n(3) by (cases "n = 1") auto
    show "fds_wf (used_inodes t') (inode t') (g_fds t')"
      using fs_invD(9)[OF inv] U base(4) ff by (auto simp: fds_wf_def)
  next
    fix m assume "m \<in> used_inodes t'" "m \<in> {n} \<or> m \<notin> used_inodes t"
    then have m: "m = n" using U by auto
    { assume "is_file (inode t' m)"
      then show "file_wf (blk t') (inode t' m)" using m n(3) file_not_dir by auto }
    show "dir_wf (used_inodes t') (blk t') (inode t' m)" using dw U m by simp
  qed (use base lay U old fs_invD[OF inv] in auto)
qed

lemma dir_slot:
  assumes inv: "fs_inv t" and n: "n \<in> used_inodes t" "is_dir (inode t n)"
    and p: "p \<in> set (direct (inode t n))" "p \<noteq> 0" and s: "s < 8" "d_inode (dirent_at (blk t p) s) = 0"
    and c: "c \<in> used_inodes t" "c \<noteq> 0" and nm: "name_ok nm" "nm \<notin> fst ` set (dents (blk t) (inode t n))"
  defines "v \<equiv> set_dirent (blk t p) s (dirent_set_name ((dirent_at (blk t p) s)\<lparr>d_inode := c\<rparr>) nm)"
  defines "t' \<equiv> with_blk ((blk t)(p := v)) t"
  shows "fs_inv t'" and "others_kept n t t'" and "inode t' n = inode t n" and "length v = 512"
    and "added (nm, c) (dents (blk t) (inode t n)) (dents (blk t') (inode t' n))"
proof -
  note lay = fs_invD(6)[OF inv]
  obtain i where i: "i < 12" "direct (inode t n) ! i = p" "fblock (blk t) (inode t n) i = p" "132 \<le> p" "p < 4096"
    "length (blk t p) = 512" by (rule direct_valid[OF lay n(1) p])
  show v: "length v = 512" using i s by (simp add: v_def)
  have w: "written (used_inodes t) (inode t) n (512 * i) v 0 (0 + 512) t (inode t n) t'" unfolding t'_def
    by (rule written_block[OF grown_refl[OF lay] n(1)]) (use i p(2) v in auto)
  have k: "kept t t'" by (rule writtenD(2)[OF w])
  have I: "m \<in> used_inodes t \<Longrightarrow> inode t' m = inode t m" for m using kept_inodes(1)[OF k] used_less(1) by blast
  then show e: "inode t' n = inode t n" using n(1) .
  have fb: "fbyte (blk t') (inode t m) j = (if m = n \<and> 512 * i \<le> j \<and> j < 512 * i + 512 then v ! (j - 512 * i)
      else fbyte (blk t) (inode t m) j)" if "m \<in> used_inodes t" "j < 71680" for m j
    using writtenD(4)[OF w that] by (cases "m = n") simp_all
  have "added (nm, c) (dents_of_block (blk t p)) (dents_of_block v)"
    using added_block[OF i(6) s, of "dirent_set_name ((dirent_at (blk t p) s)\<lparr>d_inode := c\<rparr>) nm"] c nm by (simp add: v_def)
  moreover have "dblock (blk t) (inode t n) i = blk t p" using dblock_eq[of "blk t" "inode t n" i] i p by simp
  ultimately show a: "added (nm, c) (dents (blk t) (inode t n)) (dents (blk t') (inode t' n))"
    by (intro dents_written[OF _ i(1) v]) (simp_all add: e fb[OF n(1)])
  have "lay (g_block_bitmap t') (blk t') (inode t') (used_inodes t)"
    using writtenD(1)[OF w] I lay_cong[of "used_inodes t" "inode t'" "inode t"] by simp
  note d = dir_changed[OF inv n _ a nm(2) _ c(1) _ _ _ _ _ _ this]
  show "fs_inv t'" "others_kept n t t'"
    using n(2) e k nm(1) I fb by (auto intro!: d simp: kept_def name_ok_def)
qed

lemma dir_new_block:
  assumes inv: "fs_inv t" and n: "n \<in> used_inodes t" "is_dir (inode t n)"
    and i: "i < 12" "direct (inode t n) ! i = 0"
    and b: "132 \<le> b" "b < 4096" "b \<noteq> 2" "\<not> bitmap_test (g_block_bitmap t) b"
    and c: "c \<in> used_inodes t" "c \<noteq> 0" and nm: "name_ok nm" "nm \<notin> fst ` set (dents (blk t) (inode t n))"
  defines "v \<equiv> set_dirent zero_block 0 (dirent_set_name ((dirent_at zero_block 0)\<lparr>d_inode := c\<rparr>) nm)"
  defines "ino' \<equiv> (inode t n)\<lparr>direct := (direct (inode t n))[i := b], i_size := i_size (inode t n) + 512\<rparr>"
  defines "t' \<equiv> with_blk (put_inode n ino' ((blk t)(2 := bitmap_set (g_block_bitmap t) b, b := v)))
      (t\<lparr>g_block_bitmap := bitmap_set (g_block_bitmap t) b\<rparr>)"
  shows "fs_inv t'" and "others_kept n t t'" and "is_dir (inode t' n)" and "length v = 512"
    and "added (nm, c) (dents (blk t) (inode t n)) (dents (blk t') (inode t' n))" and "wf_inode ino'"
proof -
  note lay = fs_invD(6)[OF inv]
  let ?U = "used_inodes t"
  note g = grown_direct[OF lay n(1) i b]
  have wf: "wf_inode (inode t n)" by (rule layD(4)[OF lay n(1)])
  then show "wf_inode ino'" by (simp add: ino'_def wf_inode_def)
  show v: "length v = 512" by (simp add: v_def)
  have b0: "b \<noteq> 0" using b(1) by auto
  have w: "written ?U (inode t) n (512 * i) v 0 (0 + 512) t ((inode t n)\<lparr>direct := (direct (inode t n))[i := b]\<rparr>)
      (with_blk ((blk t)(2 := bitmap_set (g_block_bitmap t) b, b := v)) (t\<lparr>g_block_bitmap := bitmap_set (g_block_bitmap t) b\<rparr>))"
    using written_block[OF g(1) n(1), of "512 * i" 0 b 512 v v] g(2) i b b0 v by auto
  have c': "t' = with_blk (put_inode n (((inode t n)\<lparr>direct := (direct (inode t n))[i := b]\<rparr>)\<lparr>i_size := i_size (inode t n) + 512\<rparr>)
      (blk (with_blk ((blk t)(2 := bitmap_set (g_block_bitmap t) b, b := v)) (t\<lparr>g_block_bitmap := bitmap_set (g_block_bitmap t) b\<rparr>))))
      (with_blk ((blk t)(2 := bitmap_set (g_block_bitmap t) b, b := v)) (t\<lparr>g_block_bitmap := bitmap_set (g_block_bitmap t) b\<rparr>))"
    by (simp add: t'_def ino'_def)
  have I: "\<forall>m \<in> ?U. m \<noteq> n \<longrightarrow> inode t m = inode t m" by simp
  note cm = commit_written[OF used_less(2) n(1) I w, where z = "i_size (inode t n) + 512", folded c']
  show d: "is_dir (inode t' n)" using n(2) cm(2) by (simp add: is_dir_def)
  have "added (nm, c) (dents_of_block zero_block) (dents_of_block v)"
    using added_block[of zero_block 0 "dirent_set_name ((dirent_at zero_block 0)\<lparr>d_inode := c\<rparr>) nm"] c nm by (simp add: v_def)
  moreover have "dblock (blk t) (inode t n) i = zero_block"
    using dblock_eq[of "blk t" "inode t n" i] i by (simp add: direct_fblock)
  ultimately show a: "added (nm, c) (dents (blk t) (inode t n)) (dents (blk t') (inode t' n))"
    by (intro dents_written[OF _ i(1) v]) (simp_all add: cm(4)[OF n(1)])
  have fb: "fbyte (blk t') (inode t m) j = fbyte (blk t) (inode t m) j" if "m \<in> ?U" "m \<noteq> n" "j < 71680" for m j
    using cm(4)[OF that(1,3)] cm(3)[OF that(1,2)] that(2) by simp
  show "fs_inv t'" "others_kept n t t'"
    using dir_changed[OF inv n d a nm(2) _ c(1) cm(8,9,10,6,11,12,5)] cm(3) fb nm(1) by (auto simp: name_ok_def)
qed

text \<open>What a state keeps besides its inodes and blocks.\<close>

definition same_tables :: "sectors fs \<Rightarrow> sectors fs \<Rightarrow> bool" where
  "same_tables t t' \<longleftrightarrow> g_fds t' = g_fds t \<and> g_inode_bitmap t' = g_inode_bitmap t \<and> g_sb t' = g_sb t \<and>
     g_mounted t' = g_mounted t"

text \<open>A directory without an empty slot in any of its twelve blocks has 96 entries.\<close>

lemma walk_in_no_slot:
  assumes "walk_in B match_empty_slot ps = None" and "\<forall>p \<in> set ps. p \<noteq> 0"
  shows "length (concat (map (\<lambda>p. if p = 0 then [] else dents_of_block (B p)) ps)) = 8 * length ps"
  using assms
proof (induction ps)
  case (Cons p ps)
  then have "\<forall>s < 8. d_inode (dirent_at (B p) s) \<noteq> 0"
    by (auto split: option.splits simp: find_None_iff match_empty_slot_def simp del: upt_rec_numeral)
  then have "length (dents_of_block (B p)) = 8"
    by (simp add: dents_of_block_def del: upt_rec_numeral cong: filter_cong)
  then show ?case using Cons by (auto split: option.splits if_splits)
qed simp

lemma dir_add_entry_run:
  assumes inv: "fs_inv t" and n: "n \<in> used_inodes t" "is_dir (inode t n)" and c: "c \<in> used_inodes t" "c \<noteq> 0"
    and nm: "name_ok nm" "map_of (dents (blk t) (inode t n)) nm = None"
  obtains (added) t' where "run_state (dir_add_entry ideal n nm c) t = (ARES_OK, t')" and "fs_inv t'"
    and "others_kept n t t'" and "is_dir (inode t' n)" and "same_tables t t'"
    and "added (nm, c) (dents (blk t) (inode t n)) (dents (blk t') (inode t' n))"
  | (full) "run_state (dir_add_entry ideal n nm c) t = (ARES_ENOMEM, t)"
    and "length (dents (blk t) (inode t n)) = 96 \<or> disk_full t"
proof -
  note lay = fs_invD(6)[OF inv]
  have nf: "nm \<notin> fst ` set (dents (blk t) (inode t n))" using nm(2) by (simp add: map_of_eq_None_iff)
  have find: "run_state (dir_find_entry ideal n nm) t = (0, t)"
    using dir_find_entry_run[OF inv n(1)] nm n(2) by (simp add: name_ok_def)
  have rd: "run_state (inode_read ideal n) t = ((ARES_OK, inode t n), t)"
    by (rule lay_inode_read[OF lay used_less(1)[OF n(1)]])
  have dm: "mode (inode t n) AND 0xF000 = 0x4000" using n(2) by (simp add: is_dir_def)
  show thesis
  proof (cases "walk_in (blk t) match_empty_slot (direct (inode t n))")
    case (Some r)
    then obtain p s de where r: "r = (p, s, de)" and e: "walk_in (blk t) match_empty_slot (direct (inode t n)) = Some (p, s, de)"
      by (cases r) auto
    have w: "p \<in> set (direct (inode t n))" "p \<noteq> 0" "s < 8" "d_inode (dirent_at (blk t p) s) = 0"
      using walk_in_empty[OF e] by auto
    note sl = dir_slot[OF inv n w c nm(1) nf]
    obtain "p < 4096" "length (blk t p) = 512" by (rule direct_valid[OF lay n(1) w(1,2)])
    then have "run_state (dir_add_entry ideal n nm c) t = (ARES_OK, with_blk ((blk t)(p :=
        set_dirent (blk t p) s (dirent_set_name ((dirent_at (blk t p) s)\<lparr>d_inode := c\<rparr>) nm))) t)"
      using e sl(4) by (simp add: dir_add_entry_def find rd dm run_dir_walk[OF inv n(1)] n(2) put_blk_with)
    then show thesis by (rule added) (use sl n(2) in \<open>auto simp: same_tables_def\<close>)
  next
    case None
    have "run_state (dir_add_entry ideal n nm c) t = run_state (dir_extend ideal n nm c (inode t n)) t"
      using None by (simp add: dir_add_entry_def find rd dm run_dir_walk[OF inv n(1)] n(2))
    moreover have "find (\<lambda>i. direct (inode t n) ! i = 0) [0..<12] = None \<Longrightarrow>
        run_state (dir_extend ideal n nm c (inode t n)) t = (ARES_ENOMEM, t)" by (simp add: dir_extend_def)
    moreover have "length (dents (blk t) (inode t n)) = 96" if f: "find (\<lambda>i. direct (inode t n) ! i = 0) [0..<12] = None"
    proof -
      have l: "length (direct (inode t n)) = 12" using layD(4)[OF lay n(1)] by (simp add: wf_inode_def)
      have "\<forall>p \<in> set (direct (inode t n)). p \<noteq> 0"
        using f l by (auto simp: find_None_iff in_set_conv_nth simp del: upt_rec_numeral)
      then show ?thesis using walk_in_no_slot[OF None] l dents_direct[OF lay n(1)] by simp
    qed
    moreover have thesis if f: "find (\<lambda>i. direct (inode t n) ! i = 0) [0..<12] = Some i"
      and r: "run_state (dir_add_entry ideal n nm c) t = run_state (dir_extend ideal n nm c (inode t n)) t" for i
    proof (cases rule: lay_alloc_cases[OF lay])
      case 1
      then show thesis using f r by (intro full) (simp_all add: dir_extend_def)
    next
      case (2 b)
      have i: "i < 12" "direct (inode t n) ! i = 0" using f by (auto simp: find_Some_iff)
      note nb = dir_new_block[OF inv n i 2(2,3,5,6) c nm(1) nf]
      have ib: "(4 + n div 4 :: u32) \<noteq> b" "(4 + n div 4 :: u32) \<noteq> 2" "length (blk t (4 + n div 4)) = 512"
        using inode_block_ne[OF used_less(1)[OF n(1)], of b] inode_block_ne[OF used_less(1)[OF n(1)], of 2] 2(2)
          inode_block_bounds[OF used_less(1)[OF n(1)]] layD(2)[OF lay, of "4 + n div 4"]
        by (auto simp: word_less_nat_alt)
      show thesis
        by (rule added[OF _ nb(1,2,3) _ nb(5)])
          (use 2 f r nb(4,6) ib run_inode_write[OF used_less(1)[OF n(1)] _ nb(6)] in
            \<open>simp_all add: dir_extend_def put_blk_with same_tables_def\<close>)
    qed
    ultimately show thesis using full by (cases "find (\<lambda>i. direct (inode t n) ! i = 0) [0..<12]") auto
  qed
qed

end
