(* ===== verification/Aresfs_Path.thy ===== *)
theory Aresfs_Path
  imports Aresfs_Dir
begin

text \<open>
  Path resolution. A path is a list of components separated by slashes; \<open>lookup_path\<close> follows them from the
  root through the directory maps, and \<open>split_parent_leaf\<close> returns the directory that holds the last one.
\<close>

section \<open>Components\<close>

fun splits :: "u8 list \<Rightarrow> u8 list list" where
  "splits [] = [[]]"
| "splits (c # cs) =
     (if c = SLASH then [] # splits cs else case splits cs of x # xs \<Rightarrow> (c # x) # xs | [] \<Rightarrow> [[c]])"

definition components :: "u8 list \<Rightarrow> u8 list list" where
  "components p = filter (\<lambda>c. c \<noteq> []) (splits p)"

lemma splits_nonempty [simp]: "splits p \<noteq> []"
  by (induction p) (auto split: list.split)

lemma components_skip: "components (skip_slashes p) = components p"
  by (induction p) (auto simp: components_def skip_slashes_def)

lemma components_Nil [simp]: "components [] = []"
  by (simp add: components_def)

abbreviation first_comp :: "u8 list \<Rightarrow> u8 list" where
  "first_comp p \<equiv> takeWhile (\<lambda>c. c \<noteq> SLASH) p"

abbreviation after_comp :: "u8 list \<Rightarrow> u8 list" where
  "after_comp p \<equiv> dropWhile (\<lambda>c. c \<noteq> SLASH) p"

lemma splits_first: "splits p = first_comp p # (if after_comp p = [] then [] else splits (tl (after_comp p)))"
  by (induction p) auto

lemma components_first:
  assumes "p \<noteq> []" and "hd p \<noteq> SLASH"
  shows "components p = first_comp p # components (skip_slashes (after_comp p))"
proof -
  have "first_comp p \<noteq> []" using assms by (cases p) auto
  moreover have "components (after_comp p) = (if after_comp p = [] then [] else components (tl (after_comp p)))"
  proof (cases "after_comp p")
    case (Cons c cs)
    then have "c = SLASH" using hd_dropWhile[of "\<lambda>c. c \<noteq> SLASH" p] by auto
    then show ?thesis using Cons by (simp add: components_def)
  next
    case Nil
    then show ?thesis unfolding Nil by simp
  qed
  ultimately show ?thesis
    unfolding components_skip by (auto simp: components_def splits_first[of p])
qed

lemma copy_name_eq:
  "i \<le> 55 \<Longrightarrow> copy_name i p = (if i + length (first_comp p) \<le> 55 then Some (first_comp p, after_comp p) else None)"
  by (induction i p rule: copy_name.induct) auto

lemma skip_slashes_hd: "skip_slashes p = [] \<or> hd (skip_slashes p) \<noteq> SLASH"
  using hd_dropWhile[of "\<lambda>c. c = SLASH" p] by (auto simp: skip_slashes_def)

lemma set_skip_after: "set (skip_slashes (after_comp p)) \<subseteq> set p" "set (first_comp p) \<subseteq> set p"
  by (auto simp: skip_slashes_def dest: set_dropWhileD set_takeWhileD)

section \<open>Lookup\<close>

definition entry :: "sectors fs \<Rightarrow> u32 \<Rightarrow> u8 list \<Rightarrow> u32 option" where
  "entry t n nm = (if is_dir (inode t n) then map_of (dents (blk t) (inode t n)) nm else None)"

primrec walk :: "sectors fs \<Rightarrow> u32 \<Rightarrow> u8 list list \<Rightarrow> u32 option" where
  "walk t n [] = Some n"
| "walk t n (c # cs) = (case entry t n c of None \<Rightarrow> None | Some m \<Rightarrow> walk t m cs)"

lemma dents_nonzero: "(nm, c) \<in> set (dents B ino) \<Longrightarrow> c \<noteq> 0"
  by (auto simp: dents_def dents_of_block_def)

lemma entry_used:
  assumes "fs_inv t" and "n \<in> used_inodes t" and "entry t n nm = Some m"
  shows "m \<in> used_inodes t" and "m \<noteq> 0" and "length nm \<le> 55"
proof -
  have "is_dir (inode t n)" "(nm, m) \<in> set (dents (blk t) (inode t n))"
    using assms(3) by (auto simp: entry_def dest: map_of_SomeD split: if_splits)
  then show "m \<in> used_inodes t" "m \<noteq> 0" "length nm \<le> 55"
    using fs_invD(8)[OF assms(1,2)] dents_nonzero by (auto simp: dir_wf_def)
qed

lemma walk_used: "fs_inv t \<Longrightarrow> n \<in> used_inodes t \<Longrightarrow> walk t n cs = Some m \<Longrightarrow> m \<in> used_inodes t"
  by (induction cs arbitrary: n) (auto split: option.splits dest: entry_used)

lemma dir_find_entry_entry:
  "fs_inv t \<Longrightarrow> n \<in> used_inodes t \<Longrightarrow> 0 \<notin> set nm \<Longrightarrow>
   run_state (dir_find_entry ideal n nm) t = (case entry t n nm of None \<Rightarrow> 0 | Some c \<Rightarrow> c, t)"
  by (simp add: dir_find_entry_run entry_def)

definition path_fits :: "u8 list \<Rightarrow> bool" where
  "path_fits p \<longleftrightarrow> (\<forall>c \<in> set (components p). length c \<le> ARESFS_NAME_MAX)"

lemma lookup_from_run:
  assumes inv: "fs_inv t" and "cur \<in> used_inodes t" and "0 \<notin> set p" and "p = [] \<or> hd p \<noteq> SLASH"
  shows "run_state (lookup_from ideal p cur) t =
    (if path_fits p then (case walk t cur (components p) of None \<Rightarrow> 0 | Some n \<Rightarrow> n) else 0, t)"
  using assms(2-4)
proof (induction "length p" arbitrary: p cur rule: less_induct)
  case less
  show ?case
  proof (cases "p = []")
    case True
    then show ?thesis by (simp add: lookup_from.simps path_fits_def)
  next
    case False
    let ?c = "first_comp p" and ?r = "skip_slashes (after_comp p)"
    have comps: "components p = ?c # components ?r" using components_first less.prems(3) False by blast
    have z: "0 \<notin> set ?c" "0 \<notin> set ?r" using less.prems(2) set_skip_after[of p] by auto
    show ?thesis
    proof (cases "length ?c \<le> 55")
      case long: False
      then show ?thesis using False comps by (simp add: lookup_from.simps[of _ p] copy_name_eq path_fits_def)
    next
      case True
      have cn: "copy_name 0 p = Some (?c, after_comp p)" using True by (simp add: copy_name_eq)
      have f: "run_state (dir_find_entry ideal cur ?c) t = (case entry t cur ?c of None \<Rightarrow> 0 | Some c \<Rightarrow> c, t)"
        by (rule dir_find_entry_entry[OF inv less.prems(1) z(1)])
      show ?thesis
      proof (cases "entry t cur ?c")
        case None
        then show ?thesis using False cn f comps by (simp add: lookup_from.simps[of _ p])
      next
        case (Some m)
        have m: "m \<in> used_inodes t" "m \<noteq> 0" using entry_used[OF inv less.prems(1) Some] by auto
        have "run_state (lookup_from ideal ?r m) t =
            (if path_fits ?r then (case walk t m (components ?r) of None \<Rightarrow> 0 | Some n \<Rightarrow> n) else 0, t)"
          by (rule less.hyps[OF copy_name_shorter[OF cn False] m(1) z(2) skip_slashes_hd])
        then show ?thesis using False cn f comps Some m True
          by (simp add: lookup_from.simps[of _ p] path_fits_def)
      qed
    qed
  qed
qed

definition lookup :: "sectors fs \<Rightarrow> u8 list \<Rightarrow> u32 option" where
  "lookup t p = (if path_fits p then walk t 1 (components p) else None)"

lemma lookup_path_run:
  assumes "fs_inv t" and "0 \<notin> set p"
  shows "run_state (lookup_path ideal (Some p)) t = (case lookup t p of None \<Rightarrow> 0 | Some n \<Rightarrow> n, t)"
proof -
  have "0 \<notin> set (skip_slashes p)" using assms(2) by (auto simp: skip_slashes_def dest: set_dropWhileD)
  then show ?thesis
    using lookup_from_run[OF assms(1) fs_invD(11)[OF assms(1)] _ skip_slashes_hd[of p]]
    by (simp add: lookup_path_def lookup_def path_fits_def components_skip)
qed

lemma lookup_used: "fs_inv t \<Longrightarrow> lookup t p = Some n \<Longrightarrow> n \<in> used_inodes t"
  using walk_used[of t 1] fs_invD(11) by (auto simp: lookup_def split: if_splits)

section \<open>Parent and leaf\<close>

definition parent_of :: "sectors fs \<Rightarrow> u32 \<Rightarrow> u8 list list \<Rightarrow> (u32 \<times> u8 list) option" where
  "parent_of t n cs =
     (if cs = [] then None
      else case walk t n (butlast cs) of
             None \<Rightarrow> None
           | Some m \<Rightarrow> if is_dir (inode t m) then Some (m, last cs) else None)"

lemma parent_of_Cons:
  "cs \<noteq> [] \<Longrightarrow> parent_of t n (c # cs) = (case entry t n c of None \<Rightarrow> None | Some m \<Rightarrow> parent_of t m cs)"
  by (simp add: parent_of_def split: option.split)

lemma walk_not_dir: "\<not> is_dir (inode t n) \<Longrightarrow> parent_of t n cs = None"
  by (cases "butlast cs") (auto simp: parent_of_def entry_def)

lemma no_more_components:
  assumes "q = after_comp p"
  shows "skip_slashes q = q \<or> skip_slashes q = [] \<longleftrightarrow> components (skip_slashes q) = []"
proof (cases q)
  case (Cons c cs)
  have "after_comp p = c # cs" using assms Cons by simp
  then have c: "c = SLASH" using hd_dropWhile[of "\<lambda>c. c \<noteq> SLASH" p] by (metis list.discI list.sel(1))
  have "skip_slashes q \<noteq> q" using Cons c skip_slashes_hd[of q] by auto
  moreover have "skip_slashes q \<noteq> [] \<Longrightarrow> components (skip_slashes q) \<noteq> []"
    using components_first[of "skip_slashes q"] skip_slashes_hd[of q] by auto
  ultimately show ?thesis by auto
qed (simp add: skip_slashes_def)

lemma split_from_run:
  assumes inv: "fs_inv t" and "cur \<in> used_inodes t" and "is_dir (inode t cur)" and "0 \<notin> set p" and "p = [] \<or> hd p \<noteq> SLASH"
  shows "run_state (split_from ideal p cur) t = (if path_fits p then parent_of t cur (components p) else None, t)"
  using assms(2-5)
proof (induction "length p" arbitrary: p cur rule: less_induct)
  case less
  show ?case
  proof (cases "p = []")
    case True
    then show ?thesis by (simp add: split_from.simps parent_of_def)
  next
    case False
    let ?c = "first_comp p" and ?r = "skip_slashes (after_comp p)"
    have comps: "components p = ?c # components ?r" using components_first less.prems(4) False by blast
    have ne: "?c \<noteq> []" using False less.prems(4) by (cases p) auto
    have z: "0 \<notin> set ?c" "0 \<notin> set ?r" using less.prems(3) set_skip_after[of p] by auto
    show ?thesis
    proof (cases "length ?c \<le> 55")
      case long: False
      then show ?thesis using False comps by (simp add: split_from.simps[of _ p] copy_name_eq path_fits_def)
    next
      case True
      have cn: "copy_name 0 p = Some (?c, after_comp p)" using True by (simp add: copy_name_eq)
      have f: "run_state (dir_find_entry ideal cur ?c) t = (case entry t cur ?c of None \<Rightarrow> 0 | Some c \<Rightarrow> c, t)"
        by (rule dir_find_entry_entry[OF inv less.prems(1) z(1)])
      show ?thesis
      proof (cases "components ?r = []")
        case last: True
        then show ?thesis using False cn comps True ne less.prems(2) no_more_components[OF refl, of p]
          by (simp add: split_from.simps[of _ p] path_fits_def parent_of_def)
      next
        case more: False
        then have nm: "\<not> (?r = after_comp p \<or> ?r = [])" using no_more_components[OF refl, of p] by blast
        show ?thesis
        proof (cases "entry t cur ?c")
          case None
          then show ?thesis using False cn f comps nm more by (simp add: split_from.simps[of _ p] parent_of_Cons)
        next
          case (Some m)
          have m: "m \<in> used_inodes t" "m \<noteq> 0" using entry_used[OF inv less.prems(1) Some] by auto
          have rd: "run_state (inode_read ideal m) t = ((ARES_OK, inode t m), t)"
            by (rule lay_inode_read[OF fs_invD(6)[OF inv] used_less(1)[OF m(1)]])
          have "is_dir (inode t m) \<Longrightarrow> run_state (split_from ideal ?r m) t =
              (if path_fits ?r then parent_of t m (components ?r) else None, t)"
            by (rule less.hyps[OF copy_name_shorter[OF cn False] m(1) _ z(2) skip_slashes_hd])
          then show ?thesis using False cn f comps Some m True nm more rd walk_not_dir[of t m]
            by (simp add: split_from.simps[of _ p] path_fits_def parent_of_Cons is_dir_def)
        qed
      qed
    qed
  qed
qed

lemma split_parent_leaf_run:
  assumes inv: "fs_inv t" and "0 \<notin> set p"
  shows "run_state (split_parent_leaf ideal (Some p)) t = (if path_fits p then parent_of t 1 (components p) else None, t)"
proof (cases "skip_slashes p = []")
  case True
  then show ?thesis
    by (auto simp: split_parent_leaf_def components_skip[of p, symmetric] parent_of_def simp del: components_skip)
next
  case False
  have z: "0 \<notin> set (skip_slashes p)" using assms(2) by (auto simp: skip_slashes_def dest: set_dropWhileD)
  have "p \<noteq> []" using False by (auto simp: skip_slashes_def)
  then show ?thesis
    using False split_from_run[OF inv fs_invD(11,12)[OF inv] z skip_slashes_hd]
    by (simp add: split_parent_leaf_def path_fits_def components_skip)
qed

end
