(* ===== verification/Aresfs_Create.thy ===== *)
theory Aresfs_Create
  imports Aresfs_Path
begin

text \<open>
  Allocating and releasing inodes and blocks: the layout invariant under the changes that \<open>aresfs_open\<close>
  and \<open>aresfs_mkdir\<close> make, on success and on the error paths that undo them, and under truncation.
\<close>

section \<open>Changes of the layout\<close>

lemma lay_subset: "lay bm B I U \<Longrightarrow> V \<subseteq> U \<Longrightarrow> lay bm B I V"
  unfolding lay_def by (meson subsetD)

lemma data_kept:
  assumes lay: "lay bm B I U" and m: "m \<in> U" and B': "\<And>c. 132 \<le> c \<Longrightarrow> B' c = B c"
  shows "ptr B' (I m) p = ptr B (I m) p" and "j < 71680 \<Longrightarrow> fbyte B' (I m) j = fbyte B (I m) j"
proof -
  have p: "ptr B' (I m) p = ptr B (I m) p" for p
    by (rule ptr_cong, rule B') (use layD(5)[OF lay m, of 12] in simp)
  show "ptr B' (I m) p = ptr B (I m) p" by (rule p)
  assume "j < 71680"
  then have "dpos (j div 512) < 141" by (intro dpos_simps) (simp add: less_mult_imp_div_less)
  then show "fbyte B' (I m) j = fbyte B (I m) j"
    using layD(5)[OF lay m, of "dpos (j div 512)"] by (auto simp: fbyte_def Let_def p B')
qed

text \<open>Blocks below the data area other than the block bitmap may change, and the bitmap may lose bits that no pointer needs.\<close>

lemma lay_meta:
  assumes lay: "lay bm B I U" and B': "\<And>c. 132 \<le> c \<Longrightarrow> B' c = B c" "B' 2 = bm'" "\<And>c. c < 4096 \<Longrightarrow> length (B' c) = 512"
    and bm': "\<And>b. b < 132 \<Longrightarrow> bitmap_test bm' b"
      "\<And>m p. m \<in> U \<Longrightarrow> p < 141 \<Longrightarrow> ptr B (I m) p \<noteq> 0 \<Longrightarrow> bitmap_test bm' (ptr B (I m) p)"
  shows "lay bm' B' I U"
proof -
  have p: "m \<in> U \<Longrightarrow> ptr B' (I m) p = ptr B (I m) p" for m p by (rule data_kept(1)[OF lay _ B'(1)])
  have "length bm' = 512" using B'(2) B'(3)[of 2] by simp
  then show ?thesis using lay B' bm' unfolding lay_def by (simp add: p cong: ball_cong)
qed

lemma lay_insert:
  assumes lay: "lay bm B I U" and n: "n \<notin> U" and ino: "wf_inode ino" "\<And>p. p < 141 \<Longrightarrow> ptr B ino p = 0"
  shows "lay bm B (I(n := ino)) (insert n U)"
proof -
  have e: "ptr B ((I(n := ino)) m) p = (if m = n then 0 else ptr B (I m) p)" if "p < 141" for m p
    using ino(2)[OF that] by simp
  show ?thesis unfolding lay_def
  proof (intro conjI ballI allI impI)
    fix m1 m2 p q assume "m1 \<in> insert n U" "m2 \<in> insert n U" and pq: "p < 141" "q < 141"
      and h: "ptr B ((I(n := ino)) m1) p \<noteq> 0" "ptr B ((I(n := ino)) m1) p = ptr B ((I(n := ino)) m2) q"
    then have "m1 \<in> U" "m2 \<in> U" "ptr B (I m1) p \<noteq> 0" "ptr B (I m1) p = ptr B (I m2) q"
      unfolding e[OF pq(1)] e[OF pq(2)] by (auto split: if_splits)
    then show "m1 = m2" "p = q" using lay_inj[OF lay _ _ pq] by blast+
  next
    fix m p assume "m \<in> insert n U" "p < 141" "ptr B ((I(n := ino)) m) p \<noteq> 0"
    then have "m \<in> U" "p < 141" "ptr B (I m) p \<noteq> 0" "ptr B ((I(n := ino)) m) p = ptr B (I m) p"
      using e by (auto split: if_splits)
    then show "132 \<le> ptr B ((I(n := ino)) m) p" "ptr B ((I(n := ino)) m) p < 4096"
      "bitmap_test bm (ptr B ((I(n := ino)) m) p)" using layD(5-7)[OF lay] by auto
  qed (use layD[OF lay] ino(1) in auto)
qed

section \<open>Allocating an inode\<close>

lemma alloc_inode_cases:
  assumes inv: "fs_inv t"
  obtains (none) "run_state (alloc_inode ideal) t = (0, t)" and "\<forall>n < 512. n \<in> used_inodes t"
  | (fresh) n where "run_state (alloc_inode ideal) t =
        (n, with_blk ((blk t)(3 := bitmap_set (g_inode_bitmap t) n)) (t\<lparr>g_inode_bitmap := bitmap_set (g_inode_bitmap t) n\<rparr>))"
      and "n < 512" and "n \<noteq> 0" and "n \<notin> used_inodes t"
proof -
  have le: "(512 :: u32) \<le> 4096" by simp
  note len = fs_invD(5)[OF inv]
  show thesis
  proof (cases rule: bitmap_find_cases[OF le, of "g_inode_bitmap t", case_names full found])
    case full
    then show thesis by (intro none) (simp_all add: alloc_inode_def used_inodes_def)
  next
    case (found n)
    have "n \<notin> used_inodes t" using found by (simp add: used_inodes_def)
    moreover from this have "n \<noteq> 0" using fs_invD(10)[OF inv] by auto
    ultimately show thesis using found len by (intro fresh[of n]) (simp_all add: alloc_inode_def put_blk_with)
  qed
qed

text \<open>The state after \<open>alloc_inode\<close>, with the inode number marked but its slot not yet written.\<close>

abbreviation marked :: "u32 \<Rightarrow> sectors fs \<Rightarrow> sectors fs" where
  "marked n t \<equiv> with_blk ((blk t)(3 := bitmap_set (g_inode_bitmap t) n)) (t\<lparr>g_inode_bitmap := bitmap_set (g_inode_bitmap t) n\<rparr>)"

lemma marked_facts:
  assumes inv: "fs_inv t" and n: "n < 512" "n \<notin> used_inodes t"
    and ino: "wf_inode ino" "\<And>B p. p < 141 \<Longrightarrow> ptr B ino p = 0"
  shows "used_inodes (marked n t) = insert n (used_inodes t)"
    and "m \<in> used_inodes t \<Longrightarrow> inode (marked n t) m = inode t m"
    and "m \<in> used_inodes t \<Longrightarrow> j < 71680 \<Longrightarrow> fbyte (blk (marked n t)) (inode t m) j = fbyte (blk t) (inode t m) j"
    and "lay (g_block_bitmap t) (blk (marked n t)) ((inode t)(n := ino)) (insert n (used_inodes t))"
proof -
  note lay = fs_invD(6)[OF inv] and len = fs_invD(5)[OF inv]
  have n': "n < 4096" using n(1) by (simp add: word_less_nat_alt)
  show "used_inodes (marked n t) = insert n (used_inodes t)"
    using n n' len by (auto simp: used_inodes_def)
  show "inode (marked n t) m = inode t m" if "m \<in> used_inodes t"
    using inode_block_ne[OF used_less(1)[OF that], of 3] by (simp add: itab_def)
  have B: "132 \<le> c \<Longrightarrow> blk (marked n t) c = blk t c" for c by auto
  show "fbyte (blk (marked n t)) (inode t m) j = fbyte (blk t) (inode t m) j" if "m \<in> used_inodes t" "j < 71680"
    using data_kept(2)[OF lay that(1) B that(2)] .
  have "lay (g_block_bitmap t) (blk (marked n t)) (inode t) (used_inodes t)"
    by (rule lay_meta[OF lay B]) (use layD[OF lay] len in auto)
  then show "lay (g_block_bitmap t) (blk (marked n t)) ((inode t)(n := ino)) (insert n (used_inodes t))"
    by (rule lay_insert[OF _ n(2) ino])
qed

section \<open>A new file\<close>

text \<open>Inode \<open>n\<close> is new; all others are as they were.\<close>

definition extended :: "u32 \<Rightarrow> sectors fs \<Rightarrow> sectors fs \<Rightarrow> bool" where
  "extended n t t' \<longleftrightarrow> n \<notin> used_inodes t \<and> used_inodes t' = insert n (used_inodes t) \<and>
     g_fds t' = g_fds t \<and> g_sb t' = g_sb t \<and> g_mounted t' = g_mounted t \<and> blk t' 1 = blk t 1 \<and>
     (\<forall>m \<in> used_inodes t. inode t' m = inode t m \<and>
        (\<forall>j < 71680. fbyte (blk t') (inode t m) j = fbyte (blk t) (inode t m) j))"

lemma extendedD:
  assumes "extended n t t'"
  shows "n \<notin> used_inodes t" and "used_inodes t' = insert n (used_inodes t)" and "g_fds t' = g_fds t"
    and "g_sb t' = g_sb t" and "g_mounted t' = g_mounted t" and "blk t' 1 = blk t 1"
    and "m \<in> used_inodes t \<Longrightarrow> inode t' m = inode t m"
    and "m \<in> used_inodes t \<Longrightarrow> j < 71680 \<Longrightarrow> fbyte (blk t') (inode t m) j = fbyte (blk t) (inode t m) j"
    and "m \<in> used_inodes t \<Longrightarrow> dents (blk t') (inode t' m) = dents (blk t) (inode t m)"
proof -
  show "n \<notin> used_inodes t" "used_inodes t' = insert n (used_inodes t)" "g_fds t' = g_fds t"
    "g_sb t' = g_sb t" "g_mounted t' = g_mounted t" "blk t' 1 = blk t 1"
    "m \<in> used_inodes t \<Longrightarrow> inode t' m = inode t m"
    "m \<in> used_inodes t \<Longrightarrow> j < 71680 \<Longrightarrow> fbyte (blk t') (inode t m) j = fbyte (blk t) (inode t m) j"
    using assms unfolding extended_def by blast+
  show "m \<in> used_inodes t \<Longrightarrow> dents (blk t') (inode t' m) = dents (blk t) (inode t m)"
    by (rule dents_cong) (use assms in \<open>auto simp: extended_def\<close>)
qed

lemma fs_inv_extended:
  assumes inv: "fs_inv t" and ext: "extended n t t'" and im: "blk t' 3 = g_inode_bitmap t'" "length (g_inode_bitmap t') = 512"
    and lay: "lay (g_block_bitmap t') (blk t') (inode t') (used_inodes t')"
    and new: "is_file (inode t' n) \<Longrightarrow> file_wf (blk t') (inode t' n)"
      "is_dir (inode t' n) \<Longrightarrow> dir_wf (used_inodes t') (blk t') (inode t' n)"
  shows "fs_inv t'"
proof (rule fs_inv_step[OF inv, where C = "{}"])
  note e = extendedD[OF ext]
  show "fds_wf (used_inodes t') (inode t') (g_fds t')"
    using fs_invD(9)[OF inv] e(2,3,7) by (auto simp: fds_wf_def)
  show "is_dir (inode t' 1)" using fs_invD(11,12)[OF inv] e(7) by simp
qed (use extendedD[OF ext] im lay new fs_invD[OF inv] in auto)

definition blank_inode :: "u32 \<Rightarrow> aresfs_inode" where
  "blank_inode md = zero_inode\<lparr>mode := md\<rparr>"

lemma blank_inode_facts [simp]:
  "wf_inode (blank_inode md)" "p < 141 \<Longrightarrow> ptr B (blank_inode md) p = 0" "i_size (blank_inode md) = 0"
  "mode (blank_inode md) = md" "direct (blank_inode md) = replicate 12 0"
  by (simp_all add: blank_inode_def zero_inode_def wf_inode_def ptr_def)

lemma fbyte_blank [simp]: "j < 71680 \<Longrightarrow> fbyte B (blank_inode md) j = 0"
proof -
  assume "j < 71680"
  then have "dpos (j div 512) < 141" by (intro dpos_simps) (simp add: less_mult_imp_div_less)
  then show ?thesis by (simp add: fbyte_def)
qed

lemma new_file:
  assumes inv: "fs_inv t" and n: "n < 512" "n \<notin> used_inodes t"
  defines "ino \<equiv> blank_inode (ARESFS_TYPE_FILE OR ARESFS_PERM_DEFAULT)"
  defines "t' \<equiv> with_blk (put_inode n ino (blk (marked n t))) (marked n t)"
  shows "run_state (inode_write ideal n ino) (marked n t) = (ARES_OK, t')"
    and "fs_inv t'" and "extended n t t'" and "inode t' n = ino" and "is_file (inode t' n)" and "contents t' n = []"
proof -
  let ?U = "insert n (used_inodes t)" and ?J = "(inode t)(n := ino)"
  note m = marked_facts[OF inv n, of ino]
  have lay: "lay (g_block_bitmap t) (blk (marked n t)) ?J ?U" by (rule m(4)) (simp_all add: ino_def)
  have J: "\<forall>m \<in> ?U. m \<noteq> n \<longrightarrow> ?J m = itab (blk (marked n t)) m" using m(2) by (auto simp: ino_def)
  have U: "?U \<subseteq> {m. m < 512}" using n used_less by auto
  have B: "blk t' = put_inode n (?J n) (blk (marked n t))" by (simp add: t'_def)
  note c = lay_commit[OF lay U insertI1 J, folded B]
  show "run_state (inode_write ideal n ino) (marked n t) = (ARES_OK, t')" unfolding t'_def
    by (rule lay_inode_write[OF lay insertI1 n(1)]) simp
  show i: "inode t' n = ino" using c(2)[of n] by simp
  show f: "is_file (inode t' n)" unfolding i by (simp add: ino_def is_file_def)
  have z: "i_size (inode t' n) = 0" unfolding i by (simp add: ino_def)
  then show "contents t' n = []" by (simp add: contents_def fbytes_def)
  have used: "used_inodes t' = ?U" using m(1) by (simp add: t'_def ino_def used_inodes_def)
  have "fbyte (blk t') (inode t m) j = fbyte (blk t) (inode t m) j" if "m \<in> used_inodes t" "j < 71680" for m j
    using c(4)[of m j] m(3)[OF _ _ that] that n(2) by (cases "m = n") (auto simp: ino_def)
  then show ext: "extended n t t'"
    using n(2) used c(2) c(5)[of 1] by (auto simp: extended_def t'_def)
  show "fs_inv t'"
  proof (rule fs_inv_extended[OF inv ext])
    show "file_wf (blk t') (inode t' n)" unfolding i by (simp add: file_wf_def ino_def)
    show "is_dir (inode t' n) \<Longrightarrow> dir_wf (used_inodes t') (blk t') (inode t' n)" using f file_not_dir by blast
    show "lay (g_block_bitmap t') (blk t') (inode t') (used_inodes t')" using c(1) used by (simp add: t'_def)
    show "blk t' 3 = g_inode_bitmap t'" using c(5)[of 3] by (simp add: t'_def)
    show "length (g_inode_bitmap t') = 512" using fs_invD(5)[OF inv] by (simp add: t'_def)
  qed
qed

section \<open>A new directory\<close>

lemma dir_first_block_entries:
  assumes "n \<noteq> 0" and "parent \<noteq> 0"
  shows "length (dir_first_block n parent) = 512"
    and "set (dents_of_block (dir_first_block n parent)) = {(dot, n), (dotdot, parent)}"
    and "distinct (map fst (dents_of_block (dir_first_block n parent)))"
proof -
  let ?e0 = "dirent_set_name ((dirent_at zero_block 0)\<lparr>d_inode := n\<rparr>) dot"
  let ?b = "set_dirent zero_block 0 ?e0"
  let ?e1 = "dirent_set_name ((dirent_at ?b 1)\<lparr>d_inode := parent\<rparr>) dotdot"
  have v: "dir_first_block n parent = set_dirent ?b 1 ?e1" by (simp add: dir_first_block_def Let_def)
  have nm: "name_ok dot" "name_ok dotdot" by (simp_all add: name_ok_def)
  show "length (dir_first_block n parent) = 512" by (simp add: v)
  have "added (dot, n) [] (dents_of_block ?b)"
    using added_block[of zero_block 0 ?e0] assms(1) nm by simp
  then have b: "dents_of_block ?b = [(dot, n)]" by (simp add: added_def)
  have "added (dotdot, parent) (dents_of_block ?b) (dents_of_block (dir_first_block n parent))"
    using added_block[of ?b 1 ?e1] assms(2) nm by (simp add: v dirent_at_set)
  from added_facts(1,2)[OF this]
  show "set (dents_of_block (dir_first_block n parent)) = {(dot, n), (dotdot, parent)}"
    "distinct (map fst (dents_of_block (dir_first_block n parent)))"
    by (auto simp: b)
qed

lemma dents_one_block:
  assumes "\<And>j. j < 71680 \<Longrightarrow> fbyte B ino j = (if j < 512 then v ! j else 0)" and "length v = 512"
  shows "dents B ino = dents_of_block v"
proof -
  have "dblock B ino 0 = v" unfolding dblock_def fbytes_def using assms by (intro nth_equalityI) auto
  moreover have "dblock B ino i = zero_block" if "0 < i" "i < 12" for i
    unfolding dblock_def fbytes_def using assms(1) that by (intro nth_equalityI) auto
  moreover have "[0..<12] = 0 # [1..<12]" by (simp add: upt_conv_Cons)
  ultimately show ?thesis by (simp add: dents_def del: upt_conv_Cons_Cons)
qed

lemma new_dir:
  assumes inv: "fs_inv t" and n: "n < 512" "n \<noteq> 0" "n \<notin> used_inodes t" and parent: "parent \<in> used_inodes t" "parent \<noteq> 0"
    and b: "132 \<le> b" "b < 4096" "b \<noteq> 2" "\<not> bitmap_test (g_block_bitmap t) b"
  defines "ino \<equiv> zero_inode\<lparr>mode := ARESFS_TYPE_DIR OR ARESFS_PERM_DEFAULT, i_size := 512, direct := (direct zero_inode)[0 := b]\<rparr>"
  defines "t1 \<equiv> with_blk ((blk (marked n t))(2 := bitmap_set (g_block_bitmap t) b, b := dir_first_block n parent))
      ((marked n t)\<lparr>g_block_bitmap := bitmap_set (g_block_bitmap t) b\<rparr>)"
  defines "t' \<equiv> with_blk (put_inode n ino (blk t1)) t1"
  shows "run_state (inode_write ideal n ino) t1 = (ARES_OK, t')"
    and "fs_inv t'" and "extended n t t'" and "inode t' n = ino" and "is_dir (inode t' n)"
    and "set (dents (blk t') (inode t' n)) = {(dot, n), (dotdot, parent)}"
proof -
  let ?U = "insert n (used_inodes t)" and ?i0 = "blank_inode (ARESFS_TYPE_DIR OR ARESFS_PERM_DEFAULT)"
  let ?v = "dir_first_block n parent"
  define J where "J = (inode t)(n := ?i0)"
  have Jn: "J n = ?i0" by (simp add: J_def)
  note v = dir_first_block_entries[OF n(2) parent(2)]
  note m = marked_facts[OF inv n(1,3), of ?i0]
  have lay: "lay (g_block_bitmap (marked n t)) (blk (marked n t)) J ?U" using m(4) by (simp add: J_def)
  have z0: "direct (J n) ! 0 = 0" "(0 :: nat) < 12" by (simp_all add: Jn)
  have b': "132 \<le> b" "b < 4096" "b \<noteq> 2" "\<not> bitmap_test (g_block_bitmap (marked n t)) b" using b by simp_all
  have b0: "b \<noteq> 0" using b(1) by auto
  note g = grown_direct[OF lay insertI1 z0(2,1) b']
  have w: "written ?U J n (512 * 0) ?v 0 (0 + 512) (marked n t) (?i0\<lparr>direct := (direct ?i0)[0 := b]\<rparr>) t1"
    using written_block[OF g(1) insertI1, of 0 0 b 512 ?v ?v] g(2) b b0 v(1) by (auto simp: t1_def Jn)
  have I: "\<forall>m \<in> ?U. m \<noteq> n \<longrightarrow> J m = inode (marked n t) m" using m(2) by (simp add: J_def)
  have U: "?U \<subseteq> {m. m < 512}" using n used_less by auto
  have ino: "ino = (?i0\<lparr>direct := (direct ?i0)[0 := b]\<rparr>)\<lparr>i_size := 512\<rparr>"
    by (simp add: ino_def blank_inode_def zero_inode_def)
  note c = commit_written[OF U insertI1 I w, where z = 512, folded ino, folded t'_def]
  show "run_state (inode_write ideal n ino) t1 = (ARES_OK, t')" unfolding t'_def
    by (rule lay_inode_write[OF writtenD(1)[OF w] insertI1 n(1)]) (simp add: ino wf_inode_def)
  show i: "inode t' n = ino" by (rule c(2))
  show d: "is_dir (inode t' n)" unfolding i by (simp add: ino_def is_dir_def)
  have "fbyte (blk t') (inode t' n) j = (if j < 512 then ?v ! j else 0)" if "j < 71680" for j
    using c(4)[OF insertI1 that] that by (simp add: Jn)
  then have de: "dents (blk t') (inode t' n) = dents_of_block ?v" by (rule dents_one_block[OF _ v(1)])
  show "set (dents (blk t') (inode t' n)) = {(dot, n), (dotdot, parent)}" unfolding de by (rule v(2))
  have used: "used_inodes t' = ?U" using c(1) m(1) by simp
  have "fbyte (blk t') (inode t m) j = fbyte (blk t) (inode t m) j" if "m \<in> used_inodes t" "j < 71680" for m j
    using c(3)[of m] c(4)[of m j] m(3)[OF _ _ that] that n(3) by (cases "m = n") (auto simp: J_def)
  then show ext: "extended n t t'"
    using n(3) used c(3) c(6,8,9,11) by (auto simp: extended_def J_def)
  show "fs_inv t'"
  proof (rule fs_inv_extended[OF inv ext])
    show "is_file (inode t' n) \<Longrightarrow> file_wf (blk t') (inode t' n)" using d file_not_dir by blast
    show "dir_wf (used_inodes t') (blk t') (inode t' n)"
      unfolding dir_wf_def de using v(2,3) used parent(1) by auto
    show "lay (g_block_bitmap t') (blk t') (inode t') (used_inodes t')" using c(5) used by simp
    show "blk t' 3 = g_inode_bitmap t'" using c(10,12) by simp
    show "length (g_inode_bitmap t') = 512" using c(10) fs_invD(5)[OF inv] by simp
  qed
qed

section \<open>Releasing blocks and inodes\<close>

lemma run_free_block:
  assumes "b \<noteq> 0" and "b < 4096" and "bitmap_test (g_block_bitmap t) b" and "length (g_block_bitmap t) = 512"
  shows "run_state (free_block ideal b) t = ((), with_blk ((blk t)(2 := bitmap_clear (g_block_bitmap t) b))
    (t\<lparr>g_block_bitmap := bitmap_clear (g_block_bitmap t) b\<rparr>))"
  using assms by (simp add: free_block_def put_blk_with not_le)

lemma run_free_inode:
  assumes "n \<noteq> 0" and "n \<in> used_inodes t" and "length (g_inode_bitmap t) = 512"
  shows "run_state (free_inode ideal n) t = ((), with_blk ((blk t)(3 := bitmap_clear (g_inode_bitmap t) n))
    (t\<lparr>g_inode_bitmap := bitmap_clear (g_inode_bitmap t) n\<rparr>))"
  using assms by (auto simp: free_inode_def put_blk_with used_inodes_def)

text \<open>Nothing a user sees has changed.\<close>

definition same_fs :: "sectors fs \<Rightarrow> sectors fs \<Rightarrow> bool" where
  "same_fs t t' \<longleftrightarrow> used_inodes t' = used_inodes t \<and> g_fds t' = g_fds t \<and> g_sb t' = g_sb t \<and>
     g_mounted t' = g_mounted t \<and>
     (\<forall>m \<in> used_inodes t. inode t' m = inode t m \<and>
        (\<forall>j < 71680. fbyte (blk t') (inode t m) j = fbyte (blk t) (inode t m) j))"

lemma same_fs_refl [simp]: "same_fs t t"
  by (simp add: same_fs_def)

lemma same_fs_others: "same_fs t t' \<Longrightarrow> others_kept n t t'"
  by (simp add: same_fs_def others_kept_def)

lemma fs_inv_same:
  assumes inv: "fs_inv t" and s: "same_fs t t'" and "blk t' 1 = blk t 1" and im: "blk t' 3 = g_inode_bitmap t'"
      "length (g_inode_bitmap t') = 512"
    and lay: "lay (g_block_bitmap t') (blk t') (inode t') (used_inodes t')"
  shows "fs_inv t'"
proof (rule fs_inv_step[OF inv, where C = "{}"])
  show "fds_wf (used_inodes t') (inode t') (g_fds t')"
    using fs_invD(9)[OF inv] s by (auto simp: fds_wf_def same_fs_def)
  show "is_dir (inode t' 1)" using fs_invD(11,12)[OF inv] s by (simp add: same_fs_def)
qed (use assms fs_invD[OF inv] in \<open>auto simp: same_fs_def\<close>)

text \<open>Taking back a new inode, and perhaps its blocks.\<close>

lemma undo_inode:
  assumes inv: "fs_inv t" and ext: "extended n t t2" and inv2: "fs_inv t2" and n: "n \<noteq> 0"
    and bm': "length bm' = 512" "\<And>b. b < 132 \<Longrightarrow> bitmap_test bm' b"
      "\<And>m p. m \<in> used_inodes t \<Longrightarrow> p < 141 \<Longrightarrow> ptr (blk t2) (inode t2 m) p \<noteq> 0 \<Longrightarrow> bitmap_test bm' (ptr (blk t2) (inode t2 m) p)"
  defines "t' \<equiv> with_blk ((blk t2)(2 := bm', 3 := bitmap_clear (g_inode_bitmap t2) n))
      (t2\<lparr>g_block_bitmap := bm', g_inode_bitmap := bitmap_clear (g_inode_bitmap t2) n\<rparr>)"
  shows "fs_inv t'" and "same_fs t t'"
proof -
  note e = extendedD[OF ext] and lay2 = fs_invD(6)[OF inv2] and len = fs_invD(5)[OF inv2]
  have n512: "n < 512" "n < 4096" using e(2) used_less(1)[of n t2] by (auto simp: word_less_nat_alt)
  have used: "used_inodes t' = used_inodes t"
  proof -
    have "used_inodes t' = used_inodes t2 - {n}" using n512 len by (auto simp: t'_def used_inodes_def)
    then show ?thesis using e(1,2) by auto
  qed
  have I: "inode t' m = inode t m" if "m \<in> used_inodes t" for m
    using inode_block_ne[OF used_less(1)[OF that], of 3] inode_block_ne[OF used_less(1)[OF that], of 2] e(7)[OF that]
    by (simp add: itab_def t'_def)
  have B: "132 \<le> c \<Longrightarrow> blk t' c = blk t2 c" for c by (auto simp: t'_def)
  have sub: "used_inodes t \<subseteq> used_inodes t2" using e(2) by auto
  have fb: "fbyte (blk t') (inode t m) j = fbyte (blk t) (inode t m) j" if "m \<in> used_inodes t" "j < 71680" for m j
    using data_kept(2)[OF lay2 subsetD[OF sub that(1)] B that(2)] e(7)[OF that(1)] e(8)[OF that] by simp
  show s: "same_fs t t'" using used I fb e by (auto simp: same_fs_def t'_def)
  have "lay bm' (blk t') (inode t2) (used_inodes t)"
    by (rule lay_meta[OF lay_subset[OF lay2 sub] B]) (use bm' len layD(2)[OF lay2] in \<open>auto simp: t'_def\<close>)
  then have "lay (g_block_bitmap t') (blk t') (inode t') (used_inodes t')"
    using lay_cong[of "used_inodes t" "inode t'" "inode t2" bm' "blk t'"] I e(7) used by (simp add: t'_def)
  then show "fs_inv t'"
    by (intro fs_inv_same[OF inv s]) (use e(6) len in \<open>auto simp: t'_def\<close>)
qed

section \<open>Truncation\<close>

lemma with_blk_update: "(with_blk B t)\<lparr>g_block_bitmap := bm\<rparr> = with_blk B (t\<lparr>g_block_bitmap := bm\<rparr>)"
  by (simp add: with_blk_def)

definition with_bitmap :: "u8 list \<Rightarrow> sectors fs \<Rightarrow> sectors fs" where
  "with_bitmap bm t = with_blk ((blk t)(2 := bm)) (t\<lparr>g_block_bitmap := bm\<rparr>)"

lemma with_bitmap_simps [simp]:
  "blk (with_bitmap bm t) = (blk t)(2 := bm)" "g_block_bitmap (with_bitmap bm t) = bm"
  "g_inode_bitmap (with_bitmap bm t) = g_inode_bitmap t" "g_sb (with_bitmap bm t) = g_sb t"
  "g_mounted (with_bitmap bm t) = g_mounted t" "g_fds (with_bitmap bm t) = g_fds t"
  "with_bitmap bm (with_bitmap bm' t) = with_bitmap bm t" "used_inodes (with_bitmap bm t) = used_inodes t"
  by (simp_all add: with_bitmap_def used_inodes_def with_blk_update)

lemma with_bitmap_id: "blk t 2 = g_block_bitmap t \<Longrightarrow> with_bitmap (g_block_bitmap t) t = t"
  unfolding with_bitmap_def by (metis fun_upd_triv fs.update_convs(3) fs.surjective with_blk_simps(3))

lemma free_block_frees:
  assumes "blk t 2 = g_block_bitmap t" and "length (g_block_bitmap t) = 512" and "b < 4096"
  obtains bm' where "run_state (free_block ideal b) t = ((), with_bitmap bm' t)" and "length bm' = 512"
    and "\<forall>j. bitmap_test bm' j \<longleftrightarrow> bitmap_test (g_block_bitmap t) j \<and> (j = 0 \<or> j \<noteq> b)"
proof (cases "b \<noteq> 0 \<and> bitmap_test (g_block_bitmap t) b")
  case True
  then show thesis
    using run_free_block[of b t] assms
    by (intro that[of "bitmap_clear (g_block_bitmap t) b"]) (auto simp: with_bitmap_def)
next
  case False
  then have "run_state (free_block ideal b) t = ((), t)" using assms(3) by (auto simp: free_block_def)
  then show thesis using False assms with_bitmap_id[OF assms(1)] by (intro that[of "g_block_bitmap t"]) auto
qed

lemma free_blocks_frees:
  assumes "blk t 2 = g_block_bitmap t" and "length (g_block_bitmap t) = 512" and "\<forall>b \<in> set bs. b < 4096"
  obtains bm' where "run_state (free_blocks ideal bs) t = ((), with_bitmap bm' t)" and "length bm' = 512"
    and "\<forall>j. bitmap_test bm' j \<longleftrightarrow> bitmap_test (g_block_bitmap t) j \<and> (j = 0 \<or> j \<notin> set bs)"
  using assms
proof (induction bs arbitrary: t thesis)
  case Nil
  then show ?case using with_bitmap_id[OF Nil.prems(2)] by (intro Nil.prems(1)[of "g_block_bitmap t"]) auto
next
  case (Cons b bs)
  have "b < 4096" using Cons.prems(4) by simp
  then obtain bm1 where 1: "run_state (free_block ideal b) t = ((), with_bitmap bm1 t)" "length bm1 = 512"
    "\<forall>j. bitmap_test bm1 j \<longleftrightarrow> bitmap_test (g_block_bitmap t) j \<and> (j = 0 \<or> j \<noteq> b)"
    by (rule free_block_frees[OF Cons.prems(2,3)])
  let ?t1 = "if b \<noteq> 0 then with_bitmap bm1 t else t"
  have t1: "blk ?t1 2 = g_block_bitmap ?t1" "length (g_block_bitmap ?t1) = 512" "\<forall>b \<in> set bs. b < 4096"
    using Cons.prems 1 by auto
  obtain bm' where 2: "run_state (free_blocks ideal bs) ?t1 = ((), with_bitmap bm' ?t1)" "length bm' = 512"
    "\<forall>j. bitmap_test bm' j \<longleftrightarrow> bitmap_test (g_block_bitmap ?t1) j \<and> (j = 0 \<or> j \<notin> set bs)"
    by (rule Cons.IH[OF _ t1])
  have "with_bitmap bm' ?t1 = with_bitmap bm' t" by simp
  then show ?case using 1 2 by (intro Cons.prems(1)[of bm']) (cases "b = 0", auto)
qed

lemma run_inode_truncate:
  assumes lay: "lay (g_block_bitmap t) (blk t) I U" and n: "n \<in> U"
  defines "ino0 \<equiv> (I n)\<lparr>direct := replicate 12 0, indirect := 0, i_size := 0\<rparr>"
  obtains bm' where "run_state (inode_truncate ideal (I n)) t = (ino0, with_bitmap bm' t)" and "length bm' = 512"
    and "\<forall>j. bitmap_test bm' j \<longleftrightarrow> bitmap_test (g_block_bitmap t) j \<and> (j = 0 \<or> (\<forall>p < 141. ptr (blk t) (I n) p \<noteq> j))"
proof -
  have l: "blk t 2 = g_block_bitmap t" "length (g_block_bitmap t) = 512" using layD(8,1)[OF lay] by auto
  have wf: "length (direct (I n)) = 12" using layD(4)[OF lay n] by (simp add: wf_inode_def)
  have lt: "ptr (blk t) (I n) p < 4096" if "p < 141" for p
    using layD(6)[OF lay n that] by (cases "ptr (blk t) (I n) p = 0") auto
  have dn: "set (direct (I n)) = ptr (blk t) (I n) ` {..<12}"
    using wf by (force simp: in_set_conv_nth ptr_def image_iff)
  have ld: "\<forall>b \<in> set (direct (I n)). b < 4096" unfolding dn using lt by auto
  obtain bm1 where 1: "run_state (free_blocks ideal (direct (I n))) t = ((), with_bitmap bm1 t)" "length bm1 = 512"
    "\<forall>j. bitmap_test bm1 j \<longleftrightarrow> bitmap_test (g_block_bitmap t) j \<and> (j = 0 \<or> j \<notin> set (direct (I n)))"
    by (rule free_blocks_frees[OF l ld])
  show thesis
  proof (cases "indirect (I n) = 0")
    case True
    have "ino0 = (I n)\<lparr>direct := replicate 12 0, i_size := 0\<rparr>" using True by (simp add: ino0_def)
    have "j = 0 \<or> (\<forall>p < 141. ptr (blk t) (I n) p \<noteq> j) \<longleftrightarrow> j = 0 \<or> j \<notin> set (direct (I n))" for j
    proof (cases "j = 0")
      case False
      have "\<forall>p. p \<ge> 12 \<longrightarrow> ptr (blk t) (I n) p \<noteq> j" using True False by (simp add: ptr_def)
      moreover have "p < 141 \<longleftrightarrow> p < 12 \<or> 12 \<le> p \<and> p < 141" for p :: nat by auto
      ultimately show ?thesis unfolding dn using False by (simp only: image_iff lessThan_iff) blast
    qed simp
    with 1 True show thesis
      by (intro that[of bm1]) (simp_all add: inode_truncate_def Let_def \<open>ino0 = _\<close>)
  next
    case False
    let ?c = "indirect (I n)" and ?t1 = "with_bitmap bm1 t"
    define es where "es = map (\<lambda>i. get32 (blk t ?c) (4 * i)) [0..<128]"
    have c: "?c < 4096" "?c \<noteq> 2" "length (blk t ?c) = 512" using lt[of 12] layD(5)[OF lay n, of 12] layD(2)[OF lay] False by auto
    have es: "set es = ptr (blk t) (I n) ` {13..<141}"
    proof -
      have "{13..<141} = (\<lambda>i. i + 13) ` {0..<128 :: nat}" by (simp only: image_add_atLeastLessThan') simp
      then have "ptr (blk t) (I n) ` {13..<141} = (\<lambda>i. ptr (blk t) (I n) (i + 13)) ` {0..<128}" by (simp only: image_image)
      then show ?thesis using False by (simp add: es_def ptr_def del: upt_rec_numeral)
    qed
    have "\<forall>b \<in> set es. b < 4096" unfolding es using lt by auto
    then obtain bm2 where 2: "run_state (free_blocks ideal es) ?t1 = ((), with_bitmap bm2 ?t1)" "length bm2 = 512"
      "\<forall>j. bitmap_test bm2 j \<longleftrightarrow> bitmap_test (g_block_bitmap ?t1) j \<and> (j = 0 \<or> j \<notin> set es)"
      by (rule free_blocks_frees[of ?t1, rotated 2]) (use 1 in auto)
    obtain bm3 where 3: "run_state (free_block ideal ?c) (with_bitmap bm2 t) = ((), with_bitmap bm3 t)" "length bm3 = 512"
      "\<forall>j. bitmap_test bm3 j \<longleftrightarrow> bitmap_test bm2 j \<and> (j = 0 \<or> j \<noteq> ?c)"
      by (rule free_block_frees[of "with_bitmap bm2 t" ?c]) (use c 2 in auto)
    have "{..<141} = {..<12} \<union> {12} \<union> {13..<141 :: nat}" by auto
    then have "ptr (blk t) (I n) ` {..<141} = set (direct (I n)) \<union> {?c} \<union> set es"
      unfolding es dn by (simp add: image_Un)
    then have "j \<notin> ptr (blk t) (I n) ` {..<141} \<longleftrightarrow> j \<notin> set (direct (I n)) \<and> j \<notin> set es \<and> j \<noteq> ?c" for j by auto
    moreover have "(\<forall>p < 141. ptr (blk t) (I n) p \<noteq> j) \<longleftrightarrow> j \<notin> ptr (blk t) (I n) ` {..<141}" for j by blast
    ultimately have all: "(\<forall>p < 141. ptr (blk t) (I n) p \<noteq> j) \<longleftrightarrow> j \<notin> set (direct (I n)) \<and> j \<notin> set es \<and> j \<noteq> ?c" for j
      by (simp only:)
    have "run_state (inode_truncate ideal (I n)) t = (ino0, with_bitmap bm3 t)"
      using 1(1) 2(1) 3(1) c False by (simp add: inode_truncate_def ino0_def Let_def es_def[symmetric] del: upt_rec_numeral)
    then show thesis by (rule that[OF _ 3(2)]) (use 1(3) 2(3) 3(3) all in auto)
  qed
qed

lemma truncate_inv:
  assumes inv: "fs_inv t" and n: "n \<in> used_inodes t" "is_file (inode t n)"
  obtains ino0 t1 t' where "run_state (inode_truncate ideal (inode t n)) t = (ino0, t1)"
    and "run_state (inode_write ideal n ino0) t1 = (ARES_OK, t')" and "fs_inv t'" and "others_kept n t t'"
    and "contents t' n = []" and "is_file (inode t' n)" and "same_tables t t'" and "i_size ino0 = 0"
proof -
  let ?U = "used_inodes t" and ?B = "blk t"
  note lay = fs_invD(6)[OF inv]
  define ino0 where "ino0 = (inode t n)\<lparr>direct := replicate 12 0, indirect := 0, i_size := 0\<rparr>"
  obtain bm' where r: "run_state (inode_truncate ideal (inode t n)) t = (ino0, with_bitmap bm' t)" and len: "length bm' = 512"
    and bm': "\<forall>j. bitmap_test bm' j \<longleftrightarrow> bitmap_test (g_block_bitmap t) j \<and> (j = 0 \<or> (\<forall>p < 141. ptr ?B (inode t n) p \<noteq> j))"
    unfolding ino0_def by (rule run_inode_truncate[OF lay n(1)])
  let ?t1 = "with_bitmap bm' t"
  have wf: "wf_inode ino0" "ptr B ino0 p = 0" if "p < 141" for B p
    using layD(4)[OF lay n(1)] that by (auto simp: ino0_def wf_inode_def ptr_def)
  have B: "132 \<le> c \<Longrightarrow> blk ?t1 c = ?B c" for c by auto
  have "lay bm' (blk ?t1) (inode t) (?U - {n})"
  proof (rule lay_meta[OF lay_subset[OF lay Diff_subset] B])
    show "bitmap_test bm' b" if "b < 132" for b
      using bm' layD(3)[OF lay that] layD(5)[OF lay n(1)] that by (metis not_le)
    show "bitmap_test bm' (ptr ?B (inode t m) p)" if "m \<in> ?U - {n}" "p < 141" "ptr ?B (inode t m) p \<noteq> 0" for m p
      using bm' layD(7)[OF lay _ that(2,3)] lay_inj(1)[OF lay _ n(1) that(2) _ that(3)] that(1) by force
  qed (use len layD(2)[OF lay] in auto)
  then have "lay bm' (blk ?t1) ((inode t)(n := ino0)) (insert n (?U - {n}))"
    by (rule lay_insert) (use wf[of 0] wf in auto)
  then have lay1: "lay bm' (blk ?t1) ((inode t)(n := ino0)) ?U" using n(1) by (simp add: insert_absorb)
  let ?J = "(inode t)(n := ino0)"
  have J: "\<forall>m \<in> ?U. m \<noteq> n \<longrightarrow> ?J m = itab (blk ?t1) m"
    using inode_block_ne[OF used_less(1), of _ t 2] by (auto simp: itab_def)
  define t' where "t' = with_blk (put_inode n ino0 (blk ?t1)) ?t1"
  have Bt: "blk t' = put_inode n (?J n) (blk ?t1)" by (simp add: t'_def)
  note c = lay_commit[OF lay1 used_less(2) n(1) J, folded Bt]
  have w: "run_state (inode_write ideal n ino0) ?t1 = (ARES_OK, t')" unfolding t'_def
    by (rule lay_inode_write[OF lay1 n(1) used_less(1)[OF n(1)]]) simp
  have i: "inode t' n = ino0" using c(2)[OF n(1)] by simp
  have f: "is_file (inode t' n)" using n(2) by (simp add: i ino0_def is_file_def)
  have fb: "fbyte (blk t') (inode t m) j = fbyte ?B (inode t m) j" if "m \<in> ?U" "m \<noteq> n" "j < 71680" for m j
  proof -
    have "fbyte (blk ?t1) (inode t m) j = fbyte ?B (inode t m) j" by (rule data_kept(2)[OF lay that(1) B that(3)])
    then show ?thesis using c(4)[OF that(1,3)] that(2) by simp
  qed
  have used: "used_inodes t' = ?U" by (simp add: t'_def used_inodes_def)
  have o: "others_kept n t t'" using used c(2) fb by (auto simp: others_kept_def)
  have z: "fbyte (blk t') ino0 j = 0" if "j < 71680" for j
  proof -
    have "dpos (j div 512) < 141" using that by (intro dpos_simps) (simp add: less_mult_imp_div_less)
    then show ?thesis by (simp add: fbyte_def wf(2))
  qed
  have ff: "is_file (inode t' m)" if "m \<in> ?U" "is_file (inode t m)" for m
    using that f c(2)[of m] by (cases "m = n") auto
  have "fs_inv t'"
  proof (rule fs_inv_step[OF inv, where C = "{n}"])
    fix m assume "m \<in> used_inodes t'" "m \<in> {n} \<or> m \<notin> ?U"
    then have m: "m = n" using used by auto
    show "file_wf (blk t') (inode t' m)" using z by (simp add: m i file_wf_def) (simp add: ino0_def)
    show "is_dir (inode t' m) \<Longrightarrow> dir_wf (used_inodes t') (blk t') (inode t' m)" using f m file_not_dir by blast
  next
    show "is_dir (inode t' 1)"
      using c(2)[OF fs_invD(11)[OF inv]] fs_invD(12)[OF inv] n(2) file_not_dir by (cases "n = 1") auto
    show "fds_wf (used_inodes t') (inode t') (g_fds t')"
      using fs_invD(9)[OF inv] used ff by (auto simp: fds_wf_def t'_def)
  qed (use c used fb fs_invD[OF inv] in \<open>auto simp: t'_def\<close>)
  moreover have "contents t' n = []" by (simp add: contents_def fbytes_def i) (simp add: ino0_def)
  ultimately show thesis by (intro that[OF r w _ o _ f]) (auto simp: same_tables_def t'_def ino0_def)
qed

end
