(* ===== verification/Aresfs_Api.thy ===== *)
theory Aresfs_Api
  imports Aresfs_Create
begin

text \<open>
  The public operations on the ideal disk: what \<open>aresfs_open\<close> and \<open>aresfs_mkdir\<close> do to the tree of
  directories, and that every operation keeps the invariant.
\<close>

section \<open>Creating a directory entry\<close>

text \<open>Inode \<open>n\<close> is new and has become entry \<open>leaf\<close> of directory \<open>par\<close>; nothing else has changed.\<close>

definition created :: "u32 \<Rightarrow> u32 \<Rightarrow> u8 list \<Rightarrow> sectors fs \<Rightarrow> sectors fs \<Rightarrow> bool" where
  "created n par leaf t t' \<longleftrightarrow> n \<notin> used_inodes t \<and> n \<noteq> 0 \<and> used_inodes t' = insert n (used_inodes t) \<and>
     par \<in> used_inodes t \<and> is_dir (inode t par) \<and> is_dir (inode t' par) \<and> g_fds t' = g_fds t \<and>
     added (leaf, n) (dents (blk t) (inode t par)) (dents (blk t') (inode t' par)) \<and>
     (\<forall>m \<in> used_inodes t. m \<noteq> par \<longrightarrow> inode t' m = inode t m \<and>
        (\<forall>j < 71680. fbyte (blk t') (inode t m) j = fbyte (blk t) (inode t m) j))"

lemma created_entry:
  assumes "created n par leaf t t'" and "entry t par leaf = None" and "m \<in> used_inodes t"
  shows "entry t' m c = (if m = par \<and> c = leaf then Some n else entry t m c)"
proof (cases "m = par")
  case True
  have d: "is_dir (inode t par)" "is_dir (inode t' par)"
    and a: "added (leaf, n) (dents (blk t) (inode t par)) (dents (blk t') (inode t' par))"
    using assms(1) by (auto simp: created_def)
  have "leaf \<notin> fst ` set (dents (blk t) (inode t par))" using assms(2) d by (simp add: entry_def map_of_eq_None_iff)
  from added_facts(3)[OF a this] show ?thesis using d True by (simp add: entry_def)
next
  case False
  then have i: "inode t' m = inode t m" and f: "\<forall>j < 71680. fbyte (blk t') (inode t m) j = fbyte (blk t) (inode t m) j"
    using assms(1,3) by (auto simp: created_def)
  then have "dents (blk t') (inode t' m) = dents (blk t) (inode t m)" by (intro dents_cong) simp
  then show ?thesis using i False by (simp add: entry_def)
qed

lemma created_walk:
  assumes c: "created n par leaf t t'" "entry t par leaf = None" and inv: "fs_inv t" and "r \<in> used_inodes t"
  shows "walk t r cs = Some m \<Longrightarrow> walk t' r cs = Some m"
  using assms(4)
proof (induction cs arbitrary: r)
  case (Cons x cs)
  then obtain q where q: "entry t r x = Some q" "walk t q cs = Some m" by (auto split: option.splits)
  have "entry t' r x = Some q" using created_entry[OF c Cons.prems(2), of x] q(1) c(2) by auto
  then show ?case using Cons.IH[OF q(2) entry_used(1)[OF inv Cons.prems(2) q(1)]] by simp
qed simp

lemma walk_append: "walk t n (cs @ ds) = (case walk t n cs of None \<Rightarrow> None | Some m \<Rightarrow> walk t m ds)"
  by (induction cs arbitrary: n) (auto split: option.splits)

lemma parent_of_facts:
  assumes inv: "fs_inv t" and p: "parent_of t 1 cs = Some (par, leaf)"
  shows "walk t 1 (butlast cs) = Some par" and "cs = butlast cs @ [leaf]" and "par \<in> used_inodes t"
    and "is_dir (inode t par)" and "walk t 1 cs = entry t par leaf"
proof -
  show w: "walk t 1 (butlast cs) = Some par" and e: "cs = butlast cs @ [leaf]" and "is_dir (inode t par)"
    using p by (auto simp: parent_of_def split: if_splits option.splits)
  show "par \<in> used_inodes t" by (rule walk_used[OF inv fs_invD(11)[OF inv] w])
  have "walk t 1 (butlast cs @ [leaf]) = entry t par leaf" by (simp add: walk_append w split: option.split)
  then show "walk t 1 cs = entry t par leaf" using e by simp
qed

text \<open>The path names the new inode afterwards, and every path that named something still names it.\<close>

lemma created_paths:
  assumes inv: "fs_inv t" and p: "path_fits p" "parent_of t 1 (components p) = Some (par, leaf)" "lookup t p = None"
    and c: "created n par leaf t t'"
  shows "lookup t' p = Some n" and "lookup t q = Some m \<Longrightarrow> lookup t' q = Some m"
proof -
  note P = parent_of_facts[OF inv p(2)]
  have e: "entry t par leaf = None" using p(1,3) P(5) by (simp add: lookup_def)
  note w = created_walk[OF c e inv fs_invD(11)[OF inv]]
  have "walk t' 1 (butlast (components p) @ [leaf]) = Some n"
    using w[OF P(1)] created_entry[OF c e P(3)] by (simp add: walk_append)
  then show "lookup t' p = Some n" using P(2) p(1) by (simp add: lookup_def)
  show "lookup t q = Some m \<Longrightarrow> lookup t' q = Some m" using w by (auto simp: lookup_def split: if_splits)
qed

lemma components_bytes: "c \<in> set (components p) \<Longrightarrow> set c \<subseteq> set p"
proof -
  have "c \<in> set (splits p) \<Longrightarrow> set c \<subseteq> set p" for c
  proof (induction p arbitrary: c)
    case (Cons x xs)
    obtain y ys where y: "splits xs = y # ys" using splits_nonempty[of xs] by (cases "splits xs") auto
    have "\<And>z. z \<in> set (y # ys) \<Longrightarrow> set z \<subseteq> set xs" using Cons.IH y by simp
    then show ?case using Cons.prems y by (fastforce split: if_splits)
  qed simp
  then show "c \<in> set (components p) \<Longrightarrow> ?thesis" by (simp add: components_def)
qed

lemma leaf_ok:
  assumes "fs_inv t" and "path_fits p" and "0 \<notin> set p" and "parent_of t 1 (components p) = Some (par, leaf)"
  shows "name_ok leaf"
proof -
  have "leaf \<in> set (components p)" using parent_of_facts(2)[OF assms(1,4)] by (metis in_set_conv_decomp)
  then show ?thesis using assms(2,3) components_bytes[of leaf p] by (auto simp: name_ok_def path_fits_def)
qed

lemma created_intro:
  assumes e: "extended n t t2" and n: "n \<noteq> 0" and par: "par \<in> used_inodes t" "is_dir (inode t par)"
    and o: "others_kept par t2 t3" and d: "is_dir (inode t3 par)" and s: "same_tables t2 t3"
    and a: "added (leaf, n) (dents (blk t2) (inode t2 par)) (dents (blk t3) (inode t3 par))"
  shows "created n par leaf t t3"
  unfolding created_def
proof (intro conjI ballI impI allI)
  note E = extendedD[OF e]
  show "n \<notin> used_inodes t" "n \<noteq> 0" "par \<in> used_inodes t" "is_dir (inode t par)" "is_dir (inode t3 par)"
    using E(1) n par d by auto
  show "used_inodes t3 = insert n (used_inodes t)" using E(2) o by (simp add: others_kept_def)
  show "g_fds t3 = g_fds t" using E(3) s by (simp add: same_tables_def)
  show "added (leaf, n) (dents (blk t) (inode t par)) (dents (blk t3) (inode t3 par))" using a E(9)[OF par(1)] by simp
  fix m assume m: "m \<in> used_inodes t" "m \<noteq> par"
  have m2: "m \<in> used_inodes t2" using m(1) E(2) by simp
  have e3: "inode t3 m = inode t2 m" "\<forall>j < 71680. fbyte (blk t3) (inode t2 m) j = fbyte (blk t2) (inode t2 m) j"
    using o m2 m(2) by (auto simp: others_kept_def)
  show "inode t3 m = inode t m" using e3 E(7)[OF m(1)] by simp
  show "j < 71680 \<Longrightarrow> fbyte (blk t3) (inode t m) j = fbyte (blk t) (inode t m) j" for j
    using e3 E(7)[OF m(1)] E(8)[OF m(1), of j] by simp
qed

text \<open>
  The reasons why nothing can be created at path \<open>p\<close>: a component that is too long, no such directory, no
  free inode, no free entry, or no more than \<open>k\<close> free blocks.
\<close>

definition num_free :: "sectors fs \<Rightarrow> nat" where
  "num_free t = card {b. b < 4096 \<and> \<not> bitmap_test (g_block_bitmap t) b}"

definition cannot_create :: "nat \<Rightarrow> u8 list \<Rightarrow> sectors fs \<Rightarrow> bool" where
  "cannot_create k p t \<longleftrightarrow> \<not> path_fits p \<or>
     (case parent_of t 1 (components p) of
        None \<Rightarrow> True
      | Some (par, leaf) \<Rightarrow> (\<forall>n < 512. n \<in> used_inodes t) \<or> length (dents (blk t) (inode t par)) = 96 \<or> num_free t \<le> k)"

lemma disk_full_free: "disk_full t \<longleftrightarrow> num_free t = 0"
  by (auto simp: disk_full_def num_free_def)

text \<open>Adding the entry for a freshly made inode.\<close>

lemma add_new_entry:
  assumes inv2: "fs_inv t2" and e: "extended n t t2" and n: "n \<noteq> 0" and par: "par \<in> used_inodes t" "is_dir (inode t par)"
    and leaf: "name_ok leaf" "entry t par leaf = None"
  obtains (added) t3 where "run_state (dir_add_entry ideal par leaf n) t2 = (ARES_OK, t3)" and "fs_inv t3"
      and "created n par leaf t t3" and "others_kept par t2 t3"
  | (full) "run_state (dir_add_entry ideal par leaf n) t2 = (ARES_ENOMEM, t2)"
      and "length (dents (blk t) (inode t par)) = 96 \<or> disk_full t2"
proof -
  note E = extendedD[OF e]
  have m: "par \<in> used_inodes t2" "is_dir (inode t2 par)" "n \<in> used_inodes t2" using E(2,7) par by auto
  have nf: "map_of (dents (blk t2) (inode t2 par)) leaf = None" using leaf(2) par(2) E(9)[OF par(1)] by (simp add: entry_def)
  show thesis
  proof (cases rule: dir_add_entry_run[OF inv2 m n leaf(1) nf, case_names added full])
    case (added t3)
    then show thesis using that(1) created_intro[OF e n par] by blast
  next
    case full
    then show thesis using that(2) E(9)[OF par(1)] by simp
  qed
qed

lemma open_create_run:
  assumes inv: "fs_inv t" and p: "0 \<notin> set p" "lookup t p = None" and fl: "flags AND ARESFS_O_CREAT \<noteq> 0"
  obtains (fail) t' where "run_state (open_create ideal (Some p) flags) t = (None, t')" and "fs_inv t'" and "same_fs t t'"
      and "cannot_create 0 p t"
  | (made) n par leaf t' where
      "run_state (open_create ideal (Some p) flags) t = (Some (n, blank_inode (ARESFS_TYPE_FILE OR ARESFS_PERM_DEFAULT)), t')"
      and "fs_inv t'" and "created n par leaf t t'" and "is_file (inode t' n)" and "contents t' n = []"
      and "path_fits p" and "parent_of t 1 (components p) = Some (par, leaf)"
proof (cases "if path_fits p then parent_of t 1 (components p) else None")
  case None
  then show thesis using fl split_parent_leaf_run[OF inv p(1)] inv
    by (intro fail[of t]) (auto simp: open_create_def cannot_create_def split: if_splits)
next
  case (Some pl)
  then obtain par leaf where fits: "path_fits p" and P: "parent_of t 1 (components p) = Some (par, leaf)"
    by (cases pl) (auto split: if_splits)
  note F = parent_of_facts[OF inv P]
  have leaf: "name_ok leaf" "entry t par leaf = None"
    using leaf_ok[OF inv fits p(1) P] F(5) p(2) fits by (auto simp: lookup_def)
  have sp: "run_state (split_parent_leaf ideal (Some p)) t = (Some (par, leaf), t)"
    using split_parent_leaf_run[OF inv p(1)] fits P by simp
  let ?ino = "blank_inode (ARESFS_TYPE_FILE OR ARESFS_PERM_DEFAULT)"
  show thesis
  proof (cases rule: alloc_inode_cases[OF inv])
    case 1
    then show thesis using fl sp inv P by (intro fail[of t]) (simp_all add: open_create_def cannot_create_def)
  next
    case (2 n)
    define t2 where "t2 = with_blk (put_inode n ?ino (blk (marked n t))) (marked n t)"
    note f = new_file[OF inv 2(2,4), folded t2_def]
    show thesis
    proof (cases rule: add_new_entry[OF f(2,3) 2(3) F(3,4) leaf, case_names added full])
      case (added t3)
      have np: "n \<noteq> par" using 2(4) F(3) by auto
      have n2: "n \<in> used_inodes t2" using extendedD(2)[OF f(3)] by simp
      have i: "inode t3 n = inode t2 n" using others_keptD(2)[OF added(4) n2 np] .
      have "contents t3 n = contents t2 n"
        by (rule others_keptD(3)[OF added(4) n2 np]) (unfold f(4), simp)
      then show thesis
        using fl sp 2(1,3) f(1,5,6) added i inv fits P
        by (intro made[of n t3 par leaf]) (simp_all add: open_create_def blank_inode_def[symmetric] Let_def)
    next
      case full
      let ?im = "bitmap_clear (g_inode_bitmap t2) n"
      have n2: "n \<in> used_inodes t2" using extendedD(2)[OF f(3)] by simp
      have fr: "run_state (free_inode ideal n) t2 = ((), with_blk ((blk t2)(3 := ?im)) (t2\<lparr>g_inode_bitmap := ?im\<rparr>))"
        by (rule run_free_inode[OF 2(3) n2 fs_invD(5)[OF f(2)]])
      note lay2 = fs_invD(6)[OF f(2)]
      have "(blk t2)(2 := g_block_bitmap t2) = blk t2" using layD(8)[OF lay2] by (metis fun_upd_triv)
      then have t': "with_blk ((blk t2)(3 := ?im)) (t2\<lparr>g_inode_bitmap := ?im\<rparr>) =
          with_blk ((blk t2)(2 := g_block_bitmap t2, 3 := ?im)) (t2\<lparr>g_block_bitmap := g_block_bitmap t2, g_inode_bitmap := ?im\<rparr>)"
        by simp
      have "fs_inv (with_blk ((blk t2)(3 := ?im)) (t2\<lparr>g_inode_bitmap := ?im\<rparr>))"
        "same_fs t (with_blk ((blk t2)(3 := ?im)) (t2\<lparr>g_inode_bitmap := ?im\<rparr>))"
        unfolding t' using layD(1,3,7)[OF lay2] extendedD(2)[OF f(3)]
        by (intro undo_inode[OF inv f(3,2) 2(3)]; auto)+
      moreover have "cannot_create 0 p t" using full(2) P by (simp add: cannot_create_def disk_full_free num_free_def t2_def)
      ultimately show thesis using fl sp 2(1,3) f(1) full fr inv
        by (intro fail) (simp_all add: open_create_def blank_inode_def[symmetric] Let_def)
    qed
  qed
qed

section \<open>Opening a file\<close>

lemma walk_nonzero: "fs_inv t \<Longrightarrow> n \<in> used_inodes t \<Longrightarrow> n \<noteq> 0 \<Longrightarrow> walk t n cs \<noteq> Some 0"
  by (induction cs arbitrary: n) (auto split: option.splits dest: entry_used)

lemma lookup_nonzero: "fs_inv t \<Longrightarrow> lookup t p \<noteq> Some 0"
  using walk_nonzero[of t 1] fs_invD(11) by (simp add: lookup_def)

text \<open>A change to a plain file leaves every path naming what it named.\<close>

lemma others_kept_lookup:
  assumes inv: "fs_inv t" and o: "others_kept n t t'" and n: "\<not> is_dir (inode t n)" "\<not> is_dir (inode t' n)"
  shows "lookup t' p = lookup t p"
proof -
  have e: "entry t' m c = entry t m c" if "m \<in> used_inodes t" for m c
    using n others_keptD(2,4)[OF o that] by (cases "m = n") (simp_all add: entry_def)
  have "m \<in> used_inodes t \<Longrightarrow> walk t' m cs = walk t m cs" for m cs
  proof (induction cs arbitrary: m)
    case (Cons c cs)
    then show ?case using e[OF Cons.prems] entry_used(1)[OF inv Cons.prems] by (auto split: option.splits)
  qed simp
  then show ?thesis using fs_invD(11)[OF inv] by (simp add: lookup_def)
qed

text \<open>
  What opening path \<open>p\<close> does to the disk, \<open>n\<close> the inode opened: an existing file, emptied if
  \<open>ARESFS_O_TRUNC\<close> asks for it, or a new empty file.
\<close>

definition opened :: "u8 list \<Rightarrow> u32 \<Rightarrow> u32 \<Rightarrow> sectors fs \<Rightarrow> sectors fs \<Rightarrow> bool" where
  "opened p flags n t t' \<longleftrightarrow> lookup t' p = Some n \<and> is_file (inode t' n) \<and> g_fds t' = g_fds t \<and>
     (lookup t p = Some n \<and> is_file (inode t n) \<or> lookup t p = None \<and> flags AND ARESFS_O_CREAT \<noteq> 0) \<and>
     contents t' n = (if lookup t p = None \<or> flags AND ARESFS_O_TRUNC \<noteq> 0 then [] else contents t n) \<and>
     (\<forall>q m. lookup t q = Some m \<longrightarrow> lookup t' q = Some m) \<and>
     (\<forall>m \<in> used_inodes t. is_file (inode t m) \<and> m \<noteq> n \<longrightarrow> is_file (inode t' m) \<and> contents t' m = contents t m)"

lemma file_size: "fs_inv t \<Longrightarrow> m \<in> used_inodes t \<Longrightarrow> is_file (inode t m) \<Longrightarrow> i_size (inode t m) \<le> 71680"
  using fs_invD(7) by (auto simp: file_wf_def)

lemma created_files:
  assumes inv: "fs_inv t" and c: "created n par leaf t t'" and m: "m \<in> used_inodes t" "is_file (inode t m)"
  shows "is_file (inode t' m)" and "contents t' m = contents t m"
proof -
  have "m \<noteq> par" using c file_not_dir m(2) by (auto simp: created_def)
  then have i: "inode t' m = inode t m" and f: "\<forall>j < 71680. fbyte (blk t') (inode t m) j = fbyte (blk t) (inode t m) j"
    using c m(1) by (auto simp: created_def)
  then show "is_file (inode t' m)" using m by simp
  have "unat (i_size (inode t m)) \<le> 71680" using file_size[OF inv m] by (simp add: word_le_nat_alt)
  then show "contents t' m = contents t m" using i f by (simp add: contents_def fbytes_def)
qed

lemma created_opened:
  assumes inv: "fs_inv t" and p: "path_fits p" "parent_of t 1 (components p) = Some (par, leaf)" "lookup t p = None"
    and c: "created n par leaf t t'" and n: "is_file (inode t' n)" "contents t' n = []" and fl: "flags AND ARESFS_O_CREAT \<noteq> 0"
  shows "opened p flags n t t'"
  unfolding opened_def
proof (intro conjI allI ballI impI)
  note C = created_paths[OF inv p c]
  show "lookup t' p = Some n" by (rule C(1))
  show "lookup t q = Some m \<Longrightarrow> lookup t' q = Some m" for q m by (rule C(2))
  show "g_fds t' = g_fds t" using c by (simp add: created_def)
  show "is_file (inode t' m)" "contents t' m = contents t m" if "m \<in> used_inodes t" "is_file (inode t m) \<and> m \<noteq> n" for m
    using created_files[OF inv c] that by auto
qed (use n p(3) fl in auto)

lemma open_existing_run:
  assumes inv: "fs_inv t" and n: "lookup t p = Some n"
  obtains (none) "run_state (open_existing ideal n flags) t = (None, t)" and "\<not> is_file (inode t n)"
  | (opened) ino t' where "run_state (open_existing ideal n flags) t = (Some (n, ino), t')" and "fs_inv t'"
      and "opened p flags n t t'" and "i_size ino = i_size (inode t' n)"
proof -
  have u: "n \<in> used_inodes t" by (rule lookup_used[OF inv n])
  have rd: "run_state (inode_read ideal n) t = ((ARES_OK, inode t n), t)"
    by (rule lay_inode_read[OF fs_invD(6)[OF inv] used_less(1)[OF u]])
  consider "\<not> is_file (inode t n)" | "is_file (inode t n)" "flags AND ARESFS_O_TRUNC = 0"
    | "is_file (inode t n)" "flags AND ARESFS_O_TRUNC \<noteq> 0" by blast
  then show thesis
  proof cases
    case 1
    then show thesis using rd by (intro none) (simp_all add: open_existing_def is_file_def)
  next
    case 2
    then show thesis using rd n inv by (intro opened[of "inode t n" t]) (simp_all add: open_existing_def is_file_def opened_def)
  next
    case 3
    obtain ino0 t1 t' where r: "run_state (inode_truncate ideal (inode t n)) t = (ino0, t1)"
      "run_state (inode_write ideal n ino0) t1 = (ARES_OK, t')" and i: "fs_inv t'" "others_kept n t t'"
      "contents t' n = []" "is_file (inode t' n)" "same_tables t t'" "i_size ino0 = 0"
      by (rule truncate_inv[OF inv u 3(1)])
    note nd = file_not_dir[OF 3(1)] file_not_dir[OF i(4)]
    have "i_size (inode t' n) = 0" using i(3) length_contents[of t' n] by (simp add: unat_eq_0)
    moreover have "opened p flags n t t'" unfolding opened_def
      using n i 3 others_kept_lookup[OF inv i(2) nd] others_keptD(2,3)[OF i(2)] file_size[OF inv] by (simp add: same_tables_def)
    ultimately show thesis using rd 3 r i by (intro opened[of ino0 t']) (simp_all add: open_existing_def is_file_def)
  qed
qed

text \<open>The descriptor table does not matter for what is on the disk.\<close>

lemma g_fds_irrelevant [simp]:
  "used_inodes (t\<lparr>g_fds := l\<rparr>) = used_inodes t" "inode (t\<lparr>g_fds := l\<rparr>) = inode t" "blk (t\<lparr>g_fds := l\<rparr>) = blk t"
  "contents (t\<lparr>g_fds := l\<rparr>) = contents t" "entry (t\<lparr>g_fds := l\<rparr>) = entry t" "lookup (t\<lparr>g_fds := l\<rparr>) = lookup t"
proof -
  show b: "blk (t\<lparr>g_fds := l\<rparr>) = blk t" by (simp add: blk_def fun_eq_iff)
  then show u: "used_inodes (t\<lparr>g_fds := l\<rparr>) = used_inodes t" "inode (t\<lparr>g_fds := l\<rparr>) = inode t"
    by (simp_all add: used_inodes_def fun_eq_iff)
  show "contents (t\<lparr>g_fds := l\<rparr>) = contents t" "entry (t\<lparr>g_fds := l\<rparr>) = entry t"
    using b by (simp_all add: contents_def entry_def fun_eq_iff)
  then have "walk (t\<lparr>g_fds := l\<rparr>) n cs = walk t n cs" for n cs by (induction cs arbitrary: n) (auto split: option.split)
  then show "lookup (t\<lparr>g_fds := l\<rparr>) = lookup t" by (simp add: lookup_def fun_eq_iff)
qed

lemma fs_inv_fds:
  assumes inv: "fs_inv t" and f: "used f \<longrightarrow> inode_num f \<in> used_inodes t \<and> is_file (inode t (inode_num f))"
  shows "fs_inv (t\<lparr>g_fds := (g_fds t)[i := f]\<rparr>)"
  using fs_invD[OF inv] fds_wf_update[OF fs_invD(9)[OF inv] f, of i] unfolding fs_inv_def by simp

lemma fd_alloc_cases:
  assumes "length fds = 16"
  obtains (none) "fd_alloc fds = - 1" and "\<forall>f \<in> set fds. used f"
  | (free) i where "fd_alloc fds = int i" and "i < 16" and "\<not> used (fds ! i)" and "\<forall>j < i. used (fds ! j)"
proof (cases "find (\<lambda>i. \<not> used (fds ! i)) [0..<16]")
  case None
  then have "\<forall>i < 16. used (fds ! i)" unfolding find_None_iff by auto
  then show thesis using assms None by (intro none) (auto simp: fd_alloc_def in_set_conv_nth)
next
  case (Some i)
  then have "i < 16" "\<not> used (fds ! i)" "\<forall>j < i. used (fds ! j)"
    unfolding find_Some_iff by (auto simp del: upt_rec_numeral)
  then show thesis using Some by (intro free[of i]) (simp_all add: fd_alloc_def)
qed

definition opened_fd :: "u32 \<Rightarrow> u32 \<Rightarrow> sectors fs \<Rightarrow> fd_entry" where
  "opened_fd n flags t = \<lparr>used = True, inode_num = n,
     fpos = (if flags AND ARESFS_O_APPEND \<noteq> 0 then i_size (inode t n) else 0), fflags = flags\<rparr>"

lemma aresfs_open_run:
  assumes inv: "fs_inv t" and p: "0 \<notin> set p"
  obtains (fail) t' where "run_state (aresfs_open ideal (Some p) flags) t = (- 1, t')" and "fs_inv t'" and "same_fs t t'"
      and "case lookup t p of Some n \<Rightarrow> \<not> is_file (inode t n) | None \<Rightarrow> flags AND ARESFS_O_CREAT = 0 \<or> cannot_create 0 p t"
  | (no_fd) n t' where "run_state (aresfs_open ideal (Some p) flags) t = (- 1, t')" and "fs_inv t'"
      and "opened p flags n t t'" and "\<forall>f \<in> set (g_fds t). used f"
  | (ok) n i t' where "run_state (aresfs_open ideal (Some p) flags) t = (int i, t'\<lparr>g_fds := (g_fds t)[i := opened_fd n flags t']\<rparr>)"
      and "fs_inv (t'\<lparr>g_fds := (g_fds t)[i := opened_fd n flags t']\<rparr>)" and "opened p flags n t t'"
      and "i < 16" and "\<not> used (g_fds t ! i)" and "\<forall>j < i. used (g_fds t ! j)"
proof -
  note lp = lookup_path_run[OF inv p] and mnt = fs_invD(1)[OF inv]
  let ?o = "\<lambda>n. if n = ARESFS_INODE_INVALID then open_create ideal (Some p) flags else open_existing ideal n flags"
  let ?n = "case lookup t p of None \<Rightarrow> 0 | Some n \<Rightarrow> n"
  have len: "length (g_fds t) = 16" using fs_invD(9)[OF inv] by (simp add: fds_wf_def)
  consider (A) t' where "run_state (?o ?n) t = (None, t')" "fs_inv t'" "same_fs t t'"
      "case lookup t p of Some n \<Rightarrow> \<not> is_file (inode t n) | None \<Rightarrow> flags AND ARESFS_O_CREAT = 0 \<or> cannot_create 0 p t"
    | (B) n ino t' where "run_state (?o ?n) t = (Some (n, ino), t')" "fs_inv t'" "opened p flags n t t'"
      "i_size ino = i_size (inode t' n)"
  proof (cases "lookup t p")
    case None
    show thesis
    proof (cases "flags AND ARESFS_O_CREAT = 0")
      case True
      then show thesis using None inv by (intro A[of t]) (simp_all add: open_create_def)
    next
      case False
      show thesis
      proof (cases rule: open_create_run[OF inv p None False, case_names fail made])
        case (fail t')
        then show thesis using None by (intro A[of t']) simp_all
      next
        case (made n par leaf t')
        have "i_size (inode t' n) = 0" using made(5) length_contents[of t' n] by (simp add: unat_eq_0)
        then show thesis using None made created_opened[OF inv made(6,7) None made(3-5) False]
          by (intro B[of n "blank_inode (ARESFS_TYPE_FILE OR ARESFS_PERM_DEFAULT)" t']) simp_all
      qed
    qed
  next
    case (Some n)
    then have "n \<noteq> 0" using lookup_nonzero[OF inv] by auto
    then show thesis using Some open_existing_run[OF inv Some, of flags] A[of t] B inv by (auto; blast)
  qed
  then show thesis
  proof cases
    case A
    then show thesis using lp mnt by (intro fail[of t']) (simp_all add: aresfs_open_def)
  next
    case B
    have g: "g_fds t' = g_fds t" "lookup t' p = Some n" "is_file (inode t' n)" using B(3) by (simp_all add: opened_def)
    show thesis
    proof (cases rule: fd_alloc_cases[OF len, case_names none free])
      case none
      then show thesis using B lp mnt g by (intro no_fd[of t' n]) (simp_all add: aresfs_open_def)
    next
      case (free i)
      have "fs_inv (t'\<lparr>g_fds := (g_fds t')[i := opened_fd n flags t']\<rparr>)"
        using lookup_used[OF B(2) g(2)] g(3) by (intro fs_inv_fds[OF B(2)]) (simp add: opened_fd_def)
      then show thesis using free B lp mnt g
        by (intro ok[of i n t']) (simp_all add: aresfs_open_def opened_fd_def Let_def)
    qed
  qed
qed

section \<open>Making a directory\<close>

lemma bitmap_set_clear:
  assumes "length bm = 512" and "i < 4096" and "\<not> bitmap_test bm i"
  shows "bitmap_clear (bitmap_set bm i) i = bm"
proof (rule nth_equalityI)
  fix j assume j: "j < length (bitmap_clear (bitmap_set bm i) i)"
  have "unat i div 8 < length bm" using assms(1,2) by (simp add: unat_u32_less)
  then show "bitmap_clear (bitmap_set bm i) i ! j = bm ! j"
    using j assms(3) by (cases "j = unat i div 8")
      (auto simp: bitmap_test_bit bitmap_set_def bitmap_clear_def Let_def unat_div_8 unat_and_7 bit_simps intro!: bit_word_eqI)
qed simp

lemma with_blk_bitmap: "(with_blk B t)\<lparr>g_inode_bitmap := c\<rparr> = with_blk B (t\<lparr>g_inode_bitmap := c\<rparr>)"
  by (simp add: with_blk_def)

text \<open>Without a block for the directory the inode is given back, and the state is the one before.\<close>

lemma unmark_inode:
  assumes inv: "fs_inv t" and n: "n < 512" "n \<noteq> 0" "n \<notin> used_inodes t"
  shows "run_state (free_inode ideal n) (marked n t) = ((), t)"
proof -
  note len = fs_invD(5)[OF inv]
  have n': "n < 4096" using n(1) by (simp add: word_less_nat_alt)
  have "\<not> bitmap_test (g_inode_bitmap t) n" using n by (simp add: used_inodes_def)
  then have c: "bitmap_clear (bitmap_set (g_inode_bitmap t) n) n = g_inode_bitmap t" by (rule bitmap_set_clear[OF len n'])
  have u: "n \<in> used_inodes (marked n t)" using n n' len by (simp add: used_inodes_def)
  have t: "with_blk ((blk t)(3 := g_inode_bitmap t)) t = t" using fs_invD(4)[OF inv] by (metis fun_upd_triv with_blk_simps(3))
  have "with_blk ((blk (marked n t))(3 := g_inode_bitmap t)) ((marked n t)\<lparr>g_inode_bitmap := g_inode_bitmap t\<rparr>) =
      with_blk ((blk t)(3 := g_inode_bitmap t)) t" by (simp add: with_blk_bitmap)
  then show ?thesis using run_free_inode[OF n(2) u] len c t by simp
qed

lemma undo_dir:
  assumes inv: "fs_inv t" and ext: "extended n t t2" and inv2: "fs_inv t2" and n: "n \<noteq> 0"
    and b: "direct (inode t2 n) ! 0 = b" "b \<noteq> 0"
  obtains t' where "run_state (do { free_block ideal b; free_inode ideal n }) t2 = ((), t')" and "fs_inv t'" and "same_fs t t'"
proof -
  let ?bm = "bitmap_clear (g_block_bitmap t2) b" and ?im = "bitmap_clear (g_inode_bitmap t2) n"
  note lay2 = fs_invD(6)[OF inv2] and E = extendedD[OF ext]
  have n2: "n \<in> used_inodes t2" using E(2) by simp
  have pb: "ptr (blk t2) (inode t2 n) 0 = b" using b(1) by (simp add: ptr_def)
  have b': "132 \<le> b" "b < 4096" "bitmap_test (g_block_bitmap t2) b" using layD(5-7)[OF lay2 n2, of 0] pb b(2) by simp_all
  define t3 where "t3 = with_blk ((blk t2)(2 := ?bm)) (t2\<lparr>g_block_bitmap := ?bm\<rparr>)"
  have f1: "run_state (free_block ideal b) t2 = ((), t3)"
    unfolding t3_def by (rule run_free_block[OF b(2) b'(2,3) layD(1)[OF lay2]])
  have "n \<in> used_inodes t3" "g_inode_bitmap t3 = g_inode_bitmap t2" using n2 by (simp_all add: t3_def used_inodes_def)
  then have f2: "run_state (free_inode ideal n) t3 = ((), with_blk ((blk t3)(3 := ?im)) (t3\<lparr>g_inode_bitmap := ?im\<rparr>))"
    using run_free_inode[OF n, of t3] fs_invD(5)[OF inv2] by simp
  define t' where "t' = with_blk ((blk t2)(2 := ?bm, 3 := ?im)) (t2\<lparr>g_block_bitmap := ?bm, g_inode_bitmap := ?im\<rparr>)"
  have t': "with_blk ((blk t3)(3 := ?im)) (t3\<lparr>g_inode_bitmap := ?im\<rparr>) = t'" by (simp add: t3_def t'_def with_blk_bitmap)
  have keep: "bitmap_test ?bm (ptr (blk t2) (inode t2 m) p)"
    if m: "m \<in> used_inodes t" "p < 141" "ptr (blk t2) (inode t2 m) p \<noteq> 0" for m p
  proof -
    have m2: "m \<in> used_inodes t2" "m \<noteq> n" using m(1) E(1,2) by auto
    then have "ptr (blk t2) (inode t2 m) p \<noteq> b" using lay_inj(1)[OF lay2 n2 m2(1), of 0 p] pb b(2) m(2) by auto
    then show ?thesis using layD(1,7)[OF lay2] m2(1) m(2,3) b'(2) by simp
  qed
  have "bitmap_test ?bm c" if "c < 132" for c
  proof -
    have "c \<noteq> b" using that b'(1) by auto
    then show ?thesis using that layD(1,3)[OF lay2] b'(2) by simp
  qed
  then have "fs_inv t'" "same_fs t t'" unfolding t'_def
    using layD(1)[OF lay2] keep by (intro undo_inode[OF inv ext inv2 n]; simp)+
  then show thesis using f1 f2 t' by (intro that[of t']) simp_all
qed

lemma one_free:
  assumes "\<forall>c < 4096. bitmap_test (bitmap_set (g_block_bitmap t) b) c" and "length (g_block_bitmap t) = 512" and "b < 4096"
  shows "num_free t \<le> 1"
proof -
  have "{c. c < 4096 \<and> \<not> bitmap_test (g_block_bitmap t) c} \<subseteq> {b}" using assms by auto
  from card_mono[OF _ this] show ?thesis by (simp add: num_free_def)
qed

text \<open>\<open>aresfs_mkdir\<close> once it has an inode and a block.\<close>

lemma mkdir_with_block:
  assumes inv: "fs_inv t" and par: "par \<in> used_inodes t" "is_dir (inode t par)" "par \<noteq> 0"
    and leaf: "name_ok leaf" "entry t par leaf = None"
    and start: "run_state (lookup_path ideal (Some p)) t = (0, t)" "run_state (split_parent_leaf ideal (Some p)) t = (Some (par, leaf), t)"
    and n: "run_state (alloc_inode ideal) t = (n, marked n t)" "n < 512" "n \<noteq> 0" "n \<notin> used_inodes t"
    and b: "run_state (alloc_block ideal) (marked n t) = (b, with_blk ((blk (marked n t))(2 := bitmap_set (g_block_bitmap t) b))
      ((marked n t)\<lparr>g_block_bitmap := bitmap_set (g_block_bitmap t) b\<rparr>))" "132 \<le> b" "b < 4096" "b \<noteq> 0"
      "\<not> bitmap_test (g_block_bitmap t) b"
  obtains (full) t' where "run_state (aresfs_mkdir ideal (Some p)) t = (ARES_ENOMEM, t')" and "fs_inv t'" and "same_fs t t'"
      and "length (dents (blk t) (inode t par)) = 96 \<or> num_free t \<le> 1"
  | (made) t' where "run_state (aresfs_mkdir ideal (Some p)) t = (ARES_OK, t')" and "fs_inv t'"
      and "created n par leaf t t'" and "is_dir (inode t' n)" and "set (dents (blk t') (inode t' n)) = {(dot, n), (dotdot, par)}"
proof -
  define ino where "ino = zero_inode\<lparr>mode := ARESFS_TYPE_DIR OR ARESFS_PERM_DEFAULT, i_size := 512, direct := (direct zero_inode)[0 := b]\<rparr>"
  define t1 where "t1 = with_blk ((blk (marked n t))(2 := bitmap_set (g_block_bitmap t) b, b := dir_first_block n par))
      ((marked n t)\<lparr>g_block_bitmap := bitmap_set (g_block_bitmap t) b\<rparr>)"
  define t2 where "t2 = with_blk (put_inode n ino (blk t1)) t1"
  have b2: "b \<noteq> 2" using b(2) by auto
  note d = new_dir[OF inv n(2-4) par(1,3) b(2,3) b2 b(5), folded ino_def, folded t1_def, folded t2_def]
  have w: "run_state (block_write ideal b (dir_first_block n par)) (with_blk ((blk (marked n t))(2 := bitmap_set (g_block_bitmap t) b))
      ((marked n t)\<lparr>g_block_bitmap := bitmap_set (g_block_bitmap t) b\<rparr>)) = (ARES_OK, t1)"
    using b(3) dir_first_block_entries(1)[OF n(3) par(3)] by (simp add: put_blk_with t1_def)
  note prefix = fs_invD(1)[OF inv] start n(1,3) b(1,4) w d(1)[unfolded ino_def]
  have n2: "n \<in> used_inodes t2" "n \<noteq> par" using extendedD(2)[OF d(3)] par(1) n(4) by auto
  show thesis
  proof (cases rule: add_new_entry[OF d(2,3) n(3) par(1,2) leaf, case_names added full])
    case (added t3)
    note o = others_keptD[OF added(4)]
    have "is_dir (inode t3 n)" "set (dents (blk t3) (inode t3 n)) = {(dot, n), (dotdot, par)}"
      using o(2,4)[OF n2] d(5,6) by simp_all
    then show thesis using added prefix
      by (intro made[of t3]) (simp_all add: aresfs_mkdir_def Let_def)
  next
    case full
    have "direct (inode t2 n) ! 0 = b" unfolding d(4) by (simp add: ino_def zero_inode_def)
    then obtain t' where "run_state (do { free_block ideal b; free_inode ideal n }) t2 = ((), t')" "fs_inv t'" "same_fs t t'"
      using undo_dir[OF inv d(3,2) n(3) _ b(4)] by blast
    moreover have "length (dents (blk t) (inode t par)) = 96 \<or> num_free t \<le> 1"
    proof -
      have "g_block_bitmap t2 = bitmap_set (g_block_bitmap t) b" by (simp add: t2_def t1_def)
      then show ?thesis using full(2) one_free[of t b] layD(1)[OF fs_invD(6)[OF inv]] b(3) by (auto simp: disk_full_def)
    qed
    ultimately show thesis using full prefix that(1)[of t']
      by (simp add: aresfs_mkdir_def Let_def split: prod.splits)
  qed
qed

lemma aresfs_mkdir_run:
  assumes inv: "fs_inv t" and p: "0 \<notin> set p"
  obtains (busy) "run_state (aresfs_mkdir ideal (Some p)) t = (ARES_EBUSY, t)" and "lookup t p \<noteq> None"
  | (fail) st t' where "run_state (aresfs_mkdir ideal (Some p)) t = (st, t')" and "st = ARES_EINVAL \<or> st = ARES_ENOMEM"
      and "fs_inv t'" and "same_fs t t'" and "lookup t p = None" and "cannot_create 1 p t"
  | (made) n par leaf t' where "run_state (aresfs_mkdir ideal (Some p)) t = (ARES_OK, t')" and "fs_inv t'"
      and "created n par leaf t t'" and "is_dir (inode t' n)" and "set (dents (blk t') (inode t' n)) = {(dot, n), (dotdot, par)}"
      and "lookup t p = None" and "path_fits p" and "parent_of t 1 (components p) = Some (par, leaf)"
proof (cases "lookup t p")
  case (Some n)
  then have "n \<noteq> 0" using lookup_nonzero[OF inv] by auto
  then show thesis using Some lookup_path_run[OF inv p] fs_invD(1)[OF inv] by (intro busy) (simp_all add: aresfs_mkdir_def)
next
  case None
  have start: "g_mounted t" "run_state (lookup_path ideal (Some p)) t = (0, t)"
    using None lookup_path_run[OF inv p] fs_invD(1)[OF inv] by simp_all
  show thesis
  proof (cases "if path_fits p then parent_of t 1 (components p) else None")
    case N: None
    then show thesis using start split_parent_leaf_run[OF inv p] inv None
      by (intro fail[of ARES_EINVAL t]) (auto simp: aresfs_mkdir_def cannot_create_def split: if_splits)
  next
    case (Some pl)
    then obtain par leaf where fits: "path_fits p" and P: "parent_of t 1 (components p) = Some (par, leaf)"
      by (cases pl) (auto split: if_splits)
    note F = parent_of_facts[OF inv P]
    have leaf: "name_ok leaf" "entry t par leaf = None"
      using leaf_ok[OF inv fits p P] F(5) None fits by (auto simp: lookup_def)
    have par: "par \<noteq> 0" using walk_nonzero[OF inv fs_invD(11)[OF inv]] F(1) by auto
    have sp: "run_state (split_parent_leaf ideal (Some p)) t = (Some (par, leaf), t)"
      using split_parent_leaf_run[OF inv p] fits P by simp
    show thesis
    proof (cases rule: alloc_inode_cases[OF inv])
      case 1
      then show thesis using start sp inv None P by (intro fail[of ARES_ENOMEM t]) (simp_all add: aresfs_mkdir_def cannot_create_def)
    next
      case (2 n)
      note lay = fs_invD(6)[OF inv]
      have bm: "length (g_block_bitmap (marked n t)) = 512" "\<forall>b < 132. bitmap_test (g_block_bitmap (marked n t)) b"
        using layD(1,3)[OF lay] by simp_all
      show thesis
      proof (cases rule: alloc_block_cases[OF bm, case_names none fresh])
        case none
        then have "num_free t = 0" by (simp add: num_free_def)
        then show thesis using start sp inv None 2 unmark_inode[OF inv 2(2-4)] none P
          by (intro fail[of ARES_ENOMEM t]) (simp_all add: aresfs_mkdir_def cannot_create_def)
      next
        case (fresh b)
        then have fr: "run_state (alloc_block ideal) (marked n t) = (b, with_blk ((blk (marked n t))(2 := bitmap_set (g_block_bitmap t) b))
            ((marked n t)\<lparr>g_block_bitmap := bitmap_set (g_block_bitmap t) b\<rparr>))" "132 \<le> b" "b < 4096" "b \<noteq> 0"
            "\<not> bitmap_test (g_block_bitmap t) b" by simp_all
        show thesis
        proof (cases rule: mkdir_with_block[OF inv F(3,4) par leaf start(2) sp 2 fr, case_names full made])
          case (full t')
          then show thesis using None P by (intro fail[of ARES_ENOMEM t']) (simp_all add: cannot_create_def)
        next
          case (made t')
          then show thesis using None fits P by (intro that(3)[of t' n par leaf])
        qed
      qed
    qed
  qed
qed

end
