(* ===== verification/Aresfs_Spec.thy ===== *)
theory Aresfs_Spec
  imports Aresfs_Api
begin

text \<open>
  What the file system promises on every disk that keeps what is written to it: listing a directory, the
  layout a format leaves, mounting it again, and the invariant along every sequence of calls.
\<close>

section \<open>Listing a directory\<close>

text \<open>The bytes \<open>aresfs_listdir\<close> has to produce: the names, each with a newline.\<close>

definition listing :: "(u8 list \<times> u32) list \<Rightarrow> u8 list" where
  "listing es = concat (map (\<lambda>(nm, _). nm @ [0x0A]) es)"

lemma listing_simps [simp]:
  "listing [] = []" "listing (e # es) = fst e @ [0x0A] @ listing es" "listing (es @ fs) = listing es @ listing fs"
  by (simp_all add: listing_def split_beta)

lemma cstr_take: "length (cstr (take n xs)) < n \<Longrightarrow> n \<le> length xs \<Longrightarrow> cstr xs = cstr (take n xs)"
proof -
  assume a: "length (cstr (take n xs)) < n" "n \<le> length xs"
  have "takeWhile (\<lambda>c. c \<noteq> 0) (take n xs) \<noteq> take n xs" using a unfolding cstr_def by (metis length_take min.absorb2 nat_neq_iff)
  then have "\<exists>c \<in> set (take n xs). \<not> c \<noteq> 0" unfolding takeWhile_eq_all_conv by blast
  then obtain c where "c \<in> set (take n xs)" "\<not> c \<noteq> 0" by blast
  then have "takeWhile (\<lambda>c. c \<noteq> 0) (take n xs @ drop n xs) = takeWhile (\<lambda>c. c \<noteq> 0) (take n xs)"
    by (rule takeWhile_append1)
  then show ?thesis by (simp add: cstr_def)
qed

lemma copy_append:
  assumes "pos + length (a @ b) \<le> length buf" and "b \<noteq> []"
  shows "copy_into (pos + length a) b (copy_into pos (a @ [z]) buf) = copy_into pos (a @ b) buf"
proof -
  have "1 \<le> length b" using assms(2) by (cases b) simp_all
  then have l: "pos + length a + 1 \<le> length buf" "pos + length a + length b \<le> length buf" using assms(1) by simp_all
  show ?thesis by (rule nth_equalityI) (use l \<open>1 \<le> length b\<close> in \<open>auto simp: nth_copy_into nth_append\<close>)
qed

definition block_entries :: "u8 list \<Rightarrow> nat list \<Rightarrow> (u8 list \<times> u32) list" where
  "block_entries v ss = map (\<lambda>s. (cstr (d_name (dirent_at v s)), d_inode (dirent_at v s)))
     (filter (\<lambda>s. d_inode (dirent_at v s) \<noteq> 0) ss)"

text \<open>The buffer already holds \<open>out\<close> and its NUL; the entries of the slots are appended.\<close>

lemma list_slots_run:
  assumes v: "length v = 512" "\<forall>s \<in> set ss. s < 8 \<and> (d_inode (dirent_at v s) \<noteq> 0 \<longrightarrow> length (cstr (d_name (dirent_at v s))) \<le> 55)"
    and room: "length out + length (listing (block_entries v ss)) < bufsize" "bufsize \<le> length buf"
  shows "list_slots v bufsize ss (length out) (copy_into 0 (out @ [0]) buf) =
    (True, length (out @ listing (block_entries v ss)), copy_into 0 (out @ listing (block_entries v ss) @ [0]) buf)"
  using v(2) room(1)
proof (induction ss arbitrary: out)
  case (Cons s ss)
  let ?nm = "cstr (d_name (dirent_at v s))"
  show ?case
  proof (cases "d_inode (dirent_at v s) = 0")
    case True
    then show ?thesis using Cons by (simp add: block_entries_def)
  next
    case False
    have "length (cstr (take 56 (drop (60 * s + 4) v))) < 56" "56 \<le> length (drop (60 * s + 4) v)"
      using Cons.prems(1) v(1) False by (auto simp: dirent_at_def seg_def)
    then have "cstr (drop (60 * s + 4) v) = cstr (take 56 (drop (60 * s + 4) v))" by (rule cstr_take)
    then have nm: "cstr (drop (60 * s + 4) v) = ?nm" by (simp add: dirent_at_def seg_def)
    have r: "length out + length ?nm + 2 \<le> bufsize" "bufsize \<le> length buf"
      using Cons.prems(2) False room(2) by (simp_all add: block_entries_def)
    then have "copy_into (length out) (?nm @ [10, 0]) (copy_into 0 (out @ [0]) buf) = copy_into 0 ((out @ ?nm @ [10]) @ [0]) buf"
      using copy_append[of 0 out "?nm @ [10, 0]" buf 0] by simp
    then show ?thesis using Cons.IH[of "out @ ?nm @ [10]"] Cons.prems False r nm by (simp add: block_entries_def Let_def)
  qed
qed (simp add: block_entries_def)

lemma dents_of_block_entries: "dents_of_block v = block_entries v [0..<8]"
  by (simp add: dents_of_block_def block_entries_def)

lemma list_blocks_run:
  assumes "\<forall>p \<in> set ps. p \<noteq> 0 \<longrightarrow> p < 4096 \<and> length (blk t p) = 512 \<and> 
      (\<forall>(nm, _) \<in> set (dents_of_block (blk t p)). length nm \<le> 55)"
    and "length out + length (listing (concat (map (\<lambda>p. if p = 0 then [] else dents_of_block (blk t p)) ps))) < bufsize" "bufsize \<le> length buf"
  shows "run_state (list_blocks ideal bufsize ps (length out) (copy_into 0 (out @ [0]) buf)) t =
    ((ARES_OK, copy_into 0 (out @ listing (concat (map (\<lambda>p. if p = 0 then [] else dents_of_block (blk t p)) ps)) @ [0]) buf), t)"
  using assms(1,2)
proof (induction ps arbitrary: out)
  case (Cons p ps)
  show ?case
  proof (cases "p = 0")
    case False
    have l: "p < 4096" "length (blk t p) = 512" 
      "\<forall>s \<in> set [0..<8]. s < 8 \<and> (d_inode (dirent_at (blk t p) s) \<noteq> 0 \<longrightarrow> length (cstr (d_name (dirent_at (blk t p) s))) \<le> 55)"
      using Cons.prems(1) False by (auto simp: dents_of_block_def simp del: upt_rec_numeral)
    have room: "length out + length (listing (block_entries (blk t p) [0..<8])) < bufsize"
      using Cons.prems(2) False by (simp add: dents_of_block_entries del: upt_rec_numeral)
    note r = list_slots_run[OF l(2,3) room assms(3)]
    show ?thesis using Cons.IH[of "out @ listing (block_entries (blk t p) [0..<8])"] Cons.prems False l(1,2) r
      by (simp add: dents_of_block_entries del: upt_rec_numeral)
  qed (use Cons in simp)
qed simp

lemma list_blocks_state:
  "\<forall>p \<in> set ps. p \<noteq> 0 \<longrightarrow> p < 4096 \<and> length (blk t p) = 512 \<Longrightarrow> snd (run_state (list_blocks ideal bufsize ps pos buf) t) = t"
  by (induction ps arbitrary: pos buf) (auto split: prod.split)

lemma aresfs_listdir_run:
  assumes inv: "fs_inv t" and p: "0 \<notin> set p" "lookup t p = Some n" "is_dir (inode t n)"
    and room: "length (listing (dents (blk t) (inode t n))) < bufsize" "bufsize \<le> length buf"
  shows "run_state (aresfs_listdir ideal (Some p) (Some buf) bufsize) t =
    ((ARES_OK, Some (copy_into 0 (listing (dents (blk t) (inode t n)) @ [0]) buf)), t)"
proof -
  note lay = fs_invD(6)[OF inv] and n = lookup_used[OF inv p(2)]
  let ?es = "concat (map (\<lambda>p. if p = 0 then [] else dents_of_block (blk t p)) (direct (inode t n)))"
  have d: "dents (blk t) (inode t n) = ?es" by (rule dents_direct[OF lay n])
  have v: "\<forall>p \<in> set (direct (inode t n)). p \<noteq> 0 \<longrightarrow> p < 4096 \<and> length (blk t p) = 512"
    using direct_valid[OF lay n] by metis
  have nm: "\<forall>(nm, _) \<in> set ?es. length nm \<le> 55" using fs_invD(8)[OF inv n p(3)] d by (auto simp: dir_wf_def)
  have "\<forall>(nm, _) \<in> set (dents_of_block (blk t p)). length nm \<le> 55" if "p \<in> set (direct (inode t n))" "p \<noteq> 0" for p
    using nm that by fastforce
  then have "\<forall>p \<in> set (direct (inode t n)). p \<noteq> 0 \<longrightarrow> p < 4096 \<and> length (blk t p) = 512 \<and>
      (\<forall>(nm, _) \<in> set (dents_of_block (blk t p)). length nm \<le> 55)" using v by blast
  from list_blocks_run[OF this, of "[]" bufsize buf] room
  have "run_state (list_blocks ideal bufsize (direct (inode t n)) 0 (copy_into 0 [0] buf)) t =
      ((ARES_OK, copy_into 0 (listing ?es @ [0]) buf), t)" by (simp add: d)
  moreover have "n \<noteq> 0" using lookup_nonzero[OF inv] p(2) by auto
  ultimately show ?thesis
    using lookup_path_run[OF inv p(1)] p(2,3) fs_invD(1)[OF inv] room lay_inode_read[OF lay used_less(1)[OF n]] d
    by (auto simp: aresfs_listdir_def is_dir_def)
qed

text \<open>Neither \<open>aresfs_listdir\<close> nor \<open>aresfs_stat\<close> changes anything.\<close>

definition c_path :: "u8 list option \<Rightarrow> bool" where
  "c_path path \<longleftrightarrow> (case path of None \<Rightarrow> True | Some p \<Rightarrow> 0 \<notin> set p)"

lemma aresfs_listdir_state:
  assumes inv: "fs_inv t" and p: "c_path path"
  shows "snd (run_state (aresfs_listdir ideal path buffer bufsize) t) = t"
proof (cases "path = None \<or> buffer = None \<or> bufsize = 0")
  case True
  then show ?thesis by (auto simp: aresfs_listdir_def split: option.split)
next
  case False
  then obtain q buf where q: "path = Some q" "buffer = Some buf" "bufsize \<noteq> 0" "0 \<notin> set q" using p by (auto simp: c_path_def)
  show ?thesis
  proof (cases "lookup t q")
    case None
    then show ?thesis using lookup_path_run[OF inv q(4)] q by (simp add: aresfs_listdir_def fs_invD(1)[OF inv])
  next
    case (Some n)
    note lay = fs_invD(6)[OF inv] and n = lookup_used[OF inv Some]
    have "\<forall>p \<in> set (direct (inode t n)). p \<noteq> 0 \<longrightarrow> p < 4096 \<and> length (blk t p) = 512"
      using direct_valid[OF lay n] by metis
    note lb = list_blocks_state[OF this, of bufsize 0 "copy_into 0 [0] buf"]
    show ?thesis
      using lookup_path_run[OF inv q(4)] Some q fs_invD(1)[OF inv] lay_inode_read[OF lay used_less(1)[OF n]] lb
      by (cases "run_state (list_blocks ideal bufsize (direct (inode t n)) 0 (copy_into 0 [0] buf)) t")
        (simp add: aresfs_listdir_def split: prod.splits)
  qed
qed

lemma aresfs_stat_run:
  assumes inv: "fs_inv t" and p: "c_path path"
  shows "run_state (aresfs_stat ideal path) t =
    (case path of None \<Rightarrow> (ARES_EINVAL, None)
     | Some q \<Rightarrow> case lookup t q of None \<Rightarrow> (ARES_ENODEV, None) | Some n \<Rightarrow> (ARES_OK, Some (i_size (inode t n), mode (inode t n))), t)"
proof (cases path)
  case (Some q)
  then have q: "0 \<notin> set q" using p by (simp add: c_path_def)
  show ?thesis
  proof (cases "lookup t q")
    case None
    then show ?thesis using lookup_path_run[OF inv q] Some by (simp add: aresfs_stat_def fs_invD(1)[OF inv])
  next
    case S: (Some n)
    then have "n \<noteq> 0" using lookup_nonzero[OF inv] by auto
    then show ?thesis
      using S Some lookup_path_run[OF inv q] fs_invD(1)[OF inv] lay_inode_read[OF fs_invD(6)[OF inv] used_less(1)[OF lookup_used[OF inv S]]]
      by (simp add: aresfs_stat_def)
  qed
qed (simp add: aresfs_stat_def)

section \<open>Every call keeps the invariant\<close>

definition keeps :: "(sectors fs, 'a) state \<Rightarrow> bool" where
  "keeps f \<longleftrightarrow> (\<forall>t. fs_inv t \<longrightarrow> fs_inv (snd (run_state f t)))"

lemma keeps_open: "c_path path \<Longrightarrow> keeps (aresfs_open ideal path flags)"
  unfolding keeps_def
proof (intro allI impI)
  fix t assume p: "c_path path" and inv: "fs_inv t"
  show "fs_inv (snd (run_state (aresfs_open ideal path flags) t))"
  proof (cases path)
    case None
    then show ?thesis using inv by (simp add: aresfs_open_def)
  next
    case (Some q)
    then have q: "0 \<notin> set q" using p by (simp add: c_path_def)
    show ?thesis by (cases rule: aresfs_open_run[OF inv q, of flags]) (simp_all add: Some)
  qed
qed

lemma keeps_mkdir: "c_path path \<Longrightarrow> keeps (aresfs_mkdir ideal path)"
  unfolding keeps_def
proof (intro allI impI)
  fix t assume p: "c_path path" and inv: "fs_inv t"
  show "fs_inv (snd (run_state (aresfs_mkdir ideal path) t))"
  proof (cases path)
    case None
    then show ?thesis using inv by (simp add: aresfs_mkdir_def)
  next
    case (Some q)
    then have q: "0 \<notin> set q" using p by (simp add: c_path_def)
    show ?thesis by (cases rule: aresfs_mkdir_run[OF inv q]) (simp_all add: Some inv)
  qed
qed

lemma keeps_close: "keeps (aresfs_close fd)"
  unfolding keeps_def aresfs_close_def by (auto intro!: fs_inv_fds simp: zero_fd_def)

lemma keeps_listdir: "c_path path \<Longrightarrow> keeps (aresfs_listdir ideal path buffer bufsize)"
  by (simp add: keeps_def aresfs_listdir_state)

lemma keeps_stat: "c_path path \<Longrightarrow> keeps (aresfs_stat ideal path)"
  by (simp add: keeps_def aresfs_stat_run)

text \<open>A transfer that is refused changes nothing.\<close>

lemma aresfs_read_refused:
  assumes "\<not> (g_mounted t \<and> buf \<noteq> None \<and> 0 \<le> fd \<and> fd < 16 \<and> used (g_fds t ! nat fd) \<and> fflags (g_fds t ! nat fd) AND 3 \<noteq> 1)"
  shows "run_state (aresfs_read ideal fd buf count) t = ((- 1, buf), t)"
  using assms by (auto simp: aresfs_read_def split: option.split)

lemma aresfs_write_refused:
  assumes "\<not> (g_mounted t \<and> buf \<noteq> None \<and> 0 \<le> fd \<and> fd < 16 \<and> used (g_fds t ! nat fd) \<and> fflags (g_fds t ! nat fd) AND 3 \<noteq> 0)"
  shows "run_state (aresfs_write ideal fd buf count) t = (- 1, t)"
  using assms by (auto simp: aresfs_write_def split: option.split)

text \<open>At the size limit nothing is written, but an appending descriptor has moved to the end.\<close>

lemma aresfs_write_at_limit:
  assumes inv: "fs_inv t" and fd: "0 \<le> fd" "fd < 16" "used (g_fds t ! nat fd)" "fflags (g_fds t ! nat fd) AND 3 \<noteq> 0"
  defines "f \<equiv> g_fds t ! nat fd"
  defines "pos \<equiv> (if fflags f AND ARESFS_O_APPEND \<noteq> 0 then i_size (inode t (inode_num f)) else fpos f)"
  assumes pos: "\<not> pos < 71680"
  shows "run_state (aresfs_write ideal fd (Some src) count) t = (- 1, set_fpos fd pos t)"
proof -
  note F = fd_facts[OF inv fd(1-3), folded f_def]
  have rd: "run_state (inode_read ideal (inode_num f)) t = ((ARES_OK, inode t (inode_num f)), t)"
    by (rule lay_inode_read[OF fs_invD(6)[OF inv] used_less(1)[OF F(3)]])
  have fp: "set_fpos fd (fpos f) t = t" "fpos (g_fds (set_fpos fd q t) ! nat fd) = q" for q
    using F(1,2) by (simp_all add: set_fpos_def f_def)
  show ?thesis
    using pos rd fp fd fs_invD(1)[OF inv]
    by (cases "fflags f AND ARESFS_O_APPEND = 0") (simp_all add: aresfs_write_def file_write_body_def f_def[symmetric] pos_def not_less)
qed

lemma keeps_read:
  assumes "\<forall>dst. buf = Some dst \<longrightarrow> count \<le> length dst"
  shows "keeps (aresfs_read ideal fd buf count)"
  unfolding keeps_def
proof (intro allI impI)
  fix t assume inv: "fs_inv t"
  show "fs_inv (snd (run_state (aresfs_read ideal fd buf count) t))"
  proof (cases "g_mounted t \<and> buf \<noteq> None \<and> 0 \<le> fd \<and> fd < 16 \<and> used (g_fds t ! nat fd) \<and> fflags (g_fds t ! nat fd) AND 3 \<noteq> 1")
    case True
    then obtain dst where "buf = Some dst" "count \<le> length dst" using assms by auto
    then show ?thesis using True aresfs_read_run[OF inv, of fd count dst] fs_inv_set_fpos[OF inv] by auto
  qed (simp add: aresfs_read_refused inv)
qed

lemma keeps_write:
  assumes "\<forall>src. buf = Some src \<longrightarrow> count \<le> length src"
  shows "keeps (aresfs_write ideal fd buf count)"
  unfolding keeps_def
proof (intro allI impI)
  fix t assume inv: "fs_inv t"
  show "fs_inv (snd (run_state (aresfs_write ideal fd buf count) t))"
  proof (cases "g_mounted t \<and> buf \<noteq> None \<and> 0 \<le> fd \<and> fd < 16 \<and> used (g_fds t ! nat fd) \<and> fflags (g_fds t ! nat fd) AND 3 \<noteq> 0")
    case True
    then obtain src where s: "buf = Some src" "count \<le> length src" using assms by auto
    have fd: "0 \<le> fd" "fd < 16" "used (g_fds t ! nat fd)" "fflags (g_fds t ! nat fd) AND 3 \<noteq> 0" using True by auto
    let ?f = "g_fds t ! nat fd"
    show ?thesis
    proof (cases "(if fflags ?f AND ARESFS_O_APPEND \<noteq> 0 then i_size (inode t (inode_num ?f)) else fpos ?f) < 71680")
      case True
      show ?thesis by (rule aresfs_write_run[OF inv fd s(2) True]) (simp add: s(1))
    next
      case False
      show ?thesis using aresfs_write_at_limit[OF inv fd False] fs_inv_set_fpos[OF inv] fd(1,2) by (simp add: s(1))
    qed
  qed (simp add: aresfs_write_refused inv)
qed

section \<open>Formatting\<close>

lemma run_write_all:
  "\<forall>b \<in> set bs. b < 4096 \<Longrightarrow> length buf = 512 \<Longrightarrow>
   run_state (write_all ideal bs buf) t = (ARES_OK, with_blk (\<lambda>b. if b \<in> set bs then buf else blk t b) t)"
proof (induction bs arbitrary: t)
  case (Cons b bs)
  have "(\<lambda>c. if c \<in> set bs then buf else blk (with_blk ((blk t)(b := buf)) t) c) = (\<lambda>c. if c = b \<or> c \<in> set bs then buf else blk t c)"
    by (auto simp: fun_eq_iff)
  then show ?case using Cons by (simp add: unless_failed_def put_blk_with)
qed simp

lemma fold_bitmap_set:
  "length bm = 512 \<Longrightarrow> \<forall>i \<in> set is. i < 4096 \<Longrightarrow>
   length (fold (\<lambda>i bm. bitmap_set bm (of_nat i)) is bm) = 512 \<and>
   (\<forall>j. bitmap_test (fold (\<lambda>i bm. bitmap_set bm (of_nat i)) is bm) j \<longleftrightarrow> j \<in> of_nat ` set is \<or> bitmap_test bm j)"
proof (induction "is" arbitrary: bm)
  case (Cons i "is")
  have "(of_nat i :: u32) < 4096" using Cons.prems(2) by (simp add: word_less_nat_alt unat_of_nat)
  then show ?case using Cons by (auto simp: )
qed simp

lemma zero_block_test [simp]: "\<not> bitmap_test zero_block j" if "j < 4096"
  using that by (simp add: bitmap_test_bit unat_u32_less)

lemma of_nat_range: "(j :: u32) \<in> of_nat ` {0..<n} \<longleftrightarrow> unat j < n" if "n \<le> 4096"
proof
  assume "j \<in> of_nat ` {0..<n}"
  then show "unat j < n" using that by (auto simp: unat_of_nat)
next
  assume "unat j < n"
  then show "j \<in> of_nat ` {0..<n}" by (intro image_eqI[of _ _ "unat j"]) simp_all
qed

lemma fresh_block_bitmap_test:
  "length fresh_block_bitmap = 512" "j < 4096 \<Longrightarrow> bitmap_test fresh_block_bitmap j \<longleftrightarrow> unat j \<le> 132"
  using fold_bitmap_set[of zero_block "[0..<Suc 132]"] of_nat_range[of 133 j] zero_block_test[of j]
  by (auto simp: fresh_block_bitmap_def less_Suc_eq_le simp del: upt_Suc upt_rec_numeral)

lemma fresh_inode_bitmap_test:
  "length fresh_inode_bitmap = 512" "j < 4096 \<Longrightarrow> bitmap_test fresh_inode_bitmap j \<longleftrightarrow> j = 0 \<or> j = 1"
  by (auto simp: fresh_inode_bitmap_def)

lemma inode_table_blocks: "set (map (\<lambda>i. (4 :: u32) + of_nat i) [0..<128]) = {b. 4 \<le> b \<and> b < 132}"
proof (intro set_eqI iffI)
  fix b :: u32 assume "b \<in> set (map (\<lambda>i. 4 + of_nat i) [0..<128])"
  then obtain i where "b = 4 + of_nat i" "i < 128" by (auto simp del: upt_rec_numeral)
  then have "unat b = 4 + i" by (simp add: unat_word_ariths unat_of_nat)
  then show "b \<in> {b. 4 \<le> b \<and> b < 132}" using \<open>i < 128\<close> by (simp add: word_le_nat_alt word_less_nat_alt)
next
  fix b :: u32 assume "b \<in> {b. 4 \<le> b \<and> b < 132}"
  then have "unat b - 4 < 128" "b = 4 + of_nat (unat b - 4)" by (auto simp: word_le_nat_alt word_less_nat_alt)
  then show "b \<in> set (map (\<lambda>i. 4 + of_nat i) [0..<128])" by (auto simp del: upt_rec_numeral)
qed

lemma fresh_sb_wf: "sb_wf fresh_sb"
  by (simp add: sb_wf_def fresh_sb_def zero_sb_def sb_checksum_def Let_def)

text \<open>The blocks a format leaves: everything before the data area is new, and so is the root directory.\<close>

definition fresh_blocks :: "(u32 \<Rightarrow> u8 list) \<Rightarrow> u32 \<Rightarrow> u8 list" where
  "fresh_blocks B = (put_inode 1 root_dir_inode (\<lambda>b. if 4 \<le> b \<and> b < 132 then zero_block
     else (B(1 := sb_bytes fresh_sb, 2 := fresh_block_bitmap, 3 := fresh_inode_bitmap)) b))(132 := dir_first_block 1 1)"

definition fresh_state :: "sectors fs \<Rightarrow> sectors fs" where
  "fresh_state t = with_blk (fresh_blocks (blk t)) (t\<lparr>g_sb := fresh_sb, g_block_bitmap := fresh_block_bitmap,
     g_inode_bitmap := fresh_inode_bitmap, g_fds := replicate 16 zero_fd, g_mounted := True\<rparr>)"

lemma root_dir_inode_facts [simp]:
  "wf_inode root_dir_inode" "is_dir root_dir_inode" "i_size root_dir_inode = 512"
  "p < 141 \<Longrightarrow> ptr B root_dir_inode p = (if p = 0 then 132 else 0)"
  by (auto simp: root_dir_inode_def zero_inode_def wf_inode_def is_dir_def ptr_def nth_list_update)

lemma with_blk_updates:
  "(with_blk B t)\<lparr>g_sb := a\<rparr> = with_blk B (t\<lparr>g_sb := a\<rparr>)" "(with_blk B t)\<lparr>g_block_bitmap := c\<rparr> = with_blk B (t\<lparr>g_block_bitmap := c\<rparr>)"
  "(with_blk B t)\<lparr>g_fds := f\<rparr> = with_blk B (t\<lparr>g_fds := f\<rparr>)" "(with_blk B t)\<lparr>g_mounted := m\<rparr> = with_blk B (t\<lparr>g_mounted := m\<rparr>)"
  by (simp_all add: with_blk_def)

lemma aresfs_format_run: "run_state (aresfs_format ideal) t = (ARES_OK, fresh_state t)"
proof -
  define B1 where "B1 = (blk t)(1 := sb_bytes fresh_sb, 2 := fresh_block_bitmap, 3 := fresh_inode_bitmap)"
  define B2 where "B2 = (\<lambda>b. if 4 \<le> b \<and> b < 132 then zero_block else B1 b)"
  define t0 where "t0 = t\<lparr>g_sb := fresh_sb, g_block_bitmap := fresh_block_bitmap, g_inode_bitmap := fresh_inode_bitmap\<rparr>"
  have sb: "length (sb_bytes fresh_sb) = 512" using sb_roundtrip(2) fresh_sb_wf by (simp add: sb_wf_def)
  have wa: "run_state (write_all ideal (map (\<lambda>i. 4 + of_nat i) [0..<128]) zero_block) (with_blk B1 t0) = (ARES_OK, with_blk B2 t0)"
  proof -
    have "\<forall>b \<in> {b :: u32. 4 \<le> b \<and> b < 132}. b < 4096" by (auto simp: word_less_nat_alt)
    moreover have "(\<lambda>b. if b \<in> {b. 4 \<le> b \<and> b < 132} then zero_block else blk (with_blk B1 t0) b) = B2"
      by (simp only: B2_def with_blk_simps mem_Collect_eq)
    ultimately show ?thesis
      using run_write_all[of "map (\<lambda>i. 4 + of_nat i) [0..<128]" zero_block "with_blk B1 t0", unfolded inode_table_blocks] by simp
  qed
  have "(1 :: u32) < 512" "length (blk (with_blk B2 t0) (4 + 1 div 4)) = 512" by (simp_all add: B2_def)
  from run_inode_write[OF this root_dir_inode_facts(1)]
  have iw: "run_state (inode_write ideal 1 root_dir_inode) (with_blk B2 t0) = (ARES_OK, with_blk (put_inode 1 root_dir_inode B2) t0)"
    by simp
  have fb: "fresh_blocks (blk t) = (put_inode 1 root_dir_inode B2)(132 := dir_first_block 1 1)"
    by (simp only: fresh_blocks_def B2_def B1_def)
  have "put_blk 3 fresh_inode_bitmap (put_blk 2 fresh_block_bitmap (put_blk 1 (sb_bytes fresh_sb) (t\<lparr>g_sb := fresh_sb\<rparr>)
      \<lparr>g_block_bitmap := fresh_block_bitmap\<rparr>)\<lparr>g_inode_bitmap := fresh_inode_bitmap\<rparr>) = with_blk B1 t0"
    by (simp add: put_blk_with with_blk_bitmap with_blk_updates t0_def B1_def)
  then show ?thesis
    using sb wa iw fresh_block_bitmap_test(1) fresh_inode_bitmap_test(1) dir_first_block_entries(1)[of 1 1]
    by (simp add: aresfs_format_def unless_failed_def fresh_state_def fb put_blk_with with_blk_updates t0_def del: upt_rec_numeral)
qed

lemma seg_replicate [simp]: "off + m \<le> k \<Longrightarrow> seg off m (replicate k z) = replicate m z"
  by (simp add: seg_def)

lemma itab_zero:
  assumes "B (4 + n div 4) = zero_block"
  shows "itab B n = zero_inode"
proof -
  have "inode_of_bytes (replicate 128 0) = zero_inode"
    by (simp add: inode_of_bytes_def zero_inode_def get32_def get64_def list_eq_iff_nth_eq del: upt_rec_numeral)
  moreover have "seg (unat (n mod 4) * 128) 128 zero_block = replicate 128 0"
    using unat_mod_4_le[of n] by (simp add: seg_def)
  ultimately show ?thesis using assms by (simp add: itab_def)
qed

lemma fresh_itab:
  shows "itab (fresh_blocks B) 0 = zero_inode" and "itab (fresh_blocks B) 1 = root_dir_inode"
proof -
  define B2 where "B2 = (\<lambda>b. if 4 \<le> b \<and> b < 132 then zero_block
     else (B(1 := sb_bytes fresh_sb, 2 := fresh_block_bitmap, 3 := fresh_inode_bitmap)) b)"
  have fb: "fresh_blocks B = (put_inode 1 root_dir_inode B2)(132 := dir_first_block 1 1)"
    by (simp only: fresh_blocks_def B2_def)
  have z: "B2 4 = zero_block" by (simp add: B2_def)
  have "itab (fresh_blocks B) n = itab (put_inode 1 root_dir_inode B2) n" if "n = 0 \<or> n = 1" for n
    using that by (auto simp: fb itab_def)
  then show "itab (fresh_blocks B) 0 = zero_inode" "itab (fresh_blocks B) 1 = root_dir_inode"
    using itab_put[of 1 0 root_dir_inode B2] itab_put[of 1 1 root_dir_inode B2] itab_zero[of B2 0] z by simp_all
qed

lemma fresh_blocks_at:
  "fresh_blocks B 1 = sb_bytes fresh_sb" "fresh_blocks B 2 = fresh_block_bitmap" "fresh_blocks B 3 = fresh_inode_bitmap"
  "fresh_blocks B 132 = dir_first_block 1 1"
  by (simp_all add: fresh_blocks_def put_inode_def word_le_nat_alt)

lemma fresh_blocks_length:
  assumes "length (B b) = 512"
  shows "length (fresh_blocks B b) = 512"
proof -
  have "length (sb_bytes fresh_sb) = 512" using sb_roundtrip(2) fresh_sb_wf by (simp add: sb_wf_def)
  moreover have "length (inode_bytes root_dir_inode) = 128" using root_dir_inode_facts(1) by (simp add: wf_inode_def)
  ultimately show ?thesis
    using assms fresh_block_bitmap_test(1) fresh_inode_bitmap_test(1) dir_first_block_entries(1)[of 1 1]
    by (simp add: fresh_blocks_def put_inode_def)
qed

lemma fresh_used: "used_inodes (fresh_state t) = {0, 1}"
proof -
  have "n < 512 \<Longrightarrow> n < 4096" for n :: u32 by (simp add: word_less_nat_alt)
  then show ?thesis using fresh_inode_bitmap_test(2) by (auto simp: used_inodes_def fresh_state_def)
qed

lemma fresh_lay:
  assumes "\<forall>b < 4096. length (B b) = 512"
  shows "lay fresh_block_bitmap (fresh_blocks B) (itab (fresh_blocks B)) {0, 1}"
proof -
  have z: "wf_inode zero_inode" "ptr C zero_inode p = 0" if "p < 141" for C p
    using that by (auto simp: zero_inode_def wf_inode_def ptr_def)
  have b: "bitmap_test fresh_block_bitmap b" if "b < 133" for b
    using that fresh_block_bitmap_test(2)[of b] by (simp add: word_less_nat_alt)
  have P: "ptr (fresh_blocks B) (itab (fresh_blocks B) n) p = (if n = 1 \<and> p = 0 then 132 else 0)"
    "wf_inode (itab (fresh_blocks B) n)" if "n \<in> {0, 1}" "p < 141" for n p
    using that z by (auto simp: fresh_itab)
  show ?thesis unfolding lay_def
  proof (intro conjI ballI allI impI)
    show "wf_inode (itab (fresh_blocks B) n)" if "n \<in> {0, 1}" for n using P(2)[OF that, of 0] by simp
    show "length (fresh_blocks B b) = 512" if "b < 4096" for b using assms that by (intro fresh_blocks_length) simp
    show "bitmap_test fresh_block_bitmap c" if "c < 132" for c using that by (intro b) (simp add: word_less_nat_alt)
  qed (use P b[of 132] fresh_blocks_at fresh_block_bitmap_test(1) in \<open>auto split: if_splits\<close>)
qed

lemma fresh_inv:
  assumes "\<forall>b < 4096. length (blk t b) = 512"
  shows "fs_inv (fresh_state t)" and "lookup (fresh_state t) [] = Some 1"
    and "set (dents (blk (fresh_state t)) (inode (fresh_state t) 1)) = {(dot, 1), (dotdot, 1)}"
proof -
  let ?B = "fresh_blocks (blk t)"
  note lay = fresh_lay[OF assms] and d = dir_first_block_entries[of 1 1]
  have B: "blk (fresh_state t) = ?B" by (simp add: fresh_state_def)
  have "direct root_dir_inode = 132 # replicate 11 0" by (simp add: root_dir_inode_def zero_inode_def numeral_eq_Suc)
  then have e: "dents ?B (itab ?B 1) = dents_of_block (dir_first_block 1 1)"
    using dents_direct[OF lay, of 1] by (simp add: fresh_itab fresh_blocks_at)
  show "set (dents (blk (fresh_state t)) (inode (fresh_state t) 1)) = {(dot, 1), (dotdot, 1)}"
    unfolding B e using d(2) by simp
  have "\<not> is_file root_dir_inode" using root_dir_inode_facts(2) file_not_dir by blast
  moreover have "\<not> is_file zero_inode" "\<not> is_dir zero_inode" by (simp_all add: is_file_def is_dir_def zero_inode_def)
  moreover have "dir_wf {0, 1} ?B root_dir_inode" using e d(2,3) by (auto simp: dir_wf_def fresh_itab)
  moreover have "fds_wf {0, 1} (itab ?B) (replicate 16 zero_fd)" by (simp add: fds_wf_def zero_fd_def)
  ultimately show "fs_inv (fresh_state t)"
    unfolding fs_inv_def fresh_used B using lay fresh_blocks_at fresh_sb_wf fresh_inode_bitmap_test(1)
    by (simp add: fresh_state_def fresh_itab)
  show "lookup (fresh_state t) [] = Some 1" by (simp add: lookup_def path_fits_def components_def)
qed

section \<open>Mounting\<close>

text \<open>Everything the file system needs is on the disk: the descriptors apart, a mount brings back the state.\<close>

lemma aresfs_mount_run:
  assumes inv: "fs_inv t" and u: "disk u = disk t" "length (g_block_bitmap u) = 512" "length (g_inode_bitmap u) = 512"
  shows "run_state (aresfs_mount ideal) u = (ARES_OK, t\<lparr>g_fds := replicate 16 zero_fd\<rparr>)"
proof -
  note lay = fs_invD(6)[OF inv] and sb = fs_invD(2)[OF inv]
  have B: "blk u = blk t" using u(1) by (simp add: blk_def fun_eq_iff)
  have l: "length (blk t 1) = 512" "length (blk t 2) = 512" "length (blk t 3) = 512" using layD(2)[OF lay] by simp_all
  have s: "sb_of_bytes (blk t 1) = g_sb t" using fs_invD(3)[OF inv] sb sb_roundtrip(1)[of "g_sb t"] by (simp add: sb_wf_def)
  have c: "magic (g_sb t) = ARESFS_MAGIC" "version (g_sb t) = ARESFS_VERSION" "block_size (g_sb t) = 512"
    "sb_checksum (g_sb t) = checksum (g_sb t)" using sb by (simp_all add: sb_wf_def)
  have "u\<lparr>g_sb := g_sb t, g_block_bitmap := g_block_bitmap t, g_inode_bitmap := g_inode_bitmap t,
      g_fds := replicate 16 zero_fd, g_mounted := True\<rparr> = t\<lparr>g_fds := replicate 16 zero_fd\<rparr>"
    using u(1) fs_invD(1)[OF inv] by (cases u; cases t) simp
  then show ?thesis
    using u(2,3) B l s c layD(8)[OF lay] fs_invD(4)[OF inv]
    by (simp add: aresfs_mount_def unless_failed_def)
qed

lemma aresfs_unmount_run:
  assumes inv: "fs_inv t"
  shows "run_state (aresfs_unmount ideal) t = (ARES_OK, t\<lparr>g_fds := replicate 16 zero_fd, g_mounted := False\<rparr>)"
proof -
  note lay = fs_invD(6)[OF inv] and sb = fs_invD(2)[OF inv]
  have l: "length (sb_bytes (g_sb t)) = 512" "length (g_block_bitmap t) = 512"
    using sb_roundtrip(2) sb layD(1)[OF lay] by (simp_all add: sb_wf_def)
  have s: "t\<lparr>g_sb := (g_sb t)\<lparr>checksum := sb_checksum (g_sb t)\<rparr>\<rparr> = t" "(g_sb t)\<lparr>checksum := sb_checksum (g_sb t)\<rparr> = g_sb t"
    using sb by (simp_all add: sb_wf_def)
  have "with_blk ((blk t)(1 := sb_bytes (g_sb t), 2 := g_block_bitmap t, 3 := g_inode_bitmap t)) t = t"
    using fs_invD(3,4)[OF inv] layD(8)[OF lay] by (metis fun_upd_triv with_blk_simps(3))
  then show ?thesis
    using fs_invD(1,5)[OF inv] l s by (simp add: aresfs_unmount_def put_blk_with)
qed

lemma fs_inv_no_fds: "fs_inv t \<Longrightarrow> fs_inv (t\<lparr>g_fds := replicate 16 zero_fd\<rparr>)"
  unfolding fs_inv_def by (simp add: fds_wf_def zero_fd_def)

end
