(* ===== verification/Aresfs_Correct.thy ===== *)
theory Aresfs_Correct
  imports Aresfs_Spec
begin

text \<open>
  The file system on top of any block driver that satisfies the contract \<open>disk_driver\<close>: the results of the
  previous theories carried from the ideal disk to the driver by the simulation.
\<close>

section \<open>Sequences of calls\<close>

text \<open>One call of the interface, with C strings for paths and buffers as long as their counts say.\<close>

inductive fs_step :: "'d driver \<Rightarrow> 'd fs \<Rightarrow> 'd fs \<Rightarrow> bool" for k where
  step_open: "c_path path \<Longrightarrow> run_state (aresfs_open k path flags) s = (r, s') \<Longrightarrow> fs_step k s s'"
| step_close: "run_state (aresfs_close fd) s = (st, s') \<Longrightarrow> fs_step k s s'"
| step_read: "\<forall>dst. buf = Some dst \<longrightarrow> count \<le> length dst \<Longrightarrow> run_state (aresfs_read k fd buf count) s = (out, s') \<Longrightarrow> fs_step k s s'"
| step_write: "\<forall>src. buf = Some src \<longrightarrow> count \<le> length src \<Longrightarrow> run_state (aresfs_write k fd buf count) s = (r, s') \<Longrightarrow> fs_step k s s'"
| step_mkdir: "c_path path \<Longrightarrow> run_state (aresfs_mkdir k path) s = (st, s') \<Longrightarrow> fs_step k s s'"
| step_listdir: "c_path path \<Longrightarrow> run_state (aresfs_listdir k path buf bufsize) s = (out, s') \<Longrightarrow> fs_step k s s'"
| step_stat: "c_path path \<Longrightarrow> run_state (aresfs_stat k path) s = (info, s') \<Longrightarrow> fs_step k s s'"

context disk_driver
begin

lemma keeps_on_driver:
  fixes s :: "'d fs"
  assumes "simulates view ok f F" and "keeps F" and "run_state f s = (r, s')" and "ok (disk s)" and "fs_inv (on_view view s)"
  shows "ok (disk s') \<and> fs_inv (on_view view s')"
proof -
  have "ok (disk s') \<and> run_state F (on_view view s) = (r, on_view view s')"
    using assms(1,3,4) unfolding simulates_def by fastforce
  moreover have "fs_inv (snd (run_state F (on_view view s)))" using assms(2,5) by (simp add: keeps_def)
  ultimately show ?thesis by simp
qed

lemma fs_step_keeps:
  fixes s :: "'d fs"
  assumes "fs_step k s s'" and "ok (disk s)" and "fs_inv (on_view view s)"
  shows "ok (disk s') \<and> fs_inv (on_view view s')"
  using assms(1)
proof (cases rule: fs_step.cases)
  case step_open
  then show ?thesis using keeps_on_driver[OF sim_aresfs_open keeps_open] assms(2,3) by blast
next
  case step_close
  then show ?thesis using keeps_on_driver[OF sim_aresfs_close keeps_close] assms(2,3) by blast
next
  case step_read
  then show ?thesis using keeps_on_driver[OF sim_aresfs_read keeps_read] assms(2,3) by blast
next
  case step_write
  then show ?thesis using keeps_on_driver[OF sim_aresfs_write keeps_write] assms(2,3) by blast
next
  case step_mkdir
  then show ?thesis using keeps_on_driver[OF sim_aresfs_mkdir keeps_mkdir] assms(2,3) by blast
next
  case step_listdir
  then show ?thesis using keeps_on_driver[OF sim_aresfs_listdir keeps_listdir] assms(2,3) by blast
next
  case step_stat
  then show ?thesis using keeps_on_driver[OF sim_aresfs_stat keeps_stat] assms(2,3) by blast
qed

lemma fs_steps_keep:
  fixes s :: "'d fs"
  shows "(fs_step k)\<^sup>*\<^sup>* s s' \<Longrightarrow> ok (disk s) \<Longrightarrow> fs_inv (on_view view s) \<Longrightarrow> ok (disk s') \<and> fs_inv (on_view view s')"
  by (induction rule: rtranclp_induct) (simp_all add: fs_step_keeps)

lemma format_on_driver:
  fixes s :: "'d fs"
  assumes "ok (disk s)"
  obtains s' where "run_state (aresfs_format k) s = (ARES_OK, s')" and "ok (disk s')" and "fs_inv (on_view view s')"
    and "on_view view s' = fresh_state (on_view view s)"
proof -
  have "\<forall>b < 4096. length (blk (on_view view s) b) = 512"
  proof (intro allI impI)
    fix b :: u32 assume "b < 4096"
    then have "2048 + b < 6144" by (simp add: word_less_nat_alt unat_word_ariths)
    then show "length (blk (on_view view s) b) = 512" using whole[OF assms] by (simp add: blk_def)
  qed
  then have "fs_inv (fresh_state (on_view view s))" by (rule fresh_inv)
  then show thesis
    using run_on_driver[OF sim_mounting(1) assms aresfs_format_run] that by metis
qed

end

section \<open>A disk to try it on\<close>

text \<open>The state at power-on with an empty disk, and a formatted disk with an unnamed file open for reading and writing.\<close>

definition blank_fs :: "sectors fs" where
  "blank_fs = \<lparr>disk = (\<lambda>_. zero_block), g_sb = zero_sb, g_block_bitmap = zero_block, g_inode_bitmap = zero_block,
     g_mounted = False, g_fds = replicate 16 zero_fd\<rparr>"

definition open_fs :: "sectors fs" where
  "open_fs = (let t = fresh_state blank_fs; t' = with_blk (put_inode 2 (blank_inode 0x81B6) (blk (marked 2 t))) (marked 2 t)
     in t'\<lparr>g_fds := (g_fds t')[0 := \<lparr>used = True, inode_num = 2, fpos = 0, fflags = 2\<rparr>]\<rparr>)"

lemma blank_facts: "whole_sectors (disk blank_fs)" "\<forall>b < 4096. length (blk blank_fs b) = 512"
  by (simp_all add: whole_sectors_def blank_fs_def blk_def)

lemma on_view_id [simp]: "on_view id t = t"
  by (cases t) (simp add: on_view_def)

lemma with_blk_whole: "\<forall>b. length (B b) = 512 \<Longrightarrow> whole_sectors (disk (with_blk B t))"
  by (simp add: with_blk_def whole_sectors_def)

lemma fresh_whole: "\<forall>b. length (fresh_blocks (blk blank_fs) b) = 512"
  by (intro allI fresh_blocks_length) (simp add: blank_fs_def blk_def)

lemma open_fs_facts:
  shows "fs_inv open_fs" and "whole_sectors (disk open_fs)" and "g_fds open_fs ! 0 = \<lparr>used = True, inode_num = 2, fpos = 0, fflags = 2\<rparr>"
    and "contents open_fs 2 = []"
proof -
  define t where "t = fresh_state blank_fs"
  define t' where "t' = with_blk (put_inode 2 (blank_inode 0x81B6) (blk (marked 2 t))) (marked 2 t)"
  have inv: "fs_inv t" "(2 :: u32) < 512" "2 \<notin> used_inodes t"
    unfolding t_def using fresh_inv(1)[OF blank_facts(2)] fresh_used[of blank_fs] by simp_all
  have t': "fs_inv t'" "extended 2 t t'" "is_file (inode t' 2)" "contents t' 2 = []"
    using new_file[OF inv] by (simp_all add: t'_def)
  have o: "open_fs = t'\<lparr>g_fds := (g_fds t')[0 := \<lparr>used = True, inode_num = 2, fpos = 0, fflags = 2\<rparr>]\<rparr>"
    by (simp add: open_fs_def Let_def t'_def t_def)
  show "fs_inv open_fs" unfolding o by (rule fs_inv_fds[OF t'(1)]) (use t'(2,3) in \<open>simp add: extended_def\<close>)
  show "contents open_fs 2 = []" using t'(4) by (simp add: o)
  have "length (g_fds t') = 16" using fs_invD(9)[OF t'(1)] by (simp add: fds_wf_def)
  then show "g_fds open_fs ! 0 = \<lparr>used = True, inode_num = 2, fpos = 0, fflags = 2\<rparr>" by (simp add: o)
  have "wf_inode (blank_inode 0x81B6)" by simp
  then have "length (blk t' b) = 512" for b
    using fresh_whole fs_invD(5)[OF inv(1)]
    by (simp add: t'_def t_def fresh_state_def put_inode_def wf_inode_def)
  then have "whole_sectors (disk t')" unfolding t'_def by (intro with_blk_whole) (simp add: t'_def)
  then show "whole_sectors (disk open_fs)" by (simp add: o)
qed

section \<open>Files\<close>



text \<open>
  C2. \<open>aresfs_read\<close> returns the bytes of the file from the position of the descriptor on, on every disk
  that keeps what is written to it: as many as asked for and present, stored at the front of the
  buffer, with the position advanced past them and nothing else changed.
\<close>

theorem fs_read_is_array_slice:
  fixes s :: "'d fs"
  assumes D: "disk_driver k view ok" and "ok (disk s)" and inv: "fs_inv (on_view view s)"
    and fd: "0 \<le> fd" "fd < 16" "used (g_fds s ! nat fd)" "fflags (g_fds s ! nat fd) AND 3 \<noteq> 1" and dst: "count \<le> length dst"
  defines "t \<equiv> on_view view s" and "f \<equiv> g_fds s ! nat fd"
  defines "bytes \<equiv> take count (drop (unat (fpos f)) (contents t (inode_num f)))"
  shows "\<exists>s'. run_state (aresfs_read k fd (Some dst) count) s = ((int (length bytes), Some (copy_into 0 bytes dst)), s') \<and>
    ok (disk s') \<and> on_view view s' = set_fpos fd (fpos f + of_nat (length bytes)) t"
proof -
  have fe: "g_fds t ! nat fd = f" by (simp add: t_def f_def)
  let ?m = "min count (length (contents t (inode_num f)) - unat (fpos f))"
  have b: "seg (unat (fpos f)) ?m (contents t (inode_num f)) = bytes" "?m = length bytes"
    by (simp_all add: bytes_def seg_def min_def)
  have "run_state (aresfs_read ideal fd (Some dst) count) t =
      ((int (length bytes), Some (copy_into 0 bytes dst)), set_fpos fd (fpos f + of_nat (length bytes)) t)"
    using aresfs_read_run[OF inv[folded t_def] fd(1,2) _ _ dst, unfolded fe] fd(3,4)[folded f_def] b(1)[unfolded b(2)] unfolding b(2) by simp
  then show ?thesis
    using disk_driver.run_on_driver[OF D disk_driver.sim_aresfs_read[OF D] assms(2)] unfolding t_def by blast
qed

text \<open>Witness of C2: reading the empty file of the formatted disk.\<close>

theorem fs_read_is_array_slice_witness:
  "\<exists>s'. run_state (aresfs_read ideal 0 (Some [7, 8, 9]) 3) open_fs = ((0, Some [7, 8, 9]), s') \<and> s' = set_fpos 0 0 open_fs"
  using fs_read_is_array_slice[OF ideal_disk.disk_driver_axioms, of open_fs 0 3 "[7, 8, 9]"] open_fs_facts by simp

section \<open>Paths\<close>


lemma fresh_no_entry:
  assumes "\<forall>b < 4096. length (blk t b) = 512" and "c \<noteq> dot" and "c \<noteq> dotdot"
  shows "entry (fresh_state t) 1 c = None" and "length (dents (blk (fresh_state t)) (inode (fresh_state t) 1)) = 2"
proof -
  note F = fresh_inv[OF assms(1)]
  show "entry (fresh_state t) 1 c = None"
    using F(3) assms(2,3) by (simp add: entry_def map_of_eq_None_iff fs_invD(12)[OF F(1)])
  have "distinct (dents (blk (fresh_state t)) (inode (fresh_state t) 1))"
    using fs_invD(8)[OF F(1) fs_invD(11,12)[OF F(1)]] by (auto simp: dir_wf_def distinct_map)
  from distinct_card[OF this] show "length (dents (blk (fresh_state t)) (inode (fresh_state t) 1)) = 2" using F(3) by simp
qed

lemma fresh_room:
  assumes "\<forall>b < 4096. length (blk t b) = 512"
  shows "\<not> cannot_create 1 [0x2F, 0x61] (fresh_state t)" and "\<not> cannot_create 0 [0x2F, 0x61] (fresh_state t)"
    and "lookup (fresh_state t) [0x2F, 0x61] = None"
proof -
  note F = fresh_inv[OF assms] and N = fresh_no_entry[OF assms, of "[0x61]"]
  have c: "components [0x2F, 0x61] = [[0x61]]" "path_fits [0x2F, 0x61]" by (simp_all add: components_def path_fits_def)
  show "lookup (fresh_state t) [0x2F, 0x61] = None" using N(1) c by (simp add: lookup_def)
  have "{133, 134} \<subseteq> {b. b < 4096 \<and> \<not> bitmap_test (g_block_bitmap (fresh_state t)) b}"
    by (simp add: fresh_state_def fresh_block_bitmap_test)
  from card_mono[OF _ this] have "2 \<le> num_free (fresh_state t)" by (simp add: num_free_def)
  moreover have "\<not> (\<forall>n < 512. n \<in> used_inodes (fresh_state t))"
    unfolding fresh_used by (auto intro!: exI[of _ "2 :: u32"])
  ultimately have "\<not> cannot_create m [0x2F, 0x61] (fresh_state t)" if "m < 2" for m
    using that N(2) c by (simp add: cannot_create_def parent_of_def fs_invD(12)[OF F(1)])
  then show "\<not> cannot_create 1 [0x2F, 0x61] (fresh_state t)" "\<not> cannot_create 0 [0x2F, 0x61] (fresh_state t)" by simp_all
qed




section \<open>Formatting, booting and long runs\<close>

text \<open>
  C5. From the format on, whatever sequence of \<open>aresfs_open\<close>, \<open>aresfs_close\<close>, \<open>aresfs_read\<close>, \<open>aresfs_write\<close>,
  \<open>aresfs_mkdir\<close>, \<open>aresfs_listdir\<close> and \<open>aresfs_stat\<close> calls follows, the file system is well formed: the
  superblock and the bitmaps on the disk are those in memory, every block pointer leads to an allocated
  data block that no other pointer shares, files keep within their size and read as zeros beyond it,
  directory entries have distinct names and lead to allocated inodes, and open descriptors refer to files.
\<close>

theorem fs_invariant:
  fixes s0 :: "'d fs"
  assumes D: "disk_driver k view ok" and "ok (disk s0)" and "run_state (aresfs_format k) s0 = (st, s)" and "(fs_step k)\<^sup>*\<^sup>* s s'"
  shows "st = ARES_OK \<and> ok (disk s') \<and> fs_inv (on_view view s')"
proof -
  obtain s1 where "run_state (aresfs_format k) s0 = (ARES_OK, s1)" "ok (disk s1)" "fs_inv (on_view view s1)"
    by (rule disk_driver.format_on_driver[OF D assms(2)])
  then show ?thesis using assms(3,4) disk_driver.fs_steps_keep[OF D] by auto
qed

text \<open>Witness of C5: a directory is made and listed after the format of an empty disk.\<close>

theorem fs_invariant_witness:
  "\<exists>s'. (fs_step ideal)\<^sup>*\<^sup>* (fresh_state blank_fs) s' \<and> fs_inv s' \<and>
     s' = snd (run_state (aresfs_mkdir ideal (Some [0x2F, 0x61])) (fresh_state blank_fs))"
proof -
  let ?s' = "snd (run_state (aresfs_mkdir ideal (Some [0x2F, 0x61])) (fresh_state blank_fs))"
  have "fs_step ideal (fresh_state blank_fs) ?s'"
    by (rule step_mkdir[of "Some [0x2F, 0x61]" _ _ "fst (run_state (aresfs_mkdir ideal (Some [0x2F, 0x61])) (fresh_state blank_fs))"])
      (simp_all add: c_path_def)
  then have r: "(fs_step ideal)\<^sup>*\<^sup>* (fresh_state blank_fs) ?s'" by (rule r_into_rtranclp)
  then show ?thesis
    using fs_invariant[OF ideal_disk.disk_driver_axioms, of blank_fs ARES_OK "fresh_state blank_fs" ?s'] blank_facts(1) aresfs_format_run
    by auto
qed

text \<open>
  A boot on a disk that holds a well-formed file system: \<open>fs_init\<close> mounts it, and the state is the one the
  disk was left in, with all descriptors closed.
\<close>

lemma boot_on_driver:
  fixes u :: "'d fs"
  assumes D: "disk_driver k view ok" and inv: "fs_inv t"
    and init: "ok (drv_init k (disk u))" "view (drv_init k (disk u)) = disk t"
    and u: "length (g_block_bitmap u) = 512" "length (g_inode_bitmap u) = 512"
  obtains u' where "run_state (fs_init k) u = ([Probing, Drive_present, Mounted (total_blocks (g_sb t)) 512], u')" and "ok (disk u')"
    and "on_view view u' = t\<lparr>g_fds := replicate 16 zero_fd\<rparr>" and "fs_inv (on_view view u')"
proof -
  let ?u = "u\<lparr>disk := drv_init k (disk u)\<rparr>"
  have "disk (on_view view ?u) = disk t" using init(2) by simp
  then have "run_state (aresfs_mount ideal) (on_view view ?u) = (ARES_OK, t\<lparr>g_fds := replicate 16 zero_fd\<rparr>)"
    using u by (intro aresfs_mount_run[OF inv]) simp_all
  moreover have "ok (disk ?u)" using init(1) by simp
  ultimately obtain u' where u': "run_state (aresfs_mount k) ?u = (ARES_OK, u')" "ok (disk u')"
      "on_view view u' = t\<lparr>g_fds := replicate 16 zero_fd\<rparr>"
    using disk_driver.run_on_driver[OF D disk_driver.sim_mounting(2)[OF D]] by blast
  have "g_sb u' = g_sb (on_view view u')" by simp
  then have "g_sb u' = g_sb t" unfolding u'(3) by simp
  then have "run_state (fs_init k) u = ([Probing, Drive_present, Mounted (total_blocks (g_sb t)) 512], u')"
    using u' disk_driver.present[OF D init(1)] by (simp add: fs_init_def)
  then show thesis using u' fs_inv_no_fds[OF inv] by (intro that[of u']) simp_all
qed

end
