(* ===== verification/Ata.thy ===== *)
theory Ata
  imports Blockdev
begin

text \<open>
  The disk driver, \<^verbatim>\<open>drivers/ata.c\<close>: polled transfers through the task-file registers of the primary
  master. The port instructions of \<^verbatim>\<open>lib/io.h\<close> are a parameter, the record \<open>ports\<close> of functions on the
  state of the bus. What the driver relies on is the predicate \<open>ata_drive\<close>, the documented behaviour of an
  ATA disk: how registers, commands and the data port act on the observable state of the drive. The theory
  shows that on every such drive the driver implements the contract \<open>disk_driver\<close> of the file system.
\<close>

unbundle bit_operations_syntax

section \<open>Ports\<close>

record 'b ports =
  inb :: "u16 \<Rightarrow> 'b \<Rightarrow> u8 \<times> 'b"
  outb :: "u16 \<Rightarrow> u8 \<Rightarrow> 'b \<Rightarrow> 'b"
  inw :: "u16 \<Rightarrow> 'b \<Rightarrow> u16 \<times> 'b"
  outw :: "u16 \<Rightarrow> u16 \<Rightarrow> 'b \<Rightarrow> 'b"

abbreviation (input) ATA_PRIMARY_DATA :: u16 where "ATA_PRIMARY_DATA \<equiv> 0x1F0"
abbreviation (input) ATA_PRIMARY_FEATURES :: u16 where "ATA_PRIMARY_FEATURES \<equiv> 0x1F1"
abbreviation (input) ATA_PRIMARY_SECCOUNT :: u16 where "ATA_PRIMARY_SECCOUNT \<equiv> 0x1F2"
abbreviation (input) ATA_PRIMARY_LBA_LO :: u16 where "ATA_PRIMARY_LBA_LO \<equiv> 0x1F3"
abbreviation (input) ATA_PRIMARY_LBA_MID :: u16 where "ATA_PRIMARY_LBA_MID \<equiv> 0x1F4"
abbreviation (input) ATA_PRIMARY_LBA_HI :: u16 where "ATA_PRIMARY_LBA_HI \<equiv> 0x1F5"
abbreviation (input) ATA_PRIMARY_DRIVE :: u16 where "ATA_PRIMARY_DRIVE \<equiv> 0x1F6"
abbreviation (input) ATA_PRIMARY_STATUS :: u16 where "ATA_PRIMARY_STATUS \<equiv> 0x1F7"
abbreviation (input) ATA_PRIMARY_COMMAND :: u16 where "ATA_PRIMARY_COMMAND \<equiv> 0x1F7"
abbreviation (input) ATA_PRIMARY_CTRL :: u16 where "ATA_PRIMARY_CTRL \<equiv> 0x3F6"
abbreviation (input) ATA_SR_BSY :: u8 where "ATA_SR_BSY \<equiv> 0x80"
abbreviation (input) ATA_SR_DF :: u8 where "ATA_SR_DF \<equiv> 0x20"
abbreviation (input) ATA_SR_DRQ :: u8 where "ATA_SR_DRQ \<equiv> 0x08"
abbreviation (input) ATA_SR_ERR :: u8 where "ATA_SR_ERR \<equiv> 0x01"
abbreviation (input) ATA_CMD_READ_PIO :: u8 where "ATA_CMD_READ_PIO \<equiv> 0x20"
abbreviation (input) ATA_CMD_WRITE_PIO :: u8 where "ATA_CMD_WRITE_PIO \<equiv> 0x30"
abbreviation (input) ATA_CMD_CACHE_FLUSH :: u8 where "ATA_CMD_CACHE_FLUSH \<equiv> 0xE7"
abbreviation (input) ATA_CMD_IDENTIFY :: u8 where "ATA_CMD_IDENTIFY \<equiv> 0xEC"
abbreviation (input) ATA_DRIVE_LBA_MASTER :: u8 where "ATA_DRIVE_LBA_MASTER \<equiv> 0xE0"
abbreviation (input) ATA_MAX_LBA28 :: u32 where "ATA_MAX_LBA28 \<equiv> 0x0FFFFFFF"
abbreviation (input) ATA_POLL_LIMIT :: nat where "ATA_POLL_LIMIT \<equiv> 1000000"
abbreviation (input) ATA_RETRY_COUNT :: nat where "ATA_RETRY_COUNT \<equiv> 3"

text \<open>The driver's state: the bus and the flag that a drive was found.\<close>

record 'b ata =
  bus :: 'b
  g_ata_present :: bool

definition in8 :: "'b ports \<Rightarrow> u16 \<Rightarrow> ('b ata, u8) state" where
  "in8 io p = State (\<lambda>s. case inb io p (bus s) of (v, d) \<Rightarrow> (v, s\<lparr>bus := d\<rparr>))"

definition out8 :: "'b ports \<Rightarrow> u16 \<Rightarrow> u8 \<Rightarrow> ('b ata, unit) state" where
  "out8 io p v = modify (\<lambda>s. s\<lparr>bus := outb io p v (bus s)\<rparr>)"

definition in16 :: "'b ports \<Rightarrow> u16 \<Rightarrow> ('b ata, u16) state" where
  "in16 io p = State (\<lambda>s. case inw io p (bus s) of (v, d) \<Rightarrow> (v, s\<lparr>bus := d\<rparr>))"

definition out16 :: "'b ports \<Rightarrow> u16 \<Rightarrow> u16 \<Rightarrow> ('b ata, unit) state" where
  "out16 io p v = modify (\<lambda>s. s\<lparr>bus := outw io p v (bus s)\<rparr>)"

section \<open>The driver\<close>

definition ata_io_delay :: "'b ports \<Rightarrow> ('b ata, unit) state" where
  "ata_io_delay io = do {
     _ \<leftarrow> in8 io ATA_PRIMARY_CTRL;
     _ \<leftarrow> in8 io ATA_PRIMARY_CTRL;
     _ \<leftarrow> in8 io ATA_PRIMARY_CTRL;
     _ \<leftarrow> in8 io ATA_PRIMARY_CTRL;
     ret ()
   }"

text \<open>The polling loops, with the number of polls left.\<close>

primrec poll_not_busy :: "'b ports \<Rightarrow> nat \<Rightarrow> ('b ata, int) state" where
  "poll_not_busy io 0 = ret (- 1)"
| "poll_not_busy io (Suc n) = do {
     s \<leftarrow> in8 io ATA_PRIMARY_STATUS;
     if s AND ATA_SR_BSY = 0 then ret 0 else poll_not_busy io n
   }"

definition ata_wait_not_busy :: "'b ports \<Rightarrow> ('b ata, int) state" where
  "ata_wait_not_busy io = poll_not_busy io ATA_POLL_LIMIT"

primrec poll_drq :: "'b ports \<Rightarrow> nat \<Rightarrow> ('b ata, int) state" where
  "poll_drq io 0 = ret (- 1)"
| "poll_drq io (Suc n) = do {
     s \<leftarrow> in8 io ATA_PRIMARY_STATUS;
     if s AND ATA_SR_BSY \<noteq> 0 then poll_drq io n
     else if s AND (ATA_SR_ERR OR ATA_SR_DF) \<noteq> 0 then ret (- 1)
     else if s AND ATA_SR_DRQ \<noteq> 0 then ret 0
     else poll_drq io n
   }"

definition ata_wait_drq :: "'b ports \<Rightarrow> ('b ata, int) state" where
  "ata_wait_drq io = poll_drq io ATA_POLL_LIMIT"

definition ata_program_lba :: "'b ports \<Rightarrow> u32 \<Rightarrow> u8 \<Rightarrow> ('b ata, unit) state" where
  "ata_program_lba io lba count = do {
     out8 io ATA_PRIMARY_DRIVE (ATA_DRIVE_LBA_MASTER OR ucast (drop_bit 24 lba AND 0x0F));
     ata_io_delay io;
     out8 io ATA_PRIMARY_FEATURES 0;
     out8 io ATA_PRIMARY_SECCOUNT count;
     out8 io ATA_PRIMARY_LBA_LO (ucast (lba AND 0xFF));
     out8 io ATA_PRIMARY_LBA_MID (ucast (drop_bit 8 lba AND 0xFF));
     out8 io ATA_PRIMARY_LBA_HI (ucast (drop_bit 16 lba AND 0xFF))
   }"

definition ata_soft_reset :: "'b ports \<Rightarrow> ('b ata, unit) state" where
  "ata_soft_reset io = do {
     out8 io ATA_PRIMARY_CTRL 0x04;
     ata_io_delay io;
     out8 io ATA_PRIMARY_CTRL 0x00;
     ata_io_delay io;
     _ \<leftarrow> ata_wait_not_busy io;
     ret ()
   }"

primrec drain_words :: "'b ports \<Rightarrow> nat \<Rightarrow> ('b ata, unit) state" where
  "drain_words io 0 = ret ()"
| "drain_words io (Suc n) = do { _ \<leftarrow> in16 io ATA_PRIMARY_DATA; drain_words io n }"

definition ata_identify_master :: "'b ports \<Rightarrow> ('b ata, bool) state" where
  "ata_identify_master io = do {
     out8 io ATA_PRIMARY_DRIVE 0xA0;
     ata_io_delay io;
     out8 io ATA_PRIMARY_SECCOUNT 0;
     out8 io ATA_PRIMARY_LBA_LO 0;
     out8 io ATA_PRIMARY_LBA_MID 0;
     out8 io ATA_PRIMARY_LBA_HI 0;
     out8 io ATA_PRIMARY_COMMAND ATA_CMD_IDENTIFY;
     ata_io_delay io;
     status \<leftarrow> in8 io ATA_PRIMARY_STATUS;
     if status = 0x00 \<or> status = 0xFF then ret False
     else do {
       r \<leftarrow> ata_wait_not_busy io;
       if r \<noteq> 0 then ret False
       else do {
         lba_mid \<leftarrow> in8 io ATA_PRIMARY_LBA_MID;
         lba_hi \<leftarrow> in8 io ATA_PRIMARY_LBA_HI;
         if lba_mid \<noteq> 0 \<or> lba_hi \<noteq> 0 then ret False
         else do {
           r \<leftarrow> ata_wait_drq io;
           if r \<noteq> 0 then ret False
           else do { drain_words io 256; ret True }
         }
       }
     }
   }"

text \<open>
  One sector through the data port, from word \<open>i\<close> on: \<open>off\<close> is where the sector starts in the caller's
  buffer. A source buffer reads as zeros beyond its end.
\<close>

function pio_read_words :: "'b ports \<Rightarrow> nat \<Rightarrow> nat \<Rightarrow> u8 list \<Rightarrow> ('b ata, u8 list) state" where
  "pio_read_words io off i dst =
     (if i < 256 then do {
        w \<leftarrow> in16 io ATA_PRIMARY_DATA;
        pio_read_words io off (Suc i) (copy_into (off + i * 2) [ucast (w AND 0xFF), ucast (drop_bit 8 w AND 0xFF)] dst)
      }
      else ret dst)"
  by pat_completeness auto
termination by (relation "measure (\<lambda>(io, off, i, dst). 256 - i)") auto

definition ata_pio_read_sector :: "'b ports \<Rightarrow> nat \<Rightarrow> u8 list \<Rightarrow> ('b ata, u8 list) state" where
  "ata_pio_read_sector io off dst = pio_read_words io off 0 dst"

definition byte_at :: "u8 list \<Rightarrow> nat \<Rightarrow> u8" where
  "byte_at src i = (if i < length src then src ! i else 0)"

function pio_write_words :: "'b ports \<Rightarrow> nat \<Rightarrow> nat \<Rightarrow> u8 list \<Rightarrow> ('b ata, unit) state" where
  "pio_write_words io off i src =
     (if i < 256 then do {
        out16 io ATA_PRIMARY_DATA (ucast (byte_at src (off + i * 2)) OR push_bit 8 (ucast (byte_at src (off + i * 2 + 1))));
        pio_write_words io off (Suc i) src
      }
      else ret ())"
  by pat_completeness auto
termination by (relation "measure (\<lambda>(io, off, i, src). 256 - i)") auto

definition ata_pio_write_sector :: "'b ports \<Rightarrow> nat \<Rightarrow> u8 list \<Rightarrow> ('b ata, unit) state" where
  "ata_pio_write_sector io off src = pio_write_words io off 0 src"

text \<open>The sector loops, for \<open>n\<close> more sectors from sector \<open>i\<close> of the buffer on.\<close>

primrec read_sectors :: "'b ports \<Rightarrow> nat \<Rightarrow> nat \<Rightarrow> u8 list \<Rightarrow> ('b ata, int \<times> u8 list) state" where
  "read_sectors io 0 i dst = ret (0, dst)"
| "read_sectors io (Suc n) i dst = do {
     r \<leftarrow> ata_wait_drq io;
     if r \<noteq> 0 then ret (- 1, dst)
     else do {
       dst' \<leftarrow> ata_pio_read_sector io (i * SECTOR_SIZE) dst;
       read_sectors io n (Suc i) dst'
     }
   }"

definition ata_read_once :: "'b ports \<Rightarrow> u32 \<Rightarrow> u8 \<Rightarrow> u8 list \<Rightarrow> ('b ata, int \<times> u8 list) state" where
  "ata_read_once io lba count dst = do {
     r \<leftarrow> ata_wait_not_busy io;
     if r \<noteq> 0 then ret (- 1, dst)
     else do {
       ata_program_lba io lba count;
       out8 io ATA_PRIMARY_COMMAND ATA_CMD_READ_PIO;
       ata_io_delay io;
       read_sectors io (unat count) 0 dst
     }
   }"

primrec write_sectors :: "'b ports \<Rightarrow> nat \<Rightarrow> nat \<Rightarrow> u8 list \<Rightarrow> ('b ata, int) state" where
  "write_sectors io 0 i src = ret 0"
| "write_sectors io (Suc n) i src = do {
     r \<leftarrow> ata_wait_drq io;
     if r \<noteq> 0 then ret (- 1)
     else do {
       ata_pio_write_sector io (i * SECTOR_SIZE) src;
       write_sectors io n (Suc i) src
     }
   }"

definition ata_write_once :: "'b ports \<Rightarrow> u32 \<Rightarrow> u8 \<Rightarrow> u8 list \<Rightarrow> ('b ata, int) state" where
  "ata_write_once io lba count src = do {
     r \<leftarrow> ata_wait_not_busy io;
     if r \<noteq> 0 then ret (- 1)
     else do {
       ata_program_lba io lba count;
       out8 io ATA_PRIMARY_COMMAND ATA_CMD_WRITE_PIO;
       ata_io_delay io;
       r \<leftarrow> write_sectors io (unat count) 0 src;
       if r \<noteq> 0 then ret (- 1)
       else do {
         out8 io ATA_PRIMARY_COMMAND ATA_CMD_CACHE_FLUSH;
         ata_io_delay io;
         ata_wait_not_busy io
       }
     }
   }"

definition ata_init :: "'b ports \<Rightarrow> ('b ata, unit) state" where
  "ata_init io = do {
     modify (g_ata_present_update (\<lambda>_. False));
     out8 io ATA_PRIMARY_CTRL 0x02;
     ata_io_delay io;
     ata_soft_reset io;
     found \<leftarrow> ata_identify_master io;
     modify (g_ata_present_update (\<lambda>_. found))
   }"

definition ata_is_present :: "('b ata, bool) state" where
  "ata_is_present = gets g_ata_present"

text \<open>The retry loops, with the number of attempts left.\<close>

primrec read_attempts :: "'b ports \<Rightarrow> nat \<Rightarrow> u32 \<Rightarrow> u8 \<Rightarrow> u8 list \<Rightarrow> ('b ata, int \<times> u8 list) state" where
  "read_attempts io 0 lba count dst = ret (- 1, dst)"
| "read_attempts io (Suc n) lba count dst = do {
     (r, dst') \<leftarrow> ata_read_once io lba count dst;
     if r = 0 then ret (0, dst')
     else do { ata_soft_reset io; read_attempts io n lba count dst' }
   }"

definition ata_read_sectors :: "'b ports \<Rightarrow> u32 \<Rightarrow> u8 \<Rightarrow> u8 list option \<Rightarrow> ('b ata, int \<times> u8 list option) state" where
  "ata_read_sectors io lba count buffer = do {
     present \<leftarrow> gets g_ata_present;
     case buffer of
       None \<Rightarrow> ret (- 1, buffer)
     | Some dst \<Rightarrow>
         if count = 0 then ret (- 1, buffer)
         else if lba > ATA_MAX_LBA28 then ret (- 1, buffer)
         else if \<not> present then ret (- 1, buffer)
         else do {
           (r, dst') \<leftarrow> read_attempts io ATA_RETRY_COUNT lba count dst;
           ret (r, Some dst')
         }
   }"

primrec write_attempts :: "'b ports \<Rightarrow> nat \<Rightarrow> u32 \<Rightarrow> u8 \<Rightarrow> u8 list \<Rightarrow> ('b ata, int) state" where
  "write_attempts io 0 lba count src = ret (- 1)"
| "write_attempts io (Suc n) lba count src = do {
     r \<leftarrow> ata_write_once io lba count src;
     if r = 0 then ret 0
     else do { ata_soft_reset io; write_attempts io n lba count src }
   }"

definition ata_write_sectors :: "'b ports \<Rightarrow> u32 \<Rightarrow> u8 \<Rightarrow> u8 list option \<Rightarrow> ('b ata, int) state" where
  "ata_write_sectors io lba count buffer = do {
     present \<leftarrow> gets g_ata_present;
     case buffer of
       None \<Rightarrow> ret (- 1)
     | Some src \<Rightarrow>
         if count = 0 then ret (- 1)
         else if lba > ATA_MAX_LBA28 then ret (- 1)
         else if \<not> present then ret (- 1)
         else write_attempts io ATA_RETRY_COUNT lba count src
   }"

text \<open>The entry points the file system calls.\<close>

definition ata_driver :: "'b ports \<Rightarrow> 'b ata driver" where
  "ata_driver io = \<lparr>drv_init = (\<lambda>s. snd (run_state (ata_init io) s)),
     drv_present = (\<lambda>s. fst (run_state ata_is_present s)),
     drv_read = (\<lambda>lba count buf s. case run_state (ata_read_sectors io lba count (Some buf)) s of
       ((r, buf'), s') \<Rightarrow> ((r, the buf'), s')),
     drv_write = (\<lambda>lba count buf s. run_state (ata_write_sectors io lba count (Some buf)) s)\<rparr>"

declare pio_read_words.simps [simp del] pio_write_words.simps [simp del]

section \<open>The drive\<close>

text \<open>
  What can be observed of a drive: the phase of the current command, for how many more reads of the
  status register it will be busy, how many commands in a row it has refused, the task file and the sectors
  on the medium. \<open>Data_in\<close> holds the bytes still to be read from the data port; \<open>Data_out\<close> the address, the
  number of sectors still expected and the bytes of the current sector received so far.
\<close>

datatype phase = Idle | Data_in "u8 list" | Data_out u32 nat "u8 list" | Faulted | In_reset

record drive =
  phase :: phase
  wait :: nat
  fails :: nat
  regs :: "u16 \<Rightarrow> u8"
  media :: sectors

abbreviation ready :: "drive \<Rightarrow> bool" where
  "ready a \<equiv> phase a = Idle \<and> wait a = 0"

text \<open>The 28-bit sector address in the task file.\<close>

definition reg_lba :: "(u16 \<Rightarrow> u8) \<Rightarrow> u32" where
  "reg_lba r = of_le [r ATA_PRIMARY_LBA_LO, r ATA_PRIMARY_LBA_MID, r ATA_PRIMARY_LBA_HI, r ATA_PRIMARY_DRIVE AND 0x0F]"

definition sectors_at :: "sectors \<Rightarrow> u32 \<Rightarrow> nat \<Rightarrow> u8 list" where
  "sectors_at m lba n = concat (map (\<lambda>i. m (lba + of_nat i)) [0..<n])"

text \<open>A transfer command for \<open>n\<close> sectors that exist, in LBA mode on the master.\<close>

definition transfer_ok :: "nat \<Rightarrow> drive \<Rightarrow> nat \<Rightarrow> bool" where
  "transfer_ok cap a n \<longleftrightarrow> ready a \<and> regs a ATA_PRIMARY_DRIVE AND 0xF0 = ATA_DRIVE_LBA_MASTER \<and>
     n = unat (regs a ATA_PRIMARY_SECCOUNT) \<and> 0 < n \<and> unat (reg_lba (regs a)) + n \<le> cap"

text \<open>
  Status and control. While a drive is busy it says so and does nothing else, and it does not stay busy for
  ever; a command written to a busy drive is ignored. When it is not busy it shows whether it expects a
  data transfer and whether the last command failed. Setting and clearing the reset bit brings it back to
  the idle phase.
\<close>

definition status_laws :: "'b ports \<Rightarrow> ('b \<Rightarrow> drive) \<Rightarrow> bool" where
  "status_laws io obs \<longleftrightarrow>
     (\<forall>d. \<exists>st d'. inb io ATA_PRIMARY_STATUS d = (st, d') \<and> st \<noteq> 0xFF \<and>
        (if wait (obs d) = 0
         then \<not> bit st 7 \<and> obs d' = obs d \<and> (st AND 0x21 \<noteq> 0 \<longleftrightarrow> phase (obs d) = Faulted) \<and>
              (bit st 3 \<longleftrightarrow> (\<exists>bs. phase (obs d) = Data_in bs) \<or> (\<exists>l n bs. phase (obs d) = Data_out l n bs))
         else bit st 7 \<and> (\<exists>w < wait (obs d). obs d' = (obs d)\<lparr>wait := w\<rparr>))) \<and>
     (\<forall>d. \<exists>st d' w. inb io ATA_PRIMARY_CTRL d = (st, d') \<and> w \<le> wait (obs d) \<and> obs d' = (obs d)\<lparr>wait := w\<rparr>) \<and>
     (\<forall>d v. 0 < wait (obs d) \<longrightarrow> obs (outb io ATA_PRIMARY_COMMAND v d) = obs d) \<and>
     (\<forall>d v. bit v 2 \<longrightarrow> (\<exists>w. obs (outb io ATA_PRIMARY_CTRL v d) = (obs d)\<lparr>phase := In_reset, wait := w\<rparr>)) \<and>
     (\<forall>d v. \<not> bit v 2 \<longrightarrow>
        (if phase (obs d) = In_reset
         then \<exists>w < ATA_POLL_LIMIT. \<exists>r. obs (outb io ATA_PRIMARY_CTRL v d) = (obs d)\<lparr>phase := Idle, wait := w, regs := r\<rparr>
         else obs (outb io ATA_PRIMARY_CTRL v d) = obs d))"

text \<open>
  Registers and commands. The task file can be written when the drive is idle and keeps what is written.
  A transfer command starts the transfer or is refused, but never three times in a row; no command but the
  data it transfers changes the medium.
\<close>

definition command_laws :: "'b ports \<Rightarrow> ('b \<Rightarrow> drive) \<Rightarrow> nat \<Rightarrow> bool" where
  "command_laws io obs cap \<longleftrightarrow>
     (\<forall>d p v. ready (obs d) \<and> p \<in> {0x1F1, 0x1F2, 0x1F3, 0x1F4, 0x1F5, 0x1F6} \<longrightarrow>
        obs (outb io p v d) = (obs d)\<lparr>regs := (regs (obs d))(p := v)\<rparr>) \<and>
     (\<forall>d p. wait (obs d) = 0 \<and> p \<in> {ATA_PRIMARY_LBA_MID, ATA_PRIMARY_LBA_HI} \<longrightarrow>
        (\<exists>d'. inb io p d = (regs (obs d) p, d') \<and> obs d' = obs d)) \<and>
     (\<forall>d n. transfer_ok cap (obs d) n \<longrightarrow> (\<exists>w < ATA_POLL_LIMIT. obs (outb io ATA_PRIMARY_COMMAND ATA_CMD_READ_PIO d) \<in>
        {(obs d)\<lparr>phase := Data_in (sectors_at (media (obs d)) (reg_lba (regs (obs d))) n), wait := w, fails := 0\<rparr>,
         (obs d)\<lparr>phase := Faulted, wait := w, fails := Suc (fails (obs d))\<rparr>})) \<and>
     (\<forall>d n. transfer_ok cap (obs d) n \<longrightarrow> (\<exists>w < ATA_POLL_LIMIT. obs (outb io ATA_PRIMARY_COMMAND ATA_CMD_WRITE_PIO d) \<in>
        {(obs d)\<lparr>phase := Data_out (reg_lba (regs (obs d))) n [], wait := w, fails := 0\<rparr>,
         (obs d)\<lparr>phase := Faulted, wait := w, fails := Suc (fails (obs d))\<rparr>})) \<and>
     (\<forall>d. fails (obs d) < 3) \<and>
     (\<forall>d. ready (obs d) \<longrightarrow> (\<exists>w < ATA_POLL_LIMIT. obs (outb io ATA_PRIMARY_COMMAND ATA_CMD_CACHE_FLUSH d) = (obs d)\<lparr>wait := w\<rparr>)) \<and>
     (\<forall>d. ready (obs d) \<longrightarrow> (\<exists>w < ATA_POLL_LIMIT. \<exists>bs. length bs = 512 \<and>
        obs (outb io ATA_PRIMARY_COMMAND ATA_CMD_IDENTIFY d) = (obs d)\<lparr>phase := Data_in bs, wait := w, fails := 0,
          regs := (regs (obs d))(ATA_PRIMARY_LBA_MID := 0, ATA_PRIMARY_LBA_HI := 0)\<rparr>))"

text \<open>
  The data port moves one word of two bytes, low byte first. Between sectors and after the last one the
  drive may be busy for a while.
\<close>

definition data_laws :: "'b ports \<Rightarrow> ('b \<Rightarrow> drive) \<Rightarrow> bool" where
  "data_laws io obs \<longleftrightarrow>
     (\<forall>d x y bs. wait (obs d) = 0 \<and> phase (obs d) = Data_in (x # y # bs) \<longrightarrow>
        (\<exists>d' w. inw io ATA_PRIMARY_DATA d = (of_le [x, y], d') \<and> w < ATA_POLL_LIMIT \<and> (length bs mod 512 \<noteq> 0 \<longrightarrow> w = 0) \<and>
           obs d' = (obs d)\<lparr>phase := if bs = [] then Idle else Data_in bs, wait := w\<rparr>)) \<and>
     (\<forall>d x y l n bs. wait (obs d) = 0 \<and> phase (obs d) = Data_out l (Suc n) bs \<longrightarrow>
        (if length bs + 2 < 512
         then obs (outw io ATA_PRIMARY_DATA (of_le [x, y]) d) = (obs d)\<lparr>phase := Data_out l (Suc n) (bs @ [x, y])\<rparr>
         else \<exists>w < ATA_POLL_LIMIT. obs (outw io ATA_PRIMARY_DATA (of_le [x, y]) d) =
           (obs d)\<lparr>phase := if n = 0 then Idle else Data_out (l + 1) n [], wait := w, media := (media (obs d))(l := bs @ [x, y])\<rparr>))"

definition ata_drive :: "'b ports \<Rightarrow> ('b \<Rightarrow> drive) \<Rightarrow> nat \<Rightarrow> bool" where
  "ata_drive io obs cap \<longleftrightarrow> status_laws io obs \<and> command_laws io obs cap \<and> data_laws io obs"

section \<open>Reasoning about the driver\<close>

text \<open>
  From a drive in a state with \<open>P\<close> the program returns, with a result and a state of the drive that satisfy
  \<open>Q\<close>; it does not touch the flag.
\<close>

definition triple :: "('b \<Rightarrow> drive) \<Rightarrow> (drive \<Rightarrow> bool) \<Rightarrow> ('b ata, 'a) state \<Rightarrow> ('a \<Rightarrow> drive \<Rightarrow> bool) \<Rightarrow> bool" where
  "triple obs P f Q \<longleftrightarrow> (\<forall>s. P (obs (bus s)) \<longrightarrow>
     (\<exists>r s'. run_state f s = (r, s') \<and> Q r (obs (bus s')) \<and> g_ata_present s' = g_ata_present s))"

lemma triple_ret: "(\<And>a. P a \<Longrightarrow> Q x a) \<Longrightarrow> triple obs P (ret x) Q"
  by (simp add: triple_def)

lemma triple_bind:
  fixes f :: "('b ata, 'a) state"
  assumes f: "triple obs P f R" and g: "\<And>r. triple obs (R r) (g r) Q"
  shows "triple obs P (f \<bind> g) Q"
  unfolding triple_def
proof (intro allI impI)
  fix s :: "'b ata"
  assume "P (obs (bus s))"
  then obtain r s' where r: "run_state f s = (r, s')" "R r (obs (bus s'))" "g_ata_present s' = g_ata_present s"
    using f unfolding triple_def by blast
  then obtain q s'' where "run_state (g r) s' = (q, s'')" "Q q (obs (bus s''))" "g_ata_present s'' = g_ata_present s'"
    using g[of r] unfolding triple_def by blast
  then show "\<exists>r s'. run_state (f \<bind> g) s = (r, s') \<and> Q r (obs (bus s')) \<and> g_ata_present s' = g_ata_present s"
    using r by simp
qed

lemma triple_bind_eq:
  assumes "triple obs P f (\<lambda>r a. r = x \<and> R a)" and "triple obs R (g x) Q"
  shows "triple obs P (f \<bind> g) Q"
proof (rule triple_bind[OF assms(1)])
  show "triple obs (\<lambda>a. r = x \<and> R a) (g r) Q" for r
    using assms(2) by (cases "r = x") (simp_all add: triple_def)
qed

lemma triple_weaken:
  assumes "triple obs P' f Q'" and "\<And>a. P a \<Longrightarrow> P' a" and "\<And>r a. Q' r a \<Longrightarrow> Q r a"
  shows "triple obs P f Q"
  using assms unfolding triple_def by meson

lemma triple_cases: "(\<And>a. P a \<Longrightarrow> triple obs ((=) a) f Q) \<Longrightarrow> triple obs P f Q"
  unfolding triple_def by blast

lemma triple_flip [simp]: "triple obs (\<lambda>a. a = b) f Q \<longleftrightarrow> triple obs ((=) b) f Q"
proof -
  have "(\<lambda>a. a = b) = (=) b" by auto
  then show ?thesis by simp
qed

lemma triple_false: "(\<And>a. \<not> P a) \<Longrightarrow> triple obs P f Q"
  by (simp add: triple_def)

lemma triple_in8:
  "(\<And>d. P (obs d) \<Longrightarrow> Q (fst (inb io p d)) (obs (snd (inb io p d)))) \<Longrightarrow> triple obs P (in8 io p) Q"
  by (simp add: triple_def in8_def split_beta)

lemma triple_out8: "(\<And>d. P (obs d) \<Longrightarrow> Q () (obs (outb io p v d))) \<Longrightarrow> triple obs P (out8 io p v) Q"
  by (auto simp: triple_def out8_def)

lemma triple_in16:
  "(\<And>d. P (obs d) \<Longrightarrow> Q (fst (inw io p d)) (obs (snd (inw io p d)))) \<Longrightarrow> triple obs P (in16 io p) Q"
  by (simp add: triple_def in16_def split_beta)

lemma triple_out16: "(\<And>d. P (obs d) \<Longrightarrow> Q () (obs (outw io p v d))) \<Longrightarrow> triple obs P (out16 io p v) Q"
  by (auto simp: triple_def out16_def)

text \<open>The same drive, but perhaps busy for a while.\<close>

definition soon :: "drive \<Rightarrow> drive \<Rightarrow> bool" where
  "soon b a \<longleftrightarrow> (\<exists>w < ATA_POLL_LIMIT. a = b\<lparr>wait := w\<rparr>)"

lemma soonI: "w < ATA_POLL_LIMIT \<Longrightarrow> soon b (b\<lparr>wait := w\<rparr>)"
  by (auto simp: soon_def)

lemma status_lawsD:
  assumes "status_laws io obs"
  shows "\<exists>st d'. inb io 0x1F7 d = (st, d') \<and> st \<noteq> 0xFF \<and>
        (if wait (obs d) = 0
         then \<not> bit st 7 \<and> obs d' = obs d \<and> (st AND 0x21 \<noteq> 0 \<longleftrightarrow> phase (obs d) = Faulted) \<and>
              (bit st 3 \<longleftrightarrow> (\<exists>bs. phase (obs d) = Data_in bs) \<or> (\<exists>l n bs. phase (obs d) = Data_out l n bs))
         else bit st 7 \<and> (\<exists>w < wait (obs d). obs d' = (obs d)\<lparr>wait := w\<rparr>))"
    and "\<exists>st d' w. inb io 0x3F6 d = (st, d') \<and> w \<le> wait (obs d) \<and> obs d' = (obs d)\<lparr>wait := w\<rparr>"
    and "0 < wait (obs d) \<Longrightarrow> obs (outb io 0x1F7 v d) = obs d"
    and "bit v 2 \<Longrightarrow> \<exists>w. obs (outb io 0x3F6 v d) = (obs d)\<lparr>phase := In_reset, wait := w\<rparr>"
    and "\<not> bit v 2 \<Longrightarrow> phase (obs d) = In_reset \<Longrightarrow>
      \<exists>w < ATA_POLL_LIMIT. \<exists>r. obs (outb io 0x3F6 v d) = (obs d)\<lparr>phase := Idle, wait := w, regs := r\<rparr>"
    and "\<not> bit v 2 \<Longrightarrow> phase (obs d) \<noteq> In_reset \<Longrightarrow> obs (outb io 0x3F6 v d) = obs d"
proof -
  note L = assms[unfolded status_laws_def]
  show "\<exists>st d'. inb io 0x1F7 d = (st, d') \<and> st \<noteq> 0xFF \<and>
        (if wait (obs d) = 0
         then \<not> bit st 7 \<and> obs d' = obs d \<and> (st AND 0x21 \<noteq> 0 \<longleftrightarrow> phase (obs d) = Faulted) \<and>
              (bit st 3 \<longleftrightarrow> (\<exists>bs. phase (obs d) = Data_in bs) \<or> (\<exists>l n bs. phase (obs d) = Data_out l n bs))
         else bit st 7 \<and> (\<exists>w < wait (obs d). obs d' = (obs d)\<lparr>wait := w\<rparr>))"
    using L[THEN conjunct1] by (rule spec)
  note L2 = L[THEN conjunct2]
  show "\<exists>st d' w. inb io 0x3F6 d = (st, d') \<and> w \<le> wait (obs d) \<and> obs d' = (obs d)\<lparr>wait := w\<rparr>"
    using L2[THEN conjunct1] by (rule spec)
  note L3 = L2[THEN conjunct2]
  show "0 < wait (obs d) \<Longrightarrow> obs (outb io 0x1F7 v d) = obs d" using L3[THEN conjunct1] by blast
  note L4 = L3[THEN conjunct2]
  show "bit v 2 \<Longrightarrow> \<exists>w. obs (outb io 0x3F6 v d) = (obs d)\<lparr>phase := In_reset, wait := w\<rparr>"
    using L4[THEN conjunct1] by blast
  note L5 = L4[THEN conjunct2, THEN spec[of _ d], THEN spec[of _ v]]
  show "\<not> bit v 2 \<Longrightarrow> phase (obs d) = In_reset \<Longrightarrow>
      \<exists>w < ATA_POLL_LIMIT. \<exists>r. obs (outb io 0x3F6 v d) = (obs d)\<lparr>phase := Idle, wait := w, regs := r\<rparr>"
    "\<not> bit v 2 \<Longrightarrow> phase (obs d) \<noteq> In_reset \<Longrightarrow> obs (outb io 0x3F6 v d) = obs d"
    using L5 by simp_all
qed

lemma bit_masks: "st AND 0x80 = 0 \<longleftrightarrow> \<not> bit st 7" "st AND 0x08 = 0 \<longleftrightarrow> \<not> bit st 3" for st :: u8
  using and_exp_eq_0_iff_not_bit[of st 7] and_exp_eq_0_iff_not_bit[of st 3] by simp_all

section \<open>Waiting\<close>

lemma alt_status_read:
  assumes "status_laws io obs"
  shows "triple obs (\<lambda>a. \<exists>w \<le> W. a = b\<lparr>wait := w\<rparr>) (in8 io 0x3F6) (\<lambda>_ a. \<exists>w \<le> W. a = b\<lparr>wait := w\<rparr>)"
proof (rule triple_in8)
  fix d assume "\<exists>w \<le> W. obs d = b\<lparr>wait := w\<rparr>"
  then obtain w where w: "w \<le> W" "obs d = b\<lparr>wait := w\<rparr>" by blast
  obtain st d' v where "inb io 0x3F6 d = (st, d')" "v \<le> wait (obs d)" "obs d' = (obs d)\<lparr>wait := v\<rparr>"
    using status_lawsD(2)[OF assms, of d] by blast
  then show "\<exists>w \<le> W. obs (snd (inb io 0x3F6 d)) = b\<lparr>wait := w\<rparr>" using w by (intro exI[of _ v]) simp
qed

lemma delay_spec:
  assumes "status_laws io obs"
  shows "triple obs (\<lambda>a. \<exists>w \<le> W. a = b\<lparr>wait := w\<rparr>) (ata_io_delay io) (\<lambda>_ a. \<exists>w \<le> W. a = b\<lparr>wait := w\<rparr>)"
  unfolding ata_io_delay_def
  by (rule triple_bind[OF alt_status_read[OF assms]] triple_ret)+

lemma soon_iff: "soon b a \<longleftrightarrow> (\<exists>w \<le> 999999. a = b\<lparr>wait := w\<rparr>)"
proof -
  have "w < 1000000 \<longleftrightarrow> w \<le> 999999" for w :: nat by linarith
  then show ?thesis by (simp add: soon_def)
qed

lemma delay_soon: "status_laws io obs \<Longrightarrow> triple obs (soon b) (ata_io_delay io) (\<lambda>_. soon b)"
  unfolding soon_iff by (rule delay_spec)

lemma delay_ready: "status_laws io obs \<Longrightarrow> wait b = 0 \<Longrightarrow> triple obs ((=) b) (ata_io_delay io) (\<lambda>_. (=) b)"
  by (rule triple_weaken[OF delay_spec[where W = 0 and b = b]]) auto

lemma delay_any: "status_laws io obs \<Longrightarrow> triple obs (\<lambda>a. \<exists>w. a = b\<lparr>wait := w\<rparr>) (ata_io_delay io) (\<lambda>_ a. \<exists>w. a = b\<lparr>wait := w\<rparr>)"
proof (rule triple_cases)
  fix a assume L: "status_laws io obs" and "\<exists>w. a = b\<lparr>wait := w\<rparr>"
  then obtain w where "a = b\<lparr>wait := w\<rparr>" by blast
  then show "triple obs ((=) a) (ata_io_delay io) (\<lambda>_ a. \<exists>w. a = b\<lparr>wait := w\<rparr>)"
    by (intro triple_weaken[OF delay_spec[OF L, where W = w and b = b]]) auto
qed

lemma status_read_busy:
  assumes "status_laws io obs" and "0 < wait a"
  shows "triple obs ((=) a) (in8 io 0x1F7) (\<lambda>st a'. st AND 0x80 \<noteq> 0 \<and> (\<exists>w < wait a. a' = a\<lparr>wait := w\<rparr>))"
proof (rule triple_in8)
  fix d assume "a = obs d"
  then show "fst (inb io 0x1F7 d) AND 0x80 \<noteq> 0 \<and> (\<exists>w < wait a. obs (snd (inb io 0x1F7 d)) = a\<lparr>wait := w\<rparr>)"
    using status_lawsD(1)[OF assms(1), of d] assms(2) by (auto simp: bit_masks)
qed

lemma status_read_ready:
  assumes "status_laws io obs" and "wait a = 0"
  shows "triple obs ((=) a) (in8 io 0x1F7) (\<lambda>st a'. st AND 0x80 = 0 \<and> a' = a \<and> (st AND 0x21 \<noteq> 0 \<longleftrightarrow> phase a = Faulted) \<and>
    (st AND 0x08 \<noteq> 0 \<longleftrightarrow> (\<exists>bs. phase a = Data_in bs) \<or> (\<exists>l n bs. phase a = Data_out l n bs)))"
proof (rule triple_in8)
  fix d assume a: "a = obs d"
  obtain st d' where "inb io 0x1F7 d = (st, d')" "\<not> bit st 7" "obs d' = obs d" "st AND 0x21 \<noteq> 0 \<longleftrightarrow> phase (obs d) = Faulted"
      "bit st 3 \<longleftrightarrow> (\<exists>bs. phase (obs d) = Data_in bs) \<or> (\<exists>l n bs. phase (obs d) = Data_out l n bs)"
    using status_lawsD(1)[OF assms(1), of d] assms(2) a by auto
  then show "fst (inb io 0x1F7 d) AND 0x80 = 0 \<and> obs (snd (inb io 0x1F7 d)) = a \<and>
      (fst (inb io 0x1F7 d) AND 0x21 \<noteq> 0 \<longleftrightarrow> phase a = Faulted) \<and>
      (fst (inb io 0x1F7 d) AND 0x08 \<noteq> 0 \<longleftrightarrow> (\<exists>bs. phase a = Data_in bs) \<or> (\<exists>l n bs. phase a = Data_out l n bs))"
    using a by (simp add: bit_masks)
qed

lemma poll_not_busy_spec:
  assumes "status_laws io obs"
  shows "wait a < n \<Longrightarrow> triple obs ((=) a) (poll_not_busy io n) (\<lambda>r a'. r = 0 \<and> a' = a\<lparr>wait := 0\<rparr>)"
proof (induction n arbitrary: a)
  case (Suc n)
  show ?case
  proof (cases "wait a = 0")
    case True
    show ?thesis unfolding poll_not_busy.simps
      by (rule triple_bind[OF status_read_ready[OF assms True]]) (auto simp: True intro: triple_ret triple_false)
  next
    case False
    then have "0 < wait a" by simp
    show ?thesis unfolding poll_not_busy.simps
    proof (rule triple_bind[OF status_read_busy[OF assms \<open>0 < wait a\<close>]], rule triple_cases)
      fix st a' assume a: "st AND 0x80 \<noteq> 0 \<and> (\<exists>w < wait a. a' = a\<lparr>wait := w\<rparr>)"
      then have "wait a' < n" "a'\<lparr>wait := 0\<rparr> = a\<lparr>wait := 0\<rparr>" using Suc.prems by auto
      then show "triple obs ((=) a') (if st AND 0x80 = 0 then ret 0 else poll_not_busy io n) (\<lambda>r a'. r = 0 \<and> a' = a\<lparr>wait := 0\<rparr>)"
        using Suc.IH[of a'] a by simp
    qed
  qed
qed simp

lemma wait_not_busy_spec:
  assumes "status_laws io obs"
  shows "triple obs (soon b) (ata_wait_not_busy io) (\<lambda>r a. r = 0 \<and> a = b\<lparr>wait := 0\<rparr>)"
proof (rule triple_cases)
  fix a assume "soon b a"
  then obtain w where "w < 1000000" "a = b\<lparr>wait := w\<rparr>" by (auto simp: soon_def)
  then show "triple obs ((=) a) (ata_wait_not_busy io) (\<lambda>r a. r = 0 \<and> a = b\<lparr>wait := 0\<rparr>)"
    using poll_not_busy_spec[OF assms, of a 1000000] by (simp add: ata_wait_not_busy_def)
qed

lemma poll_drq_spec:
  assumes "status_laws io obs" and ph: "phase a = Faulted \<or> (\<exists>bs. phase a = Data_in bs) \<or> (\<exists>l n bs. phase a = Data_out l n bs)"
  shows "wait a < n \<Longrightarrow> triple obs ((=) a) (poll_drq io n) (\<lambda>r a'. r = (if phase a = Faulted then - 1 else 0) \<and> a' = a\<lparr>wait := 0\<rparr>)"
  using ph
proof (induction n arbitrary: a)
  case (Suc n)
  show ?case
  proof (cases "wait a = 0")
    case True
    show ?thesis unfolding poll_drq.simps
      by (rule triple_bind[OF status_read_ready[OF assms(1) True]]) (use Suc.prems(2) True in \<open>auto intro: triple_ret triple_false\<close>)
  next
    case False
    then have "0 < wait a" by simp
    show ?thesis unfolding poll_drq.simps
    proof (rule triple_bind[OF status_read_busy[OF assms(1) \<open>0 < wait a\<close>]], rule triple_cases)
      fix st a' assume a: "st AND 0x80 \<noteq> 0 \<and> (\<exists>w < wait a. a' = a\<lparr>wait := w\<rparr>)"
      then have "wait a' < n" "a'\<lparr>wait := 0\<rparr> = a\<lparr>wait := 0\<rparr>" "phase a' = phase a" using Suc.prems by auto
      then show "triple obs ((=) a') (if st AND 0x80 \<noteq> 0 then poll_drq io n else if st AND (0x01 OR 0x20) \<noteq> 0 then ret (- 1)
          else if st AND 0x08 \<noteq> 0 then ret 0 else poll_drq io n)
          (\<lambda>r a'. r = (if phase a = Faulted then - 1 else 0) \<and> a' = a\<lparr>wait := 0\<rparr>)"
        using Suc.IH[of a'] Suc.prems(2) a by simp
    qed
  qed
qed simp

lemma wait_drq_spec:
  assumes "status_laws io obs" and ph: "phase b = Faulted \<or> (\<exists>bs. phase b = Data_in bs) \<or> (\<exists>l n bs. phase b = Data_out l n bs)"
  shows "triple obs (soon b) (ata_wait_drq io) (\<lambda>r a. r = (if phase b = Faulted then - 1 else 0) \<and> a = b\<lparr>wait := 0\<rparr>)"
proof (rule triple_cases)
  fix a assume "soon b a"
  then obtain w where "w < 1000000" "a = b\<lparr>wait := w\<rparr>" by (auto simp: soon_def)
  then show "triple obs ((=) a) (ata_wait_drq io) (\<lambda>r a. r = (if phase b = Faulted then - 1 else 0) \<and> a = b\<lparr>wait := 0\<rparr>)"
    using poll_drq_spec[OF assms(1), of a 1000000] ph by (simp add: ata_wait_drq_def)
qed

lemma soft_reset_spec:
  assumes "status_laws io obs"
  shows "triple obs ((=) a) (ata_soft_reset io) (\<lambda>_ a'. \<exists>r. a' = a\<lparr>phase := Idle, wait := 0, regs := r\<rparr>)"
  unfolding ata_soft_reset_def
proof (rule triple_bind[where R = "\<lambda>_ a'. \<exists>w. a' = a\<lparr>phase := In_reset, wait := w\<rparr>"])
  show "triple obs ((=) a) (out8 io 0x3F6 4) (\<lambda>_ a'. \<exists>w. a' = a\<lparr>phase := In_reset, wait := w\<rparr>)"
  proof (rule triple_out8)
    fix d assume "a = obs d"
    then show "\<exists>w. obs (outb io 0x3F6 4 d) = a\<lparr>phase := In_reset, wait := w\<rparr>"
      using status_lawsD(4)[OF assms, of 4 d] by (simp add: bit_numeral_rec)
  qed
next
  let ?b = "\<lambda>r. a\<lparr>phase := Idle, regs := r\<rparr>"
  have e: "a\<lparr>phase := Idle, wait := w, regs := r\<rparr> = (?b r)\<lparr>wait := w\<rparr>" for w r by simp
  have o: "triple obs (\<lambda>a'. \<exists>w. a' = (a\<lparr>phase := In_reset\<rparr>)\<lparr>wait := w\<rparr>) (out8 io 0x3F6 0) (\<lambda>_ a'. \<exists>r. soon (?b r) a')"
  proof (rule triple_out8)
    fix d assume "\<exists>w. obs d = (a\<lparr>phase := In_reset\<rparr>)\<lparr>wait := w\<rparr>"
    then obtain w where d: "obs d = (a\<lparr>phase := In_reset\<rparr>)\<lparr>wait := w\<rparr>" by blast
    then obtain w' r where "w' < 1000000" "obs (outb io 0x3F6 0 d) = (obs d)\<lparr>phase := Idle, wait := w', regs := r\<rparr>"
      using status_lawsD(5)[OF assms, of 0 d] by auto
    then show "\<exists>r. soon (?b r) (obs (outb io 0x3F6 0 d))" using d by (intro exI[of _ r]) (auto simp: soon_def)
  qed
  have dl: "triple obs (\<lambda>a'. \<exists>r. soon (?b r) a') (ata_io_delay io) (\<lambda>_ a'. \<exists>r. soon (?b r) a')"
    by (rule triple_cases) (blast intro: triple_weaken[OF delay_soon[OF assms]])
  have w: "triple obs (\<lambda>a'. \<exists>r. soon (?b r) a') (ata_wait_not_busy io) (\<lambda>_ a'. \<exists>r. a' = a\<lparr>phase := Idle, wait := 0, regs := r\<rparr>)"
    by (rule triple_cases) (auto simp: e intro: triple_weaken[OF wait_not_busy_spec[OF assms]])
  show "triple obs (\<lambda>a'. \<exists>w. a' = a\<lparr>phase := In_reset, wait := w\<rparr>)
      (do { ata_io_delay io; out8 io 0x3F6 0; ata_io_delay io; _ \<leftarrow> ata_wait_not_busy io; ret () })
      (\<lambda>_ a'. \<exists>r. a' = a\<lparr>phase := Idle, wait := 0, regs := r\<rparr>)" for r :: unit
    using triple_bind[OF delay_any[OF assms, of "a\<lparr>phase := In_reset\<rparr>"] triple_bind[OF o triple_bind[OF dl triple_bind[OF w triple_ret]]]]
    by simp
qed

section \<open>Commands\<close>

lemma byte_masks:
  "ucast (w AND 0xFF) = (ucast w :: u8)" "x < 16 \<Longrightarrow> (0xE0 OR ucast (x AND 0x0F)) AND 0x0F = (ucast x :: u8)"
  "(0xE0 OR ucast (x AND 0x0F)) AND 0xF0 = (0xE0 :: u8)" for w x :: u32
proof -
  show "ucast (w AND 0xFF) = (ucast w :: u8)"
    by (rule bit_word_eqI) (auto simp: bit_simps bit_numeral_rec less_Suc_eq numeral_eq_Suc)
  have k: "k < 8 \<Longrightarrow> k = 0 \<or> k = 1 \<or> k = 2 \<or> k = 3 \<or> k = 4 \<or> k = 5 \<or> k = 6 \<or> k = 7" for k :: nat by linarith
  show "(0xE0 OR ucast (x AND 0x0F)) AND 0x0F = (ucast x :: u8)" if "x < 16"
  proof (rule bit_word_eqI)
    fix k assume "k < LENGTH(8)"
    moreover have "take_bit 4 x = x" using that by (simp add: word_unat_eq_iff take_bit_eq_mod unat_mod word_less_nat_alt)
    then have "bit x k \<Longrightarrow> k < 4" using bit_take_bit_iff[of 4 x k] by simp
    ultimately show "bit ((0xE0 OR ucast (x AND 0x0F)) AND 0x0F :: u8) k = bit (ucast x :: u8) k"
      using k[of k] by (auto simp: bit_simps bit_numeral_rec)
  qed
  show "(0xE0 OR ucast (x AND 0x0F)) AND 0xF0 = (0xE0 :: u8)"
  proof (rule bit_word_eqI)
    fix k assume "k < LENGTH(8)"
    then show "bit ((0xE0 OR ucast (x AND 0x0F)) AND 0xF0 :: u8) k = bit (0xE0 :: u8) k"
      using k[of k] by (auto simp: bit_simps bit_numeral_rec)
  qed
qed

text \<open>The task file after \<open>ata_program_lba\<close>.\<close>

definition lba_regs :: "u32 \<Rightarrow> u8 \<Rightarrow> (u16 \<Rightarrow> u8) \<Rightarrow> u16 \<Rightarrow> u8" where
  "lba_regs lba count r = r(0x1F6 := 0xE0 OR ucast (drop_bit 24 lba AND 0x0F), 0x1F1 := 0, 0x1F2 := count,
     0x1F3 := ucast (lba AND 0xFF), 0x1F4 := ucast (drop_bit 8 lba AND 0xFF), 0x1F5 := ucast (drop_bit 16 lba AND 0xFF))"

lemma lba_regs_facts:
  assumes "lba \<le> 0x0FFFFFFF"
  shows "reg_lba (lba_regs lba count r) = lba" and "lba_regs lba count r 0x1F2 = count" and "lba_regs lba count r 0x1F6 AND 0xF0 = 0xE0"
proof -
  have "unat lba < 2 ^ 28" using assms by (simp add: word_le_nat_alt)
  then have "drop_bit 24 lba < 16" by (simp add: word_less_nat_alt drop_bit_eq_div unat_div_distrib)
  then have "[lba_regs lba count r 0x1F3, lba_regs lba count r 0x1F4, lba_regs lba count r 0x1F5, lba_regs lba count r 0x1F6 AND 0x0F] = to_le 4 lba"
    by (simp add: lba_regs_def byte_masks to_le_def upt_conv_Cons)
  then show "reg_lba (lba_regs lba count r) = lba" by (simp add: reg_lba_def)
  show "lba_regs lba count r 0x1F2 = count" "lba_regs lba count r 0x1F6 AND 0xF0 = 0xE0"
    by (simp_all add: lba_regs_def byte_masks)
qed

lemma command_lawsD:
  assumes "command_laws io obs cap"
  shows "ready (obs d) \<Longrightarrow> p \<in> {0x1F1, 0x1F2, 0x1F3, 0x1F4, 0x1F5, 0x1F6} \<Longrightarrow>
      obs (outb io p v d) = (obs d)\<lparr>regs := (regs (obs d))(p := v)\<rparr>"
    and "wait (obs d) = 0 \<Longrightarrow> p \<in> {0x1F4, 0x1F5} \<Longrightarrow> \<exists>d'. inb io p d = (regs (obs d) p, d') \<and> obs d' = obs d"
    and "transfer_ok cap (obs d) n \<Longrightarrow> \<exists>w < ATA_POLL_LIMIT. obs (outb io 0x1F7 0x20 d) \<in>
        {(obs d)\<lparr>phase := Data_in (sectors_at (media (obs d)) (reg_lba (regs (obs d))) n), wait := w, fails := 0\<rparr>,
         (obs d)\<lparr>phase := Faulted, wait := w, fails := Suc (fails (obs d))\<rparr>}"
    and "transfer_ok cap (obs d) n \<Longrightarrow> \<exists>w < ATA_POLL_LIMIT. obs (outb io 0x1F7 0x30 d) \<in>
        {(obs d)\<lparr>phase := Data_out (reg_lba (regs (obs d))) n [], wait := w, fails := 0\<rparr>,
         (obs d)\<lparr>phase := Faulted, wait := w, fails := Suc (fails (obs d))\<rparr>}"
    and "fails (obs d) < 3"
    and "ready (obs d) \<Longrightarrow> \<exists>w < ATA_POLL_LIMIT. obs (outb io 0x1F7 0xE7 d) = (obs d)\<lparr>wait := w\<rparr>"
    and "ready (obs d) \<Longrightarrow> \<exists>w < ATA_POLL_LIMIT. \<exists>bs. length bs = 512 \<and>
        obs (outb io 0x1F7 0xEC d) = (obs d)\<lparr>phase := Data_in bs, wait := w, fails := 0, regs := (regs (obs d))(0x1F4 := 0, 0x1F5 := 0)\<rparr>"
  using assms unfolding command_laws_def by (elim conjE, simp)+

lemma write_reg_spec:
  assumes "command_laws io obs cap" and "ready b" and "p \<in> {0x1F1, 0x1F2, 0x1F3, 0x1F4, 0x1F5, 0x1F6}"
  shows "triple obs ((=) b) (out8 io p v) (\<lambda>_. (=) (b\<lparr>regs := (regs b)(p := v)\<rparr>))"
  by (rule triple_out8) (use command_lawsD(1)[OF assms(1)] assms(2,3) in auto)

lemma write_reg_bind:
  assumes "command_laws io obs cap" and "ready b" and "p \<in> {0x1F1, 0x1F2, 0x1F3, 0x1F4, 0x1F5, 0x1F6}"
    and "triple obs ((=) (b\<lparr>regs := (regs b)(p := v)\<rparr>)) (g ()) Q"
  shows "triple obs ((=) b) (out8 io p v \<bind> g) Q"
  by (rule triple_bind[OF write_reg_spec[OF assms(1-3)]]) (use assms(4) in simp)

lemma write_reg_last:
  assumes "command_laws io obs cap" and "ready b" and "p \<in> {0x1F1, 0x1F2, 0x1F3, 0x1F4, 0x1F5, 0x1F6}"
    and "b\<lparr>regs := (regs b)(p := v)\<rparr> = c"
  shows "triple obs ((=) b) (out8 io p v) (\<lambda>_. (=) c)"
  unfolding assms(4)[symmetric] by (rule write_reg_spec[OF assms(1-3)])

lemma program_lba_spec:
  assumes S: "status_laws io obs" and C: "command_laws io obs cap" and b: "ready b"
  shows "triple obs ((=) b) (ata_program_lba io lba count) (\<lambda>_. (=) (b\<lparr>regs := lba_regs lba count (regs b)\<rparr>))"
proof -
  let ?b = "b\<lparr>regs := (regs b)(0x1F6 := 0xE0 OR ucast (drop_bit 24 lba AND 0x0F))\<rparr>"
  have d: "triple obs ((=) ?b) (ata_io_delay io) (\<lambda>_. (=) ?b)" using b by (intro delay_ready[OF S]) simp
  show ?thesis unfolding ata_program_lba_def
    by (rule write_reg_bind[OF C b], simp, rule triple_bind[OF d], (rule write_reg_bind[OF C], simp add: b, simp)+,
        rule write_reg_last[OF C]) (use b in \<open>simp_all add: lba_regs_def\<close>)
qed

text \<open>A transfer command starts the transfer, or is refused.\<close>

lemma issue_spec:
  assumes S: "status_laws io obs" and c: "\<And>d. obs d = b \<Longrightarrow> soon b1 (obs (outb io 0x1F7 c d)) \<or> soon b2 (obs (outb io 0x1F7 c d))"
  shows "triple obs ((=) b) (do { out8 io 0x1F7 c; ata_io_delay io }) (\<lambda>_ a. soon b1 a \<or> soon b2 a)"
proof (rule triple_bind)
  show "triple obs ((=) b) (out8 io 0x1F7 c) (\<lambda>_ a. soon b1 a \<or> soon b2 a)" by (rule triple_out8) (use c in blast)
  show "triple obs (\<lambda>a. soon b1 a \<or> soon b2 a) (ata_io_delay io) (\<lambda>_ a. soon b1 a \<or> soon b2 a)" for u :: unit
    by (rule triple_cases) (auto intro: triple_weaken[OF delay_soon[OF S]])
qed

lemma read_command_spec:
  assumes S: "status_laws io obs" and C: "command_laws io obs cap" and t: "transfer_ok cap b n"
  shows "triple obs ((=) b) (do { out8 io 0x1F7 0x20; ata_io_delay io })
    (\<lambda>_ a. soon (b\<lparr>phase := Data_in (sectors_at (media b) (reg_lba (regs b)) n), fails := 0\<rparr>) a \<or>
      soon (b\<lparr>phase := Faulted, fails := Suc (fails b)\<rparr>) a)"
  by (rule issue_spec[OF S]) (use command_lawsD(3)[OF C, of _ n] t in \<open>fastforce simp: soon_def\<close>)

lemma write_command_spec:
  assumes S: "status_laws io obs" and C: "command_laws io obs cap" and t: "transfer_ok cap b n"
  shows "triple obs ((=) b) (do { out8 io 0x1F7 0x30; ata_io_delay io })
    (\<lambda>_ a. soon (b\<lparr>phase := Data_out (reg_lba (regs b)) n [], fails := 0\<rparr>) a \<or>
      soon (b\<lparr>phase := Faulted, fails := Suc (fails b)\<rparr>) a)"
  by (rule issue_spec[OF S]) (use command_lawsD(4)[OF C, of _ n] t in \<open>fastforce simp: soon_def\<close>)

section \<open>The data port\<close>

lemma word_bytes: "ucast (of_le [x, y] AND 0xFF :: u16) = x" "ucast (drop_bit 8 (of_le [x, y] :: u16) AND 0xFF) = y"
  "ucast x OR push_bit 8 (ucast y) = (of_le [x, y] :: u16)"
proof -
  have k: "k < 8 \<Longrightarrow> bit (0xFF :: u16) k" for k by (auto simp: bit_numeral_rec less_Suc_eq numeral_eq_Suc)
  have q: "n < 8 \<Longrightarrow> (8 + n) div 8 = (1 :: nat)" for n by simp
  show "ucast (of_le [x, y] AND 0xFF :: u16) = x" "ucast (drop_bit 8 (of_le [x, y] :: u16) AND 0xFF) = y"
    by (rule bit_word_eqI; use k q in \<open>simp add: bit_simps bit_of_le del: of_le.simps\<close>)+
  show "ucast x OR push_bit 8 (ucast y) = (of_le [x, y] :: u16)" by simp
qed

lemma data_lawsD:
  assumes "data_laws io obs"
  shows "wait (obs d) = 0 \<Longrightarrow> phase (obs d) = Data_in (x # y # bs) \<Longrightarrow>
        \<exists>d' w. inw io 0x1F0 d = (of_le [x, y], d') \<and> w < ATA_POLL_LIMIT \<and> (length bs mod 512 \<noteq> 0 \<longrightarrow> w = 0) \<and>
           obs d' = (obs d)\<lparr>phase := if bs = [] then Idle else Data_in bs, wait := w\<rparr>"
    and "wait (obs d) = 0 \<Longrightarrow> phase (obs d) = Data_out l (Suc n) bs \<Longrightarrow> length bs + 2 < 512 \<Longrightarrow>
        obs (outw io 0x1F0 (of_le [x, y]) d) = (obs d)\<lparr>phase := Data_out l (Suc n) (bs @ [x, y])\<rparr>"
    and "wait (obs d) = 0 \<Longrightarrow> phase (obs d) = Data_out l (Suc n) bs \<Longrightarrow> \<not> length bs + 2 < 512 \<Longrightarrow>
        \<exists>w < ATA_POLL_LIMIT. obs (outw io 0x1F0 (of_le [x, y]) d) =
           (obs d)\<lparr>phase := if n = 0 then Idle else Data_out (l + 1) n [], wait := w, media := (media (obs d))(l := bs @ [x, y])\<rparr>"
proof -
  note L = assms[unfolded data_laws_def]
  show "wait (obs d) = 0 \<Longrightarrow> phase (obs d) = Data_in (x # y # bs) \<Longrightarrow>
        \<exists>d' w. inw io 0x1F0 d = (of_le [x, y], d') \<and> w < ATA_POLL_LIMIT \<and> (length bs mod 512 \<noteq> 0 \<longrightarrow> w = 0) \<and>
           obs d' = (obs d)\<lparr>phase := if bs = [] then Idle else Data_in bs, wait := w\<rparr>"
    using L[THEN conjunct1] by blast
  note L2 = L[THEN conjunct2, rule_format, of d l n bs x y]
  show "wait (obs d) = 0 \<Longrightarrow> phase (obs d) = Data_out l (Suc n) bs \<Longrightarrow> length bs + 2 < 512 \<Longrightarrow>
        obs (outw io 0x1F0 (of_le [x, y]) d) = (obs d)\<lparr>phase := Data_out l (Suc n) (bs @ [x, y])\<rparr>"
    using L2 by (simp del: of_le.simps)
  show "wait (obs d) = 0 \<Longrightarrow> phase (obs d) = Data_out l (Suc n) bs \<Longrightarrow> \<not> length bs + 2 < 512 \<Longrightarrow>
        \<exists>w < ATA_POLL_LIMIT. obs (outw io 0x1F0 (of_le [x, y]) d) =
           (obs d)\<lparr>phase := if n = 0 then Idle else Data_out (l + 1) n [], wait := w, media := (media (obs d))(l := bs @ [x, y])\<rparr>"
    using L2 by (simp del: of_le.simps)
qed

lemma in_word_spec:
  assumes "data_laws io obs" and "wait b = 0" and "phase b = Data_in (x # y # bs)"
  shows "triple obs ((=) b) (in16 io 0x1F0) (\<lambda>w a. w = of_le [x, y] \<and>
    (if length bs mod 512 = 0 then soon (b\<lparr>phase := if bs = [] then Idle else Data_in bs\<rparr>) a else a = b\<lparr>phase := Data_in bs\<rparr>))"
proof (rule triple_in16)
  fix d assume "b = obs d"
  moreover from this obtain d' w where "inw io 0x1F0 d = (of_le [x, y], d')" "w < 1000000" "length bs mod 512 \<noteq> 0 \<longrightarrow> w = 0"
      "obs d' = (obs d)\<lparr>phase := if bs = [] then Idle else Data_in bs, wait := w\<rparr>"
    using data_lawsD(1)[OF assms(1), of d x y bs] assms(2,3) by blast
  ultimately show "fst (inw io 0x1F0 d) = of_le [x, y] \<and> (if length bs mod 512 = 0
      then soon (b\<lparr>phase := if bs = [] then Idle else Data_in bs\<rparr>) (obs (snd (inw io 0x1F0 d)))
      else obs (snd (inw io 0x1F0 d)) = b\<lparr>phase := Data_in bs\<rparr>)"
    using assms(2) by (auto simp: soon_def simp del: of_le.simps)
qed

lemma drop_word: "length sec = 512 \<Longrightarrow> i < 256 \<Longrightarrow> drop (2 * i) sec = sec ! (2 * i) # sec ! Suc (2 * i) # drop (2 * Suc i) sec"
  by (simp add: Cons_nth_drop_Suc)

lemma take_word: "length sec = 512 \<Longrightarrow> i < 256 \<Longrightarrow> take (2 * Suc i) sec = take (2 * i) sec @ [sec ! (2 * i), sec ! Suc (2 * i)]"
  by (simp add: take_Suc_conv_app_nth)

lemma pio_read_words_spec:
  assumes D: "data_laws io obs" and b: "wait b = 0" and sec: "length sec = 512" and rest: "length rest mod 512 = 0"
    and off: "off \<le> length dst"
  shows "i < 256 \<Longrightarrow> triple obs ((=) (b\<lparr>phase := Data_in (drop (2 * i) sec @ rest)\<rparr>))
    (pio_read_words io off i (copy_into off (take (2 * i) sec) dst))
    (\<lambda>r a. r = copy_into off sec dst \<and> soon (b\<lparr>phase := if rest = [] then Idle else Data_in rest\<rparr>) a)"
proof (induction "256 - i" arbitrary: i)
  case (Suc n)
  let ?x = "sec ! (2 * i)" and ?y = "sec ! Suc (2 * i)" and ?bs = "drop (2 * Suc i) sec @ rest"
  let ?Q = "\<lambda>r a. r = copy_into off sec dst \<and> soon (b\<lparr>phase := if rest = [] then Idle else Data_in rest\<rparr>) a"
  have ph: "phase (b\<lparr>phase := Data_in (drop (2 * i) sec @ rest)\<rparr>) = Data_in (?x # ?y # ?bs)"
    using drop_word[OF sec Suc.prems] by simp
  have w: "wait (b\<lparr>phase := Data_in (drop (2 * i) sec @ rest)\<rparr>) = 0" using b by simp
  have next_dst: "copy_into (off + i * 2) [?x, ?y] (copy_into off (take (2 * i) sec) dst) = copy_into off (take (2 * Suc i) sec) dst"
  proof -
    have "length (take (2 * i) sec) = i * 2" using sec Suc.prems by simp
    then show ?thesis using copy_into_append[OF off, of "take (2 * i) sec" "[?x, ?y]"] take_word[OF sec Suc.prems] by simp
  qed
  show ?case
  proof (subst pio_read_words.simps, simp only: Suc.prems if_True, rule triple_bind[OF in_word_spec[OF D w ph]], rule triple_cases)
    fix v :: u16 and a
    assume v: "v = of_le [?x, ?y] \<and> (if length ?bs mod 512 = 0
        then soon (b\<lparr>phase := Data_in (drop (2 * i) sec @ rest), phase := if ?bs = [] then Idle else Data_in ?bs\<rparr>) a
        else a = b\<lparr>phase := Data_in (drop (2 * i) sec @ rest), phase := Data_in ?bs\<rparr>)"
    have c: "copy_into (off + i * 2) [ucast (v AND 0xFF), ucast (drop_bit 8 v AND 0xFF)] (copy_into off (take (2 * i) sec) dst) =
        copy_into off (take (2 * Suc i) sec) dst" using v next_dst by (simp only: word_bytes)
    show "triple obs ((=) a) (pio_read_words io off (Suc i) (copy_into (off + i * 2)
        [ucast (v AND 0xFF), ucast (drop_bit 8 v AND 0xFF)] (copy_into off (take (2 * i) sec) dst))) ?Q"
    proof (cases "Suc i < 256")
      case True
      then have "length ?bs = (510 - 2 * i) + length rest" using sec by simp
      then have "length ?bs mod 512 = (510 - 2 * i) mod 512" using rest mod_add_right_eq[of "510 - 2 * i" "length rest" 512] by simp
      then have "length ?bs mod 512 \<noteq> 0" using True by simp
      then have "a = b\<lparr>phase := Data_in ?bs\<rparr>" using v by simp
      then show ?thesis unfolding c using Suc.hyps(1)[of "Suc i"] Suc.hyps(2) True by simp
    next
      case False
      then have i: "i = 255" using Suc.prems by simp
      have br: "?bs = rest" using i sec by simp
      have "soon (b\<lparr>phase := if rest = [] then Idle else Data_in rest\<rparr>) a" using v[unfolded br] rest by simp
      then show ?thesis unfolding c using i sec by (subst pio_read_words.simps) (auto intro: triple_ret)
    qed
  qed
qed simp

lemma pio_read_sector_spec:
  assumes D: "data_laws io obs" and b: "wait b = 0" "phase b = Data_in (sec @ rest)" and sec: "length sec = 512"
    and rest: "length rest mod 512 = 0" and off: "off \<le> length dst"
  shows "triple obs ((=) b) (ata_pio_read_sector io off dst)
    (\<lambda>r a. r = copy_into off sec dst \<and> soon (b\<lparr>phase := if rest = [] then Idle else Data_in rest\<rparr>) a)"
proof -
  have "b\<lparr>phase := Data_in (sec @ rest)\<rparr> = b" using b(2) by (simp add: drive.surjective[symmetric])
  then show ?thesis
    using pio_read_words_spec[OF D b(1) sec rest off, of 0] by (simp add: ata_pio_read_sector_def)
qed

lemma read_sectors_spec:
  assumes S: "status_laws io obs" and D: "data_laws io obs"
  shows "\<forall>sec \<in> set secs. length sec = 512 \<Longrightarrow> length pre = i * 512 \<Longrightarrow>
    triple obs (soon (b\<lparr>phase := if secs = [] then Idle else Data_in (concat secs)\<rparr>)) (read_sectors io (length secs) i (copy_into 0 pre dst))
      (\<lambda>r a. r = (0, copy_into 0 (pre @ concat secs) dst) \<and> soon (b\<lparr>phase := Idle\<rparr>) a)"
proof (induction secs arbitrary: i pre)
  case (Cons sec secs)
  let ?b = "b\<lparr>phase := Data_in (sec @ concat secs)\<rparr>"
  have len: "length sec = 512" "\<forall>sec \<in> set secs. length sec = 512" using Cons.prems(1) by auto
  have "length (concat secs) mod 512 = 0" using len(2) by (induction secs) auto
  moreover have "i * 512 \<le> length (copy_into 0 pre dst)" using Cons.prems(2) by (simp add: copy_into_def)
  ultimately have "triple obs ((=) (?b\<lparr>wait := 0\<rparr>)) (ata_pio_read_sector io (i * 512) (copy_into 0 pre dst))
      (\<lambda>r a. r = copy_into (i * 512) sec (copy_into 0 pre dst) \<and>
        soon ((?b\<lparr>wait := 0\<rparr>)\<lparr>phase := if concat secs = [] then Idle else Data_in (concat secs)\<rparr>) a)"
    by (intro pio_read_sector_spec[OF D _ _ len(1)]) simp_all
  moreover have "copy_into (i * 512) sec (copy_into 0 pre dst) = copy_into 0 (pre @ sec) dst"
    using copy_into_append[of 0 dst pre sec] Cons.prems(2) by simp
  moreover have "concat secs = [] \<longleftrightarrow> secs = []" using len(2) by (cases secs) auto
  moreover have "soon ((?b\<lparr>wait := 0\<rparr>)\<lparr>phase := q\<rparr>) a \<longleftrightarrow> soon (b\<lparr>phase := q\<rparr>) a" for q a by (simp add: soon_def)
  ultimately have rd: "triple obs ((=) (?b\<lparr>wait := 0\<rparr>)) (ata_pio_read_sector io (i * 512) (copy_into 0 pre dst))
      (\<lambda>r a. r = copy_into 0 (pre @ sec) dst \<and> soon (b\<lparr>phase := if secs = [] then Idle else Data_in (concat secs)\<rparr>) a)"
    by simp
  have "triple obs (soon ?b) (read_sectors io (Suc (length secs)) i (copy_into 0 pre dst))
      (\<lambda>r a. r = (0, copy_into 0 ((pre @ sec) @ concat secs) dst) \<and> soon (b\<lparr>phase := Idle\<rparr>) a)"
    unfolding read_sectors.simps
  proof (rule triple_bind_eq[OF wait_drq_spec[OF S]])
    have "triple obs ((=) (?b\<lparr>wait := 0\<rparr>)) (do { dst' \<leftarrow> ata_pio_read_sector io (i * 512) (copy_into 0 pre dst);
        read_sectors io (length secs) (Suc i) dst' })
        (\<lambda>r a. r = (0, copy_into 0 ((pre @ sec) @ concat secs) dst) \<and> soon (b\<lparr>phase := Idle\<rparr>) a)"
      by (rule triple_bind_eq[OF rd], rule Cons.IH) (use len Cons.prems(2) in auto)
    then show "triple obs (\<lambda>a. a = ?b\<lparr>wait := 0\<rparr>)
        (if (if phase ?b = Faulted then - 1 else 0 :: int) \<noteq> 0 then ret (- 1, copy_into 0 pre dst) else do {
          dst' \<leftarrow> ata_pio_read_sector io (i * 512) (copy_into 0 pre dst);
          read_sectors io (length secs) (Suc i) dst' })
        (\<lambda>r a. r = (0, copy_into 0 ((pre @ sec) @ concat secs) dst) \<and> soon (b\<lparr>phase := Idle\<rparr>) a)"
      by simp
  qed simp
  then show ?case by simp
qed (auto intro: triple_ret)

text \<open>The sector a write takes from the caller's buffer.\<close>

definition src_sector :: "u8 list \<Rightarrow> nat \<Rightarrow> u8 list" where
  "src_sector src off = map (byte_at src) [off..<off + 512]"

lemma out_word_spec:
  assumes "data_laws io obs" and "wait b = 0" and "phase b = Data_out l (Suc n) bs" and "length bs + 2 \<le> 512"
  shows "triple obs ((=) b) (out16 io 0x1F0 (of_le [x, y])) (\<lambda>_ a.
    if length bs + 2 < 512 then a = b\<lparr>phase := Data_out l (Suc n) (bs @ [x, y])\<rparr>
    else soon (b\<lparr>phase := if n = 0 then Idle else Data_out (l + 1) n [], media := (media b)(l := bs @ [x, y])\<rparr>) a)"
proof (rule triple_out16)
  fix d assume b: "b = obs d"
  have od: "wait (obs d) = 0" "phase (obs d) = Data_out l (Suc n) bs" using assms(2,3) b by simp_all
  show "if length bs + 2 < 512 then obs (outw io 0x1F0 (of_le [x, y]) d) = b\<lparr>phase := Data_out l (Suc n) (bs @ [x, y])\<rparr>
      else soon (b\<lparr>phase := if n = 0 then Idle else Data_out (l + 1) n [], media := (media b)(l := bs @ [x, y])\<rparr>)
        (obs (outw io 0x1F0 (of_le [x, y]) d))"
  proof (cases "length bs + 2 < 512")
    case True
    then show ?thesis using data_lawsD(2)[OF assms(1), of d l n bs x y] assms(2,3) b by (simp del: of_le.simps)
  next
    case False
    then obtain w where "w < 1000000" "obs (outw io 0x1F0 (of_le [x, y]) d) =
        (obs d)\<lparr>phase := if n = 0 then Idle else Data_out (l + 1) n [], wait := w, media := (media (obs d))(l := bs @ [x, y])\<rparr>"
      using data_lawsD(3)[OF assms(1) od False] by blast
    then show ?thesis using False b by (auto simp: soon_def simp del: of_le.simps)
  qed
qed

lemma pio_write_words_spec:
  fixes n off :: nat and src :: "u8 list" and l :: u32
  assumes D: "data_laws io obs" and b: "wait b = 0"
  defines "done \<equiv> b\<lparr>phase := if n = 0 then Idle else Data_out (l + 1) n [], media := (media b)(l := src_sector src off)\<rparr>"
  shows "i < 256 \<Longrightarrow> triple obs ((=) (b\<lparr>phase := Data_out l (Suc n) (take (2 * i) (src_sector src off))\<rparr>))
    (pio_write_words io off i src) (\<lambda>_. soon done)"
proof (induction "256 - i" arbitrary: i)
  case (Suc m)
  let ?sec = "src_sector src off" and ?x = "byte_at src (off + i * 2)" and ?y = "byte_at src (off + i * 2 + 1)"
  let ?b = "b\<lparr>phase := Data_out l (Suc n) (take (2 * i) ?sec)\<rparr>"
  have sec: "length ?sec = 512" by (simp add: src_sector_def)
  have tk: "take (2 * i) ?sec @ [?x, ?y] = take (2 * Suc i) ?sec"
    using take_word[OF sec Suc.prems] Suc.prems by (simp add: src_sector_def ac_simps)
  have len: "length (take (2 * i) ?sec) = 2 * i" using sec Suc.prems by simp
  have o: "triple obs ((=) ?b) (out16 io 0x1F0 (of_le [?x, ?y])) (\<lambda>_ a.
      if Suc i < 256 then a = b\<lparr>phase := Data_out l (Suc n) (take (2 * Suc i) ?sec)\<rparr> else soon done a)"
  proof (rule triple_weaken[OF out_word_spec[OF D, of ?b l n "take (2 * i) ?sec" ?x ?y]])
    fix a :: drive
    assume a: "if length (take (2 * i) ?sec) + 2 < 512 then a = ?b\<lparr>phase := Data_out l (Suc n) (take (2 * i) ?sec @ [?x, ?y])\<rparr>
      else soon (?b\<lparr>phase := if n = 0 then Idle else Data_out (l + 1) n [], media := (media ?b)(l := take (2 * i) ?sec @ [?x, ?y])\<rparr>) a"
    show "if Suc i < 256 then a = b\<lparr>phase := Data_out l (Suc n) (take (2 * Suc i) ?sec)\<rparr> else soon done a"
      using a[unfolded tk len] Suc.prems sec by (simp add: done_def split: if_splits)
  qed (use b len Suc.prems in simp_all)
  show ?case
  proof (subst pio_write_words.simps, simp only: Suc.prems if_True word_bytes, rule triple_bind[OF o])
    show "triple obs (\<lambda>a. if Suc i < 256 then a = b\<lparr>phase := Data_out l (Suc n) (take (2 * Suc i) ?sec)\<rparr> else soon done a)
        (pio_write_words io off (Suc i) src) (\<lambda>_. soon done)" for u :: unit
    proof (cases "Suc i < 256")
      case True
      then show ?thesis using Suc.hyps(1)[of "Suc i"] Suc.hyps(2) by simp
    next
      case False
      then show ?thesis by (subst pio_write_words.simps) (auto intro: triple_ret)
    qed
  qed
qed simp

primrec put_sectors :: "sectors \<Rightarrow> u32 \<Rightarrow> u8 list list \<Rightarrow> sectors" where
  "put_sectors m l [] = m"
| "put_sectors m l (sec # secs) = put_sectors (m(l := sec)) (l + 1) secs"

lemma pio_write_sector_spec:
  assumes D: "data_laws io obs" and b: "wait b = 0" "phase b = Data_out l (Suc n) []"
  shows "triple obs ((=) b) (ata_pio_write_sector io off src)
    (\<lambda>_. soon (b\<lparr>phase := if n = 0 then Idle else Data_out (l + 1) n [], media := (media b)(l := src_sector src off)\<rparr>))"
proof -
  have "b\<lparr>phase := Data_out l (Suc n) []\<rparr> = b" using b(2) by (simp add: drive.surjective[symmetric])
  then show ?thesis
    using pio_write_words_spec[OF D b(1), of 0 l n src off] by (simp add: ata_pio_write_sector_def)
qed

lemma write_sectors_spec:
  assumes S: "status_laws io obs" and D: "data_laws io obs"
  shows "triple obs (soon (b\<lparr>phase := if n = 0 then Idle else Data_out l n []\<rparr>)) (write_sectors io n i src)
      (\<lambda>r a. r = 0 \<and> soon (b\<lparr>phase := Idle, media := put_sectors (media b) l (map (\<lambda>j. src_sector src (j * 512)) [i..<i + n])\<rparr>) a)"
proof (induction n arbitrary: i l b)
  case 0
  have "b\<lparr>phase := Idle, media := media b\<rparr> = b\<lparr>phase := Idle\<rparr>" by simp
  then show ?case by (auto intro: triple_ret)
next
  case (Suc n)
  let ?b = "b\<lparr>phase := Data_out l (Suc n) []\<rparr>" and ?sec = "src_sector src (i * 512)"
  let ?b' = "b\<lparr>media := (media b)(l := ?sec)\<rparr>"
  have w: "triple obs ((=) (?b\<lparr>wait := 0\<rparr>)) (ata_pio_write_sector io (i * 512) src)
      (\<lambda>_. soon (?b'\<lparr>phase := if n = 0 then Idle else Data_out (l + 1) n []\<rparr>))"
    by (rule triple_weaken[OF pio_write_sector_spec[OF D, of "?b\<lparr>wait := 0\<rparr>" l n]]) (auto simp: soon_def)
  have up: "[i..<i + Suc n] = i # [Suc i..<Suc i + n]" by (simp add: upt_conv_Cons)
  have eq: "?b'\<lparr>phase := Idle, media := put_sectors (media ?b') (l + 1) (map (\<lambda>j. src_sector src (j * 512)) [Suc i..<Suc i + n])\<rparr> =
      b\<lparr>phase := Idle, media := put_sectors (media b) l (map (\<lambda>j. src_sector src (j * 512)) [i..<i + Suc n])\<rparr>"
    unfolding up by simp
  have "triple obs ((=) (?b\<lparr>wait := 0\<rparr>)) (do { ata_pio_write_sector io (i * 512) src; write_sectors io n (Suc i) src })
      (\<lambda>r a. r = 0 \<and> soon (b\<lparr>phase := Idle, media := put_sectors (media b) l (map (\<lambda>j. src_sector src (j * 512)) [i..<i + Suc n])\<rparr>) a)"
    by (rule triple_bind[OF w], rule Suc.IH[where b = ?b' and l = "l + 1" and i = "Suc i", unfolded eq])
  then show ?case
    by (simp del: upt_Suc) (rule triple_bind_eq[OF wait_drq_spec[OF S]], simp_all del: upt_Suc)
qed

section \<open>Transfers\<close>

text \<open>The sectors of a transfer exist on the drive, and their addresses fit in 28 bits.\<close>

definition in_range :: "nat \<Rightarrow> u32 \<Rightarrow> u8 \<Rightarrow> bool" where
  "in_range cap lba count \<longleftrightarrow> lba \<le> ATA_MAX_LBA28 \<and> 0 < count \<and> unat lba + unat count \<le> cap"

lemma program_transfer:
  assumes "in_range cap lba count" and "ready b"
  shows "transfer_ok cap (b\<lparr>regs := lba_regs lba count (regs b)\<rparr>) (unat count)"
    and "reg_lba (lba_regs lba count (regs b)) = lba"
  using assms lba_regs_facts[of lba count "regs b"] by (simp_all add: in_range_def transfer_ok_def word_less_nat_alt)

definition whole_media :: "nat \<Rightarrow> sectors \<Rightarrow> bool" where
  "whole_media cap m \<longleftrightarrow> (\<forall>l. unat l < cap \<longrightarrow> length (m l) = 512)"

lemma issue_bind:
  assumes "triple obs P (do { out8 io p c; ata_io_delay io }) (\<lambda>_. R)" and "triple obs R k Q"
  shows "triple obs P (do { out8 io p c; ata_io_delay io; k }) Q"
proof -
  have "triple obs P ((do { out8 io p c; ata_io_delay io }) \<bind> (\<lambda>_. k)) Q" by (rule triple_bind[OF assms(1)]) (rule assms(2))
  then show ?thesis by simp
qed

lemma triple_disj: "triple obs P f Q \<Longrightarrow> triple obs P' f Q \<Longrightarrow> triple obs (\<lambda>a. P a \<or> P' a) f Q"
  unfolding triple_def by blast

definition lba_sectors :: "sectors \<Rightarrow> u32 \<Rightarrow> nat \<Rightarrow> u8 list list" where
  "lba_sectors m lba n = map (\<lambda>i. m (lba + of_nat i)) [0..<n]"

lemma lba_sectors_length:
  assumes "whole_media cap m" and "in_range cap lba count"
  shows "\<forall>sec \<in> set (lba_sectors m lba (unat count)). length sec = 512"
proof -
  have "unat (lba + of_nat i) < cap" if "i < unat count" for i
  proof -
    have "unat lba + i < 2 ^ 32"
      using that assms(2) unsigned_less[of count, where ?'a = nat] by (simp add: in_range_def word_le_nat_alt)
    then have "unat (lba + of_nat i) = unat lba + i" by (simp add: unat_word_ariths unat_of_nat)
    then show ?thesis using that assms(2) by (simp add: in_range_def)
  qed
  then show ?thesis using assms(1) by (auto simp: lba_sectors_def whole_media_def)
qed

text \<open>A refused command shows at the first sector.\<close>

lemma refused_read:
  assumes "status_laws io obs" and "phase b = Faulted"
  shows "triple obs (soon b) (read_sectors io (Suc n) i dst) (\<lambda>r a. r = (- 1, dst) \<and> a = b\<lparr>wait := 0\<rparr>)"
  unfolding read_sectors.simps
  by (rule triple_bind_eq[OF wait_drq_spec[OF assms(1)]]) (use assms(2) in \<open>auto intro: triple_ret\<close>)

lemma refused_write:
  assumes "status_laws io obs" and "phase b = Faulted"
  shows "triple obs (soon b) (write_sectors io (Suc n) i src) (\<lambda>r a. r = - 1 \<and> a = b\<lparr>wait := 0\<rparr>)"
  unfolding write_sectors.simps
  by (rule triple_bind_eq[OF wait_drq_spec[OF assms(1)]]) (use assms(2) in \<open>auto intro: triple_ret\<close>)

definition done_with :: "sectors \<Rightarrow> drive \<Rightarrow> bool" where
  "done_with m a \<longleftrightarrow> phase a = Idle \<and> wait a < ATA_POLL_LIMIT \<and> fails a = 0 \<and> media a = m"

definition refused_by :: "drive \<Rightarrow> drive \<Rightarrow> bool" where
  "refused_by b a \<longleftrightarrow> phase a = Faulted \<and> wait a = 0 \<and> fails a = Suc (fails b) \<and> media a = media b"

lemma phase_fails_swap: "a\<lparr>phase := p, fails := f\<rparr> = a\<lparr>fails := f, phase := p\<rparr>" for a :: drive
  by (cases a) simp

lemma read_once_spec:
  assumes L: "ata_drive io obs cap" and r: "in_range cap lba count" and b: "phase b = Idle" "whole_media cap (media b)"
  shows "triple obs (soon b) (ata_read_once io lba count dst) (\<lambda>r a.
    r = (0, copy_into 0 (concat (lba_sectors (media b) lba (unat count))) dst) \<and> done_with (media b) a \<or>
    r = (- 1, dst) \<and> refused_by b a)"
proof -
  note S = L[unfolded ata_drive_def, THEN conjunct1] and C = L[unfolded ata_drive_def, THEN conjunct2, THEN conjunct1]
    and D = L[unfolded ata_drive_def, THEN conjunct2, THEN conjunct2]
  let ?Q = "\<lambda>r a. r = (0, copy_into 0 (concat (lba_sectors (media b) lba (unat count))) dst) \<and> done_with (media b) a \<or>
    r = (- 1, dst) \<and> refused_by b a"
  define b0 where "b0 = b\<lparr>wait := 0\<rparr>"
  define b1 where "b1 = b0\<lparr>regs := lba_regs lba count (regs b0)\<rparr>"
  let ?secs = "lba_sectors (media b) lba (unat count)"
  have rdy: "ready b0" using b(1) by (simp add: b0_def)
  note P = program_transfer[OF r rdy, folded b1_def]
  have cnt: "unat count \<noteq> 0" "?secs \<noteq> []" "length ?secs = unat count"
    using r by (auto simp: in_range_def lba_sectors_def word_less_nat_alt)
  have data: "sectors_at (media b1) (reg_lba (regs b1)) (unat count) = concat ?secs"
    using P(2) by (simp add: sectors_at_def lba_sectors_def b1_def b0_def)
  have ok: "triple obs (soon (b1\<lparr>phase := Data_in (concat ?secs), fails := 0\<rparr>)) (read_sectors io (unat count) 0 dst) ?Q"
    unfolding phase_fails_swap using read_sectors_spec[OF S D lba_sectors_length[OF b(2) r], of "[]" 0 "b1\<lparr>fails := 0\<rparr>" dst] cnt
    by (auto elim!: triple_weaken simp: soon_def done_with_def b1_def b0_def)
  obtain n where n: "unat count = Suc n" using cnt(1) by (cases "unat count") auto
  have ref: "triple obs (soon (b1\<lparr>phase := Faulted, fails := Suc (fails b1)\<rparr>)) (read_sectors io (unat count) 0 dst) ?Q"
    unfolding n by (rule triple_weaken[OF refused_read[OF S]]) (auto simp: refused_by_def b1_def b0_def)
  have cmd: "triple obs ((=) b1) (do { out8 io 0x1F7 0x20; ata_io_delay io; read_sectors io (unat count) 0 dst }) ?Q"
    by (rule issue_bind[OF read_command_spec[OF S C P(1), unfolded data] triple_disj[OF ok ref]])
  have "triple obs ((=) b0) (do { ata_program_lba io lba count; out8 io 0x1F7 0x20; ata_io_delay io; read_sectors io (unat count) 0 dst }) ?Q"
    by (rule triple_bind[OF program_lba_spec[OF S C rdy, of lba count, folded b1_def]]) (rule cmd)
  then show ?thesis unfolding ata_read_once_def
    by (intro triple_bind_eq[OF wait_not_busy_spec[OF S]]) (simp add: b0_def)
qed

lemma flush_spec:
  assumes S: "status_laws io obs" and C: "command_laws io obs cap" and c: "phase c = Idle"
  shows "triple obs (soon c) (do { out8 io 0x1F7 0xE7; ata_io_delay io; ata_wait_not_busy io }) (\<lambda>r a. r = 0 \<and> a = c\<lparr>wait := 0\<rparr>)"
proof (rule issue_bind[OF _ wait_not_busy_spec[OF S]], rule triple_bind[OF _ delay_soon[OF S]], rule triple_out8)
  fix d assume "soon c (obs d)"
  then obtain w where w: "w < 1000000" "obs d = c\<lparr>wait := w\<rparr>" by (auto simp: soon_def)
  show "soon c (obs (outb io 0x1F7 0xE7 d))"
  proof (cases "w = 0")
    case True
    then show ?thesis using command_lawsD(6)[OF C, where d = d] w c by (auto simp: soon_def)
  next
    case False
    then show ?thesis using status_lawsD(3)[OF S, where d = d and v = "0xE7"] w by (auto simp: soon_def)
  qed
qed

definition src_sectors :: "u8 list \<Rightarrow> nat \<Rightarrow> u8 list list" where
  "src_sectors src n = map (\<lambda>j. src_sector src (j * 512)) [0..<n]"

lemma write_once_spec:
  assumes L: "ata_drive io obs cap" and r: "in_range cap lba count" and b: "phase b = Idle"
  shows "triple obs (soon b) (ata_write_once io lba count src) (\<lambda>r a.
    r = 0 \<and> done_with (put_sectors (media b) lba (src_sectors src (unat count))) a \<or> r = - 1 \<and> refused_by b a)"
proof -
  note S = L[unfolded ata_drive_def, THEN conjunct1] and C = L[unfolded ata_drive_def, THEN conjunct2, THEN conjunct1]
    and D = L[unfolded ata_drive_def, THEN conjunct2, THEN conjunct2]
  let ?m = "put_sectors (media b) lba (src_sectors src (unat count))"
  let ?Q = "\<lambda>r a. r = 0 \<and> done_with ?m a \<or> r = - 1 \<and> refused_by b a"
  let ?k = "do { r \<leftarrow> write_sectors io (unat count) 0 src; if r \<noteq> 0 then ret (- 1)
       else do { out8 io 0x1F7 0xE7; ata_io_delay io; ata_wait_not_busy io } }"
  define b0 where "b0 = b\<lparr>wait := 0\<rparr>"
  define b1 where "b1 = b0\<lparr>regs := lba_regs lba count (regs b0)\<rparr>"
  have rdy: "ready b0" using b by (simp add: b0_def)
  note P = program_transfer[OF r rdy, folded b1_def]
  obtain n where n: "unat count = Suc n" using r by (cases "unat count") (auto simp: in_range_def word_less_nat_alt)
  have ws: "triple obs (soon (b1\<lparr>phase := Data_out lba (unat count) [], fails := 0\<rparr>)) (write_sectors io (unat count) 0 src)
      (\<lambda>r a. r = 0 \<and> soon (b1\<lparr>phase := Idle, fails := 0, media := ?m\<rparr>) a)"
    unfolding phase_fails_swap
    by (rule triple_weaken[OF write_sectors_spec[OF S D, where b = "b1\<lparr>fails := 0\<rparr>" and l = lba]])
      (use n in \<open>auto simp: soon_def b1_def b0_def src_sectors_def\<close>)
  have fl: "triple obs (soon (b1\<lparr>phase := Idle, fails := 0, media := ?m\<rparr>))
      (do { out8 io 0x1F7 0xE7; ata_io_delay io; ata_wait_not_busy io }) ?Q"
    by (rule triple_weaken[OF flush_spec[OF S C]]) (auto simp: done_with_def)
  have ok: "triple obs (soon (b1\<lparr>phase := Data_out lba (unat count) [], fails := 0\<rparr>)) ?k ?Q"
    by (rule triple_bind_eq[OF ws]) (use fl in simp)
  have ref: "triple obs (soon (b1\<lparr>phase := Faulted, fails := Suc (fails b1)\<rparr>)) ?k ?Q"
    unfolding n by (rule triple_bind_eq[OF refused_write[OF S]]) (auto intro: triple_ret simp: refused_by_def b1_def b0_def)
  have wc: "triple obs ((=) b1) (do { out8 io 0x1F7 0x30; ata_io_delay io }) (\<lambda>_ a.
      soon (b1\<lparr>phase := Data_out lba (unat count) [], fails := 0\<rparr>) a \<or> soon (b1\<lparr>phase := Faulted, fails := Suc (fails b1)\<rparr>) a)"
    using write_command_spec[OF S C P(1)] P(2) by (simp add: b1_def)
  have "triple obs ((=) b0) (do { ata_program_lba io lba count; out8 io 0x1F7 0x30; ata_io_delay io; ?k }) ?Q"
    by (rule triple_bind[OF program_lba_spec[OF S C rdy, of lba count, folded b1_def]])
      (rule issue_bind[OF wc triple_disj[OF ok ref]])
  then show ?thesis unfolding ata_write_once_def
    by (intro triple_bind_eq[OF wait_not_busy_spec[OF S]]) (simp add: b0_def)
qed

text \<open>Three attempts are enough, since a drive never refuses three commands in a row.\<close>

definition resting :: "sectors \<Rightarrow> nat \<Rightarrow> drive \<Rightarrow> bool" where
  "resting m n a \<longleftrightarrow> phase a = Idle \<and> wait a < ATA_POLL_LIMIT \<and> 3 \<le> fails a + n \<and> media a = m"

lemma resting_soon: "resting m n a \<Longrightarrow> soon a a"
  by (auto simp: resting_def soon_def intro: exI[of _ "wait a"])

lemma resting_none: "command_laws io obs cap \<Longrightarrow> triple obs (resting m 0) f Q"
  unfolding triple_def resting_def
proof (intro allI impI)
  fix s :: "'a ata"
  assume "command_laws io obs cap" and "phase (obs (bus s)) = Idle \<and> wait (obs (bus s)) < 1000000 \<and> 3 \<le> fails (obs (bus s)) + 0 \<and>
    media (obs (bus s)) = m"
  then show "\<exists>r s'. run_state f s = (r, s') \<and> Q r (obs (bus s')) \<and> g_ata_present s' = g_ata_present s"
    using command_lawsD(5)[of io obs cap "bus s"] by simp
qed

lemma reset_refused:
  assumes "status_laws io obs" and "resting m (Suc n) b"
  shows "triple obs (refused_by b) (ata_soft_reset io) (\<lambda>_. resting m n)"
proof (rule triple_cases)
  fix a assume "refused_by b a"
  then show "triple obs ((=) a) (ata_soft_reset io) (\<lambda>_. resting m n)"
    using assms(2) by (intro triple_weaken[OF soft_reset_spec[OF assms(1)]]) (auto simp: resting_def refused_by_def)
qed

lemma read_attempts_spec:
  assumes L: "ata_drive io obs cap" and r: "in_range cap lba count" and m: "whole_media cap m"
  shows "triple obs (resting m n) (read_attempts io n lba count dst)
    (\<lambda>r a. r = (0, copy_into 0 (concat (lba_sectors m lba (unat count))) dst) \<and> done_with m a)"
proof (induction n)
  case 0
  show ?case by (rule resting_none[of io obs cap]) (use L in \<open>simp add: ata_drive_def\<close>)
next
  case (Suc n)
  let ?Q = "\<lambda>r a. r = (0, copy_into 0 (concat (lba_sectors m lba (unat count))) dst) \<and> done_with m a"
  note S = L[unfolded ata_drive_def, THEN conjunct1]
  show ?case
  proof (rule triple_cases)
    fix b assume b: "resting m (Suc n) b"
    then have mb: "media b = m" "phase b = Idle" by (simp_all add: resting_def)
    have once: "triple obs ((=) b) (ata_read_once io lba count dst) (\<lambda>r a.
        r = (0, copy_into 0 (concat (lba_sectors m lba (unat count))) dst) \<and> done_with m a \<or> r = (- 1, dst) \<and> refused_by b a)"
      by (rule triple_weaken[OF read_once_spec[OF L r mb(2), unfolded mb(1), OF m, of dst]]) (use resting_soon[OF b] in auto)
    have rst: "triple obs (refused_by b) (do { ata_soft_reset io; read_attempts io n lba count dst }) ?Q"
      by (rule triple_bind[OF reset_refused[OF S b]]) (rule Suc.IH)
    show "triple obs ((=) b) (read_attempts io (Suc n) lba count dst) ?Q"
      unfolding read_attempts.simps
    proof (rule triple_bind[OF once])
      fix x :: "int \<times> u8 list"
      show "triple obs (\<lambda>a. x = (0, copy_into 0 (concat (lba_sectors m lba (unat count))) dst) \<and> done_with m a \<or>
          x = (- 1, dst) \<and> refused_by b a)
          (case x of (r, dst') \<Rightarrow> if r = 0 then ret (0, dst') else do { ata_soft_reset io; read_attempts io n lba count dst' }) ?Q"
        using rst by (cases x) (auto simp: triple_def)
    qed
  qed
qed

lemma write_attempts_spec:
  assumes L: "ata_drive io obs cap" and r: "in_range cap lba count"
  shows "triple obs (resting m n) (write_attempts io n lba count src)
    (\<lambda>r a. r = 0 \<and> done_with (put_sectors m lba (src_sectors src (unat count))) a)"
proof (induction n)
  case 0
  show ?case by (rule resting_none[of io obs cap]) (use L in \<open>simp add: ata_drive_def\<close>)
next
  case (Suc n)
  let ?Q = "\<lambda>r a. r = 0 \<and> done_with (put_sectors m lba (src_sectors src (unat count))) a"
  note S = L[unfolded ata_drive_def, THEN conjunct1]
  show ?case
  proof (rule triple_cases)
    fix b assume b: "resting m (Suc n) b"
    then have mb: "media b = m" "phase b = Idle" by (simp_all add: resting_def)
    have once: "triple obs ((=) b) (ata_write_once io lba count src) (\<lambda>r a.
        r = 0 \<and> done_with (put_sectors m lba (src_sectors src (unat count))) a \<or> r = - 1 \<and> refused_by b a)"
      by (rule triple_weaken[OF write_once_spec[OF L r mb(2), unfolded mb(1), of src]]) (use resting_soon[OF b] in auto)
    have rst: "triple obs (refused_by b) (do { ata_soft_reset io; write_attempts io n lba count src }) ?Q"
      by (rule triple_bind[OF reset_refused[OF S b]]) (rule Suc.IH)
    show "triple obs ((=) b) (write_attempts io (Suc n) lba count src) ?Q"
      unfolding write_attempts.simps
    proof (rule triple_bind[OF once])
      fix x :: int
      show "triple obs (\<lambda>a. x = 0 \<and> done_with (put_sectors m lba (src_sectors src (unat count))) a \<or> x = - 1 \<and> refused_by b a)
          (if x = 0 then ret 0 else do { ata_soft_reset io; write_attempts io n lba count src }) ?Q"
        using rst by (cases "x = 0") (auto simp: triple_def)
    qed
  qed
qed

section \<open>The driver implements a disk\<close>

text \<open>The good states: the driver has found the drive, which is idle and has all its sectors.\<close>

definition ata_view :: "('b \<Rightarrow> drive) \<Rightarrow> 'b ata \<Rightarrow> sectors" where
  "ata_view obs s = media (obs (bus s))"

definition ata_ok :: "('b \<Rightarrow> drive) \<Rightarrow> nat \<Rightarrow> 'b ata \<Rightarrow> bool" where
  "ata_ok obs cap s \<longleftrightarrow> g_ata_present s \<and> done_with (ata_view obs s) (obs (bus s)) \<and> whole_media cap (ata_view obs s)"

lemma put_sectors_whole:
  "whole_media cap m \<Longrightarrow> \<forall>sec \<in> set secs. length sec = 512 \<Longrightarrow> whole_media cap (put_sectors m l secs)"
  by (induction secs arbitrary: m l) (simp_all add: whole_media_def)

lemma ata_read_run:
  assumes L: "ata_drive io obs cap" and ok: "ata_ok obs cap s" and r: "in_range cap lba count"
  obtains s' where "run_state (ata_read_sectors io lba count (Some dst)) s =
      ((0, Some (copy_into 0 (concat (lba_sectors (ata_view obs s) lba (unat count))) dst)), s')"
    and "ata_ok obs cap s'" and "ata_view obs s' = ata_view obs s"
proof -
  let ?m = "ata_view obs s"
  have m: "whole_media cap ?m" "resting ?m 3 (obs (bus s))" "g_ata_present s"
    using ok by (auto simp: ata_ok_def done_with_def resting_def)
  obtain s' where s': "run_state (read_attempts io 3 lba count dst) s = ((0, copy_into 0 (concat (lba_sectors ?m lba (unat count))) dst), s')"
      "done_with ?m (obs (bus s'))" "g_ata_present s' = g_ata_present s"
    using read_attempts_spec[OF L r m(1), of 3 dst] m(2) unfolding triple_def by blast
  have "count \<noteq> 0" "\<not> 0x0FFFFFFF < lba" using r by (auto simp: in_range_def)
  then have "run_state (ata_read_sectors io lba count (Some dst)) s =
      ((0, Some (copy_into 0 (concat (lba_sectors ?m lba (unat count))) dst)), s')"
    using s'(1) m(3) by (simp add: ata_read_sectors_def)
  moreover have "ata_view obs s' = ?m" using s'(2) by (simp add: ata_view_def done_with_def)
  ultimately show thesis using s' m by (intro that[of s']) (simp_all add: ata_ok_def)
qed

lemma ata_write_run:
  assumes L: "ata_drive io obs cap" and ok: "ata_ok obs cap s" and r: "in_range cap lba count"
  obtains s' where "run_state (ata_write_sectors io lba count (Some src)) s = (0, s')"
    and "ata_ok obs cap s'" and "ata_view obs s' = put_sectors (ata_view obs s) lba (src_sectors src (unat count))"
proof -
  let ?m = "put_sectors (ata_view obs s) lba (src_sectors src (unat count))"
  have m: "resting (ata_view obs s) 3 (obs (bus s))" "g_ata_present s"
    using ok by (auto simp: ata_ok_def done_with_def resting_def)
  have w: "whole_media cap ?m"
    by (rule put_sectors_whole) (use ok in \<open>auto simp: ata_ok_def src_sectors_def src_sector_def\<close>)
  obtain s' where s': "run_state (write_attempts io 3 lba count src) s = (0, s')"
      "done_with ?m (obs (bus s'))" "g_ata_present s' = g_ata_present s"
    using write_attempts_spec[OF L r, of "ata_view obs s" 3 src] m(1) unfolding triple_def by blast
  have "count \<noteq> 0" "\<not> 0x0FFFFFFF < lba" using r by (auto simp: in_range_def)
  then have "run_state (ata_write_sectors io lba count (Some src)) s = (0, s')"
    using s'(1) m(2) by (simp add: ata_write_sectors_def)
  moreover have "ata_view obs s' = ?m" using s'(2) by (simp add: ata_view_def done_with_def)
  ultimately show thesis using s' m w by (intro that[of s']) (simp_all add: ata_ok_def)
qed

lemma low_sector:
  assumes "6144 \<le> cap" and "lba < 6144"
  shows "in_range cap lba 1" and "unat lba < cap"
  using assms by (simp_all add: in_range_def word_less_nat_alt word_le_nat_alt)

lemma ata_disk_driver:
  fixes io :: "'b ports"
  assumes L: "ata_drive io obs cap" and cap: "6144 \<le> cap"
  shows "disk_driver (ata_driver io) (ata_view obs) (ata_ok obs cap)"
proof
  fix s :: "'b ata" and lba :: u32 and buf :: "u8 list"
  assume ok: "ata_ok obs cap s"
  show "drv_present (ata_driver io) s" using ok by (simp add: ata_driver_def ata_is_present_def ata_ok_def)
  assume lba: "lba < 6144"
  note R = low_sector[OF cap lba]
  show "length (ata_view obs s lba) = 512" using ok R(2) by (simp add: ata_ok_def whole_media_def)
  have one: "lba_sectors m lba (unat (1 :: u8)) = [m lba]" "src_sectors buf (unat (1 :: u8)) = [sector buf]" for m
    by (simp_all add: lba_sectors_def src_sectors_def src_sector_def sector_def byte_at_def)
  obtain s1 where "run_state (ata_read_sectors io lba 1 (Some buf)) s =
      ((0, Some (copy_into 0 (concat (lba_sectors (ata_view obs s) lba (unat (1 :: u8)))) buf)), s1)"
      "ata_ok obs cap s1" "ata_view obs s1 = ata_view obs s" by (rule ata_read_run[OF L ok R(1)])
  then show "\<exists>s'. drv_read (ata_driver io) lba 1 buf s = ((0, copy_into 0 (ata_view obs s lba) buf), s') \<and> ata_ok obs cap s' \<and>
      ata_view obs s' = ata_view obs s"
    unfolding one by (intro exI[of _ s1]) (simp add: ata_driver_def)
  obtain s2 where "run_state (ata_write_sectors io lba 1 (Some buf)) s = (0, s2)" "ata_ok obs cap s2"
      "ata_view obs s2 = put_sectors (ata_view obs s) lba (src_sectors buf (unat (1 :: u8)))" by (rule ata_write_run[OF L ok R(1)])
  then show "\<exists>s'. drv_write (ata_driver io) lba 1 buf s = (0, s') \<and> ata_ok obs cap s' \<and>
      ata_view obs s' = (ata_view obs s)(lba := sector buf)"
    unfolding one by (intro exI[of _ s2]) (simp add: ata_driver_def)
qed

section \<open>Finding the drive\<close>

lemma drain_spec:
  assumes D: "data_laws io obs"
  shows "wait b = 0 \<Longrightarrow> phase b = Data_in bs \<Longrightarrow> length bs = 2 * Suc n \<Longrightarrow> Suc n \<le> 256 \<Longrightarrow>
    triple obs ((=) b) (drain_words io (Suc n)) (\<lambda>_. soon (b\<lparr>phase := Idle\<rparr>))"
proof (induction n arbitrary: b bs)
  case (Suc n)
  obtain x y bs' where bs: "bs = x # y # bs'" using Suc.prems(3) by (auto simp: length_Suc_conv)
  have len: "length bs' = 2 * Suc n" "length bs' mod 512 \<noteq> 0" using Suc.prems(3,4) bs by auto
  have w: "triple obs ((=) b) (in16 io 0x1F0) (\<lambda>_. (=) (b\<lparr>phase := Data_in bs'\<rparr>))"
    by (rule triple_weaken[OF in_word_spec[OF D Suc.prems(1) Suc.prems(2)[unfolded bs]]]) (use len(2) in auto)
  have "triple obs ((=) (b\<lparr>phase := Data_in bs'\<rparr>)) (drain_words io (Suc n)) (\<lambda>_. soon (b\<lparr>phase := Idle\<rparr>))"
    using Suc.IH[of "b\<lparr>phase := Data_in bs'\<rparr>" bs'] Suc.prems len by simp
  then show ?case by (subst drain_words.simps) (rule triple_bind[OF w])
next
  case 0
  then obtain x y where bs: "phase b = Data_in [x, y]" by (auto simp: length_Suc_conv numeral_2_eq_2)
  have "triple obs ((=) b) (in16 io 0x1F0) (\<lambda>_. soon (b\<lparr>phase := Idle\<rparr>))"
    by (rule triple_weaken[OF in_word_spec[OF D 0(1) bs]]) auto
  then show ?case by (auto intro!: triple_bind triple_ret)
qed

lemma status_present:
  assumes S: "status_laws io obs" and b: "phase b = Data_in bs"
  shows "triple obs (soon b) (in8 io 0x1F7) (\<lambda>st a. st \<noteq> 0 \<and> st \<noteq> 0xFF \<and> soon b a)"
proof (rule triple_in8)
  fix d assume "soon b (obs d)"
  then obtain w where w: "w < 1000000" "obs d = b\<lparr>wait := w\<rparr>" by (auto simp: soon_def)
  obtain st d' where st: "inb io 0x1F7 d = (st, d')" "st \<noteq> 0xFF" and
    r: "if wait (obs d) = 0
         then \<not> bit st 7 \<and> obs d' = obs d \<and> (st AND 0x21 \<noteq> 0 \<longleftrightarrow> phase (obs d) = Faulted) \<and>
              (bit st 3 \<longleftrightarrow> (\<exists>bs. phase (obs d) = Data_in bs) \<or> (\<exists>l n bs. phase (obs d) = Data_out l n bs))
         else bit st 7 \<and> (\<exists>w < wait (obs d). obs d' = (obs d)\<lparr>wait := w\<rparr>)"
    using status_lawsD(1)[OF S, of d] by blast
  have "st \<noteq> 0 \<and> soon b (obs d')"
  proof (cases "w = 0")
    case True
    then show ?thesis using r w b by (auto intro: soonI)
  next
    case False
    then obtain v where "bit st 7" "v < w" "obs d' = b\<lparr>wait := v\<rparr>" using r w by auto
    then show ?thesis using w by (auto intro: soonI)
  qed
  then show "fst (inb io 0x1F7 d) \<noteq> 0 \<and> fst (inb io 0x1F7 d) \<noteq> 0xFF \<and> soon b (obs (snd (inb io 0x1F7 d)))" using st by simp
qed

lemma read_reg_spec:
  assumes "command_laws io obs cap" and "wait b = 0" and "p \<in> {0x1F4, 0x1F5}"
  shows "triple obs ((=) b) (in8 io p) (\<lambda>v a. v = regs b p \<and> a = b)"
proof (rule triple_in8)
  fix d assume "b = obs d"
  then obtain d' where "inb io p d = (regs b p, d')" "obs d' = b" using command_lawsD(2)[OF assms(1), of d p] assms(2,3) by blast
  then show "fst (inb io p d) = regs b p \<and> obs (snd (inb io p d)) = b" by simp
qed

lemma identify_spec:
  assumes L: "ata_drive io obs cap" and b: "ready b"
  shows "triple obs ((=) b) (ata_identify_master io) (\<lambda>r a. r = True \<and> done_with (media b) a)"
proof -
  note S = L[unfolded ata_drive_def, THEN conjunct1] and C = L[unfolded ata_drive_def, THEN conjunct2, THEN conjunct1]
    and D = L[unfolded ata_drive_def, THEN conjunct2, THEN conjunct2]
  let ?Q = "\<lambda>r a. r = True \<and> done_with (media b) a"
  let ?I = "\<lambda>c. wait c = 0 \<and> media c = media b \<and> fails c = 0 \<and> regs c 0x1F4 = 0 \<and> regs c 0x1F5 = 0 \<and> (\<exists>bs. phase c = Data_in bs \<and> length bs = 512)"
  let ?rest = "do { r \<leftarrow> ata_wait_drq io; if r \<noteq> 0 then ret False else do { drain_words io 256; ret True } }"
  let ?k = "do { status \<leftarrow> in8 io 0x1F7; if status = 0 \<or> status = 0xFF then ret False else do {
      r \<leftarrow> ata_wait_not_busy io; if r \<noteq> 0 then ret False else do { lba_mid \<leftarrow> in8 io 0x1F4; lba_hi \<leftarrow> in8 io 0x1F5;
      if lba_mid \<noteq> 0 \<or> lba_hi \<noteq> 0 then ret False else ?rest } } }"
  have k: "triple obs (soon c) ?k ?Q" if c: "?I c" for c
  proof -
    obtain bs where bs: "phase c = Data_in bs" "length bs = 512" using c by blast
    have c0: "c\<lparr>wait := 0\<rparr> = c" using c by auto
    then have "soon c c" using soonI[of 0 c] by simp
    have dr: "triple obs ((=) c) (do { drain_words io 256; ret True }) ?Q"
    proof (rule triple_bind[where R = "\<lambda>_. soon (c\<lparr>phase := Idle\<rparr>)"])
      show "triple obs ((=) c) (drain_words io 256) (\<lambda>_. soon (c\<lparr>phase := Idle\<rparr>))"
        using drain_spec[OF D, of c bs 255] bs c by simp
    qed (use c in \<open>auto intro!: triple_ret simp: soon_def done_with_def\<close>)
    have "triple obs (soon c) ?rest ?Q"
      using dr c0 bs by (intro triple_bind_eq[OF wait_drq_spec[OF S]]) simp_all
    then have "triple obs ((=) c) ?rest ?Q" by (rule triple_weaken) (use \<open>soon c c\<close> in auto)
    then have "triple obs ((=) c) (do { lba_hi \<leftarrow> in8 io 0x1F5; if lba_hi \<noteq> 0 then ret False else ?rest }) ?Q"
      using c by (intro triple_bind_eq[OF read_reg_spec[OF C]]) simp_all
    then have "triple obs ((=) c) (do { lba_mid \<leftarrow> in8 io 0x1F4; lba_hi \<leftarrow> in8 io 0x1F5;
        if lba_mid \<noteq> 0 \<or> lba_hi \<noteq> 0 then ret False else ?rest }) ?Q"
      using c by (intro triple_bind_eq[OF read_reg_spec[OF C]]) simp_all
    then have "triple obs (soon c) (do { r \<leftarrow> ata_wait_not_busy io; if r \<noteq> 0 then ret False else do { lba_mid \<leftarrow> in8 io 0x1F4;
        lba_hi \<leftarrow> in8 io 0x1F5; if lba_mid \<noteq> 0 \<or> lba_hi \<noteq> 0 then ret False else ?rest } }) ?Q"
      using c0 by (intro triple_bind_eq[OF wait_not_busy_spec[OF S]]) simp
    then show ?thesis by (intro triple_bind[OF status_present[OF S bs(1)]]) (auto simp: triple_def)
  qed
  define g where "g = (regs b)(0x1F6 := 0xA0, 0x1F2 := 0, 0x1F3 := 0, 0x1F4 := 0, 0x1F5 := 0)"
  have cmd: "triple obs ((=) (b\<lparr>regs := g\<rparr>)) (do { out8 io 0x1F7 0xEC; ata_io_delay io; ?k }) ?Q"
  proof (rule issue_bind[where R = "\<lambda>a. \<exists>c. ?I c \<and> soon c a"])
    show "triple obs ((=) (b\<lparr>regs := g\<rparr>)) (do { out8 io 0x1F7 0xEC; ata_io_delay io }) (\<lambda>_ a. \<exists>c. ?I c \<and> soon c a)"
    proof (rule triple_bind, rule triple_out8)
      fix d assume d: "b\<lparr>regs := g\<rparr> = obs d"
      obtain w bs where w: "w < 1000000" "length bs = 512" "obs (outb io 0x1F7 0xEC d) =
          (obs d)\<lparr>phase := Data_in bs, wait := w, fails := 0, regs := (regs (obs d))(0x1F4 := 0, 0x1F5 := 0)\<rparr>"
        using command_lawsD(7)[OF C, where d = d] b d[symmetric] by auto
      let ?c = "(obs d)\<lparr>phase := Data_in bs, wait := 0, fails := 0, regs := (regs (obs d))(0x1F4 := 0, 0x1F5 := 0)\<rparr>"
      have "?I ?c" using w(2) by (simp add: d[symmetric])
      moreover have "obs (outb io 0x1F7 0xEC d) = ?c\<lparr>wait := w\<rparr>" using w(3) by simp
      ultimately show "\<exists>c. ?I c \<and> soon c (obs (outb io 0x1F7 0xEC d))" using soonI[OF w(1)] by metis
    next
      show "triple obs (\<lambda>a. \<exists>c. ?I c \<and> soon c a) (ata_io_delay io) (\<lambda>_ a. \<exists>c. ?I c \<and> soon c a)" for u :: unit
        by (rule triple_cases) (blast intro: triple_weaken[OF delay_soon[OF S]])
    qed
    show "triple obs (\<lambda>a. \<exists>c. ?I c \<and> soon c a) ?k ?Q"
      by (rule triple_cases) (blast intro: triple_weaken[OF k])
  qed
  let ?b = "b\<lparr>regs := (regs b)(0x1F6 := 0xA0)\<rparr>"
  have d: "triple obs ((=) ?b) (ata_io_delay io) (\<lambda>_. (=) ?b)" using b by (intro delay_ready[OF S]) simp
  show ?thesis unfolding ata_identify_master_def
    by (rule write_reg_bind[OF C b], simp, rule triple_bind[OF d],
        rule write_reg_bind[OF C], simp add: b, simp, rule write_reg_bind[OF C], simp add: b, simp,
        rule write_reg_bind[OF C], simp add: b, simp, rule write_reg_bind[OF C], simp add: b, simp)
      (use cmd in \<open>simp add: g_def\<close>)
qed

text \<open>\<open>ata_init\<close> finds the drive in whatever phase it is and leaves it idle.\<close>

lemma ata_init_run:
  assumes L: "ata_drive io obs cap" and w: "whole_media cap (ata_view obs s)"
  shows "ata_ok obs cap (snd (run_state (ata_init io) s)) \<and> ata_view obs (snd (run_state (ata_init io) s)) = ata_view obs s"
proof -
  note S = L[unfolded ata_drive_def, THEN conjunct1]
  let ?m = "ata_view obs s"
  have ctl: "triple obs (\<lambda>a. media a = ?m) (out8 io 0x3F6 2) (\<lambda>_ a. media a = ?m)"
  proof (rule triple_out8)
    fix d assume "media (obs d) = ?m"
    then show "media (obs (outb io 0x3F6 2 d)) = ?m"
      using status_lawsD(5,6)[OF S, of 2 d] by (cases "phase (obs d) = In_reset") (auto simp: bit_numeral_rec)
  qed
  have dl: "triple obs (\<lambda>a. media a = ?m) (ata_io_delay io) (\<lambda>_ a. media a = ?m)"
  proof (rule triple_cases)
    fix a :: drive
    assume "media a = ?m"
    then show "triple obs ((=) a) (ata_io_delay io) (\<lambda>_ a. media a = ?m)"
      by (intro triple_weaken[OF delay_any[OF S, of a]]) (auto intro: exI[of _ "wait a"])
  qed
  have rs: "triple obs (\<lambda>a. media a = ?m) (ata_soft_reset io) (\<lambda>_ a. ready a \<and> media a = ?m)"
    by (rule triple_cases, rule triple_weaken[OF soft_reset_spec[OF S]]) auto
  have id: "triple obs (\<lambda>a. ready a \<and> media a = ?m) (ata_identify_master io) (\<lambda>r a. r = True \<and> done_with ?m a)"
    by (rule triple_cases, rule triple_weaken[OF identify_spec[OF L]]) auto
  have t: "triple obs (\<lambda>a. media a = ?m) (do { out8 io 0x3F6 2; ata_io_delay io; ata_soft_reset io; ata_identify_master io })
      (\<lambda>r a. r = True \<and> done_with ?m a)"
    by (rule triple_bind[OF ctl] triple_bind[OF dl] triple_bind[OF rs] id)+
  have "media (obs (bus (s\<lparr>g_ata_present := False\<rparr>))) = ?m" by (simp add: ata_view_def)
  then obtain s' where "run_state (do { out8 io 0x3F6 2; ata_io_delay io; ata_soft_reset io; ata_identify_master io })
      (s\<lparr>g_ata_present := False\<rparr>) = (True, s')" "done_with ?m (obs (bus s'))"
    using t[unfolded triple_def, rule_format] by blast
  moreover from this(2) have "media (obs (bus s')) = ?m" by (simp add: done_with_def)
  ultimately show ?thesis using w
    by (auto simp: ata_init_def ata_ok_def ata_view_def split: prod.splits)
qed

end
