(* ===== verification/Ata_Sim.thy ===== *)
theory Ata_Sim
  imports Ata
begin

text \<open>
  A simulated ATA drive that satisfies \<open>ata_drive\<close>: it is busy for one poll after each command and refuses
  every first attempt of a transfer. With it the contract of the file system's disk is interpreted on the
  driver, and the driver's properties are tried out.
\<close>

unbundle bit_operations_syntax

section \<open>The simulated drive\<close>

definition sim_status :: "drive \<Rightarrow> u8" where
  "sim_status d = (case phase d of Faulted \<Rightarrow> 0x41 | Data_in _ \<Rightarrow> 0x48 | Data_out _ _ _ \<Rightarrow> 0x48 | _ \<Rightarrow> 0x40)"

definition sim_inb :: "u16 \<Rightarrow> drive \<Rightarrow> u8 \<times> drive" where
  "sim_inb p d =
     (if p = 0x1F7 then if wait d = 0 then (sim_status d, d) else (0x80, d\<lparr>wait := wait d - 1\<rparr>)
      else if p = 0x3F6 then (0, d)
      else (regs d p, d))"

definition sim_command :: "u8 \<Rightarrow> drive \<Rightarrow> drive" where
  "sim_command v d =
     (if v = 0x20 then if fails d = 0 then d\<lparr>phase := Faulted, wait := 1, fails := 1\<rparr>
        else d\<lparr>phase := Data_in (sectors_at (media d) (reg_lba (regs d)) (unat (regs d 0x1F2))), wait := 1, fails := 0\<rparr>
      else if v = 0x30 then if fails d = 0 then d\<lparr>phase := Faulted, wait := 1, fails := 1\<rparr>
        else d\<lparr>phase := Data_out (reg_lba (regs d)) (unat (regs d 0x1F2)) [], wait := 1, fails := 0\<rparr>
      else if v = 0xEC then d\<lparr>phase := Data_in (replicate 512 0), wait := 1, fails := 0, regs := (regs d)(0x1F4 := 0, 0x1F5 := 0)\<rparr>
      else d)"

definition sim_outb :: "u16 \<Rightarrow> u8 \<Rightarrow> drive \<Rightarrow> drive" where
  "sim_outb p v d =
     (if p = 0x1F7 then if wait d = 0 then sim_command v d else d
      else if p = 0x3F6 then if bit v 2 then d\<lparr>phase := In_reset, wait := 1\<rparr>
        else if phase d = In_reset then d\<lparr>phase := Idle, wait := 1\<rparr> else d
      else d\<lparr>regs := (regs d)(p := v)\<rparr>)"

definition sim_inw :: "u16 \<Rightarrow> drive \<Rightarrow> u16 \<times> drive" where
  "sim_inw p d =
     (case phase d of
        Data_in (x # y # bs) \<Rightarrow> (of_le [x, y], d\<lparr>phase := if bs = [] then Idle else Data_in bs, wait := 0\<rparr>)
      | _ \<Rightarrow> (0, d))"

definition sim_outw :: "u16 \<Rightarrow> u16 \<Rightarrow> drive \<Rightarrow> drive" where
  "sim_outw p v d =
     (case phase d of
        Data_out l (Suc n) bs \<Rightarrow>
          let bs' = bs @ to_le 2 v
          in if length bs + 2 < 512 then d\<lparr>phase := Data_out l (Suc n) bs'\<rparr>
             else d\<lparr>phase := if n = 0 then Idle else Data_out (l + 1) n [], wait := 1, media := (media d)(l := bs')\<rparr>
      | _ \<Rightarrow> d)"

definition sim_ports :: "drive ports" where
  "sim_ports = \<lparr>inb = sim_inb, outb = sim_outb, inw = sim_inw, outw = sim_outw\<rparr>"

definition sim_obs :: "drive \<Rightarrow> drive" where
  "sim_obs d = d\<lparr>fails := if fails d = 0 then 0 else 1\<rparr>"

lemma sim_obs_simps [simp]:
  "phase (sim_obs d) = phase d" "wait (sim_obs d) = wait d" "regs (sim_obs d) = regs d" "media (sim_obs d) = media d"
  "fails (sim_obs d) = (if fails d = 0 then 0 else 1)"
  by (simp_all add: sim_obs_def)

lemma sim_obs_eqI:
  "phase d = phase a \<Longrightarrow> wait d = wait a \<Longrightarrow> regs d = regs a \<Longrightarrow> media d = media a \<Longrightarrow> fails (sim_obs d) = fails a \<Longrightarrow> sim_obs d = a"
  by (cases a; cases d) (simp add: sim_obs_def)

lemma sim_status_laws: "status_laws sim_ports sim_obs"
  unfolding status_laws_def
proof (intro conjI allI impI)
  fix d
  show "\<exists>st d'. inb sim_ports 0x1F7 d = (st, d') \<and> st \<noteq> 0xFF \<and>
        (if wait (sim_obs d) = 0
         then \<not> bit st 7 \<and> sim_obs d' = sim_obs d \<and> (st AND 0x21 \<noteq> 0 \<longleftrightarrow> phase (sim_obs d) = Faulted) \<and>
              (bit st 3 \<longleftrightarrow> (\<exists>bs. phase (sim_obs d) = Data_in bs) \<or> (\<exists>l n bs. phase (sim_obs d) = Data_out l n bs))
         else bit st 7 \<and> (\<exists>w < wait (sim_obs d). sim_obs d' = (sim_obs d)\<lparr>wait := w\<rparr>))"
  proof (cases "wait d = 0")
    case True
    then show ?thesis
      by (cases "phase d") (auto simp: sim_ports_def sim_inb_def sim_status_def bit_numeral_rec)
  next
    case False
    then show ?thesis
      by (auto simp: sim_ports_def sim_inb_def bit_numeral_rec sim_obs_def intro!: exI[of _ "wait d - 1"])
  qed
next
  fix d
  show "\<exists>st d' w. inb sim_ports 0x3F6 d = (st, d') \<and> w \<le> wait (sim_obs d) \<and> sim_obs d' = (sim_obs d)\<lparr>wait := w\<rparr>"
    by (auto simp: sim_ports_def sim_inb_def sim_obs_def intro!: exI[of _ "wait d"])
next
  fix d v assume "0 < wait (sim_obs d)"
  then show "sim_obs (outb sim_ports 0x1F7 v d) = sim_obs d" by (simp add: sim_ports_def sim_outb_def)
next
  fix d and v :: u8 assume "bit v 2"
  then show "\<exists>w. sim_obs (outb sim_ports 0x3F6 v d) = (sim_obs d)\<lparr>phase := In_reset, wait := w\<rparr>"
    by (auto simp: sim_ports_def sim_outb_def sim_obs_def intro!: exI[of _ 1])
next
  fix d and v :: u8 assume "\<not> bit v 2"
  then show "if phase (sim_obs d) = In_reset
      then \<exists>w < ATA_POLL_LIMIT. \<exists>r. sim_obs (outb sim_ports 0x3F6 v d) = (sim_obs d)\<lparr>phase := Idle, wait := w, regs := r\<rparr>
      else sim_obs (outb sim_ports 0x3F6 v d) = sim_obs d"
    by (auto simp: sim_ports_def sim_outb_def sim_obs_def intro!: exI[of _ 1] exI[of _ "regs d"])
qed

lemma sim_command_laws: "command_laws sim_ports sim_obs cap"
  unfolding command_laws_def
proof (intro conjI allI impI)
  fix d p and v :: u8
  assume "ready (sim_obs d) \<and> p \<in> {0x1F1, 0x1F2, 0x1F3, 0x1F4, 0x1F5, 0x1F6 :: u16}"
  then show "sim_obs (outb sim_ports p v d) = (sim_obs d)\<lparr>regs := (regs (sim_obs d))(p := v)\<rparr>"
    by (auto simp: sim_ports_def sim_outb_def sim_obs_def)
next
  fix d p assume "wait (sim_obs d) = 0 \<and> p \<in> {0x1F4, 0x1F5 :: u16}"
  then show "\<exists>d'. inb sim_ports p d = (regs (sim_obs d) p, d') \<and> sim_obs d' = sim_obs d"
    by (auto simp: sim_ports_def sim_inb_def)
next
  fix d n assume "transfer_ok cap (sim_obs d) n"
  then show "\<exists>w < ATA_POLL_LIMIT. sim_obs (outb sim_ports 0x1F7 0x20 d) \<in>
      {(sim_obs d)\<lparr>phase := Data_in (sectors_at (media (sim_obs d)) (reg_lba (regs (sim_obs d))) n), wait := w, fails := 0\<rparr>,
       (sim_obs d)\<lparr>phase := Faulted, wait := w, fails := Suc (fails (sim_obs d))\<rparr>}"
    by (intro exI[of _ 1]) (auto simp: transfer_ok_def sim_ports_def sim_outb_def sim_command_def intro!: sim_obs_eqI)
next
  fix d n assume "transfer_ok cap (sim_obs d) n"
  then show "\<exists>w < ATA_POLL_LIMIT. sim_obs (outb sim_ports 0x1F7 0x30 d) \<in>
      {(sim_obs d)\<lparr>phase := Data_out (reg_lba (regs (sim_obs d))) n [], wait := w, fails := 0\<rparr>,
       (sim_obs d)\<lparr>phase := Faulted, wait := w, fails := Suc (fails (sim_obs d))\<rparr>}"
    by (intro exI[of _ 1]) (auto simp: transfer_ok_def sim_ports_def sim_outb_def sim_command_def intro!: sim_obs_eqI)
next
  fix d assume "ready (sim_obs d)"
  then show "\<exists>w < ATA_POLL_LIMIT. sim_obs (outb sim_ports 0x1F7 0xE7 d) = (sim_obs d)\<lparr>wait := w\<rparr>"
    by (intro exI[of _ 0]) (auto simp: sim_ports_def sim_outb_def sim_command_def intro!: sim_obs_eqI)
next
  fix d assume "ready (sim_obs d)"
  then show "\<exists>w < ATA_POLL_LIMIT. \<exists>bs. length bs = 512 \<and> sim_obs (outb sim_ports 0x1F7 0xEC d) =
      (sim_obs d)\<lparr>phase := Data_in bs, wait := w, fails := 0, regs := (regs (sim_obs d))(0x1F4 := 0, 0x1F5 := 0)\<rparr>"
    by (intro exI[of _ 1] conjI exI[of _ "replicate 512 0"])
      (auto simp: sim_ports_def sim_outb_def sim_command_def intro!: sim_obs_eqI)
qed simp

lemma sim_data_laws: "data_laws sim_ports sim_obs"
  unfolding data_laws_def
proof (intro conjI allI impI)
  fix d x y bs assume "wait (sim_obs d) = 0 \<and> phase (sim_obs d) = Data_in (x # y # bs)"
  then show "\<exists>d' w. inw sim_ports 0x1F0 d = (of_le [x, y], d') \<and> w < ATA_POLL_LIMIT \<and> (length bs mod 512 \<noteq> 0 \<longrightarrow> w = 0) \<and>
      sim_obs d' = (sim_obs d)\<lparr>phase := if bs = [] then Idle else Data_in bs, wait := w\<rparr>"
    by (intro exI[of _ "d\<lparr>phase := if bs = [] then Idle else Data_in bs, wait := 0\<rparr>"] exI[of _ 0])
      (auto simp: sim_ports_def sim_inw_def intro!: sim_obs_eqI)
next
  fix d x y l n bs assume a: "wait (sim_obs d) = 0 \<and> phase (sim_obs d) = Data_out l (Suc n) bs"
  have w: "to_le 2 (of_le [x, y] :: u16) = [x, y]" by (rule to_le_of_le) simp_all
  show "if length bs + 2 < 512
      then sim_obs (outw sim_ports 0x1F0 (of_le [x, y]) d) = (sim_obs d)\<lparr>phase := Data_out l (Suc n) (bs @ [x, y])\<rparr>
      else \<exists>w < ATA_POLL_LIMIT. sim_obs (outw sim_ports 0x1F0 (of_le [x, y]) d) = (sim_obs d)\<lparr>phase := if n = 0 then Idle
        else Data_out (l + 1) n [], wait := w, media := (media (sim_obs d))(l := bs @ [x, y])\<rparr>"
  proof (cases "length bs + 2 < 512")
    case True
    then show ?thesis using a w by (auto simp: sim_ports_def sim_outw_def Let_def simp del: of_le.simps intro!: sim_obs_eqI)
  next
    case False
    then show ?thesis using a w
      by (simp add: sim_ports_def sim_outw_def Let_def del: of_le.simps, intro exI[of _ 1] conjI impI)
        (auto intro!: sim_obs_eqI)
  qed
qed

lemma sim_drive: "ata_drive sim_ports sim_obs cap"
  by (simp add: ata_drive_def sim_status_laws sim_command_laws sim_data_laws)

interpretation sim_disk: disk_driver "ata_driver sim_ports" "ata_view sim_obs" "ata_ok sim_obs 6144"
  by (rule ata_disk_driver[OF sim_drive]) simp

section \<open>Transfers\<close>

lemma put_sectors_at:
  "unat lba + length secs \<le> 2 ^ 32 \<Longrightarrow> put_sectors m lba secs l =
     (if unat lba \<le> unat l \<and> unat l < unat lba + length secs then secs ! (unat l - unat lba) else m l)"
proof (induction secs arbitrary: m lba)
  case (Cons sec secs)
  show ?case
  proof (cases "secs = []")
    case True
    then show ?thesis by (auto simp: word_unat_eq_iff)
  next
    case False
    then have "1 \<le> length secs" by (cases secs) simp_all
    then have u: "unat (lba + 1) = unat lba + 1" using Cons.prems by (simp add: unat_word_ariths)
    then have "unat (lba + 1) + length secs \<le> 2 ^ 32" using Cons.prems by simp
    note ih = Cons.IH[OF this, of "m(lba := sec)"]
    have e: "l = lba \<longleftrightarrow> unat l = unat lba" by (rule word_unat_eq_iff)
    show ?thesis unfolding put_sectors.simps ih fun_upd_apply e using u by (auto simp: nth_Cons')
  qed
qed auto


definition sim_start :: "drive ata" where
  "sim_start = \<lparr>bus = \<lparr>phase = Idle, wait = 0, fails = 0, regs = (\<lambda>_. 0), media = (\<lambda>_. replicate 512 0)\<rparr>, g_ata_present = True\<rparr>"

lemma sim_start_ok: "ata_ok sim_obs cap sim_start" "ata_view sim_obs sim_start = (\<lambda>_. replicate 512 0)"
  by (simp_all add: ata_ok_def sim_start_def ata_view_def done_with_def whole_media_def)


end
