(* ===== verification/Console.thy ===== *)
theory Console
  imports Ares_Prelude
begin

text \<open>
  The VGA text console, \<^verbatim>\<open>kernel/console.c\<close> and \<^verbatim>\<open>kernel/console.h\<close>. The video memory is a function from cell
  numbers (counted in 16-bit cells from \<^verbatim>\<open>VGA_MEMORY\<close>) to cells, so that a store outside the 2000 visible
  cells would be seen. Strings are lists of bytes without the terminating NUL. A call whose behaviour C
  does not define (a format string that ends in a percent sign, an argument that is missing or of the wrong
  kind, the negation of the least integer) has the result \<^term>\<open>None\<close>.

  The theory shows that the console never leaves the screen, that after any text the screen holds the last
  25 lines of it, and that numbers are printed so that they can be read back.
\<close>

section \<open>State\<close>

abbreviation (input) VGA_WIDTH :: nat where "VGA_WIDTH \<equiv> 80"
abbreviation (input) VGA_HEIGHT :: nat where "VGA_HEIGHT \<equiv> 25"

datatype vga_color = VGA_BLACK | VGA_BLUE | VGA_GREEN | VGA_CYAN | VGA_RED | VGA_MAGENTA | VGA_BROWN
  | VGA_LIGHT_GREY | VGA_DARK_GREY | VGA_LIGHT_BLUE | VGA_LIGHT_GREEN | VGA_LIGHT_CYAN | VGA_LIGHT_RED
  | VGA_LIGHT_MAGENTA | VGA_LIGHT_BROWN | VGA_WHITE

fun color_code :: "vga_color \<Rightarrow> u8" where
  "color_code VGA_BLACK = 0" | "color_code VGA_BLUE = 1" | "color_code VGA_GREEN = 2" | "color_code VGA_CYAN = 3"
| "color_code VGA_RED = 4" | "color_code VGA_MAGENTA = 5" | "color_code VGA_BROWN = 6"
| "color_code VGA_LIGHT_GREY = 7" | "color_code VGA_DARK_GREY = 8" | "color_code VGA_LIGHT_BLUE = 9"
| "color_code VGA_LIGHT_GREEN = 10" | "color_code VGA_LIGHT_CYAN = 11" | "color_code VGA_LIGHT_RED = 12"
| "color_code VGA_LIGHT_MAGENTA = 13" | "color_code VGA_LIGHT_BROWN = 14" | "color_code VGA_WHITE = 15"

record console =
  vga :: "nat \<Rightarrow> u16"
  crow :: nat
  ccol :: nat
  ccolor :: u8

section \<open>Operations\<close>

text \<open>The cast of a \<^verbatim>\<open>char\<close> to 16 bits extends its sign.\<close>

definition vga_entry :: "u8 \<Rightarrow> u8 \<Rightarrow> u16" where
  "vga_entry c color = scast c OR push_bit 8 (ucast color)"

definition console_clear :: "console \<Rightarrow> console" where
  "console_clear c =
     (let blank = vga_entry 0x20 (ccolor c)
      in c\<lparr>vga := fold (\<lambda>i b. b(i := blank)) [0..<VGA_WIDTH * VGA_HEIGHT] (vga c), crow := 0, ccol := 0\<rparr>)"

definition console_init :: "console \<Rightarrow> console" where
  "console_init c = console_clear (c\<lparr>crow := 0, ccol := 0, ccolor := 0x0F\<rparr>)"

definition console_set_color :: "vga_color \<Rightarrow> vga_color \<Rightarrow> console \<Rightarrow> console" where
  "console_set_color fg bg c = c\<lparr>ccolor := color_code fg OR push_bit 4 (color_code bg)\<rparr>"

definition scroll_rows :: "(nat \<Rightarrow> u16) \<Rightarrow> nat \<Rightarrow> u16" where
  "scroll_rows b =
     fold (\<lambda>row b. fold (\<lambda>col b. b(row * VGA_WIDTH + col := b ((row + 1) * VGA_WIDTH + col))) [0..<VGA_WIDTH] b)
       [0..<VGA_HEIGHT - 1] b"

definition console_scroll :: "console \<Rightarrow> console" where
  "console_scroll c =
     (let blank = vga_entry 0x20 (ccolor c); last_row = VGA_HEIGHT - 1
      in c\<lparr>vga := fold (\<lambda>col b. b(last_row * VGA_WIDTH + col := blank)) [0..<VGA_WIDTH] (scroll_rows (vga c)),
           crow := VGA_HEIGHT - 1, ccol := 0\<rparr>)"

definition put_cell :: "u8 \<Rightarrow> console \<Rightarrow> console" where
  "put_cell ch c = c\<lparr>vga := (vga c)(crow c * VGA_WIDTH + ccol c := vga_entry ch (ccolor c))\<rparr>"

text \<open>The \<^verbatim>\<open>switch\<close> on the character, and the wrapping and scrolling after it.\<close>

definition emit_char :: "u8 \<Rightarrow> console \<Rightarrow> console" where
  "emit_char ch c =
     (if ch = 0x0A then c\<lparr>crow := crow c + 1, ccol := 0\<rparr>
      else if ch = 0x0D then c\<lparr>ccol := 0\<rparr>
      else if ch = 0x09 then c\<lparr>ccol := (ccol c + 8) div 8 * 8\<rparr>
      else if ch = 0x08 then (if ccol c > 0 then put_cell 0x20 (c\<lparr>ccol := ccol c - 1\<rparr>) else c)
      else let c' = put_cell ch c in c'\<lparr>ccol := ccol c' + 1\<rparr>)"

definition settle :: "console \<Rightarrow> console" where
  "settle c =
     (let c' = (if ccol c \<ge> VGA_WIDTH then c\<lparr>ccol := 0, crow := crow c + 1\<rparr> else c)
      in if crow c' \<ge> VGA_HEIGHT then console_scroll c' else c')"

definition console_putchar :: "u8 \<Rightarrow> console \<Rightarrow> console" where
  "console_putchar ch c = settle (emit_char ch c)"

primrec console_puts :: "u8 list \<Rightarrow> console \<Rightarrow> console" where
  "console_puts [] c = c"
| "console_puts (ch # str) c = (if ch = 0 then c else console_puts str (console_putchar ch c))"

definition console_writeline :: "u8 list \<Rightarrow> console \<Rightarrow> console" where
  "console_writeline str c = console_putchar 0x0A (console_puts str c)"

definition console_set_cursor :: "nat \<Rightarrow> nat \<Rightarrow> console \<Rightarrow> console" where
  "console_set_cursor r k c = (if r < VGA_HEIGHT \<and> k < VGA_WIDTH then c\<lparr>crow := r, ccol := k\<rparr> else c)"

definition console_get_row :: "console \<Rightarrow> nat" where
  "console_get_row c = crow c"

definition console_get_col :: "console \<Rightarrow> nat" where
  "console_get_col c = ccol c"

section \<open>Formatted output\<close>

text \<open>
  \<open>dec_loop\<close> is the loop of \<open>print_dec\<close> that fills its buffer from the end; the list is the part of the
  buffer filled so far. The padding never applies: every caller passes 0.
\<close>

function dec_loop :: "u64 \<Rightarrow> u8 list \<Rightarrow> u8 list" where
  "dec_loop value buf =
     (let buf' = (0x30 + ucast (value mod 10)) # buf; value' = value div 10
      in if value' > 0 then dec_loop value' buf' else buf')"
  by auto

lemma unat_div_10_less: "(v :: u64) div 10 > 0 \<Longrightarrow> unat (v div 10) < unat v"
  by (cases "v = 0") (auto simp: unat_div word_gt_0_no word_less_nat_alt)

termination dec_loop
  by (relation "measure (\<lambda>(v, _). unat v)") (auto simp: unat_div_10_less)

declare dec_loop.simps [simp del]

definition print_dec :: "u64 \<Rightarrow> nat \<Rightarrow> console \<Rightarrow> console" where
  "print_dec value pad_zeros c =
     (let buf = dec_loop value []
      in console_puts (replicate (pad_zeros - length buf) 0x30 @ buf) c)"

definition hex_digit :: "nat \<Rightarrow> u8" where
  "hex_digit n = ascii ''0123456789ABCDEF'' ! n"

definition print_hex :: "nat \<Rightarrow> u64 \<Rightarrow> console \<Rightarrow> console" where
  "print_hex digits val c =
     fold (\<lambda>i. console_putchar (hex_digit (unat (drop_bit (4 * i) val AND 0x0F)))) (rev [0..<digits])
       (console_puts (ascii ''0x'') c)"

text \<open>An argument of \<open>console_printf\<close>: a string pointer, or an integer in its 64-bit argument slot.\<close>

datatype arg = Str "u8 list option" | Num u64

definition print_int :: "u32 \<Rightarrow> console \<Rightarrow> console option" where
  "print_int val c =
     (if val <s 0
      then if - sint val > 0x7FFFFFFF then None
           else Some (print_dec (scast (- val)) 0 (console_putchar 0x2D c))
      else Some (print_dec (scast val) 0 c))"

fun printf_conv :: "char \<Rightarrow> arg list \<Rightarrow> console \<Rightarrow> (arg list \<times> console) option" where
  "printf_conv f args c =
     (if f = CHR ''s''
      then case args of Str s # args' \<Rightarrow> Some (args', console_puts (case s of Some str \<Rightarrow> str | None \<Rightarrow> ascii ''(null)'') c)
           | _ \<Rightarrow> None
      else if f = CHR ''d''
      then case args of Num v # args' \<Rightarrow> map_option (Pair args') (print_int (ucast v) c) | _ \<Rightarrow> None
      else if f = CHR ''u''
      then case args of Num v # args' \<Rightarrow> Some (args', print_dec (ucast (ucast v :: u32)) 0 c) | _ \<Rightarrow> None
      else if f = CHR ''x'' \<or> f = CHR ''X''
      then case args of Num v # args' \<Rightarrow> Some (args', print_hex 8 (ucast (ucast v :: u32)) c) | _ \<Rightarrow> None
      else if f = CHR ''p''
      then case args of Num v # args' \<Rightarrow> Some (args', print_hex 16 v c) | _ \<Rightarrow> None
      else if f = CHR ''c''
      then case args of Num v # args' \<Rightarrow> Some (args', console_putchar (ucast v) c) | _ \<Rightarrow> None
      else if f = CHR ''%'' then Some (args, console_putchar 0x25 c)
      else Some (args, console_putchar (of_char f) (console_putchar 0x25 c)))"

fun console_printf :: "string \<Rightarrow> arg list \<Rightarrow> console \<Rightarrow> console option" where
  "console_printf [] args c = Some c"
| "console_printf (p # fmt) args c =
     (if p \<noteq> CHR ''%'' then console_printf fmt args (console_putchar (of_char p) c)
      else case fmt of
             [] \<Rightarrow> None
           | f # fmt' \<Rightarrow>
               (case printf_conv f args c of
                  None \<Rightarrow> None
                | Some (args', c') \<Rightarrow> console_printf fmt' args' c'))"

section \<open>The screen\<close>

text \<open>The loops over the video memory in closed form.\<close>

lemma fill_cells: "fold (\<lambda>i b. b(base + i := v)) [0..<n] b = (\<lambda>i. if base \<le> i \<and> i < base + n then v else b i)"
  by (induction n) (auto simp: fun_eq_iff)

lemma scroll_row: "fold (\<lambda>col b. b(row * 80 + col := b ((row + 1) * 80 + col))) [0..<n] b =
    (\<lambda>i. if row * 80 \<le> i \<and> i < row * 80 + n then b (i + 80) else b i)" if "n \<le> 80"
  using that by (induction n) (auto simp: fun_eq_iff algebra_simps)

lemma scroll_rows_upto:
  "fold (\<lambda>row b. fold (\<lambda>col b. b(row * 80 + col := b ((row + 1) * 80 + col))) [0..<80] b) [0..<m] b =
    (\<lambda>i. if i < m * 80 then b (i + 80) else b i)"
  unfolding scroll_row[OF order_refl] by (induction m) (auto simp: fun_eq_iff)

lemma vga_clear: "vga (console_clear c) = (\<lambda>i. if i < 2000 then vga_entry 0x20 (ccolor c) else vga c i)"
  using fill_cells[of 0 "vga_entry 0x20 (ccolor c)" 2000 "vga c"]
  by (simp add: console_clear_def Let_def del: upt_rec_numeral)

lemma vga_scroll: "vga (console_scroll c) =
    (\<lambda>i. if i < 1920 then vga c (i + 80) else if i < 2000 then vga_entry 0x20 (ccolor c) else vga c i)"
  using fill_cells[of 1920 "vga_entry 0x20 (ccolor c)" 80 "scroll_rows (vga c)"] scroll_rows_upto[of 24 "vga c"]
  by (auto simp: console_scroll_def scroll_rows_def Let_def fun_eq_iff simp del: upt_rec_numeral)

lemma clear_fields [simp]: "crow (console_clear c) = 0" "ccol (console_clear c) = 0" "ccolor (console_clear c) = ccolor c"
  by (simp_all add: console_clear_def Let_def)

lemma scroll_fields [simp]: "crow (console_scroll c) = 24" "ccol (console_scroll c) = 0"
  "ccolor (console_scroll c) = ccolor c"
  by (simp_all add: console_scroll_def Let_def)

lemma put_cell_fields [simp]: "crow (put_cell ch c) = crow c" "ccol (put_cell ch c) = ccol c"
  "ccolor (put_cell ch c) = ccolor c"
  by (simp_all add: put_cell_def)

text \<open>
  The cursor is inside the screen, and an operation stores only to the visible cells.
\<close>

definition on_screen :: "console \<Rightarrow> bool" where
  "on_screen c \<longleftrightarrow> crow c < VGA_HEIGHT \<and> ccol c < VGA_WIDTH"

definition same_beyond :: "console \<Rightarrow> console \<Rightarrow> bool" where
  "same_beyond c c' \<longleftrightarrow> (\<forall>i \<ge> VGA_WIDTH * VGA_HEIGHT. vga c' i = vga c i)"

definition screen_op :: "console \<Rightarrow> console \<Rightarrow> bool" where
  "screen_op c c' \<longleftrightarrow> (on_screen c \<longrightarrow> on_screen c' \<and> same_beyond c c')"

lemma screen_op_refl [simp, intro]: "screen_op c c"
  by (simp add: screen_op_def same_beyond_def)

lemma screen_op_trans: "screen_op a b \<Longrightarrow> screen_op b c \<Longrightarrow> screen_op a c"
  by (auto simp: screen_op_def same_beyond_def)

lemma screen_op_settle:
  assumes "crow c \<le> 25" and "ccol c \<le> 80" and "crow c < 25 \<or> ccol c < 80"
  shows "on_screen (settle c) \<and> same_beyond c (settle c)"
  using assms by (auto simp: settle_def on_screen_def same_beyond_def Let_def vga_scroll)

lemma emit_char_bounds:
  assumes "on_screen c"
  shows "crow (emit_char ch c) \<le> 25" "ccol (emit_char ch c) \<le> 80"
    "crow (emit_char ch c) < 25 \<or> ccol (emit_char ch c) < 80" "same_beyond c (emit_char ch c)"
proof -
  have t: "(k + 8) div 8 * 8 \<le> 80" if "k < 80" for k :: nat using that by presburger
  show "crow (emit_char ch c) \<le> 25" "ccol (emit_char ch c) \<le> 80"
    "crow (emit_char ch c) < 25 \<or> ccol (emit_char ch c) < 80" "same_beyond c (emit_char ch c)"
    using assms t[of "ccol c"] unfolding on_screen_def emit_char_def same_beyond_def
    by (auto simp: put_cell_def Let_def)
qed

lemma screen_op_putchar [simp, intro]: "screen_op c (console_putchar ch c)"
proof (unfold screen_op_def console_putchar_def, intro impI)
  assume "on_screen c"
  note e = emit_char_bounds[OF this, of ch]
  show "on_screen (settle (emit_char ch c)) \<and> same_beyond c (settle (emit_char ch c))"
    using screen_op_settle[OF e(1-3)] e(4) by (simp add: same_beyond_def)
qed

lemma screen_op_puts [simp, intro]: "screen_op c (console_puts str c)"
  by (induction str arbitrary: c) (auto intro: screen_op_trans)

lemma screen_op_print_dec [simp, intro]: "screen_op c (print_dec v n c)"
  by (simp add: print_dec_def Let_def)

lemma screen_op_fold: "(\<And>x c. screen_op c (f x c)) \<Longrightarrow> screen_op c (fold f xs c)"
  by (induction xs arbitrary: c) (auto intro: screen_op_trans)

lemma screen_op_print_hex [simp, intro]: "screen_op c (print_hex n v c)"
  unfolding print_hex_def by (rule screen_op_trans[OF screen_op_puts screen_op_fold[OF screen_op_putchar]])

lemma screen_op_print_int: "print_int v c = Some c' \<Longrightarrow> screen_op c c'"
  unfolding print_int_def using screen_op_trans[OF screen_op_putchar screen_op_print_dec] by (auto split: if_splits)

lemma screen_op_conv: "printf_conv f args c = Some (args', c') \<Longrightarrow> screen_op c c'"
  using screen_op_trans[OF screen_op_putchar screen_op_putchar]
  by (auto split: if_splits list.splits arg.splits simp: screen_op_print_int)

lemma screen_op_printf: "console_printf fmt args c = Some c' \<Longrightarrow> screen_op c c'"
proof (induction fmt args c rule: console_printf.induct)
  case (2 p fmt args c)
  show ?case
  proof (cases "p = CHR ''%''")
    case False
    then show ?thesis using 2 screen_op_trans[OF screen_op_putchar] by simp
  next
    case True
    then obtain f fmt' args' d where f: "fmt = f # fmt'" "printf_conv f args c = Some (args', d)"
      and r: "console_printf fmt' args' d = Some c'"
      using "2.prems" by (simp split: list.splits option.splits prod.splits del: printf_conv.simps)
    show ?thesis using screen_op_trans[OF screen_op_conv[OF f(2)] "2.IH"(2)[OF _ f refl r]] True by simp
  qed
qed simp

lemma screen_ops: "on_screen (console_clear c)" "same_beyond c (console_clear c)" "screen_op c (console_set_color f b c)"
  "screen_op c (console_scroll c)" "screen_op c (console_set_cursor r k c)" "screen_op c (console_writeline str c)"
  using screen_op_trans[OF screen_op_puts screen_op_putchar]
  by (auto simp: screen_op_def on_screen_def same_beyond_def vga_clear vga_scroll console_set_color_def
      console_set_cursor_def console_writeline_def)

text \<open>
  Which calls of \<open>console_printf\<close> C defines: every conversion finds an argument of its kind, and the format
  does not end in a percent sign. It depends on the arguments only, never on the state of the console.
\<close>

fun conv_ok :: "char \<Rightarrow> arg list \<Rightarrow> bool" where
  "conv_ok f args =
     (if f = CHR ''s'' then (case args of Str s # _ \<Rightarrow> True | _ \<Rightarrow> False)
      else if f = CHR ''d'' then (case args of Num v # _ \<Rightarrow> sint (ucast v :: u32) > - 0x80000000 | _ \<Rightarrow> False)
      else if f \<in> {CHR ''u'', CHR ''x'', CHR ''X'', CHR ''p'', CHR ''c''} then (case args of Num v # _ \<Rightarrow> True | _ \<Rightarrow> False)
      else True)"

definition conv_rest :: "char \<Rightarrow> arg list \<Rightarrow> arg list" where
  "conv_rest f args = (if f \<in> set ''sduxXpc'' then tl args else args)"

fun printf_ok :: "string \<Rightarrow> arg list \<Rightarrow> bool" where
  "printf_ok [] args = True"
| "printf_ok [p] args = (p \<noteq> CHR ''%'')"
| "printf_ok (p # f # fmt) args =
     (if p \<noteq> CHR ''%'' then printf_ok (f # fmt) args else conv_ok f args \<and> printf_ok fmt (conv_rest f args))"

lemma print_int_defined: "print_int v c = None \<longleftrightarrow> \<not> sint v > - 0x80000000"
proof -
  have "- 0x80000000 \<le> sint v" using sint_range_size[of v] by (simp add: word_size)
  then show ?thesis by (auto simp: print_int_def word_sless_alt)
qed

lemma conv_defined:
  "conv_ok f args \<Longrightarrow> \<exists>c'. printf_conv f args c = Some (conv_rest f args, c')"
  "\<not> conv_ok f args \<Longrightarrow> printf_conv f args c = None"
  using print_int_defined
  by (auto simp: conv_rest_def split: list.splits arg.splits if_splits intro: option.exhaust)

lemma printf_defined: "console_printf fmt args c = None \<longleftrightarrow> \<not> printf_ok fmt args"
proof (induction fmt args arbitrary: c rule: printf_ok.induct)
  case (3 p f fmt args)
  show ?case
  proof (cases "p = CHR ''%''")
    case True
    show ?thesis
    proof (cases "conv_ok f args")
      case ok: True
      then obtain c' where "printf_conv f args c = Some (conv_rest f args, c')" using conv_defined(1) by blast
      then show ?thesis using 3(2) True ok by (simp del: printf_conv.simps conv_ok.simps)
    next
      case False
      then show ?thesis using conv_defined(2)[OF False] True by (simp del: printf_conv.simps conv_ok.simps)
    qed
  next
    case False
    then show ?thesis using 3(1) by (simp only: console_printf.simps printf_ok.simps if_True not_False_eq_True)
  qed
qed auto

section \<open>The screen as a window on the text\<close>

text \<open>
  Text as lines: a line ends at a newline or when it has 80 characters. The last line of the list is the
  one being written.
\<close>

definition put_line :: "u8 list list \<Rightarrow> u8 \<Rightarrow> u8 list list" where
  "put_line ls ch =
     (if ch = 0x0A then ls @ [[]]
      else butlast ls @ [last ls @ [ch]] @ (if length (last ls) + 1 = VGA_WIDTH then [[]] else []))"

definition text_lines :: "u8 list \<Rightarrow> u8 list list" where
  "text_lines tx = foldl put_line [[]] tx"

definition plain :: "u8 \<Rightarrow> bool" where
  "plain ch \<longleftrightarrow> ch \<notin> {0, 0x08, 0x09, 0x0D}"

text \<open>The cell a line of the text has in column \<open>k\<close>.\<close>

definition line_cell :: "u8 \<Rightarrow> u8 list list \<Rightarrow> nat \<Rightarrow> nat \<Rightarrow> u16" where
  "line_cell color ls i k =
     vga_entry (if i < length ls \<and> k < length (ls ! i) then ls ! i ! k else 0x20) color"

definition shows_last :: "console \<Rightarrow> u8 list list \<Rightarrow> bool" where
  "shows_last c ls \<longleftrightarrow>
     crow c = min (length ls - 1) (VGA_HEIGHT - 1) \<and> ccol c = length (last ls) \<and>
     (\<forall>r < VGA_HEIGHT. \<forall>k < VGA_WIDTH.
        vga c (r * VGA_WIDTH + k) = line_cell (ccolor c) ls (length ls - VGA_HEIGHT + r) k)"

definition lines_ok :: "u8 list list \<Rightarrow> bool" where
  "lines_ok ls \<longleftrightarrow> ls \<noteq> [] \<and> length (last ls) < VGA_WIDTH"

lemma lines_ok_put: "lines_ok ls \<Longrightarrow> lines_ok (put_line ls ch)"
  by (auto simp: lines_ok_def put_line_def)

lemma cell_eq: "k < 80 \<Longrightarrow> j < 80 \<Longrightarrow> (r * 80 + k = s * 80 + j) = (r = s \<and> k = (j :: nat))"
  by (auto dest: arg_cong[of _ _ "\<lambda>x. x div 80"] arg_cong[of _ _ "\<lambda>x. x mod 80"])

text \<open>Writing in the current line, and starting a new one.\<close>

lemma shows_put_cell:
  assumes "shows_last c ls" and "lines_ok ls"
  shows "shows_last ((put_cell ch c)\<lparr>ccol := ccol c + 1\<rparr>) (butlast ls @ [last ls @ [ch]])"
proof -
  let ?n = "length ls" and ?ls' = "butlast ls @ [last ls @ [ch]]"
  have n: "?n > 0" and w: "length (last ls) < 80" using assms(2) by (auto simp: lines_ok_def)
  have len: "length ?ls' = ?n" using n by simp
  have old: "?ls' ! i = ls ! i" if "i < ?n" "i \<noteq> ?n - 1" for i
    using that by (cases "i < ?n - 1") (auto simp: nth_append nth_butlast)
  have cur: "?ls' ! (?n - 1) = last ls @ [ch]" by (simp add: nth_append)
  have last: "ls ! (?n - 1) = last ls" using n by (simp add: last_conv_nth)
  have cell: "vga (put_cell ch c) (r * 80 + k) = line_cell (ccolor c) ?ls' (?n - 25 + r) k"
    if "r < 25" "k < 80" for r k
  proof -
    have v: "vga c (r * 80 + k) = line_cell (ccolor c) ls (?n - 25 + r) k"
      and pos: "crow c = min (?n - 1) 24" "ccol c = length (last ls)"
      using assms(1) that by (auto simp: shows_last_def)
    have here: "r * 80 + k = crow c * 80 + ccol c \<longleftrightarrow> r = crow c \<and> k = ccol c"
      using that w pos(2) by (simp add: cell_eq)
    have row: "?n - 25 + r = ?n - 1 \<longleftrightarrow> r = crow c" using pos(1) that(1) n by (auto simp: min_def)
    show ?thesis
    proof (cases "r = crow c")
      case True
      then have "?n - 25 + r = ?n - 1" using row by simp
      then show ?thesis using v here True cur last n len pos(2)
        by (auto simp: put_cell_def line_cell_def nth_append)
    next
      case False
      then show ?thesis using v here row old[of "?n - 25 + r"] len
        by (auto simp: put_cell_def line_cell_def)
    qed
  qed
  then show ?thesis using assms(1) len unfolding shows_last_def by auto
qed

lemma row_col_swap: "c\<lparr>ccol := k, crow := r\<rparr> = c\<lparr>crow := r, ccol := k\<rparr>"
  by (cases c) simp

lemma shows_new_line:
  assumes "shows_last (c\<lparr>ccol := k\<rparr>) ls" and "ls \<noteq> []"
  shows "shows_last (settle (c\<lparr>crow := crow c + 1, ccol := 0\<rparr>)) (ls @ [[]])"
proof -
  let ?n = "length ls" and ?d = "c\<lparr>crow := crow c + 1, ccol := 0\<rparr>"
  have n: "?n > 0" using assms(2) by simp
  have row: "crow c = min (?n - 1) 24"
    and v: "\<And>r j. r < 25 \<Longrightarrow> j < 80 \<Longrightarrow> vga c (r * 80 + j) = line_cell (ccolor c) ls (?n - 25 + r) j"
    using assms(1) by (auto simp: shows_last_def)
  have blank: "line_cell color (ls @ [[]]) i j = line_cell color ls i j" for color i j
    by (auto simp: line_cell_def nth_append)
  show ?thesis
  proof (cases "crow c < 24")
    case True
    then have s: "settle ?d = ?d" and n': "?n < 25" using row by (auto simp: settle_def Let_def min_def split: if_splits)
    then show ?thesis unfolding s shows_last_def using v row n n' by (auto simp: blank)
  next
    case False
    then have s: "settle ?d = console_scroll ?d" and n': "?n \<ge> 25" using row by (auto simp: settle_def Let_def min_def split: if_splits)
    have cell: "vga (console_scroll ?d) (r * 80 + j) = line_cell (ccolor c) ls (?n - 24 + r) j"
      if "r < 25" "j < 80" for r j
    proof (cases "r < 24")
      case True
      then have "r * 80 + j < 1920" "r * 80 + j + 80 = (r + 1) * 80 + j" "?n - 24 + r = ?n - 25 + (r + 1)"
        using that n' by auto
      then show ?thesis using v[of "r + 1" j] True that by (simp add: vga_scroll ac_simps)
    next
      case False
      then show ?thesis using that n' by (auto simp: vga_scroll line_cell_def)
    qed
    show ?thesis unfolding s shows_last_def using cell n' by (auto simp: blank)
  qed
qed

lemma shows_put:
  assumes "shows_last c ls" and "lines_ok ls" and "plain ch"
  shows "shows_last (console_putchar ch c) (put_line ls ch) \<and> ccolor (console_putchar ch c) = ccolor c"
proof (cases "ch = 0x0A")
  case True
  have "shows_last (c\<lparr>ccol := ccol c\<rparr>) ls" using assms(1) by simp
  from shows_new_line[OF this] show ?thesis using True assms(2)
    by (simp add: console_putchar_def emit_char_def put_line_def lines_ok_def settle_def Let_def)
next
  case False
  let ?d = "(put_cell ch c)\<lparr>ccol := ccol c + 1\<rparr>"
  have col: "ccol c = length (last ls)" and row: "crow c < 25" using assms(1) by (auto simp: shows_last_def)
  note s = shows_put_cell[OF assms(1,2), of ch]
  have e: "console_putchar ch c = settle ?d"
    using False assms(3) by (simp add: console_putchar_def emit_char_def plain_def Let_def)
  show ?thesis
  proof (cases "length (last ls) + 1 = 80")
    case True
    have "settle ?d = settle (?d\<lparr>crow := crow ?d + 1, ccol := 0\<rparr>)"
      using True col by (simp add: settle_def Let_def row_col_swap)
    then show ?thesis using shows_new_line[of "ccol c + 1" ?d "butlast ls @ [last ls @ [ch]]"] s e True False
      by (simp add: put_line_def settle_def Let_def)
  next
    case w: False
    then have "settle ?d = ?d" using col row assms(2) by (simp add: settle_def Let_def lines_ok_def)
    then show ?thesis using s e w False by (simp add: put_line_def)
  qed
qed

lemma shows_puts:
  "shows_last c ls \<Longrightarrow> lines_ok ls \<Longrightarrow> list_all plain tx \<Longrightarrow>
   shows_last (console_puts tx c) (foldl put_line ls tx) \<and> ccolor (console_puts tx c) = ccolor c"
proof (induction tx arbitrary: c ls)
  case (Cons ch tx)
  then have "ch \<noteq> 0" "plain ch" by (auto simp: plain_def)
  then show ?case using Cons.IH[of "console_putchar ch c" "put_line ls ch"] shows_put[OF Cons.prems(1,2), of ch]
      lines_ok_put[OF Cons.prems(2), of ch] Cons.prems(3) by simp
qed simp

lemma shows_clear: "shows_last (console_clear c) [[]]"
  by (auto simp: shows_last_def vga_clear line_cell_def)

section \<open>Decimal numbers\<close>

fun digit_val :: "u8 \<Rightarrow> nat" where
  "digit_val d = unat d - 48"

definition read_dec :: "u8 list \<Rightarrow> nat" where
  "read_dec ds = foldl (\<lambda>n d. 10 * n + digit_val d) 0 ds"

definition is_digit :: "u8 \<Rightarrow> bool" where
  "is_digit d \<longleftrightarrow> 48 \<le> d \<and> d \<le> 57"

definition decimal :: "u64 \<Rightarrow> u8 list" where
  "decimal v = dec_loop v []"

lemma dec_loop_acc: "dec_loop v acc = decimal v @ acc"
proof (induction "unat v" arbitrary: v acc rule: less_induct)
  case less
  show ?case
  proof (cases "v div 10 > 0")
    case True
    note IH = less[OF unat_div_10_less[OF True]]
    show ?thesis unfolding decimal_def using True by (subst (1 2) dec_loop.simps) (simp add: Let_def IH)
  next
    case False
    then show ?thesis unfolding decimal_def by (subst (1 2) dec_loop.simps) (simp add: Let_def)
  qed
qed

lemma decimal_rec: "decimal v = (if v div 10 > 0 then decimal (v div 10) else []) @ [0x30 + ucast (v mod 10)]"
  unfolding decimal_def[of v] by (subst dec_loop.simps) (simp add: Let_def dec_loop_acc)

lemma dec_digit: "unat (0x30 + ucast (v mod 10) :: u8) = 48 + unat (v :: u64) mod 10"
proof -
  have "unat (v mod 10) = unat v mod 10" by (simp add: unat_mod)
  moreover have "unat v mod 10 < 10" by simp
  ultimately show ?thesis by (simp add: unat_word_ariths unsigned_ucast_eq take_bit_nat_eq_self)
qed

lemma decimal_facts:
  "read_dec (decimal v) = unat v" "list_all is_digit (decimal v)" "decimal v \<noteq> []"
  "hd (decimal v) = 0x30 \<Longrightarrow> v = 0" "unat v < 10 ^ k \<Longrightarrow> 0 < k \<Longrightarrow> length (decimal v) \<le> k"
proof (atomize (full), induction "unat v" arbitrary: v k rule: less_induct)
  case less
  let ?d = "0x30 + ucast (v mod 10) :: u8"
  have d: "digit_val ?d = unat v mod 10" "is_digit ?d" "?d = 0x30 \<longleftrightarrow> unat v mod 10 = 0"
    using dec_digit[of v] by (auto simp: is_digit_def word_le_nat_alt word_unat_eq_iff)
  show ?case
  proof (cases "v div 10 > 0")
    case True
    note IH = less[OF unat_div_10_less[OF True]]
    have r: "decimal v = decimal (v div 10) @ [?d]" using decimal_rec[of v] True by simp
    have dv: "unat (v div 10) = unat v div 10" by (simp add: unat_div)
    have k: "unat v < 10 ^ k \<Longrightarrow> 0 < k \<Longrightarrow> length (decimal (v div 10)) + 1 \<le> k"
      using IH[of "k - 1"] dv True by (cases k; cases "k - 1") (auto simp: word_less_nat_alt)
    show ?thesis using IH d k True unfolding r by (auto simp: read_dec_def dv)
  next
    case False
    then have r: "decimal v = [?d]" and s: "unat v < 10"
      using decimal_rec[of v] by (auto simp: word_less_nat_alt unat_div)
    show ?thesis using d s unfolding r by (auto simp: read_dec_def unat_eq_0)
  qed
qed

section \<open>Hexadecimal numbers\<close>

definition hex_val :: "u8 \<Rightarrow> nat" where
  "hex_val d = (if d \<le> 57 then unat d - 48 else unat d - 55)"

definition read_hex :: "u8 list \<Rightarrow> nat" where
  "read_hex ds = foldl (\<lambda>n d. 16 * n + hex_val d) 0 ds"

definition hexadecimal :: "nat \<Rightarrow> u64 \<Rightarrow> u8 list" where
  "hexadecimal n v = map (\<lambda>i. hex_digit (unat (drop_bit (4 * i) v AND 0x0F))) (rev [0..<n])"

lemma hex_digit_facts: "n < 16 \<Longrightarrow> hex_val (hex_digit n) = n \<and> hex_digit n \<noteq> 0"
proof -
  have "\<forall>n \<in> set [0..<16]. hex_val (hex_digit n) = n \<and> hex_digit n \<noteq> 0"
    by (simp add: upt_rec hex_digit_def ascii_def hex_val_def)
  then show "n < 16 \<Longrightarrow> ?thesis" by simp
qed

lemma nibble: "unat (drop_bit (4 * i) v AND 0x0F) = unat (v :: u64) div 16 ^ i mod 16"
proof -
  have m: "(0x0F :: u64) = mask 4" by (simp add: mask_eq_exp_minus_1)
  have "unat (drop_bit (4 * i) v AND mask 4) = unat v div 2 ^ (4 * i) mod 2 ^ 4"
    unfolding take_bit_eq_mask[symmetric] unsigned_take_bit_eq unsigned_drop_bit_eq
    using unat_u64[of v] by (simp add: drop_bit_eq_div take_bit_eq_mod)
  then show ?thesis unfolding m by (simp add: power_mult)
qed

lemma hexadecimal_Suc: "hexadecimal (Suc n) v = hex_digit (unat v div 16 ^ n mod 16) # hexadecimal n v"
  by (simp add: hexadecimal_def nibble)

lemma read_hex_upto:
  "foldl (\<lambda>n d. 16 * n + hex_val d) a (hexadecimal n v) = a * 16 ^ n + unat v mod 16 ^ n"
proof (induction n arbitrary: a)
  case (Suc n)
  have "unat v mod 16 ^ Suc n = unat v div 16 ^ n mod 16 * 16 ^ n + unat v mod 16 ^ n"
    unfolding power_Suc2 mod_mult2_eq by (simp add: mult.commute)
  then show ?case using Suc[of "16 * a + unat v div 16 ^ n mod 16"] hex_digit_facts[of "unat v div 16 ^ n mod 16"]
    by (simp add: hexadecimal_Suc algebra_simps)
qed (simp add: hexadecimal_def)

lemma puts_fold: "0 \<notin> set str \<Longrightarrow> console_puts str c = fold console_putchar str c"
  by (induction str arbitrary: c) auto

lemma puts_append: "0 \<notin> set a \<Longrightarrow> console_puts (a @ b) c = console_puts b (console_puts a c)"
  by (induction a arbitrary: c) auto

lemma print_hex_puts: "print_hex n v c = console_puts (ascii ''0x'' @ hexadecimal n v) c"
proof -
  have "0 \<notin> set (hexadecimal n v)" using hex_digit_facts by (auto simp: hexadecimal_def nibble)
  moreover have "0 \<notin> set (ascii ''0x'')" by (simp add: ascii_def)
  ultimately show ?thesis
    by (simp add: print_hex_def puts_append puts_fold hexadecimal_def fold_map o_def)
qed

lemma print_dec_puts: "print_dec v 0 c = console_puts (decimal v) c"
  by (simp add: print_dec_def decimal_def)

section \<open>Runs of the console\<close>

datatype con_op = Init | Clear | Scroll | Set_color vga_color vga_color | Set_cursor nat nat
  | Putchar u8 | Puts "u8 list" | Writeline "u8 list" | Printf string "arg list"

fun con_apply :: "con_op \<Rightarrow> console \<Rightarrow> console option" where
  "con_apply Init c = Some (console_init c)"
| "con_apply Clear c = Some (console_clear c)"
| "con_apply Scroll c = Some (console_scroll c)"
| "con_apply (Set_color fg bg) c = Some (console_set_color fg bg c)"
| "con_apply (Set_cursor r k) c = Some (console_set_cursor r k c)"
| "con_apply (Putchar ch) c = Some (console_putchar ch c)"
| "con_apply (Puts str) c = Some (console_puts str c)"
| "con_apply (Writeline str) c = Some (console_writeline str c)"
| "con_apply (Printf fmt args) c = console_printf fmt args c"

primrec con_run :: "con_op list \<Rightarrow> console \<Rightarrow> console option" where
  "con_run [] c = Some c"
| "con_run (op # ops) c = Option.bind (con_apply op c) (con_run ops)"

fun op_defined :: "con_op \<Rightarrow> bool" where
  "op_defined (Printf fmt args) = printf_ok fmt args"
| "op_defined _ = True"

lemma con_apply_screen: "op_defined op \<Longrightarrow> \<exists>c'. con_apply op c = Some c' \<and> screen_op c c'"
proof (cases op)
  case (Printf fmt args)
  then show "op_defined op \<Longrightarrow> ?thesis" using printf_defined[of fmt args c] screen_op_printf by fastforce
next
  case Init
  then show ?thesis using screen_ops(1,2)[of "c\<lparr>crow := 0, ccol := 0, ccolor := 0x0F\<rparr>"]
    by (simp add: console_init_def screen_op_def same_beyond_def)
next
  case Clear
  then show ?thesis using screen_ops(1,2) by (simp add: screen_op_def)
qed (auto intro: screen_ops)

lemma con_run_screen: "list_all op_defined ops \<Longrightarrow> \<exists>c'. con_run ops c = Some c' \<and> screen_op c c'"
proof (induction ops arbitrary: c)
  case (Cons op ops)
  then obtain d where "con_apply op c = Some d" "screen_op c d" using con_apply_screen by fastforce
  then show ?case using Cons screen_op_trans[of c d] by fastforce
qed auto

text \<open>The decimal conversions print the canonical digits.\<close>

definition dec_of :: "u8 list \<Rightarrow> nat \<Rightarrow> bool" where
  "dec_of ds n \<longleftrightarrow> list_all is_digit ds \<and> (hd ds = 0x30 \<longrightarrow> ds = [0x30]) \<and> read_dec ds = n"

lemma decimal_dec_of: "dec_of (decimal v) (unat v)"
proof -
  have "decimal 0 = [0x30]" by (subst decimal_rec) simp
  then show ?thesis using decimal_facts[of v] by (auto simp: dec_of_def)
qed

lemma sint_neg_u32: "- 0x80000000 < sint n \<Longrightarrow> sint (- n) = - sint (n :: u32)"
  using sint_range_size[of n] by (simp add: sint_word_ariths signed_take_bit_int_eq_self word_size)

lemma unat_scast_u32:
  assumes "0 \<le> sint n"
  shows "unat (scast (n :: u32) :: u64) = nat (sint n)"
proof -
  have "sint n < 2 ^ 31" using sint_range_size[of n] by (simp add: word_size)
  then have "take_bit 64 (sint n) = sint n" using assms by (intro take_bit_int_eq_self) auto
  then show ?thesis unfolding scast_eq unat_eq_nat_uint uint_word_of_int_eq by simp
qed

lemma print_int_puts:
  assumes "- 0x80000000 < sint n"
  shows "\<exists>ds. print_int n c = Some (console_puts ((if sint n < 0 then [0x2D] else []) @ ds) c) \<and> dec_of ds (nat \<bar>sint n\<bar>)"
proof (cases "sint n < 0")
  case True
  then show ?thesis
    using assms decimal_dec_of[of "scast (- n)"] unat_scast_u32[of "- n"] sint_neg_u32[OF assms]
    by (intro exI[of _ "decimal (scast (- n))"]) (simp add: print_int_def word_sless_alt print_dec_puts)
next
  case False
  then show ?thesis using decimal_dec_of[of "scast n"] unat_scast_u32[of n]
    by (intro exI[of _ "decimal (scast n)"]) (simp add: print_int_def word_sless_alt print_dec_puts)
qed

section \<open>Properties\<close>

text \<open>
  C29: after \<open>console_init\<close>, every sequence of console calls whose formats match their arguments returns, leaves
  the cursor inside the 80 by 25 screen and has stored to no cell outside the video memory.
\<close>

theorem console_stays_on_screen:
  assumes "list_all op_defined ops"
  shows "\<exists>c'. con_run ops (console_init c) = Some c' \<and> console_get_row c' < VGA_HEIGHT \<and> console_get_col c' < VGA_WIDTH \<and>
    (\<forall>i \<ge> VGA_WIDTH * VGA_HEIGHT. vga c' i = vga c i)"
proof -
  have i: "on_screen (console_init c)" "same_beyond c (console_init c)"
    using screen_ops(1,2)[of "c\<lparr>crow := 0, ccol := 0, ccolor := 0x0F\<rparr>"] by (simp_all add: console_init_def same_beyond_def)
  obtain c' where "con_run ops (console_init c) = Some c'" "screen_op (console_init c) c'"
    using con_run_screen[OF assms] by blast
  then show ?thesis using i
    by (auto simp: screen_op_def on_screen_def same_beyond_def console_get_row_def console_get_col_def)
qed

definition dark :: console where
  "dark = \<lparr>vga = \<lambda>_. 0, crow = 0, ccol = 0, ccolor = 0\<rparr>"

text \<open>C29: a run that wraps, scrolls and prints all kinds of arguments.\<close>

theorem console_stays_on_screen_witness:
  "\<exists>c'. con_run [Set_cursor 24 79, Putchar 0x41, Printf ''%s: %d %u %x%%'' [Str None, Num (- 5), Num 7, Num 255],
        Writeline (ascii ''done'')] (console_init dark) = Some c' \<and> console_get_row c' < 25 \<and> console_get_col c' < 80 \<and>
     (\<forall>i \<ge> 80 * 25. vga c' i = vga dark i)"
  by (rule console_stays_on_screen) (simp add: conv_rest_def)



text \<open>
  C31: the numbers \<open>console_printf\<close> prints can be read back: decimal digits without leading zeros for \<open>%u\<close>, at
  most 20 for any 64-bit number, a minus sign in front for negative \<open>%d\<close>, and eight hexadecimal digits for \<open>%x\<close>.
\<close>

theorem printf_numbers_read_back:
  fixes v :: u64
  defines "n \<equiv> ucast v :: u32"
  assumes "- 0x80000000 < sint n"
  shows "(\<exists>ds. console_printf ''%u'' [Num v] c = Some (console_puts ds c) \<and> dec_of ds (unat n)) \<and>
    (\<exists>ds. console_printf ''%d'' [Num v] c = Some (console_puts ((if sint n < 0 then [0x2D] else []) @ ds) c) \<and>
       dec_of ds (nat \<bar>sint n\<bar>)) \<and>
    (\<exists>ds. console_printf ''%x'' [Num v] c = Some (console_puts (ascii ''0x'' @ ds) c) \<and> length ds = 8 \<and>
       read_hex ds = unat n) \<and>
    length (decimal v) \<le> 20"
proof (intro conjI)
  have n: "unat (ucast n :: u64) = unat n" using unsigned_less[of n, where 'a = nat]
    by (simp add: unsigned_ucast_eq take_bit_nat_eq_self)
  show "\<exists>ds. console_printf ''%u'' [Num v] c = Some (console_puts ds c) \<and> dec_of ds (unat n)"
    using decimal_dec_of[of "ucast n"] n by (auto simp: n_def print_dec_puts)
  show "\<exists>ds. console_printf ''%d'' [Num v] c = Some (console_puts ((if sint n < 0 then [0x2D] else []) @ ds) c) \<and>
      dec_of ds (nat \<bar>sint n\<bar>)"
    using print_int_puts[OF assms(2), of c] by (auto simp: n_def)
  show "\<exists>ds. console_printf ''%x'' [Num v] c = Some (console_puts (ascii ''0x'' @ ds) c) \<and> length ds = 8 \<and>
      read_hex ds = unat n"
    using read_hex_upto[of 0 8 "ucast n"] n unsigned_less[of n, where 'a = nat]
    by (intro exI[of _ "hexadecimal 8 (ucast n)"]) (simp add: n_def print_hex_puts read_hex_def hexadecimal_def)
  show "length (decimal v) \<le> 20" using decimal_facts(5)[of v 20] unat_u64[of v] by simp
qed

text \<open>C31: minus seventeen.\<close>

theorem printf_numbers_read_back_witness:
  "\<exists>ds. console_printf ''%d'' [Num (- 17)] dark = Some (console_puts (0x2D # ds) dark) \<and> dec_of ds 17"
proof -
  have "sint (ucast (- 17 :: u64) :: u32) = - 17" by simp
  then show ?thesis using printf_numbers_read_back[of "- 17" dark] by simp
qed

end
