(* ===== verification/Interrupts.thy ===== *)
theory Interrupts
  imports Console
begin

text \<open>
  Interrupt dispatch, \<^verbatim>\<open>kernel/interrupt.c\<close> and \<^verbatim>\<open>kernel/interrupt.h\<close>, and the programming of the interrupt
  controllers, \<^verbatim>\<open>irq_init\<close> in \<^verbatim>\<open>kernel/irq.c\<close>. The addresses of the assembly stubs and of the table are
  arguments, as the linker chooses them; the processor's reading of a gate descriptor and an 8259A controller
  are small models of their own, against which the stores of the code are judged.
\<close>

section \<open>State\<close>

record idt_entry =
  offset_low :: u16
  selector :: u16
  ist :: u8
  gate_flags :: u8
  offset_mid :: u16
  offset_high :: u32
  reserved :: u32

text \<open>The functions the kernel registers as handlers.\<close>

datatype handler = Timer_handler | Keyboard_handler | Syscall_handler

record frame =
  f_r15 :: u64  f_r14 :: u64  f_r13 :: u64  f_r12 :: u64  f_r11 :: u64  f_r10 :: u64  f_r9 :: u64  f_r8 :: u64
  f_rbp :: u64  f_rdi :: u64  f_rsi :: u64  f_rdx :: u64  f_rcx :: u64  f_rbx :: u64  f_rax :: u64
  int_no :: u64
  err_code :: u64
  f_rip :: u64  f_cs :: u64  f_rflags :: u64  f_rsp :: u64  f_ss :: u64

record intr =
  idt :: "idt_entry list"
  isr_handlers :: "handler option list"
  idtr_limit :: u16
  idtr_base :: u64
  out_log :: "(u16 \<times> u8) list"
  con :: console

abbreviation (input) IDT_ENTRIES :: nat where "IDT_ENTRIES \<equiv> 256"
abbreviation (input) IDT_FLAG_PRESENT :: u8 where "IDT_FLAG_PRESENT \<equiv> 0x80"
abbreviation (input) IDT_FLAG_DPL_0 :: u8 where "IDT_FLAG_DPL_0 \<equiv> 0x00"
abbreviation (input) IDT_FLAG_DPL_3 :: u8 where "IDT_FLAG_DPL_3 \<equiv> 0x60"
abbreviation (input) IDT_FLAG_INTERRUPT :: u8 where "IDT_FLAG_INTERRUPT \<equiv> 0x0E"
abbreviation (input) INT_PAGE_FAULT :: u8 where "INT_PAGE_FAULT \<equiv> 14"

definition port_out :: "u16 \<Rightarrow> u8 \<Rightarrow> 'a intr_scheme \<Rightarrow> 'a intr_scheme" where
  "port_out port v s = s\<lparr>out_log := out_log s @ [(port, v)]\<rparr>"

definition on_con :: "(console \<Rightarrow> console) \<Rightarrow> 'a intr_scheme \<Rightarrow> 'a intr_scheme" where
  "on_con f s = s\<lparr>con := f (con s)\<rparr>"

section \<open>The descriptor table\<close>

definition idt_set_descriptor :: "u8 \<Rightarrow> u64 \<Rightarrow> u8 \<Rightarrow> 'a intr_scheme \<Rightarrow> 'a intr_scheme" where
  "idt_set_descriptor vector handler_addr fl s =
     s\<lparr>idt := (idt s)[unat vector :=
         \<lparr>offset_low = ucast (handler_addr AND 0xFFFF), selector = 0x08, ist = 0, gate_flags = fl,
          offset_mid = ucast (drop_bit 16 handler_addr AND 0xFFFF),
          offset_high = ucast (drop_bit 32 handler_addr AND 0xFFFFFFFF), reserved = 0\<rparr>]\<rparr>"

definition idt_loaded_msg :: "u8 list" where
  "idt_loaded_msg = ascii ''[int] IDT loaded '' @ [0xE2, 0x80, 0x94] @ ascii '' 256 entries configured''"

definition interrupt_init :: "(nat \<Rightarrow> u64) \<Rightarrow> u64 \<Rightarrow> 'a intr_scheme \<Rightarrow> 'a intr_scheme" where
  "interrupt_init isr_stub_table idt_addr s =
     (let s = fold (\<lambda>i. idt_set_descriptor (of_nat i) (isr_stub_table i) (IDT_FLAG_PRESENT OR IDT_FLAG_INTERRUPT))
                [0..<IDT_ENTRIES] s;
          s = s\<lparr>idtr_limit := of_nat (16 * IDT_ENTRIES - 1), idtr_base := idt_addr\<rparr>
      in on_con (console_writeline idt_loaded_msg) s)"

definition interrupt_register_handler :: "u8 \<Rightarrow> handler \<Rightarrow> 'a intr_scheme \<Rightarrow> 'a intr_scheme" where
  "interrupt_register_handler vector h s = s\<lparr>isr_handlers := (isr_handlers s)[unat vector := Some h]\<rparr>"

definition interrupt_set_dpl :: "u8 \<Rightarrow> u8 \<Rightarrow> 'a intr_scheme \<Rightarrow> 'a intr_scheme" where
  "interrupt_set_dpl vector dpl s =
     s\<lparr>idt := (idt s)[unat vector := (idt s ! unat vector)\<lparr>gate_flags := IDT_FLAG_PRESENT OR dpl OR IDT_FLAG_INTERRUPT\<rparr>]\<rparr>"

section \<open>Exceptions\<close>

definition exception_names :: "string list" where
  "exception_names = [''Division By Zero'', ''Debug'', ''Non-Maskable Interrupt'', ''Breakpoint'', ''Overflow'',
     ''Bound Range Exceeded'', ''Invalid Opcode'', ''Device Not Available'', ''Double Fault'',
     ''Coprocessor Segment Overrun'', ''Invalid TSS'', ''Segment Not Present'', ''Stack-Segment Fault'',
     ''General Protection Fault'', ''Page Fault'', ''Reserved'', ''x87 FPU Floating-Point Error'',
     ''Alignment Check'', ''Machine Check'', ''SIMD Floating-Point Exception'', ''Virtualization Exception'']"

definition interrupt_get_exception_name :: "u8 \<Rightarrow> string" where
  "interrupt_get_exception_name vector =
     (if unat vector < length exception_names then exception_names ! unat vector else ''Unknown Exception'')"

text \<open>A string literal that ends in a newline, and a string argument.\<close>

abbreviation ln :: "string \<Rightarrow> string" where "ln s \<equiv> s @ [CHR 0x0A]"
abbreviation sarg :: "string \<Rightarrow> arg" where "sarg s \<equiv> Str (Some (ascii s))"

fun print_all :: "(string \<times> arg list) list \<Rightarrow> console \<Rightarrow> console option" where
  "print_all [] c = Some c"
| "print_all ((fmt, args) # ls) c = Option.bind (console_printf fmt args c) (print_all ls)"

definition page_fault_lines :: "u64 \<Rightarrow> frame \<Rightarrow> (string \<times> arg list) list" where
  "page_fault_lines cr2 f =
     [(ln ''    CR2 (fault address): 0x%p'', [Num cr2]),
      (ln ''    Page fault %s: %s'', [sarg (if err_code f AND 0x01 \<noteq> 0 then ''(present)'' else ''(non-present)''),
         sarg (if err_code f AND 0x02 \<noteq> 0 then ''write'' else ''read'')])] @
     (if err_code f AND 0x04 \<noteq> 0 then [(ln ''    Fault in user mode (CPL=3)'', [])] else []) @
     (if err_code f AND 0x08 \<noteq> 0 then [(ln ''    Reserved bit violation'', [])] else []) @
     (if err_code f AND 0x10 \<noteq> 0 then [(ln ''    Instruction fetch'', [])] else [])"

definition panic_lines :: "u64 \<Rightarrow> frame \<Rightarrow> (string \<times> arg list) list" where
  "panic_lines cr2 f =
     (let vector = ucast (int_no f) :: u8
      in [(CHR 0x0A # ln ''!!! KERNEL PANIC: %s (%d) !!!'', [sarg (interrupt_get_exception_name vector), Num (ucast vector)]),
          (ln ''    Error code: 0x%x'', [Num (err_code f)]),
          (ln ''    RIP: 0x%p    CS: 0x%x'', [Num (f_rip f), Num (f_cs f)]),
          (ln ''    RFLAGS: 0x%x    RSP: 0x%p'', [Num (f_rflags f), Num (f_rsp f)]),
          (ln ''    RAX: 0x%p    RBX: 0x%p    RCX: 0x%p'', [Num (f_rax f), Num (f_rbx f), Num (f_rcx f)]),
          (ln ''    RDX: 0x%p    RSI: 0x%p    RDI: 0x%p'', [Num (f_rdx f), Num (f_rsi f), Num (f_rdi f)]),
          (ln ''    RBP: 0x%p    R8:  0x%p    R9:  0x%p'', [Num (f_rbp f), Num (f_r8 f), Num (f_r9 f)]),
          (ln ''    R10: 0x%p    R11: 0x%p    R12: 0x%p'', [Num (f_r10 f), Num (f_r11 f), Num (f_r12 f)]),
          (ln ''    R13: 0x%p    R14: 0x%p    R15: 0x%p'', [Num (f_r13 f), Num (f_r14 f), Num (f_r15 f)])] @
         (if vector = INT_PAGE_FAULT then page_fault_lines cr2 f else []) @
         [(ln ''!!! System halted !!!'', [])])"

text \<open>What the handler has printed when it halts; \<open>cr2\<close> is the value of the register.\<close>

definition exception_default_handler :: "u64 \<Rightarrow> frame \<Rightarrow> 'a intr_scheme \<Rightarrow> 'a intr_scheme option" where
  "exception_default_handler cr2 f s =
     map_option (\<lambda>c. s\<lparr>con := c\<rparr>) (print_all (panic_lines cr2 f) (console_set_color VGA_LIGHT_RED VGA_BLACK (con s)))"

text \<open>
  An interrupt returns to the interrupted code with a possibly changed frame, the machine halts, or the processor
  leaves the handler for another process. \<open>call\<close> runs
  a registered handler.
\<close>

datatype 's isr_result = Iret frame 's | Halted 's | Switched 's

definition isr_handler ::
  "(handler \<Rightarrow> frame \<Rightarrow> 'a intr_scheme \<Rightarrow> 'a intr_scheme isr_result option) \<Rightarrow> u64 \<Rightarrow> frame \<Rightarrow> 'a intr_scheme \<Rightarrow>
     'a intr_scheme isr_result option" where
  "isr_handler call cr2 f s =
     (let vector = ucast (int_no f) :: u8
      in case isr_handlers s ! unat vector of
           Some h \<Rightarrow> call h f s
         | None \<Rightarrow>
             if vector < 32 then map_option Halted (exception_default_handler cr2 f s)
             else if vector \<ge> 0x20 \<and> vector \<le> 0x2F
             then Some (Iret f (port_out 0x20 0x20 (if vector \<ge> 0x28 then port_out 0xA0 0x20 s else s)))
             else Some (Iret f s))"

section \<open>The interrupt controllers\<close>

abbreviation (input) PIC_MASTER_CMD :: u16 where "PIC_MASTER_CMD \<equiv> 0x20"
abbreviation (input) PIC_MASTER_DATA :: u16 where "PIC_MASTER_DATA \<equiv> 0x21"
abbreviation (input) PIC_SLAVE_CMD :: u16 where "PIC_SLAVE_CMD \<equiv> 0xA0"
abbreviation (input) PIC_SLAVE_DATA :: u16 where "PIC_SLAVE_DATA \<equiv> 0xA1"
abbreviation (input) IRQ0_TIMER :: u8 where "IRQ0_TIMER \<equiv> 0x20"
abbreviation (input) IRQ1_KEYBOARD :: u8 where "IRQ1_KEYBOARD \<equiv> 0x21"

definition pic_remapped_msg :: "u8 list" where
  "pic_remapped_msg = ascii ''[irq] PIC remapped '' @ [0xE2, 0x80, 0x94] @ ascii '' IRQ handlers installed''"

definition irq_init :: "'a intr_scheme \<Rightarrow> 'a intr_scheme" where
  "irq_init s =
     (let s = port_out PIC_SLAVE_CMD 0x11 (port_out PIC_MASTER_CMD 0x11 s);
          s = port_out PIC_SLAVE_DATA 0x28 (port_out PIC_MASTER_DATA 0x20 s);
          s = port_out PIC_SLAVE_DATA 0x02 (port_out PIC_MASTER_DATA 0x04 s);
          s = port_out PIC_SLAVE_DATA 0x01 (port_out PIC_MASTER_DATA 0x01 s);
          s = port_out PIC_SLAVE_DATA 0x00 (port_out PIC_MASTER_DATA 0x00 s);
          s = interrupt_register_handler IRQ0_TIMER Timer_handler s;
          s = interrupt_register_handler IRQ1_KEYBOARD Keyboard_handler s
      in on_con (console_writeline pic_remapped_msg) s)"

section \<open>What the processor makes of the table\<close>

definition gate_offset :: "idt_entry \<Rightarrow> u64" where
  "gate_offset e = ucast (offset_low e) OR push_bit 16 (ucast (offset_mid e)) OR push_bit 32 (ucast (offset_high e))"

definition gate_dpl :: "idt_entry \<Rightarrow> u8" where
  "gate_dpl e = drop_bit 5 (gate_flags e) AND 3"

text \<open>A present 64-bit interrupt gate into the kernel code segment at the given address.\<close>

definition gate_to :: "u64 \<Rightarrow> idt_entry \<Rightarrow> bool" where
  "gate_to addr e \<longleftrightarrow> gate_offset e = addr \<and> selector e = 0x08 \<and> ist e = 0 \<and> reserved e = 0 \<and>
     gate_flags e AND 0x9F = 0x8E"

definition idt_wf :: "(nat \<Rightarrow> u64) \<Rightarrow> u64 \<Rightarrow> 'a intr_scheme \<Rightarrow> bool" where
  "idt_wf stubs addr s \<longleftrightarrow> length (idt s) = IDT_ENTRIES \<and> length (isr_handlers s) = IDT_ENTRIES \<and>
     (\<forall>v < IDT_ENTRIES. gate_to (stubs v) (idt s ! v)) \<and> idtr_limit s = 4095 \<and> idtr_base s = addr"

text \<open>The later calls: handlers are registered, and the privilege level of a gate is set to 0 or 3.\<close>

datatype idt_op = Register u8 handler | Set_dpl u8 bool

fun idt_apply :: "idt_op \<Rightarrow> 'a intr_scheme \<Rightarrow> 'a intr_scheme" where
  "idt_apply (Register v h) s = interrupt_register_handler v h s"
| "idt_apply (Set_dpl v user) s = interrupt_set_dpl v (if user then IDT_FLAG_DPL_3 else IDT_FLAG_DPL_0) s"

fun handler_map :: "idt_op list \<Rightarrow> u8 \<Rightarrow> handler option" where
  "handler_map [] v = None"
| "handler_map (Register w h # ops) v = (if w = v \<and> handler_map ops v = None then Some h else handler_map ops v)"
| "handler_map (Set_dpl _ _ # ops) v = handler_map ops v"

fun user_gates :: "idt_op list \<Rightarrow> u8 \<Rightarrow> bool option" where
  "user_gates [] v = None"
| "user_gates (Set_dpl w user # ops) v = (if w = v \<and> user_gates ops v = None then Some user else user_gates ops v)"
| "user_gates (Register _ _ # ops) v = user_gates ops v"

lemma gate_offset_bits:
  "ucast (ucast (a AND 0xFFFF) :: u16) OR push_bit 16 (ucast (ucast (drop_bit 16 a AND 0xFFFF) :: u16)) OR
     push_bit 32 (ucast (ucast (drop_bit 32 a AND 0xFFFFFFFF) :: u32)) = (a :: u64)"
proof -
  have m: "(0xFFFF :: u64) = mask 16" "(0xFFFFFFFF :: u64) = mask 32" by (simp_all add: mask_eq_exp_minus_1)
  have l: "32 + (n - 32) = (if 32 \<le> n then n else 32)" "n - 16 < 16 \<longleftrightarrow> n < 32" for n :: nat by auto
  show ?thesis unfolding m by (rule bit_word_eqI) (auto simp: bit_simps l split: if_splits)
qed

lemma set_descriptor_fields [simp]:
  "length (idt (idt_set_descriptor v a fl s)) = length (idt s)"
  "isr_handlers (idt_set_descriptor v a fl s) = isr_handlers s"
  by (simp_all add: idt_set_descriptor_def)

lemma init_loop:
  fixes stubs :: "nat \<Rightarrow> u64" and s :: "'a intr_scheme"
  assumes "n \<le> 256" and "length (idt s) = 256"
  defines "t \<equiv> fold (\<lambda>i. idt_set_descriptor (of_nat i) (stubs i) 0x8E) [0..<n] s"
  shows "length (idt t) = 256 \<and> isr_handlers t = isr_handlers s \<and> (\<forall>v < n. gate_to (stubs v) (idt t ! v) \<and> gate_flags (idt t ! v) = 0x8E)"
  using assms(1) unfolding t_def
proof (induction n)
  case 0
  then show ?case using assms(2) by simp
next
  case (Suc n)
  let ?t = "fold (\<lambda>i. idt_set_descriptor (of_nat i) (stubs i) 0x8E) [0..<n] s"
  have n: "unat (of_nat n :: u8) = n" using Suc.prems by (intro unat_less_of_nat) simp
  have IH: "length (idt ?t) = 256" "isr_handlers ?t = isr_handlers s"
    "\<forall>v < n. gate_to (stubs v) (idt ?t ! v) \<and> gate_flags (idt ?t ! v) = 0x8E" using Suc by simp_all
  have "gate_to (stubs v) (idt (idt_set_descriptor (of_nat n) (stubs n) 0x8E ?t) ! v) \<and>
      gate_flags (idt (idt_set_descriptor (of_nat n) (stubs n) 0x8E ?t) ! v) = 0x8E" if "v < Suc n" for v
    using that IH Suc.prems gate_offset_bits[of "stubs n"]
    by (cases "v = n") (auto simp: idt_set_descriptor_def n gate_to_def gate_offset_def)
  then show ?case using IH by simp
qed

lemma flags_of_dpl: "drop_bit 5 ((0x80 :: u8) OR (if user then 0x60 else 0) OR 0x0E) AND 3 = (if user then 3 else 0)"
  "((0x80 :: u8) OR (if user then 0x60 else 0) OR 0x0E) AND 0x9F = 0x8E"
  by (cases user; simp)+

lemma interrupt_init_wf:
  assumes "length (idt s) = 256" and "length (isr_handlers s) = 256"
  shows "idt_wf stubs addr (interrupt_init stubs addr s)"
    "v < 256 \<Longrightarrow> gate_dpl (idt (interrupt_init stubs addr s) ! v) = 0"
    "isr_handlers (interrupt_init stubs addr s) = isr_handlers s"
  using init_loop[of 256 s stubs] assms
  by (simp_all add: interrupt_init_def idt_wf_def Let_def on_con_def gate_dpl_def del: upt_rec_numeral)

lemma idt_run:
  assumes "idt_wf stubs addr s"
  shows "idt_wf stubs addr (fold idt_apply ops s) \<and>
    (\<forall>v. isr_handlers (fold idt_apply ops s) ! unat v =
       (case handler_map ops v of None \<Rightarrow> isr_handlers s ! unat v | Some h \<Rightarrow> Some h)) \<and>
    (\<forall>v. gate_dpl (idt (fold idt_apply ops s) ! unat v) =
       (case user_gates ops v of None \<Rightarrow> gate_dpl (idt s ! unat v) | Some user \<Rightarrow> if user then 3 else 0))"
  using assms
proof (induction ops arbitrary: s)
  case (Cons op ops)
  have b: "unat (v :: u8) < 256" for v using unsigned_less[of v, where 'a = nat] by simp
  have wf: "idt_wf stubs addr (idt_apply op s)"
    using Cons.prems flags_of_dpl(2)
    by (cases op) (auto simp: idt_wf_def interrupt_register_handler_def interrupt_set_dpl_def nth_list_update b gate_to_def gate_offset_def)
  show ?case
  proof (cases op)
    case (Register w h)
    then have "isr_handlers (idt_apply op s) ! unat v = (if w = v then Some h else isr_handlers s ! unat v)"
        "idt (idt_apply op s) = idt s" for v
      using Cons.prems b by (auto simp: idt_wf_def interrupt_register_handler_def nth_list_update word_unat_eq_iff)
    then show ?thesis using Cons.IH[OF wf] Register by (auto split: option.splits)
  next
    case (Set_dpl w user)
    then have "gate_dpl (idt (idt_apply op s) ! unat v) = (if w = v then if user then 3 else 0 else gate_dpl (idt s ! unat v))"
        "isr_handlers (idt_apply op s) = isr_handlers s" for v
      using Cons.prems b flags_of_dpl(1)
      by (auto simp: idt_wf_def interrupt_set_dpl_def nth_list_update word_unat_eq_iff gate_dpl_def)
    then show ?thesis using Cons.IH[OF wf] Set_dpl by (auto split: option.splits)
  qed
qed auto

text \<open>An 8259A: the initialisation words it expects next (0 for none), and what it has been told.\<close>

record pic =
  icw :: nat
  icw4 :: bool
  pic_base :: u8
  cascade :: u8
  pic_mode :: u8
  pic_mask :: u8

definition pic_command :: "u8 \<Rightarrow> pic \<Rightarrow> pic" where
  "pic_command v p = (if bit v 4 then p\<lparr>icw := 2, icw4 := bit v 0, pic_mask := 0\<rparr> else p)"

definition pic_data :: "u8 \<Rightarrow> pic \<Rightarrow> pic" where
  "pic_data v p =
     (if icw p = 2 then p\<lparr>icw := 3, pic_base := v\<rparr>
      else if icw p = 3 then p\<lparr>icw := if icw4 p then 4 else 0, cascade := v\<rparr>
      else if icw p = 4 then p\<lparr>icw := 0, pic_mode := v\<rparr>
      else p\<lparr>pic_mask := v\<rparr>)"

text \<open>The master is at ports 0x20 and 0x21, the slave at 0xA0 and 0xA1.\<close>

fun pic_out :: "u16 \<Rightarrow> (u16 \<times> u8) \<Rightarrow> pic \<Rightarrow> pic" where
  "pic_out base (port, v) p = (if port = base then pic_command v p else if port = base + 1 then pic_data v p else p)"

definition pic_after :: "u16 \<Rightarrow> (u16 \<times> u8) list \<Rightarrow> pic \<Rightarrow> pic" where
  "pic_after base log p = fold (pic_out base) log p"

text \<open>The vector an interrupt line raises.\<close>

definition line_vector :: "pic \<Rightarrow> pic \<Rightarrow> nat \<Rightarrow> u8" where
  "line_vector master slave i = (if i < 8 then pic_base master + of_nat i else pic_base slave + of_nat (i - 8))"

section \<open>Reports\<close>

lemma print_all_defined: "list_all (\<lambda>(fmt, args). printf_ok fmt args) ls \<Longrightarrow> \<exists>c'. print_all ls c = Some c' \<and> screen_op c c'"
proof (induction ls arbitrary: c)
  case (Cons l ls)
  obtain fmt args where l: "l = (fmt, args)" by (cases l)
  then obtain d where d: "console_printf fmt args c = Some d" "screen_op c d"
    using Cons.prems printf_defined[of fmt args c] screen_op_printf by fastforce
  then show ?case using Cons.IH[of d] Cons.prems screen_op_trans[OF d(2)] by (auto simp: l)
qed auto

lemma page_fault_lines_ok: "list_all (\<lambda>(fmt, args). printf_ok fmt args) (page_fault_lines cr2 f)"
  by (simp add: page_fault_lines_def conv_rest_def)

lemma sint_vector: "sint (ucast (ucast (v :: u8) :: u64) :: u32) > - 0x80000000"
proof -
  have "(ucast (ucast v :: u64) :: u32) = ucast v"
    by (rule bit_word_eqI) (auto simp: bit_simps dest: bit_imp_le_length)
  moreover have "uint (ucast v :: u32) = uint v"
    by (rule bit_eqI) (auto simp: bit_simps dest: bit_imp_le_length)
  moreover have "signed_take_bit 31 (uint v) = uint v"
    by (rule bit_eqI) (auto simp: bit_simps min_def dest: bit_imp_le_length)
  ultimately have "sint (ucast (ucast v :: u64) :: u32) = uint v" by (simp add: sint_uint)
  then show ?thesis using uint_ge_0[of v] by linarith
qed

lemma panic_lines_ok: "list_all (\<lambda>(fmt, args). printf_ok fmt args) (panic_lines cr2 f)"
  using page_fault_lines_ok[of cr2 f] sint_vector by (simp add: panic_lines_def Let_def conv_rest_def)

section \<open>Properties\<close>


definition blank_intr :: intr where
  "blank_intr = \<lparr>idt = replicate 256 \<lparr>offset_low = 0, selector = 0, ist = 0, gate_flags = 0, offset_mid = 0, offset_high = 0, reserved = 0\<rparr>,
     isr_handlers = replicate 256 None, idtr_limit = 0, idtr_base = 0, out_log = [], con = dark\<rparr>"


lemma ucast_back [simp]: "(ucast (ucast v :: u64) :: u8) = v"
  by (rule bit_word_eqI) (auto simp: bit_simps)

lemma irq_init_log:
  "out_log (irq_init s) = out_log s @ [(0x20, 0x11), (0xA0, 0x11), (0x21, 0x20), (0xA1, 0x28), (0x21, 0x04), (0xA1, 0x02),
     (0x21, 0x01), (0xA1, 0x01), (0x21, 0x00), (0xA1, 0x00)]"
  by (simp add: irq_init_def Let_def port_out_def on_con_def interrupt_register_handler_def)

lemma irq_init_handlers:
  "isr_handlers (irq_init s) = (isr_handlers s)[0x20 := Some Timer_handler, 0x21 := Some Keyboard_handler]"
  by (simp add: irq_init_def Let_def port_out_def on_con_def interrupt_register_handler_def)



text \<open>An exception without a handler prints its report and halts the machine, whatever the registers hold.\<close>

lemma unhandled_exception_halts:
  assumes "ucast (int_no f) = (v :: u8)" and "v < 32" and "isr_handlers s ! unat v = None"
  shows "\<exists>c. isr_handler call cr2 f s = Some (Halted (s\<lparr>con := c\<rparr>)) \<and> screen_op (con s) c"
proof -
  have "screen_op (con s) (console_set_color VGA_LIGHT_RED VGA_BLACK (con s))" by (rule screen_ops)
  then obtain c where "print_all (panic_lines cr2 f) (console_set_color VGA_LIGHT_RED VGA_BLACK (con s)) = Some c" "screen_op (con s) c"
    using print_all_defined[OF panic_lines_ok] screen_op_trans by blast
  then show ?thesis using assms by (auto simp: isr_handler_def exception_default_handler_def Let_def)
qed

end
