(* ===== verification/Syscall.thy ===== *)
theory Syscall
  imports Aresfs_Correct Proc Interrupts
begin

text \<open>
  System calls, \<^verbatim>\<open>syscall/syscall.c\<close> and \<^verbatim>\<open>syscall/syscall.h\<close>: the descriptor table, the twelve handlers and the
  dispatcher behind vector 0x80, over the file system, the process manager and the console. Callers pass
  addresses; the memory they point into is a function from addresses to bytes, apart from the data of the
  kernel. A handler that never returns (a string that is not terminated, a machine that halts) has the
  result \<^term>\<open>None\<close>. What happens while the processor waits in \<^verbatim>\<open>hlt\<close> is an argument.

  The theory shows that the descriptor table stays in step with the file system under every sequence of calls
  with every kind of argument, that data written through system calls is read back, and how long a process
  sleeps.
\<close>

section \<open>State\<close>

record syscall_fd =
  fd_num :: int
  fd_flags :: u8
  aresfs_fd :: int
  fd_pos :: u32

record 'd kern = intr +
  k_fs :: "'d fs"
  k_proc :: proc
  fd_table :: "syscall_fd list"
  timer_ticks :: u64
  mem :: "u64 \<Rightarrow> u8"

abbreviation (input) SYS_getpid :: u64 where "SYS_getpid \<equiv> 0"
abbreviation (input) SYS_exit :: u64 where "SYS_exit \<equiv> 1"
abbreviation (input) SYS_write :: u64 where "SYS_write \<equiv> 2"
abbreviation (input) SYS_open :: u64 where "SYS_open \<equiv> 3"
abbreviation (input) SYS_close :: u64 where "SYS_close \<equiv> 4"
abbreviation (input) SYS_read :: u64 where "SYS_read \<equiv> 5"
abbreviation (input) SYS_sleep :: u64 where "SYS_sleep \<equiv> 6"
abbreviation (input) SYS_ps :: u64 where "SYS_ps \<equiv> 7"
abbreviation (input) SYS_gettime :: u64 where "SYS_gettime \<equiv> 8"
abbreviation (input) SYS_mkdir :: u64 where "SYS_mkdir \<equiv> 9"
abbreviation (input) SYS_listdir :: u64 where "SYS_listdir \<equiv> 10"
abbreviation (input) SYS_stat :: u64 where "SYS_stat \<equiv> 11"
abbreviation (input) SYSCALL_FD_STDOUT :: u64 where "SYSCALL_FD_STDOUT \<equiv> 1"
abbreviation (input) SYSCALL_FD_STDERR :: u64 where "SYSCALL_FD_STDERR \<equiv> 2"
abbreviation (input) SYSCALL_MAX_FDS :: nat where "SYSCALL_MAX_FDS \<equiv> 16"
abbreviation (input) FD_FLAG_USED :: u8 where "FD_FLAG_USED \<equiv> 0x01"

section \<open>Descriptors\<close>

definition fd_slot :: "nat \<Rightarrow> u8 \<Rightarrow> syscall_fd" where
  "fd_slot i fl = \<lparr>fd_num = int i, fd_flags = fl, aresfs_fd = - 1, fd_pos = 0\<rparr>"

definition sys_fd_alloc :: "('d, 'b) kern_scheme \<Rightarrow> (nat \<times> ('d, 'b) kern_scheme) option" where
  "sys_fd_alloc s =
     (case find (\<lambda>i. fd_flags (fd_table s ! i) AND FD_FLAG_USED = 0) [0..<SYSCALL_MAX_FDS] of
        None \<Rightarrow> None
      | Some i \<Rightarrow> Some (i, s\<lparr>fd_table := (fd_table s)[i := fd_slot i FD_FLAG_USED]\<rparr>))"

definition sys_fd_release :: "nat \<Rightarrow> ('d, 'b) kern_scheme \<Rightarrow> ('d, 'b) kern_scheme" where
  "sys_fd_release i s =
     s\<lparr>fd_table := (fd_table s)[i := (fd_table s ! i)\<lparr>fd_flags := 0, aresfs_fd := - 1, fd_pos := 0\<rparr>]\<rparr>"

definition syscall_fd_from_fd :: "int \<Rightarrow> ('d, 'b) kern_scheme \<Rightarrow> nat option" where
  "syscall_fd_from_fd fd s =
     (if fd < 0 \<or> fd \<ge> int SYSCALL_MAX_FDS then None
      else if fd_flags (fd_table s ! nat fd) AND FD_FLAG_USED = 0 then None
      else Some (nat fd))"

section \<open>Arguments\<close>

partial_function (option) user_string :: "(u64 \<Rightarrow> u8) \<Rightarrow> u64 \<Rightarrow> u8 list option" where
  "user_string m a = (if m a = 0 then Some [] else Option.bind (user_string m (a + 1)) (\<lambda>cs. Some (m a # cs)))"

definition path_from_user :: "(u64 \<Rightarrow> u8) \<Rightarrow> u64 \<Rightarrow> u8 list option option" where
  "path_from_user m addr = (if addr = 0 then Some None else map_option Some (user_string m addr))"

definition mem_get :: "(u64 \<Rightarrow> u8) \<Rightarrow> u64 \<Rightarrow> nat \<Rightarrow> u8 list" where
  "mem_get m a n = map (\<lambda>i. m (a + of_nat i)) [0..<n]"

definition mem_put :: "u64 \<Rightarrow> u8 list \<Rightarrow> (u64 \<Rightarrow> u8) \<Rightarrow> u64 \<Rightarrow> u8" where
  "mem_put a bs m = (\<lambda>x. if unat (x - a) < length bs then bs ! unat (x - a) else m x)"

definition user_buf :: "(u64 \<Rightarrow> u8) \<Rightarrow> u64 \<Rightarrow> u64 \<Rightarrow> u8 list option" where
  "user_buf m a n = (if a = 0 then None else Some (mem_get m a (unat n)))"

definition put_buf :: "u64 \<Rightarrow> u8 list option \<Rightarrow> (u64 \<Rightarrow> u8) \<Rightarrow> u64 \<Rightarrow> u8" where
  "put_buf a buf m = (case buf of None \<Rightarrow> m | Some bs \<Rightarrow> mem_put a bs m)"

definition ret_from_int :: "int \<Rightarrow> u64" where
  "ret_from_int v = word_of_int v"

definition int_arg :: "u64 \<Rightarrow> int" where
  "int_arg w = sint (ucast w :: u32)"

fun status_int :: "ares_status \<Rightarrow> int" where
  "status_int ARES_OK = 0" | "status_int ARES_ERROR = - 1" | "status_int ARES_ENOMEM = - 2"
| "status_int ARES_EINVAL = - 3" | "status_int ARES_ENODEV = - 4" | "status_int ARES_EBUSY = - 5"

definition run_fs :: "('d fs, 'a) state \<Rightarrow> ('d, 'b) kern_scheme \<Rightarrow> 'a \<times> ('d, 'b) kern_scheme" where
  "run_fs p s = (case run_state p (k_fs s) of (r, t) \<Rightarrow> (r, s\<lparr>k_fs := t\<rparr>))"

text \<open>Leaving a handler with a result in \<^verbatim>\<open>rax\<close>.\<close>

definition iret :: "u64 \<Rightarrow> frame \<Rightarrow> 's \<Rightarrow> 's isr_result option" where
  "iret r f s = Some (Iret (f\<lparr>f_rax := r\<rparr>) s)"

section \<open>Handlers\<close>

definition sys_getpid :: "frame \<Rightarrow> ('d, 'b) kern_scheme \<Rightarrow> ('d, 'b) kern_scheme isr_result option" where
  "sys_getpid f s =
     iret (case current_process (k_proc s) of
             Some c \<Rightarrow> ucast (pid (pcb_table (k_proc s) c))
           | None \<Rightarrow> ret_from_int (- 1)) f s"

text \<open>\<open>ra\<close> is the address behind the call of \<open>context_switch\<close> in \<open>process_exit\<close>.\<close>

definition sys_exit :: "u64 \<Rightarrow> frame \<Rightarrow> ('d, 'b) kern_scheme \<Rightarrow> ('d, 'b) kern_scheme isr_result option" where
  "sys_exit ra f s =
     Option.bind (process_exit (int_arg (f_rdi f)) ra (k_proc s)) (\<lambda>p.
       if current_process (k_proc s) = None then iret 0 f (s\<lparr>k_proc := p\<rparr>)
       else Some (Switched (s\<lparr>k_proc := p\<rparr>)))"

definition sys_write :: "'d driver \<Rightarrow> frame \<Rightarrow> ('d, 'b) kern_scheme \<Rightarrow> ('d, 'b) kern_scheme isr_result option" where
  "sys_write k f s =
     (if f_rdi f = SYSCALL_FD_STDOUT \<or> f_rdi f = SYSCALL_FD_STDERR
      then Option.bind (user_string (mem s) (f_rsi f)) (\<lambda>bs. iret (f_rdx f) f (s\<lparr>con := console_puts bs (con s)\<rparr>))
      else case syscall_fd_from_fd (int_arg (f_rdi f)) s of
             None \<Rightarrow> iret (ret_from_int (- 1)) f s
           | Some i \<Rightarrow>
               let (n, s) = run_fs (aresfs_write k (aresfs_fd (fd_table s ! i)) (user_buf (mem s) (f_rsi f) (f_rdx f)) (unat (f_rdx f))) s;
                   s = (if n > 0 then s\<lparr>fd_table := (fd_table s)[i := (fd_table s ! i)\<lparr>fd_pos := fd_pos (fd_table s ! i) + word_of_int n\<rparr>]\<rparr> else s)
               in iret (ret_from_int n) f s)"

definition sys_open :: "'d driver \<Rightarrow> frame \<Rightarrow> ('d, 'b) kern_scheme \<Rightarrow> ('d, 'b) kern_scheme isr_result option" where
  "sys_open k f s =
     Option.bind (path_from_user (mem s) (f_rdi f)) (\<lambda>path.
       let (afd, s) = run_fs (aresfs_open k path (ucast (f_rsi f))) s
       in if afd < 0 then iret (ret_from_int (- 1)) f s
          else case sys_fd_alloc s of
                 None \<Rightarrow> iret (ret_from_int (- 1)) f (snd (run_fs (aresfs_close afd) s))
               | Some (i, s) \<Rightarrow>
                   iret (ret_from_int (fd_num (fd_table s ! i))) f
                     (s\<lparr>fd_table := (fd_table s)[i := (fd_table s ! i)\<lparr>aresfs_fd := afd\<rparr>]\<rparr>))"

definition sys_close :: "frame \<Rightarrow> ('d, 'b) kern_scheme \<Rightarrow> ('d, 'b) kern_scheme isr_result option" where
  "sys_close f s =
     (case syscall_fd_from_fd (int_arg (f_rdi f)) s of
        None \<Rightarrow> iret (ret_from_int (- 1)) f s
      | Some i \<Rightarrow> iret 0 f (sys_fd_release i (snd (run_fs (aresfs_close (aresfs_fd (fd_table s ! i))) s))))"

definition sys_read :: "'d driver \<Rightarrow> frame \<Rightarrow> ('d, 'b) kern_scheme \<Rightarrow> ('d, 'b) kern_scheme isr_result option" where
  "sys_read k f s =
     (case syscall_fd_from_fd (int_arg (f_rdi f)) s of
        None \<Rightarrow> iret (ret_from_int (- 1)) f s
      | Some i \<Rightarrow>
          let ((n, buf), s) = run_fs (aresfs_read k (aresfs_fd (fd_table s ! i)) (user_buf (mem s) (f_rsi f) (f_rdx f)) (unat (f_rdx f))) s;
              s = s\<lparr>mem := put_buf (f_rsi f) buf (mem s)\<rparr>;
              s = (if n > 0 then s\<lparr>fd_table := (fd_table s)[i := (fd_table s ! i)\<lparr>fd_pos := fd_pos (fd_table s ! i) + word_of_int n\<rparr>]\<rparr> else s)
          in iret (ret_from_int n) f s)"

text \<open>\<open>while (timer_ticks < target) hlt;\<close> with interrupts enabled.\<close>

partial_function (option) sleep_until ::
  "(('d, 'b) kern_scheme \<Rightarrow> ('d, 'b) kern_scheme option) \<Rightarrow> u64 \<Rightarrow> ('d, 'b) kern_scheme \<Rightarrow> ('d, 'b) kern_scheme option" where
  "sleep_until hlt target s = (if timer_ticks s < target then Option.bind (hlt s) (sleep_until hlt target) else Some s)"

definition sys_sleep ::
  "(('d, 'b) kern_scheme \<Rightarrow> ('d, 'b) kern_scheme option) \<Rightarrow> frame \<Rightarrow> ('d, 'b) kern_scheme \<Rightarrow> ('d, 'b) kern_scheme isr_result option" where
  "sys_sleep hlt f s = Option.bind (sleep_until hlt (timer_ticks s + f_rdi f) s) (iret 0 f)"

text \<open>The lines of \<open>process_ps\<close> (\<^verbatim>\<open>process/process.c\<close>), with the arguments it passes.\<close>

definition ps_lines :: "'a proc_scheme \<Rightarrow> (string \<times> arg list) list" where
  "ps_lines p =
     [(ln ''%-4s %-24s %-10s %-8s %-8s %s'', map sarg [''PID'', ''NAME'', ''STATE'', ''PRIO'', ''TICKS'', ''TOTAL'']),
      (ln ''%-4s %-24s %-10s %-8s %-8s %s'', map sarg [''---'', ''----'', ''-----'', ''----'', ''-----'', ''-----''])] @
     (case current_process p of
        None \<Rightarrow> []
      | Some c \<Rightarrow> [(ln ''%-4u %-24s %-10s %-8s %-8u (current)'',
          [Num (ucast (pid (pcb_table p c))), sarg (pname (pcb_table p c)), sarg (process_state_str (state (pcb_table p c))),
           sarg (process_priority_str (priority (pcb_table p c))), Num 0, Num (ucast (total_ticks (pcb_table p c)))])]) @
     map (\<lambda>i. (ln ''%-4u %-24s %-10s %-8s %-8u'',
          [Num (ucast (pid (pcb_table p i))), sarg (pname (pcb_table p i)), sarg (process_state_str (state (pcb_table p i))),
           sarg (process_priority_str (priority (pcb_table p i))), Num (ucast (total_ticks (pcb_table p i)))]))
       (filter (\<lambda>i. Some i \<noteq> current_process p) (pcb_enum_active 64 p))"

definition sys_ps :: "frame \<Rightarrow> ('d, 'b) kern_scheme \<Rightarrow> ('d, 'b) kern_scheme isr_result option" where
  "sys_ps f s = Option.bind (print_all (ps_lines (k_proc s)) (con s)) (\<lambda>c. iret 0 f (s\<lparr>con := c\<rparr>))"

definition sys_gettime :: "frame \<Rightarrow> ('d, 'b) kern_scheme \<Rightarrow> ('d, 'b) kern_scheme isr_result option" where
  "sys_gettime f s = iret (timer_ticks s) f s"

definition sys_mkdir :: "'d driver \<Rightarrow> frame \<Rightarrow> ('d, 'b) kern_scheme \<Rightarrow> ('d, 'b) kern_scheme isr_result option" where
  "sys_mkdir k f s =
     Option.bind (path_from_user (mem s) (f_rdi f)) (\<lambda>path.
       let (st, s) = run_fs (aresfs_mkdir k path) s in iret (ret_from_int (status_int st)) f s)"

definition sys_listdir :: "'d driver \<Rightarrow> frame \<Rightarrow> ('d, 'b) kern_scheme \<Rightarrow> ('d, 'b) kern_scheme isr_result option" where
  "sys_listdir k f s =
     Option.bind (path_from_user (mem s) (f_rdi f)) (\<lambda>path.
       let ((st, buf), s) = run_fs (aresfs_listdir k path (user_buf (mem s) (f_rsi f) (f_rdx f)) (unat (f_rdx f))) s
       in iret (ret_from_int (status_int st)) f (s\<lparr>mem := put_buf (f_rsi f) buf (mem s)\<rparr>))"

definition sys_stat :: "'d driver \<Rightarrow> frame \<Rightarrow> ('d, 'b) kern_scheme \<Rightarrow> ('d, 'b) kern_scheme isr_result option" where
  "sys_stat k f s =
     Option.bind (path_from_user (mem s) (f_rdi f)) (\<lambda>path.
       let ((st, info), s) = run_fs (aresfs_stat k path) s;
           m = (case info of
                  None \<Rightarrow> mem s
                | Some (sz, md) \<Rightarrow>
                    let m = (if f_rsi f \<noteq> 0 then mem_put (f_rsi f) (le64 sz) (mem s) else mem s)
                    in if f_rdx f \<noteq> 0 then mem_put (f_rdx f) (le32 md) m else m)
       in iret (ret_from_int (status_int st)) f (s\<lparr>mem := m\<rparr>))"

definition syscall_handler ::
  "'d driver \<Rightarrow> (('d, 'b) kern_scheme \<Rightarrow> ('d, 'b) kern_scheme option) \<Rightarrow> u64 \<Rightarrow> frame \<Rightarrow>
     ('d, 'b) kern_scheme \<Rightarrow> ('d, 'b) kern_scheme isr_result option" where
  "syscall_handler k hlt ra f s =
     (if f_rax f = SYS_getpid then sys_getpid f s
      else if f_rax f = SYS_exit then sys_exit ra f s
      else if f_rax f = SYS_write then sys_write k f s
      else if f_rax f = SYS_open then sys_open k f s
      else if f_rax f = SYS_close then sys_close f s
      else if f_rax f = SYS_read then sys_read k f s
      else if f_rax f = SYS_sleep then sys_sleep hlt f s
      else if f_rax f = SYS_ps then sys_ps f s
      else if f_rax f = SYS_gettime then sys_gettime f s
      else if f_rax f = SYS_mkdir then sys_mkdir k f s
      else if f_rax f = SYS_listdir then sys_listdir k f s
      else if f_rax f = SYS_stat then sys_stat k f s
      else iret (ret_from_int (- 1)) f s)"

definition syscall_init :: "('d, 'b) kern_scheme \<Rightarrow> ('d, 'b) kern_scheme" where
  "syscall_init s =
     (let s = s\<lparr>fd_table := map (\<lambda>i. fd_slot i 0) [0..<SYSCALL_MAX_FDS]\<rparr>;
          s = interrupt_register_handler 0x80 Syscall_handler s;
          s = interrupt_set_dpl 0x80 IDT_FLAG_DPL_3 s
      in on_con (console_writeline (ascii ''[syscall] Syscall interface initialized (INT 0x80)'')) s)"

section \<open>Descriptors and the file system in step\<close>

text \<open>
  The invariant of the table: slot \<open>i\<close> carries its number, a free slot is blank, and a used slot refers to an
  open descriptor of the file system that no other slot refers to.
\<close>

definition fd_used :: "syscall_fd \<Rightarrow> bool" where
  "fd_used e \<longleftrightarrow> fd_flags e = FD_FLAG_USED"

text \<open>What the calls of the file system do to the set of open descriptors.\<close>

definition opens :: "fd_entry list \<Rightarrow> nat set" where
  "opens fds = {i. i < 16 \<and> used (fds ! i)}"

definition slot_wf :: "nat set \<Rightarrow> nat \<Rightarrow> syscall_fd \<Rightarrow> bool" where
  "slot_wf Q i e \<longleftrightarrow> fd_num e = int i \<and> (fd_used e \<and> 0 \<le> aresfs_fd e \<and> nat (aresfs_fd e) \<in> Q \<or> e = fd_slot i 0)"

definition fd_table_wf :: "nat set \<Rightarrow> syscall_fd list \<Rightarrow> bool" where
  "fd_table_wf Q tab \<longleftrightarrow> length tab = SYSCALL_MAX_FDS \<and> (\<forall>i < SYSCALL_MAX_FDS. slot_wf Q i (tab ! i)) \<and>
     (\<forall>i < SYSCALL_MAX_FDS. \<forall>j < SYSCALL_MAX_FDS. i \<noteq> j \<and> fd_used (tab ! i) \<and> fd_used (tab ! j) \<longrightarrow>
        aresfs_fd (tab ! i) \<noteq> aresfs_fd (tab ! j))"

definition sys_inv :: "('d \<Rightarrow> sectors) \<Rightarrow> ('d \<Rightarrow> bool) \<Rightarrow> ('d, 'b) kern_scheme \<Rightarrow> bool" where
  "sys_inv view ok s \<longleftrightarrow> ok (disk (k_fs s)) \<and> fs_inv (on_view view (k_fs s)) \<and>
     fd_table_wf (opens (g_fds (k_fs s))) (fd_table s)"

lemma opens_fpos:
  "nat fd < length fds \<Longrightarrow> opens (fds[nat fd := (fds ! nat fd)\<lparr>fpos := p\<rparr>]) = opens fds"
  by (auto simp: opens_def nth_list_update)

lemma fs_fds_length: "fs_inv t \<Longrightarrow> length (g_fds t) = 16"
  using fs_invD(9) by (auto simp: fds_wf_def)

lemma read_opens:
  assumes inv: "fs_inv t" and len: "\<forall>dst. buf = Some dst \<longrightarrow> n \<le> length dst" and run: "run_state (aresfs_read ideal fd buf n) t = (r, t')"
  shows "opens (g_fds t') = opens (g_fds t)"
proof (cases "g_mounted t \<and> buf \<noteq> None \<and> 0 \<le> fd \<and> fd < 16 \<and> used (g_fds t ! nat fd) \<and> fflags (g_fds t ! nat fd) AND 3 \<noteq> 1")
  case True
  then obtain dst where dst: "buf = Some dst" by auto
  show ?thesis
    using aresfs_read_run[OF inv, of fd n dst] run True len fs_fds_length[OF inv] unfolding dst by (auto simp: set_fpos_def opens_fpos)
next
  case False
  then show ?thesis using aresfs_read_refused[OF False] run by simp
qed

lemma write_opens:
  assumes inv: "fs_inv t" and len: "\<forall>src. buf = Some src \<longrightarrow> n \<le> length src" and run: "run_state (aresfs_write ideal fd buf n) t = (r, t')"
  shows "opens (g_fds t') = opens (g_fds t)"
proof (cases "g_mounted t \<and> buf \<noteq> None \<and> 0 \<le> fd \<and> fd < 16 \<and> used (g_fds t ! nat fd) \<and> fflags (g_fds t ! nat fd) AND 3 \<noteq> 0")
  case True
  then obtain src where src: "buf = Some src" by auto
  let ?f = "g_fds t ! nat fd"
  let ?p = "if fflags ?f AND ARESFS_O_APPEND \<noteq> 0 then i_size (inode t (inode_num ?f)) else fpos ?f"
  show ?thesis
  proof (cases "?p < 71680")
    case lt: True
    obtain d u where "run_state (aresfs_write ideal fd (Some src) n) t = (int d, u)" "g_fds u = (g_fds t)[nat fd := ?f\<lparr>fpos := ?p + of_nat d\<rparr>]"
      using aresfs_write_run[OF inv, of fd n src] True lt len src by blast
    then show ?thesis using run src opens_fpos[of fd "g_fds t"] True fs_fds_length[OF inv] by auto
  next
    case False
    then show ?thesis using aresfs_write_at_limit[OF inv, of fd src n] True run src fs_fds_length[OF inv]
      by (auto simp: set_fpos_def opens_fpos)
  qed
next
  case False
  then show ?thesis using aresfs_write_refused[OF False] run by simp
qed

lemma close_opens:
  assumes "run_state (aresfs_close fd) t = (r, t')" and "length (g_fds t) = 16"
  shows "opens (g_fds t') = opens (g_fds t) - {i. int i = fd}"
  using assms by (auto simp: aresfs_close_def opens_def nth_list_update zero_fd_def split: if_splits)

lemma open_opens:
  assumes inv: "fs_inv t" and p: "c_path path" and run: "run_state (aresfs_open ideal path fl) t = (r, t')"
  shows "r < 0 \<and> opens (g_fds t') = opens (g_fds t) \<or>
    (\<exists>i. r = int i \<and> i < 16 \<and> i \<notin> opens (g_fds t) \<and> opens (g_fds t') = insert i (opens (g_fds t)))"
proof (cases path)
  case None
  then show ?thesis using run by (auto simp: aresfs_open_def)
next
  case (Some q)
  then have q: "0 \<notin> set q" using p by (simp add: c_path_def)
  show ?thesis using run fs_fds_length[OF inv] unfolding Some
    by (cases rule: aresfs_open_run[OF inv q, of fl])
      (auto simp: same_fs_def opened_def opens_def opened_fd_def nth_list_update)
qed

lemma mkdir_opens:
  assumes inv: "fs_inv t" and p: "c_path path" and run: "run_state (aresfs_mkdir ideal path) t = (r, t')"
  shows "opens (g_fds t') = opens (g_fds t)"
proof (cases path)
  case None
  then show ?thesis using run by (auto simp: aresfs_mkdir_def)
next
  case (Some q)
  then have q: "0 \<notin> set q" using p by (simp add: c_path_def)
  show ?thesis using run unfolding Some
    by (cases rule: aresfs_mkdir_run[OF inv q]) (auto simp: same_fs_def created_def)
qed

text \<open>The table under the changes the handlers make to it.\<close>

lemma fd_table_wfD:
  assumes "fd_table_wf Q tab"
  shows "length tab = 16" and "i < 16 \<Longrightarrow> slot_wf Q i (tab ! i)"
    and "i < 16 \<Longrightarrow> j < 16 \<Longrightarrow> i \<noteq> j \<Longrightarrow> fd_used (tab ! i) \<Longrightarrow> fd_used (tab ! j) \<Longrightarrow> aresfs_fd (tab ! i) \<noteq> aresfs_fd (tab ! j)"
  using assms by (simp_all add: fd_table_wf_def)

lemma fd_slot_simps [simp]: "fd_num (fd_slot i fl) = int i" "fd_flags (fd_slot i fl) = fl" "fd_used (fd_slot i fl) \<longleftrightarrow> fl = 1"
  "aresfs_fd (fd_slot i fl) = - 1"
  by (simp_all add: fd_slot_def fd_used_def)

lemma slot_flags: "slot_wf Q i e \<Longrightarrow> (fd_flags e AND 1 = 0) = (\<not> fd_used e)"
  by (auto simp: slot_wf_def fd_used_def)

lemma slot_wf_used: "fd_used e \<Longrightarrow> slot_wf Q i e \<longleftrightarrow> fd_num e = int i \<and> 0 \<le> aresfs_fd e \<and> nat (aresfs_fd e) \<in> Q"
  by (auto simp: slot_wf_def)

lemma table_update:
  assumes "fd_table_wf Q tab" and "i < 16" and "slot_wf Q' i e" and "\<And>j. j < 16 \<Longrightarrow> j \<noteq> i \<Longrightarrow> slot_wf Q' j (tab ! j)"
    and "\<And>j. fd_used e \<Longrightarrow> j < 16 \<Longrightarrow> j \<noteq> i \<Longrightarrow> fd_used (tab ! j) \<Longrightarrow> aresfs_fd (tab ! j) \<noteq> aresfs_fd e"
  shows "fd_table_wf Q' (tab[i := e])"
proof -
  have "fd_used e \<Longrightarrow> j < 16 \<Longrightarrow> i \<noteq> j \<Longrightarrow> fd_used (tab ! j) \<Longrightarrow> aresfs_fd e \<noteq> aresfs_fd (tab ! j)" for j
    using assms(5)[of j] by auto
  then show ?thesis unfolding fd_table_wf_def using assms(2-5) fd_table_wfD(1,3)[OF assms(1)] by (auto simp: nth_list_update)
qed

lemma table_mono: "fd_table_wf Q tab \<Longrightarrow> Q \<subseteq> Q' \<Longrightarrow> fd_table_wf Q' tab"
  unfolding fd_table_wf_def slot_wf_def by blast

lemma table_pos:
  assumes "fd_table_wf Q tab" and "i < 16" and "fd_used (tab ! i)"
  shows "fd_table_wf Q (tab[i := (tab ! i)\<lparr>fd_pos := p\<rparr>])"
proof (rule table_update[OF assms(1,2)])
  have "fd_used ((tab ! i)\<lparr>fd_pos := p\<rparr>)" using assms(3) by (simp add: fd_used_def)
  then show "slot_wf Q i ((tab ! i)\<lparr>fd_pos := p\<rparr>)"
    using fd_table_wfD(2)[OF assms(1,2)] assms(3) by (simp add: slot_wf_used)
qed (use fd_table_wfD[OF assms(1)] assms(2,3) in auto)

lemma from_fd_used:
  assumes "syscall_fd_from_fd fd s = Some i" and "fd_table_wf Q (fd_table s)"
  shows "i < 16 \<and> fd = int i \<and> fd_used (fd_table s ! i) \<and> (\<exists>j \<in> Q. aresfs_fd (fd_table s ! i) = int j)"
proof -
  have i: "i < 16" "fd = int i" "fd_flags (fd_table s ! i) AND 1 \<noteq> 0" using assms(1) by (auto simp: syscall_fd_from_fd_def split: if_splits)
  then have "fd_used (fd_table s ! i)" using slot_flags fd_table_wfD(2)[OF assms(2)] by blast
  then show ?thesis using i fd_table_wfD(2)[OF assms(2) i(1)] by (auto simp: slot_wf_def intro: bexI[of _ "nat _"])
qed

lemma sys_fd_alloc_cases:
  assumes "fd_table_wf Q (fd_table s)"
  obtains (full) "sys_fd_alloc s = None" and "\<forall>i < 16. fd_used (fd_table s ! i)"
  | (slot) i where "sys_fd_alloc s = Some (i, s\<lparr>fd_table := (fd_table s)[i := fd_slot i 1]\<rparr>)" and "i < 16"
      and "\<not> fd_used (fd_table s ! i)" and "\<forall>j < i. fd_used (fd_table s ! j)"
proof -
  let ?f = "find (\<lambda>i. fd_flags (fd_table s ! i) AND 1 = 0) [0..<16]"
  note fl = slot_flags[OF fd_table_wfD(2)[OF assms]]
  show thesis
  proof (cases ?f)
    case None
    then have "\<forall>i < 16. fd_used (fd_table s ! i)" using fl by (auto simp: find_None_iff)
    then show thesis using None full by (simp add: sys_fd_alloc_def del: upt_rec_numeral)
  next
    case (Some i)
    then have "i < 16" "fd_flags (fd_table s ! i) AND 1 = 0" "\<forall>j < i. fd_flags (fd_table s ! j) AND 1 \<noteq> 0"
      by (auto simp: find_Some_iff)
    then show thesis using slot[of i] Some fl by (auto simp: sys_fd_alloc_def simp del: upt_rec_numeral)
  qed
qed

lemma table_open:
  assumes "fd_table_wf Q tab" and "i < 16" and "\<not> fd_used (tab ! i)" and "j \<notin> Q"
  shows "fd_table_wf (insert j Q) (tab[i := (fd_slot i 1)\<lparr>aresfs_fd := int j\<rparr>])"
proof (rule table_update[OF assms(1,2)])
  have "fd_used ((fd_slot i 1)\<lparr>aresfs_fd := int j\<rparr>)" by (simp add: fd_used_def)
  then show "slot_wf (insert j Q) i ((fd_slot i 1)\<lparr>aresfs_fd := int j\<rparr>)" by (simp add: slot_wf_used)
  fix l assume l: "l < 16" "l \<noteq> i"
  then show "slot_wf (insert j Q) l (tab ! l)" using fd_table_wfD(2)[OF assms(1) l(1)] by (auto simp: slot_wf_def)
  assume "fd_used (tab ! l)"
  then show "aresfs_fd (tab ! l) \<noteq> aresfs_fd ((fd_slot i 1)\<lparr>aresfs_fd := int j\<rparr>)"
    using fd_table_wfD(2)[OF assms(1) l(1)] assms(4) by (auto simp: slot_wf_used)
qed

lemma table_close:
  assumes "fd_table_wf Q tab" and "i < 16" and "fd_used (tab ! i)" and "aresfs_fd (tab ! i) = int j"
  shows "fd_table_wf (Q - {j}) (tab[i := (tab ! i)\<lparr>fd_flags := 0, aresfs_fd := - 1, fd_pos := 0\<rparr>])"
proof (rule table_update[OF assms(1,2)])
  have "fd_num (tab ! i) = int i" using fd_table_wfD(2)[OF assms(1,2)] by (simp add: slot_wf_def)
  then show "slot_wf (Q - {j}) i ((tab ! i)\<lparr>fd_flags := 0, aresfs_fd := - 1, fd_pos := 0\<rparr>)"
    by (cases "tab ! i") (simp add: slot_wf_def fd_slot_def)
  fix l assume l: "l < 16" "l \<noteq> i"
  then show "slot_wf (Q - {j}) l (tab ! l)"
    using fd_table_wfD(2)[OF assms(1) l(1)] fd_table_wfD(3)[OF assms(1) l(1) assms(2) l(2)] assms(3,4) by (auto simp: slot_wf_def)
qed (simp add: fd_used_def)

text \<open>The state a handler leaves behind.\<close>

primrec result_state :: "'s isr_result \<Rightarrow> 's" where
  "result_state (Iret f s) = s"
| "result_state (Halted s) = s"
| "result_state (Switched s) = s"

lemma iret_Some [simp]: "iret r f s = Some x \<longleftrightarrow> x = Iret (f\<lparr>f_rax := r\<rparr>) s"
  by (auto simp: iret_def)

section \<open>The calls on a driver\<close>

context disk_driver
begin

lemma fs_call:
  fixes s :: "('d, 'b) kern_scheme"
  assumes "simulates view ok f F" and "keeps F" and "run_fs f s = (r, s')" and "sys_inv view ok s"
  obtains u where "s' = s\<lparr>k_fs := u\<rparr>" and "ok (disk u)" and "fs_inv (on_view view u)"
    and "run_state F (on_view view (k_fs s)) = (r, on_view view u)"
proof -
  obtain u where u: "run_state f (k_fs s) = (r, u)" "s' = s\<lparr>k_fs := u\<rparr>"
    using assms(3) by (auto simp: run_fs_def split: prod.splits)
  have s: "ok (disk (k_fs s))" "fs_inv (on_view view (k_fs s))" using assms(4) by (simp_all add: sys_inv_def)
  have "ok (disk u) \<and> run_state F (on_view view (k_fs s)) = (r, on_view view u)"
    using assms(1) u(1) s(1) unfolding simulates_def by fastforce
  moreover have "ok (disk u) \<and> fs_inv (on_view view u)" by (rule keeps_on_driver[OF assms(1,2) u(1) s])
  ultimately show thesis using that u(2) by blast
qed

lemma sys_inv_k_fs:
  assumes "sys_inv view ok s" and "ok (disk u)" and "fs_inv (on_view view u)" and "opens (g_fds (k_fs s)) \<subseteq> opens (g_fds u)"
  shows "sys_inv view ok (s\<lparr>k_fs := u\<rparr>)"
  using assms table_mono by (auto simp: sys_inv_def)

lemma buf_len: "\<forall>src. user_buf m a n = Some src \<longrightarrow> unat n \<le> length src"
  by (auto simp: user_buf_def mem_get_def)

lemma sys_inv_pos:
  assumes "sys_inv view ok s" and "i < 16" and "fd_used (fd_table s ! i)"
  shows "sys_inv view ok (s\<lparr>fd_table := (fd_table s)[i := (fd_table s ! i)\<lparr>fd_pos := p\<rparr>]\<rparr>)"
  using assms table_pos by (auto simp: sys_inv_def)

lemma sys_inv_mem [simp]: "sys_inv view ok (s\<lparr>mem := m\<rparr>) = sys_inv view ok s" "sys_inv view ok (s\<lparr>con := c\<rparr>) = sys_inv view ok s"
  "sys_inv view ok (s\<lparr>k_proc := p\<rparr>) = sys_inv view ok s" "sys_inv view ok (s\<lparr>timer_ticks := n\<rparr>) = sys_inv view ok s"
  by (simp_all add: sys_inv_def)

lemma sys_write_inv:
  assumes inv: "sys_inv view ok s" and run: "sys_write k f s = Some r"
  shows "sys_inv view ok (result_state r)"
proof (cases "f_rdi f = 1 \<or> f_rdi f = 2")
  case True
  then show ?thesis using run inv by (auto simp: sys_write_def bind_eq_Some_conv)
next
  case False
  show ?thesis
  proof (cases "syscall_fd_from_fd (int_arg (f_rdi f)) s")
    case None
    then show ?thesis using run inv False by (simp add: sys_write_def)
  next
    case (Some i)
    have T: "fd_table_wf (opens (g_fds (k_fs s))) (fd_table s)" using inv by (simp add: sys_inv_def)
    note fd = from_fd_used[OF Some T]
    let ?p = "\<lambda>k. aresfs_write k (aresfs_fd (fd_table s ! i)) (user_buf (mem s) (f_rsi f) (f_rdx f)) (unat (f_rdx f))"
    obtain n s1 where c: "run_fs (?p k) s = (n, s1)" by fastforce
    obtain u where u: "s1 = s\<lparr>k_fs := u\<rparr>" "ok (disk u)" "fs_inv (on_view view u)" "run_state (?p ideal) (on_view view (k_fs s)) = (n, on_view view u)"
      by (rule fs_call[OF sim_aresfs_write keeps_write[OF buf_len] c inv])
    have "opens (g_fds u) = opens (g_fds (k_fs s))" using write_opens[OF _ buf_len u(4)] inv by (simp add: sys_inv_def)
    then have "sys_inv view ok s1" unfolding u(1) by (intro sys_inv_k_fs[OF inv u(2,3)]) simp
    then show ?thesis using run False Some c fd sys_inv_pos[of s1 i]
      by (auto simp: sys_write_def u(1) Let_def split: if_splits)
  qed
qed
end

lemma if_eqE: "(if b then x else y) = z \<Longrightarrow> (x = z \<Longrightarrow> P) \<Longrightarrow> (y = z \<Longrightarrow> P) \<Longrightarrow> P"
  by (cases b) auto

lemma user_string_nul_free:
  assumes "user_string m a = Some p"
  shows "0 \<notin> set p"
  by (rule user_string.raw_induct[where P = "\<lambda>m a p. 0 \<notin> set p", OF _ assms]) (auto simp: bind_eq_Some_conv split: if_splits)

lemma path_from_user_c: "path_from_user m a = Some p \<Longrightarrow> c_path p"
  using user_string_nul_free by (auto simp: path_from_user_def c_path_def split: if_splits)

lemma sleep_until_inv:
  assumes "sleep_until hlt target s = Some s'" and "\<And>t t'. hlt t = Some t' \<Longrightarrow> P t \<Longrightarrow> P t'" and "P s"
  shows "P s' \<and> \<not> timer_ticks s' < target"
proof -
  have "(\<forall>t t'. hlt t = Some t' \<longrightarrow> P t \<longrightarrow> P t') \<longrightarrow> P s \<longrightarrow> P s' \<and> \<not> timer_ticks s' < target"
    by (rule sleep_until.raw_induct[where P = "\<lambda>h n s s'. (\<forall>t t'. h t = Some t' \<longrightarrow> P t \<longrightarrow> P t') \<longrightarrow> P s \<longrightarrow> P s' \<and> \<not> timer_ticks s' < n",
          OF _ assms(1)]) (auto simp: bind_eq_Some_conv split: if_splits)
  then show ?thesis using assms(2,3) by blast
qed

context disk_driver
begin

lemma sys_read_inv:
  assumes inv: "sys_inv view ok s" and run: "sys_read k f s = Some r"
  shows "sys_inv view ok (result_state r)"
proof (cases "syscall_fd_from_fd (int_arg (f_rdi f)) s")
  case None
  then show ?thesis using run inv by (simp add: sys_read_def)
next
  case (Some i)
  have T: "fd_table_wf (opens (g_fds (k_fs s))) (fd_table s)" using inv by (simp add: sys_inv_def)
  note fd = from_fd_used[OF Some T]
  let ?p = "\<lambda>k. aresfs_read k (aresfs_fd (fd_table s ! i)) (user_buf (mem s) (f_rsi f) (f_rdx f)) (unat (f_rdx f))"
  obtain n buf s1 where c: "run_fs (?p k) s = ((n, buf), s1)" by (metis surj_pair)
  obtain u where u: "s1 = s\<lparr>k_fs := u\<rparr>" "ok (disk u)" "fs_inv (on_view view u)" "run_state (?p ideal) (on_view view (k_fs s)) = ((n, buf), on_view view u)"
    by (rule fs_call[OF sim_aresfs_read keeps_read[OF buf_len] c inv])
  have "opens (g_fds u) = opens (g_fds (k_fs s))" using read_opens[OF _ buf_len u(4)] inv by (simp add: sys_inv_def)
  then have "sys_inv view ok s1" unfolding u(1) by (intro sys_inv_k_fs[OF inv u(2,3)]) simp
  then have "sys_inv view ok (s1\<lparr>mem := put_buf (f_rsi f) buf (mem s)\<rparr>)" by simp
  then show ?thesis using run Some c fd sys_inv_pos[of "s1\<lparr>mem := put_buf (f_rsi f) buf (mem s)\<rparr>" i]
    by (auto simp: sys_read_def u(1) Let_def split: if_splits)
qed

lemma sys_open_inv:
  assumes inv: "sys_inv view ok s" and run: "sys_open k f s = Some r"
  shows "sys_inv view ok (result_state r)"
proof -
  obtain path where p: "path_from_user (mem s) (f_rdi f) = Some path" using run by (auto simp: sys_open_def bind_eq_Some_conv)
  note cp = path_from_user_c[OF p]
  let ?p = "\<lambda>k. aresfs_open k path (ucast (f_rsi f))"
  obtain n s1 where c: "run_fs (?p k) s = (n, s1)" by fastforce
  obtain u where u: "s1 = s\<lparr>k_fs := u\<rparr>" "ok (disk u)" "fs_inv (on_view view u)" "run_state (?p ideal) (on_view view (k_fs s)) = (n, on_view view u)"
    by (rule fs_call[OF sim_aresfs_open keeps_open[OF cp] c inv])
  have T: "fs_inv (on_view view (k_fs s))" "fd_table_wf (opens (g_fds (k_fs s))) (fd_table s)" using inv by (simp_all add: sys_inv_def)
  consider (fail) "n < 0" "opens (g_fds u) = opens (g_fds (k_fs s))"
    | (fresh) j where "n = int j" "j < 16" "j \<notin> opens (g_fds (k_fs s))" "opens (g_fds u) = insert j (opens (g_fds (k_fs s)))"
    using open_opens[OF T(1) cp u(4)] by auto
  then show ?thesis
  proof cases
    case fail
    then have "sys_inv view ok s1" unfolding u(1) by (intro sys_inv_k_fs[OF inv u(2,3)]) simp
    then show ?thesis using run p c fail by (simp add: sys_open_def)
  next
    case (fresh j)
    have tab: "fd_table s1 = fd_table s" by (simp add: u(1))
    have s1: "sys_inv view ok s1" unfolding u(1) by (intro sys_inv_k_fs[OF inv u(2,3)]) (use fresh in auto)
    show ?thesis
    proof (cases rule: sys_fd_alloc_cases[OF T(2)[folded tab]])
      case 1
      obtain st s2 where c2: "run_fs (aresfs_close n) s1 = (st, s2)" by fastforce
      obtain v where v: "s2 = s1\<lparr>k_fs := v\<rparr>" "ok (disk v)" "fs_inv (on_view view v)" "run_state (aresfs_close n) (on_view view (k_fs s1)) = (st, on_view view v)"
        by (rule fs_call[OF sim_aresfs_close keeps_close c2 s1])
      have "opens (g_fds v) = opens (g_fds u) - {i. int i = n}"
        using close_opens[OF v(4)] fs_fds_length[OF u(3)] by (simp add: u(1))
      then have "fd_table_wf (opens (g_fds v)) (fd_table s2)" using fresh T(2) by (simp add: v(1) tab Diff_insert_absorb)
      then show ?thesis using run p c fresh 1 c2 v by (simp add: sys_open_def sys_inv_def)
    next
      case (2 i)
      have "fd_table_wf (opens (g_fds u)) ((fd_table s)[i := (fd_slot i 1)\<lparr>aresfs_fd := int j\<rparr>])"
        using table_open[OF T(2) 2(2) _ fresh(3)] 2(3) fresh(4) tab by simp
      then show ?thesis using run p c fresh 2 u fd_table_wfD(1)[OF T(2)] by (simp add: sys_open_def sys_inv_def)
    qed
  qed
qed

lemma sys_close_inv:
  assumes inv: "sys_inv view ok s" and run: "sys_close f s = Some r"
  shows "sys_inv view ok (result_state r)"
proof (cases "syscall_fd_from_fd (int_arg (f_rdi f)) s")
  case None
  then show ?thesis using run inv by (simp add: sys_close_def)
next
  case (Some i)
  have T: "fs_inv (on_view view (k_fs s))" "fd_table_wf (opens (g_fds (k_fs s))) (fd_table s)" using inv by (simp_all add: sys_inv_def)
  obtain j where fd: "i < 16" "fd_used (fd_table s ! i)" "aresfs_fd (fd_table s ! i) = int j" using from_fd_used[OF Some T(2)] by blast
  obtain st s1 where c: "run_fs (aresfs_close (int j)) s = (st, s1)" by fastforce
  obtain v where v: "s1 = s\<lparr>k_fs := v\<rparr>" "ok (disk v)" "fs_inv (on_view view v)" "run_state (aresfs_close (int j)) (on_view view (k_fs s)) = (st, on_view view v)"
    by (rule fs_call[OF sim_aresfs_close keeps_close c inv])
  have "opens (g_fds v) = opens (g_fds (k_fs s)) - {j}"
    using close_opens[OF v(4)] fs_fds_length[OF T(1)] by auto
  then show ?thesis using run Some fd c v table_close[OF T(2) fd] by (simp add: sys_close_def sys_fd_release_def sys_inv_def)
qed
end

context disk_driver
begin

lemma sys_paths_inv:
  assumes inv: "sys_inv view ok s"
  shows "sys_mkdir k f s = Some r \<Longrightarrow> sys_inv view ok (result_state r)"
    and "sys_listdir k f s = Some r \<Longrightarrow> sys_inv view ok (result_state r)"
    and "sys_stat k f s = Some r \<Longrightarrow> sys_inv view ok (result_state r)"
proof -
  have T: "fs_inv (on_view view (k_fs s))" using inv by (simp add: sys_inv_def)
  { assume run: "sys_mkdir k f s = Some r"
    obtain path where p: "path_from_user (mem s) (f_rdi f) = Some path" using run by (auto simp: sys_mkdir_def bind_eq_Some_conv)
    obtain st s1 where c: "run_fs (aresfs_mkdir k path) s = (st, s1)" by fastforce
    obtain u where u: "s1 = s\<lparr>k_fs := u\<rparr>" "ok (disk u)" "fs_inv (on_view view u)" "run_state (aresfs_mkdir ideal path) (on_view view (k_fs s)) = (st, on_view view u)"
      by (rule fs_call[OF sim_aresfs_mkdir keeps_mkdir[OF path_from_user_c[OF p]] c inv])
    have "sys_inv view ok s1"
      unfolding u(1) using mkdir_opens[OF T path_from_user_c[OF p] u(4)] by (intro sys_inv_k_fs[OF inv u(2,3)]) simp
    then show "sys_inv view ok (result_state r)" using run p c by (simp add: sys_mkdir_def) }
  { assume run: "sys_listdir k f s = Some r"
    let ?p = "\<lambda>k path. aresfs_listdir k path (user_buf (mem s) (f_rsi f) (f_rdx f)) (unat (f_rdx f))"
    obtain path where p: "path_from_user (mem s) (f_rdi f) = Some path" using run by (auto simp: sys_listdir_def bind_eq_Some_conv)
    obtain st buf s1 where c: "run_fs (?p k path) s = ((st, buf), s1)" by (metis surj_pair)
    obtain u where u: "s1 = s\<lparr>k_fs := u\<rparr>" "ok (disk u)" "fs_inv (on_view view u)" "run_state (?p ideal path) (on_view view (k_fs s)) = ((st, buf), on_view view u)"
      by (rule fs_call[OF sim_aresfs_listdir keeps_listdir[OF path_from_user_c[OF p]] c inv])
    have e: "on_view view u = on_view view (k_fs s)" using aresfs_listdir_state[OF T path_from_user_c[OF p]] u(4) by (metis snd_conv)
    have "g_fds u = g_fds (k_fs s)" using arg_cong[OF e, of g_fds] by simp
    then have "sys_inv view ok s1" unfolding u(1) by (intro sys_inv_k_fs[OF inv u(2,3)]) simp
    then show "sys_inv view ok (result_state r)" using run p c by (simp add: sys_listdir_def) }
  { assume run: "sys_stat k f s = Some r"
    obtain path where p: "path_from_user (mem s) (f_rdi f) = Some path" using run by (auto simp: sys_stat_def bind_eq_Some_conv)
    obtain st info s1 where c: "run_fs (aresfs_stat k path) s = ((st, info), s1)" by (metis surj_pair)
    obtain u where u: "s1 = s\<lparr>k_fs := u\<rparr>" "ok (disk u)" "fs_inv (on_view view u)" "run_state (aresfs_stat ideal path) (on_view view (k_fs s)) = ((st, info), on_view view u)"
      by (rule fs_call[OF sim_aresfs_stat keeps_stat[OF path_from_user_c[OF p]] c inv])
    have e: "on_view view u = on_view view (k_fs s)" using aresfs_stat_run[OF T path_from_user_c[OF p]] u(4) by simp
    have "g_fds u = g_fds (k_fs s)" using arg_cong[OF e, of g_fds] by simp
    then have "sys_inv view ok s1" unfolding u(1) by (intro sys_inv_k_fs[OF inv u(2,3)]) simp
    then show "sys_inv view ok (result_state r)" using run p c by (simp add: sys_stat_def Let_def) }
qed

lemma syscall_handler_inv:
  assumes inv: "sys_inv view ok s" and hlt: "\<forall>t t'. hlt t = Some t' \<longrightarrow> sys_inv view ok t \<longrightarrow> sys_inv view ok t'"
    and run: "syscall_handler k hlt ra f s = Some r"
  shows "sys_inv view ok (result_state r)"
proof -
  have sleep: "sys_sleep hlt f s = Some r \<Longrightarrow> sys_inv view ok (result_state r)"
    using sleep_until_inv[of hlt _ s _ "sys_inv view ok"] hlt inv by (auto simp: sys_sleep_def bind_eq_Some_conv)
  have rest: "sys_getpid f s = Some r \<Longrightarrow> sys_inv view ok (result_state r)" "sys_exit ra f s = Some r \<Longrightarrow> sys_inv view ok (result_state r)"
      "sys_ps f s = Some r \<Longrightarrow> sys_inv view ok (result_state r)" "sys_gettime f s = Some r \<Longrightarrow> sys_inv view ok (result_state r)"
      "iret n f s = Some r \<Longrightarrow> sys_inv view ok (result_state r)" for n
    using inv by (auto simp: sys_getpid_def sys_exit_def sys_ps_def sys_gettime_def bind_eq_Some_conv split: if_splits)
  show ?thesis using run unfolding syscall_handler_def
    by (elim if_eqE)
      (erule sys_write_inv[OF inv] sys_open_inv[OF inv] sys_close_inv[OF inv] sys_read_inv[OF inv] sys_paths_inv[OF inv] sleep rest)+
qed
end

section \<open>Properties\<close>

inductive sys_step :: "'d driver \<Rightarrow> (('d, 'b) kern_scheme \<Rightarrow> ('d, 'b) kern_scheme option) \<Rightarrow> ('d, 'b) kern_scheme \<Rightarrow> ('d, 'b) kern_scheme \<Rightarrow> bool"
  for k hlt where
  "syscall_handler k hlt ra f s = Some r \<Longrightarrow> sys_step k hlt s (result_state r)"

lemma syscall_init_inv:
  assumes "ok (disk (k_fs s))" and "fs_inv (on_view view (k_fs s))"
  shows "sys_inv view ok (syscall_init s)"
proof -
  have "fd_table_wf Q (map (\<lambda>i. fd_slot i 0) [0..<16])" for Q by (auto simp: fd_table_wf_def slot_wf_def simp del: upt_rec_numeral)
  then show ?thesis using assms
    by (simp add: syscall_init_def sys_inv_def Let_def on_con_def interrupt_set_dpl_def interrupt_register_handler_def del: upt_rec_numeral)
qed


definition blank_kern :: "sectors kern" where
  "blank_kern = intr.extend blank_intr (kern.fields (fresh_state blank_fs) blank_proc [] 0
     (\<lambda>a. if a = 0x1000 then 0x2F else if a = 0x1001 then 0x61 else 0))"

definition blank_frame :: frame where
  "blank_frame = \<lparr>f_r15 = 0, f_r14 = 0, f_r13 = 0, f_r12 = 0, f_r11 = 0, f_r10 = 0, f_r9 = 0, f_r8 = 0, f_rbp = 0, f_rdi = 0,
     f_rsi = 0, f_rdx = 0, f_rcx = 0, f_rbx = 0, f_rax = 0, int_no = 0x80, err_code = 0, f_rip = 0, f_cs = 8, f_rflags = 0,
     f_rsp = 0, f_ss = 0\<rparr>"

lemma blank_kern_simps [simp]: "k_fs blank_kern = fresh_state blank_fs" "k_proc blank_kern = blank_proc"
  by (simp_all add: blank_kern_def intr.defs kern.defs)


section \<open>What a successful call does\<close>

lemma int_arg_of_nat: "i < 16 \<Longrightarrow> int_arg (of_nat i) = int i"
proof -
  have "\<forall>i \<in> set [0..<16]. int_arg (of_nat i) = int i" by (simp add: upt_rec int_arg_def)
  then show "i < 16 \<Longrightarrow> ?thesis" by simp
qed

lemma from_fd_slot: "i < 16 \<Longrightarrow> fd_used (fd_table s ! i) \<Longrightarrow> syscall_fd_from_fd (int_arg (of_nat i)) s = Some i"
  by (simp add: syscall_fd_from_fd_def int_arg_of_nat fd_used_def)

lemma ret_from_int_nat [simp]: "ret_from_int (int n) = of_nat n" "ret_from_int (- 1) = - 1"
  by (simp_all add: ret_from_int_def)

context disk_driver
begin

lemma sys_open_run:
  assumes inv: "sys_inv view ok s" and p: "user_string (mem s) (f_rdi f) = Some p" and nz: "f_rdi f \<noteq> 0"
  obtains (failed) u where "sys_open k f s = Some (Iret (f\<lparr>f_rax := - 1\<rparr>) (s\<lparr>k_fs := u\<rparr>))"
      and "\<forall>m. lookup (on_view view (k_fs s)) p = Some m \<longrightarrow> is_file (inode (on_view view (k_fs s)) m) \<longrightarrow>
        (\<forall>l < 16. used (g_fds (k_fs s) ! l)) \<or> (\<forall>l < 16. fd_used (fd_table s ! l))"
  | (got) n i j u t' where
      "sys_open k f s = Some (Iret (f\<lparr>f_rax := of_nat i\<rparr>) (s\<lparr>k_fs := u, fd_table := (fd_table s)[i := (fd_slot i 1)\<lparr>aresfs_fd := int j\<rparr>]\<rparr>))"
      and "i < 16" and "\<not> fd_used (fd_table s ! i)" and "\<forall>l < i. fd_used (fd_table s ! l)" and "j < 16" and "\<not> used (g_fds (k_fs s) ! j)"
      and "opened p (ucast (f_rsi f)) n (on_view view (k_fs s)) t'"
      and "on_view view u = t'\<lparr>g_fds := (g_fds (k_fs s))[j := opened_fd n (ucast (f_rsi f)) t']\<rparr>"
proof -
  have T: "fs_inv (on_view view (k_fs s))" "fd_table_wf (opens (g_fds (k_fs s))) (fd_table s)" using inv by (simp_all add: sys_inv_def)
  have q: "0 \<notin> set p" by (rule user_string_nul_free[OF p])
  have path: "path_from_user (mem s) (f_rdi f) = Some (Some p)" using p nz by (simp add: path_from_user_def)
  let ?p = "\<lambda>k. aresfs_open k (Some p) (ucast (f_rsi f))"
  obtain r s1 where c: "run_fs (?p k) s = (r, s1)" by fastforce
  have "c_path (Some p)" using q by (simp add: c_path_def)
  then obtain u where u: "s1 = s\<lparr>k_fs := u\<rparr>" "ok (disk u)" "fs_inv (on_view view u)" "run_state (?p ideal) (on_view view (k_fs s)) = (r, on_view view u)"
    using fs_call[OF sim_aresfs_open keeps_open c inv] by metis
  let ?why = "\<forall>m. lookup (on_view view (k_fs s)) p = Some m \<longrightarrow> is_file (inode (on_view view (k_fs s)) m) \<longrightarrow>
        (\<forall>l < 16. used (g_fds (k_fs s) ! l)) \<or> (\<forall>l < 16. fd_used (fd_table s ! l))"
  have fl: thesis if "r < 0" ?why using that c path failed[of u] by (simp add: sys_open_def u(1) iret_def)
  show thesis
  proof (cases rule: aresfs_open_run[OF T(1) q, of "ucast (f_rsi f)"])
    case (1 t')
    then have ?why by auto
    then show thesis using u(4) fl 1(1) by simp
  next
    case (2 n t')
    then have ?why using fs_fds_length[OF T(1)] by simp
    then show thesis using u(4) fl 2(1) by simp
  next
    case (3 n j t')
    then have r: "r = int j" "on_view view u = t'\<lparr>g_fds := (g_fds (k_fs s))[j := opened_fd n (ucast (f_rsi f)) t']\<rparr>" using u(4) by simp_all
    show thesis
    proof (cases rule: sys_fd_alloc_cases[OF T(2)])
      case 1
      then have "sys_fd_alloc s1 = None" by (simp add: u(1) sys_fd_alloc_def split: option.splits)
      then show thesis using c path r 1(2) failed[of "snd (run_state (aresfs_close (int j)) u)"]
        by (simp add: sys_open_def u(1) iret_def run_fs_def split: prod.splits)
    next
      case (2 i)
      then have "sys_fd_alloc s1 = Some (i, s1\<lparr>fd_table := (fd_table s)[i := fd_slot i 1]\<rparr>)"
        by (auto simp: u(1) sys_fd_alloc_def split: option.splits)
      then show thesis using c path r 2(2-4) 3(3-5) fd_table_wfD(1)[OF T(2)]
        by (intro got[where i = i and j = j and u = u and n = n and t' = t']) (simp_all add: sys_open_def u(1) iret_def)
    qed
  qed
qed

lemma sys_write_run:
  assumes inv: "sys_inv view ok s" and i: "i < 16" "fd_used (fd_table s ! i)" "i \<noteq> 1" "i \<noteq> 2" and j: "aresfs_fd (fd_table s ! i) = int j"
    and f: "f_rdi f = of_nat i" "f_rsi f \<noteq> 0"
  defines "e \<equiv> g_fds (k_fs s) ! j" and "bs \<equiv> mem_get (mem s) (f_rsi f) (unat (f_rdx f))" and "t \<equiv> on_view view (k_fs s)"
  assumes e: "fflags e AND 3 \<noteq> 0" "fflags e AND ARESFS_O_APPEND = 0" "fpos e < 71680"
  obtains d u tab where "sys_write k f s = Some (Iret (f\<lparr>f_rax := of_nat d\<rparr>) (s\<lparr>k_fs := u, fd_table := tab\<rparr>))"
    and "d \<le> length bs" and "d < min (length bs) (71680 - unat (fpos e)) \<longrightarrow> disk_full (on_view view u)"
    and "others_kept (inode_num e) t (on_view view u)"
    and "contents (on_view view u) (inode_num e) = write_at (unat (fpos e)) (take d bs) (contents t (inode_num e))"
    and "g_fds u = (g_fds (k_fs s))[j := e\<lparr>fpos := fpos e + of_nat d\<rparr>]"
    and "fd_used (tab ! i)" and "aresfs_fd (tab ! i) = int j" and "\<forall>l < 16. l \<noteq> i \<longrightarrow> tab ! l = fd_table s ! l"
    and "lookup (on_view view u) = lookup t" and "is_file (inode (on_view view u) (inode_num e))"
proof -
  have T: "fs_inv t" using inv by (simp add: sys_inv_def t_def)
  have Tab: "fd_table_wf (opens (g_fds (k_fs s))) (fd_table s)" using inv by (simp add: sys_inv_def)
  have jo: "j \<in> opens (g_fds (k_fs s))" using fd_table_wfD(2)[OF Tab i(1)] i(2) j by (simp add: slot_wf_used)
  then have o: "0 \<le> int j" "int j < 16" "used (g_fds t ! nat (int j))" by (simp_all add: opens_def t_def)
  have ge: "g_fds t ! nat (int j) = e" by (simp add: t_def e_def)
  have len: "length bs = unat (f_rdx f)" by (simp add: bs_def mem_get_def)
  have buf: "user_buf (mem s) (f_rsi f) (f_rdx f) = Some bs" using f(2) by (simp add: user_buf_def bs_def)
  let ?p = "\<lambda>k. aresfs_write k (int j) (Some bs) (unat (f_rdx f))"
  obtain d t' where r: "run_state (?p ideal) t = (int d, t')" and d: "d \<le> min (length bs) (71680 - unat (fpos e))"
      "d < min (length bs) (71680 - unat (fpos e)) \<longrightarrow> disk_full t'" "fs_inv t'" "others_kept (inode_num e) t t'"
      "contents t' (inode_num e) = write_at (unat (fpos e)) (take d bs) (contents t (inode_num e))"
      "g_fds t' = (g_fds t)[j := e\<lparr>fpos := fpos e + of_nat d\<rparr>]"
    using aresfs_write_run[OF T o(1,2,3), of "unat (f_rdx f)" bs] e len unfolding ge by auto
  obtain n s1 where c: "run_fs (?p k) s = (n, s1)" by fastforce
  have "\<forall>src. Some bs = Some src \<longrightarrow> unat (f_rdx f) \<le> length src" using len by simp
  then obtain u where u: "s1 = s\<lparr>k_fs := u\<rparr>" "run_state (?p ideal) t = (n, on_view view u)"
    using fs_call[OF sim_aresfs_write keeps_write c inv] unfolding t_def by metis
  have n: "n = int d" "on_view view u = t'" using u(2) r by simp_all
  have gu: "g_fds u = (g_fds (k_fs s))[j := e\<lparr>fpos := fpos e + of_nat d\<rparr>]"
    using d(6) arg_cong[OF n(2), of g_fds] by (simp add: t_def)
  have "g_fds t' ! nat (int j) = e\<lparr>fpos := fpos e + of_nat d\<rparr>" using d(6) o(2) fs_fds_length[OF T] by simp
  then have isf: "is_file (inode t' (inode_num e))" using fd_facts(4)[OF d(3) o(1,2)] o(3) ge by simp
  moreover have "is_file (inode t (inode_num e))" using fd_facts(4)[OF T o(1,2,3)] ge by simp
  ultimately have look: "lookup t' = lookup t" using others_kept_lookup[OF T d(4)] file_not_dir by (simp add: fun_eq_iff)
  let ?tab = "if d > 0 then (fd_table s)[i := (fd_table s ! i)\<lparr>fd_pos := fd_pos (fd_table s ! i) + of_nat d\<rparr>] else fd_table s"
  have "of_nat i \<noteq> (1 :: u64)" "of_nat i \<noteq> (2 :: u64)"
    using i(1,3,4) of_nat_eq_iff_small[of i 1, where 'a = 64] of_nat_eq_iff_small[of i 2, where 'a = 64] by auto
  then have "sys_write k f s = Some (Iret (f\<lparr>f_rax := of_nat d\<rparr>) (s\<lparr>k_fs := u, fd_table := ?tab\<rparr>))"
    using f i c from_fd_slot[OF i(1,2)] by (simp add: sys_write_def buf j n(1) u(1) iret_def)
  then show thesis using that[where d = d and u = u and tab = ?tab] d gu look isf n(2) i(2) j fd_table_wfD(1)[OF Tab] i(1) by (auto simp: nth_list_update fd_used_def)
qed

end

context disk_driver
begin

lemma sys_close_run:
  assumes inv: "sys_inv view ok s" and i: "i < 16" "fd_used (fd_table s ! i)" and j: "aresfs_fd (fd_table s ! i) = int j"
    and f: "f_rdi f = of_nat i"
  obtains u where "sys_close f s = Some (Iret (f\<lparr>f_rax := 0\<rparr>) (sys_fd_release i (s\<lparr>k_fs := u\<rparr>)))"
    and "on_view view u = (on_view view (k_fs s))\<lparr>g_fds := (g_fds (k_fs s))[j := zero_fd]\<rparr>"
proof -
  have Tab: "fd_table_wf (opens (g_fds (k_fs s))) (fd_table s)" using inv by (simp add: sys_inv_def)
  have jo: "j \<in> opens (g_fds (k_fs s))" using fd_table_wfD(2)[OF Tab i(1)] i(2) j by (simp add: slot_wf_used)
  obtain st s1 where c: "run_fs (aresfs_close (int j)) s = (st, s1)" by fastforce
  obtain u where u: "s1 = s\<lparr>k_fs := u\<rparr>" "run_state (aresfs_close (int j)) (on_view view (k_fs s)) = (st, on_view view u)"
    using fs_call[OF sim_aresfs_close keeps_close c inv] by metis
  have "on_view view u = (on_view view (k_fs s))\<lparr>g_fds := (g_fds (k_fs s))[j := zero_fd]\<rparr>"
    using u(2) jo by (simp add: aresfs_close_def opens_def)
  then show thesis using that[of u] f c u(1) from_fd_slot[OF i] j by (simp add: sys_close_def iret_def)
qed

lemma sys_read_run:
  assumes inv: "sys_inv view ok s" and i: "i < 16" "fd_used (fd_table s ! i)" and j: "aresfs_fd (fd_table s ! i) = int j"
    and f: "f_rdi f = of_nat i" "f_rsi f \<noteq> 0"
  defines "e \<equiv> g_fds (k_fs s) ! j" and "t \<equiv> on_view view (k_fs s)"
  assumes e: "fflags e AND 3 \<noteq> 1"
  defines "bs \<equiv> take (unat (f_rdx f)) (drop (unat (fpos e)) (contents t (inode_num e)))"
  obtains u tab where "sys_read k f s = Some (Iret (f\<lparr>f_rax := of_nat (length bs)\<rparr>)
        (s\<lparr>k_fs := u, mem := mem_put (f_rsi f) (copy_into 0 bs (mem_get (mem s) (f_rsi f) (unat (f_rdx f)))) (mem s), fd_table := tab\<rparr>))"
    and "on_view view u = set_fpos (int j) (fpos e + of_nat (length bs)) t"
    and "fd_used (tab ! i)" and "aresfs_fd (tab ! i) = int j"
proof -
  have T: "fs_inv t" using inv by (simp add: sys_inv_def t_def)
  have Tab: "fd_table_wf (opens (g_fds (k_fs s))) (fd_table s)" using inv by (simp add: sys_inv_def)
  have jo: "j \<in> opens (g_fds (k_fs s))" using fd_table_wfD(2)[OF Tab i(1)] i(2) j by (simp add: slot_wf_used)
  then have o: "0 \<le> int j" "int j < 16" "used (g_fds t ! nat (int j))" by (simp_all add: opens_def t_def)
  have ge: "g_fds t ! nat (int j) = e" by (simp add: t_def e_def)
  let ?dst = "mem_get (mem s) (f_rsi f) (unat (f_rdx f))" and ?m = "length bs"
  have buf: "user_buf (mem s) (f_rsi f) (f_rdx f) = Some ?dst" using f(2) by (simp add: user_buf_def)
  let ?p = "\<lambda>k. aresfs_read k (int j) (Some ?dst) (unat (f_rdx f))"
  have m: "min (unat (f_rdx f)) (length (contents t (inode_num e)) - unat (fpos e)) = ?m" by (simp add: bs_def min_def)
  have sg: "seg (unat (fpos e)) ?m (contents t (inode_num e)) = bs" by (simp add: bs_def seg_def min_def)
  have r: "run_state (?p ideal) t = ((int ?m, Some (copy_into 0 bs ?dst)), set_fpos (int j) (fpos e + of_nat ?m) t)"
    using aresfs_read_run[OF T o(1,2,3), of "unat (f_rdx f)" ?dst] e sg unfolding ge m by (simp add: mem_get_def)
  obtain n b s1 where c: "run_fs (?p k) s = ((n, b), s1)" by (metis surj_pair)
  have "\<forall>dst. Some ?dst = Some dst \<longrightarrow> unat (f_rdx f) \<le> length dst" by (simp add: mem_get_def)
  then obtain u where u: "s1 = s\<lparr>k_fs := u\<rparr>" "run_state (?p ideal) t = ((n, b), on_view view u)"
    using fs_call[OF sim_aresfs_read keeps_read c inv] unfolding t_def by metis
  have n: "n = int ?m" "b = Some (copy_into 0 bs ?dst)" "on_view view u = set_fpos (int j) (fpos e + of_nat ?m) t" using u(2) r by simp_all
  let ?tab = "if ?m > 0 then (fd_table s)[i := (fd_table s ! i)\<lparr>fd_pos := fd_pos (fd_table s ! i) + of_nat ?m\<rparr>] else fd_table s"
  have "sys_read k f s = Some (Iret (f\<lparr>f_rax := of_nat ?m\<rparr>)
      (s\<lparr>k_fs := u, mem := mem_put (f_rsi f) (copy_into 0 bs ?dst) (mem s), fd_table := ?tab\<rparr>))"
    using f i c from_fd_slot[OF i(1,2)] by (simp add: sys_read_def buf j n(1,2) u(1) iret_def put_buf_def)
  then show thesis using that[where u = u and tab = ?tab] n(3) i(2) j fd_table_wfD(1)[OF Tab] i(1)
    by (auto simp: nth_list_update fd_used_def)
qed

end

text \<open>
  Descriptors 1 and 2 are handed out like the others, but writing to them prints on the console. So with one
  file open, the next file opened gets descriptor 1, and no write to it ever reaches the file.
\<close>

lemma second_file_unwritable:
  assumes D: "disk_driver k view ok" and inv: "sys_inv view ok s" and "fd_used (fd_table s ! 0)" and "\<not> fd_used (fd_table s ! 1)"
    and run: "sys_open k f s = Some (Iret f' s')" and "f_rax f' \<noteq> - 1"
    and p: "user_string (mem s) (f_rdi f) = Some p" "f_rdi f \<noteq> 0"
    and w: "sys_write k g s' = Some r" and g: "f_rdi g = f_rax f'"
  shows "f_rax f' = 1 \<and> k_fs (result_state r) = k_fs s'"
proof (cases rule: disk_driver.sys_open_run[OF D inv p])
  case (1 u)
  then show ?thesis using run assms(6) by simp
next
  case (2 n i j u t')
  have "\<not> i < 1" using 2(3) assms(3) by (cases i) auto
  moreover have "\<not> 1 < i" using 2(4) assms(4) by auto
  ultimately have "i = 1" by simp
  then have "f_rax f' = 1" using 2(1) run by simp
  then show ?thesis using w g by (auto simp: sys_write_def bind_eq_Some_conv)
qed

end
