(* ===== verification/Irq.thy ===== *)
theory Irq
  imports Syscall Kbd
begin

text \<open>
  The handlers of \<^verbatim>\<open>kernel/irq.c\<close> for the timer and the keyboard, behind the dispatcher of \<^verbatim>\<open>kernel/interrupt.c\<close>, and
  what the processor does in \<^verbatim>\<open>hlt\<close>: it serves the next event of the hardware. The events to come, in the order in
  which they reach the processor, are part of the state; a machine to which nothing happens any more never wakes up.

  The theory shows that the sleep system call returns, after exactly the ticks it was asked to wait, with the
  keys typed meanwhile in the keyboard buffer.
\<close>

section \<open>Handlers\<close>

text \<open>A tick of the timer, or a byte from the keyboard.\<close>

datatype hw_event = Tick | Key u8

record 'd machine = "'d kern" +
  k_kbd :: kbd
  pending :: "hw_event list"

definition timer_handler :: "frame \<Rightarrow> ('d, 'b) kern_scheme \<Rightarrow> ('d, 'b) kern_scheme isr_result option" where
  "timer_handler f s =
     (let s = s\<lparr>timer_ticks := timer_ticks s + 1\<rparr>;
          s = s\<lparr>k_proc := scheduler_tick (k_proc s)\<rparr>
      in Some (Iret f (port_out 0x20 0x20 s)))"

text \<open>\<open>scancode\<close> is the byte the handler reads from port 0x60.\<close>

definition keyboard_handler :: "u8 \<Rightarrow> frame \<Rightarrow> 'd machine \<Rightarrow> 'd machine isr_result option" where
  "keyboard_handler scancode f s =
     map_option (\<lambda>b. Iret f (s\<lparr>k_kbd := b\<rparr>)) (keyboard_irq_handler scancode (k_kbd s))"

text \<open>The handlers that hardware lines reach.\<close>

definition irq_call :: "u8 \<Rightarrow> handler \<Rightarrow> frame \<Rightarrow> 'd machine \<Rightarrow> 'd machine isr_result option" where
  "irq_call scancode h f s =
     (case h of Timer_handler \<Rightarrow> timer_handler f s
      | Keyboard_handler \<Rightarrow> keyboard_handler scancode f s
      | Syscall_handler \<Rightarrow> None)"

definition serve :: "hw_event \<Rightarrow> 'd machine \<Rightarrow> 'd machine option" where
  "serve ev s =
     (let (vector, sc) = (case ev of Tick \<Rightarrow> (0x20, 0) | Key b \<Rightarrow> (0x21, b))
      in case isr_handler (irq_call sc) 0 (blank_frame\<lparr>int_no := vector\<rparr>) s of
           Some (Iret f s') \<Rightarrow> Some s'
         | _ \<Rightarrow> None)"

definition hlt :: "'d machine \<Rightarrow> 'd machine option" where
  "hlt s = (case pending s of [] \<Rightarrow> None | ev # evs \<Rightarrow> serve ev (s\<lparr>pending := evs\<rparr>))"

section \<open>Waiting\<close>

definition handlers_set :: "'a intr_scheme \<Rightarrow> bool" where
  "handlers_set s \<longleftrightarrow> isr_handlers s ! 0x20 = Some Timer_handler \<and> isr_handlers s ! 0x21 = Some Keyboard_handler"

lemma serve_tick:
  assumes "handlers_set s"
  shows "serve Tick s = Some (port_out 0x20 0x20 (s\<lparr>timer_ticks := timer_ticks s + 1, k_proc := scheduler_tick (k_proc s)\<rparr>))"
  using assms by (simp add: serve_def isr_handler_def irq_call_def timer_handler_def handlers_set_def Let_def)

lemma serve_key:
  assumes "handlers_set s" and "keyboard_irq_handler b (k_kbd s) = Some t"
  shows "serve (Key b) s = Some (s\<lparr>k_kbd := t\<rparr>)"
  using assms by (simp add: serve_def isr_handler_def irq_call_def keyboard_handler_def handlers_set_def Let_def)

definition ticks_of :: "hw_event list \<Rightarrow> nat" where
  "ticks_of evs = length (filter (\<lambda>ev. ev = Tick) evs)"

primrec bytes_of :: "hw_event list \<Rightarrow> u8 list" where
  "bytes_of [] = []"
| "bytes_of (ev # evs) = (case ev of Tick \<Rightarrow> bytes_of evs | Key b \<Rightarrow> b # bytes_of evs)"

lemma ticks_of_simps [simp]: "ticks_of [] = 0" "ticks_of (Tick # evs) = Suc (ticks_of evs)" "ticks_of (Key b # evs) = ticks_of evs"
  by (simp_all add: ticks_of_def)

text \<open>
  What a machine has done when it has served the events \<open>evs\<close>: counted and acknowledged the ticks and taken in
  the bytes from the keyboard.
\<close>

definition served :: "hw_event list \<Rightarrow> 'd machine \<Rightarrow> 'd machine \<Rightarrow> bool" where
  "served evs s s' \<longleftrightarrow> timer_ticks s' = timer_ticks s + of_nat (ticks_of evs) \<and> feed (bytes_of evs) (k_kbd s) = Some (k_kbd s') \<and>
     out_log s' = out_log s @ replicate (ticks_of evs) (0x20, 0x20) \<and> pending s = evs @ pending s' \<and>
     k_fs s' = k_fs s \<and> fd_table s' = fd_table s \<and> mem s' = mem s \<and> con s' = con s \<and> isr_handlers s' = isr_handlers s"

lemma served_refl: "served [] s s"
  by (simp add: served_def)

lemma hlt_serves:
  assumes "handlers_set s" and "pending s = ev # evs"
  obtains s' where "hlt s = Some s'" and "\<And>es u. served es s' u \<Longrightarrow> served (ev # es) s u" and "handlers_set s'" and "pending s' = evs"
    and "timer_ticks s' = timer_ticks s + (if ev = Tick then 1 else 0)"
proof (cases ev)
  case Tick
  let ?s = "port_out 0x20 0x20 (s\<lparr>pending := evs, timer_ticks := timer_ticks s + 1, k_proc := scheduler_tick (k_proc s)\<rparr>)"
  have "handlers_set (s\<lparr>pending := evs\<rparr>)" using assms(1) by (simp add: handlers_set_def)
  then have "hlt s = Some ?s" using serve_tick[of "s\<lparr>pending := evs\<rparr>"] assms(2) Tick by (simp add: hlt_def)
  then show thesis
    by (rule that) (use assms Tick in \<open>auto simp: served_def port_out_def handlers_set_def\<close>)
next
  case (Key b)
  obtain t where t: "keyboard_irq_handler b (k_kbd s) = Some t" by (simp add: handler_step Let_def)
  have "handlers_set (s\<lparr>pending := evs\<rparr>)" using assms(1) by (simp add: handlers_set_def)
  then have "hlt s = Some (s\<lparr>pending := evs, k_kbd := t\<rparr>)" using serve_key[of "s\<lparr>pending := evs\<rparr>" b t] t assms(2) Key by (simp add: hlt_def)
  then show thesis
    by (rule that) (use assms Key t in \<open>auto simp: served_def handlers_set_def\<close>)
qed

lemma sleep_until_wakes:
  assumes "handlers_set s" and "unat (timer_ticks s) + n = unat target" and "n \<le> ticks_of (pending s)"
  shows "\<exists>evs s'. sleep_until hlt target s = Some s' \<and> served evs s s' \<and> ticks_of evs = n \<and> (evs \<noteq> [] \<longrightarrow> last evs = Tick)"
  using assms
proof (induction "pending s" arbitrary: s n)
  case Nil
  then have "n = 0" by simp
  then have "\<not> timer_ticks s < target" using Nil by (simp add: word_less_nat_alt)
  then have "sleep_until hlt target s = Some s" by (subst sleep_until.simps) simp
  then show ?case using served_refl \<open>n = 0\<close> by (intro exI[of _ "[]"] exI[of _ s]) simp
next
  case (Cons ev P)
  show ?case
  proof (cases n)
    case 0
    then have "\<not> timer_ticks s < target" using Cons.prems by (simp add: word_less_nat_alt)
    then have "sleep_until hlt target s = Some s" by (subst sleep_until.simps) simp
    then show ?thesis using served_refl 0 by (intro exI[of _ "[]"] exI[of _ s]) simp
  next
    case (Suc k)
    have lt: "timer_ticks s < target" using Cons.prems(2) Suc by (simp add: word_less_nat_alt)
    obtain s1 where s1: "hlt s = Some s1" "\<And>es u. served es s1 u \<Longrightarrow> served (ev # es) s u" "handlers_set s1" "pending s1 = P"
        "timer_ticks s1 = timer_ticks s + (if ev = Tick then 1 else 0)"
      using hlt_serves[OF Cons.prems(1) Cons.hyps(2)[symmetric]] by metis
    define m where "m = (if ev = Tick then k else n)"
    have "unat (timer_ticks s1) = unat (timer_ticks s) + (if ev = Tick then 1 else 0)"
      using s1(5) unat_Suc_less[OF lt] by (auto simp: add.commute)
    then have u: "unat (timer_ticks s1) + m = unat target" using Cons.prems(2) Suc by (simp add: m_def)
    have "ticks_of (pending s) = (if ev = Tick then 1 else 0) + ticks_of P" unfolding Cons.hyps(2)[symmetric] by (cases ev) simp_all
    then have "m \<le> ticks_of (pending s1)" using Cons.prems(3) Suc s1(4) by (simp add: m_def split: if_splits)
    then obtain evs s' where r: "sleep_until hlt target s1 = Some s'" "served evs s1 s'" "ticks_of evs = m" "evs \<noteq> [] \<longrightarrow> last evs = Tick"
      using Cons.hyps(1)[OF s1(4)[symmetric] s1(3) u] by blast
    have "sleep_until hlt target s = Some s'" using lt s1(1) r(1) by (subst sleep_until.simps) simp
    moreover have "ticks_of (ev # evs) = n" using r(3) Suc by (cases ev) (simp_all add: m_def)
    moreover have "last (ev # evs) = Tick" using r(3,4) Suc by (cases "evs = []") (auto simp: m_def split: if_splits)
    ultimately show ?thesis using s1(2)[OF r(2)] by (intro exI[of _ "ev # evs"] exI[of _ s']) simp
  qed
qed


definition blank_machine :: "hw_event list \<Rightarrow> sectors machine" where
  "blank_machine evs = kern.extend (kern.truncate (syscall_init blank_kern)) (machine.fields blank_kbd evs)"


text \<open>Serving a byte from the keyboard writes to no port: the controller is not told that the interrupt is over.\<close>

lemma keyboard_interrupt_not_acknowledged:
  assumes "handlers_set s" and "serve (Key b) s = Some s'"
  shows "out_log s' = out_log s"
proof -
  obtain t where "keyboard_irq_handler b (k_kbd s) = Some t" by (simp add: handler_step Let_def)
  then show ?thesis using assms serve_key[OF assms(1), of b t] by auto
qed

end
