(* ===== verification/Editor.thy ===== *)
theory Editor
  imports Syscall Kbd
begin

text \<open>
  The text editor, \<^verbatim>\<open>editor/editor.c\<close> and \<^verbatim>\<open>editor/editor.h\<close>. The static variables of the file are a record; strings
  are lists of bytes without the terminating NUL. The editor reaches files through system calls, for which
  its arrays stand at given addresses of the memory the calls see, and writes to the video memory directly.
  Keys come as a list of key codes with the modifiers held when each is read; a program that has used up the
  list is waiting for the next key.

  The theories \<^verbatim>\<open>Editor_Text\<close>, \<^verbatim>\<open>Editor_Screen\<close> and \<^verbatim>\<open>Editor_Files\<close> show what it does to the text, the screen and the files.
\<close>

section \<open>State\<close>

abbreviation (input) EDITOR_BUFFER_SIZE :: nat where "EDITOR_BUFFER_SIZE \<equiv> 8192"
abbreviation (input) EDITOR_FILENAME_MAX :: nat where "EDITOR_FILENAME_MAX \<equiv> 64"
abbreviation (input) EDITOR_CMD_MAX :: nat where "EDITOR_CMD_MAX \<equiv> 64"
abbreviation (input) EDITOR_SCREEN_COLS :: nat where "EDITOR_SCREEN_COLS \<equiv> 80"
abbreviation (input) EDITOR_SCREEN_ROWS :: nat where "EDITOR_SCREEN_ROWS \<equiv> 25"
abbreviation (input) EDITOR_TEXT_ROWS :: nat where "EDITOR_TEXT_ROWS \<equiv> 24"
abbreviation (input) EDITOR_STATUS_ROW :: nat where "EDITOR_STATUS_ROW \<equiv> 24"
abbreviation (input) KBD_MOD_LCTRL :: u8 where "KBD_MOD_LCTRL \<equiv> 0x01"
abbreviation (input) KBD_MOD_RCTRL :: u8 where "KBD_MOD_RCTRL \<equiv> 0x10"
abbreviation (input) NEWLINE :: u8 where "NEWLINE \<equiv> 0x0A"

record editor =
  g_buf :: "u8 list"
  g_len :: nat
  g_cursor :: nat
  g_view_off :: nat
  g_path :: "u8 list"
  g_dirty :: bool
  g_status_msg :: "u8 list"

section \<open>Strings and blocks of bytes\<close>

definition ed_strcmp :: "u8 list \<Rightarrow> u8 list \<Rightarrow> int" where
  "ed_strcmp a b = fs_strcmp a b"

definition ed_strcpy_n :: "u8 list option \<Rightarrow> nat \<Rightarrow> u8 list" where
  "ed_strcpy_n src cap = (case src of None \<Rightarrow> [] | Some s \<Rightarrow> take (cap - 1) s)"

definition ed_memmove :: "nat \<Rightarrow> nat \<Rightarrow> nat \<Rightarrow> u8 list \<Rightarrow> u8 list" where
  "ed_memmove dst src n buf =
     (if dst = src \<or> n = 0 then buf
      else if dst < src then fold (\<lambda>i b. b[dst + i := b ! (src + i)]) [0..<n] buf
      else fold (\<lambda>i b. b[dst + i := b ! (src + i)]) (rev [0..<n]) buf)"

section \<open>The screen\<close>

definition ed_vga_put :: "nat \<Rightarrow> nat \<Rightarrow> u8 \<Rightarrow> u8 \<Rightarrow> console \<Rightarrow> console" where
  "ed_vga_put row col c attr cn =
     (if row \<ge> EDITOR_SCREEN_ROWS \<or> col \<ge> EDITOR_SCREEN_COLS then cn
      else cn\<lparr>vga := (vga cn)(row * EDITOR_SCREEN_COLS + col := ucast c OR push_bit 8 (ucast attr))\<rparr>)"

definition ed_clear_row :: "nat \<Rightarrow> u8 \<Rightarrow> console \<Rightarrow> console" where
  "ed_clear_row row attr cn = fold (\<lambda>col. ed_vga_put row col 0x20 attr) [0..<EDITOR_SCREEN_COLS] cn"

definition text_attr :: u8 where
  "text_attr = color_code VGA_WHITE OR push_bit 4 (color_code VGA_BLACK)"

definition ed_clear_text_area :: "console \<Rightarrow> console" where
  "ed_clear_text_area cn = fold (\<lambda>r. ed_clear_row r text_attr) [0..<EDITOR_TEXT_ROWS] cn"

section \<open>Lines\<close>

primrec ed_line_start :: "u8 list \<Rightarrow> nat \<Rightarrow> nat" where
  "ed_line_start buf 0 = 0"
| "ed_line_start buf (Suc off) = (if buf ! off \<noteq> NEWLINE then ed_line_start buf off else Suc off)"

function ed_line_end :: "u8 list \<Rightarrow> nat \<Rightarrow> nat \<Rightarrow> nat" where
  "ed_line_end buf len off = (if off < len \<and> buf ! off \<noteq> NEWLINE then ed_line_end buf len (Suc off) else off)"
  by pat_completeness auto
termination by (relation "measure (\<lambda>(buf, len, off). len - off)") auto

declare ed_line_end.simps [simp del]

definition ed_prev_line :: "u8 list \<Rightarrow> nat \<Rightarrow> nat" where
  "ed_prev_line buf off =
     (let start = ed_line_start buf off in if start = 0 then 0 else ed_line_start buf (start - 1))"

definition ed_next_line :: "u8 list \<Rightarrow> nat \<Rightarrow> nat \<Rightarrow> nat" where
  "ed_next_line buf len off = (let e = ed_line_end buf len off in if e \<ge> len then len else e + 1)"

definition ed_col_at :: "u8 list \<Rightarrow> nat \<Rightarrow> nat" where
  "ed_col_at buf off = off - ed_line_start buf off"

function screen_row_loop :: "u8 list \<Rightarrow> nat \<Rightarrow> nat \<Rightarrow> nat \<Rightarrow> int" where
  "screen_row_loop buf off i row =
     (if i < off then
        let row' = (if buf ! i = NEWLINE then row + 1 else row)
        in if row' \<ge> EDITOR_TEXT_ROWS then int EDITOR_TEXT_ROWS else screen_row_loop buf off (i + 1) row'
      else int row)"
  by pat_completeness auto
termination by (relation "measure (\<lambda>(buf, off, i, row). off - i)") auto

declare screen_row_loop.simps [simp del]

definition ed_screen_row :: "u8 list \<Rightarrow> nat \<Rightarrow> nat \<Rightarrow> int" where
  "ed_screen_row buf view_off off = (if off < view_off then - 1 else screen_row_loop buf off view_off 0)"

section \<open>Drawing\<close>

definition ed_set_status :: "u8 list \<Rightarrow> editor \<Rightarrow> editor" where
  "ed_set_status msg e = e\<lparr>g_status_msg := ed_strcpy_n (Some msg) 80\<rparr>"

definition put_str :: "nat \<Rightarrow> u8 list \<Rightarrow> u8 \<Rightarrow> console \<Rightarrow> console" where
  "put_str col s attr cn = fold (\<lambda>i. ed_vga_put EDITOR_STATUS_ROW (col + i) (s ! i) attr) [0..<length s] cn"

definition ed_draw_status_bar :: "editor \<Rightarrow> console \<Rightarrow> console" where
  "ed_draw_status_bar e cn =
     (let attr = color_code VGA_BLACK OR push_bit 4 (color_code VGA_LIGHT_GREY);
          cn = ed_clear_row EDITOR_STATUS_ROW attr cn;
          name = (if g_path e = [] then ascii ''[no-name]'' else g_path e);
          shown = take (EDITOR_SCREEN_COLS - 1) name;
          cn = put_str 1 shown attr cn;
          col = 1 + length shown;
          cn = (if g_dirty e \<and> col + 4 < EDITOR_SCREEN_COLS then put_str col (ascii '' [+]'') attr cn else cn);
          hint = ascii ''^S save ^X exit ESC cmd'';
          hlen = length hint;
          hcol = (if EDITOR_SCREEN_COLS > hlen + 1 then EDITOR_SCREEN_COLS - hlen - 1 else 0);
          cn = put_str hcol hint attr cn
      in if g_status_msg e \<noteq> [] then
           let mlen = length (g_status_msg e);
               mcol = (if EDITOR_SCREEN_COLS > mlen + 1 then EDITOR_SCREEN_COLS - mlen - 1 else 0);
               cn = put_str mcol (replicate (EDITOR_SCREEN_COLS - mcol - 1) 0x20) attr cn
           in put_str mcol (g_status_msg e) attr cn
         else cn)"

function render_loop :: "u8 list \<Rightarrow> nat \<Rightarrow> nat \<Rightarrow> nat \<Rightarrow> nat \<Rightarrow> console \<Rightarrow> console" where
  "render_loop buf len i row col cn =
     (if i < len \<and> row < EDITOR_TEXT_ROWS then
        if buf ! i = NEWLINE then render_loop buf len (i + 1) (row + 1) 0 cn
        else if col < EDITOR_SCREEN_COLS
        then render_loop buf len (i + 1) row (col + 1) (ed_vga_put row col (buf ! i) text_attr cn)
        else render_loop buf len (i + 1) row col cn
      else cn)"
  by pat_completeness auto
termination by (relation "measure (\<lambda>(buf, len, i, row, col, cn). len - i)") auto

declare render_loop.simps [simp del]

definition ed_render :: "editor \<Rightarrow> console \<Rightarrow> console" where
  "ed_render e cn =
     (let cn = ed_clear_text_area cn;
          cn = render_loop (g_buf e) (g_len e) (g_view_off e) 0 0 cn;
          cn = ed_draw_status_bar e cn;
          srow = ed_screen_row (g_buf e) (g_view_off e) (g_cursor e);
          scol = ed_col_at (g_buf e) (g_cursor e);
          scol = (if scol \<ge> EDITOR_SCREEN_COLS then EDITOR_SCREEN_COLS - 1 else scol);
          srow = (if srow < 0 then 0 else srow);
          srow = (if srow \<ge> int EDITOR_TEXT_ROWS then int EDITOR_TEXT_ROWS - 1 else srow)
      in console_set_cursor (nat srow) scol cn)"

section \<open>Scrolling\<close>

text \<open>The two loops of \<open>ed_scroll_into_view\<close>. What makes them end is needed for their definition.\<close>

lemma ed_line_start_le: "ed_line_start buf off \<le> off"
  by (induction off) auto

lemma ed_prev_line_less: "0 < off \<Longrightarrow> ed_prev_line buf off < off"
  using ed_line_start_le[of buf off] ed_line_start_le[of buf "ed_line_start buf off - 1"] by (auto simp: ed_prev_line_def Let_def)

lemma ed_line_end_ge: "off \<le> ed_line_end buf len off"
  by (induction buf len off rule: ed_line_end.induct) (subst ed_line_end.simps, force)

lemma ed_next_line_greater: "ed_next_line buf len off < len \<Longrightarrow> off < ed_next_line buf len off"
  using ed_line_end_ge[of off buf len] by (auto simp: ed_next_line_def Let_def split: if_splits)

function scroll_up_loop :: "u8 list \<Rightarrow> nat \<Rightarrow> nat \<Rightarrow> nat" where
  "scroll_up_loop buf cursor view_off =
     (if cursor < view_off then scroll_up_loop buf cursor (ed_prev_line buf view_off) else view_off)"
  by pat_completeness auto
termination by (relation "measure (\<lambda>(buf, cursor, view_off). view_off)") (auto intro: ed_prev_line_less)

function scroll_down_loop :: "u8 list \<Rightarrow> nat \<Rightarrow> nat \<Rightarrow> nat \<Rightarrow> nat" where
  "scroll_down_loop buf len cursor view_off =
     (if ed_screen_row buf view_off cursor \<ge> int EDITOR_TEXT_ROWS then
        let v = ed_next_line buf len view_off
        in if v \<ge> len then v else scroll_down_loop buf len cursor v
      else view_off)"
  by pat_completeness auto
termination
  by (relation "measure (\<lambda>(buf, len, cursor, view_off). len - view_off)")
    (auto simp: not_le intro!: diff_less_mono2 ed_next_line_greater intro: less_trans[OF ed_next_line_greater])

declare scroll_up_loop.simps [simp del] scroll_down_loop.simps [simp del]

definition ed_scroll_into_view :: "editor \<Rightarrow> editor" where
  "ed_scroll_into_view e =
     (let v = scroll_up_loop (g_buf e) (g_cursor e) (g_view_off e)
      in e\<lparr>g_view_off := scroll_down_loop (g_buf e) (g_len e) (g_cursor e) v\<rparr>)"

section \<open>Editing\<close>

definition ed_insert_char :: "u8 \<Rightarrow> editor \<Rightarrow> editor" where
  "ed_insert_char c e =
     (if g_len e + 1 \<ge> EDITOR_BUFFER_SIZE then ed_set_status (ascii ''buffer full'') e
      else e\<lparr>g_buf := (ed_memmove (g_cursor e + 1) (g_cursor e) (g_len e - g_cursor e) (g_buf e))[g_cursor e := c],
             g_len := g_len e + 1, g_cursor := g_cursor e + 1, g_dirty := True\<rparr>)"

definition ed_delete_before :: "editor \<Rightarrow> editor" where
  "ed_delete_before e =
     (if g_cursor e = 0 then e
      else e\<lparr>g_buf := ed_memmove (g_cursor e - 1) (g_cursor e) (g_len e - g_cursor e) (g_buf e),
             g_len := g_len e - 1, g_cursor := g_cursor e - 1, g_dirty := True\<rparr>)"

definition ed_move_left :: "editor \<Rightarrow> editor" where
  "ed_move_left e = (if g_cursor e > 0 then e\<lparr>g_cursor := g_cursor e - 1\<rparr> else e)"

definition ed_move_right :: "editor \<Rightarrow> editor" where
  "ed_move_right e = (if g_cursor e < g_len e then e\<lparr>g_cursor := g_cursor e + 1\<rparr> else e)"

definition ed_move_up :: "editor \<Rightarrow> editor" where
  "ed_move_up e =
     (let col = ed_col_at (g_buf e) (g_cursor e);
          prev = ed_prev_line (g_buf e) (g_cursor e)
      in if prev = ed_line_start (g_buf e) (g_cursor e) then e
         else let prev_len = ed_line_end (g_buf e) (g_len e) prev - prev
              in e\<lparr>g_cursor := prev + (if col < prev_len then col else prev_len)\<rparr>)"

definition ed_move_down :: "editor \<Rightarrow> editor" where
  "ed_move_down e =
     (let col = ed_col_at (g_buf e) (g_cursor e);
          nxt = ed_next_line (g_buf e) (g_len e) (g_cursor e)
      in if nxt \<ge> g_len e then
           let last_end = ed_line_end (g_buf e) (g_len e) (g_cursor e);
               last_len = last_end - ed_line_start (g_buf e) (g_cursor e)
           in e\<lparr>g_cursor := (if col < last_len then ed_line_start (g_buf e) (g_cursor e) + col else last_end)\<rparr>
         else let next_len = ed_line_end (g_buf e) (g_len e) nxt - nxt
              in e\<lparr>g_cursor := nxt + (if col < next_len then col else next_len)\<rparr>)"

section \<open>Files\<close>

text \<open>
  \<open>int $0x80\<close> with the arguments in registers. The other registers are those of \<^term>\<open>blank_frame\<close>; the
  handler does not read them. \<open>env\<close> holds what the calls need besides the state: the disk driver, what happens
  during \<^verbatim>\<open>hlt\<close>, the return address in \<open>process_exit\<close>, and the addresses of \<open>g_buf\<close> and \<open>g_path\<close>.
\<close>

record 'd ed_env =
  e_drv :: "'d driver"
  e_hlt :: "'d kern \<Rightarrow> 'd kern option"
  e_ra :: u64
  a_buf :: u64
  a_path :: u64

definition ed_syscall3 :: "'d ed_env \<Rightarrow> u64 \<Rightarrow> u64 \<Rightarrow> u64 \<Rightarrow> u64 \<Rightarrow> 'd kern \<Rightarrow> (u64 \<times> 'd kern) option" where
  "ed_syscall3 env num a1 a2 a3 s =
     (case syscall_handler (e_drv env) (e_hlt env) (e_ra env)
             (blank_frame\<lparr>int_no := 0x80, f_rax := num, f_rdi := a1, f_rsi := a2, f_rdx := a3\<rparr>) s of
        Some (Iret f s') \<Rightarrow> Some (f_rax f, s')
      | _ \<Rightarrow> None)"

definition ed_sys_open :: "'d ed_env \<Rightarrow> u64 \<Rightarrow> int \<Rightarrow> 'd kern \<Rightarrow> (int \<times> 'd kern) option" where
  "ed_sys_open env path flags s = map_option (apfst int_arg) (ed_syscall3 env SYS_open path (word_of_int flags) 0 s)"

definition ed_sys_read :: "'d ed_env \<Rightarrow> int \<Rightarrow> u64 \<Rightarrow> nat \<Rightarrow> 'd kern \<Rightarrow> (int \<times> 'd kern) option" where
  "ed_sys_read env fd buf n s = map_option (apfst int_arg) (ed_syscall3 env SYS_read (word_of_int fd) buf (of_nat n) s)"

definition ed_sys_write :: "'d ed_env \<Rightarrow> int \<Rightarrow> u64 \<Rightarrow> nat \<Rightarrow> 'd kern \<Rightarrow> (int \<times> 'd kern) option" where
  "ed_sys_write env fd buf n s = map_option (apfst int_arg) (ed_syscall3 env SYS_write (word_of_int fd) buf (of_nat n) s)"

definition ed_sys_close :: "'d ed_env \<Rightarrow> int \<Rightarrow> 'd kern \<Rightarrow> 'd kern option" where
  "ed_sys_close env fd s = map_option snd (ed_syscall3 env SYS_close (word_of_int fd) 0 0 s)"

text \<open>The arrays of the editor are part of the memory that system calls see.\<close>

definition share :: "'d ed_env \<Rightarrow> editor \<Rightarrow> 'd kern \<Rightarrow> 'd kern" where
  "share env e s = s\<lparr>mem := mem_put (a_path env) (g_path e @ [0]) (mem_put (a_buf env) (g_buf e) (mem s))\<rparr>"

definition ed_load_file :: "'d ed_env \<Rightarrow> editor \<times> 'd kern \<Rightarrow> (editor \<times> 'd kern) option" where
  "ed_load_file env = (\<lambda>(e, s).
     let e = e\<lparr>g_len := 0, g_cursor := 0, g_view_off := 0, g_dirty := False\<rparr>
     in if g_path e = [] then Some (ed_set_status (ascii ''new file'') e, s)
        else Option.bind (ed_sys_open env (a_path env) 0 (share env e s)) (\<lambda>(fd, s).
          if fd < 0 then Some (ed_set_status (ascii ''new file'') e, s)
          else Option.bind (ed_sys_read env fd (a_buf env) (EDITOR_BUFFER_SIZE - 1) s) (\<lambda>(n, s).
            Option.bind (ed_sys_close env fd s) (\<lambda>s.
              let e = e\<lparr>g_buf := mem_get (mem s) (a_buf env) EDITOR_BUFFER_SIZE\<rparr>;
                  e = (if n > 0 then e\<lparr>g_len := nat n\<rparr> else e)
              in Some (ed_set_status (ascii ''loaded'') e, s)))))"

definition ed_save_file :: "'d ed_env \<Rightarrow> editor \<times> 'd kern \<Rightarrow> (editor \<times> 'd kern) option" where
  "ed_save_file env = (\<lambda>(e, s).
     if g_path e = [] then Some (ed_set_status (ascii ''no filename '' @ [0xE2, 0x80, 0x94] @ ascii '' use :w <name>'') e, s)
     else Option.bind (ed_sys_open env (a_path env) (uint (ARESFS_O_WRONLY OR ARESFS_O_CREAT OR ARESFS_O_TRUNC)) (share env e s)) (\<lambda>(fd, s).
       if fd < 0 then Some (ed_set_status (ascii ''save failed (open)'') e, s)
       else Option.bind (ed_sys_write env fd (a_buf env) (g_len e) s) (\<lambda>(n, s).
         Option.bind (ed_sys_close env fd s) (\<lambda>s.
           if n < 0 \<or> nat n \<noteq> g_len e then Some (ed_set_status (ascii ''save failed (write)'') e, s)
           else Some (ed_set_status (ascii ''saved'') (e\<lparr>g_dirty := False\<rparr>), s)))))"

section \<open>Commands and the main loop\<close>

text \<open>
  A key and the modifiers held when it is read. A part of the program that reads keys is \<open>Waiting\<close> when they are
  used up, has \<open>Done\<close> its work with some keys left, or is \<open>Stuck\<close> in a system call that does not return.
\<close>

type_synonym key = "u8 \<times> u8"

datatype 's ed_result = Waiting 's | Done "key list" 's | Stuck

text \<open>The loop of \<open>ed_read_command\<close>, with the command read so far. It ends with no command after escape.\<close>

fun read_command_loop :: "nat \<Rightarrow> u8 \<Rightarrow> u8 list \<Rightarrow> key list \<Rightarrow> console \<Rightarrow> (u8 list option \<times> console) ed_result" where
  "read_command_loop cap attr out [] cn = Waiting (None, cn)"
| "read_command_loop cap attr out ((c, mods) # keys) cn =
     (if c = 0 then read_command_loop cap attr out keys cn
      else if c = KEY_ENTER then Done keys (Some out, cn)
      else if c = KEY_ESC then Done keys (None, cn)
      else if c = KEY_BACKSPACE then
        if length out > 0 then
          read_command_loop cap attr (butlast out) keys
            (console_set_cursor EDITOR_STATUS_ROW (length out) (ed_vga_put EDITOR_STATUS_ROW (length out) 0x20 attr cn))
        else read_command_loop cap attr out keys cn
      else if c \<ge> 0x20 \<and> c < 0x7F \<and> length out + 1 < cap then
        read_command_loop cap attr (out @ [c]) keys
          (console_set_cursor EDITOR_STATUS_ROW (length out + 2) (ed_vga_put EDITOR_STATUS_ROW (length out + 1) c attr cn))
      else read_command_loop cap attr out keys cn)"

definition ed_read_command :: "nat \<Rightarrow> key list \<Rightarrow> console \<Rightarrow> (u8 list option \<times> console) ed_result" where
  "ed_read_command cap keys cn =
     (let attr = color_code VGA_WHITE OR push_bit 4 (color_code VGA_BLUE);
          cn = ed_clear_row EDITOR_STATUS_ROW attr cn;
          cn = ed_vga_put EDITOR_STATUS_ROW 0 0x3A attr cn;
          cn = console_set_cursor EDITOR_STATUS_ROW 1 cn
      in read_command_loop cap attr [] keys cn)"

text \<open>What a command does once it is read; the flag asks to leave the editor.\<close>

definition do_command :: "'d ed_env \<Rightarrow> u8 list \<Rightarrow> editor \<times> 'd kern \<Rightarrow> (bool \<times> editor \<times> 'd kern) option" where
  "do_command env cmd = (\<lambda>(e, s).
     if ed_strcmp cmd (ascii ''q'') = 0 then
       if g_dirty e then Some (False, ed_set_status (ascii ''unsaved changes '' @ [0xE2, 0x80, 0x94] @ ascii '' use :q! or :wq'') e, s)
       else Some (True, e, s)
     else if ed_strcmp cmd (ascii ''q!'') = 0 then Some (True, e, s)
     else if ed_strcmp cmd (ascii ''w'') = 0 then map_option (Pair False) (ed_save_file env (e, s))
     else if ed_strcmp cmd (ascii ''wq'') = 0 then
       map_option (\<lambda>(e, s). (\<not> g_dirty e, e, s)) (ed_save_file env (e, s))
     else if length cmd \<ge> 2 \<and> take 2 cmd = ascii ''w '' then
       map_option (Pair False) (ed_save_file env (e\<lparr>g_path := ed_strcpy_n (Some (drop 2 cmd)) EDITOR_FILENAME_MAX\<rparr>, s))
     else Some (False, ed_set_status (ascii ''unknown command'') e, s))"

definition ed_run_command :: "'d ed_env \<Rightarrow> key list \<Rightarrow> editor \<times> 'd kern \<Rightarrow> (bool \<times> editor \<times> 'd kern) ed_result" where
  "ed_run_command env keys = (\<lambda>(e, s).
     case ed_read_command EDITOR_CMD_MAX keys (con s) of
       Waiting (_, cn) \<Rightarrow> Waiting (False, e, s\<lparr>con := cn\<rparr>)
     | Done keys (cmd, cn) \<Rightarrow>
         if cmd = None \<or> cmd = Some [] then Done keys (False, e, s\<lparr>con := cn\<rparr>)
         else (case do_command env (the cmd) (e, s\<lparr>con := cn\<rparr>) of
                 None \<Rightarrow> Stuck
               | Some r \<Rightarrow> Done keys r)
     | Stuck \<Rightarrow> Stuck)"

definition edit_key :: "u8 \<Rightarrow> editor \<Rightarrow> editor" where
  "edit_key c e =
     (if c = KEY_UP then (ed_move_up e)\<lparr>g_status_msg := []\<rparr>
      else if c = KEY_DOWN then (ed_move_down e)\<lparr>g_status_msg := []\<rparr>
      else if c = KEY_LEFT then (ed_move_left e)\<lparr>g_status_msg := []\<rparr>
      else if c = KEY_RIGHT then (ed_move_right e)\<lparr>g_status_msg := []\<rparr>
      else if c = KEY_BACKSPACE then ed_delete_before e
      else if c = KEY_ENTER then ed_insert_char NEWLINE e
      else if c = KEY_TAB then ed_insert_char 0x20 (ed_insert_char 0x20 e)
      else if c \<ge> 0x20 \<and> c < 0x7F then ed_insert_char c e
      else e)"

definition refresh :: "editor \<times> 'd kern \<Rightarrow> editor \<times> 'd kern" where
  "refresh = (\<lambda>(e, s). let e = ed_scroll_into_view e in (e, s\<lparr>con := ed_render e (con s)\<rparr>))"

definition is_modifier_key :: "u8 \<Rightarrow> bool" where
  "is_modifier_key c \<longleftrightarrow>
     c = KEY_LCTRL \<or> c = KEY_RCTRL \<or> c = KEY_LSHIFT \<or> c = KEY_RSHIFT \<or> c = KEY_LALT \<or> c = KEY_RALT"

lemma read_command_loop_length: "read_command_loop cap attr out keys cn = Done keys' r \<Longrightarrow> length keys' < length keys"
  by (induction cap attr out keys cn rule: read_command_loop.induct) (auto split: if_splits)

lemma ed_run_command_length: "ed_run_command env keys es = Done keys' r \<Longrightarrow> length keys' < length keys"
  by (auto simp: ed_run_command_def ed_read_command_def Let_def split: option.splits if_splits prod.splits ed_result.splits
      dest: read_command_loop_length)

function (sequential) editor_loop :: "'d ed_env \<Rightarrow> key list \<Rightarrow> editor \<times> 'd kern \<Rightarrow> (editor \<times> 'd kern) ed_result" where
  "editor_loop env [] es = Waiting es"
| "editor_loop env ((c, mods) # keys) es =
     (let ctrl = mods AND (KBD_MOD_LCTRL OR KBD_MOD_RCTRL)
      in if c = 0 \<or> is_modifier_key c then editor_loop env keys es
         else if ctrl \<noteq> 0 \<and> (c = 0x73 \<or> c = 0x53) then
           case ed_save_file env es of None \<Rightarrow> Stuck | Some es \<Rightarrow> editor_loop env keys (refresh es)
         else if ctrl \<noteq> 0 \<and> (c = 0x78 \<or> c = 0x58) then Done keys (apsnd (on_con console_clear) es)
         else if c = KEY_ESC then
           case ed_run_command env keys es of
             Waiting (_, es) \<Rightarrow> Waiting es
           | Done keys' (leave, es) \<Rightarrow>
               if leave then Done keys' (apsnd (on_con console_clear) es) else editor_loop env keys' (refresh es)
           | Stuck \<Rightarrow> Stuck
         else editor_loop env keys (refresh (apfst (edit_key c) es)))"
  by pat_completeness auto
termination by (relation "measure (\<lambda>(env, keys, es). length keys)") (auto dest!: ed_run_command_length)

definition editor_open :: "'d ed_env \<Rightarrow> u8 list option \<Rightarrow> key list \<Rightarrow> editor \<times> 'd kern \<Rightarrow> (editor \<times> 'd kern) ed_result" where
  "editor_open env filename keys = (\<lambda>(e, s).
     case ed_load_file env (e\<lparr>g_path := ed_strcpy_n filename EDITOR_FILENAME_MAX, g_status_msg := []\<rparr>, s) of
       None \<Rightarrow> Stuck
     | Some (e, s) \<Rightarrow>
         let s = on_con console_clear s in editor_loop env keys (e, s\<lparr>con := ed_render e (con s)\<rparr>))"

end
