(* ===== verification/Editor_Text.thy ===== *)
theory Editor_Text
  imports Editor
begin

text \<open>
  The editor on the text: editing works on the text as on a list with a cursor, the arrow keys move by lines,
  scrolling leaves the cursor in view, and the screen shows the lines in view.
\<close>

section \<open>The lines of a text\<close>

fun lines :: "u8 list \<Rightarrow> u8 list list" where
  "lines [] = [[]]"
| "lines (x # xs) = (if x = NEWLINE then [] # lines xs else (x # hd (lines xs)) # tl (lines xs))"

definition unlines :: "u8 list list \<Rightarrow> u8 list" where
  "unlines ls = concat (map (\<lambda>l. l @ [NEWLINE]) ls)"

lemma unlines_simps [simp]: "unlines [] = []" "unlines (l # ls) = l @ NEWLINE # unlines ls" "unlines (ls @ ms) = unlines ls @ unlines ms"
  by (simp_all add: unlines_def)

lemma lines_not_Nil [simp]: "lines xs \<noteq> []"
  by (induction xs) auto

lemma lines_append: "lines (xs @ ys) = butlast (lines xs) @ (last (lines xs) @ hd (lines ys)) # tl (lines ys)"
proof (induction xs)
  case (Cons x xs)
  show ?case
  proof (cases "tl (lines xs)")
    case Nil
    then obtain l where l: "lines xs = [l]" by (cases "lines xs") auto
    show ?thesis using Cons by (simp add: l)
  next
    case (Cons m ms)
    then obtain l where l: "lines xs = l # m # ms" by (cases "lines xs") auto
    show ?thesis using Cons.IH by (simp add: l)
  qed
qed simp

lemma no_newline: "l \<in> set (lines xs) \<Longrightarrow> NEWLINE \<notin> set l"
proof (induction xs arbitrary: l)
  case (Cons x xs)
  have hd: "NEWLINE \<notin> set (hd (lines xs))" by (rule Cons.IH) simp
  have tl: "NEWLINE \<notin> set l" if "l \<in> set (tl (lines xs))" by (rule Cons.IH) (use that in \<open>auto dest: list.set_sel(2)[rotated]\<close>)
  show ?case using Cons.prems Cons.IH hd tl by (auto split: if_splits)
qed simp

lemma lines_join: "unlines (butlast (lines xs)) @ last (lines xs) = xs"
proof (induction xs)
  case (Cons x xs)
  then show ?case by (cases "lines xs"; cases "tl (lines xs)") auto
qed simp

lemma lines_line: "NEWLINE \<notin> set l \<Longrightarrow> lines l = [l]"
  by (induction l) auto

lemma lines_unlines:
  assumes "\<forall>l \<in> set ls. NEWLINE \<notin> set l" and "NEWLINE \<notin> set l"
  shows "lines (unlines ls @ l) = ls @ [l]"
  using assms
proof (induction ls)
  case (Cons m ms)
  have "lines (m @ NEWLINE # unlines ms @ l) = m # lines (unlines ms @ l)"
    using Cons.prems by (simp add: lines_append[of m] lines_line)
  then show ?case using Cons by simp
qed (simp add: lines_line)

text \<open>Row and column of a position, and the position of a column of a row.\<close>

definition row_of :: "u8 list \<Rightarrow> nat \<Rightarrow> nat" where
  "row_of t p = length (lines (take p t)) - 1"

definition col_of :: "u8 list \<Rightarrow> nat \<Rightarrow> nat" where
  "col_of t p = length (last (lines (take p t)))"

definition start_of :: "u8 list \<Rightarrow> nat \<Rightarrow> nat" where
  "start_of t r = length (unlines (take r (lines t)))"

definition pos_of :: "u8 list \<Rightarrow> nat \<Rightarrow> nat \<Rightarrow> nat" where
  "pos_of t r c = start_of t r + min c (length (lines t ! r))"

lemma lines_at:
  assumes "p \<le> length t"
  shows "row_of t p < length (lines t)" and "take (row_of t p) (lines t) = butlast (lines (take p t))"
    and "lines t ! row_of t p = last (lines (take p t)) @ hd (lines (drop p t))"
proof -
  have l: "lines t = butlast (lines (take p t)) @ (last (lines (take p t)) @ hd (lines (drop p t))) # tl (lines (drop p t))"
    using lines_append[of "take p t" "drop p t"] by simp
  show "row_of t p < length (lines t)" by (subst l) (simp add: row_of_def)
  show "take (row_of t p) (lines t) = butlast (lines (take p t))" by (subst l) (simp add: row_of_def)
  show "lines t ! row_of t p = last (lines (take p t)) @ hd (lines (drop p t))" by (subst l) (simp add: row_of_def nth_append)
qed

lemma start_of_row: "p \<le> length t \<Longrightarrow> start_of t (row_of t p) + col_of t p = p"
  using lines_join[of "take p t"] by (simp add: start_of_def col_of_def lines_at(2) flip: length_append)

lemma take_start:
  assumes "r < length (lines t)" and "c \<le> length (lines t ! r)"
  shows "take (start_of t r + c) t = unlines (take r (lines t)) @ take c (lines t ! r)" and "start_of t r + c \<le> length t"
proof -
  have d: "drop r (lines t) = lines t ! r # drop (Suc r) (lines t)" using assms(1) by (rule Cons_nth_drop_Suc[symmetric])
  have split: "\<exists>ys. t = unlines (take r (lines t)) @ lines t ! r @ ys"
  proof (cases "Suc r = length (lines t)")
    case True
    then have "butlast (lines t) = take r (lines t)" "last (lines t) = lines t ! r"
      by (simp_all add: butlast_conv_take last_conv_nth flip: True)
    then show ?thesis using lines_join[of t] by (intro exI[of _ "[]"]) simp
  next
    case False
    then have "butlast (lines t) = take r (lines t) @ lines t ! r # butlast (drop (Suc r) (lines t))"
      using assms(1) append_take_drop_id[of r "lines t"] d by (metis butlast.simps(2) butlast_append drop_eq_Nil Suc_leI le_antisym list.simps(3))
    then show ?thesis using lines_join[of t] by (metis append.assoc append_Cons unlines_simps(2,3))
  qed
  then obtain ys where ys: "t = unlines (take r (lines t)) @ lines t ! r @ ys" by blast
  show "take (start_of t r + c) t = unlines (take r (lines t)) @ take c (lines t ! r)"
    by (subst ys) (use assms(2) in \<open>simp add: start_of_def\<close>)
  show "start_of t r + c \<le> length t"
    using assms(2) arg_cong[OF ys, of length] by (simp add: start_of_def)
qed

lemma row_col_start:
  assumes "r < length (lines t)" and "c \<le> length (lines t ! r)"
  shows "row_of t (start_of t r + c) = r" and "col_of t (start_of t r + c) = c"
proof -
  have "NEWLINE \<notin> set (lines t ! r)" "\<forall>l \<in> set (take r (lines t)). NEWLINE \<notin> set l"
    using no_newline[OF nth_mem[OF assms(1)]] no_newline by (auto dest: in_set_takeD)
  then have "lines (take (start_of t r + c) t) = take r (lines t) @ [take c (lines t ! r)]"
    unfolding take_start(1)[OF assms] by (intro lines_unlines) (auto dest: in_set_takeD)
  then show "row_of t (start_of t r + c) = r" and "col_of t (start_of t r + c) = c"
    using assms by (simp_all add: row_of_def col_of_def)
qed

section \<open>The geometry of the buffer\<close>

lemma lines_snoc: "lines (xs @ [x]) = (if x = NEWLINE then lines xs @ [[]] else butlast (lines xs) @ [last (lines xs) @ [x]])"
  by (simp add: lines_append)

lemma ed_line_start_eq: "p \<le> length t \<Longrightarrow> ed_line_start t p = p - col_of t p"
proof (induction p)
  case (Suc p)
  have c: "col_of t (Suc p) = (if t ! p = NEWLINE then 0 else Suc (col_of t p))"
    using Suc.prems by (simp add: col_of_def take_Suc_conv_app_nth lines_snoc)
  show ?case using Suc by (simp add: c)
qed (simp add: col_of_def)

lemma ed_line_end_eq: "p \<le> length t \<Longrightarrow> ed_line_end t (length t) p = p + length (hd (lines (drop p t)))"
proof (induction t "length t" p rule: ed_line_end.induct)
  case (1 t p)
  show ?case
  proof (cases "p < length t")
    case True
    then have d: "drop p t = t ! p # drop (Suc p) t" by (simp add: Cons_nth_drop_Suc)
    show ?thesis using 1 True by (subst ed_line_end.simps) (simp add: d)
  next
    case False
    then show ?thesis using 1 by (subst ed_line_end.simps) simp
  qed
qed

lemma line_start_at: "p \<le> length t \<Longrightarrow> ed_line_start t p = start_of t (row_of t p)"
  using start_of_row[of p t] by (simp add: ed_line_start_eq)

lemma col_at: "p \<le> length t \<Longrightarrow> ed_col_at t p = col_of t p"
  using start_of_row[of p t] by (simp add: ed_col_at_def line_start_at)

lemma line_end_at: "p \<le> length t \<Longrightarrow> ed_line_end t (length t) p = start_of t (row_of t p) + length (lines t ! row_of t p)"
  using start_of_row[of p t] lines_at(3)[of p t] by (simp add: ed_line_end_eq col_of_def)

lemma start_of_Suc: "r < length (lines t) \<Longrightarrow> start_of t (Suc r) = start_of t r + length (lines t ! r) + 1"
  by (simp add: start_of_def take_Suc_conv_app_nth)

lemma start_of_last:
  assumes "Suc r = length (lines t)"
  shows "start_of t r + length (lines t ! r) = length t"
proof -
  have "butlast (lines t) = take r (lines t)" "last (lines t) = lines t ! r"
    by (simp_all add: butlast_conv_take last_conv_nth flip: assms)
  then show ?thesis using arg_cong[OF lines_join[of t], of length] by (simp add: start_of_def)
qed

lemma prev_line_at:
  assumes "p \<le> length t"
  shows "ed_prev_line t p = start_of t (row_of t p - 1)"
proof (cases "row_of t p")
  case 0
  then show ?thesis using assms by (simp add: ed_prev_line_def line_start_at start_of_def)
next
  case (Suc r)
  have r: "r < length (lines t)" using lines_at(1)[OF assms] Suc by simp
  have e: "start_of t (Suc r) - 1 = start_of t r + length (lines t ! r)" by (simp add: start_of_Suc[OF r])
  show ?thesis using assms take_start(2)[OF r order_refl] row_col_start(1)[OF r order_refl]
    by (simp add: ed_prev_line_def line_start_at Suc e start_of_Suc[OF r])
qed

lemma next_line_at:
  assumes "p \<le> length t"
  shows "ed_next_line t (length t) p = (if Suc (row_of t p) < length (lines t) then start_of t (Suc (row_of t p)) else length t)"
proof (cases "Suc (row_of t p) < length (lines t)")
  case True
  then have "start_of t (Suc (row_of t p)) \<le> length t" using take_start(2)[OF True, of 0] by simp
  then show ?thesis using True assms by (simp add: ed_next_line_def line_end_at start_of_Suc Let_def)
next
  case False
  then have "Suc (row_of t p) = length (lines t)" using lines_at(1)[OF assms] by simp
  then show ?thesis using start_of_last[of "row_of t p" t] assms by (simp add: ed_next_line_def line_end_at Let_def)
qed

text \<open>The buffer holds the text in its first \<open>g_len\<close> bytes; the rest does not matter.\<close>

definition text_of :: "editor \<Rightarrow> u8 list" where
  "text_of e = take (g_len e) (g_buf e)"

definition ed_ok :: "editor \<Rightarrow> bool" where
  "ed_ok e \<longleftrightarrow> length (g_buf e) = EDITOR_BUFFER_SIZE \<and> g_len e < EDITOR_BUFFER_SIZE \<and> g_cursor e \<le> g_len e"

lemma ed_line_start_take: "p \<le> n \<Longrightarrow> ed_line_start (take n buf) p = ed_line_start buf p"
  by (induction p) simp_all

lemma ed_line_end_take: "n \<le> length buf \<Longrightarrow> ed_line_end buf n p = ed_line_end (take n buf) n p"
proof (induction buf n p rule: ed_line_end.induct)
  case (1 buf n p)
  then show ?case by (subst (1 2) ed_line_end.simps) (cases "p < n"; simp)
qed

lemma geometry_text:
  assumes "ed_ok e" and "p \<le> g_len e"
  shows "ed_line_start (g_buf e) p = ed_line_start (text_of e) p" and "ed_col_at (g_buf e) p = ed_col_at (text_of e) p"
    and "ed_prev_line (g_buf e) p = ed_prev_line (text_of e) p"
    and "ed_line_end (g_buf e) (g_len e) p = ed_line_end (text_of e) (length (text_of e)) p"
    and "ed_next_line (g_buf e) (g_len e) p = ed_next_line (text_of e) (length (text_of e)) p"
proof -
  have len: "length (text_of e) = g_len e" using assms(1) by (simp add: text_of_def ed_ok_def)
  show s: "ed_line_start (g_buf e) p = ed_line_start (text_of e) p" by (simp add: text_of_def ed_line_start_take assms(2))
  then show "ed_col_at (g_buf e) p = ed_col_at (text_of e) p" by (simp add: ed_col_at_def)
  have "ed_line_start (g_buf e) (ed_line_start (text_of e) p - 1) = ed_line_start (text_of e) (ed_line_start (text_of e) p - 1)"
    unfolding text_of_def using ed_line_start_le[of "take (g_len e) (g_buf e)" p] assms(2) by (intro ed_line_start_take[symmetric]) simp
  then show "ed_prev_line (g_buf e) p = ed_prev_line (text_of e) p" by (simp add: ed_prev_line_def s Let_def)
  show t: "ed_line_end (g_buf e) (g_len e) p = ed_line_end (text_of e) (length (text_of e)) p"
    unfolding len using assms(1) ed_line_end_take[of "g_len e" "g_buf e" p] by (simp add: text_of_def ed_ok_def)
  then show "ed_next_line (g_buf e) (g_len e) p = ed_next_line (text_of e) (length (text_of e)) p"
    by (simp add: ed_next_line_def len Let_def)
qed

section \<open>Editing\<close>

lemma move_forward:
  assumes "d + n \<le> length buf" and "src + n \<le> length buf" and "d < src"
  shows "fold (\<lambda>i b. b[d + i := b ! (src + i)]) [0..<n] buf = copy_into d (seg src n buf) buf"
  using assms(1,2)
proof (induction n)
  case (Suc n)
  let ?b = "copy_into d (seg src n buf) buf"
  have "?b ! (src + n) = buf ! (src + n)" using Suc.prems assms(3) by (simp add: nth_copy_into)
  then show ?case using Suc assms(3)
    by (intro nth_equalityI) (auto simp: nth_copy_into nth_list_update)
qed (simp add: seg_def)

lemma move_backward:
  assumes "d + n \<le> length buf" and "src + n \<le> length buf" and "src < d" and "m \<le> n"
  shows "fold (\<lambda>i b. b[d + i := b ! (src + i)]) (rev [n - m..<n]) buf = copy_into (d + (n - m)) (seg (src + (n - m)) m buf) buf"
  using assms(4)
proof (induction m)
  case (Suc m)
  let ?k = "n - Suc m" and ?b = "copy_into (d + (n - m)) (seg (src + (n - m)) m buf) buf"
  have k: "[?k..<n] = ?k # [n - m..<n]" using Suc.prems by (simp add: upt_rec Suc_diff_Suc)
  have "?b ! (src + ?k) = buf ! (src + ?k)" using Suc.prems assms by (auto simp: nth_copy_into)
  then have "fold (\<lambda>i b. b[d + i := b ! (src + i)]) (rev [?k..<n]) buf = ?b[d + ?k := buf ! (src + ?k)]"
    using Suc by (simp add: k)
  also have "\<dots> = copy_into (d + ?k) (seg (src + ?k) (Suc m) buf) buf"
  proof (rule nth_equalityI)
    fix i assume "i < length (?b[d + ?k := buf ! (src + ?k)])"
    then have i: "i < length buf" using assms Suc.prems by simp
    show "?b[d + ?k := buf ! (src + ?k)] ! i = copy_into (d + ?k) (seg (src + ?k) (Suc m) buf) buf ! i"
      using assms Suc.prems i by (cases "i = d + ?k") (auto simp: nth_copy_into nth_list_update)
  qed (use assms Suc.prems in simp)
  finally show ?case .
qed (simp add: seg_def)

text \<open>Overlapping blocks are moved as if through a copy.\<close>

lemma ed_memmove_copies:
  assumes "dst + n \<le> length buf" and "src + n \<le> length buf"
  shows "ed_memmove dst src n buf = copy_into dst (seg src n buf) buf"
proof -
  consider "dst = src" | "n = 0" | "dst < src" | "src < dst" by linarith
  then show ?thesis
  proof cases
    case 1
    then show ?thesis using assms by (auto simp: ed_memmove_def intro!: nth_equalityI simp: nth_copy_into)
  next
    case 2
    then show ?thesis by (simp add: ed_memmove_def seg_def)
  next
    case 3
    then show ?thesis using move_forward[OF assms] by (auto simp: ed_memmove_def seg_def)
  next
    case 4
    then show ?thesis using move_backward[OF assms 4, of n] by (auto simp: ed_memmove_def seg_def)
  qed
qed

text \<open>The text and the cursor, and what a key does to them.\<close>

definition view_text :: "editor \<Rightarrow> u8 list \<times> nat" where
  "view_text e = (text_of e, g_cursor e)"

definition text_insert :: "u8 \<Rightarrow> u8 list \<times> nat \<Rightarrow> u8 list \<times> nat" where
  "text_insert c = (\<lambda>(t, p). if length t < 8191 then (take p t @ c # drop p t, p + 1) else (t, p))"

definition text_key :: "u8 \<Rightarrow> u8 list \<times> nat \<Rightarrow> u8 list \<times> nat" where
  "text_key c = (\<lambda>(t, p).
     let r = row_of t p; k = col_of t p
     in if c = KEY_UP then (t, if r = 0 then p else pos_of t (r - 1) k)
        else if c = KEY_DOWN then (t, if r + 1 < length (lines t) \<and> start_of t (r + 1) < length t then pos_of t (r + 1) k else p)
        else if c = KEY_LEFT then (t, p - 1)
        else if c = KEY_RIGHT then (t, min (p + 1) (length t))
        else if c = KEY_BACKSPACE then (take (p - 1) t @ drop p t, p - 1)
        else if c = KEY_ENTER then text_insert NEWLINE (t, p)
        else if c = KEY_TAB then text_insert 0x20 (text_insert 0x20 (t, p))
        else if 0x20 \<le> c \<and> c < 0x7F then text_insert c (t, p)
        else (t, p))"

lemma length_text [simp]: "ed_ok e \<Longrightarrow> length (text_of e) = g_len e"
  by (simp add: ed_ok_def text_of_def)

lemma ed_set_status_text [simp]: "text_of (ed_set_status m e) = text_of e" "view_text (ed_set_status m e) = view_text e"
    "ed_ok (ed_set_status m e) = ed_ok e" "g_cursor (ed_set_status m e) = g_cursor e" "g_len (ed_set_status m e) = g_len e"
    "g_dirty (ed_set_status m e) = g_dirty e" "g_path (ed_set_status m e) = g_path e" "g_view_off (ed_set_status m e) = g_view_off e"
    "g_buf (ed_set_status m e) = g_buf e"
  by (simp_all add: ed_set_status_def text_of_def view_text_def ed_ok_def)

lemma insert_text:
  assumes "ed_ok e"
  shows "view_text (ed_insert_char c e) = text_insert c (view_text e) \<and> ed_ok (ed_insert_char c e)"
proof (cases "g_len e + 1 \<ge> 8192")
  case True
  then show ?thesis using assms by (simp add: ed_insert_char_def text_insert_def view_text_def)
next
  case False
  let ?n = "g_len e" and ?p = "g_cursor e" and ?b = "g_buf e"
  have a: "length ?b = 8192" "?p \<le> ?n" "?n < 8191" using assms False by (simp_all add: ed_ok_def)
  have m: "ed_memmove (?p + 1) ?p (?n - ?p) ?b = copy_into (?p + 1) (seg ?p (?n - ?p) ?b) ?b"
    by (rule ed_memmove_copies) (use a in simp_all)
  have "take (?n + 1) ((copy_into (?p + 1) (seg ?p (?n - ?p) ?b) ?b)[?p := c]) = take ?p (take ?n ?b) @ c # drop ?p (take ?n ?b)"
    using a by (intro nth_equalityI) (auto simp: nth_append nth_Cons nth_copy_into nth_list_update min_def split: nat.splits
        intro!: arg_cong[of _ _ "(!) (g_buf e)"])
  then show ?thesis using False assms a
    by (simp add: ed_insert_char_def view_text_def text_of_def text_insert_def ed_ok_def m[unfolded One_nat_def, simplified])
qed

lemma delete_text:
  assumes "ed_ok e" and "g_cursor e > 0"
  shows "text_of (ed_delete_before e) = take (g_cursor e - 1) (text_of e) @ drop (g_cursor e) (text_of e)"
    and "ed_ok (ed_delete_before e)"
proof -
  let ?n = "g_len e" and ?p = "g_cursor e" and ?b = "g_buf e"
  have a: "length ?b = 8192" "?p \<le> ?n" "?n < 8192" using assms by (simp_all add: ed_ok_def)
  have m: "ed_memmove (?p - 1) ?p (?n - ?p) ?b = copy_into (?p - 1) (seg ?p (?n - ?p) ?b) ?b"
    by (rule ed_memmove_copies) (use a in simp_all)
  have "take (?n - 1) (copy_into (?p - 1) (seg ?p (?n - ?p) ?b) ?b) = take (?p - 1) (take ?n ?b) @ drop ?p (take ?n ?b)"
    using a assms(2) by (intro nth_equalityI) (auto simp: nth_append nth_copy_into min_def split: if_splits)
  then show "text_of (ed_delete_before e) = take (?p - 1) (text_of e) @ drop ?p (text_of e)"
    using assms(2) m by (simp add: ed_delete_before_def text_of_def)
  show "ed_ok (ed_delete_before e)" using a assms(2) m by (auto simp: ed_delete_before_def ed_ok_def)
qed

lemma move_up_text:
  assumes "ed_ok e"
  shows "view_text (ed_move_up e) = text_key KEY_UP (view_text e) \<and> ed_ok (ed_move_up e) \<and> g_dirty (ed_move_up e) = g_dirty e"
proof -
  let ?t = "text_of e" and ?p = "g_cursor e"
  have p: "?p \<le> length ?t" "?p \<le> g_len e" using assms by (simp_all add: ed_ok_def text_of_def)
  note g = geometry_text[OF assms p(2)]
  let ?r = "row_of ?t ?p" and ?prev = "start_of ?t (row_of ?t ?p - 1)"
  show ?thesis
  proof (cases ?r)
    case 0
    then show ?thesis using assms p by (simp add: ed_move_up_def g prev_line_at line_start_at view_text_def text_key_def)
  next
    case (Suc r)
    have r: "r < length (lines ?t)" using lines_at(1)[OF p(1)] Suc by simp
    have prev: "start_of ?t r \<le> g_len e" "row_of ?t (start_of ?t r) = r"
      using take_start(2)[OF r, of 0] row_col_start(1)[OF r, of 0] assms by simp_all
    have e: "ed_line_end (g_buf e) (g_len e) (start_of ?t r) = start_of ?t r + length (lines ?t ! r)"
      using geometry_text(4)[OF assms prev(1)] line_end_at[of "start_of ?t r" ?t] prev assms by simp
    have "ed_move_up e = e\<lparr>g_cursor := pos_of ?t r (col_of ?t ?p)\<rparr>"
      using Suc p by (simp add: ed_move_up_def g prev_line_at line_start_at col_at start_of_Suc[OF r] e Let_def pos_of_def min_def)
    moreover have "pos_of ?t r (col_of ?t ?p) \<le> g_len e" using take_start(2)[OF r, of "min _ _"] assms by (simp add: pos_of_def)
    ultimately show ?thesis using Suc assms by (simp add: view_text_def text_key_def text_of_def ed_ok_def)
  qed
qed

lemma move_down_text:
  assumes "ed_ok e"
  shows "view_text (ed_move_down e) = text_key KEY_DOWN (view_text e) \<and> ed_ok (ed_move_down e) \<and> g_dirty (ed_move_down e) = g_dirty e"
proof -
  let ?t = "text_of e" and ?p = "g_cursor e"
  have p: "?p \<le> length ?t" "?p \<le> g_len e" using assms by (simp_all add: ed_ok_def text_of_def)
  note g = geometry_text[OF assms p(2)]
  let ?r = "Suc (row_of ?t ?p)"
  have len: "length ?t = g_len e" using assms by simp
  have here: "row_of ?t ?p < length (lines ?t)" "start_of ?t (row_of ?t ?p) + col_of ?t ?p = ?p"
      "col_of ?t ?p \<le> length (lines ?t ! row_of ?t ?p)"
    using lines_at[OF p(1)] start_of_row[OF p(1)] by (simp_all add: col_of_def)
  show ?thesis
  proof (cases "?r < length (lines ?t) \<and> start_of ?t ?r < length ?t")
    case False
    then have n: "ed_next_line (g_buf e) (g_len e) ?p \<ge> g_len e" using next_line_at[OF p(1)] len g(5) by auto
    have l: "ed_line_end (g_buf e) (g_len e) ?p = start_of ?t (row_of ?t ?p) + length (lines ?t ! row_of ?t ?p)"
      unfolding g(4) by (rule line_end_at[OF p(1)])
    have "ed_move_down e = e\<lparr>g_cursor := ?p\<rparr>"
      using here by (simp add: ed_move_down_def n l g(1,2) line_start_at[OF p(1)] col_at[OF p(1)] Let_def)
    then show ?thesis using False assms by (auto simp: view_text_def text_key_def)
  next
    case True
    have nxt: "start_of ?t ?r \<le> g_len e" "row_of ?t (start_of ?t ?r) = ?r"
      using row_col_start(1)[of ?r ?t 0] True len by simp_all
    have e: "ed_line_end (g_buf e) (g_len e) (start_of ?t ?r) = start_of ?t ?r + length (lines ?t ! ?r)"
      using geometry_text(4)[OF assms nxt(1)] line_end_at[of "start_of ?t ?r" ?t] nxt assms by simp
    have "ed_move_down e = e\<lparr>g_cursor := pos_of ?t ?r (col_of ?t ?p)\<rparr>"
      using True e next_line_at[OF p(1)] unfolding ed_move_down_def g(5) g(2)
      by (simp add: col_at[OF p(1)] len Let_def pos_of_def min_def)
    moreover have "pos_of ?t ?r (col_of ?t ?p) \<le> g_len e" using take_start(2)[of ?r ?t "min _ _"] True assms by (simp add: pos_of_def)
    ultimately show ?thesis using True assms by (simp add: view_text_def text_key_def text_of_def ed_ok_def)
  qed
qed

lemma status_off [simp]: "view_text (e\<lparr>g_status_msg := m\<rparr>) = view_text e" "ed_ok (e\<lparr>g_status_msg := m\<rparr>) = ed_ok e"
  by (simp_all add: view_text_def text_of_def ed_ok_def)

lemma edit_key_text:
  assumes "ed_ok e"
  shows "view_text (edit_key c e) = text_key c (view_text e) \<and> ed_ok (edit_key c e)"
proof -
  have del: "view_text (ed_delete_before e) = text_key KEY_BACKSPACE (view_text e) \<and> ed_ok (ed_delete_before e)"
    using delete_text[of e] assms by (cases "g_cursor e = 0") (auto simp: view_text_def text_key_def ed_delete_before_def)
  have side: "view_text (ed_move_left e) = text_key KEY_LEFT (view_text e) \<and> ed_ok (ed_move_left e)"
      "view_text (ed_move_right e) = text_key KEY_RIGHT (view_text e) \<and> ed_ok (ed_move_right e)"
    using assms by (auto simp: ed_move_left_def ed_move_right_def view_text_def text_key_def text_of_def ed_ok_def min_def)
  have ins: "view_text (ed_insert_char d e) = text_insert d (view_text e) \<and> ed_ok (ed_insert_char d e)"
    "view_text (ed_insert_char d (ed_insert_char d e)) = text_insert d (text_insert d (view_text e)) \<and> ed_ok (ed_insert_char d (ed_insert_char d e))" for d
    using insert_text[OF assms, of d] insert_text[of "ed_insert_char d e" d] by simp_all
  show ?thesis
    using move_up_text[OF assms] move_down_text[OF assms] del side ins assms
    by (simp add: edit_key_def text_key_def split_beta Let_def)
qed

text \<open>
  C36: Editing is editing of a list with a cursor. In the state of the editor, the text is the used part of the
  buffer. Every key that reaches the editing code changes text and cursor the way \<^const>\<open>text_key\<close> says on the
  list: a printable key is inserted at the cursor while the text has fewer than 8191 bytes, tabulator inserts
  two blanks, enter a line end, backspace removes the byte before the cursor, the arrow keys move by one byte or
  to the same column (or the end, if nearer) of the line above or below; the empty line behind a final line end
  is not entered by moving down. The buffer bounds and the position of the cursor within the text are kept.
\<close>

theorem keys_edit_the_text:
  assumes "ed_ok e"
  shows "view_text (fold edit_key keys e) = fold text_key keys (view_text e) \<and> ed_ok (fold edit_key keys e)"
  using assms by (induction keys arbitrary: e) (simp_all add: edit_key_text)

definition blank_editor :: editor where
  "blank_editor = \<lparr>g_buf = replicate EDITOR_BUFFER_SIZE 0, g_len = 0, g_cursor = 0, g_view_off = 0, g_path = [], g_dirty = False, g_status_msg = []\<rparr>"

lemma blank_editor_ok [simp]: "ed_ok blank_editor" "view_text blank_editor = ([], 0)"
  by (simp_all add: blank_editor_def ed_ok_def view_text_def text_of_def)

text \<open>
  C36, on an empty buffer: the keys \<^verbatim>\<open>abc\<close>, enter, \<^verbatim>\<open>d\<close>, up, backspace, \<^verbatim>\<open>x\<close>.
\<close>

theorem keys_edit_the_text_witness:
  "view_text (fold edit_key (ascii ''abc'' @ [KEY_ENTER] @ ascii ''d'' @ [KEY_UP, KEY_BACKSPACE] @ ascii ''x'') blank_editor) =
     (ascii ''xbc'' @ [NEWLINE] @ ascii ''d'', 1)"
proof -
  have "fold text_key (ascii ''abc'' @ [KEY_ENTER] @ ascii ''d'' @ [KEY_UP, KEY_BACKSPACE] @ ascii ''x'') ([], 0) =
     (ascii ''xbc'' @ [NEWLINE] @ ascii ''d'', 1)" by code_simp
  then show ?thesis by (simp only: keys_edit_the_text[OF blank_editor_ok(1), THEN conjunct1] blank_editor_ok(2))
qed

section \<open>Scrolling\<close>

text \<open>The number of line ends in a stretch of the buffer.\<close>

definition breaks :: "u8 list \<Rightarrow> nat \<Rightarrow> nat \<Rightarrow> nat" where
  "breaks buf i j = card {k. i \<le> k \<and> k < j \<and> buf ! k = NEWLINE}"

lemma breaks_step: "i < j \<Longrightarrow> breaks buf i j = (if buf ! i = NEWLINE then 1 else 0) + breaks buf (Suc i) j"
proof -
  assume "i < j"
  then have s: "{k. i \<le> k \<and> k < j \<and> buf ! k = NEWLINE} = (if buf ! i = NEWLINE then {i} else {}) \<union> {k. Suc i \<le> k \<and> k < j \<and> buf ! k = NEWLINE}"
    by (auto simp: Suc_le_eq order_less_le)
  show ?thesis unfolding breaks_def s by (subst card_Un_disjoint) auto
qed

lemma breaks_empty [simp]: "j \<le> i \<Longrightarrow> breaks buf i j = 0"
  by (simp add: breaks_def)

lemma screen_row_loop_eq:
  "row < 24 \<Longrightarrow> screen_row_loop buf off i row = int (min 24 (row + breaks buf i off))"
proof (induction buf off i row rule: screen_row_loop.induct)
  case (1 buf off i row)
  then show ?case by (subst screen_row_loop.simps) (auto simp: breaks_step Let_def)
qed

lemma ed_screen_row_eq: "v \<le> p \<Longrightarrow> ed_screen_row buf v p = int (min 24 (breaks buf v p))"
  by (simp add: ed_screen_row_def screen_row_loop_eq)

lemma next_line_in_view:
  assumes "breaks buf v p > 0" and "p \<le> len"
  shows "ed_next_line buf len v \<le> p \<and> breaks buf (ed_next_line buf len v) p = breaks buf v p - 1"
proof -
  have vp: "v < p"
  proof (rule ccontr)
    assume "\<not> v < p"
    then show False using assms(1) by simp
  qed
  have "ed_line_end buf len v < p \<and> breaks buf (Suc (ed_line_end buf len v)) p = breaks buf v p - 1"
    using assms vp
  proof (induction buf len v rule: ed_line_end.induct)
    case (1 buf len v)
    show ?case
    proof (cases "buf ! v = NEWLINE")
      case True
      then show ?thesis using 1 by (subst (1 2) ed_line_end.simps) (simp add: breaks_step)
    next
      case False
      then have b: "breaks buf (Suc v) p = breaks buf v p" using 1 by (simp add: breaks_step)
      moreover have "Suc v < p"
      proof (rule ccontr)
        assume "\<not> Suc v < p"
        then show False using 1(2) b by simp
      qed
      ultimately show ?thesis using 1 False by (subst (1 2) ed_line_end.simps) simp
    qed
  qed
  then show ?thesis using assms(2) by (simp add: ed_next_line_def Let_def)
qed

lemma scroll_up_le: "scroll_up_loop buf p v \<le> p"
  by (induction buf p v rule: scroll_up_loop.induct) (subst scroll_up_loop.simps, simp)

lemma scroll_down_in_view:
  assumes "v \<le> p" and "p \<le> len"
  shows "scroll_down_loop buf len p v \<le> p \<and> breaks buf (scroll_down_loop buf len p v) p < 24"
  using assms
proof (induction buf len p v rule: scroll_down_loop.induct)
  case (1 buf len p v)
  show ?case
  proof (cases "breaks buf v p < 24")
    case True
    then show ?thesis using 1 by (subst (1 2) scroll_down_loop.simps) (simp add: ed_screen_row_eq)
  next
    case False
    let ?v = "ed_next_line buf len v"
    have n: "?v \<le> p" "breaks buf ?v p = breaks buf v p - 1" using next_line_in_view[of buf v p len] False 1 by simp_all
    have "?v < p"
    proof (rule ccontr)
      assume "\<not> ?v < p"
      then show False using n False by simp
    qed
    then show ?thesis using 1 n False by (subst (1 2) scroll_down_loop.simps) (simp add: ed_screen_row_eq)
  qed
qed

lemma ed_scroll_fields [simp]: "g_buf (ed_scroll_into_view e) = g_buf e" "g_len (ed_scroll_into_view e) = g_len e"
    "g_cursor (ed_scroll_into_view e) = g_cursor e" "text_of (ed_scroll_into_view e) = text_of e"
    "view_text (ed_scroll_into_view e) = view_text e" "ed_ok (ed_scroll_into_view e) = ed_ok e"
    "g_path (ed_scroll_into_view e) = g_path e" "g_dirty (ed_scroll_into_view e) = g_dirty e"
  by (simp_all add: ed_scroll_into_view_def Let_def text_of_def view_text_def ed_ok_def)

text \<open>The view contains the cursor.\<close>

definition in_view :: "editor \<Rightarrow> bool" where
  "in_view e \<longleftrightarrow> g_view_off e \<le> g_cursor e \<and> breaks (g_buf e) (g_view_off e) (g_cursor e) < 24"

lemma scroll_in_view: "ed_ok e \<Longrightarrow> in_view (ed_scroll_into_view e)"
  using scroll_down_in_view[OF scroll_up_le[of "g_buf e" "g_cursor e" "g_view_off e"], of "g_len e" "g_buf e"]
  by (simp add: in_view_def ed_ok_def ed_scroll_into_view_def Let_def)

end
