(* ===== verification/Editor_Screen.thy ===== *)
theory Editor_Screen
  imports Editor_Text
begin

text \<open>
  What the screen shows while the editor runs: whenever it waits for a key, the text area shows consecutive lines
  of the text, the line of the cursor among them.
\<close>

section \<open>Cells\<close>

definition cell_at :: "console \<Rightarrow> nat \<Rightarrow> nat \<Rightarrow> u16" where
  "cell_at cn r c = vga cn (r * EDITOR_SCREEN_COLS + c)"

definition ed_cell :: "u8 \<Rightarrow> u8 \<Rightarrow> u16" where
  "ed_cell attr ch = ucast ch OR push_bit 8 (ucast attr)"

lemma cell_put [simp]:
  "r < 25 \<Longrightarrow> c < 80 \<Longrightarrow> cell_at (ed_vga_put row col ch attr cn) r c = (if row = r \<and> col = c then ed_cell attr ch else cell_at cn r c)"
  using cell_eq[of c col r row] by (auto simp: cell_at_def ed_vga_put_def ed_cell_def)

lemma cell_puts:
  "r < 25 \<Longrightarrow> c < 80 \<Longrightarrow> cell_at (fold (\<lambda>i. ed_vga_put row (f i) (g i) attr) is cn) r c =
     (if row = r then cell_at (fold (\<lambda>i. ed_vga_put row (f i) (g i) attr) is cn) r c else cell_at cn r c)"
  by (induction "is" arbitrary: cn) auto

lemma cell_clear_row [simp]:
  assumes "r < 25" and "c < 80"
  shows "cell_at (ed_clear_row row attr cn) r c = (if row = r then ed_cell attr 0x20 else cell_at cn r c)"
proof -
  have "cell_at (fold (\<lambda>col. ed_vga_put row col 0x20 attr) cs cn) r c = (if row = r \<and> c \<in> set cs then ed_cell attr 0x20 else cell_at cn r c)" for cs
    using assms by (induction cs arbitrary: cn) auto
  then show ?thesis using assms(2) by (simp add: ed_clear_row_def del: upt_rec_numeral)
qed

lemma cell_clear_text:
  assumes "r < 24" and "c < 80"
  shows "cell_at (ed_clear_text_area cn) r c = ed_cell text_attr 0x20"
proof -
  have "cell_at (fold (\<lambda>r. ed_clear_row r text_attr) rs cn) r c = (if r \<in> set rs then ed_cell text_attr 0x20 else cell_at cn r c)" for rs
    using assms by (induction rs arbitrary: cn) auto
  then show ?thesis using assms(1) by (simp add: ed_clear_text_area_def del: upt_rec_numeral)
qed

lemma cell_status_str [simp]: "r < 24 \<Longrightarrow> c < 80 \<Longrightarrow> cell_at (put_str col s attr cn) r c = cell_at cn r c"
  unfolding put_str_def by (subst cell_puts) simp_all

lemma cell_status_bar [simp]: "r < 24 \<Longrightarrow> c < 80 \<Longrightarrow> cell_at (ed_draw_status_bar e cn) r c = cell_at cn r c"
  by (simp add: ed_draw_status_bar_def Let_def)

lemma set_cursor_cell [simp]: "cell_at (console_set_cursor r' c' cn) r c = cell_at cn r c"
  by (simp add: console_set_cursor_def cell_at_def)

lemma render_loop_cells:
  assumes "len \<le> length buf" and "r < 24" and "c < 80" and "i \<le> len" and "col \<le> 80"
  shows "cell_at (render_loop buf len i row col cn) r c =
    (let ls = lines (drop i (take len buf))
     in if r = row \<and> col \<le> c \<and> c - col < length (hd ls) then ed_cell text_attr (hd ls ! (c - col))
        else if row < r \<and> r - row < length ls \<and> c < length (ls ! (r - row)) then ed_cell text_attr (ls ! (r - row) ! c)
        else cell_at cn r c)"
  using assms
proof (induction buf len i row col cn rule: render_loop.induct)
  case (1 buf len i row col cn)
  note p = "1.prems"
  show ?case
  proof (cases "i < len \<and> row < 24")
    case False
    then have "render_loop buf len i row col cn = cn" by (subst render_loop.simps) auto
    moreover have "i = len \<or> row \<ge> 24" using False p(4) by auto
    ultimately show ?thesis using p by (auto simp: Let_def)
  next
    case True
    then have d: "drop i (take len buf) = buf ! i # drop (Suc i) (take len buf)" using p by (simp add: Cons_nth_drop_Suc[symmetric])
    obtain l ls where l: "lines (drop (Suc i) (take len buf)) = l # ls" by (cases "lines (drop (Suc i) (take len buf))") auto
    show ?thesis
    proof (cases "buf ! i = NEWLINE")
      case nl: True
      note IH = "1.IH"(1)[OF True nl p(1,2,3)]
      show ?thesis using IH True nl by (subst render_loop.simps) (auto simp: d l nth_Cons' Let_def)
    next
      case ch: False
      show ?thesis
      proof (cases "col < 80")
        case w: True
        note IH = "1.IH"(2)[OF True ch w p(1,2,3)]
        show ?thesis using IH True w ch p(2,3)
          by (subst render_loop.simps) (auto simp: d l nth_Cons' Let_def)
      next
        case w: False
        note IH = "1.IH"(3)[OF True ch w p(1,2,3)]
        show ?thesis using IH True w ch p(3,5)
          by (subst render_loop.simps) (auto simp: d l nth_Cons' Let_def)
      qed
    qed
  qed
qed

section \<open>The top line of the view\<close>

definition is_start :: "u8 list \<Rightarrow> nat \<Rightarrow> bool" where
  "is_start buf v \<longleftrightarrow> v = 0 \<or> buf ! (v - 1) = NEWLINE"

lemma line_start_is_start: "is_start buf (ed_line_start buf off)"
  by (induction off) (auto simp: is_start_def)

lemma prev_line_is_start: "is_start buf (ed_prev_line buf off)"
  using line_start_is_start by (auto simp: ed_prev_line_def is_start_def Let_def)

lemma line_end_newline: "ed_line_end buf len v < len \<Longrightarrow> buf ! ed_line_end buf len v = NEWLINE"
proof (induction buf len v rule: ed_line_end.induct)
  case (1 buf len v)
  show ?case
  proof (cases "v < len \<and> buf ! v \<noteq> NEWLINE")
    case True
    then have "ed_line_end buf len v = ed_line_end buf len (Suc v)" by (subst ed_line_end.simps) simp
    then show ?thesis using 1 True by simp
  next
    case False
    then have "ed_line_end buf len v = v" by (subst ed_line_end.simps) auto
    then show ?thesis using 1 False by simp
  qed
qed

lemma next_line_is_start:
  assumes "breaks buf v p > 0" and "p \<le> len"
  shows "is_start buf (ed_next_line buf len v)"
proof (cases "ed_line_end buf len v < len")
  case True
  then show ?thesis using line_end_newline[OF True] by (simp add: ed_next_line_def is_start_def Let_def)
next
  case False
  then have "ed_next_line buf len v = len" by (simp add: ed_next_line_def Let_def)
  then have "p = len" and "breaks buf v p = 1" using next_line_in_view[OF assms] assms by auto
  then have "breaks buf v len > 0" using assms by simp
  then have "v < len \<and> ed_line_end buf len v < len"
  proof (induction buf len v rule: ed_line_end.induct)
    case (1 buf len v)
    have v: "v < len" by (rule ccontr) (use 1(2) in simp)
    show ?case
    proof (cases "buf ! v = NEWLINE")
      case True
      then show ?thesis using v by (subst ed_line_end.simps) simp
    next
      case False
      then show ?thesis using 1 v by (subst ed_line_end.simps) (simp add: breaks_step)
    qed
  qed
  then show ?thesis using False by simp
qed

lemma scroll_up_is_start:
  "(v \<le> p \<longrightarrow> is_start buf v) \<Longrightarrow> is_start buf (scroll_up_loop buf p v)"
proof (induction buf p v rule: scroll_up_loop.induct)
  case (1 buf p v)
  show ?case
  proof (cases "p < v")
    case True
    then show ?thesis using 1 prev_line_is_start by (subst scroll_up_loop.simps) simp
  next
    case False
    then show ?thesis using 1 by (subst scroll_up_loop.simps) simp
  qed
qed

lemma scroll_down_is_start:
  assumes "v \<le> p" and "p \<le> len" and "is_start buf v"
  shows "is_start buf (scroll_down_loop buf len p v)"
  using assms
proof (induction buf len p v rule: scroll_down_loop.induct)
  case (1 buf len p v)
  show ?case
  proof (cases "breaks buf v p < 24")
    case True
    then show ?thesis using 1 by (subst scroll_down_loop.simps) (simp add: ed_screen_row_eq)
  next
    case False
    have n: "ed_next_line buf len v \<le> p" "is_start buf (ed_next_line buf len v)"
      using next_line_in_view[of buf v p len] next_line_is_start[of buf v p len] False 1 by simp_all
    then show ?thesis using 1 False by (subst scroll_down_loop.simps) (simp add: ed_screen_row_eq Let_def)
  qed
qed

text \<open>The state in which the editor waits for keys.\<close>

definition ed_inv :: "editor \<Rightarrow> bool" where
  "ed_inv e \<longleftrightarrow> ed_ok e \<and> in_view e \<and> is_start (g_buf e) (g_view_off e)"

definition view_ok :: "editor \<Rightarrow> bool" where
  "view_ok e \<longleftrightarrow> (g_view_off e \<le> g_cursor e \<longrightarrow> is_start (g_buf e) (g_view_off e))"

lemma scroll_inv: "ed_ok e \<Longrightarrow> view_ok e \<Longrightarrow> ed_inv (ed_scroll_into_view e)"
  using scroll_in_view[of e] scroll_down_is_start[OF scroll_up_le _ scroll_up_is_start, of "g_cursor e" "g_len e" "g_view_off e" "g_buf e"]
  by (simp add: ed_inv_def view_ok_def ed_ok_def ed_scroll_into_view_def Let_def)

lemma is_start_keep: "v \<le> p \<Longrightarrow> (\<forall>i < p. b ! i = a ! i) \<Longrightarrow> is_start b v = is_start a v"
  by (cases v) (auto simp: is_start_def)

lemma insert_prefix:
  assumes "ed_ok e"
  shows "\<forall>i < g_cursor e. g_buf (ed_insert_char c e) ! i = g_buf e ! i" and "g_cursor e \<le> g_cursor (ed_insert_char c e)"
    and "g_view_off (ed_insert_char c e) = g_view_off e"
  using assms ed_memmove_copies[of "g_cursor e + 1" "g_len e - g_cursor e" "g_buf e" "g_cursor e"]
  by (auto simp: ed_insert_char_def ed_ok_def nth_copy_into)

lemma delete_prefix:
  assumes "ed_ok e"
  shows "\<forall>i < g_cursor (ed_delete_before e). g_buf (ed_delete_before e) ! i = g_buf e ! i" and "g_view_off (ed_delete_before e) = g_view_off e"
  using assms ed_memmove_copies[of "g_cursor e - 1" "g_len e - g_cursor e" "g_buf e" "g_cursor e"]
  by (auto simp: ed_delete_before_def ed_ok_def nth_copy_into)

lemma insert_start:
  assumes "ed_ok e" and "g_view_off e \<le> g_cursor e" and "is_start (g_buf e) (g_view_off e)"
  shows "g_view_off (ed_insert_char c e) \<le> g_cursor (ed_insert_char c e)"
    and "is_start (g_buf (ed_insert_char c e)) (g_view_off (ed_insert_char c e))"
  using insert_prefix[OF assms(1), of c] is_start_keep[OF assms(2), of "g_buf (ed_insert_char c e)" "g_buf e"] assms by simp_all

lemma delete_start: "ed_ok e \<Longrightarrow> is_start (g_buf e) (g_view_off e) \<Longrightarrow> view_ok (ed_delete_before e)"
  using delete_prefix[of e] is_start_keep[of "g_view_off e" "g_cursor (ed_delete_before e)" "g_buf (ed_delete_before e)" "g_buf e"]
  by (simp add: view_ok_def)

lemma edit_key_view:
  assumes "ed_inv e"
  shows "view_ok (edit_key c e)"
proof -
  have e: "ed_ok e" "g_view_off e \<le> g_cursor e" "is_start (g_buf e) (g_view_off e)" using assms by (simp_all add: ed_inv_def in_view_def)
  have ins: "view_ok (ed_insert_char d e)" "view_ok (ed_insert_char d (ed_insert_char d e))" for d
    using insert_start[OF e, of d] insert_start[of "ed_insert_char d e" d] insert_text[OF e(1), of d] by (simp_all add: view_ok_def)
  have "view_ok (e'\<lparr>g_status_msg := m\<rparr>)" if "g_buf e' = g_buf e" "g_view_off e' = g_view_off e" for e' m
    using that e by (simp add: view_ok_def)
  moreover have "g_buf (ed_move_up e) = g_buf e" "g_buf (ed_move_down e) = g_buf e" "g_buf (ed_move_left e) = g_buf e" "g_buf (ed_move_right e) = g_buf e"
      "g_view_off (ed_move_up e) = g_view_off e" "g_view_off (ed_move_down e) = g_view_off e"
      "g_view_off (ed_move_left e) = g_view_off e" "g_view_off (ed_move_right e) = g_view_off e"
    by (simp_all add: ed_move_up_def ed_move_down_def ed_move_left_def ed_move_right_def Let_def)
  ultimately show ?thesis using ins delete_start[OF e(1,3)] e by (auto simp: edit_key_def view_ok_def)
qed

section \<open>The lines on the screen\<close>

lemma breaks_snoc: "i \<le> j \<Longrightarrow> breaks buf i (Suc j) = breaks buf i j + (if buf ! j = NEWLINE then 1 else 0)"
proof -
  assume "i \<le> j"
  then have s: "{k. i \<le> k \<and> k < Suc j \<and> buf ! k = NEWLINE} = {k. i \<le> k \<and> k < j \<and> buf ! k = NEWLINE} \<union> (if buf ! j = NEWLINE then {j} else {})"
    by (auto simp: less_Suc_eq)
  show ?thesis unfolding breaks_def s by (subst card_Un_disjoint) auto
qed

lemma row_of_breaks: "v \<le> p \<Longrightarrow> p \<le> length t \<Longrightarrow> row_of t p = row_of t v + breaks t v p"
proof (induction p rule: dec_induct)
  case (step p)
  have "length (lines (take p t)) \<noteq> 0" by simp
  then have "row_of t (Suc p) = row_of t p + (if t ! p = NEWLINE then 1 else 0)"
    using step.prems by (simp add: row_of_def take_Suc_conv_app_nth lines_snoc del: length_0_conv)
  then show ?case using step by (simp add: breaks_snoc)
qed simp

lemma lines_from_start:
  assumes "is_start t v" and "v \<le> length t"
  shows "lines (drop v t) = drop (row_of t v) (lines t)"
proof -
  have last: "last (lines (take v t)) = []"
  proof (cases v)
    case (Suc u)
    then show ?thesis using assms by (simp add: is_start_def take_Suc_conv_app_nth lines_snoc)
  qed simp
  have "lines t = butlast (lines (take v t)) @ lines (drop v t)"
    using lines_append[of "take v t" "drop v t"] last by simp
  then show ?thesis by (metis append_eq_conv_conj length_butlast row_of_def)
qed

definition shown_cell :: "u8 list \<Rightarrow> nat \<Rightarrow> nat \<Rightarrow> nat \<Rightarrow> u16" where
  "shown_cell t first r c = ed_cell text_attr
     (if first + r < length (lines t) \<and> c < length (lines t ! (first + r)) then lines t ! (first + r) ! c else 0x20)"

text \<open>The text area shows the lines from \<open>first\<close> on, and the line of the cursor is one of them.\<close>

definition text_shown :: "editor \<Rightarrow> console \<Rightarrow> bool" where
  "text_shown e cn \<longleftrightarrow>
     (\<exists>first \<le> row_of (text_of e) (g_cursor e). row_of (text_of e) (g_cursor e) < first + EDITOR_TEXT_ROWS \<and>
        (\<forall>r < EDITOR_TEXT_ROWS. \<forall>c < EDITOR_SCREEN_COLS. cell_at cn r c = shown_cell (text_of e) first r c))"

lemma is_start_take: "v \<le> n \<Longrightarrow> is_start (take n buf) v = is_start buf v"
  by (cases v) (auto simp: is_start_def)

lemma breaks_take: "p \<le> n \<Longrightarrow> breaks (take n buf) v p = breaks buf v p"
  unfolding breaks_def by (rule arg_cong[of _ _ card]) auto

lemma ed_inv_text:
  assumes "ed_inv e"
  shows "g_view_off e \<le> length (text_of e)" and "is_start (text_of e) (g_view_off e)"
    and "row_of (text_of e) (g_cursor e) = row_of (text_of e) (g_view_off e) + breaks (g_buf e) (g_view_off e) (g_cursor e)"
proof -
  have e: "ed_ok e" "g_view_off e \<le> g_cursor e" "g_cursor e \<le> g_len e" "is_start (g_buf e) (g_view_off e)"
    using assms by (simp_all add: ed_inv_def in_view_def ed_ok_def)
  show "g_view_off e \<le> length (text_of e)" using e by simp
  show "is_start (text_of e) (g_view_off e)" using e by (simp add: text_of_def is_start_take)
  show "row_of (text_of e) (g_cursor e) = row_of (text_of e) (g_view_off e) + breaks (g_buf e) (g_view_off e) (g_cursor e)"
    using row_of_breaks[of "g_view_off e" "g_cursor e" "text_of e"] e by (simp add: text_of_def breaks_take ed_ok_def)
qed

lemma render_shows:
  assumes "ed_inv e"
  shows "text_shown e (ed_render e cn)"
proof -
  let ?t = "text_of e" and ?v = "g_view_off e"
  have ok: "g_len e \<le> length (g_buf e)" "?v \<le> g_len e" using assms by (simp_all add: ed_inv_def ed_ok_def in_view_def)
  note i = ed_inv_text[OF assms]
  have "cell_at (ed_render e cn) r c = shown_cell ?t (row_of ?t ?v) r c" if "r < 24" "c < 80" for r c
  proof -
    obtain l ls where l: "lines (drop ?v ?t) = l # ls" by (cases "lines (drop ?v ?t)") auto
    have n: "drop (row_of ?t ?v) (lines ?t) = l # ls" using lines_from_start[OF i(2,1)] l by simp
    have nth: "row_of ?t ?v + r < length (lines ?t) \<longleftrightarrow> r < length (l # ls)"
      "r < length (l # ls) \<Longrightarrow> lines ?t ! (row_of ?t ?v + r) = (l # ls) ! r"
      using length_drop[of "row_of ?t ?v" "lines ?t"] lines_at(1)[OF i(1)] nth_drop[of "row_of ?t ?v" "lines ?t" r]
      unfolding n by auto
    have "cell_at (ed_render e cn) r c = cell_at (render_loop (g_buf e) (g_len e) ?v 0 0 (ed_clear_text_area cn)) r c"
      using that by (simp add: ed_render_def Let_def)
    also have "\<dots> = ed_cell text_attr (if r < length (l # ls) \<and> c < length ((l # ls) ! r) then (l # ls) ! r ! c else 0x20)"
      using that ok l unfolding text_of_def by (subst render_loop_cells) (auto simp: Let_def cell_clear_text)
    finally show ?thesis using nth by (auto simp: shown_cell_def)
  qed
  then show ?thesis using i(3) assms unfolding text_shown_def ed_inv_def in_view_def by (intro exI[of _ "row_of ?t ?v"]) simp
qed

lemma refresh_shows: "ed_ok e \<Longrightarrow> view_ok e \<Longrightarrow> refresh (e, s) = (e', s') \<Longrightarrow> ed_inv e' \<and> text_shown e' (con s')"
  using scroll_inv[of e] render_shows[of "ed_scroll_into_view e"] by (auto simp: refresh_def Let_def)

section \<open>The main loop\<close>

lemma read_command_cells:
  assumes "r < 24" and "c < 80"
  shows "read_command_loop cap attr out keys cn = Waiting (cmd, cn') \<Longrightarrow> cell_at cn' r c = cell_at cn r c"
  using assms by (induction cap attr out keys cn rule: read_command_loop.induct) (auto split: if_splits)

lemma run_command_waiting:
  assumes "ed_run_command env keys (e, s) = Waiting (b, e', s')" and "text_shown e (con s)"
  shows "e' = e \<and> text_shown e' (con s')"
proof -
  obtain cmd cn where r: "ed_read_command 64 keys (con s) = Waiting (cmd, cn)" and e: "e' = e" "s' = s\<lparr>con := cn\<rparr>"
    using assms(1) by (auto simp: ed_run_command_def split: ed_result.splits prod.splits if_splits option.splits)
  have "cell_at cn r c = cell_at (con s) r c" if "r < 24" "c < 80" for r c
    using read_command_cells[OF that r[unfolded ed_read_command_def Let_def]] that by simp
  then show ?thesis using assms(2) e by (simp add: text_shown_def)
qed

text \<open>Commands leave text, cursor and view alone.\<close>

definition same_text :: "editor \<Rightarrow> editor \<Rightarrow> bool" where
  "same_text e e' \<longleftrightarrow> g_buf e' = g_buf e \<and> g_len e' = g_len e \<and> g_cursor e' = g_cursor e \<and> g_view_off e' = g_view_off e"

lemma same_text_changes [simp]: "same_text e (ed_set_status m e)" "same_text e (ed_set_status m (e\<lparr>g_dirty := b\<rparr>))"
    "same_text e e" "same_text (e\<lparr>g_path := p\<rparr>) e' = same_text e e'"
  by (simp_all add: same_text_def ed_set_status_def)

lemma save_same_text: "ed_save_file env (e, s) = Some (e', s') \<Longrightarrow> same_text e e'"
  unfolding ed_save_file_def prod.case
  by (elim if_eqE; (elim bind_eq_Some_conv[THEN iffD1, elim_format] exE conjE)?) (auto simp: split_beta bind_eq_Some_conv elim!: if_eqE)

lemma do_command_same_text: "do_command env cmd (e, s) = Some (b, e', s') \<Longrightarrow> same_text e e'"
  unfolding do_command_def prod.case
  by (elim if_eqE) (auto dest!: save_same_text)

lemma run_command_same_text: "ed_run_command env keys (e, s) = Done keys' (b, e', s') \<Longrightarrow> same_text e e'"
  by (auto simp: ed_run_command_def split: ed_result.splits prod.splits if_splits option.splits dest!: do_command_same_text)

lemma same_text_view: "same_text e e' \<Longrightarrow> ed_inv e \<Longrightarrow> ed_ok e' \<and> view_ok e'"
  by (auto simp: same_text_def ed_inv_def ed_ok_def view_ok_def)

lemma editor_loop_shows:
  assumes "ed_inv (fst es)" and "text_shown (fst es) (con (snd es))" and "editor_loop env keys es = Waiting es'"
  shows "ed_inv (fst es') \<and> text_shown (fst es') (con (snd es'))"
  using assms
proof (induction env keys es rule: editor_loop.induct)
  case (2 env c mods keys es)
  obtain e s where es: "es = (e, s)" by (cases es)
  have e: "ed_inv e" "text_shown e (con s)" using 2(5,6) es by simp_all
  let ?ctrl = "mods AND (0x01 OR 0x10) :: u8"
  have fresh: "ed_inv (fst (refresh (a, b))) \<and> text_shown (fst (refresh (a, b))) (con (snd (refresh (a, b))))"
    if "ed_ok a" "view_ok a" for a b
    using refresh_shows[OF that] by (cases "refresh (a, b)") simp
  consider "c = 0 \<or> is_modifier_key c" | "c \<noteq> 0" "\<not> is_modifier_key c" "?ctrl \<noteq> 0" "c = 0x73 \<or> c = 0x53"
    | "c \<noteq> 0" "\<not> is_modifier_key c" "?ctrl \<noteq> 0" "\<not> (c = 0x73 \<or> c = 0x53)" "c = 0x78 \<or> c = 0x58"
    | "c \<noteq> 0" "\<not> is_modifier_key c" "\<not> (?ctrl \<noteq> 0 \<and> (c = 0x73 \<or> c = 0x53))" "\<not> (?ctrl \<noteq> 0 \<and> (c = 0x78 \<or> c = 0x58))" "c = 0x1B"
    | "c \<noteq> 0" "\<not> is_modifier_key c" "\<not> (?ctrl \<noteq> 0 \<and> (c = 0x73 \<or> c = 0x53))" "\<not> (?ctrl \<noteq> 0 \<and> (c = 0x78 \<or> c = 0x58))" "c \<noteq> 0x1B"
    by argo
  then show ?case
  proof cases
    case 1
    then show ?thesis using 2 by simp
  next
    case k: 2
    then obtain a b where s: "ed_save_file env es = Some (a, b)" using 2(7) by (auto split: option.splits)
    have "ed_ok a \<and> view_ok a" using save_same_text[of env e s a b] same_text_view[of e a] s e es by simp
    then show ?thesis using 2(2)[OF refl _ _ s] fresh[of a b] 2(7) k s by auto
  next
    case 3
    then show ?thesis using 2(7) by auto
  next
    case k: 4
    show ?thesis
    proof (cases "ed_run_command env keys es")
      case (Waiting r)
      obtain b e' s' where r: "r = (b, e', s')" by (cases r)
      have "es' = (e', s')" using 2(7) k Waiting r by auto
      then show ?thesis using run_command_waiting[of env keys e s b e' s'] Waiting r es e by auto
    next
      case (Done keys' r)
      obtain b e' s' where r: "r = (b, e', s')" by (cases r)
      have ok: "ed_ok e' \<and> view_ok e'" using run_command_same_text[of env keys e s keys' b e' s'] same_text_view[of e e'] Done r es e by simp
      have nb: "\<not> b" and run: "editor_loop env keys' (refresh (e', s')) = Waiting es'" using 2(7) k Done r by (auto split: if_splits)
      have "ed_inv (fst (refresh (e', s'))) \<Longrightarrow> text_shown (fst (refresh (e', s'))) (con (snd (refresh (e', s')))) \<Longrightarrow> ?thesis"
        using 2(3)[OF refl _ _ _ _ Done r[symmetric] nb _ _ run] k by blast
      then show ?thesis using fresh[of e' s'] ok by blast
    next
      case Stuck
      then show ?thesis using 2(7) k by auto
    qed
  next
    case k: 5
    have ok: "ed_ok (edit_key c e)" "view_ok (edit_key c e)" using edit_key_text[of e c] edit_key_view[OF e(1)] e by (simp_all add: ed_inv_def)
    have run: "editor_loop env keys (refresh (apfst (edit_key c) es)) = Waiting es'" using 2(7) k by (auto split: if_splits)
    show ?thesis using 2(4)[OF refl _ _ _ _ _ _ run] k fresh[OF ok, of s] es by auto
  qed
qed simp

text \<open>
  C37: The screen shows the text. Whenever the editor waits for the next key, after any keys since it started to
  edit, the 24 rows of the text area show consecutive lines of the text, each cut at column 80 and followed by
  blanks, rows behind the last line are blank, and the line that holds the cursor is among them. This holds
  while a command is being typed, too, and whatever the system calls for saving do to the console.
\<close>

theorem screen_shows_text:
  assumes "ed_inv e" and "editor_loop env keys (e, s\<lparr>con := ed_render e (con s)\<rparr>) = Waiting (e', s')"
  shows "ed_ok e' \<and> text_shown e' (con s')"
  using editor_loop_shows[OF _ _ assms(2)] render_shows[OF assms(1), of "con s"] assms(1) by (auto simp: ed_inv_def)

lemma blank_editor_inv: "ed_inv blank_editor"
  using blank_editor_ok(1) by (simp add: ed_inv_def in_view_def is_start_def blank_editor_def)

lemma type_keys:
  assumes "\<forall>c \<in> set cs. 0x20 \<le> c \<and> c < 0x7F"
  shows "\<exists>e' s'. editor_loop env (map (\<lambda>c. (c, 0)) cs) (e, s) = Waiting (e', s') \<and> (ed_ok e \<longrightarrow> view_text e' = fold text_key cs (view_text e))"
  using assms
proof (induction cs arbitrary: e s)
  case (Cons c cs)
  have c: "c \<noteq> 0" "\<not> is_modifier_key c" "c \<noteq> 0x1B"
    using Cons.prems by (auto simp: is_modifier_key_def)
  obtain e1 s1 where r: "refresh (edit_key c e, s) = (e1, s1)" by fastforce
  have v: "ed_ok e \<Longrightarrow> view_text e1 = text_key c (view_text e) \<and> ed_ok e1"
    using r edit_key_text[of e c] by (auto simp: refresh_def Let_def)
  obtain e' s' where "editor_loop env (map (\<lambda>c. (c, 0)) cs) (e1, s1) = Waiting (e', s')"
      "ed_ok e1 \<longrightarrow> view_text e' = fold text_key cs (view_text e1)"
    using Cons.IH[of e1 s1] Cons.prems by auto
  then show ?case using c r v by (intro exI[of _ e'] exI[of _ s']) auto
qed simp

text \<open>
  C37, for two keys typed into an empty buffer.
\<close>

theorem screen_shows_text_witness:
  "\<forall>env. \<exists>e' s'. editor_loop env [(0x68, 0), (0x69, 0)] (blank_editor, blank_kern\<lparr>con := ed_render blank_editor (con blank_kern)\<rparr>) =
     Waiting (e', s') \<and> view_text e' = (ascii ''hi'', 2) \<and> text_shown e' (con s')"
proof
  fix env :: "sectors ed_env"
  define s0 where "s0 = blank_kern\<lparr>con := ed_render blank_editor (con blank_kern)\<rparr>"
  have f: "fold text_key [0x68, 0x69] ([], 0) = (ascii ''hi'', 2)" by code_simp
  have "\<exists>e' s'. editor_loop env (map (\<lambda>c. (c, 0)) [0x68, 0x69]) (blank_editor, s0) =
      Waiting (e', s') \<and> (ed_ok blank_editor \<longrightarrow> view_text e' = fold text_key [0x68, 0x69] (view_text blank_editor))"
    by (rule type_keys) simp
  then obtain e' s' where r: "editor_loop env [(0x68, 0), (0x69, 0)] (blank_editor, s0) = Waiting (e', s')"
      "view_text e' = (ascii ''hi'', 2)"
    unfolding list.map blank_editor_ok(2) f by (elim exE conjE) (rule that, assumption, erule mp, rule blank_editor_ok(1))
  have "text_shown e' (con s')" using screen_shows_text[OF blank_editor_inv r(1)[unfolded s0_def]] by (rule conjunct2)
  then show "\<exists>e' s'. editor_loop env [(0x68, 0), (0x69, 0)] (blank_editor, blank_kern\<lparr>con := ed_render blank_editor (con blank_kern)\<rparr>) =
      Waiting (e', s') \<and> view_text e' = (ascii ''hi'', 2) \<and> text_shown e' (con s')"
    using r unfolding s0_def[symmetric] by iprover
qed

end
