(* ===== verification/Editor_Files.thy ===== *)
theory Editor_Files
  imports Editor_Text
begin

text \<open>
  Saving and loading: what the editor writes through system calls, file system and disk driver it reads back,
  whichever disk driver keeps the contract \<^const>\<open>disk_driver\<close>.
\<close>

section \<open>The arrays of the editor in memory\<close>

lemma user_string_read:
  assumes "\<forall>i < length p. m (a + of_nat i) = p ! i" and "m (a + of_nat (length p)) = 0" and "0 \<notin> set p"
  shows "user_string m a = Some p"
  using assms
proof (induction p arbitrary: a)
  case Nil
  then show ?case by (subst user_string.simps) simp
next
  case (Cons x p)
  have s: "a + 1 + of_nat i = a + of_nat (Suc i)" for i by simp
  have "user_string m (a + 1) = Some p"
  proof (rule Cons.IH)
    show "\<forall>i < length p. m (a + 1 + of_nat i) = p ! i" unfolding s using Cons.prems(1) by (metis Suc_less_eq length_Cons nth_Cons_Suc)
    show "m (a + 1 + of_nat (length p)) = 0" unfolding s using Cons.prems(2) by simp
  qed (use Cons.prems(3) in simp)
  moreover have "m a = x" "x \<noteq> 0" using Cons.prems(1)[rule_format, of 0] Cons.prems(3) by auto
  ultimately show ?case by (subst user_string.simps) simp
qed

lemma mem_put_at: "i < length bs \<Longrightarrow> length bs \<le> 2 ^ 20 \<Longrightarrow> mem_put a bs m (a + of_nat i) = bs ! i"
  using unat_of_nat_u64[of i] by (simp add: mem_put_def)

lemma mem_get_put: "n \<le> length bs \<Longrightarrow> length bs \<le> 2 ^ 20 \<Longrightarrow> mem_get (mem_put a bs m) a n = take n bs"
  by (rule nth_equalityI) (auto simp: mem_get_def mem_put_at)

text \<open>The arrays do not overlap and are not at address 0.\<close>

definition apart :: "'d ed_env \<Rightarrow> bool" where
  "apart env \<longleftrightarrow> a_buf env \<noteq> 0 \<and> a_path env \<noteq> 0 \<and>
     EDITOR_FILENAME_MAX \<le> unat (a_buf env - a_path env) \<and> unat (a_buf env - a_path env) + EDITOR_BUFFER_SIZE \<le> 2 ^ 64"

lemma share_path:
  assumes "0 \<notin> set (g_path e)" and "length (g_path e) < 64"
  shows "user_string (mem (share env e s)) (a_path env) = Some (g_path e)"
proof (rule user_string_read)
  let ?m = "mem (share env e s)"
  have m: "?m (a_path env + of_nat i) = (g_path e @ [0]) ! i" if "i \<le> length (g_path e)" for i
    using that assms(2) by (simp add: share_def mem_put_at)
  show "\<forall>i < length (g_path e). ?m (a_path env + of_nat i) = g_path e ! i" using m by (simp add: nth_append)
  show "?m (a_path env + of_nat (length (g_path e))) = 0" using m[of "length (g_path e)"] by simp
qed (fact assms(1))

lemma share_buf:
  assumes "apart env" and "length (g_path e) < 64" and "length (g_buf e) = 8192" and "n \<le> 8192"
  shows "mem_get (mem (share env e s)) (a_buf env) n = take n (g_buf e)"
proof -
  have far: "\<not> unat (a_buf env + of_nat i - a_path env) < length (g_path e @ [0])" if "i < 8192" for i
  proof -
    have d: "a_buf env + of_nat i - a_path env = (a_buf env - a_path env) + of_nat i" by simp
    have "unat (of_nat i :: u64) = i" using that by (intro unat_of_nat_u64) simp
    then have "unat (a_buf env + of_nat i - a_path env) = unat (a_buf env - a_path env) + i"
      unfolding d using assms(1) that by (subst unat_add_lem[THEN iffD1]) (simp_all add: apart_def)
    then show ?thesis using assms(1,2) by (simp add: apart_def)
  qed
  have "mem_get (mem (share env e s)) (a_buf env) n = mem_get (mem_put (a_buf env) (g_buf e) (mem s)) (a_buf env) n"
    unfolding mem_get_def share_def
    using far assms(4) by (intro map_cong[OF refl]) (simp add: mem_put_def[of "a_path env"])
  then show ?thesis using assms(3,4) by (simp add: mem_get_put)
qed

section \<open>The calls\<close>

lemma int_arg_small: "n < 2 ^ 20 \<Longrightarrow> int_arg (of_nat n) = int n"
proof -
  assume n: "n < 2 ^ 20"
  have "ucast (of_nat n :: u64) = (of_nat n :: u32)" by (simp add: unsigned_of_nat take_bit_nat_eq_self n less_trans[OF n])
  moreover have "unat (of_nat n :: u32) = n" using n by (intro unat_less_of_nat) simp
  ultimately show ?thesis using n sint_small[of "of_nat n"] by (simp add: int_arg_def)
qed

lemma int_arg_minus_1 [simp]: "int_arg (- 1) = - 1"
proof -
  have "ucast (- 1 :: u64) = (- 1 :: u32)" by (rule bit_word_eqI) (simp add: bit_simps)
  then show ?thesis by (simp add: int_arg_def)
qed

context disk_driver
begin

text \<open>Descriptor 0 refers to descriptor \<open>j\<close> of the file system.\<close>

lemma ed_open_run:
  assumes env: "e_drv env = k" and inv: "sys_inv view ok s" and free: "\<not> fd_used (fd_table s ! 0)"
    and p: "user_string (mem s) a = Some p" "a \<noteq> 0" and fl: "ucast (word_of_int fl :: u64) = (w :: u32)"
  obtains (failed) s' where "ed_sys_open env a fl s = Some (- 1, s')" and "sys_inv view ok s'"
      and "\<forall>m. lookup (on_view view (k_fs s)) p = Some m \<longrightarrow> is_file (inode (on_view view (k_fs s)) m) \<longrightarrow> (\<forall>l < 16. used (g_fds (k_fs s) ! l))"
  | (got) n j s' t' where "ed_sys_open env a fl s = Some (0, s')" and "sys_inv view ok s'" and "mem s' = mem s"
      and "fd_used (fd_table s' ! 0)" and "aresfs_fd (fd_table s' ! 0) = int j" and "j < 16"
      and "opened p w n (on_view view (k_fs s)) t'"
      and "on_view view (k_fs s') = t'\<lparr>g_fds := (g_fds (k_fs s))[j := opened_fd n w t']\<rparr>"
proof -
  let ?f = "blank_frame\<lparr>int_no := 0x80, f_rax := 3, f_rdi := a, f_rsi := word_of_int fl, f_rdx := 0\<rparr>"
  have call: "ed_sys_open env a fl s = (case sys_open k ?f s of Some (Iret f s') \<Rightarrow> Some (int_arg (f_rax f), s') | _ \<Rightarrow> None)"
    by (simp add: ed_sys_open_def ed_syscall3_def env syscall_handler_def split: option.splits isr_result.splits)
  have p': "user_string (mem s) (f_rdi ?f) = Some p" "f_rdi ?f \<noteq> 0" using p by simp_all
  show thesis
  proof (cases rule: sys_open_run[OF inv p'])
    case (1 u)
    have "sys_inv view ok (s\<lparr>k_fs := u\<rparr>)" using sys_open_inv[OF inv 1(1)] by simp
    then show thesis using 1 free by (intro failed[of "s\<lparr>k_fs := u\<rparr>"]) (auto simp: call)
  next
    case (2 n i j u t')
    have "i = 0" using 2(4) free by (cases i) auto
    moreover have "fd_table_wf (opens (g_fds (k_fs s))) (fd_table s)" using inv by (simp add: sys_inv_def)
    then have "length (fd_table s) = 16" by (rule fd_table_wfD(1))
    moreover have "sys_inv view ok (s\<lparr>k_fs := u, fd_table := (fd_table s)[i := (fd_slot i 1)\<lparr>aresfs_fd := int j\<rparr>]\<rparr>)"
      using sys_open_inv[OF inv 2(1)] by simp
    ultimately show thesis using 2 fl
      by (intro got[where s' = "s\<lparr>k_fs := u, fd_table := (fd_table s)[i := (fd_slot i 1)\<lparr>aresfs_fd := int j\<rparr>]\<rparr>" and j = j and n = n and t' = t'])
        (simp_all add: call int_arg_def fd_used_def fd_slot_def)
  qed
qed

lemma ed_close_run:
  assumes env: "e_drv env = k" and inv: "sys_inv view ok s" and i: "fd_used (fd_table s ! 0)" "aresfs_fd (fd_table s ! 0) = int j"
  obtains s' where "ed_sys_close env 0 s = Some s'" and "sys_inv view ok s'" and "mem s' = mem s" and "\<not> fd_used (fd_table s' ! 0)"
    and "on_view view (k_fs s') = (on_view view (k_fs s))\<lparr>g_fds := (g_fds (k_fs s))[j := zero_fd]\<rparr>"
proof -
  let ?f = "blank_frame\<lparr>int_no := 0x80, f_rax := 4, f_rdi := 0, f_rsi := 0, f_rdx := 0\<rparr>"
  have call: "ed_sys_close env 0 s = (case sys_close ?f s of Some (Iret f s') \<Rightarrow> Some s' | _ \<Rightarrow> None)"
    by (simp add: ed_sys_close_def ed_syscall3_def env syscall_handler_def split: option.splits isr_result.splits)
  have f: "f_rdi ?f = of_nat 0" by simp
  have lt: "0 < (16 :: nat)" by simp
  obtain u where u: "sys_close ?f s = Some (Iret (?f\<lparr>f_rax := 0\<rparr>) (sys_fd_release 0 (s\<lparr>k_fs := u\<rparr>)))"
      "on_view view u = (on_view view (k_fs s))\<lparr>g_fds := (g_fds (k_fs s))[j := zero_fd]\<rparr>"
    by (rule sys_close_run[OF inv lt i f])
  have "fd_table_wf (opens (g_fds (k_fs s))) (fd_table s)" using inv by (simp add: sys_inv_def)
  then have "length (fd_table s) = 16" by (rule fd_table_wfD(1))
  moreover have "sys_inv view ok (sys_fd_release 0 (s\<lparr>k_fs := u\<rparr>))" using sys_close_inv[OF inv u(1)] by simp
  ultimately show thesis using u
    by (intro that[of "sys_fd_release 0 (s\<lparr>k_fs := u\<rparr>)"]) (simp_all add: call sys_fd_release_def fd_used_def)
qed

lemma ed_write_run:
  assumes env: "e_drv env = k" and inv: "sys_inv view ok s" and i: "fd_used (fd_table s ! 0)" "aresfs_fd (fd_table s ! 0) = int j"
    and a: "a \<noteq> 0" and m: "m < 8192" and e: "g_fds (k_fs s) ! j = opened_fd n 0x241 t'"
    and empty: "contents (on_view view (k_fs s)) n = []"
  obtains d s' where "ed_sys_write env 0 a m s = Some (int d, s')" and "d \<le> m" and "sys_inv view ok s'" and "mem s' = mem s"
    and "fd_used (fd_table s' ! 0)" and "aresfs_fd (fd_table s' ! 0) = int j"
    and "contents (on_view view (k_fs s')) n = take d (mem_get (mem s) a m)" and "lookup (on_view view (k_fs s')) = lookup (on_view view (k_fs s))"
    and "is_file (inode (on_view view (k_fs s')) n)"
proof -
  let ?f = "blank_frame\<lparr>int_no := 0x80, f_rax := 2, f_rdi := 0, f_rsi := a, f_rdx := of_nat m\<rparr>"
  have call: "ed_sys_write env 0 a m s = (case sys_write k ?f s of Some (Iret f s') \<Rightarrow> Some (int_arg (f_rax f), s') | _ \<Rightarrow> None)"
    by (simp add: ed_sys_write_def ed_syscall3_def env syscall_handler_def split: option.splits isr_result.splits)
  have f: "f_rdi ?f = of_nat 0" "f_rsi ?f \<noteq> 0" and um: "unat (f_rdx ?f) = m" using a m by (simp_all add: unat_of_nat_u64)
  have fe: "fflags (g_fds (k_fs s) ! j) AND 3 \<noteq> 0" "fflags (g_fds (k_fs s) ! j) AND ARESFS_O_APPEND = 0" "fpos (g_fds (k_fs s) ! j) < 71680"
      "fpos (g_fds (k_fs s) ! j) = 0" "inode_num (g_fds (k_fs s) ! j) = n"
    by (simp_all add: e opened_fd_def)
  have z: "0 < (16 :: nat)" "0 \<noteq> (1 :: nat)" "0 \<noteq> (2 :: nat)" by simp_all
  obtain d u tab where w: "sys_write k ?f s = Some (Iret (?f\<lparr>f_rax := of_nat d\<rparr>) (s\<lparr>k_fs := u, fd_table := tab\<rparr>))" "d \<le> m"
      "contents (on_view view u) n = take d (mem_get (mem s) a m)" "fd_used (tab ! 0)" "aresfs_fd (tab ! 0) = int j"
      "lookup (on_view view u) = lookup (on_view view (k_fs s))" "is_file (inode (on_view view u) n)"
    using sys_write_run[OF inv z(1) i(1) z(2,3) i(2) f fe(1,2,3)] fe(4,5) empty um
    by (simp add: write_at_def mem_get_def) metis
  have "sys_inv view ok (s\<lparr>k_fs := u, fd_table := tab\<rparr>)" using sys_write_inv[OF inv w(1)] by simp
  then show thesis using w m int_arg_small[of d] by (intro that[of d "s\<lparr>k_fs := u, fd_table := tab\<rparr>"]) (simp_all add: call)
qed

lemma ed_read_run:
  assumes env: "e_drv env = k" and inv: "sys_inv view ok s" and i: "fd_used (fd_table s ! 0)" "aresfs_fd (fd_table s ! 0) = int j"
    and a: "a \<noteq> 0" and m: "m < 8192" and e: "g_fds (k_fs s) ! j = opened_fd n 0 t'"
  defines "bs \<equiv> take m (contents (on_view view (k_fs s)) n)"
  obtains s' where "ed_sys_read env 0 a m s = Some (int (length bs), s')" and "sys_inv view ok s'"
    and "mem s' = mem_put a (copy_into 0 bs (mem_get (mem s) a m)) (mem s)"
    and "fd_used (fd_table s' ! 0)" and "aresfs_fd (fd_table s' ! 0) = int j"
proof -
  let ?f = "blank_frame\<lparr>int_no := 0x80, f_rax := 5, f_rdi := 0, f_rsi := a, f_rdx := of_nat m\<rparr>"
  have call: "ed_sys_read env 0 a m s = (case sys_read k ?f s of Some (Iret f s') \<Rightarrow> Some (int_arg (f_rax f), s') | _ \<Rightarrow> None)"
    by (simp add: ed_sys_read_def ed_syscall3_def env syscall_handler_def split: option.splits isr_result.splits)
  have f: "f_rdi ?f = of_nat 0" "f_rsi ?f \<noteq> 0" and um: "unat (f_rdx ?f) = m" using a m by (simp_all add: unat_of_nat_u64)
  have fe: "fflags (g_fds (k_fs s) ! j) AND 3 \<noteq> 1" "fpos (g_fds (k_fs s) ! j) = 0" "inode_num (g_fds (k_fs s) ! j) = n"
    by (simp_all add: e opened_fd_def)
  have z: "0 < (16 :: nat)" by simp
  obtain u tab where r: "sys_read k ?f s = Some (Iret (?f\<lparr>f_rax := of_nat (length bs)\<rparr>)
        (s\<lparr>k_fs := u, mem := mem_put a (copy_into 0 bs (mem_get (mem s) a m)) (mem s), fd_table := tab\<rparr>))"
      "fd_used (tab ! 0)" "aresfs_fd (tab ! 0) = int j"
    using sys_read_run[OF inv z i f fe(1)] fe(2,3) um unfolding bs_def by simp metis
  let ?s = "s\<lparr>k_fs := u, mem := mem_put a (copy_into 0 bs (mem_get (mem s) a m)) (mem s), fd_table := tab\<rparr>"
  have "sys_inv view ok ?s" using sys_read_inv[OF inv r(1)] by simp
  moreover have "length bs < 2 ^ 20" using m by (simp add: bs_def)
  ultimately show thesis using r int_arg_small[of "length bs"] by (intro that[of ?s]) (simp_all add: call)
qed

end

section \<open>Saving and loading\<close>

lemma take_copied: "take (length bs) (copy_into 0 bs xs) = bs"
  by (simp add: copy_into_def)

text \<open>A file name as the editor stores it.\<close>

definition good_name :: "u8 list \<Rightarrow> bool" where
  "good_name p \<longleftrightarrow> p \<noteq> [] \<and> 0 \<notin> set p \<and> length p < EDITOR_FILENAME_MAX"

lemma status_lengths: "ed_strcpy_n (Some s) 80 = take 79 s"
  by (simp add: ed_strcpy_n_def)

lemma saved_status:
  "g_status_msg (ed_set_status (ascii ''saved'') e) = ascii ''saved''"
  "g_status_msg (ed_set_status (ascii ''save failed (open)'') e) \<noteq> ascii ''saved''"
  "g_status_msg (ed_set_status (ascii ''save failed (write)'') e) \<noteq> ascii ''saved''"
  by (simp_all add: ed_set_status_def status_lengths ascii_def)

context disk_driver
begin

lemma ed_save_run:
  assumes env: "e_drv env = k" "apart env" and inv: "sys_inv view ok s" and free: "\<not> fd_used (fd_table s ! 0)"
    and e: "ed_ok e" "good_name (g_path e)"
  obtains (failed) e' s' where "ed_save_file env (e, s) = Some (e', s')" and "sys_inv view ok s'" and "g_status_msg e' \<noteq> ascii ''saved''"
      and "g_dirty e' = g_dirty e"
  | (saved) e' s' n where "ed_save_file env (e, s) = Some (e', s')" and "sys_inv view ok s'" and "g_status_msg e' = ascii ''saved''"
      and "\<not> g_dirty e'" and "lookup (on_view view (k_fs s')) (g_path e) = Some n" and "is_file (inode (on_view view (k_fs s')) n)"
      and "contents (on_view view (k_fs s')) n = text_of e" and "\<not> fd_used (fd_table s' ! 0)" and "\<exists>j < 16. \<not> used (g_fds (k_fs s') ! j)"
proof -
  let ?s = "share env e s" and ?fl = "uint (1 OR 0x40 OR 0x200 :: u32)"
  have s: "sys_inv view ok ?s" "\<not> fd_used (fd_table ?s ! 0)" "k_fs ?s = k_fs s" using inv free by (simp_all add: share_def)
  have p: "user_string (mem ?s) (a_path env) = Some (g_path e)" "a_path env \<noteq> 0" and ne: "g_path e \<noteq> []"
    using share_path e(2) env(2) by (auto simp: good_name_def apart_def)
  have fl: "ucast (word_of_int ?fl :: u64) = (0x241 :: u32)" by simp
  show thesis
  proof (cases rule: ed_open_run[OF env(1) s(1,2) p fl])
    case (1 s')
    then show thesis using ne saved_status(2) by (intro failed[of "ed_set_status (ascii ''save failed (open)'') e" s']) (simp_all add: ed_save_file_def)
  next
    case (2 n j s1 t')
    have t1: "g_fds (k_fs s1) = (g_fds (k_fs s))[j := opened_fd n 0x241 t']"
      using arg_cong[OF 2(8), of g_fds] by (simp add: s(3))
    have len: "length (g_fds (k_fs s)) = 16" using fs_fds_length inv by (fastforce simp: sys_inv_def)
    have o: "lookup t' (g_path e) = Some n" "contents t' n = []" using 2(7) by (simp_all add: opened_def)
    have c: "contents (on_view view (k_fs s1)) n = []" "lookup (on_view view (k_fs s1)) (g_path e) = Some n" using o by (simp_all add: 2(8))
    have ab: "a_buf env \<noteq> 0" and gl: "g_len e < 8192" using env(2) e(1) by (simp_all add: apart_def ed_ok_def)
    have fe: "g_fds (k_fs s1) ! j = opened_fd n 0x241 t'" using t1 len 2(6) by simp
    obtain d s2 where w: "ed_sys_write env 0 (a_buf env) (g_len e) s1 = Some (int d, s2)" "d \<le> g_len e" "sys_inv view ok s2" "mem s2 = mem s1"
        "fd_used (fd_table s2 ! 0)" "aresfs_fd (fd_table s2 ! 0) = int j"
        "contents (on_view view (k_fs s2)) n = take d (mem_get (mem s1) (a_buf env) (g_len e))"
        "lookup (on_view view (k_fs s2)) = lookup (on_view view (k_fs s1))" "is_file (inode (on_view view (k_fs s2)) n)"
      by (rule ed_write_run[OF env(1) 2(2,4,5) ab gl fe c(1)])
    obtain s3 where x: "ed_sys_close env 0 s2 = Some s3" "sys_inv view ok s3" "\<not> fd_used (fd_table s3 ! 0)"
        "on_view view (k_fs s3) = (on_view view (k_fs s2))\<lparr>g_fds := (g_fds (k_fs s2))[j := zero_fd]\<rparr>"
      by (rule ed_close_run[OF env(1) w(3,5,6)])
    have "length (g_fds (k_fs s2)) = 16" using fs_fds_length w(3) by (fastforce simp: sys_inv_def)
    then have "\<not> used (g_fds (k_fs s3) ! j)" using arg_cong[OF x(4), of g_fds] 2(6) by (simp add: zero_fd_def)
    then have fd: "\<exists>j < 16. \<not> used (g_fds (k_fs s3) ! j)" using 2(6) by blast
    have b: "mem_get (mem s1) (a_buf env) (g_len e) = text_of e"
      using share_buf[OF env(2), of e "g_len e" s] e by (simp add: 2(3) good_name_def text_of_def ed_ok_def)
    show thesis
    proof (cases "d = g_len e")
      case True
      then show thesis using 2 w x c b fd e(1) ne saved_status(1)
        by (intro saved[of "ed_set_status (ascii ''saved'') (e\<lparr>g_dirty := False\<rparr>)" s3 n]) (simp_all add: ed_save_file_def)
    next
      case False
      then show thesis using 2 w x ne saved_status(3)
        by (intro failed[of "ed_set_status (ascii ''save failed (write)'') e" s3]) (simp_all add: ed_save_file_def)
    qed
  qed
qed

lemma ed_load_run:
  assumes env: "e_drv env = k" "apart env" and inv: "sys_inv view ok s" and free: "\<not> fd_used (fd_table s ! 0)" "\<exists>j < 16. \<not> used (g_fds (k_fs s) ! j)"
    and e: "length (g_buf e) = 8192" "good_name (g_path e)"
    and n: "lookup (on_view view (k_fs s)) (g_path e) = Some n" "is_file (inode (on_view view (k_fs s)) n)"
  obtains e' s' where "ed_load_file env (e, s) = Some (e', s')" and "sys_inv view ok s'" and "ed_ok e'"
    and "text_of e' = take 8191 (contents (on_view view (k_fs s)) n)" and "g_cursor e' = 0" and "\<not> g_dirty e'" and "g_path e' = g_path e"
proof -
  let ?e = "e\<lparr>g_len := 0, g_cursor := 0, g_view_off := 0, g_dirty := False\<rparr>"
  let ?s = "share env ?e s" and ?bs = "take 8191 (contents (on_view view (k_fs s)) n)"
  have s: "sys_inv view ok ?s" "\<not> fd_used (fd_table ?s ! 0)" "k_fs ?s = k_fs s" using inv free by (simp_all add: share_def)
  have p: "user_string (mem ?s) (a_path env) = Some (g_path e)" "a_path env \<noteq> 0" and ne: "g_path e \<noteq> []"
    using share_path[of ?e] e(2) env(2) by (auto simp: good_name_def apart_def)
  have fl: "ucast (word_of_int 0 :: u64) = (0 :: u32)" by simp
  show thesis
  proof (cases rule: ed_open_run[OF env(1) s(1,2) p fl])
    case (1 s')
    then show thesis using n free(2) by (auto simp: s(3))
  next
    case (2 m j s1 t')
    have o: "m = n" "contents t' n = contents (on_view view (k_fs s)) n" using 2(7) n by (simp_all add: opened_def s(3))
    have t0: "g_fds (k_fs s1) = (g_fds (k_fs s))[j := opened_fd n 0 t']" using arg_cong[OF 2(8), of g_fds] o by (simp add: s(3))
    have t1: "contents (on_view view (k_fs s1)) n = contents (on_view view (k_fs s)) n" using o by (simp add: 2(8))
    have len: "length (g_fds (k_fs s)) = 16" using fs_fds_length inv by (fastforce simp: sys_inv_def)
    have ab: "a_buf env \<noteq> 0" "8191 < (8192 :: nat)" using env(2) by (simp_all add: apart_def)
    have fe: "g_fds (k_fs s1) ! j = opened_fd n 0 t'" using t0 len 2(6) by simp
    obtain s2 where r: "ed_sys_read env 0 (a_buf env) 8191 s1 = Some (int (length ?bs), s2)" "sys_inv view ok s2"
        "mem s2 = mem_put (a_buf env) (copy_into 0 ?bs (mem_get (mem s1) (a_buf env) 8191)) (mem s1)"
        "fd_used (fd_table s2 ! 0)" "aresfs_fd (fd_table s2 ! 0) = int j"
      using ed_read_run[OF env(1) 2(2,4,5) ab fe] unfolding t1 by metis
    obtain s3 where x: "ed_sys_close env 0 s2 = Some s3" "sys_inv view ok s3" "mem s3 = mem s2"
      by (rule ed_close_run[OF env(1) r(2,4,5)])
    let ?m = "mem_get (mem s1) (a_buf env) 8191"
    have l: "length (copy_into 0 ?bs ?m) = 8191" by (simp add: mem_get_def)
    have "take (length ?bs) (mem_get (mem s3) (a_buf env) 8192) = mem_get (mem s3) (a_buf env) (length ?bs)"
      by (simp add: mem_get_def take_map min_def del: upt_rec_numeral)
    also have "\<dots> = take (length ?bs) (copy_into 0 ?bs ?m)"
      unfolding x(3) r(3) by (rule mem_get_put) (use l in simp_all)
    also have "\<dots> = ?bs" by (rule take_copied)
    finally have b: "take (length ?bs) (mem_get (mem s3) (a_buf env) 8192) = ?bs" .
    let ?e1 = "?e\<lparr>g_buf := mem_get (mem s3) (a_buf env) 8192\<rparr>"
    let ?e2 = "ed_set_status (ascii ''loaded'') (if int (length ?bs) > 0 then ?e1\<lparr>g_len := length ?bs\<rparr> else ?e1)"
    have run: "ed_load_file env (e, s) = Some (?e2, s3)" using 2(1) r(1) x(1) ne by (simp add: ed_load_file_def Let_def)
    have len2: "length (mem_get (mem s3) (a_buf env) 8192) = 8192" by (simp add: mem_get_def del: upt_rec_numeral)
    have "ed_ok ?e2" using len2 by (simp add: ed_ok_def min_less_iff_disj)
    moreover have "text_of ?e2 = ?bs" using b by (cases "length ?bs = 0") (simp_all add: text_of_def)
    ultimately show thesis by (intro that[OF run x(2)]) simp_all
  qed
qed

end

text \<open>
  C38: A saved text is loaded back. Over every disk driver that keeps its contract, with the arrays of the editor
  apart in memory and no other file open as descriptor 0, saving always comes back, with the descriptors and
  the file system in order. If the editor reports "saved", then opening the file of that name afterwards,
  whatever the buffer held before, gives exactly the text that was saved, through the system calls,
  the file system and the driver; if not, the text is still marked as changed.
\<close>

theorem saved_text_is_loaded:
  fixes s :: "'d kern"
  assumes D: "disk_driver (e_drv env) view ok" and a: "apart env" and inv: "sys_inv view ok s" and free: "\<not> fd_used (fd_table s ! 0)"
    and e: "ed_ok e" "good_name (g_path e)"
  shows "\<exists>e1 s1. ed_save_file env (e, s) = Some (e1, s1) \<and> sys_inv view ok s1 \<and>
    (if g_status_msg e1 = ascii ''saved'' then
       \<not> g_dirty e1 \<and> (\<forall>e2. length (g_buf e2) = 8192 \<and> g_path e2 = g_path e \<longrightarrow>
         (\<exists>e3 s3. ed_load_file env (e2, s1) = Some (e3, s3) \<and> sys_inv view ok s3 \<and> ed_ok e3 \<and> view_text e3 = (text_of e, 0) \<and> \<not> g_dirty e3))
     else g_dirty e1 = g_dirty e)"
proof (cases rule: disk_driver.ed_save_run[OF D refl a inv free e])
  case (1 e1 s1)
  then show ?thesis by (intro exI[of _ e1] exI[of _ s1]) simp
next
  case (2 e1 s1 n)
  have t: "take 8191 (text_of e) = text_of e" using e(1) by (simp add: ed_ok_def)
  have "\<exists>e3 s3. ed_load_file env (e2, s1) = Some (e3, s3) \<and> sys_inv view ok s3 \<and> ed_ok e3 \<and> view_text e3 = (text_of e, 0) \<and> \<not> g_dirty e3"
    if e2: "length (g_buf e2) = 8192" "g_path e2 = g_path e" for e2
  proof -
    have g: "good_name (g_path e2)" "lookup (on_view view (k_fs s1)) (g_path e2) = Some n" using e2 e(2) 2(5) by simp_all
    obtain e3 s3 where "ed_load_file env (e2, s1) = Some (e3, s3)" "sys_inv view ok s3" "ed_ok e3"
        "text_of e3 = take 8191 (contents (on_view view (k_fs s1)) n)" "g_cursor e3 = 0" "\<not> g_dirty e3"
      by (rule disk_driver.ed_load_run[OF D refl a 2(2,8,9) e2(1) g 2(6)])
    then show ?thesis using 2(7) t by (intro exI[of _ e3] exI[of _ s3]) (simp add: view_text_def)
  qed
  then show ?thesis using 2 by (intro exI[of _ e1] exI[of _ s1]) simp
qed

text \<open>
  C38, for the text \<^verbatim>\<open>hi\<close> saved as \<^verbatim>\<open>/a\<close> on a formatted disk.
\<close>

definition hi_editor :: editor where
  "hi_editor = \<lparr>g_buf = ascii ''hi'' @ replicate 8190 0, g_len = 2, g_cursor = 0, g_view_off = 0, g_path = ascii ''/a'', g_dirty = True, g_status_msg = []\<rparr>"

theorem saved_text_is_loaded_witness:
  "\<exists>e1 s1. ed_save_file \<lparr>e_drv = ideal, e_hlt = (\<lambda>_. None), e_ra = 0, a_buf = 0x10000, a_path = 0x8000\<rparr> (hi_editor, syscall_init blank_kern) = Some (e1, s1) \<and>
     sys_inv id whole_sectors s1 \<and> (g_status_msg e1 = ascii ''saved'' \<or> g_dirty e1)"
proof -
  let ?env = "\<lparr>e_drv = ideal, e_hlt = (\<lambda>_. None), e_ra = 0, a_buf = 0x10000, a_path = 0x8000\<rparr> :: sectors ed_env"
  have w: "whole_sectors (disk (fresh_state blank_fs))" unfolding fresh_state_def by (rule with_blk_whole[OF fresh_whole])
  have inv: "sys_inv id whole_sectors (syscall_init blank_kern)"
    by (rule syscall_init_inv) (use w fresh_inv(1)[OF blank_facts(2)] in simp_all)
  have D: "disk_driver (e_drv ?env) id whole_sectors" using ideal_disk.disk_driver_axioms by simp
  have "fd_table (syscall_init blank_kern) ! 0 = fd_slot 0 0"
    by (simp add: syscall_init_def Let_def on_con_def interrupt_set_dpl_def interrupt_register_handler_def)
  then have f: "\<not> fd_used (fd_table (syscall_init blank_kern) ! 0)" by simp
  have "apart ?env" "ed_ok hi_editor" "good_name (g_path hi_editor)" "g_dirty hi_editor"
    by (simp_all add: apart_def ed_ok_def hi_editor_def good_name_def ascii_def)
  then show ?thesis using saved_text_is_loaded[OF D _ inv f] by (metis (no_types, lifting))
qed

end
