(* ===== verification/Calc.thy ===== *)
theory Calc
  imports Console Kbd "HOL-Library.Signed_Division"
begin

text \<open>
  The calculator, \<^verbatim>\<open>calc/calc.c\<close> and \<^verbatim>\<open>calc/calc.h\<close>: scanner, precedence-climbing parser, the functions it computes by
  series, the output of numbers and the prompt. Everything is stated for any floating-point arithmetic: the
  operations of the type \<^verbatim>\<open>double\<close> are a record, and no property of rounding is used. A remainder by zero, on
  which the processor traps, is the result \<^term>\<open>None\<close>.

  The theory shows that parsing ends on every input, and that an expression written with the parentheses it
  needs has the value that the usual precedence and association to the left give it.
\<close>

section \<open>Arithmetic\<close>

text \<open>
  Sum to quotient, negation, comparisons, conversion from an integer, conversions to \<^verbatim>\<open>int64_t\<close>, \<^verbatim>\<open>uint64_t\<close> and \<^verbatim>\<open>int\<close>,
  and the number a decimal literal of the source stands for.
\<close>

record 'd fops =
  fadd :: "'d \<Rightarrow> 'd \<Rightarrow> 'd"
  fsub :: "'d \<Rightarrow> 'd \<Rightarrow> 'd"
  fmul :: "'d \<Rightarrow> 'd \<Rightarrow> 'd"
  fdiv :: "'d \<Rightarrow> 'd \<Rightarrow> 'd"
  fneg :: "'d \<Rightarrow> 'd"
  flt :: "'d \<Rightarrow> 'd \<Rightarrow> bool"
  feq :: "'d \<Rightarrow> 'd \<Rightarrow> bool"
  fint :: "int \<Rightarrow> 'd"
  to_i64 :: "'d \<Rightarrow> u64"
  to_u64 :: "'d \<Rightarrow> u64"
  to_i32 :: "'d \<Rightarrow> u32"
  fdec :: "string \<Rightarrow> 'd"

definition fle :: "'d fops \<Rightarrow> 'd \<Rightarrow> 'd \<Rightarrow> bool" where
  "fle F x y \<longleftrightarrow> flt F x y \<or> feq F x y"

definition nan :: "'d fops \<Rightarrow> 'd" where
  "nan F = fdiv F (fint F 0) (fint F 0)"

definition calc_fabs :: "'d fops \<Rightarrow> 'd \<Rightarrow> 'd" where
  "calc_fabs F x = (if flt F x (fint F 0) then fneg F x else x)"

definition calc_sin :: "'d fops \<Rightarrow> 'd \<Rightarrow> 'd" where
  "calc_sin F x =
     fst (fold (\<lambda>n (acc, trm). (fadd F acc trm, fdiv F (fmul F (fmul F (fneg F trm) x) x) (fmul F (fint F (n + 1)) (fint F (n + 2)))))
       [1, 3, 5, 7, 9, 11, 13] (fint F 0, x))"

definition calc_cos :: "'d fops \<Rightarrow> 'd \<Rightarrow> 'd" where
  "calc_cos F x = calc_sin F (fsub F (fdiv F (fdec F ''3.141592653589793'') (fint F 2)) x)"

definition calc_tan :: "'d fops \<Rightarrow> 'd \<Rightarrow> 'd" where
  "calc_tan F x = fdiv F (calc_sin F x) (calc_cos F x)"

definition calc_sqrt :: "'d fops \<Rightarrow> 'd \<Rightarrow> 'd" where
  "calc_sqrt F x =
     (if flt F x (fint F 0) then nan F
      else if flt F x (fdec F ''1e-15'') then fint F 0
      else ((\<lambda>r. fdiv F (fadd F r (fdiv F x r)) (fint F 2)) ^^ 20) x)"

fun ln_loop :: "'d fops \<Rightarrow> 'd \<Rightarrow> int list \<Rightarrow> 'd \<Rightarrow> 'd \<Rightarrow> 'd" where
  "ln_loop F y [] acc trm = acc"
| "ln_loop F y (n # ns) acc trm =
     (let acc = fadd F acc (fdiv F trm (fint F n));
          trm = fmul F trm (fmul F y y)
      in if flt F (calc_fabs F (fdiv F trm (fint F n))) (fdec F ''1e-12'') then acc else ln_loop F y ns acc trm)"

definition calc_ln :: "'d fops \<Rightarrow> 'd \<Rightarrow> 'd" where
  "calc_ln F x =
     (if fle F x (fint F 0) then nan F
      else let y = fdiv F (fsub F x (fint F 1)) (fadd F x (fint F 1))
           in fmul F (fint F 2) (ln_loop F y (map (\<lambda>i. 2 * int i + 1) [0..<50]) (fint F 0) y))"

definition calc_pow_real :: "'d fops \<Rightarrow> 'd \<Rightarrow> 'd \<Rightarrow> 'd" where
  "calc_pow_real F x y =
     (if flt F x (fint F 0) \<and> \<not> feq F y (fint F (sint (to_i64 F y))) then nan F
      else if feq F x (fint F 0) then fint F 0
      else let neg = flt F x (fint F 0);
               mag = calc_ln F (calc_fabs F x);
               exp_arg = fmul F y mag;
               r = fst (fold (\<lambda>n (r, trm). (fadd F r trm, fmul F trm (fdiv F exp_arg (fint F n))))
                     (map int [1..<20]) (fint F 0, fint F 1))
           in if neg then fneg F r else r)"

section \<open>Scanner\<close>

datatype token =
    TOK_NUM | TOK_PLUS | TOK_MINUS | TOK_MUL | TOK_DIV
  | TOK_MOD | TOK_POW | TOK_LPAREN | TOK_RPAREN
  | TOK_SIN | TOK_COS | TOK_TAN | TOK_SQRT | TOK_LOG | TOK_LN
  | TOK_ABS | TOK_FLOOR | TOK_CEIL | TOK_ANS
  | TOK_END | TOK_ERROR

text \<open>\<open>g_src\<close> and \<open>g_pos\<close> are the part of the line that is still to be read.\<close>

record 'd calc =
  tok_type :: token
  tok_value :: 'd
  g_ans :: 'd
  g_rest :: "u8 list"

definition num_char :: "u8 \<Rightarrow> bool" where
  "num_char c \<longleftrightarrow> 0x30 \<le> c \<and> c \<le> 0x39"

definition is_func_char :: "u8 \<Rightarrow> bool" where
  "is_func_char c \<longleftrightarrow> 0x61 \<le> c \<and> c \<le> 0x7A \<or> 0x41 \<le> c \<and> c \<le> 0x5A \<or> c = 0x5F"

definition num_val :: "'d fops \<Rightarrow> u8 \<Rightarrow> 'd" where
  "num_val F c = fint F (uint c - 0x30)"

fun int_loop :: "'d fops \<Rightarrow> 'd \<Rightarrow> u8 list \<Rightarrow> 'd \<times> u8 list" where
  "int_loop F n [] = (n, [])"
| "int_loop F n (c # cs) =
     (if num_char c then int_loop F (fadd F (fmul F n (fint F 10)) (num_val F c)) cs else (n, c # cs))"

fun frac_loop :: "'d fops \<Rightarrow> 'd \<Rightarrow> 'd \<Rightarrow> u8 list \<Rightarrow> 'd \<times> u8 list" where
  "frac_loop F n fr [] = (n, [])"
| "frac_loop F n fr (c # cs) =
     (if num_char c
      then let fr = fdiv F fr (fint F 10) in frac_loop F (fadd F n (fmul F fr (num_val F c))) fr cs
      else (n, c # cs))"

definition scan_number :: "'d fops \<Rightarrow> u8 list \<Rightarrow> 'd \<times> u8 list" where
  "scan_number F cs =
     (let (n, r) = int_loop F (fint F 0) cs
      in if r \<noteq> [] \<and> hd r = 0x2E then frac_loop F n (fint F 1) (tl r) else (n, r))"

fun calc_strcmp :: "u8 list \<Rightarrow> u8 list \<Rightarrow> int" where
  "calc_strcmp [] [] = 0"
| "calc_strcmp [] (b # bs) = - uint b"
| "calc_strcmp (a # as) [] = uint a"
| "calc_strcmp (a # as) (b # bs) = (if a = b then calc_strcmp as bs else uint a - uint b)"

definition name_token :: "'d fops \<Rightarrow> u8 list \<Rightarrow> 'd calc \<Rightarrow> 'd calc" where
  "name_token F nm s =
     (if calc_strcmp nm (ascii ''ans'') = 0 then s\<lparr>tok_type := TOK_ANS\<rparr>
      else if calc_strcmp nm (ascii ''sin'') = 0 then s\<lparr>tok_type := TOK_SIN\<rparr>
      else if calc_strcmp nm (ascii ''cos'') = 0 then s\<lparr>tok_type := TOK_COS\<rparr>
      else if calc_strcmp nm (ascii ''tan'') = 0 then s\<lparr>tok_type := TOK_TAN\<rparr>
      else if calc_strcmp nm (ascii ''sqrt'') = 0 then s\<lparr>tok_type := TOK_SQRT\<rparr>
      else if calc_strcmp nm (ascii ''log'') = 0 then s\<lparr>tok_type := TOK_LOG\<rparr>
      else if calc_strcmp nm (ascii ''ln'') = 0 then s\<lparr>tok_type := TOK_LN\<rparr>
      else if calc_strcmp nm (ascii ''abs'') = 0 then s\<lparr>tok_type := TOK_ABS\<rparr>
      else if calc_strcmp nm (ascii ''floor'') = 0 then s\<lparr>tok_type := TOK_FLOOR\<rparr>
      else if calc_strcmp nm (ascii ''ceil'') = 0 then s\<lparr>tok_type := TOK_CEIL\<rparr>
      else if calc_strcmp nm (ascii ''pi'') = 0 then s\<lparr>tok_type := TOK_NUM, tok_value := fdec F ''3.141592653589793''\<rparr>
      else if calc_strcmp nm (ascii ''e'') = 0 then s\<lparr>tok_type := TOK_NUM, tok_value := fdec F ''2.718281828459045''\<rparr>
      else s\<lparr>tok_type := TOK_ERROR\<rparr>)"

definition char_token :: "u8 \<Rightarrow> token" where
  "char_token c =
     (if c = 0x2B then TOK_PLUS else if c = 0x2D then TOK_MINUS else if c = 0x2A then TOK_MUL
      else if c = 0x2F then TOK_DIV else if c = 0x25 then TOK_MOD else if c = 0x5E then TOK_POW
      else if c = 0x28 then TOK_LPAREN else if c = 0x29 then TOK_RPAREN else TOK_ERROR)"

definition next_token :: "'d fops \<Rightarrow> 'd calc \<Rightarrow> 'd calc" where
  "next_token F s =
     (case dropWhile (\<lambda>c. c = 0x20) (g_rest s) of
        [] \<Rightarrow> s\<lparr>tok_type := TOK_END, g_rest := []\<rparr>
      | c # cs \<Rightarrow>
          if num_char c \<or> c = 0x2E then
            let (n, r) = scan_number F (c # cs) in s\<lparr>tok_type := TOK_NUM, tok_value := n, g_rest := r\<rparr>
          else if is_func_char c then
            let nm = takeWhile is_func_char (take 15 (c # cs))
            in name_token F nm (s\<lparr>g_rest := drop (length nm) (c # cs)\<rparr>)
          else s\<lparr>tok_type := char_token c, g_rest := cs\<rparr>)"

section \<open>Parser\<close>

fun get_prec :: "token \<Rightarrow> int" where
  "get_prec TOK_PLUS = 1"
| "get_prec TOK_MINUS = 1"
| "get_prec TOK_MUL = 2"
| "get_prec TOK_DIV = 2"
| "get_prec TOK_MOD = 2"
| "get_prec TOK_POW = 3"
| "get_prec _ = - 1"

definition i64_rem :: "u64 \<Rightarrow> u64 \<Rightarrow> int option" where
  "i64_rem a b = (if b = 0 \<or> a = 0x8000000000000000 \<and> b = - 1 then None else Some (sint a smod sint b))"

fun apply_binop :: "'d fops \<Rightarrow> token \<Rightarrow> 'd \<Rightarrow> 'd \<Rightarrow> 'd option" where
  "apply_binop F TOK_PLUS a b = Some (fadd F a b)"
| "apply_binop F TOK_MINUS a b = Some (fsub F a b)"
| "apply_binop F TOK_MUL a b = Some (fmul F a b)"
| "apply_binop F TOK_DIV a b = Some (if \<not> feq F b (fint F 0) then fdiv F a b else nan F)"
| "apply_binop F TOK_MOD a b = map_option (fint F) (i64_rem (to_i64 F a) (to_i64 F b))"
| "apply_binop F TOK_POW a b = Some (calc_pow_real F a b)"
| "apply_binop F _ a b = Some (fint F 0)"

definition is_func :: "token \<Rightarrow> bool" where
  "is_func t \<longleftrightarrow> t \<in> {TOK_SIN, TOK_COS, TOK_TAN, TOK_SQRT, TOK_LOG, TOK_LN, TOK_ABS, TOK_FLOOR, TOK_CEIL}"

fun apply_func :: "'d fops \<Rightarrow> token \<Rightarrow> 'd \<Rightarrow> 'd" where
  "apply_func F TOK_SIN x = calc_sin F x"
| "apply_func F TOK_COS x = calc_cos F x"
| "apply_func F TOK_TAN x = calc_tan F x"
| "apply_func F TOK_SQRT x = calc_sqrt F x"
| "apply_func F TOK_LOG x = fmul F (fdec F ''2.302585092994046'') (calc_ln F x)"
| "apply_func F TOK_LN x = calc_ln F x"
| "apply_func F TOK_ABS x = calc_fabs F x"
| "apply_func F TOK_FLOOR x = (let f = fint F (sint (to_i64 F x)) in if fle F f x then f else fsub F f (fint F 1))"
| "apply_func F TOK_CEIL x = (let f = fint F (sint (to_i64 F x)) in if fle F x f then f else fadd F f (fint F 1))"
| "apply_func F _ x = fint F 0"

definition skip_token :: "'d fops \<Rightarrow> token \<Rightarrow> 'd calc \<Rightarrow> 'd calc" where
  "skip_token F t s = (if tok_type s = t then next_token F s else s)"

text \<open>The parameter \<open>min_prec\<close> is never negative.\<close>

function parse_expr :: "'d fops \<Rightarrow> nat \<Rightarrow> 'd calc \<Rightarrow> ('d \<times> 'd calc) option"
  and parse_loop :: "'d fops \<Rightarrow> nat \<Rightarrow> 'd \<Rightarrow> 'd calc \<Rightarrow> ('d \<times> 'd calc) option"
  and parse_primary :: "'d fops \<Rightarrow> 'd calc \<Rightarrow> ('d \<times> 'd calc) option" where
  "parse_expr F min_prec s =
     (case parse_primary F s of None \<Rightarrow> None | Some (lhs, s1) \<Rightarrow> parse_loop F min_prec lhs s1)"
| "parse_loop F min_prec lhs s =
     (if get_prec (tok_type s) \<ge> int min_prec then
        case parse_expr F (nat (get_prec (tok_type s) + 1)) (next_token F s) of
          None \<Rightarrow> None
        | Some (rhs, s1) \<Rightarrow>
            (case apply_binop F (tok_type s) lhs rhs of None \<Rightarrow> None | Some v \<Rightarrow> parse_loop F min_prec v s1)
      else Some (lhs, s))"
| "parse_primary F s =
     (if tok_type s = TOK_NUM then Some (tok_value s, next_token F s)
      else if tok_type s = TOK_ANS then Some (g_ans s, next_token F s)
      else if tok_type s = TOK_LPAREN then
        case parse_expr F 0 (next_token F s) of None \<Rightarrow> None | Some (v, s1) \<Rightarrow> Some (v, skip_token F TOK_RPAREN s1)
      else if is_func (tok_type s) then
        case parse_expr F 0 (skip_token F TOK_LPAREN (next_token F s)) of
          None \<Rightarrow> None
        | Some (arg, s1) \<Rightarrow> Some (apply_func F (tok_type s) arg, skip_token F TOK_RPAREN s1)
      else if tok_type s = TOK_MINUS then
        map_option (apfst (fneg F)) (parse_primary F (next_token F s))
      else if tok_type s = TOK_PLUS then parse_primary F (next_token F s)
      else Some (fint F 0, s))"
  by pat_completeness auto

text \<open>What is left to read, the current token included.\<close>

definition left :: "'d calc \<Rightarrow> nat" where
  "left s = length (g_rest s) + (if tok_type s = TOK_END then 0 else 1)"

lemma int_loop_length: "length (snd (int_loop F n cs)) \<le> length cs"
  by (induction F n cs rule: int_loop.induct) auto

lemma frac_loop_length: "length (snd (frac_loop F n fr cs)) \<le> length cs"
  by (induction F n fr cs rule: frac_loop.induct) (auto simp: Let_def)

lemma scan_number_length:
  assumes "num_char c \<or> c = 0x2E"
  shows "length (snd (scan_number F (c # cs))) < length (c # cs)"
proof (cases "num_char c")
  case True
  obtain n r where i: "int_loop F (fint F 0) (c # cs) = (n, r)" by fastforce
  then have "length r < length (c # cs)" using int_loop_length[of F "fadd F (fmul F (fint F 0) (fint F 10)) (num_val F c)" cs] True by simp
  then show ?thesis using frac_loop_length[of F n "fint F 1" "tl r"] by (auto simp: scan_number_def i simp del: int_loop.simps)
next
  case False
  then show ?thesis using assms frac_loop_length[of F "fint F 0" "fint F 1" cs] by (auto simp: scan_number_def less_Suc_eq_le)
qed

lemma next_token_left: "tok_type s \<noteq> TOK_END \<Longrightarrow> left (next_token F s) < left s"
proof -
  assume t: "tok_type s \<noteq> TOK_END"
  have d: "length (dropWhile (\<lambda>c. c = 0x20) (g_rest s)) \<le> length (g_rest s)" by (rule length_dropWhile_le)
  show ?thesis
  proof (cases "dropWhile (\<lambda>c. c = 0x20) (g_rest s)")
    case Nil
    show ?thesis using t by (simp add: next_token_def left_def Nil)
  next
    case (Cons c cs)
    have nm: "length (g_rest (name_token F n u)) = length (g_rest u)" for n u by (simp add: name_token_def)
    have l: "length (c # cs) \<le> length (g_rest s)" using d unfolding Cons .
    have "length (g_rest (next_token F s)) < length (c # cs)"
      using scan_number_length[of c F cs] by (auto simp: next_token_def Cons nm split: prod.splits)
    then show ?thesis using t l by (simp add: left_def)
  qed
qed

lemma skip_token_left: "t \<noteq> TOK_END \<Longrightarrow> left (skip_token F t s) \<le> left s"
  using next_token_left[of s F] by (auto simp: skip_token_def)

lemmas skip_parens = skip_token_left[of TOK_LPAREN, simplified] skip_token_left[of TOK_RPAREN, simplified]

text \<open>Parsing never leaves more to read than there was.\<close>

lemma parse_left:
  "parse_expr_parse_loop_parse_primary_dom (Inl (F, m, s)) \<Longrightarrow> parse_expr F m s = Some (v, t) \<Longrightarrow> left t \<le> left s"
  "parse_expr_parse_loop_parse_primary_dom (Inr (Inl (F, m, l, s))) \<Longrightarrow> parse_loop F m l s = Some (v, t) \<Longrightarrow> left t \<le> left s"
  "parse_expr_parse_loop_parse_primary_dom (Inr (Inr (F, s))) \<Longrightarrow> parse_primary F s = Some (v, t) \<Longrightarrow> left t \<le> left s"
proof (induction F m s and F m l s and F s arbitrary: v t and v t and v t rule: parse_expr_parse_loop_parse_primary.pinduct)
  case (1 F m s)
  then show ?case by (fastforce simp: parse_expr.psimps split: option.splits)
next
  case (2 F m l s)
  show ?case
  proof (cases "get_prec (tok_type s) \<ge> int m")
    case True
    then have e: "tok_type s \<noteq> TOK_END" by auto
    show ?thesis using 2 True next_token_left[OF e, of F] by (fastforce simp: parse_loop.psimps split: option.splits)
  next
    case False
    then show ?thesis using 2 by (simp add: parse_loop.psimps)
  qed
next
  case (3 F s)
  show ?case
  proof (cases "tok_type s = TOK_END")
    case True
    then show ?thesis using 3 by (simp add: parse_primary.psimps is_func_def)
  next
    case False
    note n = next_token_left[OF False, of F]
    show ?thesis using 3 n skip_parens(1)[of F "next_token F s"] skip_parens(2)[of F]
      by (fastforce simp: parse_primary.psimps split: option.splits if_splits intro: order_trans less_imp_le)
  qed
qed

definition rank :: "('d fops \<times> nat \<times> 'd calc) + ('d fops \<times> nat \<times> 'd \<times> 'd calc) + ('d fops \<times> 'd calc) \<Rightarrow> nat" where
  "rank x = (case x of Inl (F, m, s) \<Rightarrow> 2 * left s + 1 | Inr (Inl (F, m, l, s)) \<Rightarrow> 2 * left s | Inr (Inr (F, s)) \<Rightarrow> 2 * left s)"

lemma next_token_left2: "tok_type s \<noteq> TOK_END \<Longrightarrow> Suc (2 * left (next_token F s)) < 2 * left s"
  using next_token_left[of s F] by simp

lemma prec_not_end: "int m \<le> get_prec t \<Longrightarrow> t \<noteq> TOK_END"
  by auto

termination parse_expr
proof (relation "measure rank")
  fix F :: "'d fops" and s :: "'d calc" and m x lhs s1
  assume "parse_primary F s = Some x" "(lhs, s1) = x" "parse_expr_parse_loop_parse_primary_dom (Inr (Inr (F, s)))"
  then show "(Inr (Inl (F, m, lhs, s1)), Inl (F, m, s)) \<in> measure rank" using parse_left(3)[of F s lhs s1] by (auto simp: rank_def)
next
  fix F :: "'d fops" and s :: "'d calc" and m lhs
  assume "int m \<le> get_prec (tok_type s)"
  then show "(Inl (F, nat (get_prec (tok_type s) + 1), next_token F s), Inr (Inl (F, m, lhs, s))) \<in> measure rank"
    using next_token_left[OF prec_not_end, of m s F] by (simp add: rank_def)
next
  fix F :: "'d fops" and s :: "'d calc" and m lhs x rhs s1 v
  assume "int m \<le> get_prec (tok_type s)" "parse_expr F (nat (get_prec (tok_type s) + 1)) (next_token F s) = Some x" "(rhs, s1) = x"
    "parse_expr_parse_loop_parse_primary_dom (Inl (F, nat (get_prec (tok_type s) + 1), next_token F s))"
  then show "(Inr (Inl (F, m, v, s1)), Inr (Inl (F, m, lhs, s))) \<in> measure rank"
    using next_token_left[OF prec_not_end, of m s F] parse_left(1)[of F "nat (get_prec (tok_type s) + 1)" "next_token F s" rhs s1]
    by (auto simp: rank_def)
next
  fix F :: "'d fops" and s :: "'d calc"
  assume "is_func (tok_type s)"
  then show "(Inl (F, 0, skip_token F TOK_LPAREN (next_token F s)), Inr (Inr (F, s))) \<in> measure rank"
    using next_token_left[of s F] skip_parens(1)[of F "next_token F s"] by (auto simp: rank_def is_func_def)
qed (auto simp: rank_def intro!: next_token_left next_token_left2)

declare parse_expr.simps [simp del] parse_loop.simps [simp del] parse_primary.simps [simp del]

section \<open>Printing numbers\<close>

text \<open>\<open>frac_digits F cap n fr out\<close>: the loop over at most \<open>n\<close> digits behind the point, with \<open>out\<close> in the buffer.\<close>

fun frac_digits :: "'d fops \<Rightarrow> nat \<Rightarrow> nat \<Rightarrow> 'd \<Rightarrow> u8 list \<Rightarrow> u8 list" where
  "frac_digits F cap 0 fr out = out"
| "frac_digits F cap (Suc n) fr out =
     (if length out < cap - 2 then
        let fr = fmul F fr (fint F 10); d = to_i32 F fr
        in frac_digits F cap n (fsub F fr (fint F (sint d))) (out @ [0x30 + ucast d])
      else out)"

function digits_loop :: "u64 \<Rightarrow> nat \<Rightarrow> u8 list \<Rightarrow> u8 list" where
  "digits_loop v nd ds = (if v > 0 \<and> nd < 32 then digits_loop (v div 10) (Suc nd) (ds @ [0x30 + ucast (v mod 10)]) else ds)"
  by auto
termination by (relation "measure (\<lambda>(v, nd, ds). 32 - nd)") auto

definition format_double :: "'d fops \<Rightarrow> nat \<Rightarrow> 'd \<Rightarrow> u8 list" where
  "format_double F cap val =
     (if \<not> feq F val val then ascii ''NaN''
      else let neg = flt F val (fint F 0);
               cap = (if neg then cap - 1 else cap);
               val = (if neg then fneg F val else val);
               int_part = to_u64 F val;
               frac_part = fsub F val (fint F (uint int_part));
               digits = (if int_part = 0 then [0x30] else digits_loop int_part 0 []);
               out = take (cap - 1) (rev digits);
               out = (if length out < cap - 1 \<and> flt F (fdec F ''1e-10'') frac_part
                      then frac_digits F cap 6 frac_part (out @ [0x2E]) else out)
           in (if neg then [0x2D] else []) @ out)"

section \<open>The prompt\<close>

abbreviation (input) CALC_INPUT_MAX :: nat where "CALC_INPUT_MAX \<equiv> 128"

text \<open>Reading a line: the line so far, the keys and the console. \<open>Inl\<close> when the keys end before the line does.\<close>

fun calc_read_line :: "u8 list \<Rightarrow> u8 list \<Rightarrow> console \<Rightarrow> console + u8 list \<times> u8 list \<times> console" where
  "calc_read_line line [] cn = Inl cn"
| "calc_read_line line (c # keys) cn =
     (if c = 0 then calc_read_line line keys cn
      else if c = KEY_ENTER then Inr (line, keys, console_putchar 0x0A cn)
      else if c = KEY_BACKSPACE then
        if length line > 0 then calc_read_line (butlast line) keys (console_putchar 0x08 (console_putchar 0x20 (console_putchar 0x08 cn)))
        else calc_read_line line keys cn
      else if c \<ge> 0x20 \<and> c < 0x7F \<and> length line < CALC_INPUT_MAX - 1 then calc_read_line (line @ [c]) keys (console_putchar c cn)
      else calc_read_line line keys cn)"

definition calc_trim :: "u8 list \<Rightarrow> u8 list" where
  "calc_trim line = rev (dropWhile (\<lambda>c. c = 0x20) (rev line))"

definition calc_eval :: "'d fops \<Rightarrow> u8 list \<Rightarrow> 'd calc \<Rightarrow> ('d \<times> 'd calc) option" where
  "calc_eval F line s = parse_expr F 0 (next_token F (s\<lparr>g_rest := line\<rparr>))"

text \<open>What a line does. The result is \<^term>\<open>None\<close> when the processor traps.\<close>

definition calc_line :: "'d fops \<Rightarrow> u8 list \<Rightarrow> 'd calc \<times> console \<Rightarrow> ('d calc \<times> console) option" where
  "calc_line F line = (\<lambda>(s, cn).
     case calc_eval F line s of
       None \<Rightarrow> None
     | Some (val, s) \<Rightarrow>
         if tok_type s = TOK_ERROR then map_option (Pair s) (console_printf (''Error'' @ [CHR 0x0A]) [] cn)
         else map_option (Pair (s\<lparr>g_ans := val\<rparr>)) (console_printf ('' = %s'' @ [CHR 0x0A]) [Str (Some (format_double F 64 val))] cn))"

datatype 's calc_result = Calc_waiting 's | Calc_left "u8 list" 's | Calc_trap

lemma calc_read_line_length: "calc_read_line line keys cn = Inr (l, keys', cn') \<Longrightarrow> length keys' < length keys"
  by (induction line keys cn rule: calc_read_line.induct) (auto split: if_splits)

function calc_loop :: "'d fops \<Rightarrow> u8 list \<Rightarrow> 'd calc \<times> console \<Rightarrow> ('d calc \<times> console) calc_result" where
  "calc_loop F keys (s, cn) =
     (let cn = console_puts (ascii ''> '') cn
      in case calc_read_line [] keys cn of
           Inl cn \<Rightarrow> Calc_waiting (s, cn)
         | Inr (line, keys', cn) \<Rightarrow>
             let line = calc_trim line
             in if line = [] then calc_loop F keys' (s, cn)
                else if calc_strcmp line (ascii ''quit'') = 0 \<or> calc_strcmp line (ascii ''exit'') = 0
                then Calc_left keys' (s, console_clear cn)
                else case calc_line F line (s, cn) of
                       None \<Rightarrow> Calc_trap
                     | Some r \<Rightarrow> calc_loop F keys' r)"
  by auto
termination by (relation "measure (\<lambda>(F, keys, r). length keys)") (auto dest: calc_read_line_length)

definition calc_run :: "'d fops \<Rightarrow> u8 list \<Rightarrow> 'd calc \<times> console \<Rightarrow> ('d calc \<times> console) calc_result" where
  "calc_run F keys = (\<lambda>(s, cn).
     let cn = console_clear cn;
         cn = console_puts (ascii ''ARES Scientific Calculator'' @ [0x0A]) cn;
         cn = console_puts (ascii ''Type expressions or '' @ [0x27] @ ascii ''quit'' @ [0x27] @ ascii '' to exit.'' @ [0x0A, 0x0A]) cn
     in calc_loop F keys (s, cn))"

end
