(* ===== verification/Calc_Correct.thy ===== *)
theory Calc_Correct
  imports Calc
begin

text \<open>
  The calculator reads expressions as they are meant: for every expression and every floating-point arithmetic,
  the text with the parentheses that precedence and association to the left require has the value of the
  expression.
\<close>

section \<open>Expressions\<close>

text \<open>Literals, the last result, binary operations, negation and functions.\<close>

datatype aexp = Lit "u8 list" | Ans | Bin token aexp aexp | Neg aexp | App token aexp

definition good_lit :: "u8 list \<Rightarrow> bool" where
  "good_lit l \<longleftrightarrow> l \<noteq> [] \<and> (let r = dropWhile num_char l in r = [] \<or> hd r = 0x2E \<and> list_all num_char (tl r))"

definition is_op :: "token \<Rightarrow> bool" where
  "is_op t \<longleftrightarrow> t \<in> {TOK_PLUS, TOK_MINUS, TOK_MUL, TOK_DIV, TOK_MOD, TOK_POW}"

fun op_char :: "token \<Rightarrow> u8" where
  "op_char TOK_PLUS = 0x2B" | "op_char TOK_MINUS = 0x2D" | "op_char TOK_MUL = 0x2A"
| "op_char TOK_DIV = 0x2F" | "op_char TOK_MOD = 0x25" | "op_char _ = 0x5E"

fun fn_name :: "token \<Rightarrow> u8 list" where
  "fn_name TOK_SIN = ascii ''sin''" | "fn_name TOK_COS = ascii ''cos''" | "fn_name TOK_TAN = ascii ''tan''"
| "fn_name TOK_SQRT = ascii ''sqrt''" | "fn_name TOK_LOG = ascii ''log''" | "fn_name TOK_LN = ascii ''ln''"
| "fn_name TOK_ABS = ascii ''abs''" | "fn_name TOK_FLOOR = ascii ''floor''" | "fn_name _ = ascii ''ceil''"

fun wf_exp :: "aexp \<Rightarrow> bool" where
  "wf_exp (Lit l) = good_lit l"
| "wf_exp Ans = True"
| "wf_exp (Bin t l r) = (is_op t \<and> wf_exp l \<and> wf_exp r)"
| "wf_exp (Neg e) = wf_exp e"
| "wf_exp (App t e) = (is_func t \<and> wf_exp e)"

text \<open>The text of an expression where an operand of precedence \<open>q\<close> or more is expected.\<close>

fun show_exp :: "nat \<Rightarrow> aexp \<Rightarrow> u8 list" where
  "show_exp q (Lit l) = l"
| "show_exp q Ans = ascii ''ans''"
| "show_exp q (Bin t l r) =
     (let p = nat (get_prec t); body = show_exp p l @ [op_char t] @ show_exp (p + 1) r
      in if p < q then [0x28] @ body @ [0x29] else body)"
| "show_exp q (Neg e) = 0x2D # show_exp 4 e"
| "show_exp q (App t e) = fn_name t @ [0x28] @ show_exp 0 e @ [0x29]"

text \<open>Its value, where \<open>a\<close> is the last result; \<^term>\<open>None\<close> if the processor traps.\<close>

fun eval :: "'d fops \<Rightarrow> 'd \<Rightarrow> aexp \<Rightarrow> 'd option" where
  "eval F a (Lit l) = Some (fst (scan_number F l))"
| "eval F a Ans = Some a"
| "eval F a (Bin t l r) = (case eval F a l of None \<Rightarrow> None | Some x \<Rightarrow> (case eval F a r of None \<Rightarrow> None | Some y \<Rightarrow> apply_binop F t x y))"
| "eval F a (Neg e) = map_option (fneg F) (eval F a e)"
| "eval F a (App t e) = map_option (apply_func F t) (eval F a e)"

section \<open>Tokens\<close>

definition stops :: "u8 list \<Rightarrow> bool" where
  "stops rest \<longleftrightarrow> rest = [] \<or> (\<not> num_char (hd rest) \<and> hd rest \<noteq> 0x2E \<and> \<not> is_func_char (hd rest) \<and> hd rest \<noteq> 0x20)"

text \<open>The scanner stands at a text: the current token is its first one.\<close>

definition at_text :: "'d fops \<Rightarrow> 'd \<Rightarrow> u8 list \<Rightarrow> 'd calc \<Rightarrow> bool" where
  "at_text F a tx s \<longleftrightarrow> (\<exists>u. s = next_token F u \<and> g_rest u = tx \<and> g_ans u = a)"

lemma name_token_ans [simp]: "g_ans (name_token F n s) = g_ans s" "g_rest (name_token F n s) = g_rest s"
  by (simp_all add: name_token_def)

lemma next_token_ans [simp]: "g_ans (next_token F s) = g_ans s"
  by (auto simp: next_token_def split: list.splits prod.splits)

lemma at_ans: "at_text F a tx s \<Longrightarrow> g_ans s = a"
  by (auto simp: at_text_def)

lemma at_next: "at_text F a tx s \<Longrightarrow> g_rest s = tx' \<Longrightarrow> at_text F a tx' (next_token F s)"
  using at_ans by (auto simp: at_text_def)

lemma at_char:
  assumes "at_text F a (c # tx) s" and "stops [c]"
  shows "tok_type s = char_token c" and "g_rest s = tx"
  using assms by (auto simp: at_text_def stops_def next_token_def)

lemma at_end: "at_text F a [] s \<Longrightarrow> tok_type s = TOK_END"
  by (auto simp: at_text_def next_token_def)

lemma int_loop_append: "stops rest \<or> hd rest = 0x2E \<Longrightarrow> list_all num_char l \<Longrightarrow> \<not> num_char 0x2E \<Longrightarrow>
    int_loop F n (l @ rest) = (fst (int_loop F n l), rest)"
proof (induction l arbitrary: n)
  case Nil
  then show ?case by (cases rest) (auto simp: stops_def)
qed simp

lemma frac_loop_append: "stops rest \<Longrightarrow> list_all num_char l \<Longrightarrow> frac_loop F n fr (l @ rest) = (fst (frac_loop F n fr l), rest)"
proof (induction l arbitrary: n fr)
  case Nil
  then show ?case by (cases rest) (auto simp: stops_def)
qed (simp add: Let_def)

lemma no_dot [simp]: "\<not> num_char 0x2E" "\<not> num_char 0x20" "\<not> is_func_char 0x28" "\<not> num_char 0x28"
  by (simp_all add: num_char_def is_func_char_def)

lemma good_litE:
  assumes "good_lit l"
  obtains (int) "list_all num_char l" and "l \<noteq> []" | (frac) i f where "l = i @ 0x2E # f" and "list_all num_char i" and "list_all num_char f"
proof (cases "dropWhile num_char l")
  case Nil
  then have "list_all num_char l" by (simp add: list_all_iff)
  then show thesis using assms int by (simp add: good_lit_def)
next
  case (Cons c cs)
  then have c: "c = 0x2E" "list_all num_char cs" using assms by (simp_all add: good_lit_def Let_def)
  have "l = takeWhile num_char l @ 0x2E # cs" using takeWhile_dropWhile_id[of num_char l] Cons c(1) by simp
  moreover have "list_all num_char (takeWhile num_char l)" by (auto simp: list_all_iff dest: set_takeWhileD)
  ultimately show thesis using frac c(2) by blast
qed

lemma scan_lit:
  assumes "good_lit l" and "stops rest"
  shows "scan_number F (l @ rest) = (fst (scan_number F l), rest)"
  using assms(1)
proof (cases rule: good_litE)
  case int
  then show ?thesis using assms(2) int_loop_append[OF _ int(1), of rest F "fint F 0"] int_loop_append[OF _ int(1), of "[]" F "fint F 0"]
    by (auto simp: scan_number_def stops_def split: prod.splits)
next
  case (frac i f)
  then show ?thesis using int_loop_append[OF _ frac(2), of "0x2E # f @ rest" F "fint F 0"] int_loop_append[OF _ frac(2), of "0x2E # f" F "fint F 0"]
      frac_loop_append[OF assms(2) frac(3)] frac_loop_append[OF _ frac(3), of "[]"]
    by (auto simp: scan_number_def stops_def split: prod.splits)
qed

lemma at_lit:
  assumes "at_text F a (l @ rest) s" and "good_lit l" and "stops rest"
  shows "tok_type s = TOK_NUM" and "tok_value s = fst (scan_number F l)" and "g_rest s = rest"
proof -
  have "\<exists>c cs. l = c # cs \<and> (num_char c \<or> c = 0x2E)" using assms(2)
  proof (cases rule: good_litE)
    case int
    then show ?thesis by (cases l) auto
  next
    case (frac i f)
    then show ?thesis by (cases i) auto
  qed
  then obtain c cs where c: "l = c # cs" "num_char c \<or> c = 0x2E" by blast
  have b: "c \<noteq> 0x20" using c(2) no_dot(2) by auto
  obtain u where u: "s = next_token F u" "g_rest u = l @ rest" using assms(1) by (auto simp: at_text_def)
  have "s = u\<lparr>tok_type := TOK_NUM, tok_value := fst (scan_number F l), g_rest := rest\<rparr>"
    using scan_lit[OF assms(2,3), of F] u c b by (simp add: next_token_def)
  then show "tok_type s = TOK_NUM" and "tok_value s = fst (scan_number F l)" and "g_rest s = rest" by simp_all
qed

lemma at_name:
  assumes "at_text F a (nm @ rest) s" and "nm \<noteq> []" and "list_all is_func_char nm" and "length nm \<le> 15" and "stops rest \<or> hd rest = 0x28"
  shows "\<exists>u. s = name_token F nm u \<and> g_rest u = rest"
proof -
  obtain u where u: "s = next_token F u" "g_rest u = nm @ rest" using assms(1) by (auto simp: at_text_def)
  obtain c cs where c: "nm = c # cs" using assms(2) by (cases nm) auto
  have fc: "is_func_char c" using assms(3) c by simp
  have not: "c \<noteq> 0x20" "\<not> num_char c" "c \<noteq> 0x2E" using fc by (auto simp: is_func_char_def num_char_def word_le_nat_alt)
  have r: "rest = [] \<or> \<not> is_func_char (hd rest)" using assms(5) by (auto simp: stops_def)
  have "takeWhile is_func_char (take 15 (nm @ rest)) = nm"
  proof (cases "length nm = 15 \<or> rest = []")
    case True
    then show ?thesis using assms(3,4) by (auto simp: list_all_iff takeWhile_eq_all_conv)
  next
    case False
    then obtain d ds where d: "rest = d # ds" "\<not> is_func_char d" using r by (cases rest) auto
    have "take 15 (nm @ rest) = nm @ d # take (14 - length nm) ds" using False assms(4) d(1) by (simp add: take_Cons' Suc_diff_le)
    then show ?thesis using assms(3) d(2) by (simp add: list_all_iff takeWhile_append2)
  qed
  then show ?thesis using u c fc not by (intro exI[of _ "u\<lparr>g_rest := rest\<rparr>"]) (simp add: next_token_def Let_def)
qed

lemma name_tokens:
  "tok_type (name_token F (ascii ''ans'') u) = TOK_ANS" "tok_type (name_token F (ascii ''sin'') u) = TOK_SIN"
  "tok_type (name_token F (ascii ''cos'') u) = TOK_COS" "tok_type (name_token F (ascii ''tan'') u) = TOK_TAN"
  "tok_type (name_token F (ascii ''sqrt'') u) = TOK_SQRT" "tok_type (name_token F (ascii ''log'') u) = TOK_LOG"
  "tok_type (name_token F (ascii ''ln'') u) = TOK_LN" "tok_type (name_token F (ascii ''abs'') u) = TOK_ABS"
  "tok_type (name_token F (ascii ''floor'') u) = TOK_FLOOR" "tok_type (name_token F (ascii ''ceil'') u) = TOK_CEIL"
  by (simp_all add: name_token_def ascii_def)

lemma letters: "list_all is_func_char (ascii ''ans'')" "is_func t \<Longrightarrow> list_all is_func_char (fn_name t)"
    "is_func t \<Longrightarrow> fn_name t \<noteq> [] \<and> length (fn_name t) \<le> 15"
  by (auto simp: is_func_def is_func_char_def ascii_def)

lemma names_good:
  "is_func t \<Longrightarrow> tok_type (name_token F (fn_name t) u) = t"
  unfolding is_func_def by (elim insertE emptyE) (simp_all only: fn_name.simps name_tokens)

lemma at_ans_token:
  assumes "at_text F a (ascii ''ans'' @ rest) s" and "stops rest"
  shows "tok_type s = TOK_ANS" and "g_rest s = rest"
proof -
  obtain u where "s = name_token F (ascii ''ans'') u" "g_rest u = rest"
    using at_name[OF assms(1) _ letters(1)] assms(2) by (auto simp: ascii_def)
  then show "tok_type s = TOK_ANS" and "g_rest s = rest" by (simp_all only: name_tokens name_token_ans)
qed

lemma at_fn:
  assumes "at_text F a (fn_name t @ 0x28 # tx) s" and "is_func t"
  shows "tok_type s = t" and "g_rest s = 0x28 # tx"
proof -
  obtain u where "s = name_token F (fn_name t) u" "g_rest u = 0x28 # tx"
    using at_name[OF assms(1) _ letters(2)[OF assms(2)]] letters(3)[OF assms(2)] by auto
  then show "tok_type s = t" and "g_rest s = 0x28 # tx" by (simp_all only: names_good[OF assms(2)] name_token_ans)
qed

lemma op_token: "is_op t \<Longrightarrow> char_token (op_char t) = t \<and> stops (op_char t # tx)"
  by (auto simp: is_op_def char_token_def stops_def num_char_def is_func_char_def)

lemma paren_stops [simp]: "stops (0x28 # tx)" "stops (0x29 # tx)" "stops (0x2D # tx)"
  by (simp_all add: stops_def num_char_def is_func_char_def)

lemma stops_hd: "stops (c # tx) \<Longrightarrow> stops [c]"
  by (simp add: stops_def)

lemma paren_tokens [simp]: "char_token 0x28 = TOK_LPAREN" "char_token 0x29 = TOK_RPAREN" "char_token 0x2D = TOK_MINUS"
  by (simp_all add: char_token_def)

text \<open>The precedence of what follows a text.\<close>

definition rest_prec :: "u8 list \<Rightarrow> int" where
  "rest_prec rest = (if rest = [] then - 1 else get_prec (char_token (hd rest)))"

lemma at_rest: "at_text F a rest s \<Longrightarrow> stops rest \<Longrightarrow> get_prec (tok_type s) = rest_prec rest"
  by (cases rest) (auto simp: rest_prec_def at_end at_char(1) dest: stops_hd)

section \<open>Parsing\<close>

text \<open>What \<open>parse_primary\<close> and \<open>parse_expr\<close> do on the text of an expression.\<close>

definition primary_ok :: "'d fops \<Rightarrow> 'd \<Rightarrow> aexp \<Rightarrow> bool" where
  "primary_ok F a e \<longleftrightarrow> (\<forall>rest s. stops rest \<longrightarrow> at_text F a (show_exp 4 e @ rest) s \<longrightarrow>
     (\<exists>s'. at_text F a rest s' \<and> parse_primary F s = map_option (\<lambda>v. (v, s')) (eval F a e)))"

definition expr_ok :: "'d fops \<Rightarrow> 'd \<Rightarrow> aexp \<Rightarrow> nat \<Rightarrow> bool" where
  "expr_ok F a e q \<longleftrightarrow> (\<forall>m rest s. stops rest \<longrightarrow> m \<le> q \<longrightarrow> rest_prec rest \<le> int q \<longrightarrow> at_text F a (show_exp q e @ rest) s \<longrightarrow>
     (\<exists>s'. at_text F a rest s' \<and> parse_expr F m s = Option.bind (eval F a e) (\<lambda>v. parse_loop F m v s')))"

lemma expr_okD:
  assumes "expr_ok F a e q" and "stops rest" and "m \<le> q" and "rest_prec rest \<le> int q" and "at_text F a (show_exp q e @ rest) s"
  obtains s' where "at_text F a rest s'" and "parse_expr F m s = Option.bind (eval F a e) (\<lambda>v. parse_loop F m v s')"
  using assms unfolding expr_ok_def by blast

lemma loop_ends: "get_prec (tok_type s) < int m \<Longrightarrow> parse_loop F m v s = Some (v, s)"
  by (subst parse_loop.simps) simp

lemma primary_expr:
  assumes "primary_ok F a e" and "show_exp q e = show_exp 4 e"
  shows "expr_ok F a e q"
  unfolding expr_ok_def
proof (intro allI impI)
  fix m rest s
  assume "stops rest" "at_text F a (show_exp q e @ rest) s"
  then obtain s' where "at_text F a rest s'" "parse_primary F s = map_option (\<lambda>v. (v, s')) (eval F a e)"
    using assms unfolding primary_ok_def by auto
  then show "\<exists>s'. at_text F a rest s' \<and> parse_expr F m s = Option.bind (eval F a e) (\<lambda>v. parse_loop F m v s')"
    by (intro exI[of _ s']) (auto simp: parse_expr.simps[of F m s] split: option.splits)
qed

text \<open>An expression in parentheses.\<close>

lemma paren_ok:
  assumes "expr_ok F a e 0" and "stops rest" and "at_text F a (show_exp 0 e @ 0x29 # rest) s"
  shows "\<exists>s'. at_text F a rest (skip_token F TOK_RPAREN s') \<and> parse_expr F 0 s = map_option (\<lambda>v. (v, s')) (eval F a e)"
proof -
  have "rest_prec (0x29 # rest) \<le> int 0" by (simp add: rest_prec_def)
  then obtain s' where s': "at_text F a (0x29 # rest) s'" "parse_expr F 0 s = Option.bind (eval F a e) (\<lambda>v. parse_loop F 0 v s')"
    using expr_okD[OF assms(1) _ _ _ assms(3), of 0] by auto
  have t: "tok_type s' = TOK_RPAREN" "g_rest s' = rest" using at_char[OF s'(1)] by simp_all
  have "at_text F a rest (skip_token F TOK_RPAREN s')" using at_next[OF s'(1) t(2)] t(1) by (simp add: skip_token_def)
  moreover have "parse_loop F 0 v s' = Some (v, s')" for v by (rule loop_ends) (simp add: t)
  ultimately show ?thesis using s'(2) by (intro exI[of _ s']) (cases "eval F a e"; simp)
qed

lemma bin_prec: "is_op t \<Longrightarrow> 0 < get_prec t"
  by (auto simp: is_op_def)

lemma bin_loop:
  assumes t: "is_op t" and l: "expr_ok F a l (nat (get_prec t))" and r: "expr_ok F a r (nat (get_prec t) + 1)" and q: "q \<le> nat (get_prec t)"
  shows "expr_ok F a (Bin t l r) q"
  unfolding expr_ok_def
proof (intro allI impI)
  fix m rest s
  assume h: "stops rest" "m \<le> q" "rest_prec rest \<le> int q" "at_text F a (show_exp q (Bin t l r) @ rest) s"
  let ?p = "nat (get_prec t)"
  have p: "int ?p = get_prec t" "\<not> ?p < q" using bin_prec[OF t] q by simp_all
  have tx: "at_text F a (show_exp ?p l @ op_char t # show_exp (?p + 1) r @ rest) s" using h(4) p(2) by (simp add: Let_def)
  note op = op_token[OF t, of "show_exp (?p + 1) r @ rest"]
  have rp: "rest_prec (op_char t # show_exp (?p + 1) r @ rest) \<le> int ?p" using op p by (simp add: rest_prec_def)
  have mp: "m \<le> ?p" using h(2) q by simp
  obtain s1 where s1: "at_text F a (op_char t # show_exp (?p + 1) r @ rest) s1" "parse_expr F m s = Option.bind (eval F a l) (\<lambda>v. parse_loop F m v s1)"
    by (rule expr_okD[OF l conjunct2[OF op] mp rp tx])
  have k: "tok_type s1 = t" "g_rest s1 = show_exp (?p + 1) r @ rest"
    using at_char[OF s1(1) stops_hd[OF conjunct2[OF op]]] conjunct1[OF op] by simp_all
  have rp2: "rest_prec rest \<le> int (?p + 1)" using h(3) q by linarith
  obtain s2 where s2: "at_text F a rest s2" "parse_expr F (?p + 1) (next_token F s1) = Option.bind (eval F a r) (\<lambda>v. parse_loop F (?p + 1) v s2)"
    by (rule expr_okD[OF r h(1) order_refl rp2 at_next[OF s1(1) k(2)]])
  have "parse_loop F (?p + 1) v s2 = Some (v, s2)" for v by (rule loop_ends) (use at_rest[OF s2(1) h(1)] h(3) q in linarith)
  then have e: "parse_expr F (?p + 1) (next_token F s1) = map_option (\<lambda>v. (v, s2)) (eval F a r)" using s2(2) by (cases "eval F a r") simp_all
  have "get_prec t \<ge> int m" "nat (get_prec t + 1) = ?p + 1" using h(2) q p(1) by linarith+
  then have "parse_loop F m v s1 = Option.bind (eval F a r) (\<lambda>y. Option.bind (apply_binop F t v y) (\<lambda>w. parse_loop F m w s2))" for v
    using e k by (subst parse_loop.simps) (auto split: option.splits)
  then show "\<exists>s'. at_text F a rest s' \<and> parse_expr F m s = Option.bind (eval F a (Bin t l r)) (\<lambda>v. parse_loop F m v s')"
    using s1(2) s2(1) by (intro exI[of _ s2]) (cases "eval F a l"; cases "eval F a r"; simp)
qed

lemma paren_primary:
  assumes "expr_ok F a e 0" and "show_exp 4 e = [0x28] @ show_exp 0 e @ [0x29]"
  shows "primary_ok F a e"
  unfolding primary_ok_def
proof (intro allI impI)
  fix rest s
  assume h: "stops rest" "at_text F a (show_exp 4 e @ rest) s"
  have tx: "at_text F a (0x28 # show_exp 0 e @ 0x29 # rest) s" using h(2) assms(2) by simp
  have k: "tok_type s = TOK_LPAREN" "g_rest s = show_exp 0 e @ 0x29 # rest" using at_char[OF tx] by simp_all
  obtain s' where "at_text F a rest (skip_token F TOK_RPAREN s')" "parse_expr F 0 (next_token F s) = map_option (\<lambda>v. (v, s')) (eval F a e)"
    using paren_ok[OF assms(1) h(1) at_next[OF tx k(2)]] by blast
  then show "\<exists>s'. at_text F a rest s' \<and> parse_primary F s = map_option (\<lambda>v. (v, s')) (eval F a e)"
    using k(1) by (intro exI[of _ "skip_token F TOK_RPAREN s'"]) (auto simp: parse_primary.simps[of F s] split: option.splits)
qed

lemma app_primary:
  assumes t: "is_func t" and e: "expr_ok F a e 0"
  shows "primary_ok F a (App t e)"
  unfolding primary_ok_def
proof (intro allI impI)
  fix rest s
  assume h: "stops rest" "at_text F a (show_exp 4 (App t e) @ rest) s"
  have tx: "at_text F a (fn_name t @ 0x28 # show_exp 0 e @ 0x29 # rest) s" using h(2) by simp
  note k = at_fn[OF tx t]
  have s1: "at_text F a (0x28 # show_exp 0 e @ 0x29 # rest) (next_token F s)" by (rule at_next[OF tx k(2)])
  have k1: "tok_type (next_token F s) = TOK_LPAREN" "g_rest (next_token F s) = show_exp 0 e @ 0x29 # rest" using at_char[OF s1] by simp_all
  have s2: "at_text F a (show_exp 0 e @ 0x29 # rest) (skip_token F TOK_LPAREN (next_token F s))"
    using at_next[OF s1 k1(2)] k1(1) by (simp add: skip_token_def)
  obtain s' where s': "at_text F a rest (skip_token F TOK_RPAREN s')"
      "parse_expr F 0 (skip_token F TOK_LPAREN (next_token F s)) = map_option (\<lambda>v. (v, s')) (eval F a e)"
    using paren_ok[OF e h(1) s2] by blast
  have "parse_primary F s = map_option (\<lambda>v. (v, skip_token F TOK_RPAREN s')) (eval F a (App t e))"
    using k(1) t s'(2) by (auto simp: parse_primary.simps[of F s] is_func_def option.map_comp split: option.splits)
  then show "\<exists>s'. at_text F a rest s' \<and> parse_primary F s = map_option (\<lambda>v. (v, s')) (eval F a (App t e))" using s'(1) by blast
qed

lemma parse_ok: "wf_exp e \<Longrightarrow> primary_ok F a e \<and> (\<forall>q. expr_ok F a e q)"
proof (induction e)
  case (Lit l)
  have "primary_ok F a (Lit l)"
    unfolding primary_ok_def
  proof (intro allI impI)
    fix rest s
    assume "stops rest" and tx: "at_text F a (show_exp 4 (Lit l) @ rest) s"
    then have k: "tok_type s = TOK_NUM" "tok_value s = fst (scan_number F l)" "g_rest s = rest" using at_lit[of F a l rest s] Lit by simp_all
    then show "\<exists>s'. at_text F a rest s' \<and> parse_primary F s = map_option (\<lambda>v. (v, s')) (eval F a (Lit l))"
      using at_next[OF tx k(3)] by (intro exI[of _ "next_token F s"]) (simp add: parse_primary.simps[of F s])
  qed
  then show ?case using primary_expr by force
next
  case Ans
  have "primary_ok F a Ans"
    unfolding primary_ok_def
  proof (intro allI impI)
    fix rest s
    assume "stops rest" and tx: "at_text F a (show_exp 4 Ans @ rest) s"
    then have k: "tok_type s = TOK_ANS" "g_rest s = rest" using at_ans_token[of F a rest s] by simp_all
    then show "\<exists>s'. at_text F a rest s' \<and> parse_primary F s = map_option (\<lambda>v. (v, s')) (eval F a Ans)"
      using at_next[OF tx k(2)] at_ans[OF tx] by (intro exI[of _ "next_token F s"]) (simp add: parse_primary.simps[of F s])
  qed
  then show ?case using primary_expr by force
next
  case (Bin t l r)
  have t: "is_op t" "get_prec t < 4" using Bin.prems by (auto simp: is_op_def)
  have e: "expr_ok F a (Bin t l r) q" if "q \<le> nat (get_prec t)" for q
    by (rule bin_loop[OF t(1) _ _ that]) (use Bin in auto)
  have p: "primary_ok F a (Bin t l r)" by (rule paren_primary[OF e]) (use t in \<open>simp_all add: Let_def\<close>)
  have "expr_ok F a (Bin t l r) q" if "nat (get_prec t) < q" for q by (rule primary_expr[OF p]) (use that t in \<open>simp add: Let_def\<close>)
  then show ?case using e p by (meson not_le)
next
  case (Neg e)
  have "primary_ok F a (Neg e)"
    unfolding primary_ok_def
  proof (intro allI impI)
    fix rest s
    assume h: "stops rest" "at_text F a (show_exp 4 (Neg e) @ rest) s"
    have k: "tok_type s = TOK_MINUS" "g_rest s = show_exp 4 e @ rest" using at_char[of F a "0x2D" "show_exp 4 e @ rest" s] h(2) by simp_all
    obtain s' where "at_text F a rest s'" "parse_primary F (next_token F s) = map_option (\<lambda>v. (v, s')) (eval F a e)"
      using Neg.IH Neg.prems at_next[OF h(2) k(2)] h(1) unfolding primary_ok_def wf_exp.simps by blast
    then show "\<exists>s'. at_text F a rest s' \<and> parse_primary F s = map_option (\<lambda>v. (v, s')) (eval F a (Neg e))"
      using k(1) by (intro exI[of _ s']) (simp add: parse_primary.simps[of F s] is_func_def option.map_comp comp_def)
  qed
  then show ?case using primary_expr by force
next
  case (App t e)
  then have "is_func t" "expr_ok F a e 0" by auto
  then have "primary_ok F a (App t e)" by (rule app_primary)
  then show ?case using primary_expr by force
qed


text \<open>Integer arithmetic in place of \<^verbatim>\<open>double\<close>, for concrete runs.\<close>

definition int_ops :: "int fops" where
  "int_ops = \<lparr>fadd = (+), fsub = (-), fmul = (*), fdiv = (div), fneg = uminus, flt = (<), feq = (=), fint = id,
     to_i64 = word_of_int, to_u64 = word_of_int, to_i32 = word_of_int, fdec = (\<lambda>_. 0)\<rparr>"

definition blank_calc :: "'d fops \<Rightarrow> 'd calc" where
  "blank_calc F = \<lparr>tok_type = TOK_END, tok_value = fint F 0, g_ans = fint F 0, g_rest = []\<rparr>"

definition sample :: aexp where
  "sample = Bin TOK_MUL (Bin TOK_MINUS (Bin TOK_MINUS (Lit (ascii ''10'')) (Lit (ascii ''4''))) (Lit (ascii ''3''))) (Neg (Lit (ascii ''5'')))"


section \<open>Every line comes to an end\<close>

text \<open>The percent sign is not ahead.\<close>

definition no_rem :: "'d calc \<Rightarrow> bool" where
  "no_rem s \<longleftrightarrow> 0x25 \<notin> set (g_rest s) \<and> tok_type s \<noteq> TOK_MOD"

lemma int_loop_set: "set (snd (int_loop F n cs)) \<subseteq> set cs"
  by (induction F n cs rule: int_loop.induct) auto

lemma frac_loop_set: "set (snd (frac_loop F n fr cs)) \<subseteq> set cs"
  by (induction F n fr cs rule: frac_loop.induct) (auto simp: Let_def)

lemma scan_number_set: "set (snd (scan_number F cs)) \<subseteq> set cs"
proof -
  obtain n r where i: "int_loop F (fint F 0) cs = (n, r)" by fastforce
  have "set r \<subseteq> set cs" using int_loop_set[of F "fint F 0" cs] i by simp
  moreover have "set (tl r) \<subseteq> set r" by (cases r) auto
  ultimately show ?thesis using frac_loop_set[of F n "fint F 1" "tl r"] by (auto simp: scan_number_def i)
qed

lemma next_token_no_rem: "0x25 \<notin> set (g_rest s) \<Longrightarrow> no_rem (next_token F s)"
proof -
  assume h: "0x25 \<notin> set (g_rest s)"
  have d: "set (dropWhile (\<lambda>c. c = 0x20) (g_rest s)) \<subseteq> set (g_rest s)" by (auto dest: set_dropWhileD)
  show ?thesis
  proof (cases "dropWhile (\<lambda>c. c = 0x20) (g_rest s)")
    case Nil
    show ?thesis by (simp add: next_token_def no_rem_def Nil)
  next
    case (Cons c cs)
    have n: "0x25 \<notin> set (c # cs)" using d h unfolding Cons by blast
    have nm: "tok_type (name_token F nm u) \<noteq> TOK_MOD" for nm u by (simp add: name_token_def)
    have dr: "0x25 \<notin> set (drop k cs)" for k using n in_set_dropD[of "0x25" k cs] by auto
    have "0x25 \<notin> set (snd (scan_number F (c # cs)))" using scan_number_set[of F "c # cs"] n by blast
    moreover have "char_token c \<noteq> TOK_MOD" using n by (auto simp: char_token_def)
    ultimately show ?thesis using n dr nm
      by (cases "scan_number F (c # cs)") (simp add: next_token_def no_rem_def Cons Let_def)
  qed
qed

lemma no_rem_next: "no_rem s \<Longrightarrow> no_rem (next_token F s)" "no_rem s \<Longrightarrow> no_rem (skip_token F t s)"
  using next_token_no_rem by (auto simp: no_rem_def skip_token_def)

lemma apply_binop_total: "t \<noteq> TOK_MOD \<Longrightarrow> \<exists>v. apply_binop F t x y = Some v"
  by (cases t) simp_all

lemma parse_returns:
  "no_rem s \<Longrightarrow> \<exists>v t. parse_expr F m s = Some (v, t) \<and> no_rem t"
  "no_rem s \<Longrightarrow> \<exists>v t. parse_loop F m l s = Some (v, t) \<and> no_rem t"
  "no_rem s \<Longrightarrow> \<exists>v t. parse_primary F s = Some (v, t) \<and> no_rem t"
proof (induction F m s and F m l s and F s rule: parse_expr_parse_loop_parse_primary.induct)
  case (1 F m s)
  then show ?case by (subst parse_expr.simps) fastforce
next
  case (2 F m l s)
  show ?case
  proof (cases "get_prec (tok_type s) \<ge> int m")
    case True
    obtain r s1 where r: "parse_expr F (nat (get_prec (tok_type s) + 1)) (next_token F s) = Some (r, s1)" "no_rem s1"
      using 2(1)[OF True no_rem_next(1)[OF 2(3)]] by blast
    obtain v where v: "apply_binop F (tok_type s) l r = Some v" using apply_binop_total[of "tok_type s" F l r] 2(3) by (auto simp: no_rem_def)
    show ?thesis using 2(2)[OF True r(1) refl v r(2)] True r v by (subst parse_loop.simps) simp
  next
    case False
    then show ?thesis using 2(3) by (subst parse_loop.simps) simp
  qed
next
  case (3 F s)
  note IH = "3.IH" and s = "3.prems"
  have n: "no_rem (next_token F s)" "no_rem (skip_token F TOK_LPAREN (next_token F s))" using no_rem_next s by blast+
  consider "tok_type s = TOK_LPAREN" | "is_func (tok_type s)" | "tok_type s = TOK_MINUS" | "tok_type s = TOK_PLUS"
    | "tok_type s \<notin> {TOK_LPAREN, TOK_MINUS, TOK_PLUS}" "\<not> is_func (tok_type s)" by blast
  then show ?case
  proof cases
    case 1
    then obtain v t where "parse_expr F 0 (next_token F s) = Some (v, t)" "no_rem t" using IH(1)[OF _ _ 1 n(1)] by auto
    then show ?thesis using 1 no_rem_next(2)[of t F] by (subst parse_primary.simps) simp
  next
    case 2
    then have "tok_type s \<noteq> TOK_NUM" "tok_type s \<noteq> TOK_ANS" "tok_type s \<noteq> TOK_LPAREN" by (auto simp: is_func_def)
    moreover from this obtain v t where "parse_expr F 0 (skip_token F TOK_LPAREN (next_token F s)) = Some (v, t)" "no_rem t"
      using IH(2)[OF _ _ _ 2 n(2)] by auto
    ultimately show ?thesis using 2 no_rem_next(2)[of t F] by (subst parse_primary.simps) simp
  next
    case 3
    then have f: "\<not> is_func (tok_type s)" by (simp add: is_func_def)
    obtain v t where "parse_primary F (next_token F s) = Some (v, t)" "no_rem t" using IH(3)[OF _ _ _ f 3 n(1)] 3 by auto
    then show ?thesis using 3 f by (subst parse_primary.simps) simp
  next
    case 4
    then have f: "\<not> is_func (tok_type s)" by (simp add: is_func_def)
    obtain v t where "parse_primary F (next_token F s) = Some (v, t)" "no_rem t" using IH(4)[OF _ _ _ f _ 4 n(1)] 4 by auto
    then show ?thesis using 4 f by (subst parse_primary.simps) simp
  next
    case 5
    then show ?thesis using n(1) s by (subst parse_primary.simps) simp
  qed
qed

text \<open>
  C40: Every line comes to an end. Whatever bytes a line holds, well formed or not, reading it ends and gives a
  number, provided that it contains no percent sign, the one operator on which the processor can trap.
\<close>

theorem calculator_always_answers:
  assumes "0x25 \<notin> set line"
  shows "\<exists>v s'. calc_eval F line s = Some (v, s')"
  using parse_returns(1)[of "next_token F (s\<lparr>g_rest := line\<rparr>)" F 0] next_token_no_rem[of "s\<lparr>g_rest := line\<rparr>" F] assms
  by (auto simp: calc_eval_def)

text \<open>
  C40, for a line that makes no sense.
\<close>

theorem calculator_always_answers_witness: "\<exists>v s'. calc_eval int_ops (ascii '')) sin ((* 3 x'') (blank_calc int_ops) = Some (v, s')"
  by (rule calculator_always_answers) (simp add: ascii_def)

text \<open>A remainder by zero traps.\<close>

lemma remainder_by_zero_traps: "calc_eval int_ops (ascii ''7%0'') (blank_calc int_ops) = None"
  by code_simp

end
