(* ===== verification/Spec2Isabelle.thy ===== *)
theory Spec2Isabelle
  imports Vmm Kheap Proc Auth Aresfs_Correct Ata_Sim Irq Editor_Screen Editor_Files Calc_Correct
begin

text \<open>
  A verification development for the ARES-OS kernel.
\<close>

section \<open>The file system on a disk\<close>

text \<open>The kernel at power-on: the driver has not looked for a drive and the file system's globals are zero.\<close>

definition power_on :: "'b \<Rightarrow> 'b ata fs" where
  "power_on b = \<lparr>disk = \<lparr>bus = b, g_ata_present = False\<rparr>, g_sb = zero_sb, g_block_bitmap = zero_block,
     g_inode_bitmap = zero_block, g_mounted = False, g_fds = replicate 16 zero_fd\<rparr>"

text \<open>
  C6. Files survive a restart. Take any ATA drive that refuses no command three times in a row, in whatever
  phase the restart finds it, and any well-formed file system on its medium. Booting the kernel - \<open>fs_init\<close>
  over the disk driver, which resets and identifies the drive, reads and checks the superblock and loads
  the bitmaps - reports the mount, and afterwards every path leads where it led, every file has its contents,
  every directory its entries, and all descriptors are closed.
\<close>

theorem files_survive_reboot:
  fixes b :: 'b
  assumes L: "ata_drive io obs cap" and cap: "6144 \<le> cap" and m: "whole_media cap (media (obs b))"
    and inv: "fs_inv t" and t: "disk t = media (obs b)"
  shows "\<exists>u. run_state (fs_init (ata_driver io)) (power_on b) = ([Probing, Drive_present, Mounted (total_blocks (g_sb t)) 512], u) \<and>
    ata_ok obs cap (disk u) \<and> fs_inv (on_view (ata_view obs) u) \<and> g_fds u = replicate 16 zero_fd \<and>
    lookup (on_view (ata_view obs) u) = lookup t \<and> contents (on_view (ata_view obs) u) = contents t \<and>
    entry (on_view (ata_view obs) u) = entry t"
proof -
  have w: "whole_media cap (ata_view obs (disk (power_on b)))" using m by (simp add: power_on_def ata_view_def)
  have init: "ata_ok obs cap (drv_init (ata_driver io) (disk (power_on b)))"
      "ata_view obs (drv_init (ata_driver io) (disk (power_on b))) = disk t"
    using ata_init_run[OF L w] t by (simp_all add: ata_driver_def power_on_def ata_view_def)
  obtain u where u: "run_state (fs_init (ata_driver io)) (power_on b) = ([Probing, Drive_present, Mounted (total_blocks (g_sb t)) 512], u)"
      "ata_ok obs cap (disk u)" "on_view (ata_view obs) u = t\<lparr>g_fds := replicate 16 zero_fd\<rparr>" "fs_inv (on_view (ata_view obs) u)"
    by (rule boot_on_driver[OF ata_disk_driver[OF L cap] inv init]) (simp_all add: power_on_def)
  have "g_fds u = g_fds (on_view (ata_view obs) u)" by simp
  then have "g_fds u = replicate 16 zero_fd" unfolding u(3) by simp
  then show ?thesis using u by (intro exI[of _ u]) simp
qed

text \<open>Witness of C6: the simulated drive with a formatted medium that holds one file.\<close>

theorem files_survive_reboot_witness:
  "\<exists>u. run_state (fs_init (ata_driver sim_ports)) (power_on \<lparr>phase = Data_in [1], wait = 9, fails = 0, regs = (\<lambda>_. 0), media = disk open_fs\<rparr>) =
     ([Probing, Drive_present, Mounted 4096 512], u) \<and> contents (on_view (ata_view sim_obs) u) 2 = []"
proof -
  have "whole_media 6144 (disk open_fs)"
    using open_fs_facts(2) by (simp add: whole_media_def whole_sectors_def word_less_nat_alt)
  moreover have "total_blocks (g_sb open_fs) = 4096"
    by (simp add: open_fs_def Let_def fresh_state_def fresh_sb_def)
  ultimately show ?thesis
    using files_survive_reboot[OF sim_drive[of 6144] _ _ open_fs_facts(1),
        of "\<lparr>phase = Data_in [1], wait = 9, fails = 0, regs = (\<lambda>_. 0), media = disk open_fs\<rparr>"] open_fs_facts(4)
    by auto
qed

end
